(* ===== verification/Prelude.thy ===== *)
theory Prelude
  imports Main "HOL-Library.AList" "HOL-Library.List_Lexorder" "HOL-Library.Product_Lexorder"
begin

section \<open>Prelude: the vocabulary of the model\<close>

text \<open>
  What every component shares: Python text, bytes, clock readings and dynamically typed
  values; the exception classes as an error type with the class hierarchy the handlers of
  the source rely on; results as \<open>py_error + 'a\<close>; dictionaries as association lists in
  insertion order (the library's \<^theory_text>\<open>AList\<close>); and the list lemmas several components use.

  A Python \<open>str\<close> is the list of its code points, a \<open>bytes\<close> object the list of its
  octets (type \<^typ>\<open>char\<close>), a clock reading a whole number of ticks of some fixed
  resolution (the rounding of binary floating point is not modelled).
\<close>

type_synonym pystr = "nat list"
type_synonym bytes = "char list"
type_synonym time = int

text \<open>A string literal of the source (ASCII) as text.\<close>

definition lit :: "string \<Rightarrow> pystr" where
  "lit s = map of_char s"

text \<open>\<open>ordinary\<close> code points: what a Python string can hold.\<close>

definition wf_text :: "pystr \<Rightarrow> bool" where
  "wf_text s \<longleftrightarrow> list_all (\<lambda>c. c < 0x110000) s"

subsection \<open>Exceptions and results\<close>

datatype py_error =
    TypeError | ValueError | KeyError | IndexError | RuntimeError | AssertionError
  | AttributeError | UnicodeEncodeError | UnicodeDecodeError
  | ZoneResolutionError | UnknownZoneError | CircularZoneReferenceError
  | RuntimeRoutingConfigError | RoutingCandidateConfigError
  | StaleRoutingGenerationError int int
  | NetworkPolicyConfigError | ForwarderConfigError | UnknownForwarderTargetError
  | RuntimeControlConfigError | InputConfigError | OutputConfigError | ProxyConfigError
  | AismixerCtlInputError | OSError | ControlSocketPathError | InvalidTag
  | RoutingControlClientError | RoutingControlConnectionError | RoutingControlResponseError | RoutingControlResponseTooLargeError
  | KeyFileExistsError | OverflowError | SocketTimeout | ConnectionResetError | PermissionError
  | FileNotFoundError | FileExistsError | BrokenPipeError | QueueFull | EOFError | YAMLError
  | ArgumentTypeError | CancelledError | KeyboardInterrupt | SystemExit int

text \<open>The subclass relation to \<open>ValueError\<close>: what \<open>except ValueError\<close> catches.\<close>

definition is_value_error :: "py_error \<Rightarrow> bool" where
  "is_value_error e \<longleftrightarrow> e \<in> {ValueError, UnicodeEncodeError, UnicodeDecodeError,
     ZoneResolutionError, UnknownZoneError, CircularZoneReferenceError,
     RuntimeRoutingConfigError, RoutingCandidateConfigError,
     NetworkPolicyConfigError, ForwarderConfigError, UnknownForwarderTargetError,
     RuntimeControlConfigError, InputConfigError, OutputConfigError, ProxyConfigError,
     AismixerCtlInputError}"

text \<open>
  The subclass relation to \<open>OSError\<close> (\<open>socket.timeout\<close> is \<open>TimeoutError\<close>), and to
  \<open>Exception\<close>, outside which cancellation and the exit of the interpreter lie.
\<close>

definition is_os_error :: "py_error \<Rightarrow> bool" where
  "is_os_error e \<longleftrightarrow> e \<in> {OSError, ControlSocketPathError, SocketTimeout, ConnectionResetError,
     PermissionError, FileNotFoundError, FileExistsError, BrokenPipeError}"

definition is_exception :: "py_error \<Rightarrow> bool" where
  "is_exception e \<longleftrightarrow> (case e of CancelledError \<Rightarrow> False | KeyboardInterrupt \<Rightarrow> False | SystemExit _ \<Rightarrow> False | _ \<Rightarrow> True)"

type_synonym 'a res = "py_error + 'a"

text \<open>Sequencing: an exception skips the rest.\<close>

fun rbind :: "'a res \<Rightarrow> ('a \<Rightarrow> 'b res) \<Rightarrow> 'b res" where
  "rbind (Inl e) f = Inl e"
| "rbind (Inr x) f = f x"

text \<open>The comprehension \<open>[f(x) for x in xs]\<close> with an \<open>f\<close> that may raise.\<close>

fun rmap :: "('a \<Rightarrow> 'b res) \<Rightarrow> 'a list \<Rightarrow> 'b list res" where
  "rmap f [] = Inr []"
| "rmap f (x # xs) = rbind (f x) (\<lambda>y. rbind (rmap f xs) (\<lambda>ys. Inr (y # ys)))"

lemma rbind_Inr_iff: "rbind r f = Inr y \<longleftrightarrow> (\<exists>x. r = Inr x \<and> f x = Inr y)"
  by (cases r) auto

lemma rbind_Inl_iff:
  "rbind r f = Inl e \<longleftrightarrow> r = Inl e \<or> (\<exists>x. r = Inr x \<and> f x = Inl e)"
  by (cases r) auto

lemma rbind_cong [fundef_cong]:
  "r = r' \<Longrightarrow> (\<And>x. r' = Inr x \<Longrightarrow> f x = g x) \<Longrightarrow> rbind r f = rbind r' g"
  by (cases r') auto

lemma rmap_Inr_iff:
  "rmap f xs = Inr ys \<longleftrightarrow> list_all2 (\<lambda>x y. f x = Inr y) xs ys"
  by (induction xs arbitrary: ys)
    (auto simp: rbind_Inr_iff list_all2_Cons1)

lemma rmap_cong:
  "xs = ys \<Longrightarrow> (\<And>x. x \<in> set ys \<Longrightarrow> f x = g x) \<Longrightarrow> rmap f xs = rmap g ys"
  by (induction ys arbitrary: xs) auto

lemma rmap_total:
  "(\<And>x. x \<in> set xs \<Longrightarrow> f x = Inr (g x)) \<Longrightarrow> rmap f xs = Inr (map g xs)"
  by (induction xs) auto

subsection \<open>Dynamically typed values\<close>

text \<open>
  The values a YAML or JSON document and the callers' arguments consist of. \<open>PFloat\<close> is
  a float in ticks of the clock resolution; \<open>POther\<close> is any object of another type.
\<close>

datatype pyval =
    PNone | PBool bool | PInt int | PFloat int | PStr pystr | PBytes bytes
  | PList "pyval list" | PDict "(pyval \<times> pyval) list" | POther

text \<open>\<open>isinstance(v, int) and not isinstance(v, bool)\<close>\<close>

fun as_int :: "pyval \<Rightarrow> int option" where
  "as_int (PInt i) = Some i"
| "as_int _ = None"

fun as_str :: "pyval \<Rightarrow> pystr option" where
  "as_str (PStr s) = Some s"
| "as_str _ = None"

text \<open>Optional positive limits (\<open>max_entries\<close>, \<open>max_pending_groups\<close>, ...): None, or an int of at least 1.\<close>

fun optional_limit :: "pyval \<Rightarrow> int option res" where
  "optional_limit PNone = Inr None"
| "optional_limit (PInt i) = (if i < 1 then Inl ValueError else Inr (Some i))"
| "optional_limit _ = Inl TypeError"

lemma optional_limit_pos: "optional_limit v = Inr (Some m) \<Longrightarrow> 1 \<le> m"
  by (cases v) (auto split: if_splits)

text \<open>What such a limit says of a number.\<close>

fun within :: "int option \<Rightarrow> int \<Rightarrow> bool" where
  "within None x = True"
| "within (Some m) x = (x \<le> m)"

definition limit_pos :: "int option \<Rightarrow> bool" where
  "limit_pos lim \<longleftrightarrow> (\<forall>m. lim = Some m \<longrightarrow> 1 \<le> m)"

lemma limit_pos_simps [simp]: "limit_pos None" "limit_pos (Some m) \<longleftrightarrow> 1 \<le> m"
  by (simp_all add: limit_pos_def)

lemma optional_limit_limit_pos: "optional_limit v = Inr l \<Longrightarrow> limit_pos l"
  using optional_limit_pos by (auto simp: limit_pos_def)

lemma within_mono: "within l x \<Longrightarrow> y \<le> x \<Longrightarrow> within l y"
  by (cases l) auto

lemma within_pos: "limit_pos l \<Longrightarrow> x \<le> 1 \<Longrightarrow> within l x"
  by (cases l) auto

subsection \<open>Dictionaries in insertion order\<close>

abbreviation keys :: "('k \<times> 'v) list \<Rightarrow> 'k list" where
  "keys d \<equiv> map fst d"

lemma length_delete:
  "distinct (keys d) \<Longrightarrow> map_of d k = Some v \<Longrightarrow> length d = Suc (length (AList.delete k d))"
proof (induction d)
  case (Cons p d)
  show ?case
  proof (cases "fst p = k")
    case True
    with Cons.prems(1) have "k \<notin> set (keys d)" by auto
    then have "AList.delete k d = d" by (induction d) auto
    with True show ?thesis by simp
  next
    case False
    with Cons show ?thesis by (cases p) simp
  qed
qed simp

lemma delete_fresh [simp]: "k \<notin> set (keys d) \<Longrightarrow> AList.delete k d = d"
  by (induction d) auto

lemma update_fresh [simp]: "k \<notin> set (keys d) \<Longrightarrow> AList.update k v d = d @ [(k, v)]"
  by (induction d) auto

lemma keys_delete: "keys (AList.delete k d) = filter (\<lambda>k'. k \<noteq> k') (keys d)"
  by (induction d) auto

lemma set_delete: "set (AList.delete k d) = {p \<in> set d. fst p \<noteq> k}"
  by (induction d) auto

lemma set_update: "set (AList.update k v d) \<subseteq> insert (k, v) (set d)"
  by (induction d) auto

lemma set_keys_delete: "set (keys (AList.delete k d)) = set (keys d) - {k}"
  by (auto simp: keys_delete)

lemma set_keys_update: "set (keys (AList.update k v d)) = insert k (set (keys d))"
  by (auto simp: AList.update_keys)

lemma key_update [simp]: "k \<in> fst ` set (AList.update k v d)"
  by (induction d) auto

lemma distinct_keys_delete: "distinct (keys d) \<Longrightarrow> distinct (keys (AList.delete k d))"
  by (simp add: keys_delete)

lemma map_of_delete: "map_of (AList.delete k d) k' = (if k = k' then None else map_of d k')"
  by (induction d) auto

lemma map_of_keys: "map_of d k = None \<longleftrightarrow> k \<notin> set (keys d)"
  by (simp add: map_of_eq_None_iff)

lemma keys_map_of: "k \<in> set (keys d) \<longleftrightarrow> (\<exists>v. map_of d k = Some v)"
  by (metis map_of_eq_None_iff list.set_map not_Some_eq)

lemma length_update:
  "length (AList.update k v d) = (if k \<in> set (keys d) then length d else Suc (length d))"
  by (induction d) auto

lemmas dict_simps = AList.update_conv' map_of_delete set_keys_delete set_keys_update
  distinct_keys_delete AList.distinct_update

subsection \<open>Lists\<close>

lemma dropWhile_sorted_wrt:
  "sorted_wrt R xs \<Longrightarrow> sorted_wrt R (dropWhile P xs)"
  by (induction xs) auto

lemma distinct_dropWhile_map: "distinct (map f xs) \<Longrightarrow> distinct (map f (dropWhile P xs))"
  by (induction xs) auto

text \<open>
  On a list sorted by a time stamp the expired elements are a prefix, so dropping while
  expired is filtering.
\<close>

lemma dropWhile_eq_filter:
  assumes "sorted (map f xs)" and "\<And>x y. P x \<Longrightarrow> f y \<le> f x \<Longrightarrow> P y"
  shows "dropWhile P xs = filter (\<lambda>x. \<not> P x) xs"
  using assms(1)
proof (induction xs)
  case (Cons x xs)
  show ?case
  proof (cases "P x")
    case True
    with Cons show ?thesis by simp
  next
    case False
    have "\<not> P y" if "y \<in> set xs" for y
      using assms(2) [of y x] False that Cons.prems by auto
    with False show ?thesis by (simp add: filter_id_conv)
  qed
qed simp

end
