(* ===== verification/PyText.thy ===== *)
theory PyText
  imports Prelude
begin

section \<open>Python text: UTF-8, splitting, integers\<close>

text \<open>
  The parts of Python's \<open>str\<close> and \<open>bytes\<close> the program uses: the UTF-8 codec with the
  error handlers \<open>strict\<close>, \<open>ignore\<close> and \<open>surrogatepass\<close>, \<open>strip\<close>, \<open>split\<close> and
  \<open>partition\<close> on one separator, \<open>isdigit\<close>, \<open>int()\<close> of a string and \<open>str()\<close> of an int.
  The character classes are those of the Unicode character database (version 14, as
  shipped with CPython 3.11; later versions only add characters).
\<close>

subsection \<open>UTF-8\<close>

datatype codec_errors = Strict | Ignore | SurrogatePass

definition is_surrogate :: "nat \<Rightarrow> bool" where
  "is_surrogate c \<longleftrightarrow> 0xD800 \<le> c \<and> c < 0xE000"

fun utf8_enc1 :: "nat \<Rightarrow> nat list" where
  "utf8_enc1 c =
     (if c < 128 then [c]
      else if c < 2048 then [192 + c div 64, 128 + c mod 64]
      else if c < 65536 then [224 + c div 4096, 128 + c div 64 mod 64, 128 + c mod 64]
      else [240 + c div 262144, 128 + c div 4096 mod 64, 128 + c div 64 mod 64, 128 + c mod 64])"

declare utf8_enc1.simps [simp del]

definition utf8_enc :: "pystr \<Rightarrow> nat list" where
  "utf8_enc s = concat (map utf8_enc1 s)"

text \<open>\<open>s.encode("utf-8", errors="surrogatepass")\<close> and the strict \<open>s.encode("utf-8")\<close>\<close>

definition encode_surrogatepass :: "pystr \<Rightarrow> bytes" where
  "encode_surrogatepass s = map char_of (utf8_enc s)"

definition encode_strict :: "pystr \<Rightarrow> bytes res" where
  "encode_strict s =
     (if list_ex is_surrogate s then Inl UnicodeEncodeError else Inr (encode_surrogatepass s))"

definition is_cont :: "nat \<Rightarrow> bool" where
  "is_cont b \<longleftrightarrow> 128 \<le> b \<and> b < 192"

text \<open>
  The decoder looks at the next sequence: a character and its length, or the length of the
  maximal invalid subpart, which the error handler is given.
\<close>

datatype utf8_seq = Unit nat nat | Bad nat

fun utf8_item :: "nat list \<Rightarrow> utf8_seq" where
  "utf8_item [] = Bad 0"
| "utf8_item (b # bs) =
     (if b < 128 then Unit b 1
      else if b < 194 then Bad 1
      else if b < 224 then
        (case bs of
           c # _ \<Rightarrow> if is_cont c then Unit ((b - 192) * 64 + (c - 128)) 2 else Bad 1
         | [] \<Rightarrow> Bad 1)
      else if b < 240 then
        (case bs of
           c # bs' \<Rightarrow>
             if is_cont c \<and> (b = 224 \<longrightarrow> 160 \<le> c) \<and> (b = 237 \<longrightarrow> c < 160) then
               (case bs' of
                  d # _ \<Rightarrow> if is_cont d then Unit ((b - 224) * 4096 + (c - 128) * 64 + (d - 128)) 3
                           else Bad 2
                | [] \<Rightarrow> Bad 2)
             else Bad 1
         | [] \<Rightarrow> Bad 1)
      else if b < 245 then
        (case bs of
           c # bs' \<Rightarrow>
             if is_cont c \<and> (b = 240 \<longrightarrow> 144 \<le> c) \<and> (b = 244 \<longrightarrow> c < 144) then
               (case bs' of
                  d # bs'' \<Rightarrow>
                    if is_cont d then
                      (case bs'' of
                         e # _ \<Rightarrow>
                           if is_cont e then
                             Unit ((b - 240) * 262144 + (c - 128) * 4096 + (d - 128) * 64 + (e - 128)) 4
                           else Bad 3
                       | [] \<Rightarrow> Bad 3)
                    else Bad 2
                | [] \<Rightarrow> Bad 2)
             else Bad 1
         | [] \<Rightarrow> Bad 1)
      else Bad 1)"

text \<open>What the \<open>surrogatepass\<close> handler accepts: a three-byte sequence for a surrogate.\<close>

fun surrogate3 :: "nat list \<Rightarrow> nat option" where
  "surrogate3 (b # c # d # _) =
     (if b = 237 \<and> 160 \<le> c \<and> c < 192 \<and> is_cont d
      then Some ((b - 224) * 4096 + (c - 128) * 64 + (d - 128)) else None)"
| "surrogate3 _ = None"

function utf8_dec :: "codec_errors \<Rightarrow> nat list \<Rightarrow> pystr option" where
  "utf8_dec m [] = Some []"
| "utf8_dec m (b # bs) =
     (case utf8_item (b # bs) of
        Unit c n \<Rightarrow> map_option (Cons c) (utf8_dec m (drop (n - 1) bs))
      | Bad n \<Rightarrow>
          (case m of
             Strict \<Rightarrow> None
           | Ignore \<Rightarrow> utf8_dec m (drop (n - 1) bs)
           | SurrogatePass \<Rightarrow>
               (case surrogate3 (b # bs) of
                  None \<Rightarrow> None
                | Some c \<Rightarrow> map_option (Cons c) (utf8_dec m (drop 2 bs)))))"
  by pat_completeness auto
termination
  by (relation "measure (\<lambda>(m, bs). length bs)") auto

text \<open>\<open>bs.decode("utf-8", errors=m)\<close>; with \<open>ignore\<close> it never raises.\<close>

definition utf8_decode :: "codec_errors \<Rightarrow> bytes \<Rightarrow> pystr res" where
  "utf8_decode m bs =
     (case utf8_dec m (map of_char bs) of None \<Rightarrow> Inl UnicodeDecodeError | Some s \<Rightarrow> Inr s)"

subsection \<open>Stripping and splitting\<close>

definition is_space :: "nat \<Rightarrow> bool" where
  "is_space c \<longleftrightarrow> (9 \<le> c \<and> c \<le> 13) \<or> (28 \<le> c \<and> c \<le> 32) \<or> c \<in> {133, 160, 5760}
     \<or> (8192 \<le> c \<and> c \<le> 8202) \<or> c \<in> {8232, 8233, 8239, 8287, 12288}"

definition strip :: "pystr \<Rightarrow> pystr" where
  "strip s = rev (dropWhile is_space (rev (dropWhile is_space s)))"

text \<open>\<open>xs.split(c)\<close> for a separator of one element\<close>

fun split_on :: "'a \<Rightarrow> 'a list \<Rightarrow> 'a list list" where
  "split_on c [] = [[]]"
| "split_on c (x # xs) =
     (if x = c then [] # split_on c xs
      else (case split_on c xs of [] \<Rightarrow> [[x]] | w # ws \<Rightarrow> (x # w) # ws))"

text \<open>\<open>xs.split(c, 1)[0]\<close> and \<open>xs.partition(c)\<close>; the latter gives None for an empty separator.\<close>

definition before_sep :: "'a \<Rightarrow> 'a list \<Rightarrow> 'a list" where
  "before_sep c s = takeWhile (\<lambda>x. x \<noteq> c) s"

definition partition_at :: "'a \<Rightarrow> 'a list \<Rightarrow> ('a list \<times> 'a list) option" where
  "partition_at c s =
     (case dropWhile (\<lambda>x. x \<noteq> c) s of [] \<Rightarrow> None | _ # r \<Rightarrow> Some (before_sep c s, r))"

text \<open>\<open>xs.split(c, n)\<close>: at most \<open>n\<close> splits\<close>

fun split_max :: "nat \<Rightarrow> 'a \<Rightarrow> 'a list \<Rightarrow> 'a list list" where
  "split_max 0 c s = [s]"
| "split_max (Suc n) c s =
     (case partition_at c s of None \<Rightarrow> [s] | Some (a, r) \<Rightarrow> a # split_max n c r)"

text \<open>\<open>c.join(xs)\<close> for a separator of one element\<close>

fun join :: "'a \<Rightarrow> 'a list list \<Rightarrow> 'a list" where
  "join c [] = []"
| "join c [w] = w"
| "join c (w # ws) = w @ c # join c ws"

subsection \<open>Digits and integers\<close>

text \<open>The zeros of the decimal digit blocks, and the other characters with a digit value.\<close>

definition decimal_zeros :: "nat list" where
  "decimal_zeros =
    [48, 1632, 1776, 1984, 2406, 2534, 2662, 2790, 2918, 3046, 3174, 3302, 3430, 3558, 3664,
     3792, 3872, 4160, 4240, 6112, 6160, 6470, 6608, 6784, 6800, 6992, 7088, 7232, 7248, 42528,
     43216, 43264, 43472, 43504, 43600, 44016, 65296, 66720, 68912, 69734, 69872, 69942, 70096,
     70384, 70736, 70864, 71248, 71360, 71472, 71904, 72016, 72784, 73040, 73120, 92768, 92864,
     93008, 120782, 120792, 120802, 120812, 120822, 123200, 123632, 125264, 130032]"

definition digit_ranges :: "(nat \<times> nat) list" where
  "digit_ranges =
    [(178, 179), (185, 185), (4969, 4977), (6618, 6618), (8304, 8304), (8308, 8313),
     (8320, 8329), (9312, 9320), (9332, 9340), (9352, 9360), (9450, 9450), (9461, 9469),
     (9471, 9471), (10102, 10110), (10112, 10120), (10122, 10130), (68160, 68163),
     (69216, 69224), (69714, 69722), (127232, 127242)]"

text \<open>The value of a decimal digit (\<open>unicodedata.decimal\<close>).\<close>

definition decimal_value :: "nat \<Rightarrow> nat option" where
  "decimal_value c =
     map_option (\<lambda>z. c - z) (find (\<lambda>z. z \<le> c \<and> c \<le> z + 9) decimal_zeros)"

definition is_digit :: "nat \<Rightarrow> bool" where
  "is_digit c \<longleftrightarrow> decimal_value c \<noteq> None \<or> list_ex (\<lambda>(a, b). a \<le> c \<and> c \<le> b) digit_ranges"

text \<open>\<open>s.isdigit()\<close>\<close>

definition isdigit :: "pystr \<Rightarrow> bool" where
  "isdigit s \<longleftrightarrow> s \<noteq> [] \<and> list_all is_digit s"

text \<open>
  \<open>int(s)\<close>: None where it raises ValueError. White space around the number (the ASCII
  separators 28 to 31 do not count), one sign, decimal digits of any script with single
  underscores between them, at most 4300 digits (\<open>sys.int_info.default_max_str_digits\<close>).
\<close>

definition int_space :: "nat \<Rightarrow> bool" where
  "int_space c \<longleftrightarrow> is_space c \<and> \<not> (28 \<le> c \<and> c \<le> 31)"

definition int_char :: "nat \<Rightarrow> bool" where
  "int_char c \<longleftrightarrow> c = 95 \<or> decimal_value c \<noteq> None"

definition digits_value :: "pystr \<Rightarrow> int" where
  "digits_value ds = foldl (\<lambda>a c. 10 * a + int (the (decimal_value c))) 0 ds"

definition max_str_digits :: nat where
  "max_str_digits = 4300"

definition parse_digits :: "pystr \<Rightarrow> int option" where
  "parse_digits t =
     (let body = takeWhile int_char t; rest = dropWhile int_char t;
          ds = filter (\<lambda>c. c \<noteq> 95) body
      in if list_all (\<lambda>w. w \<noteq> []) (split_on 95 body) \<and> list_all int_space rest \<and> length ds \<le> max_str_digits
         then Some (digits_value ds) else None)"

definition py_int :: "pystr \<Rightarrow> int option" where
  "py_int s =
     (case dropWhile int_space s of
        [] \<Rightarrow> None
      | c # t \<Rightarrow> if c = 43 then parse_digits t
                 else if c = 45 then map_option uminus (parse_digits t)
                 else parse_digits (c # t))"

text \<open>\<open>str(n)\<close>\<close>

fun nat_str :: "nat \<Rightarrow> pystr" where
  "nat_str n = (if n < 10 then [48 + n] else nat_str (n div 10) @ [48 + n mod 10])"

declare nat_str.simps [simp del]

definition int_str :: "int \<Rightarrow> pystr" where
  "int_str i = (if i < 0 then 45 # nat_str (nat (- i)) else nat_str (nat i))"

text \<open>Slices and the index searches \<open>s.rfind(c, a, b)\<close> and \<open>s.find(c, a)\<close> for one element\<close>

definition slice :: "'a list \<Rightarrow> nat \<Rightarrow> nat \<Rightarrow> 'a list" where
  "slice xs i j = take (j - i) (drop i xs)"

definition rfind :: "'a \<Rightarrow> 'a list \<Rightarrow> nat \<Rightarrow> nat \<Rightarrow> nat option" where
  "rfind c xs a b =
     (case filter (\<lambda>i. xs ! i = c) [a..<min b (length xs)] of [] \<Rightarrow> None | hits \<Rightarrow> Some (last hits))"

definition find_from :: "'a \<Rightarrow> 'a list \<Rightarrow> nat \<Rightarrow> nat option" where
  "find_from c xs a =
     (case filter (\<lambda>i. xs ! i = c) [a..<length xs] of [] \<Rightarrow> None | i # _ \<Rightarrow> Some i)"

lemma rfind_None: "rfind c xs a b = None \<longleftrightarrow> (\<forall>i. a \<le> i \<and> i < b \<and> i < length xs \<longrightarrow> xs ! i \<noteq> c)"
proof -
  have "rfind c xs a b = None \<longleftrightarrow> filter (\<lambda>i. xs ! i = c) [a..<min b (length xs)] = []"
    by (simp add: rfind_def split: list.splits)
  then show ?thesis by (auto simp: filter_empty_conv)
qed

lemma sorted_last: "sorted xs \<Longrightarrow> x \<in> set xs \<Longrightarrow> x \<le> last xs"
  by (induction xs) (auto dest: bspec [where x = "last _"])

lemma rfind_Some:
  assumes "rfind c xs a b = Some i"
  shows "a \<le> i" "i < b" "i < length xs" "xs ! i = c"
    "\<And>j. i < j \<Longrightarrow> j < b \<Longrightarrow> j < length xs \<Longrightarrow> xs ! j \<noteq> c"
proof -
  let ?h = "filter (\<lambda>i. xs ! i = c) [a..<min b (length xs)]"
  have h: "?h \<noteq> []" "i = last ?h" using assms by (auto simp: rfind_def split: list.splits)
  then have "i \<in> set ?h" using last_in_set by metis
  then show "a \<le> i" "i < b" "i < length xs" "xs ! i = c" by auto
  show "xs ! j \<noteq> c" if "i < j" "j < b" "j < length xs" for j
  proof
    assume "xs ! j = c"
    with that \<open>a \<le> i\<close> have "j \<in> set ?h" by simp
    then have "j \<le> last ?h" by (intro sorted_last) (simp add: sorted_filter [where f = id, simplified])
    with h that show False by simp
  qed
qed

lemma find_from_None: "find_from c xs a = None \<longleftrightarrow> (\<forall>i. a \<le> i \<and> i < length xs \<longrightarrow> xs ! i \<noteq> c)"
proof -
  have "find_from c xs a = None \<longleftrightarrow> filter (\<lambda>i. xs ! i = c) [a..<length xs] = []"
    by (simp add: find_from_def split: list.splits)
  then show ?thesis by (auto simp: filter_empty_conv)
qed

lemma find_from_Some:
  assumes "find_from c xs a = Some i"
  shows "a \<le> i" "i < length xs" "xs ! i = c"
proof -
  obtain hits where "filter (\<lambda>i. xs ! i = c) [a..<length xs] = i # hits"
    using assms by (auto simp: find_from_def split: list.splits)
  then have "i \<in> set (filter (\<lambda>i. xs ! i = c) [a..<length xs])" by simp
  then show "a \<le> i" "i < length xs" "xs ! i = c" by auto
qed

lemma slice_split: "i \<le> j \<Longrightarrow> j \<le> length xs \<Longrightarrow> xs = take i xs @ slice xs i j @ drop j xs"
  by (simp add: slice_def) (metis add.commute append_take_drop_id drop_drop le_add_diff_inverse2)

lemma slice_ends: "i < j \<Longrightarrow> j < length xs \<Longrightarrow> slice xs i (Suc j) = xs ! i # slice xs (Suc i) j @ [xs ! j]"
proof -
  assume ij: "i < j" "j < length xs"
  then have "Suc j - i = Suc (Suc (j - Suc i))" by simp
  moreover have "drop i xs = xs ! i # drop (Suc i) xs" using ij by (simp add: Cons_nth_drop_Suc)
  moreover have "take (Suc (j - Suc i)) (drop (Suc i) xs) = slice xs (Suc i) j @ [xs ! j]"
    using ij by (simp add: slice_def take_Suc_conv_app_nth)
  ultimately show ?thesis by (simp add: slice_def)
qed

lemma split_at_two:
  assumes "i < j" and "j < length xs"
  shows "xs = take i xs @ xs ! i # slice xs (Suc i) j @ xs ! j # drop (Suc j) xs"
proof -
  have "xs = take i xs @ slice xs i (Suc j) @ drop (Suc j) xs"
    using assms by (intro slice_split) auto
  then show ?thesis using slice_ends [OF assms] by simp
qed

lemma length_slice: "j \<le> length xs \<Longrightarrow> length (slice xs i j) = j - i"
  by (simp add: slice_def)

lemma nth_slice: "k < j - i \<Longrightarrow> j \<le> length xs \<Longrightarrow> slice xs i j ! k = xs ! (i + k)"
  by (simp add: slice_def)

lemma map_slice: "map f (slice xs i j) = slice (map f xs) i j"
  by (simp add: slice_def take_map drop_map)

subsection \<open>Laws of UTF-8\<close>

declare utf8_item.simps(2) [simp del]

lemma div64_mod64: "(c::nat) div 64 mod 64 = c div 64 - 64 * (c div 4096)"
  by (simp add: minus_mult_div_eq_mod [symmetric] div_mult2_eq [symmetric] del: minus_mult_div_eq_mod)

lemma div4096_mod64: "(c::nat) div 4096 mod 64 = c div 4096 - 64 * (c div 262144)"
  by (simp add: minus_mult_div_eq_mod [symmetric] div_mult2_eq [symmetric] del: minus_mult_div_eq_mod)

lemma base64_digits3: "(c::nat) div 4096 * 4096 + c div 64 mod 64 * 64 + c mod 64 = c"
proof -
  have "c div 64 div 64 * 64 + c div 64 mod 64 = c div 64" by (rule div_mult_mod_eq)
  moreover have "c div 64 * 64 + c mod 64 = c" by (rule div_mult_mod_eq)
  moreover have "c div 64 div 64 = c div 4096" by (simp add: div_mult2_eq [symmetric])
  ultimately show ?thesis by linarith
qed

lemma base64_digits4:
  "(c::nat) div 262144 * 262144 + c div 4096 mod 64 * 4096 + c div 64 mod 64 * 64 + c mod 64 = c"
proof -
  have "c div 4096 div 64 * 64 + c div 4096 mod 64 = c div 4096" by (rule div_mult_mod_eq)
  moreover have "c div 4096 div 64 = c div 262144" by (simp add: div_mult2_eq [symmetric])
  ultimately show ?thesis using base64_digits3 [of c] by linarith
qed

lemma utf8_item_enc1:
  assumes "c < 0x110000" and "\<not> is_surrogate c"
  shows "utf8_item (utf8_enc1 c @ r) = Unit c (length (utf8_enc1 c))"
proof -
  consider "c < 128" | "128 \<le> c" "c < 2048" | "2048 \<le> c" "c < 65536" | "65536 \<le> c" by linarith
  then show ?thesis
  proof cases
    case 3
    then have "c div 4096 < 16" "c div 64 mod 64 < 64" "c mod 64 < 64"
      "(224 + c div 4096 = 224 \<longrightarrow> 32 \<le> c div 64 mod 64)" by auto
    moreover from 3 assms have "c div 4096 = 13 \<longrightarrow> c div 64 mod 64 < 32"
      unfolding is_surrogate_def div64_mod64 by auto
    moreover have "c div 4096 * 4096 + c div 64 mod 64 * 64 + c mod 64 = c"
      by (rule base64_digits3)
    ultimately show ?thesis using 3 by (simp add: utf8_enc1.simps utf8_item.simps is_cont_def)
  next
    case 4
    then have "c div 262144 < 5" "c div 4096 mod 64 < 64" "c div 64 mod 64 < 64" "c mod 64 < 64"
      using assms(1) by auto
    moreover from 4 have "c div 262144 = 0 \<longrightarrow> 16 \<le> c div 4096 mod 64" by auto
    moreover from assms have "c div 262144 = 4 \<longrightarrow> c div 4096 mod 64 < 16"
      unfolding div4096_mod64 by auto
    moreover have "c div 262144 * 262144 + c div 4096 mod 64 * 4096 + c div 64 mod 64 * 64 + c mod 64 = c"
      by (rule base64_digits4)
    ultimately show ?thesis using 4 by (simp add: utf8_enc1.simps utf8_item.simps is_cont_def)
  qed (auto simp: utf8_enc1.simps utf8_item.simps is_cont_def)
qed

lemma surrogate_enc1:
  assumes "is_surrogate c"
  shows "surrogate3 (utf8_enc1 c @ r) = Some c" "utf8_item (utf8_enc1 c @ r) = Bad 1"
    "length (utf8_enc1 c) = 3"
proof -
  from assms have c: "55296 \<le> c" "c < 57344" by (simp_all add: is_surrogate_def)
  then have *: "c div 4096 = 13" by auto
  with c have **: "32 \<le> c div 64 mod 64" unfolding div64_mod64 by auto
  from * have "13 * 4096 + c div 64 mod 64 * 64 + c mod 64 = c" using base64_digits3 [of c] by simp
  with c * ** show "surrogate3 (utf8_enc1 c @ r) = Some c" "utf8_item (utf8_enc1 c @ r) = Bad 1"
    "length (utf8_enc1 c) = 3"
    by (auto simp: utf8_enc1.simps utf8_item.simps is_cont_def)
qed

lemma utf8_enc1_nonempty [simp]: "utf8_enc1 c \<noteq> []"
  by (simp add: utf8_enc1.simps)

lemma utf8_dec_enc1:
  assumes "c < 0x110000" and "\<not> is_surrogate c \<or> m = SurrogatePass"
  shows "utf8_dec m (utf8_enc1 c @ r) = map_option (Cons c) (utf8_dec m r)"
proof -
  obtain b bs where b: "utf8_enc1 c = b # bs" by (cases "utf8_enc1 c") auto
  show ?thesis
  proof (cases "is_surrogate c")
    case True
    with assms(2) surrogate_enc1 [OF True] b show ?thesis by auto
  next
    case False
    with utf8_item_enc1 [OF assms(1) False, of r] b show ?thesis by simp
  qed
qed

lemma utf8_dec_enc:
  assumes "wf_text s" and "list_all (\<lambda>c. \<not> is_surrogate c) s \<or> m = SurrogatePass"
  shows "utf8_dec m (utf8_enc s @ r) = map_option (append s) (utf8_dec m r)"
  using assms
proof (induction s)
  case Nil
  then show ?case by (simp add: utf8_enc_def append_def option.map_ident)
next
  case (Cons c s)
  then show ?case
    by (auto simp: utf8_enc_def wf_text_def utf8_dec_enc1 option.map_comp intro!: option.map_cong)
qed

lemma utf8_enc1_bound: "c < 0x110000 \<Longrightarrow> b \<in> set (utf8_enc1 c) \<Longrightarrow> b < 256"
  by (auto simp: utf8_enc1.simps split: if_splits)

lemma utf8_enc_bound: "wf_text s \<Longrightarrow> b \<in> set (utf8_enc s) \<Longrightarrow> b < 256"
  by (auto simp: utf8_enc_def wf_text_def list_all_iff dest: utf8_enc1_bound)

lemma of_char_encode [simp]:
  "wf_text s \<Longrightarrow> map of_char (encode_surrogatepass s) = utf8_enc s"
  by (auto simp: encode_surrogatepass_def comp_def intro!: map_idI dest: utf8_enc_bound)

lemma decode_encode_surrogatepass:
  "wf_text s \<Longrightarrow> utf8_decode SurrogatePass (encode_surrogatepass s) = Inr s"
  using utf8_dec_enc [of s SurrogatePass "[]"] by (simp add: utf8_decode_def)

lemma decode_encode_strict:
  "wf_text s \<Longrightarrow> encode_strict s = Inr bs \<Longrightarrow> utf8_decode m bs = Inr s"
  using utf8_dec_enc [of s m "[]"]
  by (auto simp: utf8_decode_def encode_strict_def list_ex_iff list_all_iff split: if_splits)

lemma utf8_dec_Ignore: "utf8_dec Ignore bs \<noteq> None"
  by (induction Ignore bs rule: utf8_dec.induct) (auto split: utf8_seq.splits)

lemma utf8_enc1_ascii: "b \<in> set (utf8_enc1 c) \<Longrightarrow> b < 128 \<Longrightarrow> c < 128 \<and> b = c"
  by (auto simp: utf8_enc1.simps split: if_splits)

text \<open>An ASCII octet of an encoding is a character of the text: slices at ASCII octets are encodings.\<close>

lemma utf8_enc_ascii_split:
  "utf8_enc s = xs @ b # ys \<Longrightarrow> b < 128 \<Longrightarrow>
     \<exists>u v. s = u @ b # v \<and> xs = utf8_enc u \<and> ys = utf8_enc v"
proof (induction s arbitrary: xs)
  case Nil
  then show ?case by (simp add: utf8_enc_def)
next
  case (Cons c s)
  have eq: "utf8_enc1 c @ utf8_enc s = xs @ b # ys" using Cons.prems(1) by (simp add: utf8_enc_def)
  then consider zs where "xs = utf8_enc1 c @ zs" "utf8_enc s = zs @ b # ys"
    | zs where "utf8_enc1 c = xs @ b # zs" "ys = zs @ utf8_enc s"
    by (auto simp: append_eq_append_conv2 append_eq_Cons_conv)
  then show ?case
  proof cases
    case 1
    with Cons.IH [OF 1(2) Cons.prems(2)] obtain u v
      where "s = u @ b # v" "zs = utf8_enc u" "ys = utf8_enc v" by blast
    with 1 show ?thesis by (intro exI [of _ "c # u"] exI [of _ v]) (simp add: utf8_enc_def)
  next
    case 2
    with utf8_enc1_ascii [of b c] Cons.prems(2) have "c < 128" "b = c" by auto
    with 2 have "xs = []" "zs = []" by (auto simp: utf8_enc1.simps append_eq_Cons_conv Cons_eq_append_conv)
    with 2 \<open>b = c\<close> show ?thesis by (intro exI [of _ "[]"] exI [of _ s]) (simp add: utf8_enc_def)
  qed
qed

text \<open>So what lies between two ASCII octets of an encoding is the encoding of what lies between them.\<close>

lemma utf8_enc_ascii_between:
  assumes "utf8_enc s = xs @ a # mid @ b # ys" and "a < 128" and "b < 128"
  shows "\<exists>u w v. s = u @ a # w @ b # v \<and> mid = utf8_enc w"
proof -
  obtain u v where u: "s = u @ a # v" and v: "mid @ b # ys = utf8_enc v"
    using utf8_enc_ascii_split [OF assms(1,2)] by blast
  obtain w v' where "v = w @ b # v'" "mid = utf8_enc w"
    using utf8_enc_ascii_split [OF v [symmetric] assms(3)] by blast
  with u show ?thesis by blast
qed

text \<open>The decoder yields no surrogate unless it was told to.\<close>

lemma three_byte_ordinary:
  assumes "224 \<le> a" "a < 240" "128 \<le> c" "c < 192" "128 \<le> d" "d < 192" "a = 237 \<longrightarrow> c < (160::nat)"
  shows "\<not> is_surrogate ((a - 224) * 4096 + (c - 128) * 64 + d - 128)"
proof -
  consider "a < 237" | "a = 237" | "238 \<le> a" by linarith
  then show ?thesis using assms by cases (auto simp: is_surrogate_def)
qed

lemma utf8_item_ordinary:
  "utf8_item bs = Unit c n \<Longrightarrow> \<not> is_surrogate c"
proof (cases bs)
  case (Cons b bs')
  assume u: "utf8_item bs = Unit c n"
  show ?thesis
  proof (cases "224 \<le> b \<and> b < 240")
    case True
    with u Cons show ?thesis
      using three_byte_ordinary [of b]
      by (auto simp: utf8_item.simps(2) is_cont_def split: if_splits list.splits)
  next
    case False
    with u Cons show ?thesis
      by (auto simp: utf8_item.simps(2) is_surrogate_def is_cont_def split: if_splits list.splits)
  qed
qed simp

lemma utf8_dec_ordinary:
  "utf8_dec m bs = Some s \<Longrightarrow> m \<noteq> SurrogatePass \<Longrightarrow> \<not> list_ex is_surrogate s"
  by (induction m bs arbitrary: s rule: utf8_dec.induct)
    (auto dest: utf8_item_ordinary split: utf8_seq.splits codec_errors.splits)

lemma set_strip: "set (strip s) \<subseteq> set s"
  by (auto simp: strip_def dest!: set_dropWhileD)

subsection \<open>ASCII digits\<close>

lemma decimal_value_ascii: "48 \<le> c \<Longrightarrow> c \<le> 57 \<Longrightarrow> decimal_value c = Some (c - 48)"
  by (simp add: decimal_value_def decimal_zeros_def)

lemma decimal_value_low: "c < 48 \<Longrightarrow> decimal_value c = None"
  by (simp add: decimal_value_def decimal_zeros_def)

lemma decimal_value_mid: "57 < c \<Longrightarrow> c < 1632 \<Longrightarrow> decimal_value c = None"
  by (simp add: decimal_value_def decimal_zeros_def)

lemmas decimal_ascii = decimal_value_ascii decimal_value_low decimal_value_mid

lemma is_digit_ascii: "c < 128 \<Longrightarrow> is_digit c \<longleftrightarrow> 48 \<le> c \<and> c \<le> 57"
  by (cases "c < 48"; cases "57 < c"; simp add: is_digit_def decimal_ascii digit_ranges_def)

text \<open>Texts that encode: without surrogates.\<close>

definition clean :: "pystr \<Rightarrow> bool" where
  "clean s \<longleftrightarrow> list_all (\<lambda>c. \<not> is_surrogate c) s"

lemma clean_append [simp]: "clean (s @ t) \<longleftrightarrow> clean s \<and> clean t"
  and clean_Cons [simp]: "clean (c # t) \<longleftrightarrow> \<not> is_surrogate c \<and> clean t"
  and clean_Nil [simp]: "clean []"
  by (simp_all add: clean_def)

lemma clean_ascii: "\<forall>c \<in> set s. c < 128 \<Longrightarrow> clean s"
  by (auto simp: clean_def list_all_iff is_surrogate_def)

lemma encode_strict_clean: "clean s \<Longrightarrow> encode_strict s = Inr (encode_surrogatepass s)"
  by (auto simp: clean_def encode_strict_def list_ex_iff list_all_iff)

lemma is_digit_ordinary: "is_digit c \<Longrightarrow> \<not> is_surrogate c"
proof
  assume d: "is_digit c" and s: "is_surrogate c"
  have "\<forall>z \<in> set decimal_zeros. z + 9 < 0xD800 \<or> 0xE000 \<le> z" by (simp add: decimal_zeros_def)
  with s have "decimal_value c = None"
    by (fastforce simp: decimal_value_def find_None_iff is_surrogate_def)
  moreover have "\<forall>(a, b) \<in> set digit_ranges. b < 0xD800 \<or> 0xE000 \<le> a" by (simp add: digit_ranges_def)
  with s have "\<not> list_ex (\<lambda>(a, b). a \<le> c \<and> c \<le> b) digit_ranges"
    by (fastforce simp: list_ex_iff is_surrogate_def)
  ultimately show False using d by (simp add: is_digit_def)
qed

lemma isdigit_clean: "isdigit s \<Longrightarrow> clean s"
  by (auto simp: isdigit_def clean_def list_all_iff is_digit_ordinary)

subsection \<open>Laws of splitting\<close>

lemma split_on_nonempty [simp]: "split_on c s \<noteq> []"
  by (cases s) (auto split: list.splits)

lemma join_split_on: "join c (split_on c s) = s"
proof (induction s)
  case (Cons x s)
  then show ?case
    by (cases "split_on c s"; cases "tl (split_on c s)") auto
qed simp

lemma split_on_no_sep: "w \<in> set (split_on c s) \<Longrightarrow> c \<notin> set w"
proof (induction s arbitrary: w)
  case (Cons x s)
  then show ?case by (cases "split_on c s") (auto split: if_splits)
qed simp

lemma split_on_id: "c \<notin> set s \<Longrightarrow> split_on c s = [s]"
  by (induction s) auto

lemma split_on_append: "c \<notin> set a \<Longrightarrow> split_on c (a @ c # r) = a # split_on c r"
  by (induction a) auto

lemma split_on_join:
  "ws \<noteq> [] \<Longrightarrow> (\<And>w. w \<in> set ws \<Longrightarrow> c \<notin> set w) \<Longrightarrow> split_on c (join c ws) = ws"
  by (induction c ws rule: join.induct) (auto simp: split_on_id split_on_append)

lemma set_split_on: "w \<in> set (split_on c s) \<Longrightarrow> set w \<subseteq> set s"
proof (induction s arbitrary: w)
  case (Cons x s)
  then show ?case by (cases "split_on c s") (fastforce split: if_splits)+
qed simp

lemma before_sep_id [simp]: "c \<notin> set a \<Longrightarrow> before_sep c a = a"
  by (auto simp: before_sep_def takeWhile_eq_all_conv)

lemma before_sep_append [simp]: "c \<notin> set a \<Longrightarrow> before_sep c (a @ c # r) = a"
  by (induction a) (auto simp: before_sep_def)

lemma dropWhile_sep: "c \<notin> set a \<Longrightarrow> dropWhile (\<lambda>x. x \<noteq> c) (a @ c # r) = c # r"
  by (induction a) auto

lemma partition_at_append [simp]: "c \<notin> set a \<Longrightarrow> partition_at c (a @ c # r) = Some (a, r)"
  by (simp add: partition_at_def dropWhile_sep)

lemma partition_at_None: "partition_at c s = None \<longleftrightarrow> c \<notin> set s"
proof (cases "c \<in> set s")
  case True
  then obtain a r where "s = a @ c # r" "c \<notin> set a" by (auto dest!: split_list_first)
  then show ?thesis by simp
next
  case False
  then have "dropWhile (\<lambda>x. x \<noteq> c) s = []" by (induction s) auto
  with False show ?thesis by (simp only: partition_at_def list.case simp_thms not_False_eq_True)
qed

lemma split_max_append:
  "c \<notin> set a \<Longrightarrow> split_max (Suc n) c (a @ c # r) = a # split_max n c r"
  by simp

subsection \<open>Integers as text\<close>

lemma nat_str_nonempty [simp]: "nat_str n \<noteq> []"
  by (subst nat_str.simps) simp

lemma nat_str_digits: "c \<in> set (nat_str n) \<Longrightarrow> 48 \<le> c \<and> c \<le> 57"
proof (induction n rule: nat_str.induct)
  case (1 n)
  from "1.prems" show ?case
    by (subst (asm) nat_str.simps) (auto split: if_splits dest: "1.IH")
qed

lemma digits_value_snoc:
  "digits_value (ds @ [c]) = 10 * digits_value ds + int (the (decimal_value c))"
  by (simp add: digits_value_def)

lemma digits_value_nat_str: "digits_value (nat_str n) = int n"
proof (induction n rule: nat_str.induct)
  case (1 n)
  show ?case
  proof (cases "n < 10")
    case True
    then show ?thesis by (subst nat_str.simps) (simp add: digits_value_def decimal_value_ascii)
  next
    case False
    then have "decimal_value (48 + n mod 10) = Some (n mod 10)" by (simp add: decimal_value_ascii)
    moreover have "10 * int (n div 10) + int (n mod 10) = int n" by presburger
    ultimately show ?thesis using False 1 by (subst nat_str.simps) (simp add: digits_value_snoc)
  qed
qed

lemma length_nat_str: "n < 10 ^ k \<Longrightarrow> 0 < k \<Longrightarrow> length (nat_str n) \<le> k"
proof (induction k arbitrary: n)
  case (Suc k)
  show ?case
  proof (cases "n < 10")
    case False
    then have "n div 10 < 10 ^ k" "0 < k" using Suc.prems by (cases k; auto)+
    with Suc.IH False show ?thesis by (subst nat_str.simps) simp
  qed (subst nat_str.simps, simp)
qed simp

lemma isdigit_nat_str: "isdigit (nat_str n)"
  by (auto simp: isdigit_def list_all_iff is_digit_ascii dest!: nat_str_digits)

lemma nat_str_clean [simp]: "clean (nat_str n)"
  by (rule isdigit_clean [OF isdigit_nat_str])

lemma parse_digits_ascii:
  assumes "ds \<noteq> []" "length ds \<le> max_str_digits" "\<And>c. c \<in> set ds \<Longrightarrow> 48 \<le> c \<and> c \<le> 57"
  shows "parse_digits ds = Some (digits_value ds)"
proof -
  have "int_char c" "c \<noteq> 95" if "c \<in> set ds" for c
    using assms(3) [OF that] by (auto simp: int_char_def decimal_value_ascii)
  then have "takeWhile int_char ds = ds" "dropWhile int_char ds = []" "filter (\<lambda>c. c \<noteq> 95) ds = ds"
    "split_on 95 ds = [ds]"
    by (auto simp: takeWhile_eq_all_conv filter_id_conv intro!: split_on_id)
  moreover have "dropWhile int_char ds = []" using calculation(2) .
  ultimately show ?thesis using assms(1,2) by (simp only: parse_digits_def Let_def) simp
qed

lemma py_int_ascii:
  assumes "ds \<noteq> []" "length ds \<le> max_str_digits" "\<And>c. c \<in> set ds \<Longrightarrow> 48 \<le> c \<and> c \<le> 57"
  shows "py_int ds = Some (digits_value ds)" "py_int (45 # ds) = Some (- digits_value ds)"
proof -
  obtain c t where ds: "ds = c # t" using assms(1) by (cases ds) auto
  have "48 \<le> c \<and> c \<le> 57" using assms(3) ds by simp
  then have "dropWhile int_space ds = c # t" "c \<noteq> 43" "c \<noteq> 45"
    by (auto simp: ds int_space_def is_space_def)
  moreover have "dropWhile int_space (45 # ds) = 45 # ds"
    by (simp add: int_space_def is_space_def)
  ultimately show "py_int ds = Some (digits_value ds)" "py_int (45 # ds) = Some (- digits_value ds)"
    using parse_digits_ascii [OF assms] by (simp_all add: py_int_def ds)
qed

lemma py_int_int_str:
  assumes "\<bar>i\<bar> < 10 ^ max_str_digits"
  shows "py_int (int_str i) = Some i"
proof -
  have "nat \<bar>i\<bar> < 10 ^ max_str_digits" using assms by (simp add: nat_less_iff)
  then have "length (nat_str (nat \<bar>i\<bar>)) \<le> max_str_digits" by (rule length_nat_str) (simp add: max_str_digits_def)
  then have "py_int (nat_str (nat \<bar>i\<bar>)) = Some \<bar>i\<bar>"
    "py_int (45 # nat_str (nat \<bar>i\<bar>)) = Some (- \<bar>i\<bar>)"
    using py_int_ascii [of "nat_str (nat \<bar>i\<bar>)"] nat_str_digits by (auto simp: digits_value_nat_str)
  then show ?thesis by (auto simp: int_str_def)
qed

end
