(* ===== verification/ExpiringFifo.thy ===== *)
theory ExpiringFifo
  imports Prelude
begin

section \<open>The contract of an expiring, bounded set\<close>

text \<open>
  Two components of the program promise the same thing: the deduplicator (\<open>dedup.py\<close>)
  and the replay and nonce sets of the secure listener (\<open>_BoundedExpiringSet\<close> in
  \<open>aismixer_secure.py\<close>). This theory states the promise once. The abstract state is the
  list of live entries, oldest admission first; admission drops the expired prefix, refuses
  a key that is still there, and otherwise makes room by dropping the oldest entries. The
  locale \<open>expiring_fifo\<close> is the refinement contract of an implementation; what a client may
  rely on is proved in it once and used through the interpretations in \<open>Dedup\<close> and
  \<open>ExpiringSet\<close>.
\<close>

type_synonym 'k fifo = "('k \<times> time) list"

definition fifo_live :: "time \<Rightarrow> time \<Rightarrow> 'k fifo \<Rightarrow> 'k fifo" where
  "fifo_live ttl now q = dropWhile (\<lambda>(k, t). ttl \<le> now - t) q"

definition fifo_room :: "nat option \<Rightarrow> 'k fifo \<Rightarrow> 'k fifo" where
  "fifo_room cap q = (case cap of None \<Rightarrow> q | Some c \<Rightarrow> drop (Suc (length q) - c) q)"

definition fifo_admit :: "nat option \<Rightarrow> time \<Rightarrow> 'k \<Rightarrow> time \<Rightarrow> 'k fifo \<Rightarrow> bool \<times> 'k fifo" where
  "fifo_admit cap ttl k now q =
     (let q1 = fifo_live ttl now q
      in if k \<in> set (keys q1) then (False, q1) else (True, fifo_room cap q1 @ [(k, now)]))"

subsection \<open>Facts about the abstract set\<close>

lemma fifo_live_split: "\<exists>xs. q = xs @ fifo_live ttl now q \<and> (\<forall>(k, t) \<in> set xs. ttl \<le> now - t)"
proof -
  have "q = takeWhile (\<lambda>(k, t). ttl \<le> now - t) q @ fifo_live ttl now q"
    by (simp add: fifo_live_def)
  moreover have "\<forall>(k, t) \<in> set (takeWhile (\<lambda>(k, t). ttl \<le> now - t) q). ttl \<le> now - t"
    by (auto dest: set_takeWhileD)
  ultimately show ?thesis by blast
qed

lemma fifo_live_keeps:
  "now - t < ttl \<Longrightarrow> \<exists>xs'. fifo_live ttl now (xs @ (k, t) # ys) = xs' @ (k, t) # ys"
  by (induction xs) (auto simp: fifo_live_def)

lemma distinct_fifo_live: "distinct (keys q) \<Longrightarrow> distinct (keys (fifo_live ttl now q))"
  by (simp add: fifo_live_def distinct_dropWhile_map)

lemma set_fifo_live: "set (fifo_live ttl now q) \<subseteq> set q"
  by (auto simp: fifo_live_def dest: set_dropWhileD)

lemma set_fifo_room: "set (fifo_room cap q) \<subseteq> set q"
  by (auto simp: fifo_room_def split: option.splits dest: in_set_dropD)

lemma distinct_fifo_room: "distinct (keys q) \<Longrightarrow> distinct (keys (fifo_room cap q))"
  by (simp add: fifo_room_def drop_map [symmetric] split: option.splits)

lemma length_fifo_room: "0 < c \<Longrightarrow> length (fifo_room (Some c) q) < c"
  by (auto simp: fifo_room_def)

lemma distinct_fifo_admit:
  assumes "fifo_admit cap ttl k now q = (b, q')" and "distinct (keys q)"
  shows "distinct (keys q')"
proof -
  let ?l = "fifo_live ttl now q"
  have "set (keys (fifo_room cap ?l)) \<subseteq> set (keys ?l)"
    using set_fifo_room [of cap ?l] by auto
  then show ?thesis
    using assms distinct_fifo_live [OF assms(2), of ttl now]
      distinct_fifo_room [OF distinct_fifo_live [OF assms(2), of ttl now], of cap]
    by (auto simp: fifo_admit_def Let_def split: if_splits)
qed

lemma length_fifo_admit:
  "fifo_admit (Some c) ttl k now q = (b, q') \<Longrightarrow> 0 < c \<Longrightarrow> length q \<le> c \<Longrightarrow> length q' \<le> c"
  using length_fifo_room [of c "fifo_live ttl now q"] length_dropWhile_le [of _ q]
  by (auto simp: fifo_admit_def Let_def fifo_live_def Suc_le_eq split: if_splits
      intro: le_trans)

text \<open>
  With admission times in order, the decision is membership among the entries of age below
  the time to live.
\<close>

lemma fifo_live_sorted:
  "sorted (map snd q) \<Longrightarrow> fifo_live ttl now q = filter (\<lambda>(k, t). now - t < ttl) q"
  unfolding fifo_live_def
  by (subst dropWhile_eq_filter [where f = snd]) (auto intro: filter_cong)

lemma fifo_admit_decision:
  assumes "sorted (map snd q)"
  shows "fst (fifo_admit cap ttl k now q) \<longleftrightarrow> (\<forall>t. (k, t) \<in> set q \<longrightarrow> ttl \<le> now - t)"
  using assms by (force simp: fifo_admit_def fifo_live_sorted Let_def)

lemma sorted_fifo_admit:
  assumes "fifo_admit cap ttl k now q = (b, q')" and "sorted (map snd q)"
    and "\<forall>(k, t) \<in> set q. t \<le> now"
  shows "sorted (map snd q') \<and> (\<forall>(k, t) \<in> set q'. t \<le> now)"
proof -
  let ?l = "fifo_live ttl now q"
  have l: "sorted (map snd ?l)" "\<forall>(k, t) \<in> set ?l. t \<le> now"
    using assms(2,3) set_fifo_live [of ttl now q]
    by (auto simp: fifo_live_def sorted_map dropWhile_sorted_wrt)
  then have "sorted (map snd (fifo_room cap ?l))"
    by (auto simp: fifo_room_def drop_map [symmetric] sorted_wrt_drop split: option.splits)
  with l show ?thesis
    using assms(1) set_fifo_room [of cap ?l]
    by (fastforce simp: fifo_admit_def Let_def sorted_append split: if_splits)
qed

text \<open>
  An entry survives admissions for its whole life, provided fewer admissions than the
  capacity follow it.
\<close>

lemma fifo_admit_keeps:
  assumes "fifo_admit cap ttl k' now q = (b, q')" and "q = xs @ (k, t) # ys"
    and "now - t < ttl"
    and "case cap of None \<Rightarrow> True | Some c \<Rightarrow> length ys + (if b then 1 else 0) < c"
  shows "\<exists>xs' ys'. q' = xs' @ (k, t) # ys' \<and> length ys' = length ys + (if b then 1 else 0)"
proof -
  obtain xs1 where l: "fifo_live ttl now q = xs1 @ (k, t) # ys"
    using fifo_live_keeps [OF assms(3), of xs k ys] assms(2) by auto
  show ?thesis
  proof (cases b)
    case False
    with assms(1) have "q' = fifo_live ttl now q"
      by (auto simp: fifo_admit_def Let_def split: if_splits)
    with l False show ?thesis by (intro exI [of _ xs1] exI [of _ ys]) simp
  next
    case True
    then have q': "q' = fifo_room cap (xs1 @ (k, t) # ys) @ [(k', now)]"
      using assms(1) l by (auto simp: fifo_admit_def Let_def split: if_splits)
    have "\<exists>xs'. fifo_room cap (xs1 @ (k, t) # ys) = xs' @ (k, t) # ys"
    proof (cases cap)
      case (Some c)
      then have "Suc (Suc (length ys)) \<le> c" using assms(4) True by simp
      then have "Suc (length (xs1 @ (k, t) # ys)) - c \<le> length xs1" by simp
      with Some show ?thesis by (auto simp: fifo_room_def)
    qed (auto simp: fifo_room_def)
    with q' True show ?thesis by fastforce
  qed
qed

subsection \<open>The interface\<close>

text \<open>A run of admissions with the decisions it made.\<close>

fun run_accepts ::
  "('k \<Rightarrow> time \<Rightarrow> 's \<Rightarrow> (bool \<times> 's) res) \<Rightarrow> ('k \<times> time) list \<Rightarrow> 's \<Rightarrow> (bool list \<times> 's) res" where
  "run_accepts f [] s = Inr ([], s)"
| "run_accepts f ((k, now) # reqs) s =
     rbind (f k now s) (\<lambda>(b, s'). rbind (run_accepts f reqs s') (\<lambda>(bs, s''). Inr (b # bs, s'')))"

definition n_accepted :: "bool list \<Rightarrow> nat" where
  "n_accepted bs = length (filter id bs)"

locale expiring_fifo =
  fixes accept :: "'k \<Rightarrow> time \<Rightarrow> 's \<Rightarrow> (bool \<times> 's) res"
    and view :: "'s \<Rightarrow> 'k fifo"
    and ttl :: "'s \<Rightarrow> time"
    and cap :: "'s \<Rightarrow> nat option"
    and wf :: "'s \<Rightarrow> bool"
  assumes accept_refines:
      "wf s \<Longrightarrow> \<exists>b s'. accept k now s = Inr (b, s') \<and>
         (b, view s') = fifo_admit (cap s) (ttl s) k now (view s)"
    and wf_accept: "wf s \<Longrightarrow> accept k now s = Inr (b, s') \<Longrightarrow> wf s'"
    and accept_config: "wf s \<Longrightarrow> accept k now s = Inr (b, s') \<Longrightarrow> ttl s' = ttl s \<and> cap s' = cap s"
begin

lemma accept_view:
  "wf s \<Longrightarrow> accept k now s = Inr (b, s') \<Longrightarrow> fifo_admit (cap s) (ttl s) k now (view s) = (b, view s')"
  using accept_refines [of s k now] by auto

text \<open>Admissions never raise.\<close>

lemma run_total: "wf s \<Longrightarrow> \<exists>bs s'. run_accepts accept reqs s = Inr (bs, s') \<and> wf s'"
proof (induction reqs arbitrary: s)
  case (Cons r reqs)
  obtain k now where r: "r = (k, now)" by force
  obtain b s1 where s1: "accept k now s = Inr (b, s1)" using accept_refines [OF Cons.prems] by blast
  obtain bs s2 where "run_accepts accept reqs s1 = Inr (bs, s2)" "wf s2"
    using Cons.IH [OF wf_accept [OF Cons.prems s1]] by blast
  with r s1 show ?case by auto
qed simp

text \<open>A key admitted once is refused for its whole life.\<close>

lemma accepted_entry:
  assumes "wf s" and "accept k now s = Inr (True, s')"
  shows "\<exists>xs. view s' = xs @ [(k, now)]"
proof -
  have "view s' = fifo_room (cap s) (fifo_live (ttl s) now (view s)) @ [(k, now)]"
    using accept_view [OF assms] by (simp add: fifo_admit_def Let_def split: if_splits)
  then show ?thesis by blast
qed

lemma run_keeps:
  assumes "wf s" and "view s = xs @ (k, t) # ys"
    and "run_accepts accept reqs s = Inr (bs, s')"
    and "\<forall>(k', now) \<in> set reqs. now - t < ttl s"
    and "case cap s of None \<Rightarrow> True | Some c \<Rightarrow> length ys + n_accepted bs < c"
  shows "\<exists>xs' ys'. view s' = xs' @ (k, t) # ys'"
  using assms
proof (induction reqs arbitrary: s xs ys bs)
  case Nil
  then show ?case by auto
next
  case (Cons r reqs)
  obtain k' now where r: "r = (k', now)" by force
  from Cons.prems(3) r obtain b s1 bs1
    where s1: "accept k' now s = Inr (b, s1)" and run: "run_accepts accept reqs s1 = Inr (bs1, s')"
      and bs: "bs = b # bs1"
    by (auto simp: rbind_Inr_iff)
  note cfg = accept_config [OF Cons.prems(1) s1]
  have "\<exists>xs' ys'. view s1 = xs' @ (k, t) # ys' \<and> length ys' = length ys + (if b then 1 else 0)"
    using Cons.prems(4,5) r bs
    by (intro fifo_admit_keeps [OF accept_view [OF Cons.prems(1) s1] Cons.prems(2)])
      (auto simp: n_accepted_def split: option.splits)
  then obtain xs' ys' where v: "view s1 = xs' @ (k, t) # ys'"
    and l: "length ys' = length ys + (if b then 1 else 0)" by blast
  show ?case
    using Cons.prems(4,5) bs cfg l
    by (intro Cons.IH [OF wf_accept [OF Cons.prems(1) s1] v run])
      (auto simp: n_accepted_def split: option.splits if_splits)
qed

lemma no_repeat:
  assumes "wf s" and "accept k t s = Inr (True, s1)"
    and "run_accepts accept reqs s1 = Inr (bs, s2)"
    and "\<forall>(k', now) \<in> set reqs. now - t < ttl s" and "now - t < ttl s"
    and "case cap s of None \<Rightarrow> True | Some c \<Rightarrow> n_accepted bs < c"
  shows "\<exists>s3. accept k now s2 = Inr (False, s3)"
proof -
  note cfg = accept_config [OF assms(1,2)] and wf1 = wf_accept [OF assms(1,2)]
  obtain xs where "view s1 = xs @ (k, t) # []" using accepted_entry [OF assms(1,2)] by blast
  then obtain xs' ys' where v: "view s2 = xs' @ (k, t) # ys'"
    using run_keeps [OF wf1 _ assms(3), of xs k t "[]"] assms(4,6) cfg
    by (auto split: option.splits)
  have wf2: "wf s2" using run_total [OF wf1, of reqs] assms(3) by auto
  have t2: "ttl s2 = ttl s"
    using assms(3) wf1 cfg
  proof (induction reqs arbitrary: s1 bs)
    case (Cons r reqs)
    then show ?case
      by (cases r) (force simp: rbind_Inr_iff dest: accept_config wf_accept)
  qed simp
  obtain b s3 where a: "accept k now s2 = Inr (b, s3)" using accept_refines [OF wf2] by blast
  obtain xs2 where "fifo_live (ttl s2) now (view s2) = xs2 @ (k, t) # ys'"
    using fifo_live_keeps [of now t "ttl s2" xs' k ys'] assms(5) t2 v by auto
  then have "\<not> b" using accept_view [OF wf2 a] by (auto simp: fifo_admit_def split: if_splits)
  with a show ?thesis by auto
qed

end

end
