(* ===== verification/Dedup.thy ===== *)
theory Dedup
  imports ExpiringFifo
begin

section \<open>Deduplication (\<open>dedup.py\<close>)\<close>

text \<open>
  \<open>Deduplicator\<close>: a dictionary \<open>cache\<close> from (scope, message) to an entry, and a deque
  \<open>_expiry_index\<close> of the same entries in insertion order. The source compares entries by
  object identity (\<open>self.cache.get(key) is entry\<close>), so an entry of the model carries the
  identity it was allocated with. A scope is any hashable value; the global scope, an
  object of its own in the source, is \<open>None\<close>. The clock reading of a call is its argument.
\<close>

type_synonym ('s, 'm) dkey = "'s option \<times> 'm"

record ('s, 'm) dentry =
  ident :: nat
  inserted_at :: time
  ekey :: "('s, 'm) dkey"

record ('s, 'm) dedup =
  d_ttl :: time
  d_max :: "int option"
  cache :: "(('s, 'm) dkey \<times> ('s, 'm) dentry) list"
  expiry_index :: "('s, 'm) dentry list"
  d_next :: nat
  accepted :: nat
  duplicates :: nat
  expired :: nat
  capacity_evicted :: nat
  resets :: nat
  peak_entries :: nat

record dedup_stats =
  st_accepted :: nat
  st_duplicates :: nat
  st_expired :: nat
  st_capacity_evicted :: nat
  st_resets :: nat
  st_current_entries :: nat
  st_peak_entries :: nat

definition dedup_init :: "time \<Rightarrow> pyval \<Rightarrow> ('s, 'm) dedup res" where
  "dedup_init ttl max_entries =
     rbind (optional_limit max_entries) (\<lambda>m.
       Inr \<lparr>d_ttl = ttl, d_max = m, cache = [], expiry_index = [], d_next = 0, accepted = 0,
            duplicates = 0, expired = 0, capacity_evicted = 0, resets = 0, peak_entries = 0\<rparr>)"

definition is_live :: "('s, 'm) dentry \<Rightarrow> ('s, 'm) dedup \<Rightarrow> bool" where
  "is_live e d = (case map_of (cache d) (ekey e) of Some e' \<Rightarrow> ident e' = ident e | None \<Rightarrow> False)"

function cleanup_expired :: "time \<Rightarrow> ('s, 'm) dedup \<Rightarrow> ('s, 'm) dedup" where
  "cleanup_expired now d =
     (case expiry_index d of
        [] \<Rightarrow> d
      | e # es \<Rightarrow>
          if now - inserted_at e < d_ttl d then d
          else let d1 = d\<lparr>expiry_index := es\<rparr>
               in cleanup_expired now
                    (if is_live e d1
                     then d1\<lparr>cache := AList.delete (ekey e) (cache d1), expired := Suc (expired d1)\<rparr>
                     else d1))"
  by pat_completeness auto
termination by (relation "measure (\<lambda>(now, d). length (expiry_index d))") (auto simp: Let_def)

function evict_oldest_live :: "('s, 'm) dedup \<Rightarrow> ('s, 'm) dedup res" where
  "evict_oldest_live d =
     (case expiry_index d of
        [] \<Rightarrow> Inl RuntimeError
      | e # es \<Rightarrow>
          let d1 = d\<lparr>expiry_index := es\<rparr>
          in if is_live e d1
             then Inr (d1\<lparr>cache := AList.delete (ekey e) (cache d1),
                          capacity_evicted := Suc (capacity_evicted d1)\<rparr>)
             else evict_oldest_live d1)"
  by pat_completeness auto
termination by (relation "measure (\<lambda>d. length (expiry_index d))") auto

declare cleanup_expired.simps [simp del] evict_oldest_live.simps [simp del]

lemma evict_shrinks:
  "evict_oldest_live d = Inr d' \<Longrightarrow> length (expiry_index d') < length (expiry_index d)"
proof (induction d rule: evict_oldest_live.induct)
  case (1 d)
  show ?case
  proof (cases "expiry_index d")
    case Nil
    with 1 show ?thesis by (simp add: evict_oldest_live.simps)
  next
    case (Cons e es)
    show ?thesis
    proof (cases "is_live e (d\<lparr>expiry_index := es\<rparr>)")
      case True
      with 1 Cons show ?thesis by (auto simp: evict_oldest_live.simps [of d] Let_def)
    next
      case False
      with "1.IH" [OF Cons refl False] "1.prems" Cons show ?thesis
        by (simp add: evict_oldest_live.simps [of d] Let_def)
    qed
  qed
qed

text \<open>The loop of \<open>is_unique\<close> that evicts while the cache is full.\<close>

function make_room :: "('s, 'm) dedup \<Rightarrow> ('s, 'm) dedup res" where
  "make_room d =
     (case d_max d of
        None \<Rightarrow> Inr d
      | Some m \<Rightarrow> if m \<le> int (length (cache d)) then rbind (evict_oldest_live d) make_room else Inr d)"
  by pat_completeness auto
termination
  by (relation "measure (\<lambda>d. length (expiry_index d))") (auto dest: evict_shrinks)

declare make_room.simps [simp del]

definition is_unique ::
  "'m \<Rightarrow> 's option \<Rightarrow> time \<Rightarrow> ('s, 'm) dedup \<Rightarrow> (bool \<times> ('s, 'm) dedup) res" where
  "is_unique message scope now d =
     (let d1 = cleanup_expired now d; key = (scope, message)
      in if key \<in> set (keys (cache d1)) then Inr (False, d1\<lparr>duplicates := Suc (duplicates d1)\<rparr>)
         else rbind (make_room d1) (\<lambda>d2.
           let entry = \<lparr>ident = d_next d2, inserted_at = now, ekey = key\<rparr>;
               c = AList.update key entry (cache d2)
           in Inr (True, d2\<lparr>cache := c, expiry_index := expiry_index d2 @ [entry],
                            d_next := Suc (d_next d2), accepted := Suc (accepted d2),
                            peak_entries := max (peak_entries d2) (length c)\<rparr>)))"

definition dedup_reset :: "('s, 'm) dedup \<Rightarrow> nat \<times> ('s, 'm) dedup" where
  "dedup_reset d =
     (length (cache d), d\<lparr>cache := [], expiry_index := [], resets := Suc (resets d)\<rparr>)"

definition dedup_statistics :: "('s, 'm) dedup \<Rightarrow> dedup_stats" where
  "dedup_statistics d =
     \<lparr>st_accepted = accepted d, st_duplicates = duplicates d, st_expired = expired d,
      st_capacity_evicted = capacity_evicted d, st_resets = resets d,
      st_current_entries = length (cache d), st_peak_entries = peak_entries d\<rparr>"

subsection \<open>The invariant\<close>

text \<open>
  The cache and the index hold the same entries in the same order, one entry per key, and a
  new entry gets an identity no live entry has.
\<close>

definition cache_of :: "('s, 'm) dentry list \<Rightarrow> (('s, 'm) dkey \<times> ('s, 'm) dentry) list" where
  "cache_of es = map (\<lambda>e. (ekey e, e)) es"

definition dedup_sync :: "('s, 'm) dedup \<Rightarrow> bool" where
  "dedup_sync d \<longleftrightarrow> cache d = cache_of (expiry_index d) \<and> distinct (map ekey (expiry_index d)) \<and>
     (\<forall>e \<in> set (expiry_index d). ident e < d_next d)"

text \<open>Bounds and the accounting of every entry ever accepted.\<close>

definition dedup_bounds :: "('s, 'm) dedup \<Rightarrow> bool" where
  "dedup_bounds d \<longleftrightarrow>
     (case d_max d of None \<Rightarrow> True | Some m \<Rightarrow> 1 \<le> m \<and> int (peak_entries d) \<le> m) \<and>
     length (cache d) \<le> peak_entries d \<and>
     length (cache d) + expired d + capacity_evicted d \<le> accepted d \<and>
     (resets d = 0 \<longrightarrow> accepted d = length (cache d) + expired d + capacity_evicted d)"

definition dedup_wf :: "('s, 'm) dedup \<Rightarrow> bool" where
  "dedup_wf d \<longleftrightarrow> dedup_sync d \<and> dedup_bounds d"

lemma keys_cache_of [simp]: "keys (cache_of es) = map ekey es"
  by (simp add: cache_of_def comp_def)

lemma cache_of_simps [simp]:
  "cache_of [] = []" "cache_of (e # es) = (ekey e, e) # cache_of es"
  "cache_of (es @ es') = cache_of es @ cache_of es'" "length (cache_of es) = length es"
  by (simp_all add: cache_of_def)

lemma fst_set_cache_of [simp]: "fst ` set (cache_of es) = ekey ` set es"
  by (simp add: cache_of_def image_image)

lemma is_live_head: "cache d = cache_of (e # es) \<Longrightarrow> is_live e (d\<lparr>expiry_index := es\<rparr>)"
  by (simp add: is_live_def)

lemma dedup_sync_tl:
  assumes "dedup_sync d" and "expiry_index d = e # es"
  shows "cache d = (ekey e, e) # cache_of es" "AList.delete (ekey e) (cache_of es) = cache_of es"
    "is_live e (d\<lparr>expiry_index := es\<rparr>)"
proof -
  show c: "cache d = (ekey e, e) # cache_of es" using assms by (simp add: dedup_sync_def)
  show "AList.delete (ekey e) (cache_of es) = cache_of es"
    using assms by (simp add: dedup_sync_def)
  show "is_live e (d\<lparr>expiry_index := es\<rparr>)" using c by (simp add: is_live_def)
qed

text \<open>What the loops compute on a state that satisfies the invariant.\<close>

abbreviation drop_expired :: "time \<Rightarrow> time \<Rightarrow> ('s, 'm) dentry list \<Rightarrow> ('s, 'm) dentry list" where
  "drop_expired ttl now es \<equiv> dropWhile (\<lambda>e. ttl \<le> now - inserted_at e) es"

lemma cleanup_expired_eq:
  "dedup_sync d \<Longrightarrow> es = drop_expired (d_ttl d) now (expiry_index d) \<Longrightarrow>
   cleanup_expired now d = d\<lparr>expiry_index := es, cache := cache_of es,
     expired := expired d + (length (expiry_index d) - length es)\<rparr>"
proof (induction "expiry_index d" arbitrary: d)
  case Nil
  then show ?case by (simp add: cleanup_expired.simps dedup_sync_def)
next
  case (Cons e es0)
  note tl = dedup_sync_tl [OF Cons.prems(1) Cons.hyps(2) [symmetric]]
  show ?case
  proof (cases "d_ttl d \<le> now - inserted_at e")
    case False
    with Cons.prems tl(1) show ?thesis
      by (simp add: cleanup_expired.simps [of now d] Cons.hyps(2) [symmetric])
  next
    case True
    let ?d = "d\<lparr>expiry_index := es0, cache := cache_of es0, expired := Suc (expired d)\<rparr>"
    have "dedup_sync ?d" using Cons.prems(1) Cons.hyps(2) [symmetric] by (simp add: dedup_sync_def)
    moreover have "es = drop_expired (d_ttl ?d) now (expiry_index ?d)"
      using Cons.prems(2) Cons.hyps(2) [symmetric] True by simp
    ultimately have "cleanup_expired now ?d = ?d\<lparr>expiry_index := es, cache := cache_of es,
        expired := expired ?d + (length (expiry_index ?d) - length es)\<rparr>"
      by (intro Cons.hyps(1)) auto
    moreover have "cleanup_expired now d = cleanup_expired now ?d"
      using True tl by (simp add: cleanup_expired.simps [of now d] Cons.hyps(2) [symmetric])
    moreover have "length es \<le> length es0"
      using Cons.prems(2) Cons.hyps(2) [symmetric] True by (simp add: length_dropWhile_le)
    ultimately show ?thesis by (simp add: Cons.hyps(2) [symmetric])
  qed
qed

lemma evict_oldest_live_eq:
  "dedup_sync d \<Longrightarrow> expiry_index d = e # es \<Longrightarrow>
   evict_oldest_live d = Inr (d\<lparr>expiry_index := es, cache := cache_of es,
     capacity_evicted := Suc (capacity_evicted d)\<rparr>)"
  by (simp add: evict_oldest_live.simps [of d] dedup_sync_tl)

definition excess :: "('s, 'm) dedup \<Rightarrow> nat" where
  "excess d = (case d_max d of None \<Rightarrow> 0 | Some m \<Rightarrow> Suc (length (expiry_index d)) - nat m)"

lemma make_room_eq:
  "dedup_sync d \<Longrightarrow> case d_max d of None \<Rightarrow> True | Some m \<Rightarrow> 1 \<le> m \<Longrightarrow>
   es = drop (excess d) (expiry_index d) \<Longrightarrow>
   make_room d = Inr (d\<lparr>expiry_index := es, cache := cache_of es,
     capacity_evicted := capacity_evicted d + excess d\<rparr>)"
proof (induction "expiry_index d" arbitrary: d)
  case Nil
  then show ?case
    by (auto simp: make_room.simps [of d] dedup_sync_def excess_def split: option.splits)
next
  case (Cons e es0)
  note idx = Cons.hyps(2) [symmetric]
  show ?case
  proof (cases "excess d")
    case 0
    with Cons.prems idx show ?thesis
      by (auto simp: make_room.simps [of d] dedup_sync_def excess_def split: option.splits)
  next
    case (Suc n)
    let ?d = "d\<lparr>expiry_index := es0, cache := cache_of es0,
      capacity_evicted := Suc (capacity_evicted d)\<rparr>"
    have n: "excess ?d = n" using Suc idx by (auto simp: excess_def split: option.splits)
    have "make_room ?d = Inr (?d\<lparr>expiry_index := es, cache := cache_of es,
        capacity_evicted := capacity_evicted ?d + excess ?d\<rparr>)"
      using Cons.prems idx Suc n
      by (intro Cons.hyps(1)) (auto simp: dedup_sync_def)
    moreover have "make_room d = make_room ?d"
      using Suc Cons.prems idx
      by (auto simp: make_room.simps [of d] evict_oldest_live_eq excess_def dedup_sync_def
          split: option.splits)
    ultimately show ?thesis using n Suc by simp
  qed
qed

subsection \<open>Refinement of the expiring set\<close>

definition dview :: "('s, 'm) dedup \<Rightarrow> ('s, 'm) dkey fifo" where
  "dview d = map (\<lambda>e. (ekey e, inserted_at e)) (expiry_index d)"

definition dcap :: "('s, 'm) dedup \<Rightarrow> nat option" where
  "dcap d = map_option nat (d_max d)"

lemma keys_dview: "keys (dview d) = map ekey (expiry_index d)"
  by (simp add: dview_def comp_def)

lemma fifo_live_dview:
  "fifo_live ttl now (dview d) =
     dview (d\<lparr>expiry_index := drop_expired ttl now (expiry_index d)\<rparr>)"
  by (simp add: fifo_live_def dview_def dropWhile_map comp_def)

lemma fifo_room_dview:
  "d_max d \<noteq> Some 0 \<Longrightarrow>
   fifo_room (dcap d) (dview d) = dview (d\<lparr>expiry_index := drop (excess d) (expiry_index d)\<rparr>)"
  by (auto simp: fifo_room_def dcap_def dview_def excess_def drop_map split: option.splits)

lemma set_drop_expired: "set (drop_expired ttl now es) \<subseteq> set es"
  by (auto dest: set_dropWhileD)

lemma cleanup_wf:
  assumes "dedup_wf d"
  shows "dedup_wf (cleanup_expired now d)"
proof -
  let ?es = "drop_expired (d_ttl d) now (expiry_index d)"
  have "length ?es \<le> length (expiry_index d)" by (rule length_dropWhile_le)
  moreover have "distinct (map ekey ?es)" "\<forall>e \<in> set ?es. ident e < d_next d"
    using assms set_drop_expired [of "d_ttl d" now "expiry_index d"]
    by (auto simp: dedup_wf_def dedup_sync_def distinct_dropWhile_map)
  ultimately show ?thesis
    using assms
    by (auto simp: dedup_wf_def cleanup_expired_eq dedup_bounds_def dedup_sync_def
        split: option.splits)
qed

lemma make_room_wf:
  assumes "dedup_wf d"
  obtains d' where "make_room d = Inr d'" "dedup_wf d'" "d_ttl d' = d_ttl d" "d_max d' = d_max d"
    "dview d' = fifo_room (dcap d) (dview d)" "set (expiry_index d') \<subseteq> set (expiry_index d)"
    "case d_max d of None \<Rightarrow> True | Some m \<Rightarrow> int (length (cache d')) < m"
proof -
  let ?es = "drop (excess d) (expiry_index d)"
  let ?d = "d\<lparr>expiry_index := ?es, cache := cache_of ?es,
    capacity_evicted := capacity_evicted d + excess d\<rparr>"
  have m: "case d_max d of None \<Rightarrow> True | Some m \<Rightarrow> 1 \<le> m"
    using assms by (simp add: dedup_wf_def dedup_bounds_def split: option.splits)
  have "make_room d = Inr ?d" using make_room_eq [OF _ m] assms by (simp add: dedup_wf_def)
  moreover have "excess d \<le> length (expiry_index d)"
    using m by (auto simp: excess_def split: option.splits)
  then have "dedup_wf ?d"
    using assms
    by (auto simp: dedup_wf_def dedup_bounds_def dedup_sync_def drop_map [symmetric]
        dest: in_set_dropD split: option.splits)
  moreover have "dview ?d = fifo_room (dcap d) (dview d)"
    using m by (subst fifo_room_dview) (auto simp: dview_def)
  moreover have "case d_max d of None \<Rightarrow> True | Some m \<Rightarrow> int (length (cache ?d)) < m"
    using m by (auto simp: excess_def split: option.splits)
  ultimately show thesis using that [of ?d] by (auto dest: in_set_dropD)
qed

lemma is_unique_spec:
  assumes "dedup_wf d"
  obtains b d' where "is_unique m sc now d = Inr (b, d')" "dedup_wf d'"
    "d_ttl d' = d_ttl d" "d_max d' = d_max d"
    "fifo_admit (dcap d) (d_ttl d) (sc, m) now (dview d) = (b, dview d')"
proof -
  let ?d1 = "cleanup_expired now d"
  have sync: "dedup_sync d" using assms by (simp add: dedup_wf_def)
  note d1 = cleanup_expired_eq [OF sync refl, of now]
  have wf1: "dedup_wf ?d1" by (rule cleanup_wf [OF assms])
  have cfg: "d_ttl ?d1 = d_ttl d" "d_max ?d1 = d_max d" "dcap ?d1 = dcap d"
    by (simp_all add: d1 dcap_def)
  have v1: "dview ?d1 = fifo_live (d_ttl d) now (dview d)"
    by (simp add: d1 dview_def fifo_live_def dropWhile_map comp_def)
  have k1: "keys (cache ?d1) = keys (dview ?d1)"
    using wf1 by (simp add: dedup_wf_def dedup_sync_def keys_dview)
  show thesis
  proof (cases "(sc, m) \<in> set (keys (cache ?d1))")
    case True
    let ?d' = "?d1\<lparr>duplicates := Suc (duplicates ?d1)\<rparr>"
    have "dview ?d' = dview ?d1" "dedup_wf ?d'"
      using wf1
      by (auto simp: dview_def dedup_wf_def dedup_bounds_def dedup_sync_def split: option.splits)
    moreover have "is_unique m sc now d = Inr (False, ?d')"
      using True by (simp add: is_unique_def Let_def)
    ultimately show thesis
      using True v1 cfg unfolding k1
      by (intro that [of False ?d']) (simp_all add: fifo_admit_def)
  next
    case False
    obtain d2 where d2: "make_room ?d1 = Inr d2" "dedup_wf d2" "d_ttl d2 = d_ttl d"
        "d_max d2 = d_max d" "dview d2 = fifo_room (dcap d) (dview ?d1)"
        "set (expiry_index d2) \<subseteq> set (expiry_index ?d1)"
        "case d_max d of None \<Rightarrow> True | Some m \<Rightarrow> int (length (cache d2)) < m"
      using make_room_wf [OF wf1] cfg by metis
    let ?e = "\<lparr>ident = d_next d2, inserted_at = now, ekey = (sc, m)\<rparr>"
    let ?c = "AList.update (sc, m) ?e (cache d2)"
    let ?d' = "d2\<lparr>cache := ?c, expiry_index := expiry_index d2 @ [?e], d_next := Suc (d_next d2),
      accepted := Suc (accepted d2), peak_entries := max (peak_entries d2) (length ?c)\<rparr>"
    have fresh: "(sc, m) \<notin> set (keys (cache d2))" "(sc, m) \<notin> ekey ` set (expiry_index d2)"
      using False d2(2,6) wf1 by (auto simp: dedup_wf_def dedup_sync_def)
    have "dedup_wf ?d'"
      using d2(2,4,7) fresh
      by (auto simp: dedup_wf_def dedup_sync_def dedup_bounds_def less_Suc_eq
          split: option.splits)
    moreover have "dview ?d' = fifo_room (dcap d) (dview ?d1) @ [((sc, m), now)]"
      using d2(5) by (simp add: dview_def)
    moreover have "is_unique m sc now d = Inr (True, ?d')"
      using False d2(1) by (simp add: is_unique_def Let_def)
    ultimately show thesis
      using False v1 d2(3,4) unfolding k1
      by (intro that [of True ?d']) (simp_all add: fifo_admit_def)
  qed
qed

interpretation dd: expiring_fifo
  "\<lambda>(sc, m). is_unique m sc" dview d_ttl dcap dedup_wf
proof
  fix s k now b s'
  assume wf: "dedup_wf (s :: ('a, 'b) dedup)"
  obtain sc m where k: "(k :: ('a, 'b) dkey) = (sc, m)" by force
  from is_unique_spec [OF wf, of m sc now] obtain b0 s0
    where s0: "is_unique m sc now s = Inr (b0, s0)" "dedup_wf s0" "d_ttl s0 = d_ttl s"
      "d_max s0 = d_max s" "fifo_admit (dcap s) (d_ttl s) (sc, m) now (dview s) = (b0, dview s0)"
    by blast
  then show "\<exists>b s'. (case k of (sc, m) \<Rightarrow> is_unique m sc) now s = Inr (b, s') \<and>
      (b, dview s') = fifo_admit (dcap s) (d_ttl s) k now (dview s)"
    by (auto simp: k)
  assume "(case k of (sc, m) \<Rightarrow> is_unique m sc) now s = Inr (b, s')"
  with s0 show "dedup_wf s'" "d_ttl s' = d_ttl s \<and> dcap s' = dcap s"
    by (auto simp: k dcap_def)
qed

subsection \<open>Everything a caller can do\<close>

text \<open>
  The deduplicators reachable by any calls, with the last clock reading: the clock of the
  source is monotonic, so readings do not decrease.
\<close>

inductive dedup_reach :: "time \<Rightarrow> ('s, 'm) dedup \<Rightarrow> bool" where
  init: "dedup_init ttl mx = Inr d \<Longrightarrow> dedup_reach t d"
| unique: "dedup_reach t d \<Longrightarrow> t \<le> now \<Longrightarrow> is_unique m sc now d = Inr (b, d') \<Longrightarrow> dedup_reach now d'"
| cleanup: "dedup_reach t d \<Longrightarrow> t \<le> now \<Longrightarrow> dedup_reach now (cleanup_expired now d)"
| reset: "dedup_reach t d \<Longrightarrow> dedup_reach t (snd (dedup_reset d))"

definition timed :: "time \<Rightarrow> 'k fifo \<Rightarrow> bool" where
  "timed t q \<longleftrightarrow> sorted (map snd q) \<and> (\<forall>(k, u) \<in> set q. u \<le> t)"

lemma timed_fifo_live: "timed t q \<Longrightarrow> timed t (fifo_live ttl now q)"
  using set_fifo_live [of ttl now q]
  by (auto simp: timed_def fifo_live_def sorted_map dropWhile_sorted_wrt)

lemma timed_mono: "timed t q \<Longrightarrow> t \<le> t' \<Longrightarrow> timed t' q"
  by (fastforce simp: timed_def)

lemma dedup_init_wf: "dedup_init ttl mx = Inr d \<Longrightarrow> dedup_wf d \<and> dview d = []"
  using optional_limit_pos [of mx]
  by (force simp: dedup_init_def rbind_Inr_iff dedup_wf_def dedup_sync_def dedup_bounds_def
      dview_def split: option.splits)

lemma dview_cleanup:
  "dedup_wf d \<Longrightarrow> dview (cleanup_expired now d) = fifo_live (d_ttl d) now (dview d)"
  by (simp add: dedup_wf_def cleanup_expired_eq dview_def fifo_live_def dropWhile_map comp_def)

lemma dedup_reach_inv: "dedup_reach t d \<Longrightarrow> dedup_wf d \<and> timed t (dview d)"
proof (induction rule: dedup_reach.induct)
  case (init ttl mx d t)
  then show ?case using dedup_init_wf by (auto simp: timed_def)
next
  case (unique t d now m sc b d')
  have wf: "dedup_wf d" and t: "timed now (dview d)"
    using unique timed_mono by blast+
  from is_unique_spec [OF wf, of m sc now] unique(3)
  have "dedup_wf d'" "fifo_admit (dcap d) (d_ttl d) (sc, m) now (dview d) = (b, dview d')" by auto
  with sorted_fifo_admit [OF this(2)] t show ?case by (simp add: timed_def)
next
  case (cleanup t d now)
  then show ?case using cleanup_wf dview_cleanup timed_fifo_live timed_mono by metis
next
  case (reset t d)
  then show ?case
    by (auto simp: dedup_reset_def dedup_wf_def dedup_sync_def dedup_bounds_def dview_def timed_def
        split: option.splits)
qed

subsection \<open>Properties\<close>

text \<open>
  C40. \<open>is_unique\<close> answers for every deduplicator that any sequence of calls leads to (the
  eviction loop ends and never meets an inconsistent index), and it answers true exactly
  when every remembered entry of that scope and message has reached the time to live.
\<close>

theorem is_unique_decides:
  assumes "dedup_reach t d" and "t \<le> now"
  shows "\<exists>b d'. is_unique m sc now d = Inr (b, d') \<and>
    (b \<longleftrightarrow> (\<forall>e \<in> set (expiry_index d). ekey e = (sc, m) \<longrightarrow> d_ttl d \<le> now - inserted_at e))"
proof -
  have wf: "dedup_wf d" and s: "sorted (map snd (dview d))"
    using dedup_reach_inv [OF assms(1)] by (auto simp: timed_def)
  from is_unique_spec [OF wf, of m sc now] obtain b d'
    where "is_unique m sc now d = Inr (b, d')"
      and a: "fifo_admit (dcap d) (d_ttl d) (sc, m) now (dview d) = (b, dview d')" by blast
  moreover have "b \<longleftrightarrow> (\<forall>u. ((sc, m), u) \<in> set (dview d) \<longrightarrow> d_ttl d \<le> now - u)"
    using fifo_admit_decision [OF s, of "dcap d" "d_ttl d" "(sc, m)" now] a by simp
  ultimately show ?thesis by (force simp: dview_def)
qed

text \<open>A deduplicator of one entry, ten ticks of life and a capacity of two, for the witnesses.\<close>

definition example_dedup :: "(int, int) dedup" where
  "example_dedup =
     \<lparr>d_ttl = 10, d_max = Some 2, cache = [], expiry_index = [], d_next = 0, accepted = 0,
      duplicates = 0, expired = 0, capacity_evicted = 0, resets = 0, peak_entries = 0\<rparr>"

lemma example_dedup_init: "dedup_init 10 (PInt 2) = Inr example_dedup"
  by (simp add: dedup_init_def example_dedup_def)

lemmas dedup_run = cleanup_expired.simps make_room.simps evict_oldest_live.simps is_unique_def
  is_live_def Let_def example_dedup_def

definition example_dedup1 :: "(int, int) dedup" where
  "example_dedup1 = (case is_unique 7 (Some 1) 0 example_dedup of Inr (_, d) \<Rightarrow> d)"

lemma example_dedup1: "is_unique 7 (Some 1) 0 example_dedup = Inr (True, example_dedup1)"
  by (simp add: example_dedup1_def dedup_run)

lemma example_dedup1_reach: "dedup_reach 0 example_dedup1"
  using dedup_reach.unique [OF dedup_reach.init [OF example_dedup_init, of 0] _ example_dedup1]
  by simp

lemma is_unique_decides_witness:
  "(\<exists>d'. is_unique 7 (Some 1) 9 example_dedup1 = Inr (False, d')) \<and>
   (\<exists>d'. is_unique 7 (Some 1) 10 example_dedup1 = Inr (True, d')) \<and>
   (\<exists>d'. is_unique 7 None 9 example_dedup1 = Inr (True, d'))"
  using is_unique_decides [OF example_dedup1_reach, of 9 7 "Some 1"]
    is_unique_decides [OF example_dedup1_reach, of 10 7 "Some 1"]
    is_unique_decides [OF example_dedup1_reach, of 9 7 None]
  by (simp add: example_dedup1_def dedup_run)

text \<open>
  A message once accepted is refused for its whole life: whatever calls follow, a repeat
  of the same scope and message within the time to live is a duplicate, provided the calls
  in between came within that time and accepted fewer messages than the capacity.
\<close>

theorem no_duplicate_accepted:
  assumes "dedup_reach u d" and "is_unique m sc t d = Inr (True, d1)"
    and "run_accepts (\<lambda>(sc, m). is_unique m sc) reqs d1 = Inr (bs, d2)"
    and "\<forall>(k, now) \<in> set reqs. now - t < d_ttl d" and "now - t < d_ttl d"
    and "case dcap d of None \<Rightarrow> True | Some c \<Rightarrow> n_accepted bs < c"
  shows "\<exists>d3. is_unique m sc now d2 = Inr (False, d3)"
  using dd.no_repeat [of d "(sc, m)" t d1 reqs bs d2 now] assms dedup_reach_inv by auto

lemma no_duplicate_accepted_witness:
  "\<exists>d2 d3. is_unique 8 (Some 1) 5 example_dedup1 = Inr (True, d2) \<and>
     is_unique 7 (Some 1) 9 d2 = Inr (False, d3)"
proof -
  obtain d2 where d2: "is_unique 8 (Some 1) 5 example_dedup1 = Inr (True, d2)"
    by (simp add: example_dedup1_def dedup_run)
  have "run_accepts (\<lambda>(sc, m). is_unique m sc) [((Some 1, 8), 5)] example_dedup1 = Inr ([True], d2)"
    by (simp add: d2)
  from no_duplicate_accepted [OF dedup_reach.init [OF example_dedup_init, of 0] example_dedup1 this]
  show ?thesis using d2 by (simp add: example_dedup_def dcap_def n_accepted_def)
qed

text \<open>
  The statistics account for every entry: the cache never holds more than its peak, the
  peak never exceeds the configured maximum, and until a reset every accepted message is
  current, expired or evicted.
\<close>

theorem dedup_accounting:
  assumes "dedup_reach t d"
  shows "let s = dedup_statistics d in
    (case d_max d of None \<Rightarrow> True | Some m \<Rightarrow> int (st_peak_entries s) \<le> m) \<and>
    st_current_entries s \<le> st_peak_entries s \<and>
    st_current_entries s + st_expired s + st_capacity_evicted s \<le> st_accepted s \<and>
    (st_resets s = 0 \<longrightarrow>
       st_accepted s = st_current_entries s + st_expired s + st_capacity_evicted s)"
  using dedup_reach_inv [OF assms]
  by (auto simp: dedup_statistics_def dedup_wf_def dedup_bounds_def Let_def split: option.splits)

lemma dedup_accounting_witness:
  "st_accepted (dedup_statistics example_dedup1) = 1 \<and> st_peak_entries (dedup_statistics example_dedup1) \<le> 2"
  using dedup_accounting [OF example_dedup1_reach]
  by (simp add: Let_def dedup_statistics_def example_dedup1_def dedup_run)

end
