(* ===== verification/TtlMap.thy ===== *)
theory TtlMap
  imports Prelude
begin

section \<open>Source activity (\<open>core/utils/ttlmap.py\<close>, \<open>core/state/s_cache.py\<close>)\<close>

text \<open>
  \<open>TTLMap\<close>: a dictionary from keys to expiry times and a queue of (expiry, key) records, one
  per touch, so that a key touched again has stale records. The loops run down the queue and
  are structural in it. An operation returns the keys for which the eviction callback was
  called, in order; the clock reading of a call (\<open>now_ns\<close> or the monotonic clock) is its
  argument. \<open>SourceState\<close> keeps one such map and a dictionary of per-source states, from
  which the callback removes the evicted source.
\<close>

record 'k ttl_map =
  ttl_ns :: int
  tm_max :: int
  tm_d :: "('k \<times> int) list"
  tm_q :: "(int \<times> 'k) list"
  last_sweep_ns :: int
  sweep_every_ns :: int
  tm_ops :: int
  ops_per_sweep :: int

definition tm_init :: "int \<Rightarrow> int \<Rightarrow> int \<Rightarrow> int \<Rightarrow> int \<Rightarrow> 'k ttl_map" where
  "tm_init ttl mx sweep_every ops now =
     \<lparr>ttl_ns = ttl, tm_max = mx, tm_d = [], tm_q = [], last_sweep_ns = now,
      sweep_every_ns = sweep_every, tm_ops = 0, ops_per_sweep = ops\<rparr>"

fun sweep_loop ::
  "int \<Rightarrow> ('k \<times> int) list \<Rightarrow> (int \<times> 'k) list \<Rightarrow> ('k \<times> int) list \<times> (int \<times> 'k) list \<times> 'k list" where
  "sweep_loop now d [] = (d, [], [])"
| "sweep_loop now d ((exp, key) # q) =
     (if exp \<le> now
      then if map_of d key = Some exp
           then (case sweep_loop now (AList.delete key d) q of (d', q', ks) \<Rightarrow> (d', q', key # ks))
           else sweep_loop now d q
      else (d, (exp, key) # q, []))"

definition tm_sweep :: "int \<Rightarrow> 'k ttl_map \<Rightarrow> 'k ttl_map \<times> 'k list" where
  "tm_sweep now m =
     (case sweep_loop now (tm_d m) (tm_q m) of (d, q, ks) \<Rightarrow> (m\<lparr>tm_d := d, tm_q := q\<rparr>, ks))"

definition maybe_sweep :: "int \<Rightarrow> 'k ttl_map \<Rightarrow> 'k ttl_map \<times> 'k list" where
  "maybe_sweep now m0 =
     (let m = m0\<lparr>tm_ops := tm_ops m0 + 1\<rparr>
      in if ops_per_sweep m \<le> tm_ops m \<or> sweep_every_ns m \<le> now - last_sweep_ns m
         then (case tm_sweep now m of (m', ks) \<Rightarrow> (m'\<lparr>tm_ops := 0, last_sweep_ns := now\<rparr>, ks))
         else (m, []))"

fun evict_loop ::
  "int \<Rightarrow> bool \<Rightarrow> int \<Rightarrow> ('k \<times> int) list \<Rightarrow> (int \<times> 'k) list
     \<Rightarrow> ('k \<times> int) list \<times> (int \<times> 'k) list \<times> 'k list" where
  "evict_loop now hard target d [] = (d, [], [])"
| "evict_loop now hard target d ((exp, key) # q) =
     (if target < int (length d)
      then case map_of d key of
             None \<Rightarrow> evict_loop now hard target d q
           | Some cur \<Rightarrow>
               if hard \<or> cur \<le> now
               then (case evict_loop now hard target (AList.delete key d) q of
                       (d', q', ks) \<Rightarrow> (d', q', key # ks))
               else evict_loop now hard target d q
      else (d, (exp, key) # q, []))"

definition tm_evict_oldest :: "int \<Rightarrow> bool \<Rightarrow> 'k ttl_map \<Rightarrow> 'k ttl_map \<times> 'k list" where
  "tm_evict_oldest now hard m =
     (case evict_loop now hard (tm_max m) (tm_d m) (tm_q m) of
        (d, q, ks) \<Rightarrow> (m\<lparr>tm_d := d, tm_q := q\<rparr>, ks))"

definition tm_touch :: "'k \<Rightarrow> int \<Rightarrow> 'k ttl_map \<Rightarrow> 'k ttl_map \<times> 'k list" where
  "tm_touch key now m =
     (let exp = now + ttl_ns m;
          (m1, ks1) = maybe_sweep now
            (m\<lparr>tm_d := AList.update key exp (tm_d m), tm_q := tm_q m @ [(exp, key)]\<rparr>)
      in if tm_max m1 < int (length (tm_d m1))
         then (case tm_evict_oldest now True m1 of (m2, ks2) \<Rightarrow> (m2, ks1 @ ks2))
         else (m1, ks1))"

definition evict_key_if_expired :: "'k \<Rightarrow> int \<Rightarrow> 'k ttl_map \<Rightarrow> 'k ttl_map \<times> 'k list" where
  "evict_key_if_expired key now m =
     (case map_of (tm_d m) key of
        Some exp \<Rightarrow> if exp \<le> now then (m\<lparr>tm_d := AList.delete key (tm_d m)\<rparr>, [key]) else (m, [])
      | None \<Rightarrow> (m, []))"

definition tm_contains :: "'k \<Rightarrow> int \<Rightarrow> 'k ttl_map \<Rightarrow> bool \<times> 'k ttl_map \<times> 'k list" where
  "tm_contains key now m =
     (case map_of (tm_d m) key of
        None \<Rightarrow> (False, maybe_sweep now m)
      | Some exp \<Rightarrow> if exp \<le> now then (False, evict_key_if_expired key now m)
                    else (True, maybe_sweep now m))"

definition tm_len :: "'k ttl_map \<Rightarrow> nat" where
  "tm_len m = length (tm_d m)"

definition tm_clear :: "int \<Rightarrow> 'k ttl_map \<Rightarrow> nat \<times> 'k ttl_map \<times> 'k list" where
  "tm_clear now m =
     (length (tm_d m), m\<lparr>tm_d := [], tm_q := [], tm_ops := 0, last_sweep_ns := now\<rparr>, keys (tm_d m))"

subsection \<open>\<open>SourceState\<close>\<close>

record source_state =
  s_cache :: "pystr ttl_map"
  per_s_state :: "(pystr \<times> pyval) list"

definition source_init :: "int \<Rightarrow> int \<Rightarrow> int \<Rightarrow> int \<Rightarrow> int \<Rightarrow> source_state" where
  "source_init ttl mx sweep_every ops now =
     \<lparr>s_cache = tm_init ttl mx sweep_every ops now, per_s_state = []\<rparr>"

definition on_s_evict :: "pystr \<Rightarrow> (pystr \<times> pyval) list \<Rightarrow> (pystr \<times> pyval) list" where
  "on_s_evict k states = AList.delete k states"

definition touch_s :: "pystr option \<Rightarrow> int \<Rightarrow> source_state \<Rightarrow> source_state" where
  "touch_s value now s =
     (case value of
        None \<Rightarrow> s
      | Some v \<Rightarrow>
          if v = [] then s
          else (case tm_touch v now (s_cache s) of
            (m, ks) \<Rightarrow>
              let states = fold on_s_evict ks (per_s_state s)
              in \<lparr>s_cache = m,
                  per_s_state = (if v \<in> set (keys states) then states
                                 else AList.update v (PDict []) states)\<rparr>))"

definition source_reset :: "int \<Rightarrow> source_state \<Rightarrow> nat \<times> source_state" where
  "source_reset now s =
     (case tm_clear now (s_cache s) of (n, m, ks) \<Rightarrow> (n, \<lparr>s_cache = m, per_s_state = []\<rparr>))"

subsection \<open>The invariant\<close>

text \<open>Every live key has a queue record with its current expiry.\<close>

definition tm_recorded :: "('k \<times> int) list \<Rightarrow> (int \<times> 'k) list \<Rightarrow> bool" where
  "tm_recorded d q \<longleftrightarrow> distinct (keys d) \<and> (\<forall>(k, e) \<in> set d. (e, k) \<in> set q)"

definition tm_wf :: "'k ttl_map \<Rightarrow> bool" where
  "tm_wf m \<longleftrightarrow> tm_recorded (tm_d m) (tm_q m) \<and> 0 \<le> tm_max m \<and> int (length (tm_d m)) \<le> tm_max m"

lemma tm_recorded_Cons:
  "tm_recorded d ((e, k) # q) \<Longrightarrow> map_of d k \<noteq> Some e \<Longrightarrow> tm_recorded d q"
  "tm_recorded d ((e, k) # q) \<Longrightarrow> tm_recorded (AList.delete k d) q"
  by (auto simp: tm_recorded_def distinct_keys_delete set_delete)

lemma sweep_loop_recorded:
  "tm_recorded d q \<Longrightarrow> sweep_loop now d q = (d', q', ks) \<Longrightarrow>
   tm_recorded d' q' \<and> length d' \<le> length d"
proof (induction now d q arbitrary: d' q' ks rule: sweep_loop.induct)
  case (2 now d exp key q)
  have "length (AList.delete key d) \<le> length d" by (rule AList.length_delete_le)
  with 2 show ?case
    by (auto split: if_splits prod.splits dest: tm_recorded_Cons; fastforce dest: tm_recorded_Cons)
qed auto

lemma evict_loop_recorded:
  "tm_recorded d q \<Longrightarrow> evict_loop now True target d q = (d', q', ks) \<Longrightarrow> 0 \<le> target \<Longrightarrow>
   tm_recorded d' q' \<and> int (length d') \<le> target"
proof (induction now True target d q arbitrary: d' q' ks rule: evict_loop.induct)
  case (1 now target d)
  then have "d = []" by (cases d) (auto simp: tm_recorded_def)
  with 1 show ?case by (auto simp: tm_recorded_def)
next
  case (2 now target d exp key q)
  show ?case
  proof (cases "target < int (length d)")
    case True
    show ?thesis
    proof (cases "map_of d key")
      case None
      then have "tm_recorded d q" by (intro tm_recorded_Cons(1) [OF "2.prems"(1)]) simp
      from "2.hyps"(1) [OF True None this _ "2.prems"(3)] "2.prems"(2) True None
      show ?thesis by simp
    next
      case (Some cur)
      obtain d1 q1 ks1 where r: "evict_loop now True target (AList.delete key d) q = (d1, q1, ks1)"
        by (metis prod_cases3)
      from "2.hyps"(2) [OF True Some _ tm_recorded_Cons(2) [OF "2.prems"(1)] r "2.prems"(3)]
      show ?thesis using True Some r "2.prems" by auto
    qed
  qed (use "2.prems" in auto)
qed

text \<open>With expiries in order of touching, a sweep removes exactly the expired keys.\<close>

lemma sweep_loop_exact:
  "tm_recorded d q \<Longrightarrow> sorted (map fst q) \<Longrightarrow> sweep_loop now d q = (d', q', ks) \<Longrightarrow>
   map_of d' k = (case map_of d k of Some e \<Rightarrow> if now < e then Some e else None | None \<Rightarrow> None)"
proof (induction now d q arbitrary: d' q' ks rule: sweep_loop.induct)
  case (1 now d)
  then show ?case by (cases d) (auto simp: tm_recorded_def)
next
  case (2 now d exp key q)
  show ?case
  proof (cases "exp \<le> now")
    case False
    then have "now < e" if "(e, k') \<in> set ((exp, key) # q)" for e k'
      using that "2.prems"(2) by (force simp: image_iff)
    with "2.prems"(1) have "now < e" if "(k', e) \<in> set d" for k' e
      using that unfolding tm_recorded_def by blast
    with False "2.prems" show ?thesis by (auto split: option.splits dest: map_of_SomeD)
  next
    case True
    show ?thesis
    proof (cases "map_of d key = Some exp")
      case False
      with True 2 tm_recorded_Cons(1) show ?thesis by fastforce
    next
      case hit: True
      obtain d1 q1 ks1 where r: "sweep_loop now (AList.delete key d) q = (d1, q1, ks1)"
        by (metis prod_cases3)
      have "map_of d1 k = (case map_of (AList.delete key d) k of
          Some e \<Rightarrow> if now < e then Some e else None | None \<Rightarrow> None)"
        using 2(1) [OF True hit _ _ r] tm_recorded_Cons(2) [OF "2.prems"(1)] "2.prems"(2) by simp
      with True hit r "2.prems" show ?thesis by (auto simp: map_of_delete split: option.splits)
    qed
  qed
qed

subsection \<open>Every state a processor can reach\<close>

lemma recorded_update:
  "tm_recorded d q \<Longrightarrow> tm_recorded (AList.update k e d) (q @ [(e, k)])"
proof -
  assume r: "tm_recorded d q"
  have "set (AList.update k e d) \<subseteq> insert (k, e) (set d)"
    by (induction d) auto
  with r show ?thesis by (auto simp: tm_recorded_def AList.distinct_update)
qed

lemma sweep_loop_queue:
  "sweep_loop now d q = (d', q', ks) \<Longrightarrow>
   set q' \<subseteq> set q \<and> (sorted (map fst q) \<longrightarrow> sorted (map fst q'))"
  by (induction now d q arbitrary: d' q' ks rule: sweep_loop.induct)
    (auto split: if_splits prod.splits)

lemma maybe_sweep_props:
  assumes "tm_recorded (tm_d m) (tm_q m)" and "maybe_sweep now m = (m', ks)"
  shows "tm_recorded (tm_d m') (tm_q m')" "length (tm_d m') \<le> length (tm_d m)"
    "tm_max m' = tm_max m" "ttl_ns m' = ttl_ns m"
    "sorted (map fst (tm_q m)) \<Longrightarrow> sorted (map fst (tm_q m')) \<and> set (tm_q m') \<subseteq> set (tm_q m)"
proof -
  obtain d q ks1 where l: "sweep_loop now (tm_d m) (tm_q m) = (d, q, ks1)" by (metis prod_cases3)
  have "(tm_d m' = d \<and> tm_q m' = q \<or> tm_d m' = tm_d m \<and> tm_q m' = tm_q m) \<and>
      tm_max m' = tm_max m \<and> ttl_ns m' = ttl_ns m"
    using assms(2) l by (auto simp: maybe_sweep_def tm_sweep_def Let_def split: if_splits)
  with sweep_loop_recorded [OF assms(1) l] sweep_loop_queue [OF l] assms(1)
  show "tm_recorded (tm_d m') (tm_q m')" "length (tm_d m') \<le> length (tm_d m)"
    "tm_max m' = tm_max m" "ttl_ns m' = ttl_ns m"
    "sorted (map fst (tm_q m)) \<Longrightarrow> sorted (map fst (tm_q m')) \<and> set (tm_q m') \<subseteq> set (tm_q m)"
    by auto
qed

lemma evict_loop_queue:
  "evict_loop now True target d q = (d', q', ks) \<Longrightarrow>
   set q' \<subseteq> set q \<and> (sorted (map fst q) \<longrightarrow> sorted (map fst q')) \<and> set d' \<subseteq> set d"
proof (induction q arbitrary: d d' q' ks)
  case (Cons r q)
  obtain e k where "r = (e, k)" by force
  with Cons.prems show ?case
    by (auto simp: set_delete split: if_splits option.splits prod.splits dest!: Cons.IH)
qed simp

lemma tm_touch_props:
  assumes "tm_wf m" and "tm_touch k now m = (m', ks)"
  shows "tm_wf m'" "tm_max m' = tm_max m" "ttl_ns m' = ttl_ns m"
    "sorted (map fst (tm_q m)) \<Longrightarrow> \<forall>(e, _) \<in> set (tm_q m). e \<le> now + ttl_ns m \<Longrightarrow>
     sorted (map fst (tm_q m')) \<and> (\<forall>(e, _) \<in> set (tm_q m'). e \<le> now + ttl_ns m)"
proof -
  let ?m0 = "m\<lparr>tm_d := AList.update k (now + ttl_ns m) (tm_d m),
    tm_q := tm_q m @ [(now + ttl_ns m, k)]\<rparr>"
  have rec: "tm_recorded (tm_d ?m0) (tm_q ?m0)"
    using assms(1) recorded_update by (auto simp: tm_wf_def)
  obtain m1 ks1 where m1: "maybe_sweep now ?m0 = (m1, ks1)" by force
  note p = maybe_sweep_props [OF rec m1]
  obtain d2 q2 ks2 where l: "evict_loop now True (tm_max m) (tm_d m1) (tm_q m1) = (d2, q2, ks2)"
    by (metis prod_cases3)
  have "0 \<le> tm_max m" using assms(1) by (simp add: tm_wf_def)
  note e = evict_loop_recorded [OF p(1) l this] evict_loop_queue [OF l]
  show "tm_max m' = tm_max m" "ttl_ns m' = ttl_ns m"
    using assms(2) m1 p(3,4) l
    by (auto simp: tm_touch_def Let_def tm_evict_oldest_def split: if_splits)
  show "tm_wf m'"
    using assms m1 p(1,3) l e
    by (auto simp: tm_wf_def tm_touch_def Let_def tm_evict_oldest_def split: if_splits)
  assume "sorted (map fst (tm_q m))" "\<forall>(e, _) \<in> set (tm_q m). e \<le> now + ttl_ns m"
  moreover from this have "sorted (map fst (tm_q ?m0))" by (fastforce simp: sorted_append)
  ultimately have "sorted (map fst (tm_q m1))" "\<forall>(e, _) \<in> set (tm_q m1). e \<le> now + ttl_ns m"
    using p(5) by auto
  then show "sorted (map fst (tm_q m')) \<and> (\<forall>(e, _) \<in> set (tm_q m'). e \<le> now + ttl_ns m)"
    using assms(2) m1 p(3) l e(2)
    by (auto simp: tm_touch_def Let_def tm_evict_oldest_def split: if_splits)
qed

inductive source_reach :: "int \<Rightarrow> source_state \<Rightarrow> bool" where
  init: "0 \<le> mx \<Longrightarrow> source_reach t (source_init ttl mx sweep_every ops t)"
| touch: "source_reach t s \<Longrightarrow> t \<le> now \<Longrightarrow> source_reach now (touch_s v now s)"
| reset: "source_reach t s \<Longrightarrow> t \<le> now \<Longrightarrow> source_reach now (snd (source_reset now s))"

lemma s_cache_touch_s:
  "s_cache (touch_s v now s) =
     (if v = None \<or> v = Some [] then s_cache s else fst (tm_touch (the v) now (s_cache s)))"
  by (auto simp: touch_s_def Let_def split: option.splits prod.splits)

lemma source_reach_inv:
  "source_reach t s \<Longrightarrow> tm_wf (s_cache s) \<and> sorted (map fst (tm_q (s_cache s))) \<and>
     (\<forall>(e, _) \<in> set (tm_q (s_cache s)). e \<le> t + ttl_ns (s_cache s))"
proof (induction rule: source_reach.induct)
  case (touch t s now v)
  obtain m' ks where m': "tm_touch (the v) now (s_cache s) = (m', ks)" by force
  have "\<forall>(e, _) \<in> set (tm_q (s_cache s)). e \<le> now + ttl_ns (s_cache s)"
    using touch by fastforce
  with touch tm_touch_props [OF _ m'] m' show ?case by (auto simp: s_cache_touch_s)
qed (auto simp: source_init_def tm_init_def tm_wf_def tm_recorded_def source_reset_def tm_clear_def)

text \<open>
  However many distinct sources are seen, the map of source activity never holds more
  live sources than its configured maximum (a limit of 0 included): hard eviction always
  finds a queue record to work on.
\<close>

theorem source_cache_bounded:
  assumes "source_reach t s"
  shows "int (tm_len (s_cache s)) \<le> tm_max (s_cache s)"
  using source_reach_inv [OF assms] by (simp add: tm_len_def tm_wf_def)

text \<open>A map of at most two sources that live ten ticks, swept on every operation.\<close>

definition example_sources :: source_state where
  "example_sources = source_init 10 2 0 1 0"

lemmas source_run = touch_s_def tm_touch_def maybe_sweep_def tm_sweep_def tm_evict_oldest_def
  source_init_def tm_init_def on_s_evict_def Let_def example_sources_def

lemma example_sources_reach: "source_reach 0 example_sources"
  unfolding example_sources_def by (rule source_reach.init) simp

lemma source_cache_bounded_witness:
  "tm_len (s_cache (touch_s (Some [3]) 3 (touch_s (Some [2]) 2 (touch_s (Some [1]) 1 example_sources)))) \<le> 2"
  using source_cache_bounded [OF source_reach.touch [OF source_reach.touch [OF source_reach.touch
    [OF example_sources_reach, of 1 "Some [1]"], of 2 "Some [2]"], of 3 "Some [3]"]]
  by (simp add: source_run tm_len_def)

text \<open>
  When a touch is due for a sweep (enough operations or enough time since the last one),
  no source whose time to live has passed is live afterwards.
\<close>

theorem touch_sweeps_expired:
  assumes "source_reach t s" and "t \<le> now" and "v \<noteq> []"
    and "ops_per_sweep (s_cache s) \<le> tm_ops (s_cache s) + 1 \<or>
         sweep_every_ns (s_cache s) \<le> now - last_sweep_ns (s_cache s)"
    and "map_of (tm_d (s_cache (touch_s (Some v) now s))) k = Some e"
  shows "now < e"
proof -
  let ?m = "s_cache s"
  let ?d = "AList.update v (now + ttl_ns ?m) (tm_d ?m)" and ?q = "tm_q ?m @ [(now + ttl_ns ?m, v)]"
  obtain d1 q1 ks1 where l: "sweep_loop now ?d ?q = (d1, q1, ks1)" by (metis prod_cases3)
  obtain d2 q2 ks2 where l2: "evict_loop now True (tm_max ?m) d1 q1 = (d2, q2, ks2)"
    by (metis prod_cases3)
  note inv = source_reach_inv [OF assms(1)]
  have rec: "tm_recorded ?d ?q" using inv recorded_update by (auto simp: tm_wf_def)
  have sorted: "sorted (map fst ?q)" using inv assms(2) by (fastforce simp: sorted_append)
  have d: "distinct (keys d1)" using sweep_loop_recorded [OF rec l] by (simp add: tm_recorded_def)
  have "set (tm_d (s_cache (touch_s (Some v) now s))) \<subseteq> set d1"
    using evict_loop_queue [OF l2] assms(3,4) l l2
    by (auto simp: s_cache_touch_s tm_touch_def maybe_sweep_def tm_sweep_def tm_evict_oldest_def Let_def)
  then have "map_of d1 k = Some e" using assms(5) d by (auto dest: map_of_SomeD)
  with sweep_loop_exact [OF rec sorted l, of k] show ?thesis
    by (auto split: option.splits if_splits)
qed

lemma touch_sweeps_expired_witness:
  "map_of (tm_d (s_cache (touch_s (Some [2]) 11 (touch_s (Some [1]) 1 example_sources)))) [2] = Some 21 \<and>
   (11::int) < 21"
proof
  show m: "map_of (tm_d (s_cache (touch_s (Some [2]) 11 (touch_s (Some [1]) 1 example_sources)))) [2] = Some 21"
    by (simp add: source_run)
  show "(11::int) < 21"
    using touch_sweeps_expired [OF source_reach.touch [OF example_sources_reach, of 1 "Some [1]"] _ _ _ m]
    by (simp add: source_run)
qed

text \<open>
  Hard eviction pops the oldest queue record, not the oldest live key: with a limit of
  one, touching a source, touching it again, touching another and then the first one again
  evicts the source just touched, whose per-source state is then recreated with no live
  entry behind it, so no later eviction removes it.
\<close>

theorem touched_source_evicted:
  "let s = touch_s (Some [1]) 4 (touch_s (Some [2]) 3 (touch_s (Some [1]) 2
         (touch_s (Some [1]) 1 (source_init 100 1 1000 1000 0))))
   in keys (tm_d (s_cache s)) = [[2]] \<and> map_of (per_s_state s) [1] = Some (PDict [])"
  by (simp add: source_run)

end
