(* ===== verification/IngressFrame.thy ===== *)
theory IngressFrame
  imports PyText
begin

section \<open>Ingress frames (\<open>core/ingress_frame.py\<close>, \<open>core/event.py\<close>)\<close>

text \<open>
  The immutable unit of ingress: a payload of bytes with the identity of its source and the
  text mode it is read in. Legacy events carry a text line, which becomes a frame by encoding
  with surrogates preserved; UDP datagrams are normalised ignoring invalid octets. An item of
  the ingress queue is a frame, a legacy event or anything else.
\<close>

datatype text_mode = UTF8_IGNORE | UTF8_SURROGATEPASS | UnsupportedMode

record frame =
  fr_kind :: pystr
  fr_source_id :: pystr
  alias_for_s :: "pystr option"
  remote_ip :: "pystr option"
  assembler_key :: pystr
  payload :: bytes
  text_mode :: text_mode

record event =
  ev_kind :: pystr
  ev_source_id :: pystr
  ev_alias_for_s :: "pystr option"
  ev_remote_ip :: "pystr option"
  ev_assembler_key :: pystr
  raw_line :: pyval

datatype ingress_item = FrameItem frame | EventItem event | OtherItem

definition frame_from_text_payload ::
  "pystr \<Rightarrow> pystr \<Rightarrow> pystr option \<Rightarrow> pystr option \<Rightarrow> pystr \<Rightarrow> pyval \<Rightarrow> frame option" where
  "frame_from_text_payload kind source_id alias ip key value =
     (case value of
        PStr s \<Rightarrow> Some \<lparr>fr_kind = kind, fr_source_id = source_id, alias_for_s = alias, remote_ip = ip,
          assembler_key = key, payload = encode_surrogatepass s, text_mode = UTF8_SURROGATEPASS\<rparr>
      | _ \<Rightarrow> None)"

definition frame_from_udp_datagram ::
  "bytes \<Rightarrow> pystr \<Rightarrow> pystr \<Rightarrow> pystr option \<Rightarrow> pystr option \<Rightarrow> pystr \<Rightarrow> frame res" where
  "frame_from_udp_datagram data kind source_id alias ip key =
     rbind (utf8_decode Ignore data) (\<lambda>s.
     rbind (encode_strict (strip s)) (\<lambda>bs.
       Inr \<lparr>fr_kind = kind, fr_source_id = source_id, alias_for_s = alias, remote_ip = ip,
            assembler_key = key, payload = bs, text_mode = UTF8_IGNORE\<rparr>))"

definition frame_from_ingress_event :: "event \<Rightarrow> frame option" where
  "frame_from_ingress_event e =
     frame_from_text_payload (ev_kind e) (ev_source_id e) (ev_alias_for_s e) (ev_remote_ip e)
       (ev_assembler_key e) (raw_line e)"

fun coerce_ingress_frame :: "ingress_item \<Rightarrow> frame option" where
  "coerce_ingress_frame (FrameItem f) = Some f"
| "coerce_ingress_frame (EventItem e) = frame_from_ingress_event e"
| "coerce_ingress_frame OtherItem = None"

definition decode_frame_slice :: "frame \<Rightarrow> int \<Rightarrow> int \<Rightarrow> pystr res" where
  "decode_frame_slice f start stop =
     (if start < 0 then Inl ValueError
      else if stop < start then Inl ValueError
      else if int (length (payload f)) < stop then Inl ValueError
      else case text_mode f of
        UTF8_IGNORE \<Rightarrow> utf8_decode Ignore (slice (payload f) (nat start) (nat stop))
      | UTF8_SURROGATEPASS \<Rightarrow> utf8_decode SurrogatePass (slice (payload f) (nat start) (nat stop))
      | UnsupportedMode \<Rightarrow> Inl ValueError)"

subsection \<open>Frames the constructors make\<close>

definition wf_frame :: "frame \<Rightarrow> bool" where
  "wf_frame f \<longleftrightarrow> (case text_mode f of
      UTF8_IGNORE \<Rightarrow> True
    | UTF8_SURROGATEPASS \<Rightarrow> \<exists>s. wf_text s \<and> payload f = encode_surrogatepass s
    | UnsupportedMode \<Rightarrow> False)"

definition wf_item :: "ingress_item \<Rightarrow> bool" where
  "wf_item i \<longleftrightarrow> (case i of
      FrameItem f \<Rightarrow> wf_frame f
    | EventItem e \<Rightarrow> (case raw_line e of PStr s \<Rightarrow> wf_text s | _ \<Rightarrow> True)
    | OtherItem \<Rightarrow> True)"

lemma coerce_wf: "wf_item i \<Longrightarrow> coerce_ingress_frame i = Some f \<Longrightarrow> wf_frame f"
  by (cases i) (auto simp: wf_item_def wf_frame_def frame_from_ingress_event_def
      frame_from_text_payload_def split: pyval.splits)

lemma decode_slice_ignore:
  "text_mode f = UTF8_IGNORE \<Longrightarrow> i \<le> j \<Longrightarrow> j \<le> length (payload f) \<Longrightarrow>
   \<exists>s. decode_frame_slice f (int i) (int j) = Inr s"
  using utf8_dec_Ignore by (auto simp: decode_frame_slice_def utf8_decode_def split: option.splits)

text \<open>
  What lies between two ASCII octets of a well-formed frame decodes; with the surrogates
  preserved it decodes to the text that was encoded.
\<close>

lemma wf_text_append [simp]: "wf_text (xs @ ys) \<longleftrightarrow> wf_text xs \<and> wf_text ys"
  by (simp add: wf_text_def)

lemma wf_text_Cons [simp]: "wf_text (x # ys) \<longleftrightarrow> x < 0x110000 \<and> wf_text ys"
  by (simp add: wf_text_def)

lemma wf_text_Nil [simp]: "wf_text []"
  by (simp add: wf_text_def)

lemma encode_surrogatepass_append:
  "encode_surrogatepass (s @ t) = encode_surrogatepass s @ encode_surrogatepass t"
  by (simp add: encode_surrogatepass_def utf8_enc_def)

lemma payload_between:
  assumes "wf_text s" and "payload f = encode_surrogatepass s"
    and "i < j" and "j < length (payload f)"
    and "(of_char (payload f ! i) :: nat) < 128" and "(of_char (payload f ! j) :: nat) < 128"
  obtains u w v where "s = u @ of_char (payload f ! i) # w @ of_char (payload f ! j) # v"
    "slice (payload f) (Suc i) j = encode_surrogatepass w"
proof -
  let ?p = "payload f"
  have "map of_char ?p = (map of_char (take i ?p @ ?p ! i # slice ?p (Suc i) j @ ?p ! j #
      drop (Suc j) ?p) :: nat list)"
    using split_at_two [OF assms(3,4)] by simp
  then have "utf8_enc s = map of_char (take i ?p) @ of_char (?p ! i) #
      map of_char (slice ?p (Suc i) j) @ of_char (?p ! j) # map of_char (drop (Suc j) ?p)"
    using assms(1,2) by simp
  from utf8_enc_ascii_between [OF this assms(5,6)] obtain u w v
    where s: "s = u @ of_char (?p ! i) # w @ of_char (?p ! j) # v"
      and m: "map of_char (slice ?p (Suc i) j) = utf8_enc w" by blast
  have "slice ?p (Suc i) j = map char_of (map (of_char :: char \<Rightarrow> nat) (slice ?p (Suc i) j))"
    by (simp add: comp_def)
  with m have "slice ?p (Suc i) j = encode_surrogatepass w" by (simp add: encode_surrogatepass_def)
  with s that show thesis by blast
qed

lemma decode_between:
  assumes "wf_frame f" and "i < j" and "j < length (payload f)"
    and "(of_char (payload f ! i) :: nat) < 128" and "(of_char (payload f ! j) :: nat) < 128"
  shows "\<exists>s. decode_frame_slice f (int (Suc i)) (int j) = Inr s"
proof (cases "text_mode f")
  case UTF8_SURROGATEPASS
  then obtain s where s: "wf_text s" "payload f = encode_surrogatepass s"
    using assms(1) by (auto simp: wf_frame_def)
  obtain u w v where w: "s = u @ of_char (payload f ! i) # w @ of_char (payload f ! j) # v"
    "slice (payload f) (Suc i) j = encode_surrogatepass w"
    by (rule payload_between [OF s assms(2-5)])
  have "wf_text w" using s(1) unfolding w(1) by simp
  with w(2) UTF8_SURROGATEPASS assms(2,3) decode_encode_surrogatepass [of w] show ?thesis
    by (simp add: decode_frame_slice_def nat_add_distrib)
qed (use assms decode_slice_ignore [of f "Suc i" j] in \<open>auto simp: wf_frame_def\<close>)

lemma encode_ascii: "(of_char c :: nat) < 128 \<Longrightarrow> [c] = encode_surrogatepass [of_char c]"
  by (simp add: encode_surrogatepass_def utf8_enc_def utf8_enc1.simps)

lemma decode_within:
  assumes "wf_frame f" and "i < j" and "j < length (payload f)"
    and "(of_char (payload f ! i) :: nat) < 128" and "(of_char (payload f ! j) :: nat) < 128"
  shows "\<exists>s. decode_frame_slice f (int i) (int (Suc j)) = Inr s"
proof (cases "text_mode f")
  case UTF8_SURROGATEPASS
  then obtain s where s: "wf_text s" "payload f = encode_surrogatepass s"
    using assms(1) by (auto simp: wf_frame_def)
  obtain u w v where w: "s = u @ of_char (payload f ! i) # w @ of_char (payload f ! j) # v"
    "slice (payload f) (Suc i) j = encode_surrogatepass w"
    by (rule payload_between [OF s assms(2-5)])
  have wf: "wf_text w" using s(1) unfolding w(1) by simp
  let ?t = "of_char (payload f ! i) # w @ [of_char (payload f ! j)]"
  have "slice (payload f) i (Suc j) = [payload f ! i] @ encode_surrogatepass w @ [payload f ! j]"
    using slice_ends [OF assms(2,3)] w(2) by simp
  also have "\<dots> = encode_surrogatepass ([of_char (payload f ! i)] @ w @ [of_char (payload f ! j)])"
    using assms(4,5) by (simp only: encode_surrogatepass_append encode_ascii [symmetric])
  finally have "utf8_decode SurrogatePass (slice (payload f) i (Suc j)) = Inr ?t"
    using decode_encode_surrogatepass [of ?t] wf assms(4,5) by simp
  with UTF8_SURROGATEPASS assms(2,3) show ?thesis
    by (simp add: decode_frame_slice_def nat_add_distrib)
qed (use assms decode_slice_ignore [of f i "Suc j"] in \<open>auto simp: wf_frame_def\<close>)

text \<open>Frames that hold no lone surrogate: every datagram, and text events without one.\<close>

definition clean_frame :: "frame \<Rightarrow> bool" where
  "clean_frame f \<longleftrightarrow> (case text_mode f of
      UTF8_IGNORE \<Rightarrow> True
    | UTF8_SURROGATEPASS \<Rightarrow> \<exists>s. wf_text s \<and> clean s \<and> payload f = encode_surrogatepass s
    | UnsupportedMode \<Rightarrow> False)"

lemma clean_frame_wf: "clean_frame f \<Longrightarrow> wf_frame f"
  by (auto simp: clean_frame_def wf_frame_def split: text_mode.splits)

lemma decode_ignore_clean: "text_mode f = UTF8_IGNORE \<Longrightarrow> decode_frame_slice f i j = Inr s \<Longrightarrow> clean s"
  using utf8_dec_ordinary [of Ignore]
  by (auto simp: decode_frame_slice_def utf8_decode_def clean_def list_all_iff list_ex_iff
      split: if_splits option.splits)

lemma decode_within_clean:
  assumes "clean_frame f" and "i < j" and "j < length (payload f)"
    and "(of_char (payload f ! i) :: nat) < 128" and "(of_char (payload f ! j) :: nat) < 128"
    and dec: "decode_frame_slice f (int i) (int (Suc j)) = Inr t"
  shows "clean t"
proof (cases "text_mode f")
  case UTF8_SURROGATEPASS
  then obtain s where s: "wf_text s" "clean s" "payload f = encode_surrogatepass s"
    using assms(1) by (auto simp: clean_frame_def)
  obtain u w v where w: "s = u @ of_char (payload f ! i) # w @ of_char (payload f ! j) # v"
    "slice (payload f) (Suc i) j = encode_surrogatepass w"
    by (rule payload_between [OF s(1,3) assms(2-5)])
  have wf: "wf_text w" "clean w" using s(1,2) unfolding w(1) by simp_all
  let ?t = "of_char (payload f ! i) # w @ [of_char (payload f ! j)]"
  have "slice (payload f) i (Suc j) = [payload f ! i] @ encode_surrogatepass w @ [payload f ! j]"
    using slice_ends [OF assms(2,3)] w(2) by simp
  also have "\<dots> = encode_surrogatepass ([of_char (payload f ! i)] @ w @ [of_char (payload f ! j)])"
    using assms(4,5) by (simp only: encode_surrogatepass_append encode_ascii [symmetric])
  finally have "utf8_decode SurrogatePass (slice (payload f) i (Suc j)) = Inr ?t"
    using decode_encode_surrogatepass [of ?t] wf assms(4,5) by simp
  then have "t = ?t"
    using UTF8_SURROGATEPASS assms(2,3) dec by (simp add: decode_frame_slice_def nat_add_distrib)
  then show ?thesis using wf(2) assms(4,5) by (simp add: is_surrogate_def)
qed (use assms decode_ignore_clean in \<open>auto simp: clean_frame_def\<close>)

end
