(* ===== verification/NmeaScanner.thy ===== *)
theory NmeaScanner
  imports PyText
begin

section \<open>Finding AIS sentences (\<open>core/nmea_scanner.py\<close>, \<open>meta_cleaner.py\<close>)\<close>

text \<open>
  The pattern \<open>!(AI|AB|...|BS)VD[MO],[^\r\n]*?\*[0-9A-Fa-f]{2}\<close> as a matcher: a fixed head
  of seven characters and the shortest tail that ends in a checksum. \<open>finditer\<close> is the
  leftmost scan that goes on after each match. The scanner works on the octets of a payload,
  \<open>meta_cleaner\<close> on the code points of a text; both are lists of numbers here.
\<close>

definition talkers :: "(nat \<times> nat) list" where
  "talkers = [(65, 73), (65, 66), (65, 68), (65, 78), (65, 82), (65, 83), (65, 84), (65, 88), (66, 83)]"

definition is_hex :: "nat \<Rightarrow> bool" where
  "is_hex c \<longleftrightarrow> (48 \<le> c \<and> c \<le> 57) \<or> (65 \<le> c \<and> c \<le> 70) \<or> (97 \<le> c \<and> c \<le> 102)"

definition match_head :: "bool \<Rightarrow> nat list \<Rightarrow> bool" where
  "match_head vdo h \<longleftrightarrow>
     (case h of
        [b, t1, t2, v, d, m, comma] \<Rightarrow>
          b = 33 \<and> (t1, t2) \<in> set talkers \<and> v = 86 \<and> d = 68 \<and> (m = 77 \<or> vdo \<and> m = 79) \<and> comma = 44
      | _ \<Rightarrow> False)"

fun lazy_tail :: "nat list \<Rightarrow> nat option" where
  "lazy_tail (c # a # b # r) =
     (if c = 42 \<and> is_hex a \<and> is_hex b then Some 3
      else if c = 13 \<or> c = 10 then None
      else map_option Suc (lazy_tail (a # b # r)))"
| "lazy_tail _ = None"

definition match_here :: "bool \<Rightarrow> nat list \<Rightarrow> nat option" where
  "match_here vdo xs =
     (if match_head vdo (take 7 xs) then map_option (\<lambda>n. n + 7) (lazy_tail (drop 7 xs)) else None)"

function finditer :: "bool \<Rightarrow> nat \<Rightarrow> nat list \<Rightarrow> (nat \<times> nat) list" where
  "finditer vdo pos [] = []"
| "finditer vdo pos (x # xs) =
     (case match_here vdo (x # xs) of
        None \<Rightarrow> finditer vdo (Suc pos) xs
      | Some n \<Rightarrow> (pos, pos + n) # finditer vdo (pos + n) (drop (n - 1) xs))"
  by pat_completeness auto
termination by (relation "measure (\<lambda>(vdo, pos, xs). length xs)") auto

record span =
  sp_start :: nat
  sp_end :: nat

definition byte_span :: "int \<Rightarrow> int \<Rightarrow> span res" where
  "byte_span a b =
     (if a < 0 \<or> b \<le> a then Inl ValueError else Inr \<lparr>sp_start = nat a, sp_end = nat b\<rparr>)"

record scan_match =
  sentence_span :: span
  tag_span :: "span option"

definition find_adjacent_tag :: "bytes \<Rightarrow> nat \<Rightarrow> span option res" where
  "find_adjacent_tag payload start =
     (if start = 0 then Inr None
      else if length payload < start then Inl IndexError
      else if payload ! (start - 1) \<noteq> char_of (92::nat) then Inr None
      else case rfind (char_of (92::nat)) payload 0 (start - 1) of
        None \<Rightarrow> Inr None
      | Some i \<Rightarrow> rbind (byte_span (int i) (int start)) (\<lambda>s. Inr (Some s)))"

definition scan_nmea_sentences :: "bytes \<Rightarrow> bool \<Rightarrow> scan_match list res" where
  "scan_nmea_sentences payload vdo =
     rmap (\<lambda>(a, b).
       rbind (find_adjacent_tag payload a) (\<lambda>t.
       rbind (byte_span (int a) (int b)) (\<lambda>s.
         Inr \<lparr>sentence_span = s, tag_span = t\<rparr>)))
       (finditer vdo 0 (map of_char payload))"

subsection \<open>\<open>meta_cleaner.py\<close>\<close>

record nmea_slice =
  sl_start :: int
  sl_end :: int
  sl_tag_start :: int
  sl_tag_end :: int

definition extract_strings :: "pystr \<Rightarrow> bool \<Rightarrow> pystr list" where
  "extract_strings line vdo = map (\<lambda>(a, b). slice line a b) (finditer vdo 0 line)"

definition extract_slices :: "pystr \<Rightarrow> bool \<Rightarrow> nmea_slice list" where
  "extract_slices line vdo =
     map (\<lambda>(a, b).
       let (ts, te) =
         (if 0 < a \<and> line ! (a - 1) = 92
          then (case rfind 92 line 0 (a - 1) of None \<Rightarrow> (-1, -1) | Some i \<Rightarrow> (int i, int (a - 1)))
          else (-1, -1))
       in \<lparr>sl_start = int a, sl_end = int b, sl_tag_start = ts, sl_tag_end = te\<rparr>)
       (finditer vdo 0 line)"

subsection \<open>What a match is\<close>

text \<open>
  A sentence: the head, a body without line ends in which no checksum occurs, and the
  checksum.
\<close>

definition is_sentence :: "bool \<Rightarrow> nat list \<Rightarrow> bool" where
  "is_sentence vdo xs \<longleftrightarrow> (\<exists>h body a b. xs = h @ body @ [42, a, b] \<and> match_head vdo h \<and>
     is_hex a \<and> is_hex b \<and> 13 \<notin> set body \<and> 10 \<notin> set body)"

lemma lazy_tail_Some:
  "lazy_tail xs = Some n \<Longrightarrow> \<exists>body a b r. xs = body @ 42 # a # b # r \<and> n = length body + 3 \<and>
     is_hex a \<and> is_hex b \<and> 13 \<notin> set body \<and> 10 \<notin> set body"
proof (induction xs arbitrary: n rule: lazy_tail.induct)
  case (1 c a b r)
  show ?case
  proof (cases "c = 42 \<and> is_hex a \<and> is_hex b")
    case True
    with 1 show ?thesis by (intro exI [of _ "[]"]) auto
  next
    case False
    with "1.prems" obtain m where m: "c \<noteq> 13" "c \<noteq> 10" "lazy_tail (a # b # r) = Some m" "n = Suc m"
      by (auto split: if_splits)
    from "1.IH" [OF False _ m(3)] m obtain body a' b' r' where
      "a # b # r = body @ 42 # a' # b' # r'" "m = length body + 3" "is_hex a'" "is_hex b'"
      "13 \<notin> set body" "10 \<notin> set body" by blast
    with m show ?thesis by (intro exI [of _ "c # body"]) auto
  qed
qed auto

lemma lazy_tail_exists:
  "13 \<notin> set body \<Longrightarrow> 10 \<notin> set body \<Longrightarrow> is_hex a \<Longrightarrow> is_hex b \<Longrightarrow>
   \<exists>n. lazy_tail (body @ 42 # a # b # r) = Some n \<and> n \<le> length body + 3"
proof (induction body)
  case (Cons c body)
  obtain d e r' where s: "body @ 42 # a # b # r = d # e # r'"
    by (cases body rule: lazy_tail.cases) auto
  from Cons obtain n where "lazy_tail (d # e # r') = Some n" "n \<le> length body + 3"
    unfolding s by auto
  with Cons.prems s show ?case by auto
qed auto

lemma match_here_Some:
  assumes "match_here vdo xs = Some n"
  shows "is_sentence vdo (take n xs)" "n \<le> length xs" "10 \<le> n"
proof -
  obtain k where k: "match_head vdo (take 7 xs)" "lazy_tail (drop 7 xs) = Some k" "n = k + 7"
    using assms by (auto simp: match_here_def split: if_splits)
  obtain body a b r where s: "drop 7 xs = body @ 42 # a # b # r" "k = length body + 3"
    "is_hex a" "is_hex b" "13 \<notin> set body" "10 \<notin> set body" using lazy_tail_Some [OF k(2)] by blast
  define h where "h = take 7 xs"
  have "7 \<le> length xs" using s(1) by (cases "7 \<le> length xs") auto
  then have h: "length h = 7" "match_head vdo h" using k(1) by (simp_all add: h_def)
  have xs: "xs = (h @ body @ [42, a, b]) @ r"
    using s(1) append_take_drop_id [of 7 xs] by (simp add: h_def)
  have n: "n = length (h @ body @ [42, a, b])" using k(3) s(2) h(1) by simp
  have "take n xs = h @ body @ [42, a, b]" "n \<le> length xs"
    unfolding n by (subst xs, simp) (subst xs, simp)
  then show "is_sentence vdo (take n xs)" "n \<le> length xs"
    using h(2) s unfolding is_sentence_def by blast+
  show "10 \<le> n" using k(3) s(2) by simp
qed

lemma finditer_Some:
  assumes "match_here vdo (x # xs) = Some n"
  shows "finditer vdo pos (x # xs) = (pos, pos + n) # finditer vdo (pos + n) (drop n (x # xs))"
  using assms match_here_Some(3) [OF assms] by (cases n) auto

text \<open>Induction over the scan: skip one octet, or take a match and go on behind it.\<close>

lemma finditer_induct [case_names Nil Skip Match]:
  assumes "\<And>pos. P pos []"
    and "\<And>pos x xs. match_here vdo (x # xs) = None \<Longrightarrow> P (Suc pos) xs \<Longrightarrow> P pos (x # xs)"
    and "\<And>pos x xs n. match_here vdo (x # xs) = Some n \<Longrightarrow> P (pos + n) (drop n (x # xs)) \<Longrightarrow> P pos (x # xs)"
  shows "P pos xs"
proof (induction "length xs" arbitrary: pos xs rule: less_induct)
  case less
  show ?case
  proof (cases xs)
    case (Cons x xs')
    show ?thesis
    proof (cases "match_here vdo xs")
      case None
      with Cons less assms(2) show ?thesis by simp
    next
      case (Some n)
      with match_here_Some(2,3) [OF Some] Cons have "length (drop n xs) < length xs" by simp
      with less Some Cons assms(3) show ?thesis by blast
    qed
  qed (simp add: assms(1))
qed

lemma finditer_bounds:
  "(a, b) \<in> set (finditer vdo pos xs) \<Longrightarrow> pos \<le> a \<and> a + 10 \<le> b \<and> b \<le> pos + length xs"
proof (induction pos xs rule: finditer_induct [where vdo = vdo])
  case (Match pos x xs n)
  then show ?case
    using match_here_Some(2,3) [OF Match(1)] finditer_Some [OF Match(1), of pos] by auto
qed auto

lemma slice_drop: "p \<le> a \<Longrightarrow> a \<le> b \<Longrightarrow> slice (drop n xs) (a - p) (b - p) = slice xs (n + (a - p)) (n + (b - p))"
  by (simp add: slice_def add.commute)

lemma finditer_sound:
  "(a, b) \<in> set (finditer vdo pos xs) \<Longrightarrow> is_sentence vdo (slice xs (a - pos) (b - pos))"
proof (induction pos xs rule: finditer_induct [where vdo = vdo])
  case (Skip pos x xs)
  then have m: "(a, b) \<in> set (finditer vdo (Suc pos) xs)" by simp
  from finditer_bounds [OF m] have "a - pos = Suc (a - Suc pos)" "b - pos = Suc (b - Suc pos)" by auto
  with Skip.IH [OF m] show ?case by (simp add: slice_def)
next
  case (Match pos x xs n)
  show ?case
  proof (cases "(a, b) = (pos, pos + n)")
    case True
    with match_here_Some(1) [OF Match(1)] show ?thesis by (simp add: slice_def)
  next
    case False
    with Match(3) have m: "(a, b) \<in> set (finditer vdo (pos + n) (drop n (x # xs)))"
      unfolding finditer_Some [OF Match(1)] by auto
    have "slice (drop n (x # xs)) (a - (pos + n)) (b - (pos + n)) = slice (x # xs) (a - pos) (b - pos)"
      using finditer_bounds [OF m] by (subst slice_drop) auto
    with Match.IH [OF m] show ?thesis by simp
  qed
qed simp

lemma finditer_ordered: "sorted_wrt (\<lambda>(a, b) (c, d). b \<le> c) (finditer vdo pos xs)"
proof (induction pos xs rule: finditer_induct [where vdo = vdo])
  case (Match pos x xs n)
  have "pos + n \<le> c" if "(c, d) \<in> set (finditer vdo (pos + n) (drop n (x # xs)))" for c d
    using finditer_bounds [OF that] by simp
  with Match show ?case unfolding finditer_Some [OF Match(1)] by (simp only: sorted_wrt.simps) auto
qed auto

lemma finditer_complete:
  "match_here vdo (drop i xs) = Some m \<Longrightarrow>
   \<exists>(a, b) \<in> set (finditer vdo pos xs). a \<le> pos + i \<and> pos + i < b"
proof (induction pos xs arbitrary: i rule: finditer_induct [where vdo = vdo])
  case (Nil pos)
  then show ?case using match_here_Some(2,3) by fastforce
next
  case (Skip pos x xs)
  show ?case
  proof (cases i)
    case (Suc j)
    with Skip.IH [of j] Skip(1,3) show ?thesis by auto
  qed (use Skip in simp)
next
  case (Match pos x xs n)
  show ?case
  proof (cases "i < n")
    case True
    then show ?thesis unfolding finditer_Some [OF Match(1)] by auto
  next
    case False
    then obtain j where j: "i = n + j" using le_Suc_ex not_less by blast
    with Match(3) have "match_here vdo (drop j (drop n (x # xs))) = Some m" by (simp add: add.commute)
    from Match.IH [OF this] obtain c d where cd: "(c, d) \<in> set (finditer vdo (pos + n) (drop n (x # xs)))"
      "c \<le> pos + n + j" "pos + n + j < d" by blast
    then show ?thesis
      unfolding finditer_Some [OF Match(1)] j by (intro bexI [of _ "(c, d)"]) auto
  qed
qed

text \<open>An occurrence of a sentence is a match, of it or of a shorter prefix.\<close>

lemma match_here_sentence:
  assumes "is_sentence vdo s"
  shows "\<exists>n. match_here vdo (s @ r) = Some n \<and> n \<le> length s"
proof -
  obtain h body a b where s: "s = h @ body @ [42, a, b]" and h: "match_head vdo h"
    and t: "is_hex a" "is_hex b" "13 \<notin> set body" "10 \<notin> set body"
    using assms by (auto simp: is_sentence_def)
  have "length h = 7" using h by (auto simp: match_head_def split: list.splits)
  with s have "take 7 (s @ r) = h" "drop 7 (s @ r) = body @ 42 # a # b # r" by simp_all
  with h s \<open>length h = 7\<close> lazy_tail_exists [OF t(3,4,1,2), of r] show ?thesis
    by (auto simp: match_here_def)
qed

subsection \<open>The scanner never raises\<close>

definition span_of :: "nat \<times> nat \<Rightarrow> span" where
  "span_of p = \<lparr>sp_start = fst p, sp_end = snd p\<rparr>"

definition tag_of :: "bytes \<Rightarrow> nat \<Rightarrow> span option" where
  "tag_of payload a = (case find_adjacent_tag payload a of Inr t \<Rightarrow> t | Inl _ \<Rightarrow> None)"

lemma byte_span_nat [simp]: "a < b \<Longrightarrow> byte_span (int a) (int b) = Inr (span_of (a, b))"
  by (simp add: byte_span_def span_of_def)

lemma find_adjacent_tag_total:
  "a \<le> length payload \<Longrightarrow> find_adjacent_tag payload a = Inr (tag_of payload a)"
proof -
  have "byte_span (int i) (int a) = Inr (span_of (i, a))"
    if "rfind (char_of (92::nat)) payload 0 (a - 1) = Some i" for i
    using rfind_Some(2) [OF that] by simp
  then show "a \<le> length payload \<Longrightarrow> find_adjacent_tag payload a = Inr (tag_of payload a)"
    by (auto simp: tag_of_def find_adjacent_tag_def split: option.splits)
qed

lemma scan_total:
  "scan_nmea_sentences payload vdo =
     Inr (map (\<lambda>(a, b). \<lparr>sentence_span = span_of (a, b), tag_span = tag_of payload a\<rparr>)
       (finditer vdo 0 (map of_char payload)))"
  unfolding scan_nmea_sentences_def
  by (intro rmap_total) (auto simp: find_adjacent_tag_total dest!: finditer_bounds)

lemma tag_of_Some:
  assumes "tag_of payload a = Some t" and "a \<le> length payload"
  shows "sp_end t = a" "sp_start t + 1 < a" "payload ! sp_start t = char_of (92::nat)"
    "payload ! (a - 1) = char_of (92::nat)"
    "\<And>j. sp_start t < j \<Longrightarrow> j < a - 1 \<Longrightarrow> payload ! j \<noteq> char_of (92::nat)"
proof -
  have f: "find_adjacent_tag payload a = Inr (Some t)"
    using find_adjacent_tag_total [OF assms(2)] assms(1) by simp
  then obtain i where i: "rfind (char_of (92::nat)) payload 0 (a - 1) = Some i"
    and a: "0 < a" "payload ! (a - 1) = char_of (92::nat)" and s: "byte_span (int i) (int a) = Inr t"
    by (auto simp: find_adjacent_tag_def rbind_Inr_iff split: if_splits option.splits)
  note r = rfind_Some [OF i]
  have t: "t = span_of (i, a)" using s r(2) by simp
  show "sp_end t = a" "sp_start t + 1 < a" "payload ! sp_start t = char_of (92::nat)"
    "payload ! (a - 1) = char_of (92::nat)"
    "\<And>j. sp_start t < j \<Longrightarrow> j < a - 1 \<Longrightarrow> payload ! j \<noteq> char_of (92::nat)"
    using r a t assms(2) by (auto simp: span_of_def)
qed

subsection \<open>Properties\<close>


text \<open>
  The TAG block of a match is the text between the backslash just before the sentence
  and the nearest backslash before that one; it never reaches into another block.
\<close>

theorem tag_span_exact:
  assumes "scan_nmea_sentences payload vdo = Inr ms" and "m \<in> set ms" and "tag_span m = Some t"
  shows "sp_end t = sp_start (sentence_span m) \<and> sp_start t + 1 < sp_end t \<and>
    payload ! sp_start t = char_of (92::nat) \<and> payload ! (sp_end t - 1) = char_of (92::nat) \<and>
    char_of (92::nat) \<notin> set (slice payload (Suc (sp_start t)) (sp_end t - 1))"
proof -
  obtain a b where m: "m = \<lparr>sentence_span = span_of (a, b), tag_span = tag_of payload a\<rparr>"
    and ab: "(a, b) \<in> set (finditer vdo 0 (map of_char payload))"
    using assms(1,2) by (auto simp: scan_total)
  have a: "a \<le> length payload" using finditer_bounds [OF ab] by simp
  have t: "tag_of payload a = Some t" using assms(3) m by simp
  note * = tag_of_Some [OF t a]
  have "char_of (92::nat) \<notin> set (slice payload (Suc (sp_start t)) (a - 1))"
  proof
    assume "char_of (92::nat) \<in> set (slice payload (Suc (sp_start t)) (a - 1))"
    then obtain k where "k < a - 1 - Suc (sp_start t)"
      "slice payload (Suc (sp_start t)) (a - 1) ! k = char_of (92::nat)"
      using a by (auto simp: in_set_conv_nth length_slice)
    with *(5) [of "Suc (sp_start t) + k"] a show False by (simp add: nth_slice)
  qed
  with * m show ?thesis by (simp add: span_of_def)
qed

text \<open>A payload with one TAG block and one sentence, for the witnesses.\<close>

definition example_payload :: bytes where
  "example_payload = map char_of (lit [CHR 0x5C] @ lit ''s:a*00'' @ lit [CHR 0x5C] @ lit ''!AIVDM,1,1,,A,x,0*5A'')"

lemma tag_span_exact_witness:
  "example_payload ! 0 = char_of (92::nat) \<and> example_payload ! 7 = char_of (92::nat)"
proof -
  have "tag_of example_payload 8 = Some (span_of (0, 8))"
    by (simp add: tag_of_def find_adjacent_tag_def example_payload_def lit_def rfind_def upt_conv_Cons
        byte_span_def span_of_def)
  moreover have "finditer False 0 (map of_char example_payload) = [(8, 28)]"
    by (simp add: example_payload_def lit_def match_here_def match_head_def talkers_def is_hex_def)
  ultimately have "scan_nmea_sentences example_payload False =
      Inr [\<lparr>sentence_span = span_of (8, 28), tag_span = Some (span_of (0, 8))\<rparr>]"
    by (simp add: scan_total)
  from tag_span_exact [OF this, of _ "span_of (0, 8)"] show ?thesis by (simp add: span_of_def)
qed


end
