(* ===== verification/ParsedSentence.thy ===== *)
theory ParsedSentence
  imports IngressFrame NmeaScanner
begin

section \<open>Parsing scanned sentences (\<open>core/parsed_sentence.py\<close>)\<close>

text \<open>
  The fragment fields of a sentence and the metadata of its TAG block, decoded from the spans
  of the scanner. An optional value the source tests for truth is tested against \<open>None\<close> and
  the empty text.
\<close>

record fragment =
  declared_total :: int
  ordinal :: int
  sequential_id :: pystr
  channel :: pystr

record group_tag =
  gt_part :: int
  gt_total :: int
  gt_group_id :: pystr
  preservable_group_id :: "pystr option"

record tag_metadata =
  s_value :: "pystr option"
  c_text :: "pystr option"
  c_value :: "int option"
  g_value :: "group_tag option"

record parsed =
  ps_frame :: frame
  ps_match :: scan_match
  ps_fragment :: "fragment option"
  ps_tag :: tag_metadata

definition byte_at :: "bytes \<Rightarrow> nat \<Rightarrow> char res" where
  "byte_at bs i = (if i < length bs then Inr (bs ! i) else Inl IndexError)"

definition validate_match :: "frame \<Rightarrow> scan_match \<Rightarrow> unit res" where
  "validate_match f m =
     (let p = payload f; s = sentence_span m
      in if length p < sp_end s then Inl ValueError
         else rbind (byte_at p (sp_start s)) (\<lambda>b.
           if b \<noteq> char_of (33::nat) then Inl ValueError
           else case tag_span m of
             None \<Rightarrow> Inr ()
           | Some t \<Rightarrow>
               if length p < sp_end t then Inl ValueError
               else if sp_end t \<noteq> sp_start s then Inl ValueError
               else rbind (byte_at p (sp_start t)) (\<lambda>b1.
                 if b1 \<noteq> char_of (92::nat) then Inl ValueError
                 else rbind (byte_at p (sp_end t - 1)) (\<lambda>b2.
                   if b2 \<noteq> char_of (92::nat) then Inl ValueError else Inr ()))))"

definition parse_fragment :: "pystr \<Rightarrow> fragment option" where
  "parse_fragment text =
     (let fields = split_on 44 text
      in if length fields < 7 then None
         else case py_int (fields ! 1) of
           None \<Rightarrow> None
         | Some tot \<Rightarrow>
             (case py_int (fields ! 2) of
                None \<Rightarrow> None
              | Some k \<Rightarrow>
                  if tot < 1 \<or> k < 1 \<or> tot < k then None
                  else Some \<lparr>declared_total = tot, ordinal = k,
                             sequential_id = fields ! 3, channel = fields ! 4\<rparr>))"

definition parse_c_value :: "pystr option \<Rightarrow> int option" where
  "parse_c_value v =
     (case v of None \<Rightarrow> None | Some s \<Rightarrow> if s = [] \<or> \<not> isdigit s then None else py_int s)"

definition parse_g_value :: "pystr option \<Rightarrow> group_tag option" where
  "parse_g_value v =
     (case v of
        None \<Rightarrow> None
      | Some s \<Rightarrow>
          (case split_max 2 45 s of
             [a, b, gid] \<Rightarrow>
               (case (py_int a, py_int b) of
                  (Some part, Some tot) \<Rightarrow>
                    Some \<lparr>gt_part = part, gt_total = tot, gt_group_id = gid,
                          preservable_group_id = (if gid \<noteq> [] \<and> isdigit gid then Some gid else None)\<rparr>
                | _ \<Rightarrow> None)
           | _ \<Rightarrow> None))"

text \<open>The loop over the pairs of a TAG block: the last \<open>s\<close>, \<open>c\<close> and \<open>g\<close> win.\<close>

fun tag_pairs ::
  "pystr list \<Rightarrow> pystr option \<times> pystr option \<times> pystr option
     \<Rightarrow> pystr option \<times> pystr option \<times> pystr option" where
  "tag_pairs [] acc = acc"
| "tag_pairs (pair # pairs) (s, c, g) =
     (if pair = [] then tag_pairs pairs (s, c, g)
      else case partition_at 58 pair of
        None \<Rightarrow> tag_pairs pairs (s, c, g)
      | Some (key, v) \<Rightarrow>
          if key = lit ''s'' then tag_pairs pairs (Some v, c, g)
          else if key = lit ''c'' then tag_pairs pairs (s, Some v, g)
          else if key = lit ''g'' then tag_pairs pairs (s, c, Some v)
          else tag_pairs pairs (s, c, g))"

text \<open>\<open>tag_text[1:-1].split("*", 1)[0].split(",")\<close> and what the loop makes of it\<close>

definition parse_tag_text :: "pystr \<Rightarrow> tag_metadata" where
  "parse_tag_text tag =
     (let body = before_sep 42 (butlast (tl tag))
      in case tag_pairs (split_on 44 body) (None, None, None) of
           (s, c, g) \<Rightarrow> \<lparr>s_value = s, c_text = c, c_value = parse_c_value c, g_value = parse_g_value g\<rparr>)"

definition no_tag :: tag_metadata where
  "no_tag = \<lparr>s_value = None, c_text = None, c_value = None, g_value = None\<rparr>"

definition parse_tag_metadata :: "frame \<Rightarrow> scan_match \<Rightarrow> tag_metadata res" where
  "parse_tag_metadata f m =
     (case tag_span m of
        None \<Rightarrow> Inr no_tag
      | Some t \<Rightarrow>
          rbind (decode_frame_slice f (int (sp_start t)) (int (sp_end t))) (\<lambda>text.
            Inr (parse_tag_text text)))"

definition parse_scanned_sentence :: "frame \<Rightarrow> scan_match \<Rightarrow> parsed res" where
  "parse_scanned_sentence f m =
     rbind (validate_match f m) (\<lambda>_.
     rbind (decode_frame_slice f (int (sp_start (sentence_span m))) (int (sp_end (sentence_span m))))
       (\<lambda>text.
     rbind (parse_tag_metadata f m) (\<lambda>tag.
       Inr \<lparr>ps_frame = f, ps_match = m, ps_fragment = parse_fragment text, ps_tag = tag\<rparr>)))"

definition parse_frame_sentences :: "frame \<Rightarrow> bool \<Rightarrow> parsed list res" where
  "parse_frame_sentences f vdo =
     rbind (scan_nmea_sentences (payload f) vdo) (rmap (parse_scanned_sentence f))"

fun leading_s :: "pystr list \<Rightarrow> pystr option" where
  "leading_s [] = None"
| "leading_s (pair # pairs) =
     (case partition_at 58 pair of
        Some (key, v) \<Rightarrow> if key = lit ''s'' then Some v else leading_s pairs
      | None \<Rightarrow> leading_s pairs)"

definition parse_leading_s_value :: "frame \<Rightarrow> pystr option res" where
  "parse_leading_s_value f =
     (case payload f of
        [] \<Rightarrow> Inr None
      | b # _ \<Rightarrow>
          if b \<noteq> char_of (92::nat) then Inr None
          else case find_from (char_of (92::nat)) (payload f) 1 of
            None \<Rightarrow> Inr None
          | Some e \<Rightarrow>
              rbind (decode_frame_slice f 1 (int e)) (\<lambda>text.
                Inr (leading_s (split_on 44 (before_sep 42 text)))))"

subsection \<open>Parsing never raises\<close>

lemma sentence_ends:
  assumes "is_sentence vdo xs"
  shows "xs ! 0 = 33" "xs ! (length xs - 1) < 128"
proof -
  obtain h body a b where x: "xs = h @ body @ [42, a, b]" "match_head vdo h" "is_hex b"
    using assms by (auto simp: is_sentence_def)
  then show "xs ! 0 = 33" "xs ! (length xs - 1) < 128"
    by (auto simp: match_head_def is_hex_def nth_append split: list.splits)
qed

lemma parse_scanned_total:
  assumes f: "wf_frame f" and ab: "(a, b) \<in> set (finditer vdo 0 (map of_char (payload f)))"
  shows "\<exists>p. parse_scanned_sentence f \<lparr>sentence_span = span_of (a, b), tag_span = tag_of (payload f) a\<rparr> = Inr p \<and>
    ps_frame p = f \<and> ps_match p = \<lparr>sentence_span = span_of (a, b), tag_span = tag_of (payload f) a\<rparr>"
proof -
  let ?p = "payload f" and ?m = "\<lparr>sentence_span = span_of (a, b), tag_span = tag_of (payload f) a\<rparr>"
  have bd: "a + 10 \<le> b" "b \<le> length ?p" using finditer_bounds [OF ab] by auto
  have sent: "is_sentence vdo (map of_char (slice ?p a b))"
    using finditer_sound [OF ab] by (simp add: map_slice)
  have len: "length (slice ?p a b) = b - a" using bd by (simp add: length_slice)
  have start: "(of_char (?p ! a) :: nat) = 33" "(of_char (?p ! (b - 1)) :: nat) < 128"
    using sentence_ends [OF sent] bd len by (auto simp: nth_slice)
  have bang: "?p ! a = char_of (33::nat)" using start(1) by (metis char_of_char)
  have dec: "\<exists>s. decode_frame_slice f (int a) (int b) = Inr s"
    using decode_within [OF f, of a "b - 1"] bd start by simp
  have val: "validate_match f ?m = Inr ()"
    using bd bang tag_of_Some [of ?p a]
    by (auto simp: validate_match_def Let_def span_of_def byte_at_def split: option.splits)
  have "\<exists>t. parse_tag_metadata f ?m = Inr t"
  proof (cases "tag_of ?p a")
    case (Some t)
    note t = tag_of_Some [OF Some]
    have "\<exists>s. decode_frame_slice f (int (sp_start t)) (int (Suc (a - 1))) = Inr s"
      using t bd by (intro decode_within [OF f]) auto
    with t bd Some show ?thesis by (auto simp: parse_tag_metadata_def)
  qed (simp add: parse_tag_metadata_def)
  with dec val show ?thesis by (auto simp: parse_scanned_sentence_def span_of_def)
qed

lemma parse_frame_total:
  assumes "wf_frame f"
  shows "\<exists>ps. parse_frame_sentences f vdo = Inr ps \<and>
    map ps_match ps = map (\<lambda>(a, b). \<lparr>sentence_span = span_of (a, b), tag_span = tag_of (payload f) a\<rparr>)
      (finditer vdo 0 (map of_char (payload f))) \<and>
    (\<forall>p \<in> set ps. ps_frame p = f \<and> parse_scanned_sentence f (ps_match p) = Inr p)"
proof -
  let ?ms = "map (\<lambda>(a, b). \<lparr>sentence_span = span_of (a, b), tag_span = tag_of (payload f) a\<rparr>)
      (finditer vdo 0 (map of_char (payload f)))"
  have "\<exists>ps. rmap (parse_scanned_sentence f) ms = Inr ps \<and> map ps_match ps = ms \<and>
      (\<forall>p \<in> set ps. ps_frame p = f \<and> parse_scanned_sentence f (ps_match p) = Inr p)"
    if "set ms \<subseteq> set ?ms" for ms
    using that
  proof (induction ms)
    case (Cons m ms)
    then obtain a b where "(a, b) \<in> set (finditer vdo 0 (map of_char (payload f)))"
      "m = \<lparr>sentence_span = span_of (a, b), tag_span = tag_of (payload f) a\<rparr>" by auto
    with parse_scanned_total [OF assms] obtain p
      where "parse_scanned_sentence f m = Inr p" "ps_frame p = f" "ps_match p = m" by metis
    with Cons show ?case by auto
  qed simp
  from this [OF order.refl] show ?thesis by (auto simp: parse_frame_sentences_def scan_total)
qed

lemma parse_scanned_clean:
  assumes f: "clean_frame f" and ab: "(a, b) \<in> set (finditer vdo 0 (map of_char (payload f)))"
    and "decode_frame_slice f (int a) (int b) = Inr line"
  shows "clean line"
proof -
  let ?p = "payload f"
  have bd: "a + 10 \<le> b" "b \<le> length ?p" using finditer_bounds [OF ab] by auto
  have sent: "is_sentence vdo (map of_char (slice ?p a b))"
    using finditer_sound [OF ab] by (simp add: map_slice)
  have len: "length (slice ?p a b) = b - a" using bd by (simp add: length_slice)
  have "(of_char (?p ! a) :: nat) < 128" "(of_char (?p ! (b - 1)) :: nat) < 128"
    using sentence_ends [OF sent] bd len by (auto simp: nth_slice)
  with bd assms(3) show ?thesis by (intro decode_within_clean [OF f, of a "b - 1"]) auto
qed

text \<open>What the parser hands on: a fragment in range with its text.\<close>

lemma parsed_fragment:
  assumes f: "wf_frame f" and "parse_frame_sentences f vdo = Inr ps" and "p \<in> set ps"
  shows "ps_frame p = f \<and> (\<exists>line. decode_frame_slice f (int (sp_start (sentence_span (ps_match p))))
      (int (sp_end (sentence_span (ps_match p)))) = Inr line \<and> ps_fragment p = parse_fragment line \<and>
      (clean_frame f \<longrightarrow> clean line))"
proof -
  have p: "ps_frame p = f" "parse_scanned_sentence f (ps_match p) = Inr p"
    and ms: "map ps_match ps = map (\<lambda>(a, b). \<lparr>sentence_span = span_of (a, b), tag_span = tag_of (payload f) a\<rparr>)
      (finditer vdo 0 (map of_char (payload f)))"
    using parse_frame_total [OF f, of vdo] assms(2,3) by auto
  have "ps_match p \<in> set (map ps_match ps)" using assms(3) by simp
  then have m: "ps_match p \<in> (\<lambda>(a, b). \<lparr>sentence_span = span_of (a, b), tag_span = tag_of (payload f) a\<rparr>) `
      set (finditer vdo 0 (map of_char (payload f)))"
    unfolding ms by simp
  from p(2) obtain line where line: "decode_frame_slice f (int (sp_start (sentence_span (ps_match p))))
      (int (sp_end (sentence_span (ps_match p)))) = Inr line" "ps_fragment p = parse_fragment line"
    by (auto simp: parse_scanned_sentence_def rbind_Inr_iff) (metis parsed.select_convs(3))
  from m obtain a b where "(a, b) \<in> set (finditer vdo 0 (map of_char (payload f)))"
    "sentence_span (ps_match p) = span_of (a, b)" by auto
  with line(1) have "clean_frame f \<longrightarrow> clean line"
    using parse_scanned_clean by (fastforce simp: span_of_def)
  with p(1) line show ?thesis by blast
qed

lemma leading_s_total:
  assumes "wf_frame f"
  shows "\<exists>v. parse_leading_s_value f = Inr v"
proof (cases "payload f")
  case (Cons b bs)
  show ?thesis
  proof (cases "find_from (char_of (92::nat)) (payload f) 1")
    case None
    then show ?thesis by (simp add: parse_leading_s_value_def split: list.splits)
  next
    case (Some e)
    note e = find_from_Some [OF Some]
    have "\<exists>s. decode_frame_slice f (int (Suc 0)) (int e) = Inr s" if "b = char_of (92::nat)"
      using e that Cons by (intro decode_between [OF assms]) auto
    then have "b = char_of (92::nat) \<Longrightarrow> \<exists>s. decode_frame_slice f 1 (int e) = Inr s" by simp
    with Some Cons show ?thesis by (auto simp: parse_leading_s_value_def)
  qed
qed (simp add: parse_leading_s_value_def)

lemma frame_from_udp_wf:
  "\<exists>f. frame_from_udp_datagram data kind sid alias ip key = Inr f \<and> wf_frame f \<and>
     text_mode f = UTF8_IGNORE \<and> (fr_kind f, fr_source_id f, alias_for_s f, remote_ip f, assembler_key f)
       = (kind, sid, alias, ip, key)"
proof -
  obtain s where s: "utf8_dec Ignore (map of_char data) = Some s" using utf8_dec_Ignore by blast
  then have "\<not> list_ex is_surrogate s" using utf8_dec_ordinary by blast
  then have "\<not> list_ex is_surrogate (strip s)"
    using set_strip [of s] by (auto simp: list_ex_iff)
  with s show ?thesis
    by (simp add: frame_from_udp_datagram_def utf8_decode_def encode_strict_def wf_frame_def)
qed

subsection \<open>Properties\<close>

text \<open>
  Ingress never raises on what a peer can send. A UDP datagram of any octets becomes a
  frame; and for every item the queue accepts (such a frame, or a legacy event whose line
  may hold surrogates) parsing its sentences, with or without VDO, and reading its leading
  source value return, one parsed sentence per scanned one, in order.
\<close>

theorem ingress_never_raises:
  assumes "wf_item i" and "coerce_ingress_frame i = Some f"
  shows "(\<forall>data kind sid alias ip key. \<exists>f'.
      frame_from_udp_datagram data kind sid alias ip key = Inr f' \<and> wf_item (FrameItem f')) \<and>
    (\<exists>ms ps v. scan_nmea_sentences (payload f) vdo = Inr ms \<and> parse_frame_sentences f vdo = Inr ps \<and>
       map ps_match ps = ms \<and> parse_leading_s_value f = Inr v)"
proof
  show "\<forall>data kind sid alias ip key. \<exists>f'.
      frame_from_udp_datagram data kind sid alias ip key = Inr f' \<and> wf_item (FrameItem f')"
  proof (intro allI)
    fix data kind sid al ip k
    show "\<exists>f'. frame_from_udp_datagram data kind sid al ip k = Inr f' \<and> wf_item (FrameItem f')"
      using frame_from_udp_wf [of data kind sid al ip k] by (auto simp: wf_item_def)
  qed
  have "wf_frame f" using assms by (rule coerce_wf)
  then show "\<exists>ms ps v. scan_nmea_sentences (payload f) vdo = Inr ms \<and>
      parse_frame_sentences f vdo = Inr ps \<and> map ps_match ps = ms \<and> parse_leading_s_value f = Inr v"
    using parse_frame_total [of f vdo] leading_s_total [of f] by (auto simp: scan_total)
qed

definition example_event :: event where
  "example_event = \<lparr>ev_kind = lit ''sec'', ev_source_id = lit ''a'', ev_alias_for_s = None,
     ev_remote_ip = None, ev_assembler_key = lit ''k'', raw_line = PStr [0xD800]\<rparr>"

lemma ingress_never_raises_witness:
  "\<exists>f ps. coerce_ingress_frame (EventItem example_event) = Some f \<and> parse_frame_sentences f True = Inr ps"
proof -
  have "wf_item (EventItem example_event)" by (simp add: wf_item_def example_event_def)
  moreover obtain f where f: "coerce_ingress_frame (EventItem example_event) = Some f"
    by (simp add: frame_from_ingress_event_def frame_from_text_payload_def example_event_def)
  ultimately show ?thesis using ingress_never_raises by blast
qed

text \<open>
  A fragment is parsed exactly from a sentence of at least seven fields whose second and
  third are integers \<open>total\<close> and \<open>ordinal\<close> with \<open>1 <= ordinal <= total\<close>.
\<close>

theorem parse_fragment_iff:
  "parse_fragment s = Some fr \<longleftrightarrow>
     7 \<le> length (split_on 44 s) \<and> py_int (split_on 44 s ! 1) = Some (declared_total fr) \<and>
     py_int (split_on 44 s ! 2) = Some (ordinal fr) \<and>
     1 \<le> ordinal fr \<and> ordinal fr \<le> declared_total fr \<and>
     sequential_id fr = split_on 44 s ! 3 \<and> channel fr = split_on 44 s ! 4"
  by (cases fr) (auto simp: parse_fragment_def Let_def split: option.splits if_splits)

end
