(* ===== verification/Assembler.thy ===== *)
theory Assembler
  imports ParsedSentence
begin

section \<open>Multipart assembly (\<open>assembler.py\<close>)\<close>

text \<open>
  \<open>AIVDMAssembler\<close>: live groups of fragments, keyed by source, sequential id, channel and
  declared total, in a dictionary. Keys are ordered lexicographically, as Python orders
  tuples of strings and ints. The clock reading of a call is its argument; only multipart
  fragments use it. Missing keys (\<open>del\<close>, subscripts) and \<open>min\<close> of nothing raise.
\<close>

type_synonym akey = "pystr \<times> pystr \<times> pystr \<times> int"

datatype status = INVALID | SINGLE | LIMIT_EXCEEDED | PENDING | DUPLICATE | CONFLICT | COMPLETE

record outcome =
  o_status :: status
  group_key :: "akey option"
  sentences :: "pystr list"
  discarded_keys :: "akey list"

record group =
  fragments :: "(int \<times> pystr) list"
  last_progress_at :: time

record assembler =
  timeout :: time
  max_fragments :: "int option"
  max_pending :: "int option"
  groups :: "(akey \<times> group) list"
  outcome_counts :: "status \<Rightarrow> nat"
  as_expired :: nat
  as_evicted :: nat
  reset_discarded :: nat
  as_resets :: nat
  peak_groups :: nat
  peak_fragments :: nat

definition assembler_init :: "time \<Rightarrow> pyval \<Rightarrow> pyval \<Rightarrow> assembler res" where
  "assembler_init tmo mf mp =
     rbind (optional_limit mf) (\<lambda>f. rbind (optional_limit mp) (\<lambda>p.
       Inr \<lparr>timeout = tmo, max_fragments = f, max_pending = p, groups = [], outcome_counts = (\<lambda>_. 0),
            as_expired = 0, as_evicted = 0, reset_discarded = 0, as_resets = 0, peak_groups = 0,
            peak_fragments = 0\<rparr>))"

definition mk_outcome ::
  "status \<Rightarrow> akey option \<Rightarrow> pystr list \<Rightarrow> akey list \<Rightarrow> assembler \<Rightarrow> outcome \<times> assembler" where
  "mk_outcome st k ss ds a =
     (\<lparr>o_status = st, group_key = k, sentences = ss, discarded_keys = ds\<rparr>,
      a\<lparr>outcome_counts := (outcome_counts a)(st := Suc (outcome_counts a st))\<rparr>)"

definition del_group :: "akey \<Rightarrow> assembler \<Rightarrow> assembler res" where
  "del_group k a =
     (if k \<in> set (keys (groups a)) then Inr (a\<lparr>groups := AList.delete k (groups a)\<rparr>) else Inl KeyError)"

definition expire_group :: "akey \<Rightarrow> assembler \<Rightarrow> assembler res" where
  "expire_group k a = rbind (del_group k a) (\<lambda>a. Inr (a\<lparr>as_expired := Suc (as_expired a)\<rparr>))"

fun expire_all :: "akey list \<Rightarrow> assembler \<Rightarrow> assembler res" where
  "expire_all [] a = Inr a"
| "expire_all (k # ks) a = rbind (expire_group k a) (expire_all ks)"

definition is_stale :: "time \<Rightarrow> assembler \<Rightarrow> group \<Rightarrow> bool" where
  "is_stale now a g \<longleftrightarrow> timeout a \<le> now - last_progress_at g"

definition expired_keys :: "time \<Rightarrow> assembler \<Rightarrow> akey list" where
  "expired_keys now a = sort (keys (filter (\<lambda>(k, g). is_stale now a g) (groups a)))"

definition asm_cleanup :: "time \<Rightarrow> assembler \<Rightarrow> (akey list \<times> assembler) res" where
  "asm_cleanup now a =
     (let ks = expired_keys now a in rbind (expire_all ks a) (\<lambda>a'. Inr (ks, a')))"

definition evict_capacity_victim :: "assembler \<Rightarrow> (akey \<times> assembler) res" where
  "evict_capacity_victim a =
     (if groups a = [] then Inl ValueError
      else let victim = snd (min_list (map (\<lambda>(k, g). (last_progress_at g, k)) (groups a)))
           in rbind (del_group victim a) (\<lambda>a'. Inr (victim, a'\<lparr>as_evicted := Suc (as_evicted a')\<rparr>)))"

definition n_fragments :: "assembler \<Rightarrow> nat" where
  "n_fragments a = sum_list (map (\<lambda>(k, g). length (fragments g)) (groups a))"

definition update_peaks :: "assembler \<Rightarrow> assembler" where
  "update_peaks a = a\<lparr>peak_groups := max (peak_groups a) (length (groups a)),
     peak_fragments := max (peak_fragments a) (n_fragments a)\<rparr>"

definition group_limit_reached :: "assembler \<Rightarrow> bool" where
  "group_limit_reached a =
     (case max_pending a of None \<Rightarrow> False | Some m \<Rightarrow> m \<le> int (length (groups a)))"

text \<open>The group of a key, dropped first when it is stale: the keys discarded, and the group.\<close>

definition drop_stale :: "akey \<Rightarrow> time \<Rightarrow> assembler \<Rightarrow> (akey list \<times> group option \<times> assembler) res" where
  "drop_stale k now a =
     (case map_of (groups a) k of
        None \<Rightarrow> Inr ([], None, a)
      | Some g \<Rightarrow>
          if is_stale now a g then rbind (expire_group k a) (\<lambda>a'. Inr ([k], None, a'))
          else Inr ([], Some g, a))"

text \<open>A new group, after making room: the keys discarded, and whether a cleanup was performed.\<close>

definition new_group :: "akey \<Rightarrow> time \<Rightarrow> assembler \<Rightarrow> (akey list \<times> bool \<times> group \<times> assembler) res" where
  "new_group k now a =
     rbind (if group_limit_reached a
            then rbind (asm_cleanup now a) (\<lambda>(ds, a1).
              if group_limit_reached a1
              then rbind (evict_capacity_victim a1) (\<lambda>(v, a2). Inr (ds @ [v], True, a2))
              else Inr (ds, True, a1))
            else Inr ([], False, a))
       (\<lambda>(ds, cleaned, a3).
          let g = \<lparr>fragments = [], last_progress_at = now\<rparr>
          in Inr (ds, cleaned, g, a3\<lparr>groups := AList.update k g (groups a3)\<rparr>))"

text \<open>A fragment of a live group.\<close>

definition add_fragment ::
  "akey \<Rightarrow> pystr \<Rightarrow> int \<Rightarrow> int \<Rightarrow> time \<Rightarrow> akey list \<Rightarrow> bool \<Rightarrow> group \<Rightarrow> assembler
     \<Rightarrow> (outcome \<times> assembler) res" where
  "add_fragment k line tot i now ds cleaned g a =
     (case map_of (fragments g) i of
        Some old \<Rightarrow>
          if old = line
          then rbind (asm_cleanup now a) (\<lambda>(ks, a').
                 Inr (mk_outcome DUPLICATE (Some k) [] (sort (ds @ ks)) a'))
          else rbind (del_group k a) (\<lambda>a1. rbind (asm_cleanup now a1) (\<lambda>(ks, a').
                 Inr (mk_outcome CONFLICT (Some k) [] (sort (ds @ k # ks)) a')))
      | None \<Rightarrow>
          let g' = \<lparr>fragments = AList.update i line (fragments g), last_progress_at = now\<rparr>;
              a1 = a\<lparr>groups := AList.update k g' (groups a)\<rparr>
          in if int (length (fragments g')) = tot
             then rbind (rmap (\<lambda>j. case map_of (fragments g') j of None \<Rightarrow> Inl KeyError | Some s \<Rightarrow> Inr s) [1..tot])
               (\<lambda>ss. rbind (del_group k a1) (\<lambda>a2. Inr (mk_outcome COMPLETE (Some k) ss (sort ds) a2)))
             else rbind (if cleaned then Inr ([], a1) else asm_cleanup now a1) (\<lambda>(ks, a2).
               Inr (mk_outcome PENDING (Some k) [] (sort (ds @ ks)) (update_peaks a2))))"

definition feed_validated ::
  "pystr \<Rightarrow> pystr \<Rightarrow> int \<Rightarrow> int \<Rightarrow> pystr \<Rightarrow> pystr \<Rightarrow> time \<Rightarrow> assembler \<Rightarrow> (outcome \<times> assembler) res" where
  "feed_validated src line tot i seq chan now a =
     (if tot = 1 then Inr (mk_outcome SINGLE None [line] [] a)
      else if (case max_fragments a of None \<Rightarrow> False | Some m \<Rightarrow> m < tot)
      then Inr (mk_outcome LIMIT_EXCEEDED None [] [] a)
      else let k = (src, seq, chan, tot)
        in rbind (drop_stale k now a) (\<lambda>(ds, og, a1).
          case og of
            Some g \<Rightarrow> add_fragment k line tot i now ds False g a1
          | None \<Rightarrow> rbind (new_group k now a1) (\<lambda>(ds', cleaned, g, a2).
              add_fragment k line tot i now (ds @ ds') cleaned g a2)))"

definition feed_outcome :: "pystr \<Rightarrow> pystr \<Rightarrow> time \<Rightarrow> assembler \<Rightarrow> (outcome \<times> assembler) res" where
  "feed_outcome src line now a =
     (let parts = split_on 44 line
      in if length parts < 7 then Inr (mk_outcome INVALID None [] [] a)
         else case (py_int (parts ! 1), py_int (parts ! 2)) of
           (Some tot, Some current) \<Rightarrow>
             if tot < 1 \<or> current < 1 \<or> tot < current then Inr (mk_outcome INVALID None [] [] a)
             else feed_validated src line tot current (parts ! 3) (parts ! 4) now a
         | _ \<Rightarrow> Inr (mk_outcome INVALID None [] [] a))"

definition feed :: "pystr \<Rightarrow> pystr \<Rightarrow> time \<Rightarrow> assembler \<Rightarrow> (pystr list option \<times> assembler) res" where
  "feed src line now a =
     rbind (feed_outcome src line now a) (\<lambda>(out, a').
       Inr (if o_status out \<in> {SINGLE, COMPLETE} then Some (sentences out) else None, a'))"

definition feed_parsed_outcome :: "parsed \<Rightarrow> time \<Rightarrow> assembler \<Rightarrow> (outcome \<times> assembler) res" where
  "feed_parsed_outcome p now a =
     (case ps_fragment p of
        None \<Rightarrow> Inr (mk_outcome INVALID None [] [] a)
      | Some fr \<Rightarrow>
          rbind (decode_frame_slice (ps_frame p) (int (sp_start (sentence_span (ps_match p))))
              (int (sp_end (sentence_span (ps_match p))))) (\<lambda>text.
            feed_validated (assembler_key (ps_frame p)) text (declared_total fr) (ordinal fr)
              (sequential_id fr) (channel fr) now a))"

definition assembler_reset :: "assembler \<Rightarrow> akey list \<times> assembler" where
  "assembler_reset a =
     (let ks = sort (keys (groups a))
      in (ks, a\<lparr>groups := [], as_resets := Suc (as_resets a),
                reset_discarded := reset_discarded a + length ks\<rparr>))"

record assembler_stats =
  sa_outcomes :: "status \<Rightarrow> nat"
  sa_expired :: nat
  sa_capacity_evicted :: nat
  sa_reset_discarded :: nat
  sa_resets :: nat
  sa_current_groups :: nat
  sa_peak_groups :: nat
  sa_current_fragments :: nat
  sa_peak_fragments :: nat

definition assembler_statistics :: "assembler \<Rightarrow> assembler_stats" where
  "assembler_statistics a =
     \<lparr>sa_outcomes = outcome_counts a, sa_expired = as_expired a, sa_capacity_evicted = as_evicted a,
      sa_reset_discarded = reset_discarded a, sa_resets = as_resets a,
      sa_current_groups = length (groups a), sa_peak_groups = peak_groups a,
      sa_current_fragments = n_fragments a, sa_peak_fragments = peak_fragments a\<rparr>"

subsection \<open>Dropping groups\<close>

text \<open>
  \<open>drops ds a a'\<close>: the operation removed exactly the live groups \<open>ds\<close> and changed nothing
  else but counters. Every removal of the component is of this kind.
\<close>

definition same_config :: "assembler \<Rightarrow> assembler \<Rightarrow> bool" where
  "same_config a a' \<longleftrightarrow> timeout a' = timeout a \<and> max_fragments a' = max_fragments a \<and>
     max_pending a' = max_pending a"

definition drops :: "akey list \<Rightarrow> assembler \<Rightarrow> assembler \<Rightarrow> bool" where
  "drops ds a a' \<longleftrightarrow> groups a' = filter (\<lambda>(k, g). k \<notin> set ds) (groups a) \<and>
     set ds \<subseteq> set (keys (groups a)) \<and> same_config a a' \<and>
     peak_groups a' = peak_groups a \<and> peak_fragments a' = peak_fragments a"

abbreviation live :: "assembler \<Rightarrow> akey set" where
  "live a \<equiv> set (keys (groups a))"

lemma drops_Nil [simp]: "drops [] a a"
  by (simp add: drops_def same_config_def)

lemma drops_trans: "drops ds a b \<Longrightarrow> drops es b c \<Longrightarrow> drops (ds @ es) a c"
  by (auto simp: drops_def same_config_def intro: filter_cong)

lemma drops_live: "drops ds a a' \<Longrightarrow> live a' = live a - set ds"
  by (force simp: drops_def)

lemma drops_subset: "drops ds a a' \<Longrightarrow> set ds \<subseteq> live a"
  by (simp add: drops_def)

lemma map_of_filter_key: "map_of (filter (\<lambda>(k, g). P k) d) k = (if P k then map_of d k else None)"
  by (induction d) auto

lemma drops_map_of: "drops ds a a' \<Longrightarrow> map_of (groups a') k = (if k \<in> set ds then None else map_of (groups a) k)"
  by (simp add: drops_def map_of_filter_key)

lemma drops_set_cong: "drops ds a a' \<Longrightarrow> set es = set ds \<Longrightarrow> drops es a a'"
  by (simp add: drops_def)

lemma del_group_drops: "k \<in> live a \<Longrightarrow> \<exists>a'. del_group k a = Inr a' \<and> drops [k] a a'"
  by (auto simp: del_group_def drops_def same_config_def AList.delete_eq intro: filter_cong)

lemma expire_group_drops:
  assumes "k \<in> live a"
  shows "\<exists>a'. expire_group k a = Inr a' \<and> drops [k] a a' \<and> as_expired a' = Suc (as_expired a)"
  using assms by (auto simp: expire_group_def del_group_def drops_def same_config_def AList.delete_eq
      intro: filter_cong)

lemma expire_all_drops:
  "distinct ks \<Longrightarrow> set ks \<subseteq> live a \<Longrightarrow>
   \<exists>a'. expire_all ks a = Inr a' \<and> drops ks a a' \<and> as_expired a' = as_expired a + length ks"
proof (induction ks arbitrary: a)
  case (Cons k ks)
  then obtain a1 where a1: "expire_group k a = Inr a1" "drops [k] a a1" "as_expired a1 = Suc (as_expired a)"
    using expire_group_drops [of k a] by auto
  have "set ks \<subseteq> live a1" using Cons.prems drops_live [OF a1(2)] by auto
  with Cons.IH [of a1] Cons.prems(1) obtain a2
    where "expire_all ks a1 = Inr a2" "drops ks a1 a2" "as_expired a2 = as_expired a1 + length ks"
    by auto
  with a1 drops_trans [OF a1(2), of ks a2] show ?case by auto
qed auto

lemma set_expired_keys:
  "distinct (keys (groups a)) \<Longrightarrow>
   k \<in> set (expired_keys now a) \<longleftrightarrow> (\<exists>g. map_of (groups a) k = Some g \<and> is_stale now a g)"
  by (force simp: expired_keys_def)

lemma distinct_expired_keys: "distinct (keys (groups a)) \<Longrightarrow> distinct (expired_keys now a)"
  by (simp add: expired_keys_def distinct_map_filter)

lemma asm_cleanup_drops:
  assumes "distinct (keys (groups a))"
  obtains a' where "asm_cleanup now a = Inr (expired_keys now a, a')" "drops (expired_keys now a) a a'"
    "as_expired a' = as_expired a + length (expired_keys now a)"
proof -
  have "set (expired_keys now a) \<subseteq> live a" by (auto simp: expired_keys_def)
  with expire_all_drops [OF distinct_expired_keys [OF assms]] that show thesis
    by (fastforce simp: asm_cleanup_def Let_def)
qed

lemma min_list_in: "xs \<noteq> [] \<Longrightarrow> min_list xs \<in> set (xs :: 'a::linorder list)"
  by (simp add: min_list_Min)

lemma min_list_le: "x \<in> set xs \<Longrightarrow> min_list xs \<le> (x :: 'a::linorder)"
  by (cases "xs = []") (auto simp: min_list_Min)

text \<open>The victim is the group without progress for longest, the smallest key breaking ties.\<close>

lemma evict_drops:
  assumes "groups a \<noteq> []"
  obtains v g a' where "evict_capacity_victim a = Inr (v, a')" "drops [v] a a'" "(v, g) \<in> set (groups a)"
    "\<forall>(k', g') \<in> set (groups a). (last_progress_at g, v) \<le> (last_progress_at g', k')"
    "as_evicted a' = Suc (as_evicted a)"
proof -
  let ?m = "min_list (map (\<lambda>(k, g). (last_progress_at g, k)) (groups a))"
  have "?m \<in> (\<lambda>(k, g). (last_progress_at g, k)) ` set (groups a)"
    using min_list_in [of "map (\<lambda>(k, g). (last_progress_at g, k)) (groups a)"] assms by simp
  then obtain v g where v: "?m = (last_progress_at g, v)" "(v, g) \<in> set (groups a)" by auto
  have "\<forall>(k', g') \<in> set (groups a). ?m \<le> (last_progress_at g', k')"
    by (auto intro!: min_list_le)
  moreover have "v \<in> live a" using v(2) by force
  then obtain a1 where a1: "del_group v a = Inr a1" "drops [v] a a1" "as_evicted a1 = as_evicted a"
    by (auto simp: del_group_def drops_def same_config_def AList.delete_eq intro: filter_cong)
  moreover from a1(2) have "drops [v] a (a1\<lparr>as_evicted := Suc (as_evicted a1)\<rparr>)"
    by (simp add: drops_def same_config_def)
  ultimately show thesis
    using v assms by (intro that [of v "a1\<lparr>as_evicted := Suc (as_evicted a1)\<rparr>" g])
      (simp_all add: evict_capacity_victim_def)
qed

subsection \<open>The invariant\<close>

definition ktotal :: "akey \<Rightarrow> int" where
  "ktotal k = snd (snd (snd k))"

definition group_ok :: "int \<Rightarrow> group \<Rightarrow> bool" where
  "group_ok tot g \<longleftrightarrow> distinct (keys (fragments g)) \<and> set (keys (fragments g)) \<subseteq> {1..tot} \<and>
     int (length (fragments g)) < tot"

definition asm_core :: "assembler \<Rightarrow> bool" where
  "asm_core a \<longleftrightarrow> distinct (keys (groups a)) \<and>
     (\<forall>(k, g) \<in> set (groups a). group_ok (ktotal k) g \<and> within (max_fragments a) (ktotal k)) \<and>
     limit_pos (max_pending a) \<and> within (max_pending a) (int (length (groups a)))"

definition asm_peaks :: "assembler \<Rightarrow> bool" where
  "asm_peaks a \<longleftrightarrow> length (groups a) \<le> peak_groups a \<and> n_fragments a \<le> peak_fragments a \<and>
     within (max_pending a) (int (peak_groups a))"

definition asm_wf :: "assembler \<Rightarrow> bool" where
  "asm_wf a \<longleftrightarrow> asm_core a \<and> asm_peaks a"

lemma asm_core_distinct: "asm_core a \<Longrightarrow> distinct (keys (groups a))"
  by (simp add: asm_core_def)

lemma sum_list_filter_le: "sum_list (map f (filter P xs)) \<le> sum_list (map (f :: 'a \<Rightarrow> nat) xs)"
  by (induction xs) auto

lemma drops_groups:
  assumes "drops ds a a'"
  shows "set (groups a') \<subseteq> set (groups a)" "length (groups a') \<le> length (groups a)"
    "n_fragments a' \<le> n_fragments a" "distinct (keys (groups a)) \<Longrightarrow> distinct (keys (groups a'))"
  using assms by (auto simp: drops_def n_fragments_def sum_list_filter_le distinct_map_filter)

lemma drops_core:
  assumes d: "drops ds a a'" and "asm_core a"
  shows "asm_core a'"
proof -
  have "same_config a a'" using d by (simp add: drops_def)
  with assms(2) drops_groups [OF d] show ?thesis
    by (auto simp: asm_core_def same_config_def elim: within_mono)
qed

lemma drops_peaks:
  assumes d: "drops ds a a'" and "asm_peaks a"
  shows "asm_peaks a'"
proof -
  have "same_config a a'" "peak_groups a' = peak_groups a" "peak_fragments a' = peak_fragments a"
    using d by (simp_all add: drops_def)
  with assms(2) drops_groups [OF d] show ?thesis
    by (auto simp: asm_peaks_def same_config_def)
qed

lemma same_config_refl [simp]: "same_config a a"
  by (simp add: same_config_def)

lemma same_config_trans: "same_config a b \<Longrightarrow> same_config b c \<Longrightarrow> same_config a c"
  by (simp add: same_config_def)

lemma drops_config: "drops ds a a' \<Longrightarrow> same_config a a'"
  by (simp add: drops_def)

lemma assembler_init_wf: "assembler_init t mf mp = Inr a \<Longrightarrow> asm_wf a \<and> timeout a = t"
  by (auto simp: assembler_init_def rbind_Inr_iff asm_wf_def asm_core_def asm_peaks_def n_fragments_def
      dest!: optional_limit_limit_pos intro: within_pos)

subsection \<open>The effect of one fragment\<close>

definition fresh_fragments :: "akey \<Rightarrow> time \<Rightarrow> assembler \<Rightarrow> (int \<times> pystr) list" where
  "fresh_fragments k now a =
     (case map_of (groups a) k of None \<Rightarrow> [] | Some g \<Rightarrow> if is_stale now a g then [] else fragments g)"

text \<open>
  What feeding fragment \<open>i\<close> of a message with key \<open>k\<close> does, by outcome: which live groups go
  (\<open>discarded_keys\<close>), which stay as they are, what the group of the message becomes and which
  sentences come out.
\<close>

definition feed_effect :: "akey \<Rightarrow> int \<Rightarrow> pystr \<Rightarrow> time \<Rightarrow> assembler \<Rightarrow> outcome \<Rightarrow> assembler \<Rightarrow> bool" where
  "feed_effect k i line now a out a' \<longleftrightarrow> same_config a a' \<and> set (discarded_keys out) \<subseteq> live a \<and>
     (case o_status out of
        INVALID \<Rightarrow> False
      | SINGLE \<Rightarrow> ktotal k = 1 \<and> out = \<lparr>o_status = SINGLE, group_key = None, sentences = [line],
          discarded_keys = []\<rparr> \<and> groups a' = groups a
      | LIMIT_EXCEEDED \<Rightarrow> (\<exists>m. max_fragments a = Some m \<and> m < ktotal k) \<and> sentences out = [] \<and>
          group_key out = None \<and> discarded_keys out = [] \<and> groups a' = groups a
      | DUPLICATE \<Rightarrow> group_key out = Some k \<and> sentences out = [] \<and>
          map_of (fresh_fragments k now a) i = Some line \<and> k \<notin> set (discarded_keys out) \<and>
          drops (discarded_keys out) a a'
      | CONFLICT \<Rightarrow> group_key out = Some k \<and> sentences out = [] \<and> k \<in> set (discarded_keys out) \<and>
          (\<exists>old. map_of (fresh_fragments k now a) i = Some old \<and> old \<noteq> line) \<and>
          drops (discarded_keys out) a a'
      | COMPLETE \<Rightarrow> group_key out = Some k \<and> map_of (fresh_fragments k now a) i = None \<and>
          int (Suc (length (fresh_fragments k now a))) = ktotal k \<and>
          sentences out = map (\<lambda>j. if j = i then line else the (map_of (fresh_fragments k now a) j)) [1..ktotal k] \<and>
          discarded_keys out = [] \<and> drops [k] a a'
      | PENDING \<Rightarrow> group_key out = Some k \<and> sentences out = [] \<and>
          map_of (fresh_fragments k now a) i = None \<and>
          int (Suc (length (fresh_fragments k now a))) < ktotal k \<and>
          live a' = insert k (live a - set (discarded_keys out)) \<and>
          map_of (groups a') k =
            Some \<lparr>fragments = fresh_fragments k now a @ [(i, line)], last_progress_at = now\<rparr> \<and>
          (\<forall>k'. k' \<noteq> k \<longrightarrow> map_of (groups a') k' =
             (if k' \<in> set (discarded_keys out) then None else map_of (groups a) k')))"

lemma drop_stale_spec:
  assumes "asm_core a"
  obtains ds og a1 where "drop_stale k now a = Inr (ds, og, a1)" "drops ds a a1"
    "map_of (groups a1) k = og" "\<forall>g. og = Some g \<longrightarrow> ds = [] \<and> a1 = a \<and> \<not> is_stale now a g"
    "fresh_fragments k now a = (case og of None \<Rightarrow> [] | Some g \<Rightarrow> fragments g)"
proof (cases "map_of (groups a) k")
  case None
  then show thesis by (intro that [of "[]" None a]) (simp_all add: drop_stale_def fresh_fragments_def)
next
  case (Some g)
  show thesis
  proof (cases "is_stale now a g")
    case True
    have "k \<in> live a" using Some keys_map_of by metis
    then obtain a1 where "expire_group k a = Inr a1" "drops [k] a a1"
      using expire_group_drops by blast
    with True Some drops_map_of [of "[k]" a a1 k] show thesis
      by (intro that [of "[k]" None a1]) (simp_all add: drop_stale_def fresh_fragments_def)
  next
    case False
    with Some show thesis
      by (intro that [of "[]" "Some g" a]) (simp_all add: drop_stale_def fresh_fragments_def)
  qed
qed

lemma core_limit:
  "asm_core a \<Longrightarrow> \<not> group_limit_reached a \<Longrightarrow>
     within (max_pending a) (int (Suc (length (groups a))))"
  by (auto simp: asm_core_def group_limit_reached_def split: option.splits)

lemma new_group_spec:
  assumes "asm_core a" and "k \<notin> live a" and "2 \<le> ktotal k"
    and "within (max_fragments a) (ktotal k)"
  obtains ds cleaned a1 where "drops ds a a1" "k \<notin> live a1"
    "new_group k now a = Inr (ds, cleaned, \<lparr>fragments = [], last_progress_at = now\<rparr>,
       a1\<lparr>groups := groups a1 @ [(k, \<lparr>fragments = [], last_progress_at = now\<rparr>)]\<rparr>)"
    "asm_core (a1\<lparr>groups := groups a1 @ [(k, \<lparr>fragments = [], last_progress_at = now\<rparr>)]\<rparr>)"
proof -
  let ?g = "\<lparr>fragments = [], last_progress_at = now\<rparr>"
  have "\<exists>ds cleaned a1. drops ds a a1 \<and> \<not> group_limit_reached a1 \<and>
      new_group k now a = Inr (ds, cleaned, ?g, a1\<lparr>groups := AList.update k ?g (groups a1)\<rparr>)"
  proof (cases "group_limit_reached a")
    case False
    then show ?thesis by (intro exI [of _ "[]"] exI [of _ False] exI [of _ a])
        (simp add: new_group_def Let_def)
  next
    case True
    obtain b where b: "asm_cleanup now a = Inr (expired_keys now a, b)" "drops (expired_keys now a) a b"
      using asm_cleanup_drops [OF asm_core_distinct [OF assms(1)]] by blast
    have core: "asm_core b" by (rule drops_core [OF b(2) assms(1)])
    show ?thesis
    proof (cases "group_limit_reached b")
      case False
      with True b show ?thesis
        by (intro exI [of _ "expired_keys now a"] exI [of _ True] exI [of _ b])
          (simp add: new_group_def Let_def)
    next
      case again: True
      with core obtain m where m: "max_pending b = Some m" "int (length (groups b)) = m" "1 \<le> m"
        by (auto simp: group_limit_reached_def asm_core_def split: option.splits)
      then have "groups b \<noteq> []" by auto
      then obtain v c where c: "evict_capacity_victim b = Inr (v, c)" "drops [v] b c"
        using evict_drops by metis
      have "v \<in> live b" using drops_subset [OF c(2)] by simp
      then have "live c \<subset> live b" using drops_live [OF c(2)] by auto
      then have "card (live c) < card (live b)" by (intro psubset_card_mono) auto
      then have "length (groups c) < length (groups b)"
        using asm_core_distinct [OF core] asm_core_distinct [OF drops_core [OF c(2) core]]
          distinct_card [of "keys (groups b)"] distinct_card [of "keys (groups c)"] by simp
      then have "\<not> group_limit_reached c"
        using m drops_config [OF c(2)] by (simp add: group_limit_reached_def same_config_def)
      with True again b c drops_trans [OF b(2) c(2)] show ?thesis
        by (intro exI [of _ "expired_keys now a @ [v]"] exI [of _ True] exI [of _ c])
          (simp add: new_group_def Let_def)
    qed
  qed
  then obtain ds cleaned a1 where n: "drops ds a a1" "\<not> group_limit_reached a1"
    "new_group k now a = Inr (ds, cleaned, ?g, a1\<lparr>groups := AList.update k ?g (groups a1)\<rparr>)" by blast
  have fresh: "k \<notin> live a1" using drops_live [OF n(1)] assms(2) by auto
  have core: "asm_core a1" by (rule drops_core [OF n(1) assms(1)])
  have "asm_core (a1\<lparr>groups := groups a1 @ [(k, ?g)]\<rparr>)"
    using core core_limit [OF core n(2)] fresh assms(3,4) drops_config [OF n(1)]
    by (auto simp: asm_core_def group_ok_def same_config_def)
  with n fresh that [of ds a1 cleaned] show thesis by simp
qed

lemma asm_core_update:
  assumes "asm_core b" and "k \<in> live b" and "group_ok (ktotal k) g'"
  shows "asm_core (b\<lparr>groups := AList.update k g' (groups b)\<rparr>)"
proof -
  have "within (max_fragments b) (ktotal k)"
    using assms(1,2) by (auto simp: asm_core_def)
  with assms show ?thesis
    using set_update [of k g' "groups b"]
    by (auto simp: asm_core_def AList.distinct_update length_update simp del: list.set_map)
qed

lemma mk_outcome_simps [simp]:
  "asm_core (snd (mk_outcome st k ss ds a)) = asm_core a"
  "asm_peaks (snd (mk_outcome st k ss ds a)) = asm_peaks a"
  "groups (snd (mk_outcome st k ss ds a)) = groups a"
  "same_config b (snd (mk_outcome st k ss ds a)) = same_config b a"
  "drops es b (snd (mk_outcome st k ss ds a)) = drops es b a"
  "fst (mk_outcome st k ss ds a) = \<lparr>o_status = st, group_key = k, sentences = ss, discarded_keys = ds\<rparr>"
  by (simp_all add: mk_outcome_def asm_core_def asm_peaks_def n_fragments_def same_config_def drops_def)

lemma update_peaks_simps [simp]:
  "asm_core (update_peaks a) = asm_core a" "groups (update_peaks a) = groups a"
  "same_config b (update_peaks a) = same_config b a"
  by (simp_all add: update_peaks_def asm_core_def same_config_def)

lemma update_peaks_peaks:
  "asm_core a \<Longrightarrow> within (max_pending a) (int (peak_groups a)) \<Longrightarrow> asm_peaks (update_peaks a)"
  by (cases "max_pending a") (auto simp: update_peaks_def asm_peaks_def asm_core_def n_fragments_def)

lemma add_fragment_pending:
  assumes core: "asm_core b" and g: "map_of (groups b) k = Some g" and i: "1 \<le> i" "i \<le> ktotal k"
    and none: "map_of (fragments g) i = None" and len: "int (Suc (length (fragments g))) < ktotal k"
    and t: "0 < timeout b" and pk: "within (max_pending b) (int (peak_groups b))"
  obtains es b' where
    "add_fragment k line (ktotal k) i now ds cleaned g b =
       Inr (mk_outcome PENDING (Some k) [] (sort (ds @ es)) b')"
    "set es \<subseteq> live b - {k}" "live b' = live b - set es" "asm_core b'" "asm_peaks b'" "same_config b b'"
    "\<And>k'. map_of (groups b') k' = (if k' \<in> set es then None else if k' = k
       then Some \<lparr>fragments = fragments g @ [(i, line)], last_progress_at = now\<rparr> else map_of (groups b) k')"
proof -
  let ?g = "\<lparr>fragments = AList.update i line (fragments g), last_progress_at = now\<rparr>"
  let ?b1 = "b\<lparr>groups := AList.update k ?g (groups b)\<rparr>"
  have live: "k \<in> live b" using g keys_map_of by metis
  have fr: "i \<notin> set (keys (fragments g))" using none by (simp add: map_of_keys)
  have "group_ok (ktotal k) g"
    using core map_of_SomeD [OF g] by (auto simp: asm_core_def)
  then have ok: "group_ok (ktotal k) ?g"
    using fr i len by (simp add: group_ok_def)
  have core1: "asm_core ?b1" by (rule asm_core_update [OF core live ok])
  have k1: "map_of (groups ?b1) k = Some ?g" by (simp add: AList.update_conv')
  have live1: "live ?b1 = live b"
    using live set_keys_update [of k ?g "groups b"] by (simp add: insert_absorb del: list.set_map)
  obtain es b2 where b2: "(if cleaned then Inr ([], ?b1) else asm_cleanup now ?b1) = Inr (es, b2)"
      "drops es ?b1 b2" "k \<notin> set es"
  proof (cases cleaned)
    case False
    have "k \<notin> set (expired_keys now ?b1)"
      using k1 t by (simp add: set_expired_keys [OF asm_core_distinct [OF core1]] is_stale_def)
    with asm_cleanup_drops [OF asm_core_distinct [OF core1]] False that show thesis by metis
  qed (use that in auto)
  have core2: "asm_core b2" by (rule drops_core [OF b2(2) core1])
  have eq: "add_fragment k line (ktotal k) i now ds cleaned g b =
      Inr (mk_outcome PENDING (Some k) [] (sort (ds @ es)) (update_peaks b2))"
    using b2(1) none len fr by (cases cleaned) (simp_all add: add_fragment_def Let_def)
  have "set es \<subseteq> live b - {k}" using drops_subset [OF b2(2)] b2(3) live1 by blast
  moreover have "live (update_peaks b2) = live b - set es"
    using drops_live [OF b2(2)] live1 by (simp del: list.set_map)
  moreover have "asm_peaks (update_peaks b2)"
    using b2(2) pk by (intro update_peaks_peaks [OF core2]) (auto simp: drops_def same_config_def)
  moreover have "same_config b (update_peaks b2)"
    using drops_config [OF b2(2)] unfolding update_peaks_simps by (simp add: same_config_def)
  moreover have "map_of (groups (update_peaks b2)) k' = (if k' \<in> set es then None else if k' = k
      then Some \<lparr>fragments = fragments g @ [(i, line)], last_progress_at = now\<rparr>
      else map_of (groups b) k')" for k'
    using drops_map_of [OF b2(2)] fr by (simp add: AList.update_conv')
  ultimately show thesis using that [OF eq] core2 by simp
qed

lemma drops_live_group: "drops ds a a' \<Longrightarrow> k \<notin> set ds \<Longrightarrow> map_of (groups a') k = map_of (groups a) k"
  by (simp add: drops_map_of)

text \<open>The branches of a live, fresh group that are not pending.\<close>

lemma add_fragment_known:
  assumes wf: "asm_wf a" and g: "map_of (groups a) k = Some g" and st: "\<not> is_stale now a g"
    and old: "map_of (fragments g) i = Some old"
  shows "\<exists>out a'. add_fragment k line (ktotal k) i now [] False g a = Inr (out, a') \<and> asm_wf a' \<and>
    feed_effect k i line now a out a'"
proof -
  have d: "distinct (keys (groups a))" using wf by (simp add: asm_wf_def asm_core_def)
  have live: "k \<in> live a" using g keys_map_of by metis
  have fresh: "fresh_fragments k now a = fragments g" using g st by (simp add: fresh_fragments_def)
  show ?thesis
  proof (cases "old = line")
    case True
    obtain a1 where a1: "asm_cleanup now a = Inr (expired_keys now a, a1)" "drops (expired_keys now a) a a1"
      using asm_cleanup_drops [OF d] by blast
    let ?o = "mk_outcome DUPLICATE (Some k) [] (sort (expired_keys now a)) a1"
    have "asm_wf a1" using wf drops_core [OF a1(2)] drops_peaks [OF a1(2)] by (simp add: asm_wf_def)
    then have "asm_wf (snd ?o)" by (simp add: asm_wf_def)
    moreover have "add_fragment k line (ktotal k) i now [] False g a = Inr ?o"
      using True old a1 by (simp add: add_fragment_def)
    moreover have "feed_effect k i line now a (fst ?o) (snd ?o)"
      using True old fresh g st set_expired_keys [OF d] drops_set_cong [OF a1(2)] drops_subset [OF a1(2)] drops_config [OF a1(2)]
      by (simp add: feed_effect_def)
    ultimately show ?thesis by (metis prod.collapse)
  next
    case False
    obtain b where b: "del_group k a = Inr b" "drops [k] a b" using del_group_drops [OF live] by blast
    have core: "asm_core b" using wf drops_core [OF b(2)] by (simp add: asm_wf_def)
    obtain a1 where a1: "asm_cleanup now b = Inr (expired_keys now b, a1)" "drops (expired_keys now b) b a1"
      using asm_cleanup_drops [OF asm_core_distinct [OF core]] by blast
    have d1: "drops (k # expired_keys now b) a a1" using drops_trans [OF b(2) a1(2)] by simp
    let ?o = "mk_outcome CONFLICT (Some k) [] (sort (k # expired_keys now b)) a1"
    have "asm_wf a1" using wf drops_core [OF d1] drops_peaks [OF d1] by (simp add: asm_wf_def)
    then have "asm_wf (snd ?o)" by (simp add: asm_wf_def)
    moreover have "add_fragment k line (ktotal k) i now [] False g a = Inr ?o"
      using False old b a1 by (simp add: add_fragment_def)
    moreover have "feed_effect k i line now a (fst ?o) (snd ?o)"
      using False old fresh drops_set_cong [OF d1] drops_subset [OF d1] drops_config [OF d1]
      by (simp add: feed_effect_def set_insort_key)
    ultimately show ?thesis by (metis prod.collapse)
  qed
qed

lemma complete_ordinals:
  assumes "distinct (keys fs)" and "set (keys fs) \<subseteq> {1..tot}" and "int (length fs) = tot"
  shows "\<forall>j \<in> set [1..tot]. \<exists>s. map_of fs j = Some s"
proof -
  have "card (set (keys fs)) = length fs" using assms(1) distinct_card by fastforce
  then have "card (set (keys fs)) = card {1..tot}" using assms(3) by simp
  then have "set (keys fs) = {1..tot}" using assms(2) by (intro card_subset_eq) auto
  then show ?thesis by (simp add: keys_map_of [symmetric] del: list.set_map)
qed

lemma add_fragment_complete:
  assumes wf: "asm_wf a" and g: "map_of (groups a) k = Some g" and st: "\<not> is_stale now a g"
    and i: "1 \<le> i" "i \<le> ktotal k" and none: "map_of (fragments g) i = None"
    and len: "int (Suc (length (fragments g))) = ktotal k"
  shows "\<exists>out a'. add_fragment k line (ktotal k) i now [] False g a = Inr (out, a') \<and> asm_wf a' \<and>
    feed_effect k i line now a out a'"
proof -
  let ?fs = "fragments g @ [(i, line)]"
  let ?a1 = "a\<lparr>groups := AList.update k \<lparr>fragments = ?fs, last_progress_at = now\<rparr> (groups a)\<rparr>"
  have live: "k \<in> live a" using g keys_map_of by metis
  have fresh: "fresh_fragments k now a = fragments g" using g st by (simp add: fresh_fragments_def)
  have fr: "i \<notin> set (keys (fragments g))" using none by (simp add: map_of_keys)
  have "group_ok (ktotal k) g"
    using wf map_of_SomeD [OF g] by (auto simp: asm_wf_def asm_core_def)
  then have "\<forall>j \<in> set [1..ktotal k]. \<exists>s. map_of ?fs j = Some s"
    using fr i len by (intro complete_ordinals) (auto simp: group_ok_def)
  then have ss: "rmap (\<lambda>j. case map_of ?fs j of None \<Rightarrow> Inl KeyError | Some s \<Rightarrow> Inr s) [1..ktotal k] =
      Inr (map (\<lambda>j. the (map_of ?fs j)) [1..ktotal k])"
    by (intro rmap_total) fastforce
  have ss': "map (\<lambda>j. the (map_of ?fs j)) [1..ktotal k] =
      map (\<lambda>j. if j = i then line else the (map_of (fragments g) j)) [1..ktotal k]"
    using none by (auto simp: map_add_def split: option.splits)
  let ?a2 = "a\<lparr>groups := AList.delete k (groups a)\<rparr>"
  have del: "del_group k ?a1 = Inr ?a2"
    by (simp add: del_group_def AList.delete_update_same)
  have d: "drops [k] a ?a2"
    using live by (auto simp: drops_def same_config_def AList.delete_eq intro: filter_cong)
  let ?o = "mk_outcome COMPLETE (Some k) (map (\<lambda>j. the (map_of ?fs j)) [1..ktotal k]) [] ?a2"
  have "add_fragment k line (ktotal k) i now [] False g a = Inr ?o"
    using none len fr ss del by (simp add: add_fragment_def Let_def del: map_of_append)
  moreover have "asm_wf (snd ?o)" using wf drops_core [OF d] drops_peaks [OF d] by (simp add: asm_wf_def)
  moreover have "feed_effect k i line now a (fst ?o) (snd ?o)"
    using d none len fresh ss' drops_config [OF d] by (simp add: feed_effect_def del: map_of_append)
  ultimately show ?thesis by (metis prod.collapse)
qed

lemma add_fragment_live:
  assumes wf: "asm_wf a" and t: "0 < timeout a" and i: "1 \<le> i" "i \<le> ktotal k"
    and g: "map_of (groups a) k = Some g" and st: "\<not> is_stale now a g"
  shows "\<exists>out a'. add_fragment k line (ktotal k) i now [] False g a = Inr (out, a') \<and> asm_wf a' \<and>
    feed_effect k i line now a out a'"
proof (cases "map_of (fragments g) i")
  case (Some old)
  then show ?thesis by (rule add_fragment_known [OF wf g st])
next
  case None
  have core: "asm_core a" using wf by (simp add: asm_wf_def)
  have "group_ok (ktotal k) g" using core map_of_SomeD [OF g] by (auto simp: asm_core_def)
  then have len: "int (Suc (length (fragments g))) \<le> ktotal k" by (simp add: group_ok_def)
  show ?thesis
  proof (cases "int (Suc (length (fragments g))) = ktotal k")
    case True
    then show ?thesis by (rule add_fragment_complete [OF wf g st i None])
  next
    case False
    with len have "int (Suc (length (fragments g))) < ktotal k" by simp
    from add_fragment_pending [OF core g i None this t, where line = line and ds = "[]"
        and cleaned = False and now = now] wf
    obtain es a' where r: "add_fragment k line (ktotal k) i now [] False g a =
        Inr (mk_outcome PENDING (Some k) [] (sort ([] @ es)) a')"
      "set es \<subseteq> live a - {k}" "live a' = live a - set es" "asm_core a'" "asm_peaks a'"
      "same_config a a'" "\<And>k'. map_of (groups a') k' = (if k' \<in> set es then None else if k' = k
         then Some \<lparr>fragments = fragments g @ [(i, line)], last_progress_at = now\<rparr>
         else map_of (groups a) k')"
      unfolding asm_wf_def asm_peaks_def by metis
    have k: "k \<in> live a" using g keys_map_of by metis
    have "fresh_fragments k now a = fragments g" using g st by (simp add: fresh_fragments_def)
    then have "feed_effect k i line now a (fst (mk_outcome PENDING (Some k) [] (sort ([] @ es)) a'))
        (snd (mk_outcome PENDING (Some k) [] (sort ([] @ es)) a'))"
      using r(2,3,6,7) k None len False by (auto simp: feed_effect_def)
    moreover have "asm_wf (snd (mk_outcome PENDING (Some k) [] (sort ([] @ es)) a'))"
      using r by (simp add: asm_wf_def)
    ultimately show ?thesis using r(1) by (metis prod.collapse)
  qed
qed

lemma add_fragment_new:
  assumes wf: "asm_wf a" and t: "0 < timeout a" and i: "1 \<le> i" "i \<le> ktotal k" and k2: "2 \<le> ktotal k"
    and lim: "within (max_fragments a) (ktotal k)" and d1: "drops ds a a1" and kl: "k \<notin> live a1"
    and fresh: "fresh_fragments k now a = []"
  shows "\<exists>out a'. rbind (new_group k now a1) (\<lambda>(ds', cleaned, g, a2).
      add_fragment k line (ktotal k) i now (ds @ ds') cleaned g a2) = Inr (out, a') \<and> asm_wf a' \<and>
    feed_effect k i line now a out a'"
proof -
  let ?g = "\<lparr>fragments = [], last_progress_at = now\<rparr>"
  have core1: "asm_core a1" using wf drops_core [OF d1] by (simp add: asm_wf_def)
  have "within (max_fragments a1) (ktotal k)" using lim drops_config [OF d1] by (simp add: same_config_def)
  then obtain ds' cleaned a2 where n: "drops ds' a1 a2" "k \<notin> live a2"
    "new_group k now a1 = Inr (ds', cleaned, ?g, a2\<lparr>groups := groups a2 @ [(k, ?g)]\<rparr>)"
    "asm_core (a2\<lparr>groups := groups a2 @ [(k, ?g)]\<rparr>)"
    using new_group_spec [OF core1 kl k2, where now = now] by metis
  let ?b = "a2\<lparr>groups := groups a2 @ [(k, ?g)]\<rparr>"
  have d: "drops (ds @ ds') a a2" by (rule drops_trans [OF d1 n(1)])
  have cfg: "same_config a ?b" using drops_config [OF d] by (simp add: same_config_def)
  have "map_of (groups a2) k = None" using n(2) by (simp add: map_of_keys del: list.set_map)
  then have kb: "map_of (groups ?b) k = Some ?g" by (simp add: map_add_def)
  have pk: "within (max_pending ?b) (int (peak_groups ?b))"
    using wf d by (simp add: asm_wf_def asm_peaks_def drops_def same_config_def)
  have tb: "0 < timeout ?b" using t cfg by (simp add: same_config_def)
  obtain es a' where r: "add_fragment k line (ktotal k) i now (ds @ ds') cleaned ?g ?b =
      Inr (mk_outcome PENDING (Some k) [] (sort ((ds @ ds') @ es)) a')"
    "set es \<subseteq> live ?b - {k}" "live a' = live ?b - set es" "asm_core a'" "asm_peaks a'"
    "same_config ?b a'" "\<And>k'. map_of (groups a') k' = (if k' \<in> set es then None else if k' = k
       then Some \<lparr>fragments = fragments ?g @ [(i, line)], last_progress_at = now\<rparr>
       else map_of (groups ?b) k')"
    using k2 add_fragment_pending [OF n(4) kb i _ _ tb pk, of line now "ds @ ds'" cleaned thesis] that
    by (simp del: list.set_map)
  let ?o = "mk_outcome PENDING (Some k) [] (sort ((ds @ ds') @ es)) a'"
  have lb: "live ?b = insert k (live a2)" by auto
  have mb: "map_of (groups ?b) k' = map_of (groups a2) k'" if "k' \<noteq> k" for k'
    using that by (simp add: map_add_def split: option.splits)
  have "feed_effect k i line now a (fst ?o) (snd ?o)"
    using r(2,3,7) k2 fresh lb mb drops_live [OF d] drops_subset [OF d] drops_map_of [OF d]
      same_config_trans [OF cfg r(6)]
    by (auto simp: feed_effect_def simp del: list.set_map)
  moreover have "asm_wf (snd ?o)" using r by (simp add: asm_wf_def)
  ultimately show ?thesis using n(3) r(1) by (metis (no_types, lifting) case_prod_conv prod.collapse rbind.simps(2))
qed

lemma feed_validated_effect:
  assumes wf: "asm_wf a" and t: "0 < timeout a" and i: "1 \<le> i" "i \<le> tot"
  shows "\<exists>out a'. feed_validated src line tot i seq chan now a = Inr (out, a') \<and> asm_wf a' \<and>
    feed_effect (src, seq, chan, tot) i line now a out a'"
proof -
  let ?k = "(src, seq, chan, tot)"
  have kt [simp]: "ktotal ?k = tot" by (simp add: ktotal_def)
  consider "tot = 1" | m where "tot \<noteq> 1" "max_fragments a = Some m" "m < tot"
    | "2 \<le> tot" "within (max_fragments a) tot"
    using i by (cases "max_fragments a"; cases "tot = 1") (auto, meson not_less)
  then show ?thesis
  proof cases
    case 1
    let ?o = "mk_outcome SINGLE None [line] [] a"
    have "feed_effect ?k i line now a (fst ?o) (snd ?o)" "asm_wf (snd ?o)"
      using 1 wf by (simp_all add: feed_effect_def asm_wf_def ktotal_def)
    moreover have "feed_validated src line tot i seq chan now a = Inr ?o"
      using 1 by (simp add: feed_validated_def)
    ultimately show ?thesis by (metis prod.collapse)
  next
    case 2
    let ?o = "mk_outcome LIMIT_EXCEEDED None [] [] a"
    have "feed_effect ?k i line now a (fst ?o) (snd ?o)" "asm_wf (snd ?o)"
      using 2 wf by (simp_all add: feed_effect_def asm_wf_def)
    moreover have "feed_validated src line tot i seq chan now a = Inr ?o"
      using 2 by (simp add: feed_validated_def)
    ultimately show ?thesis by (metis prod.collapse)
  next
    case 3
    have core: "asm_core a" using wf by (simp add: asm_wf_def)
    obtain ds og a1 where s: "drop_stale ?k now a = Inr (ds, og, a1)" "drops ds a a1"
      "map_of (groups a1) ?k = og" "\<forall>g. og = Some g \<longrightarrow> ds = [] \<and> a1 = a \<and> \<not> is_stale now a g"
      "fresh_fragments ?k now a = (case og of None \<Rightarrow> [] | Some g \<Rightarrow> fragments g)"
      by (rule drop_stale_spec [OF core, of ?k now])
    have red: "feed_validated src line tot i seq chan now a = (case og of
        Some g \<Rightarrow> add_fragment ?k line tot i now ds False g a1
      | None \<Rightarrow> rbind (new_group ?k now a1) (\<lambda>(ds', cleaned, g, a2).
          add_fragment ?k line tot i now (ds @ ds') cleaned g a2))"
      using 3 s(1) by (cases "max_fragments a") (simp_all add: feed_validated_def Let_def)
    show ?thesis
    proof (cases og)
      case (Some g)
      with s(3,4) red add_fragment_live [OF wf t, of i ?k g now line] i show ?thesis by simp
    next
      case None
      then have "?k \<notin> live a1" "fresh_fragments ?k now a = []"
        using s(3,5) by (simp_all add: map_of_keys del: list.set_map)
      with 3 i None red add_fragment_new [OF wf t _ _ _ _ s(2), of i ?k now line] show ?thesis by simp
    qed
  qed
qed

subsection \<open>Reachable assemblers\<close>

lemma feed_validated_keeps:
  assumes "asm_wf a" and "0 < timeout a" and "1 \<le> i" and "i \<le> tot"
    and "feed_validated src line tot i seq chan now a = Inr (out, a')"
  shows "asm_wf a' \<and> timeout a' = timeout a"
  using feed_validated_effect [OF assms(1-4), of src line seq chan now] assms(5)
  by (auto simp: feed_effect_def same_config_def)

text \<open>The parse-once path does to the state what the legacy path does on the text.\<close>

lemma feed_outcome_parse:
  "feed_outcome src line now a =
     (case parse_fragment line of
        None \<Rightarrow> Inr (mk_outcome INVALID None [] [] a)
      | Some fr \<Rightarrow> feed_validated src line (declared_total fr) (ordinal fr) (sequential_id fr) (channel fr) now a)"
  by (auto simp: feed_outcome_def parse_fragment_def Let_def split: option.splits)

lemma mk_outcome_wf:
  "asm_wf a \<Longrightarrow> asm_wf (snd (mk_outcome st k ss ds a)) \<and> timeout (snd (mk_outcome st k ss ds a)) = timeout a"
  by (simp add: asm_wf_def) (simp add: mk_outcome_def)

lemma feed_outcome_wf:
  assumes "asm_wf a" and "0 < timeout a"
  shows "\<exists>out a'. feed_outcome src line now a = Inr (out, a') \<and> asm_wf a' \<and> timeout a' = timeout a"
proof (cases "parse_fragment line")
  case None
  then show ?thesis
    using mk_outcome_wf [OF assms(1), of INVALID None "[]" "[]"] unfolding feed_outcome_parse
    by (metis option.simps(4) prod.collapse)
next
  case (Some fr)
  then have i: "1 \<le> ordinal fr" "ordinal fr \<le> declared_total fr" by (auto simp: parse_fragment_iff)
  with feed_validated_effect [OF assms i] feed_validated_keeps [OF assms i] Some show ?thesis
    by (fastforce simp: feed_outcome_parse)
qed

lemma asm_cleanup_wf:
  assumes "asm_wf a" and "asm_cleanup now a = Inr (ks, a')"
  shows "asm_wf a' \<and> timeout a' = timeout a \<and> drops ks a a'"
proof -
  have "distinct (keys (groups a))" using assms(1) by (simp add: asm_wf_def asm_core_def)
  from asm_cleanup_drops [OF this, of now] assms(2) have d: "drops ks a a'" by auto
  then show ?thesis
    using assms(1) drops_core [OF d] drops_peaks [OF d] drops_config [OF d]
    by (simp add: asm_wf_def same_config_def)
qed

inductive asm_reach :: "assembler \<Rightarrow> bool" where
  init: "assembler_init t mf mp = Inr a \<Longrightarrow> 0 < t \<Longrightarrow> asm_reach a"
| feed: "asm_reach a \<Longrightarrow> feed_outcome src line now a = Inr (out, a') \<Longrightarrow> asm_reach a'"
| cleanup: "asm_reach a \<Longrightarrow> asm_cleanup now a = Inr (ks, a') \<Longrightarrow> asm_reach a'"
| reset: "asm_reach a \<Longrightarrow> asm_reach (snd (assembler_reset a))"

lemma asm_reset_wf: "asm_wf a \<Longrightarrow> asm_wf (snd (assembler_reset a))"
  by (auto simp: assembler_reset_def Let_def asm_wf_def asm_core_def asm_peaks_def n_fragments_def
      intro: within_pos)

lemma asm_reach_wf: "asm_reach a \<Longrightarrow> asm_wf a \<and> 0 < timeout a"
proof (induction rule: asm_reach.induct)
  case (init t mf mp a)
  then show ?case using assembler_init_wf by blast
next
  case (feed a src line now out a')
  then show ?case using feed_outcome_wf [of a src line now] by auto
next
  case (cleanup a now ks a')
  then show ?case using asm_cleanup_wf by auto
next
  case (reset a)
  then show ?case using asm_reset_wf by (auto simp: assembler_reset_def Let_def)
qed

subsection \<open>Reassembly\<close>

text \<open>Feeding the fragments of one message, given as ordinals with their arrival times.\<close>

fun feed_all ::
  "pystr \<Rightarrow> pystr \<Rightarrow> pystr \<Rightarrow> int \<Rightarrow> (int \<Rightarrow> pystr) \<Rightarrow> (int \<times> time) list \<Rightarrow> assembler
     \<Rightarrow> (outcome list \<times> assembler) res" where
  "feed_all src seq chan n text [] a = Inr ([], a)"
| "feed_all src seq chan n text ((i, now) # r) a =
     rbind (feed_validated src (text i) n i seq chan now a) (\<lambda>(out, a').
     rbind (feed_all src seq chan n text r a') (\<lambda>(outs, a''). Inr (out # outs, a'')))"

fun gaps_below :: "time \<Rightarrow> time \<Rightarrow> (int \<times> time) list \<Rightarrow> bool" where
  "gaps_below tmo t [] = True"
| "gaps_below tmo t ((i, u) # r) = (u - t < tmo \<and> gaps_below tmo u r)"

lemma feed_all_partial:
  assumes "asm_wf a" and "0 < timeout a" and "within (max_fragments a) n" and "2 \<le> n"
    and "fresh_fragments (src, seq, chan, n) (snd (hd r)) a = map (\<lambda>i. (i, text i)) ps"
    and "distinct (ps @ map fst r)" and "set (ps @ map fst r) = {1..n}" and "r \<noteq> []"
    and "gaps_below (timeout a) (snd (hd r)) (tl r)"
  shows "\<exists>outs a'. feed_all src seq chan n text r a = Inr (outs, a') \<and> asm_wf a' \<and>
    map o_status outs = replicate (length r - 1) PENDING @ [COMPLETE] \<and>
    sentences (last outs) = map text [1..n] \<and> (src, seq, chan, n) \<notin> live a'"
  using assms
proof (induction r arbitrary: a ps)
  case (Cons p r)
  obtain i now where p: "p = (i, now)" by force
  let ?k = "(src, seq, chan, n)"
  have i: "1 \<le> i" "i \<le> n" using Cons.prems(7) p by auto
  have fresh: "fresh_fragments ?k now a = map (\<lambda>i. (i, text i)) ps" using Cons.prems(5) p by simp
  obtain out a1 where f: "feed_validated src (text i) n i seq chan now a = Inr (out, a1)" "asm_wf a1"
    "feed_effect ?k i (text i) now a out a1"
    using feed_validated_effect [OF Cons.prems(1,2) i] by blast
  have none: "map_of (map (\<lambda>i. (i, text i)) ps) i = None"
    using Cons.prems(6) p by (auto simp: map_of_keys)
  have "int (length (ps @ map fst (p # r))) = n"
    using distinct_card [OF Cons.prems(6)] Cons.prems(4,7) by simp
  then have len: "int (length ps) + 1 + int (length r) = n" by simp
  have same: "same_config a a1" using f(3) by (simp add: feed_effect_def)
  have st: "o_status out \<in> {PENDING, COMPLETE}"
    using f(3) none fresh Cons.prems(3,4) by (cases "o_status out") (auto simp: feed_effect_def ktotal_def)
  show ?case
  proof (cases r)
    case Nil
    then have c: "o_status out = COMPLETE"
      using st f(3) fresh len by (auto simp: feed_effect_def ktotal_def)
    have "sentences out = map (\<lambda>j. if j = i then text i else the (map_of (map (\<lambda>i. (i, text i)) ps) j)) [1..n]"
      using f(3) c fresh by (simp add: feed_effect_def ktotal_def)
    also have "\<dots> = map text [1..n]"
      using Cons.prems(7) p Nil by (auto simp: map_of_map_restrict restrict_map_def)
    finally have "sentences out = map text [1..n]" .
    moreover have "?k \<notin> live a1"
      using f(3) c drops_live [of "[?k]" a a1] by (simp add: feed_effect_def del: list.set_map)
    ultimately show ?thesis using f(1,2) p Nil c by simp
  next
    case (Cons q r')
    then have c: "o_status out = PENDING"
      using st f(3) fresh len by (auto simp: feed_effect_def ktotal_def)
    have g: "map_of (groups a1) ?k =
        Some \<lparr>fragments = map (\<lambda>i. (i, text i)) (ps @ [i]), last_progress_at = now\<rparr>"
      using f(3) c fresh by (simp add: feed_effect_def)
    have gap: "snd q - now < timeout a1" "gaps_below (timeout a1) (snd q) r'"
      using Cons.prems(9) p \<open>r = q # r'\<close> same by (cases q; simp add: same_config_def)+
    then have "fresh_fragments ?k (snd (hd r)) a1 = map (\<lambda>i. (i, text i)) (ps @ [i])"
      using g \<open>r = q # r'\<close> by (simp add: fresh_fragments_def is_stale_def)
    moreover have "distinct ((ps @ [i]) @ map fst r)" "set ((ps @ [i]) @ map fst r) = {1..n}"
      using Cons.prems(6,7) p by auto
    ultimately obtain outs a' where "feed_all src seq chan n text r a1 = Inr (outs, a')" "asm_wf a'"
      "map o_status outs = replicate (length r - 1) PENDING @ [COMPLETE]"
      "sentences (last outs) = map text [1..n]" "?k \<notin> live a'"
      using Cons.IH [OF f(2), of "ps @ [i]"] Cons.prems(2,3,4) same gap \<open>r = q # r'\<close>
      by (auto simp: same_config_def)
    moreover from this(3) have "outs \<noteq> []" by auto
    ultimately show ?thesis using f(1) p c \<open>r = q # r'\<close> by auto
  qed
qed simp

subsection \<open>What an assembler holds\<close>

text \<open>The texts buffered, and that outcomes consist of them and the text just fed.\<close>

definition held :: "assembler \<Rightarrow> pystr set" where
  "held a = {s. \<exists>k g i. (k, g) \<in> set (groups a) \<and> (i, s) \<in> set (fragments g)}"

lemma held_mono: "set (groups a') \<subseteq> set (groups a) \<Longrightarrow> held a' \<subseteq> held a"
  unfolding held_def by blast

lemma fresh_cases:
  obtains "fresh_fragments k now a = []"
  | g where "(k, g) \<in> set (groups a)" "fresh_fragments k now a = fragments g"
proof (cases "map_of (groups a) k")
  case (Some g)
  with that map_of_SomeD [OF Some] show thesis by (cases "is_stale now a g") (simp_all add: fresh_fragments_def)
qed (use that in \<open>simp add: fresh_fragments_def\<close>)

lemma fresh_held: "(i, s) \<in> set (fresh_fragments k now a) \<Longrightarrow> s \<in> held a"
proof (rule fresh_cases [of k now a])
  fix g
  assume "(i, s) \<in> set (fresh_fragments k now a)" "(k, g) \<in> set (groups a)"
    "fresh_fragments k now a = fragments g"
  then show "s \<in> held a" unfolding held_def by (intro CollectI) metis
qed simp

lemma asm_group_ok: "asm_core a \<Longrightarrow> (k, g) \<in> set (groups a) \<Longrightarrow> group_ok (ktotal k) g"
  unfolding asm_core_def by blast

lemma complete_sentences:
  assumes wf: "asm_wf a" and i: "1 \<le> i" "i \<le> ktotal k"
    and none: "map_of (fresh_fragments k now a) i = None"
    and len: "int (Suc (length (fresh_fragments k now a))) = ktotal k" and j: "j \<in> set [1..ktotal k]"
  shows "(if j = i then line else the (map_of (fresh_fragments k now a) j)) \<in> insert line (held a)"
proof -
  let ?fs = "fresh_fragments k now a"
  have "distinct (keys ?fs) \<and> set (keys ?fs) \<subseteq> {1..ktotal k}"
    using wf asm_group_ok [of a k]
    by (rule_tac fresh_cases [of k now a]) (simp, force simp: asm_wf_def group_ok_def)
  moreover have "i \<notin> set (keys ?fs)" using none by (simp add: map_of_keys)
  ultimately have "\<forall>j \<in> set [1..ktotal k]. \<exists>s. map_of (?fs @ [(i, line)]) j = Some s"
    using i len by (intro complete_ordinals) auto
  with j obtain s where s: "map_of (?fs @ [(i, line)]) j = Some s" by blast
  show ?thesis
  proof (cases "j = i")
    case False
    with s have "map_of ?fs j = Some s" by (auto simp: map_add_def split: option.splits if_splits)
    then have "(j, s) \<in> set ?fs" by (rule map_of_SomeD)
    with False \<open>map_of ?fs j = Some s\<close> fresh_held show ?thesis by auto
  qed simp
qed

lemma feed_effect_content:
  assumes wf: "asm_wf a" "asm_wf a'" and eff: "feed_effect k i line now a out a'"
    and i: "1 \<le> i" "i \<le> ktotal k"
  shows "set (sentences out) \<subseteq> insert line (held a)" "held a' \<subseteq> insert line (held a)"
proof -
  show "set (sentences out) \<subseteq> insert line (held a)"
  proof (cases "o_status out")
    case COMPLETE
    then have c: "map_of (fresh_fragments k now a) i = None"
      "int (Suc (length (fresh_fragments k now a))) = ktotal k"
      "sentences out = map (\<lambda>j. if j = i then line else the (map_of (fresh_fragments k now a) j)) [1..ktotal k]"
      using eff by (simp_all add: feed_effect_def)
    show ?thesis
      unfolding c(3) set_map using complete_sentences [OF wf(1) i c(1,2)] by blast
  qed (use eff in \<open>auto simp: feed_effect_def\<close>)
  show "held a' \<subseteq> insert line (held a)"
  proof (cases "o_status out")
    case PENDING
    have dist: "distinct (keys (groups a'))" using wf(2) by (simp add: asm_wf_def asm_core_def)
    have "s \<in> insert line (held a)" if "(k', g) \<in> set (groups a')" "(l, s) \<in> set (fragments g)" for k' g l s
    proof -
      have g: "map_of (groups a') k' = Some g" using that(1) dist by simp
      show ?thesis
      proof (cases "k' = k")
        case True
        with g eff PENDING have "fragments g = fresh_fragments k now a @ [(i, line)]"
          by (simp add: feed_effect_def)
        with that(2) fresh_held [of l s k now a] show ?thesis by auto
      next
        case False
        moreover have "\<forall>k'. k' \<noteq> k \<longrightarrow> map_of (groups a') k' =
            (if k' \<in> set (discarded_keys out) then None else map_of (groups a) k')"
          using eff PENDING by (simp add: feed_effect_def del: split_paired_All)
        ultimately have "map_of (groups a) k' = Some g" using g by (metis option.distinct(1))
        then have "(k', g) \<in> set (groups a)" by (rule map_of_SomeD)
        with that(2) show ?thesis unfolding held_def by blast
      qed
    qed
    then show ?thesis unfolding held_def [of a'] by blast
  next
    case COMPLETE
    then have "drops [k] a a'" using eff by (simp add: feed_effect_def)
    from held_mono [OF drops_groups(1) [OF this]] show ?thesis by blast
  next
    case DUPLICATE
    then have "drops (discarded_keys out) a a'" using eff by (simp add: feed_effect_def)
    from held_mono [OF drops_groups(1) [OF this]] show ?thesis by blast
  next
    case CONFLICT
    then have "drops (discarded_keys out) a a'" using eff by (simp add: feed_effect_def)
    from held_mono [OF drops_groups(1) [OF this]] show ?thesis by blast
  qed (use eff in \<open>auto simp: feed_effect_def held_def\<close>)
qed

subsection \<open>The interface to the owner of per-message metadata\<close>

text \<open>
  A processor keeps metadata per live group, and relies on the assembler to say which groups
  went. The contract: which keys are live after a step, by outcome. What a client may conclude
  is proved here once: metadata kept only for groups reported pending or duplicate, and dropped
  for those reported discarded or completed, never outlives its group.
\<close>

definition admissible :: "parsed \<Rightarrow> bool" where
  "admissible p \<longleftrightarrow> (case ps_fragment p of
     None \<Rightarrow> True
   | Some fr \<Rightarrow> 1 \<le> ordinal fr \<and> ordinal fr \<le> declared_total fr \<and>
       (\<exists>line. decode_frame_slice (ps_frame p) (int (sp_start (sentence_span (ps_match p))))
          (int (sp_end (sentence_span (ps_match p)))) = Inr line))"

text \<open>The domain of a metadata dictionary after an outcome.\<close>

definition context_after :: "outcome \<Rightarrow> akey set \<Rightarrow> akey set" where
  "context_after out d =
     (let d1 = d - set (discarded_keys out);
          d2 = (if o_status out \<in> {PENDING, DUPLICATE, COMPLETE} then d1 \<union> set_option (group_key out) else d1)
      in if o_status out = COMPLETE then d2 - set_option (group_key out) else d2)"

text \<open>The live keys after an outcome.\<close>

definition live_after :: "outcome \<Rightarrow> akey set \<Rightarrow> akey set" where
  "live_after out l =
     (case o_status out of
        PENDING \<Rightarrow> l - set (discarded_keys out) \<union> set_option (group_key out)
      | COMPLETE \<Rightarrow> l - set (discarded_keys out) - set_option (group_key out)
      | _ \<Rightarrow> l - set (discarded_keys out))"

locale correlator =
  fixes step :: "'i \<Rightarrow> time \<Rightarrow> 's \<Rightarrow> (outcome \<times> 's) res"
    and live_keys :: "'s \<Rightarrow> akey set"
    and wf :: "'s \<Rightarrow> bool"
    and ok :: "'i \<Rightarrow> bool"
  assumes step_total: "wf s \<Longrightarrow> ok i \<Longrightarrow> \<exists>out s'. step i now s = Inr (out, s')"
    and step_wf: "wf s \<Longrightarrow> ok i \<Longrightarrow> step i now s = Inr (out, s') \<Longrightarrow> wf s'"
    and live_step: "wf s \<Longrightarrow> ok i \<Longrightarrow> step i now s = Inr (out, s') \<Longrightarrow>
      live_keys s' = live_after out (live_keys s)"
    and duplicate_live: "wf s \<Longrightarrow> ok i \<Longrightarrow> step i now s = Inr (out, s') \<Longrightarrow>
      o_status out = DUPLICATE \<Longrightarrow> set_option (group_key out) \<subseteq> live_keys s'"
begin

lemma context_live:
  assumes "wf s" and "ok i" and "step i now s = Inr (out, s')" and "d \<subseteq> live_keys s"
  shows "context_after out d \<subseteq> live_keys s'"
  using assms(4) live_step [OF assms(1-3)] duplicate_live [OF assms(1-3)]
  by (cases "o_status out") (auto simp: context_after_def live_after_def Let_def)

end

lemma feed_parsed_step:
  assumes "asm_wf a \<and> 0 < timeout a" and "admissible p"
  obtains out a' where "feed_parsed_outcome p now a = Inr (out, a')" "asm_wf a' \<and> 0 < timeout a'"
    "ps_fragment p = None \<Longrightarrow> o_status out = INVALID \<and> discarded_keys out = [] \<and> groups a' = groups a \<and> sentences out = []"
    "\<And>fr. ps_fragment p = Some fr \<Longrightarrow> \<exists>k line. ktotal k = declared_total fr \<and> decode_frame_slice (ps_frame p)
        (int (sp_start (sentence_span (ps_match p)))) (int (sp_end (sentence_span (ps_match p)))) = Inr line \<and>
      feed_effect k (ordinal fr) line now a out a'"
proof (cases "ps_fragment p")
  case None
  let ?o = "mk_outcome INVALID None [] [] a"
  have "feed_parsed_outcome p now a = Inr (fst ?o, snd ?o)"
    using None by (simp add: feed_parsed_outcome_def del: mk_outcome_simps)
  then show thesis
    using mk_outcome_wf [of a INVALID None "[]" "[]"] assms(1) None
    by (intro that [of "fst ?o" "snd ?o"]) auto
next
  case (Some fr)
  then obtain line where l: "decode_frame_slice (ps_frame p) (int (sp_start (sentence_span (ps_match p))))
      (int (sp_end (sentence_span (ps_match p)))) = Inr line"
    and i: "1 \<le> ordinal fr" "ordinal fr \<le> declared_total fr"
    using assms(2) by (auto simp: admissible_def)
  obtain out a' where f: "feed_validated (assembler_key (ps_frame p)) line (declared_total fr) (ordinal fr)
      (sequential_id fr) (channel fr) now a = Inr (out, a')" "asm_wf a'"
    "feed_effect (assembler_key (ps_frame p), sequential_id fr, channel fr, declared_total fr) (ordinal fr) line now a out a'"
    using feed_validated_effect [OF _ _ i] assms(1) by blast
  moreover have "0 < timeout a'" using f(3) assms(1) by (simp add: feed_effect_def same_config_def)
  ultimately show thesis
    using Some l by (intro that [of out a']) (auto simp: feed_parsed_outcome_def ktotal_def)
qed

lemma feed_effect_live:
  assumes "feed_effect k i line now a out a'"
  shows "live a' = live_after out (live a)"
    and "o_status out = DUPLICATE \<Longrightarrow> set_option (group_key out) \<subseteq> live a'"
proof -
  show "live a' = live_after out (live a)"
  proof (cases "o_status out")
    case COMPLETE
    then have "drops [k] a a'" "group_key out = Some k" "discarded_keys out = []"
      using assms by (simp_all add: feed_effect_def)
    with COMPLETE drops_live [of "[k]" a a'] show ?thesis by (simp add: live_after_def)
  next
    case DUPLICATE
    then have "drops (discarded_keys out) a a'" using assms by (simp add: feed_effect_def)
    with DUPLICATE drops_live show ?thesis by (simp add: live_after_def)
  next
    case CONFLICT
    then have "drops (discarded_keys out) a a'" using assms by (simp add: feed_effect_def)
    with CONFLICT drops_live show ?thesis by (simp add: live_after_def)
  qed (use assms in \<open>simp_all add: feed_effect_def live_after_def\<close>)
  assume dup: "o_status out = DUPLICATE"
  then have d: "drops (discarded_keys out) a a'" "k \<notin> set (discarded_keys out)" "group_key out = Some k"
    "map_of (fresh_fragments k now a) i = Some line"
    using assms by (simp_all add: feed_effect_def)
  have "map_of (groups a) k \<noteq> None" using d(4) by (auto simp: fresh_fragments_def split: option.splits)
  then have "k \<in> live a" by (simp add: map_of_keys del: list.set_map)
  with d drops_live [OF d(1)] show "set_option (group_key out) \<subseteq> live a'" by simp
qed

interpretation asm: correlator feed_parsed_outcome live "\<lambda>a. asm_wf a \<and> 0 < timeout a" admissible
proof
  fix a :: assembler and p :: parsed and now :: time and out :: outcome and a' :: assembler
  assume wf: "asm_wf a \<and> 0 < timeout a" and p: "admissible p"
  obtain out0 a0 where f: "feed_parsed_outcome p now a = Inr (out0, a0)" "asm_wf a0 \<and> 0 < timeout a0"
    "ps_fragment p = None \<Longrightarrow> o_status out0 = INVALID \<and> discarded_keys out0 = [] \<and> groups a0 = groups a \<and> sentences out0 = []"
    "\<And>fr. ps_fragment p = Some fr \<Longrightarrow> \<exists>k line. ktotal k = declared_total fr \<and> decode_frame_slice (ps_frame p)
        (int (sp_start (sentence_span (ps_match p)))) (int (sp_end (sentence_span (ps_match p)))) = Inr line \<and>
      feed_effect k (ordinal fr) line now a out0 a0"
    using feed_parsed_step [OF wf p, of now] by metis
  then show "\<exists>out a'. feed_parsed_outcome p now a = Inr (out, a')" by blast
  assume "feed_parsed_outcome p now a = Inr (out, a')"
  with f(1) have o: "out = out0" "a' = a0" by auto
  show "asm_wf a' \<and> 0 < timeout a'" using f(2) o by simp
  have eff: "ps_fragment p = None \<and> o_status out = INVALID \<and> discarded_keys out = [] \<and> groups a' = groups a \<or>
      (\<exists>k i line. feed_effect k i line now a out a')"
    using f(3,4) o by (cases "ps_fragment p") blast+
  then show "live a' = live_after out (live a)"
    using feed_effect_live(1) by (elim disjE exE) (simp add: live_after_def, metis)
  show "set_option (group_key out) \<subseteq> live a'" if "o_status out = DUPLICATE"
    using eff feed_effect_live(2) that by (elim disjE exE) (simp, metis)
qed

subsection \<open>Properties\<close>

text \<open>
  C18. The fragments of one message come out as the sentences of that message in ordinal
  order, whatever the order they arrive in: fed to any reachable assembler that has no live
  group of that key, with gaps below the timeout, all but the last are pending, the last
  completes the message, and its group is gone. The total must be within the fragment limit.
\<close>

theorem reassembly_any_order:
  assumes "asm_reach a" and "(src, seq, chan, n) \<notin> live a" and "within (max_fragments a) n" and "2 \<le> n"
    and "distinct (map fst r)" and "set (map fst r) = {1..n}"
    and "gaps_below (timeout a) (snd (hd r)) (tl r)"
  shows "\<exists>outs a'. feed_all src seq chan n text r a = Inr (outs, a') \<and>
    map o_status outs = replicate (length r - 1) PENDING @ [COMPLETE] \<and>
    sentences (last outs) = map text [1..n] \<and> (src, seq, chan, n) \<notin> live a'"
proof -
  have "map_of (groups a) (src, seq, chan, n) = None"
    using assms(2) by (simp add: map_of_keys del: list.set_map)
  then have "fresh_fragments (src, seq, chan, n) (snd (hd r)) a = map (\<lambda>i. (i, text i)) []"
    by (simp add: fresh_fragments_def)
  moreover have "r \<noteq> []" using assms(4,6) by auto
  ultimately show ?thesis
    using feed_all_partial [of a n src seq chan r "text" "[]"] asm_reach_wf [OF assms(1)] assms(3-7)
    by auto
qed

definition example_assembler :: assembler where
  "example_assembler = \<lparr>timeout = 10, max_fragments = Some 9, max_pending = Some 2, groups = [],
     outcome_counts = (\<lambda>_. 0), as_expired = 0, as_evicted = 0, reset_discarded = 0, as_resets = 0,
     peak_groups = 0, peak_fragments = 0\<rparr>"

lemma example_assembler_reach: "asm_reach example_assembler"
  by (rule asm_reach.init [of 10 "PInt 9" "PInt 2"]) (simp_all add: assembler_init_def example_assembler_def)

lemma reassembly_any_order_witness:
  "\<exists>outs a'. feed_all [7] [1] [65] 3 (\<lambda>i. [nat i]) [(2, 0), (3, 5), (1, 14)] example_assembler = Inr (outs, a') \<and>
     map o_status outs = [PENDING, PENDING, COMPLETE] \<and> sentences (last outs) = [[1], [2], [3]]"
proof -
  have set: "set (map fst [(2::int, 0::time), (3, 5), (1, 14)]) = {1..3}" by auto
  have "[1..3] = [1, 2, 3::int]" by (simp add: upto_rec1)
  moreover have "gaps_below 10 0 [(3, 5), (1, 14)]" by simp
  ultimately show ?thesis
    using reassembly_any_order [OF example_assembler_reach _ _ _ _ set, of "[7]" "[1]" "[65]" "\<lambda>i. [nat i]"]
    by (auto simp: example_assembler_def numeral_2_eq_2)
qed

text \<open>
  One fragment has exactly the effect its outcome reports: feeding a valid fragment never
  raises, and \<open>feed_effect\<close> holds: discarded keys were live and are the groups that vanish;
  a duplicate or conflicting ordinal, a completion, a limit or a single sentence change the
  live groups exactly as documented; a pending fragment adds itself to its group, at its end,
  renews the group's progress time and leaves every other remaining group as it was.
\<close>

theorem feed_has_effect:
  assumes "asm_reach a" and "1 \<le> i" and "i \<le> tot"
  shows "\<exists>out a'. feed_validated src line tot i seq chan now a = Inr (out, a') \<and>
    feed_effect (src, seq, chan, tot) i line now a out a'"
  using feed_validated_effect [OF _ _ assms(2,3)] asm_reach_wf [OF assms(1)] by blast

lemma feed_has_effect_witness:
  "\<exists>out a'. feed_validated [7] [90] 2 1 [1] [65] 0 example_assembler = Inr (out, a') \<and>
     o_status out = PENDING \<and> live a' = {([7], [1], [65], 2)}"
proof -
  have lim: "fresh_fragments ([7], [1], [65], 2) 0 example_assembler = []" "live example_assembler = {}"
    by (simp_all add: fresh_fragments_def example_assembler_def)
  obtain out a' where f: "feed_validated [7] [90] 2 1 [1] [65] 0 example_assembler = Inr (out, a')"
    "feed_effect ([7], [1], [65], 2) 1 [90] 0 example_assembler out a'"
    using feed_has_effect [OF example_assembler_reach, of 1 2] by fastforce
  then have "o_status out = PENDING"
    using lim by (cases "o_status out") (auto simp: feed_effect_def ktotal_def example_assembler_def)
  with f lim show ?thesis by (auto simp: feed_effect_def)
qed

text \<open>
  The assembler stays within its limits: the number of live groups never exceeds the
  configured maximum or its recorded peak, no group holds as many fragments as its total
  (a full group is completed at once), and the recorded peaks bound what is buffered.
\<close>

theorem assembler_bounded:
  assumes "asm_reach a"
  shows "let s = assembler_statistics a in
    within (max_pending a) (int (sa_peak_groups s)) \<and> sa_current_groups s \<le> sa_peak_groups s \<and>
    sa_current_fragments s \<le> sa_peak_fragments s \<and>
    list_all (\<lambda>(k, g). int (length (fragments g)) < ktotal k) (groups a)"
  using asm_reach_wf [OF assms]
  by (auto simp: assembler_statistics_def Let_def asm_wf_def asm_core_def asm_peaks_def group_ok_def
      list_all_iff)

lemma assembler_bounded_witness:
  "within (Some 2) (int (sa_peak_groups (assembler_statistics example_assembler)))"
  using assembler_bounded [OF example_assembler_reach] by (simp add: Let_def example_assembler_def)

text \<open>
  The parse-once path is equivalent to the legacy path: feeding a parsed sentence of a
  well-formed frame does what \<open>feed_outcome\<close> does on the text of its span.
\<close>

theorem feed_parsed_equiv:
  assumes "wf_frame f" and "parse_frame_sentences f vdo = Inr ps" and "p \<in> set ps"
  shows "\<exists>line. decode_frame_slice f (int (sp_start (sentence_span (ps_match p))))
      (int (sp_end (sentence_span (ps_match p)))) = Inr line \<and>
    feed_parsed_outcome p now a = feed_outcome (assembler_key f) line now a"
proof -
  have "ps_frame p = f" "parse_scanned_sentence f (ps_match p) = Inr p"
    using parse_frame_total [OF assms(1), of vdo] assms(2,3) by auto
  then obtain line where "decode_frame_slice f (int (sp_start (sentence_span (ps_match p))))
      (int (sp_end (sentence_span (ps_match p)))) = Inr line" "ps_fragment p = parse_fragment line"
    by (auto simp: parse_scanned_sentence_def rbind_Inr_iff) (metis parsed.select_convs(3))
  with \<open>ps_frame p = f\<close> show ?thesis
    by (auto simp: feed_parsed_outcome_def feed_outcome_parse split: option.splits)
qed

lemma feed_parsed_equiv_witness:
  "let f = \<lparr>fr_kind = [], fr_source_id = [], alias_for_s = None, remote_ip = None, assembler_key = [7],
       payload = example_payload, text_mode = UTF8_IGNORE\<rparr>
   in \<exists>p line. parse_frame_sentences f False = Inr [p] \<and>
     feed_parsed_outcome p 0 example_assembler = feed_outcome [7] line 0 example_assembler"
proof -
  let ?f = "\<lparr>fr_kind = [], fr_source_id = [], alias_for_s = None, remote_ip = None,
    assembler_key = [7], payload = example_payload, text_mode = UTF8_IGNORE\<rparr>"
  have wf: "wf_frame ?f" by (simp add: wf_frame_def)
  have "finditer False 0 (map of_char example_payload) = [(8, 28)]"
    by (simp add: example_payload_def lit_def match_here_def match_head_def talkers_def is_hex_def)
  then obtain p where p: "parse_frame_sentences ?f False = Inr [p]"
    using parse_frame_total [OF wf, of False] by (auto simp: map_eq_Cons_conv)
  from feed_parsed_equiv [OF wf p, of p 0 example_assembler] p show ?thesis by auto
qed

end
