(* ===== verification/SPolicy.thy ===== *)
theory SPolicy
  imports PyText
begin

section \<open>Source values (\<open>core/s_policy.py\<close>)\<close>

text \<open>
  The \<open>s\<close> field of an output TAG block: which candidate wins, and the sanitising every
  candidate goes through. The readers of incoming TAG blocks work on text by index searches.
\<close>

definition safe_char :: "nat \<Rightarrow> bool" where
  "safe_char c \<longleftrightarrow> (65 \<le> c \<and> c \<le> 90) \<or> (97 \<le> c \<and> c \<le> 122) \<or> (48 \<le> c \<and> c \<le> 57) \<or> c = 95"

definition sanitize_s :: "pystr option \<Rightarrow> pystr" where
  "sanitize_s v =
     take 15 (map (\<lambda>c. if safe_char c then c else 95) (strip (case v of None \<Rightarrow> [] | Some s \<Rightarrow> s)))"

text \<open>The truth value of an optional text\<close>

fun truthy :: "'a list option \<Rightarrow> bool" where
  "truthy None = False"
| "truthy (Some s) = (s \<noteq> [])"

fun find_s :: "pystr list \<Rightarrow> pystr option" where
  "find_s [] = None"
| "find_s (pair # pairs) =
     (case partition_at 58 pair of
        None \<Rightarrow> find_s pairs
      | Some (k, v) \<Rightarrow> if k = lit ''s'' then Some v else find_s pairs)"

definition extract_incoming_s :: "pystr option \<Rightarrow> pystr option" where
  "extract_incoming_s raw =
     (case raw of
        None \<Rightarrow> None
      | Some [] \<Rightarrow> None
      | Some (c # cs) \<Rightarrow>
          if c \<noteq> 92 then None
          else case find_from 92 (c # cs) 1 of
            None \<Rightarrow> None
          | Some e \<Rightarrow> find_s (split_on 44 (before_sep 42 (slice (c # cs) 1 e))))"

fun pairs_dict :: "pystr list \<Rightarrow> (pystr \<times> pystr) list \<Rightarrow> (pystr \<times> pystr) list" where
  "pairs_dict [] out = out"
| "pairs_dict (pair # pairs) out =
     (if pair = [] then pairs_dict pairs out
      else case partition_at 58 pair of
        None \<Rightarrow> pairs_dict pairs out
      | Some (k, v) \<Rightarrow> pairs_dict pairs (AList.update k v out))"

definition tag_before :: "pystr \<Rightarrow> nat \<Rightarrow> (pystr \<times> pystr) list" where
  "tag_before raw stop =
     (case rfind 92 raw 0 stop of
        None \<Rightarrow> []
      | Some e \<Rightarrow>
          if e = 0 then []
          else case rfind 92 raw 0 e of
            None \<Rightarrow> []
          | Some b \<Rightarrow> pairs_dict (split_on 44 (before_sep 42 (slice raw (b + 1) e))) [])"

definition parse_last_tag_pairs :: "pystr option \<Rightarrow> (pystr \<times> pystr) list" where
  "parse_last_tag_pairs raw = (case raw of None \<Rightarrow> [] | Some s \<Rightarrow> if s = [] then [] else tag_before s (length s))"

definition parse_tag_pairs_before_index :: "pystr option \<Rightarrow> int \<Rightarrow> (pystr \<times> pystr) list" where
  "parse_tag_pairs_before_index raw idx =
     (case raw of None \<Rightarrow> [] | Some s \<Rightarrow> if s = [] \<or> idx \<le> 0 then [] else tag_before s (nat idx))"

definition extract_g_tuple :: "(pystr \<times> pystr) list \<Rightarrow> (int \<times> int \<times> pystr) option" where
  "extract_g_tuple pairs =
     (case map_of pairs (lit ''g'') of
        None \<Rightarrow> None
      | Some g \<Rightarrow>
          if g = [] then None
          else case split_max 2 45 g of
            [a, b, gid] \<Rightarrow>
              (case (py_int a, py_int b) of (Some x, Some y) \<Rightarrow> Some (x, y, gid) | _ \<Rightarrow> None)
          | _ \<Rightarrow> None)"

definition ip_to_s :: "pystr option \<Rightarrow> pystr" where
  "ip_to_s ip =
     (case ip of
        None \<Rightarrow> lit ''ANONYMOUS''
      | Some s \<Rightarrow>
          if s = [] then lit ''ANONYMOUS''
          else sanitize_s (Some (map (\<lambda>c. if c = 58 then 95 else c) (map (\<lambda>c. if c = 46 then 95 else c) s))))"

definition choose_s_value_from_candidates ::
  "pystr option \<Rightarrow> pystr option \<Rightarrow> pystr option \<Rightarrow> pystr option \<Rightarrow> pystr" where
  "choose_s_value_from_candidates station name incoming ip =
     (if truthy station then sanitize_s station
      else if truthy name \<and> name \<noteq> Some (lit ''ANONYMOUS'') then sanitize_s name
      else if truthy incoming then sanitize_s incoming
      else ip_to_s ip)"

definition choose_s_value :: "pystr option \<Rightarrow> pystr option \<Rightarrow> pystr option \<Rightarrow> pystr option \<Rightarrow> pystr" where
  "choose_s_value station name raw ip =
     choose_s_value_from_candidates station name
       (if \<not> truthy station \<and> (\<not> truthy name \<or> name = Some (lit ''ANONYMOUS''))
        then extract_incoming_s raw else None) ip"

subsection \<open>Every source value is safe\<close>

definition safe_s :: "pystr \<Rightarrow> bool" where
  "safe_s s \<longleftrightarrow> length s \<le> 15 \<and> list_all safe_char s"

lemma sanitize_safe: "safe_s (sanitize_s v)"
  by (auto simp: safe_s_def sanitize_s_def list_all_iff safe_char_def dest!: in_set_takeD)

lemma dropWhile_none: "\<forall>x \<in> set xs. \<not> P x \<Longrightarrow> dropWhile P xs = xs"
  by (cases xs) auto

lemma sanitize_id: "list_all safe_char s \<Longrightarrow> length s \<le> 15 \<Longrightarrow> sanitize_s (Some s) = s"
proof -
  assume a: "list_all safe_char s" "length s \<le> 15"
  then have "\<forall>c \<in> set s. \<not> is_space c" by (auto simp: list_all_iff safe_char_def is_space_def)
  then have "strip s = s"
    by (simp add: strip_def dropWhile_none)
  with a show ?thesis by (auto simp: sanitize_s_def list_all_iff intro: map_idI)
qed

lemma choose_candidates_safe: "safe_s (choose_s_value_from_candidates station name incoming ip)"
  by (auto simp: choose_s_value_from_candidates_def ip_to_s_def sanitize_safe safe_s_def safe_char_def
      lit_def split: option.splits)
    (use sanitize_safe in \<open>auto simp: safe_s_def\<close>)

text \<open>
  Whatever the configured station, the name of the source, the incoming TAG block and the
  peer's address hold, the chosen source value is at most fifteen characters out of letters,
  digits and the underscore, so it can never break the TAG block it is put into; and the
  priority is station, source name, incoming value, address.
\<close>

theorem chosen_s_safe:
  "safe_s (choose_s_value station name raw ip) \<and>
   choose_s_value station name raw ip =
     (if truthy station then sanitize_s station
      else if truthy name \<and> name \<noteq> Some (lit ''ANONYMOUS'') then sanitize_s name
      else if truthy (extract_incoming_s raw) then sanitize_s (extract_incoming_s raw)
      else ip_to_s ip)"
  using choose_candidates_safe by (auto simp: choose_s_value_def) (auto simp: choose_s_value_from_candidates_def)

end
