(* ===== verification/MetaWriter.thy ===== *)
theory MetaWriter
  imports SPolicy ParsedSentence
begin

section \<open>Output TAG blocks (\<open>meta_writer.py\<close>, \<open>core/output_builder.py\<close>)\<close>

text \<open>
  The header put in front of an output sentence and the bytes that leave the mixer. The
  checksum is the exclusive or of the code points, printed in at least two hexadecimal
  digits. A timestamp is absent, a number or a text; when it is absent or falsy the wall
  clock is read, whose reading truncated to seconds is the argument \<open>wall\<close>.
\<close>

unbundle bit_operations_syntax

definition nmea_checksum :: "pystr \<Rightarrow> nat" where
  "nmea_checksum data = foldl (\<lambda>chk c. chk XOR c) 0 data"

definition hex_digit :: "nat \<Rightarrow> nat" where
  "hex_digit d = (if d < 10 then 48 + d else 55 + d)"

fun hex_str :: "nat \<Rightarrow> pystr" where
  "hex_str n = (if n < 16 then [hex_digit n] else hex_str (n div 16) @ [hex_digit (n mod 16)])"

declare hex_str.simps [simp del]

text \<open>\<open>f"{checksum:02X}"\<close>\<close>

definition hex2 :: "nat \<Rightarrow> pystr" where
  "hex2 n = replicate (2 - length (hex_str n)) 48 @ hex_str n"

definition format_header :: "pystr \<Rightarrow> pystr" where
  "format_header content = [92] @ content @ [42] @ hex2 (nmea_checksum content) @ [92]"

datatype timestamp = TsNone | TsInt int | TsStr pystr

fun ts_falsy :: "timestamp \<Rightarrow> bool" where
  "ts_falsy TsNone = True"
| "ts_falsy (TsInt i) = (i = 0)"
| "ts_falsy (TsStr s) = (s = [])"

fun ts_str :: "timestamp \<Rightarrow> pystr" where
  "ts_str TsNone = lit ''None''"
| "ts_str (TsInt i) = int_str i"
| "ts_str (TsStr s) = s"

definition wrap_with_meta ::
  "pystr \<Rightarrow> pystr \<Rightarrow> timestamp \<Rightarrow> bool \<Rightarrow> pystr option \<Rightarrow> int \<Rightarrow> pystr" where
  "wrap_with_meta line station ts is_first g wall =
     (let ts' = (if ts_falsy ts then TsInt wall else ts)
      in if length (split_on 44 line) < 4 then line
         else
           let tag_fields = [lit ''c:'' @ ts_str ts', lit ''s:'' @ station];
               header = (if truthy g
                 then (if is_first then format_header (join 44 (tag_fields @ [lit ''g:'' @ the g]))
                       else format_header (lit ''g:'' @ the g))
                 else format_header (join 44 tag_fields))
           in header @ line)"

definition build_output_bytes ::
  "pystr \<Rightarrow> pystr \<Rightarrow> timestamp \<Rightarrow> bool \<Rightarrow> pystr option \<Rightarrow> int \<Rightarrow> bytes res" where
  "build_output_bytes line station ts is_first g wall =
     encode_strict (wrap_with_meta line station ts is_first g wall @ [13, 10])"

subsection \<open>Headers\<close>

text \<open>What a TAG field of the mixer consists of: no separator, star, backslash or bang.\<close>

definition tag_char :: "nat \<Rightarrow> bool" where
  "tag_char c \<longleftrightarrow> safe_char c \<or> c = 58 \<or> c = 45"

lemma tag_char_bounds: "tag_char c \<Longrightarrow> c < 128 \<and> c \<noteq> 44 \<and> c \<noteq> 42 \<and> c \<noteq> 92 \<and> c \<noteq> 33"
  by (auto simp: tag_char_def safe_char_def)

lemma hex_digit_char: "d < 16 \<Longrightarrow> is_hex (hex_digit d) \<and> safe_char (hex_digit d)"
  by (cases "d < 10") (simp_all add: hex_digit_def is_hex_def safe_char_def)

lemma hex_str_chars: "c \<in> set (hex_str n) \<Longrightarrow> is_hex c \<and> safe_char c"
proof (induction n rule: hex_str.induct)
  case (1 n)
  show ?case
  proof (cases "n < 16")
    case True
    with "1.prems" hex_digit_char show ?thesis by (simp add: hex_str.simps [of n])
  next
    case False
    with "1.prems" have "c \<in> set (hex_str (n div 16)) \<or> c = hex_digit (n mod 16)"
      by (auto simp: hex_str.simps [of n])
    with "1.IH" [OF False] hex_digit_char [of "n mod 16"] show ?thesis by auto
  qed
qed

lemma hex2_chars: "c \<in> set (hex2 n) \<Longrightarrow> is_hex c \<and> safe_char c"
  using hex_str_chars by (auto simp: hex2_def is_hex_def safe_char_def split: if_splits)

lemma nat_str_tag: "c \<in> set (nat_str n) \<Longrightarrow> tag_char c"
  using nat_str_digits [of c n] by (auto simp: tag_char_def safe_char_def)

text \<open>Parsing a header gives the loop over its fields.\<close>

lemma parse_header:
  assumes "fs \<noteq> []" and "\<forall>f \<in> set fs. list_all tag_char f"
  shows "parse_tag_text (format_header (join 44 fs)) =
    (case tag_pairs fs (None, None, None) of
       (s, c, g) \<Rightarrow> \<lparr>s_value = s, c_text = c, c_value = parse_c_value c, g_value = parse_g_value g\<rparr>)"
proof -
  have sep: "44 \<notin> set f" "42 \<notin> set f" if "f \<in> set fs" for f
    using assms(2) that tag_char_bounds by (auto simp: list_all_iff)
  have "set (join 44 fs) \<subseteq> insert 44 (\<Union> (set ` set fs))"
    by (induction "44 :: nat" fs rule: join.induct) auto
  with sep have "42 \<notin> set (join 44 fs)" by auto
  then have "before_sep 42 (butlast (tl (format_header (join 44 fs)))) = join 44 fs"
    by (simp add: format_header_def butlast_append)
  moreover have "split_on 44 (join 44 fs) = fs" by (rule split_on_join) (use assms(1) sep in auto)
  ultimately show ?thesis by (simp add: parse_tag_text_def Let_def)
qed

definition g_text :: "nat \<Rightarrow> nat \<Rightarrow> pystr \<Rightarrow> pystr" where
  "g_text part tot gid = nat_str part @ [45] @ nat_str tot @ [45] @ gid"

definition digits :: "pystr \<Rightarrow> bool" where
  "digits s \<longleftrightarrow> s \<noteq> [] \<and> list_all (\<lambda>c. 48 \<le> c \<and> c \<le> 57) s"

definition printable_int :: "nat \<Rightarrow> bool" where
  "printable_int n \<longleftrightarrow> n < 10 ^ max_str_digits"

lemma py_int_nat_str: "printable_int n \<Longrightarrow> py_int (nat_str n) = Some (int n)"
  using py_int_int_str [of "int n"] by (simp add: int_str_def printable_int_def)

lemma parse_g_text:
  assumes "printable_int part" and "printable_int tot" and "digits gid"
  shows "parse_g_value (Some (g_text part tot gid)) =
    Some \<lparr>gt_part = int part, gt_total = int tot, gt_group_id = gid, preservable_group_id = Some gid\<rparr>"
proof -
  have d: "45 \<notin> set (nat_str n)" for n using nat_str_digits by fastforce
  have "isdigit gid" using assms(3) by (auto simp: digits_def isdigit_def list_all_iff is_digit_ascii)
  moreover have "split_max 2 45 (g_text part tot gid) = [nat_str part, nat_str tot, gid]"
    using d by (simp add: g_text_def numeral_2_eq_2)
  ultimately show ?thesis
    using assms by (simp add: parse_g_value_def py_int_nat_str digits_def)
qed

lemma parse_c_nat: "printable_int n \<Longrightarrow> parse_c_value (Some (nat_str n)) = Some (int n)"
  by (simp add: parse_c_value_def isdigit_nat_str py_int_nat_str)

lemma partition_field [simp]:
  "k \<noteq> 58 \<Longrightarrow> partition_at 58 (k # 58 # v) = Some ([k], v)"
  using partition_at_append [of 58 "[k]" v] by simp

lemma fields_ok:
  assumes "safe_s s" and "digits gid"
  shows "list_all tag_char (lit ''c:'' @ nat_str n)" "list_all tag_char (lit ''s:'' @ s)"
    "list_all tag_char (lit ''g:'' @ g_text part tot gid)"
  using assms nat_str_tag
  by (auto simp: lit_def safe_s_def list_all_iff tag_char_def safe_char_def g_text_def digits_def)

lemma parse_full_header:
  assumes "safe_s s" and "printable_int n" and "printable_int part" and "printable_int tot" and "digits gid"
  shows "parse_tag_text (format_header (join 44
      [lit ''c:'' @ nat_str n, lit ''s:'' @ s, lit ''g:'' @ g_text part tot gid])) =
    \<lparr>s_value = Some s, c_text = Some (nat_str n), c_value = Some (int n),
     g_value = Some \<lparr>gt_part = int part, gt_total = int tot, gt_group_id = gid,
       preservable_group_id = Some gid\<rparr>\<rparr>"
  using fields_ok [OF assms(1,5)]
  by (subst parse_header) (simp_all add: lit_def parse_c_nat parse_g_text assms)

lemma parse_plain_header:
  assumes "safe_s s" and "printable_int n"
  shows "parse_tag_text (format_header (join 44 [lit ''c:'' @ nat_str n, lit ''s:'' @ s])) =
    \<lparr>s_value = Some s, c_text = Some (nat_str n), c_value = Some (int n), g_value = None\<rparr>"
  using fields_ok [OF assms(1), of "[48]"]
  by (subst parse_header) (simp_all add: lit_def parse_c_nat assms digits_def parse_g_value_def)

lemma parse_g_header:
  assumes "printable_int part" and "printable_int tot" and "digits gid"
  shows "parse_tag_text (format_header (join 44 [lit ''g:'' @ g_text part tot gid])) =
    \<lparr>s_value = None, c_text = None, c_value = None,
     g_value = Some \<lparr>gt_part = int part, gt_total = int tot, gt_group_id = gid,
       preservable_group_id = Some gid\<rparr>\<rparr>"
  using fields_ok [of "[]", OF _ assms(3)]
  by (subst parse_header) (simp_all add: lit_def parse_g_text assms safe_s_def parse_c_value_def)

subsection \<open>Reading an output back\<close>

text \<open>A TAG block: two backslashes around ASCII text with neither a backslash nor a bang.\<close>

definition tag_block :: "pystr \<Rightarrow> bool" where
  "tag_block h \<longleftrightarrow> (\<exists>m. h = 92 # m @ [92] \<and> (\<forall>c \<in> set m. c < 128 \<and> c \<noteq> 92 \<and> c \<noteq> 33))"

lemma header_block:
  assumes "\<forall>f \<in> set fs. list_all tag_char f"
  shows "tag_block (format_header (join 44 fs))"
proof -
  have sub: "set (join 44 fs) \<subseteq> insert 44 (\<Union> (set ` set fs))"
    by (induction "44 :: nat" fs rule: join.induct) auto
  have "c < 128 \<and> c \<noteq> 92 \<and> c \<noteq> 33" if "c \<in> set (join 44 fs @ 42 # hex2 (nmea_checksum (join 44 fs)))" for c
  proof -
    have "c = 44 \<or> c = 42 \<or> tag_char c"
      using that sub assms hex2_chars by (auto simp: list_all_iff tag_char_def)
    then show ?thesis using tag_char_bounds by auto
  qed
  then show ?thesis
    unfolding tag_block_def format_header_def
    by (intro exI [of _ "join 44 fs @ 42 # hex2 (nmea_checksum (join 44 fs))"]) simp
qed

lemma tag_block_ascii: "tag_block h \<Longrightarrow> \<forall>c \<in> set h. c < 128 \<and> c \<noteq> 33"
  by (auto simp: tag_block_def)

lemma utf8_enc_ascii: "\<forall>c \<in> set s. c < 128 \<Longrightarrow> utf8_enc s = s"
  by (induction s) (simp_all add: utf8_enc_def utf8_enc1.simps)

lemma utf8_enc_append [simp]: "utf8_enc (s @ t) = utf8_enc s @ utf8_enc t"
  by (simp add: utf8_enc_def)

lemma finditer_skip:
  "33 \<notin> set h \<Longrightarrow> finditer vdo pos (h @ xs) = finditer vdo (pos + length h) xs"
proof (induction h arbitrary: pos)
  case (Cons c h)
  then have "match_here vdo (c # h @ xs) = None"
    by (auto simp: match_here_def match_head_def split: list.splits)
  with Cons show ?case by simp
qed simp

lemma finditer_all:
  assumes "match_here vdo xs = Some (length xs)"
  shows "finditer vdo pos xs = [(pos, pos + length xs)]"
proof (cases xs)
  case Nil
  with assms show ?thesis by (simp add: match_here_def match_head_def split: if_splits list.splits)
next
  case (Cons x xs')
  with finditer_Some [of vdo x xs' "length xs" pos] assms show ?thesis by simp
qed

text \<open>What the scanner can have found: an encoded text that is one shortest match.\<close>

definition scanned_line :: "pystr \<Rightarrow> bool" where
  "scanned_line line \<longleftrightarrow> wf_text line \<and> \<not> list_ex is_surrogate line \<and> 4 \<le> length (split_on 44 line) \<and>
     match_here True (utf8_enc line) = Some (length (utf8_enc line))"

lemma scanned_line_last:
  assumes "scanned_line line"
  shows "line \<noteq> []" "is_hex (last line)"
proof -
  have sent: "is_sentence True (utf8_enc line)"
    using match_here_Some(1) [of True "utf8_enc line"] assms by (simp add: scanned_line_def)
  then obtain h body a b where e: "utf8_enc line = (h @ body @ [42, a]) @ b # []" "is_hex b"
    by (auto simp: is_sentence_def)
  from e(2) have "b < 128" by (auto simp: is_hex_def)
  from utf8_enc_ascii_split [OF e(1) this] obtain u v where "line = u @ b # v" "[] = utf8_enc v" by blast
  moreover from this(2) have "v = []" by (cases v) (auto simp: utf8_enc_def)
  ultimately show "line \<noteq> []" "is_hex (last line)" using e(2) by auto
qed

lemma is_hex_not_space: "is_hex c \<Longrightarrow> \<not> is_space c"
  by (auto simp: is_hex_def is_space_def)

lemma strip_output:
  assumes "tag_block h" and "scanned_line line"
  shows "strip (h @ line @ [13, 10]) = h @ line"
proof -
  have "dropWhile is_space (h @ line @ [13, 10]) = h @ line @ [13, 10]"
    using assms(1) by (auto simp: tag_block_def is_space_def)
  moreover have "dropWhile is_space (rev (h @ line @ [13, 10])) = rev (h @ line)"
    using scanned_line_last [OF assms(2)] is_hex_not_space
    by (cases line rule: rev_cases) (auto simp: is_space_def)
  ultimately show ?thesis by (simp add: strip_def)
qed

lemma tag_of_block:
  assumes "tag_block h"
  shows "tag_of (map char_of (h @ xs)) (length h) = Some (span_of (0, length h))"
proof -
  obtain m where h: "h = 92 # m @ [92]" and m: "\<forall>c \<in> set m. c < 128 \<and> c \<noteq> 92"
    using assms by (auto simp: tag_block_def)
  let ?p = "map char_of (h @ xs) :: bytes"
  have p: "?p ! 0 = char_of (92::nat)" "?p ! (length h - 1) = char_of (92::nat)"
    by (simp_all add: h nth_append)
  have mid: "?p ! i \<noteq> char_of (92::nat)" if "0 < i" "i < length h - 1" for i
  proof -
    have "(h @ xs) ! i = m ! (i - 1)" "i - 1 < length m" using that by (auto simp: h nth_append nth_Cons')
    then have n: "(h @ xs) ! i < 128" "(h @ xs) ! i \<noteq> 92" "i < length (h @ xs)" using m that by auto
    have "?p ! i = char_of ((h @ xs) ! i)" by (rule nth_map [OF n(3)])
    moreover have code: "of_char (char_of k :: char) = k" if "k < 128" for k :: nat using that by simp
    ultimately show ?thesis using n(1,2) code [of 92] code [of "(h @ xs) ! i"] by auto
  qed
  have "rfind (char_of (92::nat)) ?p 0 (length h - 1) = Some 0"
  proof (cases "rfind (char_of (92::nat)) ?p 0 (length h - 1)")
    case None
    with p(1) show ?thesis by (auto simp: rfind_None h)
  next
    case (Some i)
    from rfind_Some(2,4) [OF Some] mid show ?thesis using Some by (cases i) auto
  qed
  moreover have "byte_span (int 0) (int (length h)) = Inr (span_of (0, length h))" "0 < length h"
    by (simp_all add: byte_span_def span_of_def h)
  ultimately show ?thesis using p(2) by (simp add: tag_of_def find_adjacent_tag_def)
qed

text \<open>The one sentence of a datagram that is a TAG block and a scanned line.\<close>

lemma relay:
  assumes h: "tag_block h" and l: "scanned_line line"
  defines "m \<equiv> \<lparr>sentence_span = span_of (length h, length h + length (utf8_enc line)),
    tag_span = Some (span_of (0, length h))\<rparr>"
  shows "\<exists>bs f. encode_strict (h @ line @ [13, 10]) = Inr bs \<and>
    frame_from_udp_datagram bs kind sid al ip k = Inr f \<and>
    parse_frame_sentences f True =
      Inr [\<lparr>ps_frame = f, ps_match = m, ps_fragment = parse_fragment line, ps_tag = parse_tag_text h\<rparr>] \<and>
    decode_frame_slice f (int (length h)) (int (length h + length (utf8_enc line))) = Inr line"
proof -
  have ascii: "\<forall>c \<in> set h. c < 128" "33 \<notin> set h" using tag_block_ascii [OF h] by auto
  have line: "wf_text line" "\<not> list_ex is_surrogate line"
    and match: "match_here True (utf8_enc line) = Some (length (utf8_enc line))"
    using l by (auto simp: scanned_line_def)
  have hs: "wf_text h" "\<not> list_ex is_surrogate h"
    using ascii(1) by (auto simp: wf_text_def list_all_iff list_ex_iff is_surrogate_def)
  let ?out = "h @ line @ [13, 10]"
  have wf: "wf_text ?out" "\<not> list_ex is_surrogate ?out" "wf_text (h @ line)" "\<not> list_ex is_surrogate (h @ line)"
    using hs line by (auto simp: is_surrogate_def)
  let ?p = "encode_surrogatepass (h @ line)"
  obtain f where f: "frame_from_udp_datagram (encode_surrogatepass ?out) kind sid al ip k = Inr f"
    "payload f = ?p" "text_mode f = UTF8_IGNORE"
    using decode_encode_strict [OF wf(1), of _ Ignore] wf strip_output [OF h l]
    by (simp add: frame_from_udp_datagram_def encode_strict_def)
  have enc: "?p = map char_of (h @ utf8_enc line)"
    using utf8_enc_ascii [OF ascii(1)] by (simp add: encode_surrogatepass_def)
  have codes: "map of_char ?p = h @ utf8_enc line"
    using wf(3) utf8_enc_ascii [OF ascii(1)] by simp
  let ?n = "length (utf8_enc line)"
  have scan: "finditer True 0 (map of_char (payload f)) = [(length h, length h + ?n)]"
    using finditer_skip [OF ascii(2), of True 0] finditer_all [OF match] by (simp add: f(2) codes)
  have tag: "tag_of (payload f) (length h) = Some (span_of (0, length h))"
    using tag_of_block [OF h] by (simp add: f(2) enc)
  have "slice ?p 0 (length h) = encode_surrogatepass h" "slice ?p (length h) (length h + ?n) = encode_surrogatepass line"
    using utf8_enc_ascii [OF ascii(1)] by (simp_all add: enc slice_def encode_surrogatepass_def)
  moreover have "length ?p = length h + ?n" by (simp add: enc)
  ultimately have dec: "decode_frame_slice f (int (length h)) (int (length h + ?n)) = Inr line"
    "decode_frame_slice f 0 (int (length h)) = Inr h"
    using f(2,3) decode_encode_strict [OF line(1), of _ Ignore] decode_encode_strict [OF hs(1), of _ Ignore]
      line(2) hs(2) by (simp_all add: decode_frame_slice_def encode_strict_def nat_add_distrib)
  obtain ps where ps: "parse_frame_sentences f True = Inr ps" "map ps_match ps = [m]"
    "\<forall>p \<in> set ps. parse_scanned_sentence f (ps_match p) = Inr p"
    using parse_frame_total [of f True] f(3) scan tag by (auto simp: wf_frame_def m_def)
  then obtain p where p: "ps = [p]" "parse_scanned_sentence f m = Inr p" by auto
  then have "p = \<lparr>ps_frame = f, ps_match = m, ps_fragment = parse_fragment line, ps_tag = parse_tag_text h\<rparr>"
    using dec by (auto simp: parse_scanned_sentence_def parse_tag_metadata_def m_def span_of_def rbind_Inr_iff)
  with f(1) ps(1) p dec(1) wf(2) show ?thesis by (auto simp: encode_strict_def)
qed

subsection \<open>Properties\<close>


definition example_line :: pystr where
  "example_line = lit ''!AIVDM,2,1,3,A,x,0*5A''"

lemma example_line_scanned: "scanned_line example_line"
  by (simp add: scanned_line_def example_line_def lit_def wf_text_def is_surrogate_def utf8_enc_def
      utf8_enc1.simps match_here_def match_head_def talkers_def is_hex_def)

lemma printable_small: "n < 10 \<Longrightarrow> printable_int n"
proof -
  assume "n < 10"
  also have "(10::nat) \<le> 10 ^ max_str_digits"
    by (rule self_le_power) (simp_all add: max_str_digits_def)
  finally show ?thesis by (simp add: printable_int_def)
qed


text \<open>
  Encoding the output is where a lone surrogate is refused: a sentence that carries one
  (which the surrogate-preserving text mode lets in) makes \<open>build_output_bytes\<close> raise
  \<open>UnicodeEncodeError\<close>, and any other sentence is encoded.
\<close>

theorem output_encodes_iff:
  assumes "safe_s s" and "0 < n"
  shows "build_output_bytes line s (TsInt n) True None wall =
    (if list_ex is_surrogate line then Inl UnicodeEncodeError
     else Inr (encode_surrogatepass (wrap_with_meta line s (TsInt n) True None wall @ [13, 10])))"
proof -
  let ?fs = "[lit ''c:'' @ nat_str (nat n), lit ''s:'' @ s]"
  have "tag_block (format_header (join 44 ?fs))"
    using fields_ok [OF assms(1), of "[48]"] by (intro header_block) (simp add: digits_def)
  then have "\<not> list_ex is_surrogate (format_header (join 44 ?fs))"
    using tag_block_ascii by (fastforce simp: list_ex_iff is_surrogate_def)
  moreover have "wrap_with_meta line s (TsInt n) True None wall =
      (if length (split_on 44 line) < 4 then line else format_header (join 44 ?fs) @ line)"
    using assms(2) by (simp add: wrap_with_meta_def Let_def int_str_def)
  moreover have "\<not> is_surrogate 13" "\<not> is_surrogate 10" by (simp_all add: is_surrogate_def)
  ultimately show ?thesis by (simp add: build_output_bytes_def encode_strict_def)
qed

lemma output_encodes_iff_witness:
  "build_output_bytes (lit ''!AIVDM,1,1,,A,'' @ [0xD800] @ lit '',0*00'') (lit ''a'') (TsInt 5) True None 0 =
     Inl UnicodeEncodeError"
proof -
  have "safe_s (lit ''a'')" by (simp add: safe_s_def lit_def safe_char_def)
  from output_encodes_iff [OF this, of 5] show ?thesis by (simp add: is_surrogate_def)
qed

text \<open>
  The checksum is taken over code points: a preserved group id of non-ASCII digits, which
  \<open>isdigit\<close> accepts, yields a checksum of more than two hexadecimal digits.
\<close>

theorem non_ascii_gid_checksum:
  "parse_g_value (Some (lit ''1-1-'' @ [0x661])) =
     Some \<lparr>gt_part = 1, gt_total = 1, gt_group_id = [0x661], preservable_group_id = Some [0x661]\<rparr> \<and>
   length (hex2 (nmea_checksum (lit ''g:1-1-'' @ [0x661]))) = 3"
proof
  have "py_int (lit ''1'') = Some 1" using py_int_nat_str [of 1] printable_small [of 1]
    by (simp add: lit_def nat_str.simps)
  then show "parse_g_value (Some (lit ''1-1-'' @ [0x661])) =
      Some \<lparr>gt_part = 1, gt_total = 1, gt_group_id = [0x661], preservable_group_id = Some [0x661]\<rparr>"
    by (simp add: parse_g_value_def lit_def partition_at_def before_sep_def isdigit_def is_digit_def
        decimal_value_def decimal_zeros_def numeral_2_eq_2)
  show "length (hex2 (nmea_checksum (lit ''g:1-1-'' @ [0x661]))) = 3"
    by (simp add: nmea_checksum_def lit_def hex2_def hex_str.simps)
qed

end
