(* ===== verification/Metrics.thy ===== *)
theory Metrics
  imports Prelude
begin

section \<open>Metric snapshots (\<open>core/metrics.py\<close>) and traffic owners (\<open>core/runtime_statistics.py\<close>)\<close>

text \<open>
  The validating constructors (\<open>__post_init__\<close>) of the immutable snapshots: the counters are
  checked field by field, then the relations between them. The arguments are dynamically
  typed; a snapshot that is constructed holds numbers.
\<close>

text \<open>One counter: an int that is not a bool, and not negative.\<close>

fun counter :: "pyval \<Rightarrow> int res" where
  "counter (PInt i) = (if i < 0 then Inl ValueError else Inr i)"
| "counter _ = Inl TypeError"

text \<open>A name: a string, and not empty.\<close>

fun name_field :: "pyval \<Rightarrow> pystr res" where
  "name_field (PStr s) = (if s = [] then Inl ValueError else Inr s)"
| "name_field _ = Inl TypeError"

record queue_metrics =
  qm_name :: pystr
  qm_capacity :: int
  qm_depth :: int
  qm_peak_depth :: int
  qm_enqueued :: int
  qm_dequeued :: int
  qm_put_waits :: int
  qm_current_put_waiters :: int

text \<open>The seven counters in the order of the fields.\<close>

definition queue_snapshot :: "pyval \<Rightarrow> pyval list \<Rightarrow> queue_metrics res" where
  "queue_snapshot name values =
     rbind (name_field name) (\<lambda>n. rbind (rmap counter values) (\<lambda>xs.
       case xs of
         [capacity, depth, peak, enq, deq, waits, waiters] \<Rightarrow>
           if capacity < 1 then Inl ValueError
           else if capacity < depth then Inl ValueError
           else if peak < depth then Inl ValueError
           else if capacity < peak then Inl ValueError
           else if enq < deq then Inl ValueError
           else if enq - deq \<noteq> depth then Inl ValueError
           else if waits < waiters then Inl ValueError
           else Inr \<lparr>qm_name = n, qm_capacity = capacity, qm_depth = depth, qm_peak_depth = peak,
                     qm_enqueued = enq, qm_dequeued = deq, qm_put_waits = waits,
                     qm_current_put_waiters = waiters\<rparr>
       | _ \<Rightarrow> Inl TypeError))"

record processor_metrics =
  pm_process_calls :: int
  pm_process_completed :: int
  pm_process_failed :: int
  pm_process_in_flight :: int
  pm_outputless_calls :: int
  pm_output_batches :: int
  pm_output_messages :: int
  pm_reset_calls :: int
  pm_reset_completed :: int
  pm_reset_failed :: int
  pm_reset_in_flight :: int

definition processor_snapshot :: "pyval list \<Rightarrow> processor_metrics res" where
  "processor_snapshot values =
     rbind (rmap counter values) (\<lambda>xs.
       case xs of
         [calls, completed, failed, flight, outputless, batches, messages, rcalls, rcompleted, rfailed, rflight] \<Rightarrow>
           if calls \<noteq> completed + failed + flight then Inl ValueError
           else if completed \<noteq> outputless + batches then Inl ValueError
           else if messages < batches then Inl ValueError
           else if rcalls \<noteq> rcompleted + rfailed + rflight then Inl ValueError
           else Inr \<lparr>pm_process_calls = calls, pm_process_completed = completed, pm_process_failed = failed,
                     pm_process_in_flight = flight, pm_outputless_calls = outputless,
                     pm_output_batches = batches, pm_output_messages = messages,
                     pm_reset_calls = rcalls, pm_reset_completed = rcompleted,
                     pm_reset_failed = rfailed, pm_reset_in_flight = rflight\<rparr>
       | _ \<Rightarrow> Inl TypeError)"

record egress_metrics =
  em_batches_started :: int
  em_batches_completed :: int
  em_batches_failed :: int
  em_batches_cancelled :: int
  em_active_batches :: int
  em_outputs_started :: int
  em_outputs_completed :: int
  em_outputs_failed :: int
  em_outputs_cancelled :: int
  em_active_outputs :: int

definition egress_snapshot :: "pyval list \<Rightarrow> egress_metrics res" where
  "egress_snapshot values =
     rbind (rmap counter values) (\<lambda>xs.
       case xs of
         [bs, bc, bf, bx, ba, os, oc, off, ox, oa] \<Rightarrow>
           if bs \<noteq> bc + bf + bx + ba then Inl ValueError
           else if os \<noteq> oc + off + ox + oa then Inl ValueError
           else Inr \<lparr>em_batches_started = bs, em_batches_completed = bc, em_batches_failed = bf,
                     em_batches_cancelled = bx, em_active_batches = ba, em_outputs_started = os,
                     em_outputs_completed = oc, em_outputs_failed = off, em_outputs_cancelled = ox,
                     em_active_outputs = oa\<rparr>
       | _ \<Rightarrow> Inl TypeError)"

record input_traffic_metrics =
  it_name :: pystr
  it_kind :: pystr
  it_transport_packets :: int
  it_transport_bytes :: int
  it_accepted_frames :: int
  it_payload_bytes :: int

definition input_traffic_snapshot_of :: "pyval \<Rightarrow> pyval \<Rightarrow> pyval list \<Rightarrow> input_traffic_metrics res" where
  "input_traffic_snapshot_of name kind values =
     rbind (name_field name) (\<lambda>n.
     case kind of
       PStr k \<Rightarrow>
         if k \<notin> {lit ''udp'', lit ''udpsec''} then Inl ValueError
         else rbind (rmap counter values) (\<lambda>xs.
           case xs of
             [packets, octets, frames, payload] \<Rightarrow>
               Inr \<lparr>it_name = n, it_kind = k, it_transport_packets = packets, it_transport_bytes = octets,
                    it_accepted_frames = frames, it_payload_bytes = payload\<rparr>
           | _ \<Rightarrow> Inl TypeError)
     | _ \<Rightarrow> Inl TypeError)"

record output_traffic_metrics =
  ot_target_id :: int
  ot_name :: "pystr option"
  ot_dispatch_attempts :: int
  ot_dispatch_completed :: int
  ot_dispatch_failed :: int
  ot_messages :: int
  ot_bytes :: int

definition output_traffic_snapshot_of :: "pyval \<Rightarrow> pyval \<Rightarrow> pyval list \<Rightarrow> output_traffic_metrics res" where
  "output_traffic_snapshot_of target name values =
     rbind (counter target) (\<lambda>t.
     rbind (case name of PNone \<Rightarrow> Inr None | _ \<Rightarrow> rbind (name_field name) (\<lambda>n. Inr (Some n))) (\<lambda>n.
     rbind (rmap counter values) (\<lambda>xs.
       case xs of
         [attempts, completed, failed, messages, octets] \<Rightarrow>
           Inr \<lparr>ot_target_id = t, ot_name = n, ot_dispatch_attempts = attempts,
                ot_dispatch_completed = completed, ot_dispatch_failed = failed,
                ot_messages = messages, ot_bytes = octets\<rparr>
       | _ \<Rightarrow> Inl TypeError)))"

text \<open>The aggregate over all owners; its parts are typed here, as its own checks demand.\<close>

record runtime_statistics =
  rs_ingress_queues :: "queue_metrics list"
  rs_processing_queue :: queue_metrics
  rs_processor :: processor_metrics
  rs_egress_queue :: queue_metrics
  rs_egress_operations :: egress_metrics

subsection \<open>Owners\<close>

text \<open>Pulling from the owners in order: each owner is its \<open>metrics_snapshot\<close>.\<close>

definition provider_snapshot ::
  "(unit \<Rightarrow> queue_metrics res) list \<Rightarrow> (unit \<Rightarrow> queue_metrics res) \<Rightarrow> (unit \<Rightarrow> processor_metrics res)
     \<Rightarrow> (unit \<Rightarrow> queue_metrics res) \<Rightarrow> (unit \<Rightarrow> egress_metrics res) \<Rightarrow> runtime_statistics res" where
  "provider_snapshot ingress processing proc egress operations =
     rbind (rmap (\<lambda>s. s ()) ingress) (\<lambda>i. rbind (processing ()) (\<lambda>q. rbind (proc ()) (\<lambda>p.
     rbind (egress ()) (\<lambda>e. rbind (operations ()) (\<lambda>ops.
       Inr \<lparr>rs_ingress_queues = i, rs_processing_queue = q, rs_processor = p, rs_egress_queue = e,
            rs_egress_operations = ops\<rparr>)))))"

definition provider_inputs :: "(unit \<Rightarrow> input_traffic_metrics res) list \<Rightarrow> input_traffic_metrics list res" where
  "provider_inputs sources = rmap (\<lambda>s. s ()) sources"

definition provider_outputs :: "(unit \<Rightarrow> output_traffic_metrics list res) option \<Rightarrow> output_traffic_metrics list res" where
  "provider_outputs source = (case source of None \<Rightarrow> Inr [] | Some s \<Rightarrow> s ())"

record input_traffic =
  in_name :: pystr
  in_kind :: pystr
  transport_packets :: nat
  transport_bytes :: nat
  accepted_frames :: nat
  payload_bytes :: nat

definition input_traffic_init :: "pyval \<Rightarrow> pyval \<Rightarrow> input_traffic res" where
  "input_traffic_init name kind =
     rbind (input_traffic_snapshot_of name kind [PInt 0, PInt 0, PInt 0, PInt 0]) (\<lambda>s.
       Inr \<lparr>in_name = it_name s, in_kind = it_kind s, transport_packets = 0, transport_bytes = 0,
            accepted_frames = 0, payload_bytes = 0\<rparr>)"

definition transport_received :: "bytes \<Rightarrow> input_traffic \<Rightarrow> input_traffic" where
  "transport_received data t =
     t\<lparr>transport_packets := Suc (transport_packets t), transport_bytes := transport_bytes t + length data\<rparr>"

definition frame_accepted :: "bytes \<Rightarrow> input_traffic \<Rightarrow> input_traffic" where
  "frame_accepted data t =
     t\<lparr>accepted_frames := Suc (accepted_frames t), payload_bytes := payload_bytes t + length data\<rparr>"

definition input_traffic_snapshot :: "input_traffic \<Rightarrow> input_traffic_metrics res" where
  "input_traffic_snapshot t =
     input_traffic_snapshot_of (PStr (in_name t)) (PStr (in_kind t))
       [PInt (int (transport_packets t)), PInt (int (transport_bytes t)),
        PInt (int (accepted_frames t)), PInt (int (payload_bytes t))]"

subsection \<open>Valid snapshots\<close>

lemma counter_nat [simp]: "counter (PInt (int n)) = Inr (int n)"
  by simp

lemma processor_snapshot_ok:
  assumes "calls = completed + failed + flight" and "completed = outputless + batches"
    and "batches \<le> messages" and "rcalls = rcompleted + rfailed + rflight"
  shows "\<exists>m. processor_snapshot (map (\<lambda>n. PInt (int n))
      [calls, completed, failed, flight, outputless, batches, messages, rcalls, rcompleted, rfailed, rflight])
    = Inr m"
  using assms by (simp add: processor_snapshot_def)

lemma input_traffic_reach_ok:
  "input_traffic_init name kind = Inr t \<Longrightarrow> in_name t \<noteq> [] \<and> in_kind t \<in> {lit ''udp'', lit ''udpsec''}"
  by (cases name; cases kind)
    (auto simp: input_traffic_init_def input_traffic_snapshot_of_def rbind_Inr_iff split: if_splits)

lemma input_traffic_snapshot_total:
  "in_name t \<noteq> [] \<Longrightarrow> in_kind t \<in> {lit ''udp'', lit ''udpsec''} \<Longrightarrow> \<exists>s. input_traffic_snapshot t = Inr s"
  by (auto simp: input_traffic_snapshot_def input_traffic_snapshot_of_def)

end
