(* ===== verification/DataPlane.thy ===== *)
theory DataPlane
  imports Metrics
begin

section \<open>Data-plane contracts (\<open>core/data_plane.py\<close>)\<close>

text \<open>
  The immutable values handed to and from a processor, with their validating constructors.
  Target ids are numbers; a snapshot has each at most once. An iterable argument is a list
  or a dictionary (its keys).
\<close>

datatype dedup_mode = GLOBAL | PER_TARGET

text \<open>\<open>_validate_numeric_target_ids\<close>\<close>

fun target_ids_of :: "pyval list \<Rightarrow> int list res" where
  "target_ids_of [] = Inr []"
| "target_ids_of (v # vs) =
     (case v of
        PInt i \<Rightarrow> if i < 0 then Inl ValueError else rbind (target_ids_of vs) (\<lambda>is. Inr (i # is))
      | _ \<Rightarrow> Inl TypeError)"

fun iterate :: "pyval \<Rightarrow> pyval list res" where
  "iterate (PList vs) = Inr vs"
| "iterate (PDict kvs) = Inr (map fst kvs)"
| "iterate _ = Inl TypeError"

record snapshot =
  routing_generation :: int
  mode :: dedup_mode
  target_ids :: "int list"

text \<open>\<open>None\<close> stands for a mode argument that is no \<open>DeduplicationMode\<close>.\<close>

definition processing_snapshot :: "pyval \<Rightarrow> dedup_mode option \<Rightarrow> pyval \<Rightarrow> snapshot res" where
  "processing_snapshot gen md ids =
     (case as_int gen of
        None \<Rightarrow> Inl TypeError
      | Some g \<Rightarrow>
          if g < 0 then Inl ValueError
          else (case md of
            None \<Rightarrow> Inl TypeError
          | Some m \<Rightarrow> rbind (iterate ids) (\<lambda>vs. rbind (target_ids_of vs) (\<lambda>ts.
              if distinct ts then Inr \<lparr>routing_generation = g, mode = m, target_ids = ts\<rparr>
              else Inl ValueError))))"

record out_msg =
  message :: bytes
  out_targets :: "int list"

definition processor_output :: "bytes \<Rightarrow> int list \<Rightarrow> out_msg res" where
  "processor_output msg ts =
     rbind (target_ids_of (map PInt ts)) (\<lambda>is. Inr \<lparr>message = msg, out_targets = is\<rparr>)"

record reset_report =
  assembler_groups_discarded :: int
  dedup_entries_discarded :: int
  source_entries_discarded :: int
  s_contexts_discarded :: int
  c_contexts_discarded :: int
  gid_contexts_discarded :: int

definition processor_reset_report :: "pyval list \<Rightarrow> reset_report res" where
  "processor_reset_report values =
     rbind (rmap counter values) (\<lambda>xs.
       case xs of
         [a, d, s, cs, cc, cg] \<Rightarrow>
           Inr \<lparr>assembler_groups_discarded = a, dedup_entries_discarded = d, source_entries_discarded = s,
                s_contexts_discarded = cs, c_contexts_discarded = cc, gid_contexts_discarded = cg\<rparr>
       | _ \<Rightarrow> Inl TypeError)"

definition wf_snapshot :: "snapshot \<Rightarrow> bool" where
  "wf_snapshot s \<longleftrightarrow> 0 \<le> routing_generation s \<and> distinct (target_ids s) \<and> (\<forall>t \<in> set (target_ids s). 0 \<le> t)"

lemma target_ids_of_Inr: "target_ids_of vs = Inr ts \<longleftrightarrow> vs = map PInt ts \<and> (\<forall>t \<in> set ts. 0 \<le> t)"
  by (induction vs arbitrary: ts) (auto simp: rbind_Inr_iff split: pyval.splits)

lemma processing_snapshot_wf: "processing_snapshot g m ids = Inr s \<Longrightarrow> wf_snapshot s"
  by (auto simp: processing_snapshot_def rbind_Inr_iff target_ids_of_Inr wf_snapshot_def
      split: option.splits if_splits)

lemma processor_output_ok:
  "\<forall>t \<in> set ts. 0 \<le> t \<Longrightarrow> processor_output msg ts = Inr \<lparr>message = msg, out_targets = ts\<rparr>"
  using target_ids_of_Inr [of "map PInt ts" ts] by (simp add: processor_output_def)

end
