(* ===== verification/Processor.thy ===== *)
theory Processor
  imports Assembler MetaWriter Metrics DataPlane Dedup TtlMap
    "HOL-Library.Sublist"
begin

section \<open>The data-plane processor (\<open>core/python_data_plane.py\<close>)\<close>

text \<open>
  One processor owns an assembler, a deduplicator, the source state and three dictionaries of
  metadata per multipart key. \<open>process\<close> runs one frame: parse, assemble, keep or drop metadata,
  choose timestamp and group id, deduplicate, emit. What a Python call leaves behind when it
  raises matters (the counters), so an operation returns the state together with a value or an
  exception. External readings (clocks, the group id generator) come from an environment,
  indexed by the number of readings made so far.
\<close>

record proc_config =
  cf_station :: "pystr option"
  preserve_c :: bool
  preserve_gid :: bool
  always_tag_single :: bool
  gid_digits :: int

datatype logical = Single pystr | Multi "pystr list"

record processor =
  config :: proc_config
  asm :: assembler
  ded :: "(int, logical) dedup"
  src :: source_state
  s_ctx :: "(akey \<times> pystr) list"
  c_ctx :: "(akey \<times> int) list"
  gid_ctx :: "(akey \<times> pystr list) list"
  process_calls :: nat
  process_completed :: nat
  process_failed :: nat
  process_in_flight :: nat
  outputless_calls :: nat
  output_batches :: nat
  output_messages :: nat
  reset_calls :: nat
  reset_completed :: nat
  reset_failed :: nat
  reset_in_flight :: nat
  ticks :: nat

record environment =
  mono :: "nat \<Rightarrow> time"
  mono_ns :: "nat \<Rightarrow> int"
  wall_clock :: "nat \<Rightarrow> int"
  gid_generator :: "int \<Rightarrow> nat \<Rightarrow> pystr"

text \<open>\<open>_generate_numeric_gid_fixed\<close>, with \<open>randbelow\<close> as the argument \<open>r\<close>\<close>

definition numeric_gid :: "nat \<Rightarrow> nat \<Rightarrow> pystr" where
  "numeric_gid width r = (let base = 10 ^ (width - 1) in nat_str (base + r))"

definition processor_init ::
  "proc_config \<Rightarrow> assembler \<Rightarrow> (int, logical) dedup \<Rightarrow> source_state \<Rightarrow> processor" where
  "processor_init cfg a d s =
     \<lparr>config = cfg, asm = a, ded = d, src = s, s_ctx = [], c_ctx = [], gid_ctx = [],
      process_calls = 0, process_completed = 0, process_failed = 0, process_in_flight = 0,
      outputless_calls = 0, output_batches = 0, output_messages = 0, reset_calls = 0,
      reset_completed = 0, reset_failed = 0, reset_in_flight = 0, ticks = 0\<rparr>"

definition tick :: "processor \<Rightarrow> nat \<times> processor" where
  "tick p = (ticks p, p\<lparr>ticks := Suc (ticks p)\<rparr>)"

subsection \<open>Metadata\<close>

definition discard_one :: "akey \<Rightarrow> processor \<Rightarrow> processor" where
  "discard_one k p = p\<lparr>s_ctx := AList.delete k (s_ctx p), c_ctx := AList.delete k (c_ctx p),
     gid_ctx := AList.delete k (gid_ctx p)\<rparr>"

definition discard_contexts :: "akey list \<Rightarrow> processor \<Rightarrow> processor" where
  "discard_contexts ks p = fold discard_one ks p"

definition ingress_gid :: "parsed \<Rightarrow> pystr option" where
  "ingress_gid ps = (case g_value (ps_tag ps) of None \<Rightarrow> None | Some g \<Rightarrow> preservable_group_id g)"

definition valid_c :: "processor \<Rightarrow> parsed \<Rightarrow> int option" where
  "valid_c p ps = (if preserve_c (config p) then c_value (ps_tag ps) else None)"

definition note_c :: "outcome \<Rightarrow> parsed \<Rightarrow> processor \<Rightarrow> processor" where
  "note_c out ps p =
     (case (group_key out, valid_c p ps) of
        (Some k, Some c) \<Rightarrow>
          if o_status out \<in> {PENDING, DUPLICATE, COMPLETE}
          then p\<lparr>c_ctx := AList.update k
            (case map_of (c_ctx p) k of None \<Rightarrow> c | Some previous \<Rightarrow> min previous c) (c_ctx p)\<rparr>
          else p
      | _ \<Rightarrow> p)"

definition note_gid :: "outcome \<Rightarrow> parsed \<Rightarrow> processor \<Rightarrow> processor" where
  "note_gid out ps p =
     (case (group_key out, ingress_gid ps) of
        (Some k, Some g) \<Rightarrow>
          if o_status out \<in> {PENDING, DUPLICATE, COMPLETE} \<and> preserve_gid (config p)
          then p\<lparr>gid_ctx := AList.update k
            (List.insert g (case map_of (gid_ctx p) k of None \<Rightarrow> [] | Some gs \<Rightarrow> gs)) (gid_ctx p)\<rparr>
          else p
      | _ \<Rightarrow> p)"

definition note_s :: "outcome \<Rightarrow> parsed \<Rightarrow> processor \<Rightarrow> processor" where
  "note_s out ps p =
     (case (group_key out, s_value (ps_tag ps), g_value (ps_tag ps)) of
        (Some k, Some s, Some _) \<Rightarrow>
          if o_status out \<in> {PENDING, DUPLICATE} then p\<lparr>s_ctx := AList.update k s (s_ctx p)\<rparr> else p
      | _ \<Rightarrow> p)"

subsection \<open>Emission\<close>

definition complete_key :: "outcome \<Rightarrow> akey option" where
  "complete_key out = (if o_status out = COMPLETE then group_key out else None)"

fun ts_of :: "int option \<Rightarrow> timestamp" where
  "ts_of None = TsNone"
| "ts_of (Some c) = TsInt c"

definition header_timestamp :: "outcome \<Rightarrow> parsed \<Rightarrow> processor \<Rightarrow> timestamp" where
  "header_timestamp out ps p =
     (case complete_key out of
        None \<Rightarrow> ts_of (valid_c p ps)
      | Some k \<Rightarrow>
          let selected = (if preserve_c (config p) then map_of (c_ctx p) k else None)
          in if selected = Some 0 then TsStr (lit ''0'') else ts_of selected)"

definition generate_gid :: "environment \<Rightarrow> processor \<Rightarrow> pystr \<times> processor" where
  "generate_gid env p = (case tick p of (n, p') \<Rightarrow> (gid_generator env (gid_digits (config p)) n, p'))"

definition output_gid :: "environment \<Rightarrow> outcome \<Rightarrow> parsed \<Rightarrow> processor \<Rightarrow> pystr \<times> processor" where
  "output_gid env out ps p =
     (case complete_key out of
        Some k \<Rightarrow>
          (case map_of (gid_ctx p) k of
             Some [g] \<Rightarrow> if preserve_gid (config p) then (g, p) else generate_gid env p
           | _ \<Rightarrow> generate_gid env p)
      | None \<Rightarrow>
          (case ingress_gid ps of
             Some g \<Rightarrow> if preserve_gid (config p) then (g, p) else generate_gid env p
           | None \<Rightarrow> generate_gid env p))"

definition unique_call ::
  "environment \<Rightarrow> logical \<Rightarrow> int option \<Rightarrow> processor \<Rightarrow> bool res \<times> processor" where
  "unique_call env key scope p =
     (case tick p of (n, p') \<Rightarrow>
        (case is_unique key scope (mono env n) (ded p') of
           Inl e \<Rightarrow> (Inl e, p')
         | Inr (b, d) \<Rightarrow> (Inr b, p'\<lparr>ded := d\<rparr>)))"

fun unique_targets ::
  "environment \<Rightarrow> logical \<Rightarrow> int list \<Rightarrow> processor \<Rightarrow> int list res \<times> processor" where
  "unique_targets env key [] p = (Inr [], p)"
| "unique_targets env key (t # ts) p =
     (case unique_call env key (Some t) p of
        (Inl e, p') \<Rightarrow> (Inl e, p')
      | (Inr b, p') \<Rightarrow>
          (case unique_targets env key ts p' of
             (Inl e, p'') \<Rightarrow> (Inl e, p'')
           | (Inr us, p'') \<Rightarrow> (Inr (if b then t # us else us), p'')))"

text \<open>The targets of a logical message, and whether it is emitted at all.\<close>

definition deduplicate ::
  "environment \<Rightarrow> snapshot \<Rightarrow> logical \<Rightarrow> processor \<Rightarrow> (int list \<times> bool) res \<times> processor" where
  "deduplicate env snap key p =
     (case mode snap of
        GLOBAL \<Rightarrow>
          (case unique_call env key None p of
             (Inl e, p') \<Rightarrow> (Inl e, p')
           | (Inr b, p') \<Rightarrow> (Inr (target_ids snap, b), p'))
      | PER_TARGET \<Rightarrow>
          (case unique_targets env key (target_ids snap) p of
             (Inl e, p') \<Rightarrow> (Inl e, p')
           | (Inr us, p') \<Rightarrow> (Inr (us, us \<noteq> []), p')))"

definition or_else :: "pystr option \<Rightarrow> pystr option \<Rightarrow> pystr option" where
  "or_else a b = (if truthy a then a else b)"

record emission =
  e_frame :: frame
  e_leading_s :: "pystr option"
  e_incoming_s :: "pystr option"
  e_timestamp :: timestamp
  e_gid :: pystr
  e_total :: nat
  e_tagged :: bool
  e_targets :: "int list"

fun emit_lines ::
  "environment \<Rightarrow> emission \<Rightarrow> nat \<Rightarrow> pystr list \<Rightarrow> processor \<Rightarrow> out_msg list res \<times> processor" where
  "emit_lines env em idx [] p = (Inr [], p)"
| "emit_lines env em idx (line # ls) p =
     (let s = choose_s_value_from_candidates (cf_station (config p))
                (or_else (alias_for_s (e_frame em)) (e_incoming_s em)) (e_leading_s em)
                (remote_ip (e_frame em));
          (n, p1) = tick p;
          p2 = p1\<lparr>src := touch_s (Some s) (mono_ns env n) (src p1)\<rparr>;
          (w, p3) = tick p2;
          g = (if 1 < e_total em \<or> e_tagged em then Some (g_text (idx + 1) (e_total em) (e_gid em)) else None)
      in case rbind (build_output_bytes line s (e_timestamp em) (idx = 0) g (wall_clock env w))
                (\<lambda>bs. processor_output bs (e_targets em)) of
           Inl e \<Rightarrow> (Inl e, p3)
         | Inr out \<Rightarrow>
             (case emit_lines env em (Suc idx) ls p3 of
                (Inl e, p4) \<Rightarrow> (Inl e, p4)
              | (Inr outs, p4) \<Rightarrow> (Inr (out # outs), p4)))"

definition emit_message ::
  "environment \<Rightarrow> frame \<Rightarrow> pystr option \<Rightarrow> snapshot \<Rightarrow> parsed \<Rightarrow> outcome \<Rightarrow> processor
     \<Rightarrow> out_msg list res \<times> processor" where
  "emit_message env f leading snap ps out p =
     (let lines = sentences out; total_parts = length lines;
          ts = header_timestamp out ps p;
          (gid, p1) = output_gid env out ps p;
          key = (case lines of [l] \<Rightarrow> Single l | _ \<Rightarrow> Multi lines)
      in case deduplicate env snap key p1 of
           (Inl e, p2) \<Rightarrow> (Inl e, p2)
         | (Inr (targets, emit), p2) \<Rightarrow>
             let incoming = (case complete_key out of
                   None \<Rightarrow> s_value (ps_tag ps)
                 | Some k \<Rightarrow> or_else (s_value (ps_tag ps)) (map_of (s_ctx p2) k));
                 em = \<lparr>e_frame = f, e_leading_s = leading, e_incoming_s = incoming, e_timestamp = ts,
                       e_gid = gid, e_total = total_parts,
                       e_tagged = (total_parts = 1 \<and> always_tag_single (config p)), e_targets = targets\<rparr>
             in case emit_lines env em 0 (if emit then lines else []) p2 of
                  (Inl e, p3) \<Rightarrow> (Inl e, p3)
                | (Inr outs, p3) \<Rightarrow>
                    (Inr outs, case complete_key out of None \<Rightarrow> p3 | Some k \<Rightarrow> discard_contexts [k] p3))"

subsection \<open>Frames\<close>

definition process_sentence ::
  "environment \<Rightarrow> frame \<Rightarrow> pystr option \<Rightarrow> snapshot \<Rightarrow> parsed \<Rightarrow> processor \<Rightarrow> out_msg list res \<times> processor" where
  "process_sentence env f leading snap ps p =
     (case tick p of (n, p0) \<Rightarrow>
        (case feed_parsed_outcome ps (mono env n) (asm p0) of
           Inl e \<Rightarrow> (Inl e, p0)
         | Inr (out, a) \<Rightarrow>
             let p1 = discard_contexts (discarded_keys out) (p0\<lparr>asm := a\<rparr>);
                 p2 = note_s out ps (note_gid out ps (note_c out ps p1))
             in if o_status out \<in> {INVALID, LIMIT_EXCEEDED, PENDING, DUPLICATE, CONFLICT} then (Inr [], p2)
                else emit_message env f leading snap ps out p2))"

fun process_sentences ::
  "environment \<Rightarrow> frame \<Rightarrow> pystr option \<Rightarrow> snapshot \<Rightarrow> parsed list \<Rightarrow> processor
     \<Rightarrow> out_msg list res \<times> processor" where
  "process_sentences env f leading snap [] p = (Inr [], p)"
| "process_sentences env f leading snap (ps # pss) p =
     (case process_sentence env f leading snap ps p of
        (Inl e, p') \<Rightarrow> (Inl e, p')
      | (Inr outs, p') \<Rightarrow>
          (case process_sentences env f leading snap pss p' of
             (Inl e, p'') \<Rightarrow> (Inl e, p'')
           | (Inr outs', p'') \<Rightarrow> (Inr (outs @ outs'), p'')))"

definition process_impl ::
  "environment \<Rightarrow> frame \<Rightarrow> snapshot \<Rightarrow> processor \<Rightarrow> out_msg list res \<times> processor" where
  "process_impl env f snap p =
     (case rbind (parse_leading_s_value f) (\<lambda>s. rbind (parse_frame_sentences f True) (\<lambda>pss. Inr (s, pss))) of
        Inl e \<Rightarrow> (Inl e, p)
      | Inr (leading, pss) \<Rightarrow> process_sentences env f leading snap pss p)"

definition process ::
  "environment \<Rightarrow> frame \<Rightarrow> snapshot \<Rightarrow> processor \<Rightarrow> out_msg list res \<times> processor" where
  "process env f snap p =
     (let p0 = p\<lparr>process_calls := Suc (process_calls p), process_in_flight := Suc (process_in_flight p)\<rparr>
      in case process_impl env f snap p0 of
           (Inl e, p1) \<Rightarrow>
             (Inl e, p1\<lparr>process_failed := Suc (process_failed p1), process_in_flight := process_in_flight p1 - 1\<rparr>)
         | (Inr outs, p1) \<Rightarrow>
             let p2 = p1\<lparr>process_completed := Suc (process_completed p1)\<rparr>;
                 p3 = (if outs \<noteq> [] then p2\<lparr>output_batches := Suc (output_batches p2),
                                             output_messages := output_messages p2 + length outs\<rparr>
                       else p2\<lparr>outputless_calls := Suc (outputless_calls p2)\<rparr>)
             in (Inr outs, p3\<lparr>process_in_flight := process_in_flight p3 - 1\<rparr>))"

definition reset_impl :: "environment \<Rightarrow> processor \<Rightarrow> reset_report res \<times> processor" where
  "reset_impl env p =
     (let (ks, a) = assembler_reset (asm p);
          (dn, d) = dedup_reset (ded p);
          (n, p1) = tick p;
          (sn, s) = source_reset (mono_ns env n) (src p)
      in (processor_reset_report [PInt (int (length ks)), PInt (int dn), PInt (int sn),
            PInt (int (length (s_ctx p))), PInt (int (length (c_ctx p))), PInt (int (length (gid_ctx p)))],
          p1\<lparr>asm := a, ded := d, src := s, s_ctx := [], c_ctx := [], gid_ctx := []\<rparr>))"

definition processor_reset :: "environment \<Rightarrow> processor \<Rightarrow> reset_report res \<times> processor" where
  "processor_reset env p =
     (let p0 = p\<lparr>reset_calls := Suc (reset_calls p), reset_in_flight := Suc (reset_in_flight p)\<rparr>
      in case reset_impl env p0 of
           (Inl e, p1) \<Rightarrow>
             (Inl e, p1\<lparr>reset_failed := Suc (reset_failed p1), reset_in_flight := reset_in_flight p1 - 1\<rparr>)
         | (Inr r, p1) \<Rightarrow>
             (Inr r, p1\<lparr>reset_completed := Suc (reset_completed p1), reset_in_flight := reset_in_flight p1 - 1\<rparr>))"

definition metrics_snapshot :: "processor \<Rightarrow> processor_metrics res" where
  "metrics_snapshot p =
     processor_snapshot (map (\<lambda>n. PInt (int n))
       [process_calls p, process_completed p, process_failed p, process_in_flight p, outputless_calls p,
        output_batches p, output_messages p, reset_calls p, reset_completed p, reset_failed p,
        reset_in_flight p])"

subsection \<open>What emission leaves alone\<close>

definition counters :: "processor \<Rightarrow> nat list" where
  "counters p = [process_calls p, process_completed p, process_failed p, process_in_flight p, outputless_calls p,
     output_batches p, output_messages p, reset_calls p, reset_completed p, reset_failed p, reset_in_flight p]"

text \<open>Deduplicating and emitting touch the deduplicator, the source state and the clocks only.\<close>

definition untouched :: "processor \<Rightarrow>
    proc_config \<times> assembler \<times> (akey \<times> pystr) list \<times> (akey \<times> int) list \<times> (akey \<times> pystr list) list \<times> nat list" where
  "untouched p = (config p, asm p, s_ctx p, c_ctx p, gid_ctx p, counters p)"

lemma untouched_updates [simp]:
  "untouched (p\<lparr>ded := d\<rparr>) = untouched p" "untouched (p\<lparr>src := s\<rparr>) = untouched p"
  "untouched (p\<lparr>ticks := n\<rparr>) = untouched p"
  by (simp_all add: untouched_def counters_def)

lemma untouched_unique_call [simp]: "untouched (snd (unique_call env key sc p)) = untouched p"
  by (auto simp: unique_call_def tick_def split: sum.splits)

lemma untouched_unique_targets [simp]: "untouched (snd (unique_targets env key ts p)) = untouched p"
proof (induction ts arbitrary: p)
  case (Cons t ts)
  obtain r p1 where c: "unique_call env key (Some t) p = (r, p1)" by fastforce
  with untouched_unique_call [of env key "Some t" p] Cons.IH [of p1] show ?case
    by (auto split: prod.splits sum.splits)
qed simp

lemma untouched_deduplicate [simp]: "untouched (snd (deduplicate env snap key p)) = untouched p"
  using untouched_unique_call [of env key None p] untouched_unique_targets [of env key "target_ids snap" p]
  by (auto simp: deduplicate_def simp del: untouched_unique_call untouched_unique_targets
      split: dedup_mode.splits prod.splits sum.splits)

lemma untouched_gid [simp]: "untouched (snd (output_gid env out ps p)) = untouched p"
  by (auto simp: output_gid_def generate_gid_def tick_def split: option.splits list.splits)

text \<open>The source value of a line, and the state after its two clock readings.\<close>

definition line_s :: "emission \<Rightarrow> processor \<Rightarrow> pystr" where
  "line_s em p = choose_s_value_from_candidates (cf_station (config p))
     (or_else (alias_for_s (e_frame em)) (e_incoming_s em)) (e_leading_s em) (remote_ip (e_frame em))"

definition line_state :: "environment \<Rightarrow> emission \<Rightarrow> processor \<Rightarrow> processor" where
  "line_state env em p = p\<lparr>src := touch_s (Some (line_s em p)) (mono_ns env (ticks p)) (src p),
     ticks := Suc (Suc (ticks p))\<rparr>"

definition line_bytes :: "environment \<Rightarrow> emission \<Rightarrow> nat \<Rightarrow> pystr \<Rightarrow> processor \<Rightarrow> bytes res" where
  "line_bytes env em idx line p = build_output_bytes line (line_s em p) (e_timestamp em) (idx = 0)
     (if 1 < e_total em \<or> e_tagged em then Some (g_text (idx + 1) (e_total em) (e_gid em)) else None)
     (wall_clock env (Suc (ticks p)))"

lemma untouched_line [simp]: "untouched (line_state env em p) = untouched p"
  by (simp add: line_state_def)

lemma emit_lines_Cons:
  "emit_lines env em idx (line # ls) p =
     (case rbind (line_bytes env em idx line p) (\<lambda>bs. processor_output bs (e_targets em)) of
        Inl e \<Rightarrow> (Inl e, line_state env em p)
      | Inr out \<Rightarrow>
          (case emit_lines env em (Suc idx) ls (line_state env em p) of
             (Inl e, p') \<Rightarrow> (Inl e, p')
           | (Inr outs, p') \<Rightarrow> (Inr (out # outs), p')))"
  by (simp add: line_bytes_def line_state_def line_s_def tick_def Let_def cong: sum.case_cong)

declare emit_lines.simps(2) [simp del]

lemma untouched_lines [simp]: "untouched (snd (emit_lines env em idx ls p)) = untouched p"
proof (induction ls arbitrary: idx p)
  case (Cons l ls)
  show ?case
    using Cons [of "Suc idx" "line_state env em p"]
    by (auto simp: emit_lines_Cons split: sum.splits prod.splits)
qed simp

subsection \<open>Emission returns\<close>

lemma unique_call_total:
  assumes "dedup_wf (ded p)"
  shows "\<exists>b p'. unique_call env key sc p = (Inr b, p') \<and> dedup_wf (ded p')"
proof -
  obtain b d where "is_unique key sc (mono env (ticks p)) (ded p) = Inr (b, d)" "dedup_wf d"
    using is_unique_spec [OF assms] by metis
  then show ?thesis by (simp add: unique_call_def tick_def)
qed

lemma unique_targets_total:
  assumes "dedup_wf (ded p)"
  shows "\<exists>us p'. unique_targets env key ts p = (Inr us, p') \<and> dedup_wf (ded p') \<and> subseq us ts"
  using assms
proof (induction ts arbitrary: p)
  case (Cons t ts)
  obtain b p1 where 1: "unique_call env key (Some t) p = (Inr b, p1)" "dedup_wf (ded p1)"
    using unique_call_total [OF Cons.prems] by blast
  obtain us p2 where "unique_targets env key ts p1 = (Inr us, p2)" "dedup_wf (ded p2)" "subseq us ts"
    using Cons.IH [OF 1(2)] by blast
  with 1 show ?case by auto
qed simp

lemma deduplicate_total:
  assumes "dedup_wf (ded p)"
  obtains targets emit p' where "deduplicate env snap key p = (Inr (targets, emit), p')" "dedup_wf (ded p')"
    "subseq targets (target_ids snap)" "mode snap = GLOBAL \<longrightarrow> targets = target_ids snap"
    "mode snap = PER_TARGET \<longrightarrow> emit = (targets \<noteq> [])"
  using unique_call_total [OF assms, of env key None] unique_targets_total [OF assms, of env key "target_ids snap"]
  by (cases "mode snap") (auto simp: deduplicate_def)

lemma safe_chars_clean: "\<forall>c \<in> set s. safe_char c \<Longrightarrow> clean s"
  by (rule clean_ascii) (auto simp: safe_char_def)

lemma header_clean: "clean c \<Longrightarrow> clean (format_header c)"
  using hex2_chars safe_chars_clean [of "hex2 (nmea_checksum c)"] by (simp add: format_header_def is_surrogate_def)

lemma build_output_total:
  assumes "clean line" and "clean s" and "clean (ts_str ts)" and "\<And>g'. g = Some g' \<Longrightarrow> clean g'"
  shows "\<exists>bs. build_output_bytes line s ts fst_line g wall = Inr bs"
proof -
  have "clean (ts_str (TsInt wall))" by (simp add: int_str_def is_surrogate_def)
  then have "clean (wrap_with_meta line s ts fst_line g wall)"
    using assms by (cases g) (auto simp: wrap_with_meta_def Let_def lit_def is_surrogate_def intro!: header_clean)
  then show ?thesis
    using encode_strict_clean [of "wrap_with_meta line s ts fst_line g wall @ [13, 10]"]
    by (simp add: build_output_bytes_def is_surrogate_def)
qed

definition emission_ok :: "emission \<Rightarrow> bool" where
  "emission_ok em \<longleftrightarrow> clean (ts_str (e_timestamp em)) \<and> clean (e_gid em) \<and> (\<forall>t \<in> set (e_targets em). 0 \<le> t)"

lemma emit_lines_total:
  assumes "emission_ok em" and "\<forall>l \<in> set ls. clean l"
  shows "\<exists>outs p'. emit_lines env em idx ls p = (Inr outs, p') \<and> ded p' = ded p \<and> length outs = length ls \<and>
    (\<forall>out \<in> set outs. out_targets out = e_targets em)"
  using assms(2)
proof (induction ls arbitrary: idx p)
  case (Cons l ls)
  have "clean (line_s em p)"
    using choose_candidates_safe by (auto simp: line_s_def safe_s_def list_all_iff intro!: safe_chars_clean)
  moreover have "clean (g_text i n (e_gid em))" for i n
    using assms(1) by (simp add: emission_ok_def g_text_def is_surrogate_def)
  ultimately obtain bs where "line_bytes env em idx l p = Inr bs"
    using build_output_total [of l "line_s em p" "e_timestamp em"] assms(1) Cons.prems
    by (fastforce simp: line_bytes_def emission_ok_def split: if_splits)
  moreover obtain outs p' where "emit_lines env em (Suc idx) ls (line_state env em p) = (Inr outs, p')"
    "ded p' = ded (line_state env em p)" "length outs = length ls" "\<forall>out \<in> set outs. out_targets out = e_targets em"
    using Cons by fastforce
  ultimately show ?case
    using assms(1) by (simp add: emit_lines_Cons processor_output_ok emission_ok_def line_state_def)
qed simp

subsection \<open>Metadata follows the assembler\<close>

text \<open>The keys for which a processor holds metadata.\<close>

definition dict_dom :: "('k \<times> 'v) list \<Rightarrow> 'k set" where
  "dict_dom d = fst ` set d"

lemma dict_dom_simps [simp]:
  "dict_dom (AList.update k v d) = insert k (dict_dom d)" "dict_dom (AList.delete k d) = dict_dom d - {k}"
  "dict_dom [] = {}"
  by (simp_all add: dict_dom_def dom_map_of_conv_image_fst [symmetric] update_conv' delete_conv' set_eq_iff)

definition contexts :: "processor \<Rightarrow> akey set" where
  "contexts p = dict_dom (s_ctx p) \<union> dict_dom (c_ctx p) \<union> dict_dom (gid_ctx p)"

lemma discard_contexts_effect:
  "contexts (discard_contexts ks p) = contexts p - set ks \<and> asm (discard_contexts ks p) = asm p \<and>
   ded (discard_contexts ks p) = ded p \<and> counters (discard_contexts ks p) = counters p \<and>
   config (discard_contexts ks p) = config p \<and>
   set (gid_ctx (discard_contexts ks p)) \<subseteq> set (gid_ctx p)"
  unfolding discard_contexts_def
proof (induction ks arbitrary: p)
  case (Cons k ks)
  have "contexts (discard_one k p) = contexts p - {k}"
    unfolding contexts_def discard_one_def by (simp add: Un_Diff)
  moreover have "set (AList.delete k (gid_ctx p)) \<subseteq> set (gid_ctx p)" by (simp add: set_delete)
  ultimately show ?case
    using Cons [of "discard_one k p"] by (simp add: discard_one_def counters_def) blast
qed simp

definition gids_clean :: "processor \<Rightarrow> bool" where
  "gids_clean p \<longleftrightarrow> (\<forall>(k, gs) \<in> set (gid_ctx p). \<forall>g \<in> set gs. clean g)"

lemma ingress_gid_clean:
  assumes "parse_scanned_sentence f m = Inr ps" and "ingress_gid ps = Some g"
  shows "clean g"
proof -
  have from_text: "\<exists>v. g_value (parse_tag_text t) = parse_g_value v" for t
    by (auto simp: parse_tag_text_def Let_def split: prod.splits)
  obtain gt where gt: "g_value (ps_tag ps) = Some gt" "preservable_group_id gt = Some g"
    using assms(2) by (auto simp: ingress_gid_def split: option.splits)
  have "\<exists>v. parse_g_value v = Some gt"
    using assms(1) gt(1)
    by (auto simp: parse_scanned_sentence_def parse_tag_metadata_def no_tag_def rbind_Inr_iff
        split: option.splits) (metis from_text)
  then obtain v where "parse_g_value v = Some gt" by blast
  with gt(2) show ?thesis
    by (auto simp: parse_g_value_def intro: isdigit_clean split: option.splits list.splits if_splits)
qed

definition noted :: "outcome \<Rightarrow> processor \<Rightarrow> processor \<Rightarrow> bool" where
  "noted out p p' \<longleftrightarrow> asm p' = asm p \<and> ded p' = ded p \<and> counters p' = counters p \<and> config p' = config p \<and>
     contexts p' \<subseteq> contexts p \<union> (if o_status out \<in> {PENDING, DUPLICATE, COMPLETE} then set_option (group_key out) else {})"

lemma note_effects:
  "noted out p (note_c out ps p)" "noted out p (note_gid out ps p)" "noted out p (note_s out ps p)"
  unfolding noted_def note_c_def note_gid_def note_s_def contexts_def counters_def
  by (simp_all split: option.splits) blast+

lemma noted_trans: "noted out p q \<Longrightarrow> noted out q r \<Longrightarrow> noted out p r"
  unfolding noted_def by (simp only: ) blast

lemma note_all: "noted out p (note_s out ps (note_gid out ps (note_c out ps p)))"
  by (rule noted_trans [OF noted_trans [OF note_effects(1) note_effects(2)] note_effects(3)])

lemma note_gids:
  assumes "gids_clean p" and "\<And>g. ingress_gid ps = Some g \<Longrightarrow> clean g"
  shows "gids_clean (note_s out ps (note_gid out ps (note_c out ps p)))"
proof -
  have "gids_clean (note_c out ps p)" using assms(1)
    by (auto simp: gids_clean_def note_c_def split: option.splits)
  then have "gids_clean (note_gid out ps (note_c out ps p))"
    using assms(2) map_of_SomeD [of "gid_ctx (note_c out ps p)"]
    by (fastforce simp: gids_clean_def note_gid_def split: option.splits dest!: set_update [THEN subsetD])
  then show ?thesis by (auto simp: gids_clean_def note_s_def split: option.splits)
qed

subsection \<open>One sentence\<close>

definition proc_inv :: "processor \<Rightarrow> bool" where
  "proc_inv p \<longleftrightarrow> (asm_wf (asm p) \<and> 0 < timeout (asm p)) \<and> dedup_wf (ded p) \<and>
     (\<forall>s \<in> held (asm p). clean s) \<and> contexts p \<subseteq> live (asm p) \<and> gids_clean p"

text \<open>What the parser hands to the processor for a frame without surrogates.\<close>

definition sentence_ok :: "parsed \<Rightarrow> bool" where
  "sentence_ok ps \<longleftrightarrow> admissible ps \<and> (\<forall>g. ingress_gid ps = Some g \<longrightarrow> clean g) \<and>
     (\<forall>line. ps_fragment ps \<noteq> None \<longrightarrow> decode_frame_slice (ps_frame ps) (int (sp_start (sentence_span (ps_match ps))))
        (int (sp_end (sentence_span (ps_match ps)))) = Inr line \<longrightarrow> clean line)"

definition clean_generator :: "environment \<Rightarrow> bool" where
  "clean_generator env \<longleftrightarrow> (\<forall>w n. clean (gid_generator env w n))"

lemma output_gid_clean:
  assumes "clean_generator env" and "gids_clean p" and "\<And>g. ingress_gid ps = Some g \<Longrightarrow> clean g"
  shows "clean (fst (output_gid env out ps p))"
proof -
  have "clean g" if "map_of (gid_ctx p) k = Some [g]" for k g
    using assms(2) map_of_SomeD [OF that] unfolding gids_clean_def by fastforce
  then show ?thesis
    using assms(1,3) by (auto simp: output_gid_def generate_gid_def tick_def clean_generator_def
        split: option.splits list.splits)
qed

lemma header_timestamp_clean: "clean (ts_str (header_timestamp out ps p))"
proof -
  have "clean (ts_str (ts_of c))" for c
    by (cases c) (simp_all add: int_str_def lit_def is_surrogate_def)
  then show ?thesis
    by (auto simp: header_timestamp_def Let_def lit_def is_surrogate_def split: option.splits)
qed

text \<open>Where the outputs of a message may go.\<close>

definition addressed :: "snapshot \<Rightarrow> out_msg \<Rightarrow> bool" where
  "addressed snap out \<longleftrightarrow> subseq (out_targets out) (target_ids snap) \<and>
     (mode snap = GLOBAL \<longrightarrow> out_targets out = target_ids snap) \<and>
     (mode snap = PER_TARGET \<longrightarrow> out_targets out \<noteq> [])"

lemma subseq_subset: "subseq xs ys \<Longrightarrow> set xs \<subseteq> set ys"
  by (induction rule: list_emb.induct) auto

lemma emit_message_total:
  assumes env: "clean_generator env" and snap: "wf_snapshot snap" and ded: "dedup_wf (ded p)"
    and ps: "\<And>g. ingress_gid ps = Some g \<Longrightarrow> clean g" and p: "gids_clean p"
    and lines: "\<forall>l \<in> set (sentences out). clean l"
  obtains outs q p' where "emit_message env f leading snap ps out p = (Inr outs, p')" "untouched q = untouched p"
    "dedup_wf (ded q)" "p' = (case complete_key out of None \<Rightarrow> q | Some k \<Rightarrow> discard_contexts [k] q)"
    "\<forall>m \<in> set outs. addressed snap m" "length outs \<in> {0, length (sentences out)}"
proof -
  obtain gid p1 where g: "output_gid env out ps p = (gid, p1)" by fastforce
  have u1: "untouched p1 = untouched p" "clean gid"
    using untouched_gid [of env out ps p] output_gid_clean [OF env p, of ps out] ps by (simp_all add: g)
  have d1: "ded p1 = ded p"
    using g by (auto simp: output_gid_def generate_gid_def tick_def split: option.splits list.splits if_splits)
  define key where "key = (case sentences out of [l] \<Rightarrow> Single l | _ \<Rightarrow> Multi (sentences out))"
  obtain targets emit p2 where d: "deduplicate env snap key p1 = (Inr (targets, emit), p2)" "dedup_wf (ded p2)"
    "subseq targets (target_ids snap)" "mode snap = GLOBAL \<longrightarrow> targets = target_ids snap"
    "mode snap = PER_TARGET \<longrightarrow> emit = (targets \<noteq> [])"
    using deduplicate_total [of p1 env snap key] ded d1 by metis
  have u2: "untouched p2 = untouched p" using untouched_deduplicate [of env snap key p1] d(1) u1(1) by simp
  define em where "em = \<lparr>e_frame = f, e_leading_s = leading,
    e_incoming_s = (case complete_key out of None \<Rightarrow> s_value (ps_tag ps)
      | Some k \<Rightarrow> or_else (s_value (ps_tag ps)) (map_of (s_ctx p2) k)),
    e_timestamp = header_timestamp out ps p, e_gid = gid, e_total = length (sentences out),
    e_tagged = (length (sentences out) = 1 \<and> always_tag_single (config p)), e_targets = targets\<rparr>"
  define ls where "ls = (if emit then sentences out else [])"
  have "emission_ok em"
    using u1(2) snap subseq_subset [OF d(3)] header_timestamp_clean
    by (auto simp: emission_ok_def em_def wf_snapshot_def)
  moreover have "\<forall>l \<in> set ls. clean l" using lines by (simp add: ls_def)
  ultimately obtain outs p3 where e: "emit_lines env em 0 ls p2 = (Inr outs, p3)" "ded p3 = ded p2"
    "length outs = length ls" "\<forall>m \<in> set outs. out_targets m = targets"
    using emit_lines_total [of em ls env 0 p2] by (auto simp: em_def)
  have "untouched p3 = untouched p" using untouched_lines [of env em 0 ls p2] e(1) u2 by simp
  moreover have "config p1 = config p" using u1(1) by (simp add: untouched_def)
  then have "emit_message env f leading snap ps out p =
      (Inr outs, case complete_key out of None \<Rightarrow> p3 | Some k \<Rightarrow> discard_contexts [k] p3)"
    using g d(1) e(1) by (simp add: emit_message_def Let_def key_def em_def ls_def)
  moreover have "\<forall>m \<in> set outs. addressed snap m"
    using d(3-5) e(3,4) by (auto simp: addressed_def ls_def)
  moreover have "length outs \<in> {0, length (sentences out)}" using e(3) by (simp add: ls_def)
  ultimately show thesis using that [of outs _ p3] e(2) d(2) by simp
qed

text \<open>Feeding the assembler keeps everything it holds encodable.\<close>

lemma feed_clean:
  assumes inv: "proc_inv p" and ok: "sentence_ok ps"
  obtains out a where "feed_parsed_outcome ps now (asm p) = Inr (out, a)" "asm_wf a \<and> 0 < timeout a"
    "\<forall>s \<in> held a. clean s" "\<forall>l \<in> set (sentences out). clean l"
    "context_after out (contexts p) \<subseteq> live a"
proof -
  have a0: "asm_wf (asm p) \<and> 0 < timeout (asm p)" and h: "\<forall>s \<in> held (asm p). clean s"
    and c: "contexts p \<subseteq> live (asm p)" and ad: "admissible ps"
    using inv ok by (simp_all add: proc_inv_def sentence_ok_def)
  obtain out a where f: "feed_parsed_outcome ps now (asm p) = Inr (out, a)" "asm_wf a \<and> 0 < timeout a"
    "ps_fragment ps = None \<Longrightarrow> groups a = groups (asm p) \<and> sentences out = []"
    and eff: "\<And>fr. ps_fragment ps = Some fr \<Longrightarrow> \<exists>k line. ktotal k = declared_total fr \<and>
      decode_frame_slice (ps_frame ps) (int (sp_start (sentence_span (ps_match ps))))
        (int (sp_end (sentence_span (ps_match ps)))) = Inr line \<and>
      feed_effect k (ordinal fr) line now (asm p) out a"
    using feed_parsed_step [OF a0 ad, of now] by metis
  have "(\<forall>s \<in> held a. clean s) \<and> (\<forall>l \<in> set (sentences out). clean l)"
  proof (cases "ps_fragment ps")
    case None
    with f(3) h show ?thesis by (simp add: held_def)
  next
    case (Some fr)
    obtain k line where e: "ktotal k = declared_total fr"
      "decode_frame_slice (ps_frame ps) (int (sp_start (sentence_span (ps_match ps))))
        (int (sp_end (sentence_span (ps_match ps)))) = Inr line"
      "feed_effect k (ordinal fr) line now (asm p) out a" using eff [OF Some] by blast
    have "clean line" using ok e(2) Some by (simp add: sentence_ok_def)
    moreover have "1 \<le> ordinal fr" "ordinal fr \<le> ktotal k"
      using ad Some e(1) by (simp_all add: admissible_def)
    ultimately show ?thesis
      using feed_effect_content [OF _ _ e(3)] a0 f(2) h by blast
  qed
  with asm.context_live [OF a0 ad f(1) c] f(1,2) show thesis by (intro that) auto
qed

lemma process_sentence_total:
  assumes env: "clean_generator env" and snap: "wf_snapshot snap" and inv: "proc_inv p" and ok: "sentence_ok ps"
  obtains outs p' where "process_sentence env f leading snap ps p = (Inr outs, p')" "proc_inv p'"
    "counters p' = counters p" "\<forall>m \<in> set outs. addressed snap m"
proof -
  obtain out a where f: "feed_parsed_outcome ps (mono env (ticks p)) (asm p) = Inr (out, a)"
    "asm_wf a \<and> 0 < timeout a" "\<forall>s \<in> held a. clean s" "\<forall>l \<in> set (sentences out). clean l"
    "context_after out (contexts p) \<subseteq> live a"
    using feed_clean [OF inv ok] by metis
  define p1 where "p1 = discard_contexts (discarded_keys out) (p\<lparr>ticks := Suc (ticks p), asm := a\<rparr>)"
  define p2 where "p2 = note_s out ps (note_gid out ps (note_c out ps p1))"
  have p1: "contexts p1 = contexts p - set (discarded_keys out)" "asm p1 = a" "ded p1 = ded p"
    "counters p1 = counters p" "set (gid_ctx p1) \<subseteq> set (gid_ctx p)"
    using discard_contexts_effect [of "discarded_keys out" "p\<lparr>ticks := Suc (ticks p), asm := a\<rparr>"]
    by (simp_all add: p1_def contexts_def counters_def)
  then have "gids_clean p1" using inv unfolding proc_inv_def gids_clean_def by blast
  moreover have gid: "\<And>g. ingress_gid ps = Some g \<Longrightarrow> clean g" using ok by (simp add: sentence_ok_def)
  ultimately have g2: "gids_clean p2" unfolding p2_def by (rule note_gids)
  have p2: "asm p2 = a" "ded p2 = ded p" "counters p2 = counters p"
    "contexts p2 \<subseteq> contexts p - set (discarded_keys out) \<union>
      (if o_status out \<in> {PENDING, DUPLICATE, COMPLETE} then set_option (group_key out) else {})"
    using note_all [of out p1 ps] p1 unfolding p2_def noted_def by simp_all
  have ded: "dedup_wf (ded p)" using inv by (simp add: proc_inv_def)
  have inv_of: "proc_inv q" if q: "untouched q = untouched p2" "dedup_wf (ded q)" and "complete_key out = None" for q
  proof -
    have "context_after out (contexts p) = contexts p - set (discarded_keys out) \<union>
        (if o_status out \<in> {PENDING, DUPLICATE, COMPLETE} then set_option (group_key out) else {})"
      using that(3) by (auto simp: context_after_def Let_def complete_key_def split: if_splits)
    then have "contexts p2 \<subseteq> live a" using p2(4) f(5) by (metis order.trans)
    then show ?thesis using q p2(1) g2 f(2,3) by (simp add: proc_inv_def untouched_def contexts_def gids_clean_def)
  qed
  show thesis
  proof (cases "o_status out \<in> {INVALID, LIMIT_EXCEEDED, PENDING, DUPLICATE, CONFLICT}")
    case True
    then have "process_sentence env f leading snap ps p = (Inr [], p2)"
      using f(1) by (simp add: process_sentence_def tick_def Let_def p2_def p1_def)
    moreover have "proc_inv p2" using True inv_of [of p2] p2(2) ded by (auto simp: complete_key_def)
    ultimately show thesis using p2(3) that [of "[]" p2] by simp
  next
    case False
    then have st: "o_status out = SINGLE \<or> o_status out = COMPLETE" by (cases "o_status out") auto
    obtain outs q p' where e: "emit_message env f leading snap ps out p2 = (Inr outs, p')" "untouched q = untouched p2"
      "dedup_wf (ded q)" "p' = (case complete_key out of None \<Rightarrow> q | Some k \<Rightarrow> discard_contexts [k] q)"
      "\<forall>m \<in> set outs. addressed snap m"
      using emit_message_total [OF env snap _ gid g2 f(4)] p2(2) ded by metis
    have "process_sentence env f leading snap ps p = (Inr outs, p')"
      using False f(1) e(1) by (simp add: process_sentence_def tick_def Let_def p2_def p1_def)
    moreover have "proc_inv p' \<and> counters p' = counters p"
    proof (cases "complete_key out")
      case None
      then have "proc_inv q" using inv_of e(2,3) by blast
      with None e(2,4) p2(3) show ?thesis by (simp add: untouched_def)
    next
      case (Some k)
      then have k: "o_status out = COMPLETE" "group_key out = Some k"
        by (auto simp: complete_key_def split: if_splits)
      have q: "contexts q = contexts p2" "asm q = a" "counters q = counters p" "gids_clean q"
        using e(2) p2 g2 by (simp_all add: untouched_def contexts_def gids_clean_def)
      note d = discard_contexts_effect [of "[k]" q]
      have "gids_clean p'" using d q(4) Some e(4) unfolding gids_clean_def by auto
      moreover have "contexts p' \<subseteq> live a"
        using d q(1) Some e(4) p2(4) f(5) k by (auto simp: context_after_def Let_def simp del: list.set_map)
      ultimately show ?thesis
        using d q Some e(3,4) f(2,3) by (simp add: proc_inv_def)
    qed
    ultimately show thesis using e(5) that by blast
  qed
qed

subsection \<open>Frames and counters\<close>

lemma sentences_ok:
  assumes "clean_frame f" and "parse_frame_sentences f vdo = Inr pss" and "ps \<in> set pss"
  shows "sentence_ok ps"
proof -
  note wf = clean_frame_wf [OF assms(1)]
  obtain line where l: "ps_frame ps = f" "decode_frame_slice f (int (sp_start (sentence_span (ps_match ps))))
      (int (sp_end (sentence_span (ps_match ps)))) = Inr line" "ps_fragment ps = parse_fragment line" "clean line"
    using parsed_fragment [OF wf assms(2,3)] assms(1) by blast
  then have "admissible ps"
    by (auto simp: admissible_def parse_fragment_def Let_def split: option.splits if_splits)
  moreover have "parse_scanned_sentence f (ps_match ps) = Inr ps"
    using parse_frame_total [OF wf, of vdo] assms(2,3) by auto
  ultimately show ?thesis
    using l ingress_gid_clean by (auto simp: sentence_ok_def)
qed

lemma process_sentences_total:
  assumes "clean_generator env" and "wf_snapshot snap" and "proc_inv p" and "\<forall>ps \<in> set pss. sentence_ok ps"
  shows "\<exists>outs p'. process_sentences env f leading snap pss p = (Inr outs, p') \<and> proc_inv p' \<and>
    counters p' = counters p \<and> (\<forall>m \<in> set outs. addressed snap m)"
  using assms(3,4)
proof (induction pss arbitrary: p)
  case (Cons ps pss)
  obtain outs p1 where 1: "process_sentence env f leading snap ps p = (Inr outs, p1)" "proc_inv p1"
    "counters p1 = counters p" "\<forall>m \<in> set outs. addressed snap m"
    using process_sentence_total [OF assms(1,2) Cons.prems(1)] Cons.prems(2) by (metis list.set_intros(1))
  obtain outs' p2 where "process_sentences env f leading snap pss p1 = (Inr outs', p2)" "proc_inv p2"
    "counters p2 = counters p1" "\<forall>m \<in> set outs'. addressed snap m"
    using Cons.IH [OF 1(2)] Cons.prems(2) by auto
  with 1 show ?case by auto
qed simp

lemma process_impl_total:
  assumes "clean_generator env" and "wf_snapshot snap" and "proc_inv p" and "clean_frame f"
  shows "\<exists>outs p'. process_impl env f snap p = (Inr outs, p') \<and> proc_inv p' \<and>
    counters p' = counters p \<and> (\<forall>m \<in> set outs. addressed snap m)"
proof -
  note wf = clean_frame_wf [OF assms(4)]
  obtain s pss where "parse_leading_s_value f = Inr s" "parse_frame_sentences f True = Inr pss"
    using leading_s_total [OF wf] parse_frame_total [OF wf, of True] by blast
  with process_sentences_total [OF assms(1-3), of pss f s] sentences_ok [OF assms(4), of True pss]
  show ?thesis by (simp add: process_impl_def)
qed

text \<open>Whatever happens, the counters move at the ends of a call only.\<close>

lemma counters_of_untouched: "untouched q = untouched p \<Longrightarrow> counters q = counters p"
  by (simp add: untouched_def)

lemma counters_emit_message: "counters (snd (emit_message env f leading snap ps out p)) = counters p"
proof -
  obtain gid p1 where g: "output_gid env out ps p = (gid, p1)" by fastforce
  obtain r p2 where d: "deduplicate env snap (case sentences out of [l] \<Rightarrow> Single l | _ \<Rightarrow> Multi (sentences out)) p1 = (r, p2)"
    by fastforce
  have "counters p2 = counters p"
    using untouched_gid [of env out ps p] untouched_deduplicate d g by (metis snd_conv counters_of_untouched)
  moreover have "counters (snd (emit_lines env em i ls p2)) = counters p2" for em i ls
    by (rule counters_of_untouched) simp
  ultimately show ?thesis
    using g d discard_contexts_effect
    by (auto simp: emit_message_def Let_def split: sum.splits prod.splits option.splits) (metis snd_conv)+
qed

lemma counters_sentence: "counters (snd (process_sentence env f leading snap ps p)) = counters p"
proof (cases "feed_parsed_outcome ps (mono env (ticks p)) (asm p)")
  case (Inr r)
  obtain out a where r: "r = (out, a)" by fastforce
  define p2 where "p2 = note_s out ps (note_gid out ps (note_c out ps
    (discard_contexts (discarded_keys out) (p\<lparr>ticks := Suc (ticks p), asm := a\<rparr>))))"
  have "counters p2 = counters p"
    using note_all [of out _ ps] discard_contexts_effect unfolding p2_def noted_def by (simp add: counters_def)
  with Inr r counters_emit_message [of env f leading snap ps out p2] show ?thesis
    by (simp add: process_sentence_def tick_def Let_def p2_def [symmetric])
qed (simp add: process_sentence_def tick_def counters_def)

lemma counters_impl: "counters (snd (process_impl env f snap p)) = counters p"
proof -
  have "counters (snd (process_sentences env f l snap pss p)) = counters p" for l pss
  proof (induction pss arbitrary: p)
    case (Cons ps pss)
    then show ?case
      using counters_sentence [of env f l snap ps p] by (auto split: sum.splits prod.splits) (metis snd_conv)+
  qed simp
  then show ?thesis by (auto simp: process_impl_def split: sum.splits)
qed

subsection \<open>Everything an owner can do\<close>

text \<open>
  The processors that any calls lead to, failing calls included; \<open>P\<close> restricts the arguments
  of the \<open>process\<close> calls.
\<close>

inductive proc_reach :: "environment \<Rightarrow> (frame \<Rightarrow> snapshot \<Rightarrow> bool) \<Rightarrow> processor \<Rightarrow> bool" for env P where
  init: "assembler_init t mf mp = Inr a \<Longrightarrow> 0 < t \<Longrightarrow> dedup_init ttl mx = Inr d \<Longrightarrow>
    proc_reach env P (processor_init cfg a d s)"
| process: "proc_reach env P p \<Longrightarrow> P f snap \<Longrightarrow> process env f snap p = (r, p') \<Longrightarrow> proc_reach env P p'"
| reset: "proc_reach env P p \<Longrightarrow> processor_reset env p = (r', p') \<Longrightarrow> proc_reach env P p'"

definition counters_ok :: "processor \<Rightarrow> bool" where
  "counters_ok p \<longleftrightarrow>
     process_calls p = process_completed p + process_failed p + process_in_flight p \<and>
     process_completed p = outputless_calls p + output_batches p \<and> output_batches p \<le> output_messages p \<and>
     reset_calls p = reset_completed p + reset_failed p + reset_in_flight p"

lemma process_counters:
  assumes "counters_ok p"
  shows "counters_ok (snd (process env f snap p))"
proof -
  define p0 where "p0 = p\<lparr>process_calls := Suc (process_calls p), process_in_flight := Suc (process_in_flight p)\<rparr>"
  obtain r p1 where i: "process_impl env f snap p0 = (r, p1)" by fastforce
  have "counters p1 = counters p0" using counters_impl [of env f snap p0] i by simp
  then have c: "counters_ok p1" "0 < process_in_flight p1"
    using assms by (auto simp: counters_ok_def counters_def p0_def)
  show ?thesis
  proof (cases r)
    case (Inl e)
    then have "snd (process env f snap p) = p1\<lparr>process_failed := Suc (process_failed p1),
        process_in_flight := process_in_flight p1 - 1\<rparr>"
      using i by (simp add: process_def p0_def)
    then show ?thesis using c by (simp add: counters_ok_def)
  next
    case (Inr outs)
    then show ?thesis
      using c i by (cases outs) (simp_all add: process_def p0_def Let_def counters_ok_def)
  qed
qed

lemma reset_effect:
  "\<exists>report p'. processor_reset env p = (Inr report, p') \<and> contexts p' = {} \<and> gid_ctx p' = [] \<and>
    asm p' = snd (assembler_reset (asm p)) \<and> ded p' = snd (dedup_reset (ded p)) \<and>
    (counters_ok p \<longrightarrow> counters_ok p') \<and>
    assembler_groups_discarded report = int (length (groups (asm p))) \<and>
    dedup_entries_discarded report = int (length (cache (ded p))) \<and>
    s_contexts_discarded report = int (length (s_ctx p)) \<and>
    c_contexts_discarded report = int (length (c_ctx p)) \<and>
    gid_contexts_discarded report = int (length (gid_ctx p))"
  by (simp add: processor_reset_def reset_impl_def Let_def assembler_reset_def dedup_reset_def tick_def
      processor_reset_report_def contexts_def counters_ok_def split: prod.splits)

lemma reach_counters: "proc_reach env P p \<Longrightarrow> counters_ok p"
proof (induction rule: proc_reach.induct)
  case (process p f snap r p')
  then show ?case using process_counters [of p env f snap] by simp
next
  case (reset p r' p')
  then show ?case using reset_effect [of env p] by auto
qed (simp add: processor_init_def counters_ok_def)

lemma proc_inv_counters:
  "proc_inv (p\<lparr>process_calls := a\<rparr>) = proc_inv p"
  "proc_inv (p\<lparr>process_completed := a\<rparr>) = proc_inv p" "proc_inv (p\<lparr>process_failed := a\<rparr>) = proc_inv p"
  "proc_inv (p\<lparr>process_in_flight := a\<rparr>) = proc_inv p" "proc_inv (p\<lparr>outputless_calls := a\<rparr>) = proc_inv p"
  "proc_inv (p\<lparr>output_batches := a\<rparr>) = proc_inv p" "proc_inv (p\<lparr>output_messages := a\<rparr>) = proc_inv p"
  by (simp_all add: proc_inv_def contexts_def gids_clean_def)

lemma process_total:
  assumes "clean_generator env" and "wf_snapshot snap" and "proc_inv p" and "clean_frame f"
  shows "\<exists>outs p'. process env f snap p = (Inr outs, p') \<and> proc_inv p' \<and> (\<forall>m \<in> set outs. addressed snap m)"
proof -
  define p0 where "p0 = p\<lparr>process_calls := Suc (process_calls p), process_in_flight := Suc (process_in_flight p)\<rparr>"
  have "proc_inv p0" using assms(3) by (simp add: p0_def proc_inv_counters)
  then obtain outs p1 where "process_impl env f snap p0 = (Inr outs, p1)" "proc_inv p1"
    "\<forall>m \<in> set outs. addressed snap m"
    using process_impl_total [OF assms(1,2) _ assms(4)] by blast
  then show ?thesis
    by (cases "outs = []") (simp_all add: process_def p0_def Let_def proc_inv_counters)
qed

text \<open>The calls of a runtime: frames without surrogates, snapshots of the routing state.\<close>

abbreviation accepted_call :: "frame \<Rightarrow> snapshot \<Rightarrow> bool" where
  "accepted_call f snap \<equiv> clean_frame f \<and> wf_snapshot snap"

lemma reach_inv:
  assumes "proc_reach env accepted_call p" and "clean_generator env"
  shows "proc_inv p"
  using assms(1)
proof (induction rule: proc_reach.induct)
  case (init t mf mp a ttl mx d cfg s)
  have "asm_wf a \<and> timeout a = t" by (rule assembler_init_wf [OF init(1)])
  moreover have "dedup_wf d" using dedup_init_wf [OF init(3)] by simp
  moreover have "groups a = []" using init(1) by (auto simp: assembler_init_def rbind_Inr_iff)
  ultimately show ?case using init(2)
    by (simp add: proc_inv_def processor_init_def contexts_def gids_clean_def held_def)
next
  case (process p f snap r p')
  then show ?case using process_total [OF assms(2), of snap p f] by auto
next
  case (reset p r' p')
  obtain report where "processor_reset env p = (Inr report, p')" "contexts p' = {}" "gid_ctx p' = []"
    "asm p' = snd (assembler_reset (asm p))" "ded p' = snd (dedup_reset (ded p))"
    using reset_effect [of env p] reset.hyps(2) by auto
  moreover have "asm_wf (snd (assembler_reset (asm p)))" "0 < timeout (snd (assembler_reset (asm p)))"
    using reset.IH asm_reset_wf by (auto simp: proc_inv_def assembler_reset_def Let_def)
  moreover have "dedup_wf (snd (dedup_reset (ded p)))"
    using reset.IH by (auto simp: proc_inv_def dedup_reset_def dedup_wf_def dedup_sync_def dedup_bounds_def
        split: option.splits)
  ultimately show ?case by (simp add: proc_inv_def gids_clean_def held_def assembler_reset_def Let_def)
qed

subsection \<open>Properties\<close>


definition example_env :: environment where
  "example_env = \<lparr>mono = (\<lambda>_. 0), mono_ns = int, wall_clock = int, gid_generator = (\<lambda>w n. nat_str n)\<rparr>"

definition example_processor :: processor where
  "example_processor = processor_init
     \<lparr>cf_station = None, preserve_c = True, preserve_gid = True, always_tag_single = False, gid_digits = 3\<rparr>
     example_assembler
     \<lparr>d_ttl = 30, d_max = None, cache = [], expiry_index = [], d_next = 0, accepted = 0, duplicates = 0,
       expired = 0, capacity_evicted = 0, resets = 0, peak_entries = 0\<rparr>
     (source_init 100 10 5 5 0)"

lemma example_processor_reach: "proc_reach env P example_processor"
  unfolding example_processor_def
  by (rule proc_reach.init [of 10 "PInt 9" "PInt 2" _ 30 PNone])
    (simp_all add: assembler_init_def example_assembler_def dedup_init_def)

lemma example_env_clean: "clean_generator example_env"
  by (simp add: clean_generator_def example_env_def)




text \<open>
  Metrics can always be read. After any calls, with any frames and snapshots, failing
  calls included, and also in the middle of a call, the counters of the processor satisfy the
  consistency that \<open>ProcessorMetricsSnapshot\<close> demands, so \<open>metrics_snapshot\<close> never raises.
\<close>

theorem metrics_always_valid:
  assumes "proc_reach env P p"
  shows "\<exists>m m'. metrics_snapshot p = Inr m \<and>
    metrics_snapshot (snd (process_impl env f snap
      (p\<lparr>process_calls := Suc (process_calls p), process_in_flight := Suc (process_in_flight p)\<rparr>))) = Inr m'"
proof -
  let ?p0 = "p\<lparr>process_calls := Suc (process_calls p), process_in_flight := Suc (process_in_flight p)\<rparr>"
  have ok: "\<exists>m. metrics_snapshot q = Inr m" if "counters_ok q" for q
    using that unfolding metrics_snapshot_def counters_ok_def by (intro processor_snapshot_ok) auto
  have "counters_ok p" by (rule reach_counters [OF assms])
  moreover from this have "counters_ok ?p0" by (simp add: counters_ok_def)
  then have "counters_ok (snd (process_impl env f snap ?p0))"
    using counters_impl [of env f snap ?p0] by (simp add: counters_ok_def counters_def)
  ultimately show ?thesis using ok by blast
qed

lemma metrics_always_valid_witness: "\<exists>m. metrics_snapshot example_processor = Inr m"
  using metrics_always_valid [OF example_processor_reach [of example_env "\<lambda>_ _. True"]] by blast

text \<open>
  A reset empties the processor and reports what it discarded: it never raises, leaves no
  live group, no remembered message and no metadata, and its report holds the sizes of what
  was there.
\<close>

theorem reset_empties:
  "\<exists>report p'. processor_reset env p = (Inr report, p') \<and> groups (asm p') = [] \<and> cache (ded p') = [] \<and>
    set (keys (s_ctx p')) \<union> set (keys (c_ctx p')) \<union> set (keys (gid_ctx p')) = {} \<and>
    assembler_groups_discarded report = int (length (groups (asm p))) \<and>
    dedup_entries_discarded report = int (length (cache (ded p))) \<and>
    s_contexts_discarded report = int (length (s_ctx p)) \<and>
    c_contexts_discarded report = int (length (c_ctx p)) \<and>
    gid_contexts_discarded report = int (length (gid_ctx p))"
  using reset_effect [of env p]
  by (auto simp: assembler_reset_def dedup_reset_def Let_def contexts_def dict_dom_def)

text \<open>
  A generated group id has exactly the configured number of digits, whatever the random
  number below \<open>9 * 10 ^ (digits - 1)\<close> is.
\<close>

theorem numeric_gid_width:
  assumes "0 < width" and "r < 9 * 10 ^ (width - 1)"
  shows "length (numeric_gid width r) = width \<and> isdigit (numeric_gid width r)"
proof -
  have len: "length (nat_str n) = Suc k" if "10 ^ k \<le> n" "n < 10 ^ Suc k" for k n
    using that
  proof (induction k arbitrary: n)
    case (Suc k)
    have "10 ^ k \<le> n div 10" "n div 10 < 10 ^ Suc k" using Suc.prems by (simp_all add: less_mult_imp_div_less)
    moreover have "\<not> n < 10" using Suc.prems(1) by (metis le_trans not_le one_le_numeral power_Suc self_le_power zero_less_Suc)
    ultimately show ?case using Suc.IH [of "n div 10"] by (simp add: nat_str.simps [of n])
  qed (simp add: nat_str.simps)
  obtain k where k: "width = Suc k" using assms(1) by (cases width) auto
  have "10 ^ k + r < 10 ^ Suc k" using assms(2) by (simp add: k)
  from len [OF _ this] show ?thesis by (simp add: numeric_gid_def k isdigit_nat_str)
qed

lemma numeric_gid_width_witness: "length (numeric_gid 3 17) = 3"
  using numeric_gid_width [of 3 17] by simp

end
