(* ===== verification/Identity.thy ===== *)
theory Identity
  imports PyText
begin

section \<open>Source and target identities (\<open>core/source_identity.py\<close>, \<open>core/target_identity.py\<close>)\<close>

text \<open>
  The opaque names of ingress sources and egress targets, and the validated table from
  external target names to process-local numbers. What is shown: names of the two source
  namespaces never collide and determine the identity they were built from, and a frozen
  table is one-to-one.
\<close>

definition first_non_empty :: "pystr option list \<Rightarrow> pystr option" where
  "first_non_empty vs =
     (case filter (\<lambda>v. v \<noteq> None \<and> v \<noteq> Some []) vs of [] \<Rightarrow> None | v # _ \<Rightarrow> v)"

definition build_udp_source_id :: "pystr option \<Rightarrow> pystr option \<Rightarrow> pystr option \<Rightarrow> pystr res" where
  "build_udp_source_id configured_id mapped_alias remote =
     (case first_non_empty [configured_id, mapped_alias, remote] of
        None \<Rightarrow> Inl ValueError
      | Some identity \<Rightarrow> Inr (lit ''udp:'' @ identity))"

definition build_udpsec_source_id :: "pystr option \<Rightarrow> pystr res" where
  "build_udpsec_source_id station =
     (case station of
        None \<Rightarrow> Inl ValueError
      | Some s \<Rightarrow> if s = [] then Inl ValueError else Inr (lit ''udpsec:'' @ s))"

definition build_udp_target_id :: "pyval \<Rightarrow> pystr res" where
  "build_udp_target_id configured_id =
     (case configured_id of
        PStr s \<Rightarrow>
          if strip s = [] then Inl ValueError
          else if 58 \<in> set s then Inl ValueError
          else Inr (lit ''udp:'' @ s)
      | _ \<Rightarrow> Inl TypeError)"

text \<open>
  \<open>freeze_target_id_by_name\<close>: the loop over the items, with what was copied so far and the
  name of each number so far; a Python dictionary has each key once.
\<close>

fun freeze_items ::
  "(pyval \<times> pyval) list \<Rightarrow> (pystr \<times> int) list \<Rightarrow> (int \<times> pystr) list \<Rightarrow> (pystr \<times> int) list res" where
  "freeze_items [] copied names = Inr copied"
| "freeze_items ((name, target) # items) copied names =
     (case name of
        PStr n \<Rightarrow>
          if n = [] then Inl ValueError
          else (case as_int target of
            None \<Rightarrow> Inl TypeError
          | Some i \<Rightarrow>
              if i < 0 then Inl ValueError
              else (case map_of names i of
                Some _ \<Rightarrow> Inl ValueError
              | None \<Rightarrow> freeze_items items (AList.update n i copied) (AList.update i n names)))
      | _ \<Rightarrow> Inl TypeError)"

definition freeze_target_id_by_name :: "pyval \<Rightarrow> (pystr \<times> int) list res" where
  "freeze_target_id_by_name m = (case m of PDict items \<Rightarrow> freeze_items items [] [] | _ \<Rightarrow> Inl TypeError)"

text \<open>A frozen table as the mapping it is.\<close>

definition mapping_of :: "(pystr \<times> int) list \<Rightarrow> pyval" where
  "mapping_of m = PDict (map (\<lambda>(n, i). (PStr n, PInt i)) m)"

definition frozen :: "(pystr \<times> int) list \<Rightarrow> bool" where
  "frozen m \<longleftrightarrow> distinct (keys m) \<and> distinct (map snd m) \<and> (\<forall>(n, i) \<in> set m. n \<noteq> [] \<and> 0 \<le> i)"

lemma freeze_items_frozen:
  assumes "freeze_items items copied names = Inr m" and "frozen copied"
    and "set (keys names) = snd ` set copied"
    and "distinct (keys items)" and "\<And>n. PStr n \<in> set (keys items) \<Longrightarrow> n \<notin> set (keys copied)"
  shows "frozen m \<and> m = copied @ map (\<lambda>(n, i). (case n of PStr s \<Rightarrow> s, case i of PInt j \<Rightarrow> j)) items \<and>
    (\<forall>(n, i) \<in> set items. \<exists>s j. n = PStr s \<and> i = PInt j)"
  using assms
proof (induction items copied names arbitrary: m rule: freeze_items.induct)
  case (2 name target items copied names)
  from 2(2) obtain n i where n: "name = PStr n" "n \<noteq> []" and i: "target = PInt i" "0 \<le> i"
    "map_of names i = None" "freeze_items items (AList.update n i copied) (AList.update i n names) = Inr m"
    by (cases name; cases target) (auto split: if_splits option.splits)
  have nk: "n \<notin> set (keys copied)" using "2.prems"(5) n by simp
  have ik: "i \<notin> snd ` set copied" using i(3) "2.prems"(3) by (auto simp: map_of_eq_None_iff)
  have up: "AList.update n i copied = copied @ [(n, i)]" using nk by (rule update_fresh)
  have "frozen (AList.update n i copied)"
    using "2.prems"(2) nk ik n i by (auto simp: up frozen_def)
  moreover have "set (keys (AList.update i n names)) = snd ` set (AList.update n i copied)"
    using "2.prems"(3) set_keys_update [of i n names] by (simp add: up)
  moreover have "n' \<notin> set (keys (AList.update n i copied))" if "PStr n' \<in> set (keys items)" for n'
    using that "2.prems"(4,5) n by (auto simp: up)
  moreover have "distinct (keys items)" using "2.prems"(4) by simp
  ultimately show ?case
    using "2.IH" [OF n(1,2) _ _ i(3,4)] n i by (auto simp: up)
qed simp


lemma freeze_frozen: 
  assumes "freeze_target_id_by_name v = Inr m" and "\<And>items. v = PDict items \<Longrightarrow> distinct (keys items)"
  shows "frozen m \<and> v = mapping_of m"
proof -
  obtain items where v: "v = PDict items" "freeze_items items [] [] = Inr m"
    using assms(1) by (auto simp: freeze_target_id_by_name_def split: pyval.splits)
  let ?f = "\<lambda>(n, i). (case n of PStr s \<Rightarrow> s, case i of PInt j \<Rightarrow> j)"
  have m: "frozen m \<and> m = [] @ map ?f items \<and> (\<forall>(n, i) \<in> set items. \<exists>s j. n = PStr s \<and> i = PInt j)"
    using assms(2) [OF v(1)] by (intro freeze_items_frozen [OF v(2)]) (simp_all add: frozen_def)
  then have "\<forall>(n, i) \<in> set items. \<exists>s j. n = PStr s \<and> i = PInt j" by blast
  then have "map (\<lambda>(n, i). (PStr n, PInt i)) (map ?f items) = items"
    by (induction items) auto
  with v(1) m show ?thesis by (auto simp: mapping_of_def)
qed

text \<open>Freezing a frozen table again, as each layer of the routing code does, copies it.\<close>

lemma freeze_items_mapping:
  assumes "distinct (keys m)" and "distinct (map snd m)" and "\<forall>(n, i) \<in> set m. n \<noteq> [] \<and> 0 \<le> i"
    and "set (keys m) \<inter> set (keys copied) = {}" and "set (map snd m) \<inter> set (keys names) = {}"
  shows "freeze_items (map (\<lambda>(n, i). (PStr n, PInt i)) m) copied names = Inr (copied @ m)"
  using assms
proof (induction m arbitrary: copied names)
  case (Cons p m)
  obtain n i where p: "p = (n, i)" by fastforce
  have fresh: "n \<notin> set (keys copied)" "i \<notin> set (keys names)" "map_of names i = None"
    using Cons.prems by (auto simp: p map_of_eq_None_iff)
  have "freeze_items (map (\<lambda>(n, i). (PStr n, PInt i)) m) (copied @ [(n, i)]) (names @ [(i, n)]) =
      Inr ((copied @ [(n, i)]) @ m)"
    using Cons.prems by (intro Cons.IH) (auto simp: p)
  then show ?case using fresh Cons.prems(3) by (simp add: p)
qed simp

lemma freeze_mapping_of: "frozen m \<Longrightarrow> freeze_target_id_by_name (mapping_of m) = Inr m"
  using freeze_items_mapping [of m "[]" "[]"]
  by (simp add: freeze_target_id_by_name_def mapping_of_def frozen_def)

subsection \<open>Properties\<close>

text \<open>
  Source ids identify their source: the id of a plain UDP source and that of an
  authenticated one are never equal, two authenticated sources with one id are the same
  station, and two plain ones with one id have the same first non-empty identity.
\<close>

theorem source_ids_identify:
  assumes "build_udp_source_id c a r = Inr u" and "build_udpsec_source_id st = Inr s"
  shows "u \<noteq> s \<and> (\<forall>st'. build_udpsec_source_id st' = Inr s \<longrightarrow> st' = st) \<and>
    (\<forall>c' a' r'. build_udp_source_id c' a' r' = Inr u \<longrightarrow>
       first_non_empty [c', a', r'] = first_non_empty [c, a, r])"
  using assms
  by (auto simp: build_udp_source_id_def build_udpsec_source_id_def lit_def split: option.splits if_splits)

lemma source_ids_identify_witness: "lit ''udp:a'' \<noteq> lit ''udpsec:a''"
proof -
  have "build_udp_source_id None (Some [97]) None = Inr (lit ''udp:a'')"
    "build_udpsec_source_id (Some [97]) = Inr (lit ''udpsec:a'')"
    by (simp_all add: build_udp_source_id_def build_udpsec_source_id_def first_non_empty_def lit_def)
  from source_ids_identify [OF this] show ?thesis by blast
qed

text \<open>
  A table of target numbers is accepted exactly when it is a dictionary from non-empty
  names to distinct non-negative integers, and then it is copied as it is, in order.
\<close>

theorem freeze_accepts_iff:
  assumes "\<And>items. v = PDict items \<Longrightarrow> distinct (keys items)"
  shows "freeze_target_id_by_name v = Inr m \<longleftrightarrow>
    v = PDict (map (\<lambda>(n, i). (PStr n, PInt i)) m) \<and> distinct (map snd m) \<and>
    (\<forall>(n, i) \<in> set m. n \<noteq> [] \<and> 0 \<le> i)"
proof
  assume "freeze_target_id_by_name v = Inr m"
  from freeze_frozen [OF this] assms show "v = PDict (map (\<lambda>(n, i). (PStr n, PInt i)) m) \<and>
      distinct (map snd m) \<and> (\<forall>(n, i) \<in> set m. n \<noteq> [] \<and> 0 \<le> i)"
    by (simp add: frozen_def mapping_of_def)
next
  assume a: "v = PDict (map (\<lambda>(n, i). (PStr n, PInt i)) m) \<and> distinct (map snd m) \<and>
      (\<forall>(n, i) \<in> set m. n \<noteq> [] \<and> 0 \<le> i)"
  then have "distinct (map PStr (keys m))" using assms by (auto simp: comp_def case_prod_beta)
  then have "distinct (keys m)" by (simp add: distinct_map del: map_map)
  with a freeze_mapping_of [of m] show "freeze_target_id_by_name v = Inr m"
    by (simp add: frozen_def mapping_of_def)
qed

lemma freeze_accepts_iff_witness:
  "freeze_target_id_by_name (PDict [(PStr [97], PInt 3), (PStr [98], PInt 0)]) = Inr [([97], 3), ([98], 0)]"
  using freeze_accepts_iff [of "PDict [(PStr [97], PInt 3), (PStr [98], PInt 0)]" "[([97], 3), ([98], 0)]"]
  by auto

end
