(* ===== verification/Routing.thy ===== *)
theory Routing
  imports Identity
begin

section \<open>Source-zone routing (\<open>core/routing.py\<close>)\<close>

text \<open>
  Zones are named expressions over sets of source ids: an explicit set, or an operation on
  other zones. \<open>resolve_zones\<close> evaluates them with memoisation and cycle detection; routes
  send the sources of a zone to named targets; a routing table is the resolved zones, the
  ordered routes and, once compiled, the routes with numeric targets. What is shown: zone
  resolution computes the denotation of the definitions, and fails exactly on undefined
  references and cycles, with the right exception; the compiled plan answers what the
  descriptive matching answers.
\<close>

subsection \<open>Definitions\<close>

record zone_definition =
  zd_include :: "pystr list option"
  zd_union :: "pystr list option"
  zd_intersection :: "pystr list option"
  zd_difference :: "pystr list option"

record route_definition =
  rd_name :: pystr
  rd_from :: pystr
  rd_to :: "pystr list"

text \<open>What a configuration may hold: a definition already built, or a plain value.\<close>

datatype zone_config = ZoneDef zone_definition | ZoneValue pyval
datatype route_config = RouteDef route_definition | RouteValue pyval

text \<open>\<open>tuple(value)\<close> for the values of a document; \<open>POther\<close> is not iterable\<close>

fun tuple_of :: "pyval \<Rightarrow> pyval list res" where
  "tuple_of (PList vs) = Inr vs"
| "tuple_of (PDict kvs) = Inr (keys kvs)"
| "tuple_of (PBytes bs) = Inr (map (\<lambda>b. PInt (of_char b)) bs)"
| "tuple_of _ = Inl TypeError"

fun all_strings :: "pyval list \<Rightarrow> pystr list res" where
  "all_strings [] = Inr []"
| "all_strings (v # vs) =
     (case as_str v of None \<Rightarrow> Inl TypeError | Some s \<Rightarrow> rbind (all_strings vs) (\<lambda>ss. Inr (s # ss)))"

definition as_string_tuple :: "pyval \<Rightarrow> pystr list res" where
  "as_string_tuple v = (case v of PStr _ \<Rightarrow> Inl TypeError | _ \<Rightarrow> rbind (tuple_of v) all_strings)"

text \<open>\<open>isinstance(v, Sequence) and not isinstance(v, str)\<close>, with its items\<close>

fun sequence_items :: "pyval \<Rightarrow> pyval list option" where
  "sequence_items (PList vs) = Some vs"
| "sequence_items (PBytes bs) = Some (map (\<lambda>b. PInt (of_char b)) bs)"
| "sequence_items _ = None"

definition optional_field :: "pyval \<Rightarrow> pystr list option res" where
  "optional_field v = (case v of PNone \<Rightarrow> Inr None | _ \<Rightarrow> rbind (as_string_tuple v) (\<lambda>ss. Inr (Some ss)))"

definition zone_definition :: "pyval \<Rightarrow> pyval \<Rightarrow> pyval \<Rightarrow> pyval \<Rightarrow> zone_definition res" where
  "zone_definition incl uni isect diff =
     rbind (optional_field incl) (\<lambda>i. rbind (optional_field uni) (\<lambda>u.
     rbind (optional_field isect) (\<lambda>n. rbind (optional_field diff) (\<lambda>d.
       Inr \<lparr>zd_include = i, zd_union = u, zd_intersection = n, zd_difference = d\<rparr>))))"

definition route_definition :: "pyval \<Rightarrow> pyval \<Rightarrow> pyval \<Rightarrow> route_definition res" where
  "route_definition name from_zone targets =
     (case (name, from_zone) of
        (PStr n, PStr z) \<Rightarrow>
          if sequence_items targets = None then Inl TypeError
          else rbind (as_string_tuple targets) (\<lambda>ts. Inr \<lparr>rd_name = n, rd_from = z, rd_to = ts\<rparr>)
      | _ \<Rightarrow> Inl TypeError)"

definition item :: "string \<Rightarrow> (pyval \<times> pyval) list \<Rightarrow> pyval" where
  "item k kvs = (case map_of kvs (PStr (lit k)) of None \<Rightarrow> PNone | Some v \<Rightarrow> v)"

definition unknown_fields :: "string list \<Rightarrow> (pyval \<times> pyval) list \<Rightarrow> bool" where
  "unknown_fields valid kvs \<longleftrightarrow> list_ex (\<lambda>k. k \<notin> set (map (\<lambda>s. PStr (lit s)) valid)) (keys kvs)"

definition coerce_zone_definition :: "zone_config \<Rightarrow> zone_definition res" where
  "coerce_zone_definition v =
     (case v of
        ZoneDef d \<Rightarrow> Inr d
      | ZoneValue (PDict kvs) \<Rightarrow>
          if unknown_fields [''include'', ''union'', ''intersection'', ''difference''] kvs
          then Inl ZoneResolutionError
          else zone_definition (item ''include'' kvs) (item ''union'' kvs) (item ''intersection'' kvs)
            (item ''difference'' kvs)
      | ZoneValue _ \<Rightarrow> Inl TypeError)"

text \<open>The one expression of a definition.\<close>

datatype zone_expression = Include "pystr list" | Operation zone_operation "pystr list"
  and zone_operation = UnionOf | IntersectionOf | DifferenceOf

definition zone_expression :: "zone_definition \<Rightarrow> zone_expression res" where
  "zone_expression d =
     (case List.map_filter id
        [map_option Include (zd_include d), map_option (Operation UnionOf) (zd_union d),
         map_option (Operation IntersectionOf) (zd_intersection d),
         map_option (Operation DifferenceOf) (zd_difference d)] of
        [e] \<Rightarrow> Inr e
      | _ \<Rightarrow> Inl ZoneResolutionError)"

definition apply_operation :: "zone_operation \<Rightarrow> pystr set list \<Rightarrow> pystr set" where
  "apply_operation op operands =
     (case operands of
        [] \<Rightarrow> {}
      | s # ss \<Rightarrow>
          (case op of
             UnionOf \<Rightarrow> \<Union> (set operands)
           | IntersectionOf \<Rightarrow> foldl (\<inter>) s ss
           | DifferenceOf \<Rightarrow> foldl (-) s ss))"

definition coerce_route_definition :: "route_config \<Rightarrow> route_definition res" where
  "coerce_route_definition v =
     (case v of
        RouteDef r \<Rightarrow> Inr r
      | RouteValue (PDict kvs) \<Rightarrow>
          if unknown_fields [''name'', ''from_zone'', ''to''] kvs then Inl ValueError
          else (case (map_of kvs (PStr (lit ''name'')), map_of kvs (PStr (lit ''from_zone'')),
                      map_of kvs (PStr (lit ''to''))) of
                  (Some n, Some z, Some ts) \<Rightarrow> route_definition n z ts
                | _ \<Rightarrow> Inl ValueError)
      | RouteValue _ \<Rightarrow> Inl TypeError)"

subsection \<open>Zone resolution\<close>

type_synonym zone_definitions = "(pystr \<times> zone_definition) list"
type_synonym resolved = "(pystr \<times> pystr set) list"

lemma card_path:
  assumes "map_of defs z = Some d" and "z \<notin> set path"
  shows "card (set (keys defs) - set (path @ [z])) < card (set (keys defs) - set path)"
proof (rule psubset_card_mono)
  have "z \<in> set (keys defs)" using assms(1) by (metis keys_map_of)
  with assms(2) show "set (keys defs) - set (path @ [z]) \<subset> set (keys defs) - set path" by auto
qed simp

text \<open>
  \<open>resolve\<close> of one zone and of the references of an expression, in turn: the definitions,
  the path of zones being resolved, the zone or references, and what was resolved so far.
\<close>

function (sequential) resolve :: "zone_definitions \<Rightarrow> pystr list \<Rightarrow> pystr \<Rightarrow> resolved \<Rightarrow> (pystr set \<times> resolved) res"
  and resolve_refs :: "zone_definitions \<Rightarrow> pystr list \<Rightarrow> pystr list \<Rightarrow> resolved \<Rightarrow> (pystr set list \<times> resolved) res" where
  "resolve defs path z r =
     (case map_of r z of
        Some s \<Rightarrow> Inr (s, r)
      | None \<Rightarrow>
          (case map_of defs z of
             None \<Rightarrow> Inl UnknownZoneError
           | Some d \<Rightarrow>
               if z \<in> set path then Inl CircularZoneReferenceError
               else rbind (zone_expression d) (\<lambda>e.
                 case e of
                   Include vs \<Rightarrow> Inr (set vs, AList.update z (set vs) r)
                 | Operation op refs \<Rightarrow>
                     rbind (resolve_refs defs (path @ [z]) refs r) (\<lambda>(ss, r').
                       let s = apply_operation op ss in Inr (s, AList.update z s r')))))"
| "resolve_refs defs path [] r = Inr ([], r)"
| "resolve_refs defs path (z # zs) r =
     rbind (resolve defs path z r) (\<lambda>(s, r1).
     rbind (resolve_refs defs path zs r1) (\<lambda>(ss, r2). Inr (s # ss, r2)))"
  by pat_completeness auto

termination
proof (relation "measures [\<lambda>x. case x of Inl (defs, path, z, r) \<Rightarrow> card (set (keys defs) - set path)
      | Inr (defs, path, zs, r) \<Rightarrow> card (set (keys defs) - set path),
    \<lambda>x. case x of Inl _ \<Rightarrow> 0 | Inr (defs, path, zs, r) \<Rightarrow> Suc (length zs)]", goal_cases)
  case (2 defs path z r d e op refs)
  then show ?case using card_path [of defs z d path] by (simp del: list.set_map set_append)
qed simp_all

declare resolve.simps [simp del]

fun coerce_zones :: "(pyval \<times> zone_config) list \<Rightarrow> zone_definitions res" where
  "coerce_zones [] = Inr []"
| "coerce_zones ((name, v) # zs) =
     (case name of
        PStr n \<Rightarrow> rbind (coerce_zone_definition v) (\<lambda>d. rbind (coerce_zones zs) (\<lambda>ds. Inr ((n, d) # ds)))
      | _ \<Rightarrow> Inl TypeError)"

definition resolve_zones :: "(pyval \<times> zone_config) list \<Rightarrow> resolved res" where
  "resolve_zones zones =
     rbind (coerce_zones zones) (\<lambda>defs.
     rbind (resolve_refs defs [] (sort (keys defs)) []) (\<lambda>(_, r).
       rbind (rmap (\<lambda>z. case map_of r z of None \<Rightarrow> Inl KeyError | Some s \<Rightarrow> Inr (z, s)) (sort (keys r))) Inr))"

subsection \<open>Loading, tables and matching\<close>

text \<open>A mapping of zone configs and a sequence of route configs; \<open>None\<close> for any other value.\<close>

type_synonym zones_config = "(pyval \<times> zone_config) list option"
type_synonym routes_config = "route_config list option"

definition zones_of :: "pyval \<Rightarrow> zones_config" where
  "zones_of v = (case v of PDict kvs \<Rightarrow> Some (map (\<lambda>(k, x). (k, ZoneValue x)) kvs) | _ \<Rightarrow> None)"

definition routes_of :: "pyval \<Rightarrow> routes_config" where
  "routes_of v = map_option (map RouteValue) (sequence_items v)"

fun load_zones :: "(pyval \<times> zone_config) list \<Rightarrow> zone_definitions res" where
  "load_zones [] = Inr []"
| "load_zones ((name, v) # zs) =
     (case name of
        PStr n \<Rightarrow> rbind (coerce_zone_definition v) (\<lambda>d. rbind (zone_expression d) (\<lambda>_.
          rbind (load_zones zs) (\<lambda>ds. Inr ((n, d) # ds))))
      | _ \<Rightarrow> Inl TypeError)"

definition load_zone_definitions :: "zones_config \<Rightarrow> zone_definitions res" where
  "load_zone_definitions c = (case c of None \<Rightarrow> Inl TypeError | Some zs \<Rightarrow> load_zones zs)"

definition load_route_definitions :: "routes_config \<Rightarrow> route_definition list res" where
  "load_route_definitions c = (case c of None \<Rightarrow> Inl TypeError | Some rs \<Rightarrow> rmap coerce_route_definition rs)"

definition as_configs :: "zone_definitions \<Rightarrow> (pyval \<times> zone_config) list" where
  "as_configs = map (\<lambda>(n, d). (PStr n, ZoneDef d))"

definition validate_route_zone_references :: "resolved \<Rightarrow> route_definition list \<Rightarrow> unit res" where
  "validate_route_zone_references rz routes =
     (if list_all (\<lambda>r. rd_from r \<in> set (keys rz)) routes then Inr () else Inl UnknownZoneError)"

definition validate_routing_config :: "zones_config \<Rightarrow> routes_config \<Rightarrow> resolved res" where
  "validate_routing_config zones routes =
     rbind (load_zone_definitions zones) (\<lambda>zs.
     rbind (load_route_definitions routes) (\<lambda>rs.
     rbind (resolve_zones (as_configs zs)) (\<lambda>rz.
     rbind (validate_route_zone_references rz rs) (\<lambda>_. Inr rz))))"

record target_route =
  tr_sources :: "pystr set"
  tr_targets :: "int list"

record routing_table =
  resolved_zones :: resolved
  route_definitions :: "route_definition list"
  compiled_target_routes :: "target_route list option"

definition routing_table :: "resolved \<Rightarrow> route_definition list \<Rightarrow> routing_table res" where
  "routing_table rz routes =
     rbind (validate_route_zone_references rz routes) (\<lambda>_.
       Inr \<lparr>resolved_zones = rz, route_definitions = routes, compiled_target_routes = None\<rparr>)"

definition has_compiled_target_plan :: "routing_table \<Rightarrow> bool" where
  "has_compiled_target_plan t \<longleftrightarrow> compiled_target_routes t \<noteq> None"

definition from_definitions :: "(pyval \<times> zone_config) list \<Rightarrow> routes_config \<Rightarrow> routing_table res" where
  "from_definitions zones routes =
     rbind (resolve_zones zones) (\<lambda>rz. rbind (load_route_definitions routes) (routing_table rz))"

definition from_config :: "zones_config \<Rightarrow> routes_config \<Rightarrow> routing_table res" where
  "from_config zones routes =
     rbind (load_zone_definitions zones) (\<lambda>zs. rbind (load_route_definitions routes) (\<lambda>rs.
     rbind (resolve_zones (as_configs zs)) (\<lambda>rz. routing_table rz rs)))"

text \<open>Appending what was not seen yet, in order.\<close>

fun add_new :: "'a list \<Rightarrow> 'a list \<Rightarrow> 'a list" where
  "add_new [] seen = seen"
| "add_new (t # ts) seen = add_new ts (if t \<in> set seen then seen else seen @ [t])"

record routing_result =
  rr_names :: "pystr list"
  rr_targets :: "pystr list"

fun match_loop ::
  "pystr \<Rightarrow> resolved \<Rightarrow> route_config list \<Rightarrow> pystr list \<Rightarrow> pystr list \<Rightarrow> routing_result res" where
  "match_loop source rz [] names targets = Inr \<lparr>rr_names = names, rr_targets = targets\<rparr>"
| "match_loop source rz (r # rs) names targets =
     rbind (coerce_route_definition r) (\<lambda>d.
     case map_of rz (rd_from d) of
       None \<Rightarrow> Inl UnknownZoneError
     | Some sources \<Rightarrow>
         if source \<notin> sources then match_loop source rz rs names targets
         else match_loop source rz rs (names @ [rd_name d]) (add_new (rd_to d) targets))"

definition match_routes :: "pystr \<Rightarrow> resolved \<Rightarrow> route_config list \<Rightarrow> routing_result res" where
  "match_routes source rz routes = match_loop source rz routes [] []"

definition match :: "routing_table \<Rightarrow> pystr \<Rightarrow> routing_result res" where
  "match t source = match_routes source (resolved_zones t) (map RouteDef (route_definitions t))"

definition compile_route :: "routing_table \<Rightarrow> (pystr \<times> int) list \<Rightarrow> route_definition \<Rightarrow> target_route res" where
  "compile_route t ids r =
     (case map_of (resolved_zones t) (rd_from r) of
        None \<Rightarrow> Inl KeyError
      | Some sources \<Rightarrow>
          rbind (rmap (\<lambda>n. case map_of ids n of None \<Rightarrow> Inl KeyError | Some i \<Rightarrow> Inr i) (rd_to r)) (\<lambda>ts.
            Inr \<lparr>tr_sources = sources, tr_targets = ts\<rparr>))"

definition unknown_targets :: "(pystr \<times> int) list \<Rightarrow> route_definition list \<Rightarrow> bool" where
  "unknown_targets ids routes \<longleftrightarrow> list_ex (\<lambda>r. list_ex (\<lambda>n. n \<notin> set (keys ids)) (rd_to r)) routes"

definition compile_target_ids :: "pyval \<Rightarrow> routing_table \<Rightarrow> routing_table res" where
  "compile_target_ids target_ids t =
     rbind (freeze_target_id_by_name target_ids) (\<lambda>ids.
       if unknown_targets ids (route_definitions t) then Inl ValueError
       else rbind (rmap (compile_route t ids) (route_definitions t)) (\<lambda>plan.
         rbind (routing_table (resolved_zones t) (route_definitions t)) (\<lambda>t'.
           Inr (t'\<lparr>compiled_target_routes := Some plan\<rparr>))))"

fun match_plan :: "pystr \<Rightarrow> target_route list \<Rightarrow> int list \<Rightarrow> int list" where
  "match_plan source [] targets = targets"
| "match_plan source (r # rs) targets =
     (if source \<notin> tr_sources r then match_plan source rs targets
      else match_plan source rs (add_new (tr_targets r) targets))"

definition match_target_ids :: "routing_table \<Rightarrow> pystr \<Rightarrow> int list res" where
  "match_target_ids t source =
     (case compiled_target_routes t of
        None \<Rightarrow> Inl RuntimeError
      | Some plan \<Rightarrow> Inr (match_plan source plan []))"

subsection \<open>What zone definitions denote\<close>

text \<open>
  The sources of an operation on source sets: in some operand; in each of at least one
  operand; in the first operand and in none of the others.
\<close>

definition operation_sources :: "zone_operation \<Rightarrow> pystr set list \<Rightarrow> pystr set" where
  "operation_sources op ss =
     {x. case op of
           UnionOf \<Rightarrow> \<exists>s \<in> set ss. x \<in> s
         | IntersectionOf \<Rightarrow> ss \<noteq> [] \<and> (\<forall>s \<in> set ss. x \<in> s)
         | DifferenceOf \<Rightarrow> \<exists>s rest. ss = s # rest \<and> x \<in> s \<and> (\<forall>s' \<in> set rest. x \<notin> s')}"

lemma foldl_Int: "foldl (\<inter>) s ss = s \<inter> {x. \<forall>s' \<in> set ss. x \<in> s'}"
  by (induction ss arbitrary: s) auto

lemma foldl_Diff: "foldl (-) s ss = s - {x. \<exists>s' \<in> set ss. x \<in> s'}"
  by (induction ss arbitrary: s) auto

lemma apply_operation_sources: "apply_operation op ss = operation_sources op ss"
  by (cases ss; cases op) (auto simp: apply_operation_def operation_sources_def foldl_Int foldl_Diff)

inductive denotes :: "zone_definitions \<Rightarrow> pystr \<Rightarrow> pystr set \<Rightarrow> bool" for defs where
  incl: "map_of defs z = Some d \<Longrightarrow> zone_expression d = Inr (Include vs) \<Longrightarrow> denotes defs z (set vs)"
| oper: "map_of defs z = Some d \<Longrightarrow> zone_expression d = Inr (Operation op refs) \<Longrightarrow>
    list_all2 (denotes defs) refs ss \<Longrightarrow> denotes defs z (operation_sources op ss)"

text \<open>The references between zones.\<close>

definition references :: "zone_definitions \<Rightarrow> (pystr \<times> pystr) set" where
  "references defs = {(z, z'). \<exists>d op refs. map_of defs z = Some d \<and>
     zone_expression d = Inr (Operation op refs) \<and> z' \<in> set refs}"

lemma denotes_unique: "denotes defs z s \<Longrightarrow> denotes defs z s' \<Longrightarrow> s' = s"
proof (induction arbitrary: s' rule: denotes.induct)
  case (incl z d vs)
  from incl(3,1,2) show ?case by cases auto
next
  case (oper z d op refs ss)
  from oper(4,1,2) obtain ss' where s': "list_all2 (denotes defs) refs ss'" "s' = operation_sources op ss'"
    by cases auto
  have "ss' = ss"
    using oper(3) s'(1) by (induction refs ss arbitrary: ss' rule: list_all2_induct) (auto simp: list_all2_Cons1)
  with s'(2) show ?case by simp
qed

lemma denotes_acyclic: "denotes defs z s \<Longrightarrow> z \<in> Wellfounded.acc ((references defs)\<inverse>)"
proof (induction rule: denotes.induct)
  case (incl z d vs)
  then show ?case by (rule_tac accI) (auto simp: references_def)
next
  case (oper z d op refs ss)
  then have "\<forall>z' \<in> set refs. z' \<in> Wellfounded.acc ((references defs)\<inverse>)"
    by (auto simp: list_all2_conv_all_nth in_set_conv_nth)
  with oper(1,2) show ?case by (rule_tac accI) (auto simp: references_def)
qed

lemma acc_no_cycle: "z \<in> Wellfounded.acc (r\<inverse>) \<Longrightarrow> (z, z) \<notin> r\<^sup>+"
proof (induction rule: acc.induct)
  case (accI z)
  show ?case
  proof
    assume "(z, z) \<in> r\<^sup>+"
    then obtain y where "(z, y) \<in> r" "(y, z) \<in> r\<^sup>*" by (meson tranclD)
    then have "(y, y) \<in> r\<^sup>+" by (meson rtrancl_into_trancl1)
    with accI \<open>(z, y) \<in> r\<close> show False by blast
  qed
qed

subsection \<open>Resolution computes the denotation\<close>

definition sound :: "zone_definitions \<Rightarrow> resolved \<Rightarrow> bool" where
  "sound defs r \<longleftrightarrow> distinct (keys r) \<and> (\<forall>(z, s) \<in> set r. denotes defs z s)"

text \<open>Why a resolution may fail.\<close>

definition resolution_failure :: "zone_definitions \<Rightarrow> pystr set \<Rightarrow> py_error \<Rightarrow> bool" where
  "resolution_failure defs roots e \<longleftrightarrow>
     (e = UnknownZoneError \<and> (\<exists>z \<in> (references defs)\<^sup>* `` roots. map_of defs z = None)) \<or>
     (e = CircularZoneReferenceError \<and> (\<exists>z. (z, z) \<in> (references defs)\<^sup>+)) \<or>
     (e = ZoneResolutionError \<and> (\<exists>(z, d) \<in> set defs. zone_expression d = Inl e))"

lemma zone_expression_error: "zone_expression d = Inl e \<Longrightarrow> e = ZoneResolutionError"
  by (auto simp: zone_expression_def split: list.splits)

lemma sound_update:
  "sound defs r \<Longrightarrow> denotes defs z s \<Longrightarrow> sound defs (AList.update z s r)"
  using set_update [of z s r] unfolding sound_def by (auto simp: AList.distinct_update)

lemma failure_refs:
  "resolution_failure defs roots e \<Longrightarrow> roots \<subseteq> (references defs)\<^sup>* `` roots' \<Longrightarrow> resolution_failure defs roots' e"
  unfolding resolution_failure_def by (blast intro: rtrancl_trans)

text \<open>The results of one zone and of a list of references, given the path so far.\<close>

definition resolves :: "zone_definitions \<Rightarrow> resolved \<Rightarrow> pystr list \<Rightarrow> pystr set list \<Rightarrow> resolved \<Rightarrow> bool" where
  "resolves defs r zs ss r' \<longleftrightarrow> sound defs r' \<and> list_all2 (denotes defs) zs ss \<and>
     set zs \<union> dom (map_of r) \<subseteq> dom (map_of r')"

abbreviation under_path :: "zone_definitions \<Rightarrow> pystr list \<Rightarrow> pystr set \<Rightarrow> bool" where
  "under_path defs path zs \<equiv> \<forall>p \<in> set path. \<forall>z \<in> zs. (p, z) \<in> (references defs)\<^sup>+"

lemma resolve_operation:
  assumes d: "map_of defs z = Some d" "zone_expression d = Inr (Operation op refs)"
    and path: "under_path defs path {z}"
  shows "under_path defs (path @ [z]) (set refs)" and "set refs \<subseteq> (references defs)\<^sup>* `` {z}"
proof -
  have "\<forall>z' \<in> set refs. (z, z') \<in> references defs" using d by (auto simp: references_def)
  with path show "under_path defs (path @ [z]) (set refs)" "set refs \<subseteq> (references defs)\<^sup>* `` {z}"
    by (auto intro: trancl.trancl_into_trancl)
qed

lemma resolve_correct:
  "sound defs r \<Longrightarrow> under_path defs path {z} \<Longrightarrow>
    (case resolve defs path z r of
       Inl e \<Rightarrow> resolution_failure defs {z} e
     | Inr (s, r') \<Rightarrow> resolves defs r [z] [s] r')"
  and resolve_refs_correct:
  "sound defs r \<Longrightarrow> under_path defs path (set zs) \<Longrightarrow>
    (case resolve_refs defs path zs r of
       Inl e \<Rightarrow> resolution_failure defs (set zs) e
     | Inr (ss, r') \<Rightarrow> resolves defs r zs ss r')"
proof (induction defs path z r and defs path zs r rule: resolve_resolve_refs.induct)
  case (1 defs path z r)
  show ?case
  proof (cases "map_of r z")
    case (Some s)
    then have "denotes defs z s" using "1.prems"(1) map_of_SomeD [OF Some] by (auto simp: sound_def)
    then show ?thesis using Some "1.prems"(1) by (auto simp: resolve.simps resolves_def)
  next
    case r: None
    show ?thesis
    proof (cases "map_of defs z")
      case None
      then show ?thesis using r by (auto simp: resolve.simps resolution_failure_def)
    next
      case d: (Some d)
      show ?thesis
      proof (cases "z \<in> set path")
        case True
        then show ?thesis using r d "1.prems"(2) by (auto simp: resolve.simps resolution_failure_def)
      next
        case path: False
        show ?thesis
        proof (cases "zone_expression d")
          case (Inl e)
          then show ?thesis using r d path zone_expression_error [OF Inl] map_of_SomeD [OF d]
            by (force simp: resolve.simps resolution_failure_def)
        next
          case (Inr e)
          show ?thesis
          proof (cases e)
            case (Include vs)
            then have "denotes defs z (set vs)" using d Inr by (auto intro: denotes.incl)
            then show ?thesis using r d path Inr Include sound_update [OF "1.prems"(1)]
              by (auto simp: resolve.simps resolves_def update_conv')
          next
            case (Operation op refs)
            note up = resolve_operation [OF d Inr [unfolded Operation] "1.prems"(2)]
            note ih = "1.IH" [OF r d path Inr Operation "1.prems"(1) up(1)]
            show ?thesis
            proof (cases "resolve_refs defs (path @ [z]) refs r")
              case (Inl e')
              then have "resolution_failure defs {z} e'" using ih failure_refs up(2) by simp
              then show ?thesis using Inl r d path Inr Operation by (simp add: resolve.simps)
            next
              case rr: (Inr q)
              obtain ss r' where q: "q = (ss, r')" by fastforce
              have ok: "resolves defs r refs ss r'" using ih rr q by simp
              then have "denotes defs z (apply_operation op ss)"
                using d Inr Operation by (auto intro: denotes.oper simp: resolves_def apply_operation_sources)
              then show ?thesis using ok rr q r d path Inr Operation sound_update [of defs r']
                by (auto simp: resolve.simps resolves_def update_conv' Let_def)
            qed
          qed
        qed
      qed
    qed
  qed
next
  case (3 defs path z zs r)
  have up: "under_path defs path {z}" "under_path defs path (set zs)" using "3.prems"(2) by auto
  note ih1 = "3.IH"(1) [OF "3.prems"(1) up(1)]
  show ?case
  proof (cases "resolve defs path z r")
    case (Inl e)
    with ih1 show ?thesis using failure_refs [of defs "{z}" e "set (z # zs)"] by auto
  next
    case (Inr q)
    obtain s r1 where q: "q = (s, r1)" by fastforce
    have ok1: "resolves defs r [z] [s] r1" using ih1 Inr q by simp
    then have "sound defs r1" by (simp add: resolves_def)
    note ih2 = "3.IH"(2) [OF Inr q [symmetric] this up(2)]
    show ?thesis
    proof (cases "resolve_refs defs path zs r1")
      case (Inl e)
      then have "resolution_failure defs (set (z # zs)) e"
        using ih2 failure_refs [of defs "set zs" e "set (z # zs)"] by auto
      with Inl Inr q show ?thesis by simp
    next
      case rr: (Inr q2)
      obtain ss r2 where q2: "q2 = (ss, r2)" by fastforce
      have "resolves defs r1 zs ss r2" using ih2 rr q2 by simp
      with ok1 have "resolves defs r (z # zs) (s # ss) r2" unfolding resolves_def by (simp, blast)
      with rr q2 Inr q show ?thesis by simp
    qed
  qed
qed (simp add: resolves_def)

lemma denotes_defined: "denotes defs z s \<Longrightarrow> z \<in> set (keys defs)"
proof -
  assume "denotes defs z s"
  then have "map_of defs z \<noteq> None" by cases simp_all
  then show "z \<in> set (keys defs)" by (simp only: map_of_eq_None_iff set_map not_not)
qed

lemma sound_map_of: "sound defs r \<Longrightarrow> map_of r z = Some s \<Longrightarrow> denotes defs z s"
  unfolding sound_def by (drule map_of_SomeD) blast

lemma sort_keys_eq:
  assumes "distinct (keys d)" and "distinct (keys d')" and "set (keys d) = set (keys d')"
  shows "sort (keys d) = sort (keys d')"
proof (rule sorted_distinct_set_unique)
  show "set (sort (keys d)) = set (sort (keys d'))" using assms(3) by (simp only: set_sort)
qed (use assms(1,2) in \<open>simp_all only: distinct_sort sorted_sort\<close>)

lemma resolve_zones_correct:
  assumes defs: "coerce_zones zones = Inr defs" and dist: "distinct (keys defs)"
  shows "case resolve_zones zones of
      Inr rz \<Rightarrow> keys rz = sort (keys defs) \<and> (\<forall>z s. map_of rz z = Some s \<longleftrightarrow> denotes defs z s) \<and>
        (\<forall>z \<in> set (keys defs). \<exists>s. denotes defs z s)
    | Inl e \<Rightarrow> resolution_failure defs (set (keys defs)) e"
proof (cases "resolve_refs defs [] (sort (keys defs)) []")
  case (Inl e)
  then show ?thesis
    using resolve_refs_correct [of defs "[]" "[]" "sort (keys defs)"] defs by (simp add: resolve_zones_def sound_def)
next
  case (Inr q)
  obtain ss r where q: "q = (ss, r)" by fastforce
  have ok: "resolves defs [] (sort (keys defs)) ss r"
    using resolve_refs_correct [of defs "[]" "[]" "sort (keys defs)"] Inr q by (simp add: sound_def)
  then have r: "sound defs r" "set (keys defs) \<subseteq> dom (map_of r)" by (simp_all add: resolves_def)
  have "set (keys r) = set (keys defs)"
  proof
    show "set (keys r) \<subseteq> set (keys defs)"
      using r(1) denotes_defined unfolding sound_def by fastforce
    show "set (keys defs) \<subseteq> set (keys r)" using r(2) by (simp add: dom_map_of_conv_image_fst)
  qed
  then have keys_r: "sort (keys r) = sort (keys defs)"
    using r(1) dist by (intro sort_keys_eq) (simp_all add: sound_def)
  let ?rz = "map (\<lambda>z. (z, the (map_of r z))) (sort (keys r))"
  have "rmap (\<lambda>z. case map_of r z of None \<Rightarrow> Inl KeyError | Some s \<Rightarrow> Inr (z, s)) (sort (keys r)) = Inr ?rz"
  proof (rule rmap_total)
    fix z
    assume "z \<in> set (sort (keys r))"
    then have "\<exists>s. map_of r z = Some s" unfolding set_sort by (metis keys_map_of)
    then show "(case map_of r z of None \<Rightarrow> Inl KeyError | Some s \<Rightarrow> Inr (z, s)) = Inr (z, the (map_of r z))" by auto
  qed
  then have rz: "resolve_zones zones = Inr ?rz" using Inr q defs by (simp add: resolve_zones_def)
  have "map_of ?rz z = Some s \<longleftrightarrow> denotes defs z s" for z s
  proof -
    have eq: "map_of ?rz z = (if z \<in> set (keys defs) then Some (the (map_of r z)) else None)"
      unfolding keys_r by (simp add: map_of_map_restrict restrict_map_def)
    show ?thesis
    proof (cases "z \<in> set (keys defs)")
      case True
      then obtain s' where "map_of r z = Some s'" using r(2) by auto
      moreover have "denotes defs z s'" by (rule sound_map_of [OF r(1)]) fact
      then have "denotes defs z s \<longleftrightarrow> s = s'" using denotes_unique by blast
      moreover have "map_of ?rz z = Some (the (map_of r z))" unfolding eq using True by simp
      ultimately show ?thesis by auto
    next
      case False
      then have "\<not> denotes defs z s" using denotes_defined by blast
      moreover have "map_of ?rz z = None" unfolding eq using False by simp
      ultimately show ?thesis by simp
    qed
  qed
  moreover have "\<exists>s. denotes defs z s" if "z \<in> set (keys defs)" for z
    using that r(2) sound_map_of [OF r(1)] by blast
  ultimately show ?thesis using rz keys_r by (simp add: comp_def del: list.set_map)
qed

subsection \<open>Matching\<close>

lemma add_new_map:
  "inj_on f (set ts \<union> set seen) \<Longrightarrow> add_new (map f ts) (map f seen) = map f (add_new ts seen)"
proof (induction ts seen rule: add_new.induct)
  case (2 t ts seen)
  have "f t \<in> f ` set seen \<longleftrightarrow> t \<in> set seen" using 2(2) by (auto simp: inj_on_def)
  with 2 show ?case by (auto simp: inj_on_subset insert_absorb)
qed simp

lemma set_add_new: "set (add_new ts seen) = set ts \<union> set seen"
  by (induction ts seen rule: add_new.induct) auto

lemma distinct_add_new: "distinct seen \<Longrightarrow> distinct (add_new ts seen)"
  by (induction ts seen rule: add_new.induct) auto

definition table_ok :: "routing_table \<Rightarrow> bool" where
  "table_ok t \<longleftrightarrow> (\<forall>r \<in> set (route_definitions t). \<exists>s. map_of (resolved_zones t) (rd_from r) = Some s)"

lemma routing_table_ok:
  "routing_table rz routes = Inr t \<Longrightarrow> table_ok t \<and> resolved_zones t = rz \<and> route_definitions t = routes \<and>
     compiled_target_routes t = None"
  by (auto simp: routing_table_def validate_route_zone_references_def table_ok_def rbind_Inr_iff list_all_iff
      keys_map_of [symmetric] simp del: list.set_map split: if_splits)

lemma table_ok_routing_table:
  "table_ok t \<Longrightarrow> routing_table (resolved_zones t) (route_definitions t) =
     Inr \<lparr>resolved_zones = resolved_zones t, route_definitions = route_definitions t, compiled_target_routes = None\<rparr>"
  by (simp add: routing_table_def validate_route_zone_references_def table_ok_def list_all_iff
      keys_map_of [symmetric] del: list.set_map)

text \<open>A compiled plan answers what the route definitions answer, with numbers for names.\<close>

definition number :: "(pystr \<times> int) list \<Rightarrow> pystr \<Rightarrow> int" where
  "number ids n = the (map_of ids n)"

lemma number_inj: "frozen ids \<Longrightarrow> inj_on (number ids) (set (keys ids))"
proof (rule inj_onI)
  fix n n'
  assume f: "frozen ids" and "n \<in> set (keys ids)" "n' \<in> set (keys ids)" and eq: "number ids n = number ids n'"
  then obtain i i' where "map_of ids n = Some i" "map_of ids n' = Some i'" by (metis keys_map_of)
  then have "(n, i) \<in> set ids" "(n', i) \<in> set ids" using eq by (auto simp: number_def dest: map_of_SomeD)
  moreover have "inj_on snd (set ids)" using f by (simp add: frozen_def distinct_map)
  ultimately have "(n, i) = (n', i)" using inj_onD [of snd "set ids" "(n, i)" "(n', i)"] by simp
  then show "n = n'" by simp
qed

lemma compile_routes:
  assumes "\<forall>r \<in> set rs. \<exists>s. map_of (resolved_zones t) (rd_from r) = Some s" and "\<not> unknown_targets ids rs"
  shows "rmap (compile_route t ids) rs = Inr (map (\<lambda>r. \<lparr>tr_sources = the (map_of (resolved_zones t) (rd_from r)),
    tr_targets = map (number ids) (rd_to r)\<rparr>) rs)"
proof (rule rmap_total)
  fix r
  assume r: "r \<in> set rs"
  have "rmap (\<lambda>n. case map_of ids n of None \<Rightarrow> Inl KeyError | Some i \<Rightarrow> Inr i) (rd_to r) = Inr (map (number ids) (rd_to r))"
  proof (rule rmap_total)
    fix n
    assume "n \<in> set (rd_to r)"
    then have "n \<in> set (keys ids)" using assms(2) r by (auto simp: unknown_targets_def list_ex_iff)
    then obtain i where "map_of ids n = Some i" by (metis keys_map_of)
    then show "(case map_of ids n of None \<Rightarrow> Inl KeyError | Some i \<Rightarrow> Inr i) = Inr (number ids n)"
      by (simp add: number_def)
  qed
  with assms(1) r show "compile_route t ids r = Inr \<lparr>tr_sources = the (map_of (resolved_zones t) (rd_from r)),
      tr_targets = map (number ids) (rd_to r)\<rparr>"
    by (auto simp: compile_route_def)
qed

lemma compile_effect:
  assumes ok: "table_ok t" and c: "compile_target_ids v t = Inr t'" and f: "freeze_target_id_by_name v = Inr ids"
  shows "\<not> unknown_targets ids (route_definitions t)"
    and "t' = \<lparr>resolved_zones = resolved_zones t, route_definitions = route_definitions t,
      compiled_target_routes = Some (map (\<lambda>r. \<lparr>tr_sources = the (map_of (resolved_zones t) (rd_from r)),
        tr_targets = map (number ids) (rd_to r)\<rparr>) (route_definitions t))\<rparr>"
proof -
  show u: "\<not> unknown_targets ids (route_definitions t)"
    using c f by (auto simp: compile_target_ids_def)
  with c f compile_routes [OF ok [unfolded table_ok_def] u] table_ok_routing_table [OF ok]
  show "t' = \<lparr>resolved_zones = resolved_zones t, route_definitions = route_definitions t,
      compiled_target_routes = Some (map (\<lambda>r. \<lparr>tr_sources = the (map_of (resolved_zones t) (rd_from r)),
        tr_targets = map (number ids) (rd_to r)\<rparr>) (route_definitions t))\<rparr>"
    by (simp add: compile_target_ids_def)
qed

lemma match_loop_plan:
  assumes "\<forall>r \<in> set rs. \<exists>s. map_of rz (rd_from r) = Some s"
    and "\<not> unknown_targets ids rs" and "frozen ids" and "set targets \<subseteq> set (keys ids)"
  shows "\<exists>res. match_loop source rz (map RouteDef rs) names targets = Inr res \<and>
    set (rr_targets res) \<subseteq> set (keys ids) \<and>
    (distinct targets \<longrightarrow> distinct (rr_targets res)) \<and>
    match_plan source (map (\<lambda>r. \<lparr>tr_sources = the (map_of rz (rd_from r)),
      tr_targets = map (number ids) (rd_to r)\<rparr>) rs) (map (number ids) targets) = map (number ids) (rr_targets res)"
  using assms
proof (induction rs arbitrary: names targets)
  case (Cons r rs)
  obtain s where s: "map_of rz (rd_from r) = Some s" using Cons.prems(1) by auto
  have rs: "\<forall>r \<in> set rs. \<exists>s. map_of rz (rd_from r) = Some s" "\<not> unknown_targets ids rs"
    "set (rd_to r) \<subseteq> set (keys ids)"
    using Cons.prems(1,2) by (auto simp: unknown_targets_def list_ex_iff)
  show ?case
  proof (cases "source \<in> s")
    case False
    then show ?thesis using Cons.IH [OF rs(1,2) Cons.prems(3,4)] s by (simp add: coerce_route_definition_def)
  next
    case True
    have "add_new (map (number ids) (rd_to r)) (map (number ids) targets) =
        map (number ids) (add_new (rd_to r) targets)"
      using rs(3) Cons.prems(4) by (intro add_new_map inj_on_subset [OF number_inj [OF Cons.prems(3)]]) auto
    moreover have "set (add_new (rd_to r) targets) \<subseteq> set (keys ids)"
      using rs(3) Cons.prems(4) by (simp add: set_add_new)
    moreover have "distinct targets \<Longrightarrow> distinct (add_new (rd_to r) targets)" by (rule distinct_add_new)
    ultimately show ?thesis
      using Cons.IH [OF rs(1,2) Cons.prems(3), of "add_new (rd_to r) targets"] True s
      by (simp add: coerce_route_definition_def) blast
  qed
qed (simp add: unknown_targets_def)

lemma compiled_plan_equiv_lemma:
  assumes table: "routing_table rz routes = Inr t" and compile: "compile_target_ids v t = Inr t'"
    and ids: "freeze_target_id_by_name v = Inr ids" and dict: "\<And>kvs. v = PDict kvs \<Longrightarrow> distinct (keys kvs)"
  shows "\<exists>res. match t source = Inr res \<and> match t' source = Inr res \<and>
    set (rr_targets res) \<subseteq> set (keys ids) \<and>
    match_target_ids t' source = Inr (map (\<lambda>n. the (map_of ids n)) (rr_targets res)) \<and>
    distinct (map (\<lambda>n. the (map_of ids n)) (rr_targets res))"
proof -
  have t: "table_ok t" by (rule routing_table_ok [OF table, THEN conjunct1])
  have f: "frozen ids" using freeze_frozen [OF ids dict] by blast
  note eff = compile_effect [OF t compile ids]
  obtain res where res: "match_loop source (resolved_zones t) (map RouteDef (route_definitions t)) [] [] = Inr res"
    "set (rr_targets res) \<subseteq> set (keys ids)" "distinct (rr_targets res)"
    "match_plan source (map (\<lambda>r. \<lparr>tr_sources = the (map_of (resolved_zones t) (rd_from r)),
      tr_targets = map (number ids) (rd_to r)\<rparr>) (route_definitions t)) [] = map (number ids) (rr_targets res)"
    using match_loop_plan [OF t [unfolded table_ok_def] eff(1) f, of "[]" source "[]"] by auto
  have "inj_on (number ids) (set (rr_targets res))"
    using number_inj [OF f] res(2) by (rule inj_on_subset)
  then have "distinct (map (number ids) (rr_targets res))" using res(3) by (simp add: distinct_map)
  with res eff(2) show ?thesis
    by (simp add: match_def match_routes_def match_target_ids_def number_def [abs_def])
qed

subsection \<open>Properties\<close>

text \<open>
  C26. Zone resolution computes what the definitions mean. When \<open>resolve_zones\<close> returns, its
  zones are the defined ones in sorted order, and the source set of each is the one its
  expression denotes (an explicit set, or the union, intersection or left-to-right difference
  of what the referenced zones denote); the memo table and the order of evaluation do not
  show.
\<close>

theorem zones_denote:
  assumes "coerce_zones zones = Inr defs" and "distinct (keys defs)" and "resolve_zones zones = Inr rz"
  shows "keys rz = sort (keys defs) \<and> (\<forall>z s. map_of rz z = Some s \<longleftrightarrow> denotes defs z s)"
  using resolve_zones_correct [OF assms(1,2)] assms(3) by simp

text \<open>Three zones: two sets and a difference.\<close>

definition no_zone :: zone_definition where
  "no_zone = \<lparr>zd_include = None, zd_union = None, zd_intersection = None, zd_difference = None\<rparr>"

definition example_zones :: zone_definitions where
  "example_zones = [([3], no_zone\<lparr>zd_difference := Some [[1], [2]]\<rparr>), ([1], no_zone\<lparr>zd_include := Some [[7], [8]]\<rparr>),
     ([2], no_zone\<lparr>zd_include := Some [[8]]\<rparr>)]"

lemma coerce_as_configs [simp]: "coerce_zones (as_configs defs) = Inr defs"
  by (induction defs) (auto simp: as_configs_def coerce_zone_definition_def)

lemma example_zones_resolved:
  "resolve_zones (as_configs example_zones) = Inr [([1], {[7], [8]}), ([2], {[8]}), ([3], {[7]})]"
proof -
  have "sort (keys example_zones) = [[1], [2], [3]]" by (simp add: example_zones_def)
  moreover have "resolve_refs example_zones [] [[1], [2], [3]] [] =
      Inr ([{[7], [8]}, {[8]}, {[7]}], [([1], {[7], [8]}), ([2], {[8]}), ([3], {[7]})])"
    by (simp add: resolve.simps example_zones_def no_zone_def zone_expression_def List.map_filter_simps
        apply_operation_def Let_def insert_Diff_if)
  ultimately show ?thesis by (simp add: resolve_zones_def)
qed

lemma zones_denote_witness: "denotes example_zones [3] {[7]}"
proof -
  have "distinct (keys example_zones)" by (simp add: example_zones_def)
  note z = zones_denote [OF coerce_as_configs this example_zones_resolved]
  have "map_of [([1], {[7], [8]}), ([2], {[8]}), ([3::nat], {[7::nat]})] [3] = Some {[7]}" by simp
  with z show ?thesis by blast
qed

text \<open>
  Zone resolution ends and fails exactly on bad definitions: it returns if and only if
  every zone has exactly one expression, every reference is defined, and the references have
  no cycle; and when it raises, it raises \<open>UnknownZoneError\<close> only for an undefined reference,
  \<open>CircularZoneReferenceError\<close> only for a cycle, \<open>ZoneResolutionError\<close> only for a definition
  without exactly one expression.
\<close>

theorem zones_resolve_iff:
  assumes defs: "coerce_zones zones = Inr defs" and dist: "distinct (keys defs)"
  shows "((\<exists>rz. resolve_zones zones = Inr rz) \<longleftrightarrow>
      (\<forall>(z, d) \<in> set defs. \<exists>e. zone_expression d = Inr e) \<and>
      snd ` references defs \<subseteq> set (keys defs) \<and> acyclic (references defs)) \<and>
    (\<forall>e. resolve_zones zones = Inl e \<longrightarrow>
      (e = UnknownZoneError \<and> \<not> snd ` references defs \<subseteq> set (keys defs)) \<or>
      (e = CircularZoneReferenceError \<and> \<not> acyclic (references defs)) \<or>
      (e = ZoneResolutionError \<and> (\<exists>(z, d) \<in> set defs. zone_expression d = Inl e)))"
proof -
  have undefined: "\<not> snd ` references defs \<subseteq> set (keys defs)"
    if z: "z \<in> (references defs)\<^sup>* `` set (keys defs)" "map_of defs z = None" for z
  proof
    assume sub: "snd ` references defs \<subseteq> set (keys defs)"
    from z(1) obtain y where "(y, z) \<in> (references defs)\<^sup>*" "y \<in> set (keys defs)" by blast
    then have "z \<in> set (keys defs)" using sub by (induction rule: rtrancl_induct) force+
    with z(2) show False by (metis keys_map_of option.distinct(1))
  qed
  have fail: "(e = UnknownZoneError \<and> \<not> snd ` references defs \<subseteq> set (keys defs)) \<or>
      (e = CircularZoneReferenceError \<and> \<not> acyclic (references defs)) \<or>
      (e = ZoneResolutionError \<and> (\<exists>(z, d) \<in> set defs. zone_expression d = Inl e))"
    if "resolve_zones zones = Inl e" for e
    using resolve_zones_correct [OF defs dist] that undefined
    by (auto simp: resolution_failure_def acyclic_def simp del: list.set_map)
  have good: "(\<forall>(z, d) \<in> set defs. \<exists>e. zone_expression d = Inr e) \<and>
      snd ` references defs \<subseteq> set (keys defs) \<and> acyclic (references defs)"
    if "resolve_zones zones = Inr rz" for rz
  proof (intro conjI)
    have all: "\<forall>z \<in> set (keys defs). \<exists>s. denotes defs z s"
      using resolve_zones_correct [OF defs dist] that by simp
    show "\<forall>(z, d) \<in> set defs. \<exists>e. zone_expression d = Inr e"
    proof clarify
      fix z d
      assume zd: "(z, d) \<in> set defs"
      then obtain s where "denotes defs z s" using all by force
      then obtain d' e where "map_of defs z = Some d'" "zone_expression d' = Inr e" by cases auto
      moreover have "map_of defs z = Some d" using dist zd by simp
      ultimately show "\<exists>e. zone_expression d = Inr e" by auto
    qed
    show "snd ` references defs \<subseteq> set (keys defs)"
    proof
      fix z'
      assume "z' \<in> snd ` references defs"
      then obtain z d op refs where z: "map_of defs z = Some d" "zone_expression d = Inr (Operation op refs)" "z' \<in> set refs"
        by (auto simp: references_def)
      then have "z \<in> set (keys defs)" by (metis keys_map_of)
      then obtain s where "denotes defs z s" using all by blast
      then obtain ss where "list_all2 (denotes defs) refs ss" using z(1,2) by cases auto
      then obtain s' where "denotes defs z' s'" using z(3) by (auto simp: list_all2_conv_all_nth in_set_conv_nth)
      then show "z' \<in> set (keys defs)" by (rule denotes_defined)
    qed
    have "(z, z) \<notin> (references defs)\<^sup>+" for z
    proof
      assume c: "(z, z) \<in> (references defs)\<^sup>+"
      then obtain y where "(z, y) \<in> references defs" by (meson tranclD)
      then have "map_of defs z \<noteq> None" by (auto simp: references_def)
      then have "z \<in> set (keys defs)" by (simp only: map_of_eq_None_iff set_map not_not)
      then obtain s where "denotes defs z s" using all by blast
      from acc_no_cycle [OF denotes_acyclic [OF this]] c show False by contradiction
    qed
    then show "acyclic (references defs)" by (simp add: acyclic_def)
  qed
  have return: "\<exists>rz. resolve_zones zones = Inr rz"
    if ok: "\<forall>(z, d) \<in> set defs. \<exists>e. zone_expression d = Inr e"
      and "snd ` references defs \<subseteq> set (keys defs)" "acyclic (references defs)"
  proof (cases "resolve_zones zones")
    case (Inl e)
    have "\<not> (\<exists>(z, d) \<in> set defs. zone_expression d = Inl e)" using ok by fastforce
    with fail [OF Inl] that(2,3) show ?thesis by blast
  qed simp
  show ?thesis
    by (intro conjI iffI allI impI) (use good return fail in \<open>blast+\<close>)
qed

lemma zones_resolve_iff_witness:
  "snd ` references example_zones \<subseteq> {[1], [2], [3]} \<and> acyclic (references example_zones)"
proof -
  have "distinct (keys example_zones)" "set (keys example_zones) = {[1], [2], [3]}"
    by (auto simp: example_zones_def)
  with zones_resolve_iff [OF coerce_as_configs this(1)] example_zones_resolved show ?thesis by metis
qed

text \<open>
  C27. The compiled plan answers what the descriptive routes answer. For a table whose routes
  all come from defined zones, compiling against a table of target numbers leaves zones and
  routes as they are, and for every source the numeric targets are the numbers of the named
  targets \<open>match\<close> returns, in the same order, each once.
\<close>

theorem compiled_plan_equiv:
  assumes table: "routing_table rz routes = Inr t" and compile: "compile_target_ids v t = Inr t'"
    and ids: "freeze_target_id_by_name v = Inr ids" and dict: "\<And>kvs. v = PDict kvs \<Longrightarrow> distinct (keys kvs)"
  shows "\<exists>res. match t source = Inr res \<and> match t' source = Inr res \<and>
    set (rr_targets res) \<subseteq> set (keys ids) \<and>
    match_target_ids t' source = Inr (map (\<lambda>n. the (map_of ids n)) (rr_targets res)) \<and>
    distinct (map (\<lambda>n. the (map_of ids n)) (rr_targets res))"
  by (rule compiled_plan_equiv_lemma [OF assms])

definition example_routes :: "route_definition list" where
  "example_routes = [\<lparr>rd_name = [10], rd_from = [3], rd_to = [[65], [66]]\<rparr>,
     \<lparr>rd_name = [11], rd_from = [1], rd_to = [[66], [67]]\<rparr>]"

definition example_ids :: "(pystr \<times> int) list" where
  "example_ids = [([67], 0), ([66], 5), ([65], 2)]"

definition example_table :: routing_table where
  "example_table = \<lparr>resolved_zones = [([1], {[7], [8]}), ([2], {[8]}), ([3], {[7]})],
     route_definitions = example_routes, compiled_target_routes = None\<rparr>"

lemma example_table: "routing_table (resolved_zones example_table) example_routes = Inr example_table"
  by (simp add: routing_table_def validate_route_zone_references_def example_table_def example_routes_def)

lemma example_frozen: "frozen example_ids"
  by (simp add: frozen_def example_ids_def)

lemma compiled_plan_equiv_witness:
  "\<exists>t' res. compile_target_ids (mapping_of example_ids) example_table = Inr t' \<and>
     match example_table [7] = Inr res \<and> rr_targets res = [[65], [66], [67]] \<and>
     match_target_ids t' [7] = Inr [2, 5, 0]"
proof -
  have c: "compile_target_ids (mapping_of example_ids) example_table = Inr (example_table\<lparr>compiled_target_routes :=
      Some [\<lparr>tr_sources = {[7]}, tr_targets = [2, 5]\<rparr>, \<lparr>tr_sources = {[7], [8]}, tr_targets = [5, 0]\<rparr>]\<rparr>)"
    by (simp add: compile_target_ids_def freeze_mapping_of example_frozen)
      (simp add: example_table_def example_routes_def example_ids_def unknown_targets_def compile_route_def
        routing_table_def validate_route_zone_references_def)
  have d: "distinct (keys kvs)" if "mapping_of example_ids = PDict kvs" for kvs
    using that by (auto simp: mapping_of_def example_ids_def)
  have m: "match example_table [7] = Inr \<lparr>rr_names = [[10], [11]], rr_targets = [[65], [66], [67]]\<rparr>"
    by (simp add: match_def match_routes_def example_table_def example_routes_def coerce_route_definition_def)
  from compiled_plan_equiv [OF example_table c freeze_mapping_of [OF example_frozen] d, of "[7]"] c m
  show ?thesis by (simp add: example_ids_def)
qed

end
