(* ===== verification/RoutingControl.thy ===== *)
theory RoutingControl
  imports Routing DataPlane
begin

section \<open>Routing state and its control (\<open>core/routing_state.py\<close>, \<open>core/runtime_routing.py\<close>, \<open>core/routing_control.py\<close>)\<close>

text \<open>
  The active routing table of a process is one immutable snapshot with a generation number,
  replaced as a whole under a lock; each locked section is one step of the model. The control
  service compiles a candidate configuration completely before it installs it. The store is
  an instance of the locale \<open>versioned_store\<close>, whose clients get that of several updates
  made against one generation at most one is installed. What is shown: a rejected candidate
  changes nothing and is always reported as the documented error, and every table the service
  installs yields valid processing snapshots.
\<close>

subsection \<open>The store\<close>

record routing_snapshot =
  generation :: int
  table :: "routing_table option"

fun validate_table :: "routing_table option \<Rightarrow> unit res" where
  "validate_table None = Inr ()"
| "validate_table (Some t) = (if has_compiled_target_plan t then Inr () else Inl ValueError)"

definition routing_state_init :: "routing_table option \<Rightarrow> routing_snapshot res" where
  "routing_state_init t = rbind (validate_table t) (\<lambda>_. Inr \<lparr>generation = 0, table = t\<rparr>)"

definition routing_replace ::
  "routing_table option \<Rightarrow> int option \<Rightarrow> routing_snapshot \<Rightarrow> routing_snapshot res" where
  "routing_replace t expected current =
     rbind (validate_table t) (\<lambda>_.
       case expected of
         Some e \<Rightarrow>
           if e \<noteq> generation current then Inl (StaleRoutingGenerationError e (generation current))
           else Inr \<lparr>generation = generation current + 1, table = t\<rparr>
       | None \<Rightarrow> Inr \<lparr>generation = generation current + 1, table = t\<rparr>)"

text \<open>
  A store of versioned values with compare-and-swap: a replacement that returns moves the
  version on by one, and one that names an expected version returns only at that version.
\<close>

locale versioned_store =
  fixes replace :: "'v \<Rightarrow> int option \<Rightarrow> 's \<Rightarrow> 's res"
    and version :: "'s \<Rightarrow> int"
    and stored :: "'s \<Rightarrow> 'v"
  assumes replace_version: "replace v e s = Inr s' \<Longrightarrow> version s' = version s + 1 \<and> stored s' = v"
    and replace_expected: "replace v (Some g) s = Inr s' \<Longrightarrow> g = version s"
begin

text \<open>A sequence of replacements, in the order their locked sections run; a failed one leaves the store.\<close>

fun run :: "('v \<times> int option) list \<Rightarrow> 's \<Rightarrow> bool list \<times> 's" where
  "run [] s = ([], s)"
| "run ((v, e) # ops) s =
     (case replace v e s of
        Inl _ \<Rightarrow> (case run ops s of (bs, s') \<Rightarrow> (False # bs, s'))
      | Inr s1 \<Rightarrow> (case run ops s1 of (bs, s') \<Rightarrow> (True # bs, s')))"

lemma run_version: "run ops s = (bs, s') \<Longrightarrow> version s' = version s + int (length (filter id bs)) \<and> length bs = length ops"
  by (induction ops s arbitrary: bs rule: run.induct)
    (auto split: sum.splits prod.splits dest: replace_version)

text \<open>The updates that name version \<open>g\<close>: at most one of them is installed.\<close>

lemma run_at_most_once:
  assumes "run ops s = (bs, s')"
  shows "length (filter (\<lambda>((v, e), b). e = Some g \<and> b) (zip ops bs)) \<le> (if version s \<le> g then 1 else 0)"
  using assms
proof (induction ops s arbitrary: bs s' rule: run.induct)
  case (2 v e ops s)
  show ?case
  proof (cases "replace v e s")
    case (Inl err)
    then show ?thesis using 2 by (auto split: prod.splits)
  next
    case (Inr s1)
    then obtain bs' where bs: "bs = True # bs'" "run ops s1 = (bs', s')" using 2(3) by (auto split: prod.splits)
    note ih = "2.IH"(2) [OF Inr bs(2)]
    have v: "version s1 = version s + 1" using replace_version [OF Inr] by simp
    show ?thesis
    proof (cases "e = Some g")
      case True
      then have "g = version s" using replace_expected [of v g s s1] Inr by simp
      with ih v bs(1) True show ?thesis by simp
    next
      case False
      have "(if version s1 \<le> g then 1 else 0) \<le> (if version s \<le> g then 1 else (0::nat))" using v by simp
      with ih bs(1) False show ?thesis by (simp add: case_prod_beta split: if_splits)
    qed
  qed
qed simp

end

interpretation rs: versioned_store routing_replace generation table
  by unfold_locales (auto simp: routing_replace_def rbind_Inr_iff split: option.splits if_splits)

subsection \<open>Compiling a routing section\<close>

definition validate_available_targets :: "routing_table \<Rightarrow> (pystr \<times> int) list \<Rightarrow> unit res" where
  "validate_available_targets t ids =
     (if unknown_targets ids (route_definitions t) then Inl RuntimeRoutingConfigError else Inr ())"

definition compile_routing_section :: "pyval \<Rightarrow> pyval \<Rightarrow> routing_table res" where
  "compile_routing_section cfg tids =
     (case cfg of
        PDict kvs \<Rightarrow>
          rbind (freeze_target_id_by_name tids) (\<lambda>ids.
          if unknown_fields [''zones'', ''routes''] kvs then Inl RuntimeRoutingConfigError
          else (case (map_of kvs (PStr (lit ''zones'')), map_of kvs (PStr (lit ''routes''))) of
            (Some zones, Some routes) \<Rightarrow>
              rbind (from_config (zones_of zones) (routes_of routes)) (\<lambda>t.
              rbind (validate_available_targets t ids) (\<lambda>_.
              compile_target_ids (mapping_of ids) t))
          | _ \<Rightarrow> Inl RuntimeRoutingConfigError))
      | _ \<Rightarrow> Inl RuntimeRoutingConfigError)"

definition load_optional_routing_table ::
  "(pyval \<times> pyval) list \<Rightarrow> pyval \<Rightarrow> routing_table option res" where
  "load_optional_routing_table config tids =
     rbind (freeze_target_id_by_name tids) (\<lambda>ids.
       case map_of config (PStr (lit ''routing'')) of
         None \<Rightarrow> Inr None
       | Some PNone \<Rightarrow> Inr None
       | Some section \<Rightarrow> rbind (compile_routing_section section (mapping_of ids)) (\<lambda>t. Inr (Some t)))"

subsection \<open>The control service\<close>

record control_service =
  routing_state :: routing_snapshot
  target_id_by_name :: "(pystr \<times> int) list"

record control_status =
  cs_generation :: int
  cs_enabled :: bool
  cs_zone_names :: "pystr list"
  cs_route_names :: "pystr list"
  cs_target_ids :: "pystr list"

definition control_service_init :: "routing_snapshot \<Rightarrow> pyval \<Rightarrow> control_service res" where
  "control_service_init st tids =
     rbind (freeze_target_id_by_name tids) (\<lambda>ids.
       Inr \<lparr>routing_state = st, target_id_by_name = ids\<rparr>)"

definition target_ids_from_routes :: "routing_table \<Rightarrow> pystr list" where
  "target_ids_from_routes t = foldl (\<lambda>seen r. add_new (rd_to r) seen) [] (route_definitions t)"

definition status_from_snapshot :: "routing_snapshot \<Rightarrow> control_status" where
  "status_from_snapshot s =
     (case table s of
        None \<Rightarrow> \<lparr>cs_generation = generation s, cs_enabled = False, cs_zone_names = [], cs_route_names = [],
                 cs_target_ids = []\<rparr>
      | Some t \<Rightarrow> \<lparr>cs_generation = generation s, cs_enabled = True, cs_zone_names = keys (resolved_zones t),
                   cs_route_names = map rd_name (route_definitions t),
                   cs_target_ids = target_ids_from_routes t\<rparr>)"

definition service_status :: "control_service \<Rightarrow> control_status" where
  "service_status c = status_from_snapshot (routing_state c)"

text \<open>An operation returns its status or raises, and the service afterwards.\<close>

definition install ::
  "routing_table option \<Rightarrow> int option \<Rightarrow> control_service \<Rightarrow> control_status res \<times> control_service" where
  "install t expected c =
     (case routing_replace t expected (routing_state c) of
        Inl e \<Rightarrow> (Inl e, c)
      | Inr s \<Rightarrow> (Inr (status_from_snapshot s), c\<lparr>routing_state := s\<rparr>))"

text \<open>\<open>except (RuntimeRoutingConfigError, ZoneResolutionError, TypeError, ValueError)\<close>\<close>

definition candidate_error :: "py_error \<Rightarrow> bool" where
  "candidate_error e \<longleftrightarrow> e = TypeError \<or> is_value_error e"

definition replace_from_config ::
  "pyval \<Rightarrow> int option \<Rightarrow> control_service \<Rightarrow> control_status res \<times> control_service" where
  "replace_from_config cfg expected c =
     (case compile_routing_section cfg (mapping_of (target_id_by_name c)) of
        Inl e \<Rightarrow> (Inl (if candidate_error e then RoutingCandidateConfigError else e), c)
      | Inr t \<Rightarrow> install (Some t) expected c)"

definition control_disable :: "int option \<Rightarrow> control_service \<Rightarrow> control_status res \<times> control_service" where
  "control_disable expected c = install None expected c"

subsection \<open>What compiling may raise, and what it yields\<close>

lemma candidate_errors [simp]:
  "candidate_error TypeError" "candidate_error ValueError" "candidate_error ZoneResolutionError"
  "candidate_error UnknownZoneError" "candidate_error CircularZoneReferenceError"
  "candidate_error RuntimeRoutingConfigError"
  by (simp_all add: candidate_error_def is_value_error_def)

lemma all_strings_error: "all_strings vs = Inl e \<Longrightarrow> e = TypeError"
  by (induction vs) (auto simp: rbind_Inl_iff split: option.splits)

lemma as_string_tuple_error: "as_string_tuple v = Inl e \<Longrightarrow> e = TypeError"
  by (cases v) (auto simp: as_string_tuple_def rbind_Inl_iff dest: all_strings_error)

lemma optional_field_error: "optional_field v = Inl e \<Longrightarrow> e = TypeError"
  by (cases v) (auto simp: optional_field_def rbind_Inl_iff dest: as_string_tuple_error)

lemma coerce_zone_error:
  assumes "coerce_zone_definition v = Inl e"
  shows "candidate_error e"
proof (cases v)
  case (ZoneValue w)
  with assms show ?thesis
    by (cases w) (auto simp: coerce_zone_definition_def zone_definition_def rbind_Inl_iff
        dest: optional_field_error split: if_splits)
qed (use assms in \<open>simp add: coerce_zone_definition_def\<close>)

lemma load_zones_error: "load_zones zs = Inl e \<Longrightarrow> candidate_error e"
proof (induction zs rule: load_zones.induct)
  case (2 name v zs)
  then show ?case
    by (cases name) (auto simp: rbind_Inl_iff dest: coerce_zone_error zone_expression_error)
qed simp

lemma rmap_error: "rmap f xs = Inl e \<Longrightarrow> \<exists>x \<in> set xs. f x = Inl e"
  by (induction xs) (auto simp: rbind_Inl_iff)

lemma load_routes_error: "load_route_definitions rs = Inl e \<Longrightarrow> candidate_error e"
proof -
  have "candidate_error e" if "coerce_route_definition v = Inl e" for v
  proof (cases v)
    case (RouteValue w)
    have "candidate_error e" if "route_definition n z ts = Inl e" for n z ts
      using that by (cases n; cases z) (auto simp: route_definition_def rbind_Inl_iff
          dest: as_string_tuple_error split: if_splits)
    with RouteValue that show ?thesis
      by (cases w) (auto simp: coerce_route_definition_def split: option.splits if_splits)
  qed (use that in \<open>simp add: coerce_route_definition_def\<close>)
  then show "load_route_definitions rs = Inl e \<Longrightarrow> candidate_error e"
    by (auto simp: load_route_definitions_def dest!: rmap_error split: option.splits)
qed

lemma load_zones_keys: "load_zones zs = Inr ds \<Longrightarrow> keys zs = map PStr (keys ds)"
  by (induction zs arbitrary: ds rule: load_zones.induct) (auto simp: rbind_Inr_iff split: pyval.splits)

text \<open>Zones of a document: a dictionary has each key once.\<close>

definition section_ok :: "pyval \<Rightarrow> bool" where
  "section_ok cfg \<longleftrightarrow> (\<forall>kvs zs. cfg = PDict kvs \<longrightarrow> map_of kvs (PStr (lit ''zones'')) = Some (PDict zs) \<longrightarrow>
     distinct (keys zs))"

lemma load_zones_distinct:
  assumes "load_zone_definitions (zones_of v) = Inr ds" and "\<And>zs. v = PDict zs \<Longrightarrow> distinct (keys zs)"
  shows "distinct (keys ds)"
proof -
  obtain kvs where v: "v = PDict kvs" "load_zones (map (\<lambda>(k, x). (k, ZoneValue x)) kvs) = Inr ds"
    using assms(1) by (auto simp: load_zone_definitions_def zones_of_def split: pyval.splits option.splits)
  then have "map PStr (keys ds) = keys kvs"
    using load_zones_keys [OF v(2)] by (simp add: comp_def case_prod_beta)
  then show ?thesis using assms(2) [OF v(1)] by (metis distinct_map)
qed

lemma from_config_error:
  assumes e: "from_config (zones_of z) r = Inl e" and z: "\<And>zs. z = PDict zs \<Longrightarrow> distinct (keys zs)"
  shows "candidate_error e"
proof (cases "load_zone_definitions (zones_of z)")
  case (Inl e')
  then show ?thesis
    using e load_zones_error by (auto simp: from_config_def load_zone_definitions_def split: option.splits)
next
  case (Inr ds)
  have "candidate_error e'" if "resolve_zones (as_configs ds) = Inl e'" for e'
    using resolve_zones_correct [OF coerce_as_configs load_zones_distinct [OF Inr z]] that
    by (auto simp: resolution_failure_def)
  with e Inr load_routes_error show ?thesis
    by (auto simp: from_config_def rbind_Inl_iff routing_table_def validate_route_zone_references_def split: if_splits)
qed

lemma compile_section_error:
  assumes e: "compile_routing_section cfg (mapping_of ids) = Inl e" and "section_ok cfg" and ids: "frozen ids"
  shows "candidate_error e"
proof (cases "\<exists>kvs zones routes. cfg = PDict kvs \<and> \<not> unknown_fields [''zones'', ''routes''] kvs \<and>
    map_of kvs (PStr (lit ''zones'')) = Some zones \<and> map_of kvs (PStr (lit ''routes'')) = Some routes")
  case True
  then obtain kvs zones routes where c: "cfg = PDict kvs" "\<not> unknown_fields [''zones'', ''routes''] kvs"
    "map_of kvs (PStr (lit ''zones'')) = Some zones" "map_of kvs (PStr (lit ''routes'')) = Some routes" by blast
  show ?thesis
  proof (cases "from_config (zones_of zones) (routes_of routes)")
    case (Inl e')
    then show ?thesis
      using e c from_config_error [OF Inl] assms(2) ids by (simp add: compile_routing_section_def freeze_mapping_of section_ok_def)
  next
    case (Inr t)
    then have t: "table_ok t" by (auto simp: from_config_def rbind_Inr_iff dest: routing_table_ok)
    show ?thesis
      using e c Inr ids compile_routes [OF t [unfolded table_ok_def], of ids] table_ok_routing_table [OF t]
      by (auto simp: compile_routing_section_def freeze_mapping_of validate_available_targets_def
          compile_target_ids_def split: if_splits)
  qed
next
  case False
  then show ?thesis
    using e ids by (auto simp: compile_routing_section_def freeze_mapping_of split: pyval.splits option.splits if_splits)
qed

text \<open>A table that routes every source to distinct available numbers.\<close>

definition table_routes :: "(pystr \<times> int) list \<Rightarrow> routing_table \<Rightarrow> bool" where
  "table_routes ids t \<longleftrightarrow> has_compiled_target_plan t \<and>
     (\<forall>source. \<exists>ts. match_target_ids t source = Inr ts \<and> distinct ts \<and> set ts \<subseteq> snd ` set ids)"

lemma compile_section_routes:
  assumes c: "compile_routing_section cfg (mapping_of ids) = Inr t" and ids: "frozen ids"
  shows "table_routes ids t"
proof -
  have f: "freeze_target_id_by_name (mapping_of ids) = Inr ids" by (rule freeze_mapping_of [OF ids])
  obtain rz rs t0 where t0: "routing_table rz rs = Inr t0" "compile_target_ids (mapping_of ids) t0 = Inr t"
    using c f by (auto simp: compile_routing_section_def from_config_def rbind_Inr_iff
        split: pyval.splits option.splits if_splits)
  have d: "\<And>kvs. mapping_of ids = PDict kvs \<Longrightarrow> distinct (keys kvs)"
    using ids by (auto simp: mapping_of_def frozen_def comp_def case_prod_beta distinct_map inj_on_def)
  have "has_compiled_target_plan t"
    using compile_effect(2) [OF routing_table_ok [OF t0(1), THEN conjunct1] t0(2) f]
    by (simp add: has_compiled_target_plan_def)
  moreover have "\<exists>ts. match_target_ids t source = Inr ts \<and> distinct ts \<and> set ts \<subseteq> snd ` set ids" for source
  proof -
    have "\<exists>res. match t0 source = Inr res \<and> match t source = Inr res \<and>
        set (rr_targets res) \<subseteq> set (keys ids) \<and>
        match_target_ids t source = Inr (map (\<lambda>n. the (map_of ids n)) (rr_targets res)) \<and>
        distinct (map (\<lambda>n. the (map_of ids n)) (rr_targets res))"
      by (rule compiled_plan_equiv_lemma [OF t0 f]) (rule d)
    then obtain res :: routing_result where "set (rr_targets res) \<subseteq> set (keys ids)"
      "match_target_ids t source = Inr (map (\<lambda>n. the (map_of ids n)) (rr_targets res))"
      "distinct (map (\<lambda>n. the (map_of ids n)) (rr_targets res))" by blast
    moreover have "the (map_of ids n) \<in> snd ` set ids" if n: "n \<in> set (keys ids)" for n
    proof -
      obtain i where "map_of ids n = Some i" using n keys_map_of [of n ids] by blast
      moreover from this have "(n, i) \<in> set ids" by (rule map_of_SomeD)
      ultimately show ?thesis by (metis imageI option.sel snd_conv)
    qed
    ultimately show ?thesis by (metis (no_types, lifting) image_subset_iff list.set_map subset_iff)
  qed
  ultimately show ?thesis by (simp add: table_routes_def)
qed

subsection \<open>Everything a controller can do\<close>

lemma routing_replace_Inl:
  assumes "routing_replace t expected st = Inl e" and "case t of None \<Rightarrow> True | Some t' \<Rightarrow> has_compiled_target_plan t'"
  shows "\<exists>g. expected = Some g \<and> g \<noteq> generation st \<and> e = StaleRoutingGenerationError g (generation st)"
  using assms by (cases t) (auto simp: routing_replace_def split: option.splits if_splits)

inductive control_reach :: "control_service \<Rightarrow> bool" where
  init: "\<forall>items. v = PDict items \<longrightarrow> distinct (keys items) \<Longrightarrow>
    load_optional_routing_table config v = Inr t \<Longrightarrow>
    routing_state_init t = Inr st \<Longrightarrow> control_service_init st v = Inr c \<Longrightarrow> control_reach c"
| replace: "control_reach c \<Longrightarrow> replace_from_config cfg expected c = (r, c') \<Longrightarrow> control_reach c'"
| disable: "control_reach c \<Longrightarrow> control_disable expected c = (r, c') \<Longrightarrow> control_reach c'"

definition control_ok :: "control_service \<Rightarrow> bool" where
  "control_ok c \<longleftrightarrow> frozen (target_id_by_name c) \<and> 0 \<le> generation (routing_state c) \<and>
     (\<forall>t. table (routing_state c) = Some t \<longrightarrow> table_routes (target_id_by_name c) t)"

lemma install_ok:
  assumes "control_ok c" and "\<forall>t'. t = Some t' \<longrightarrow> table_routes (target_id_by_name c) t'"
  shows "control_ok (snd (install t expected c))"
proof (cases "routing_replace t expected (routing_state c)")
  case (Inr s)
  with rs.replace_version [OF Inr] assms show ?thesis by (simp add: install_def control_ok_def)
qed (use assms(1) in \<open>simp add: install_def\<close>)

lemma control_reach_ok: "control_reach c \<Longrightarrow> control_ok c"
proof (induction rule: control_reach.induct)
  case (init v config t st c)
  obtain ids where ids: "freeze_target_id_by_name v = Inr ids" "target_id_by_name c = ids" "routing_state c = st"
    using init(4) by (auto simp: control_service_init_def rbind_Inr_iff)
  have f: "frozen ids" using freeze_frozen [OF ids(1)] init(1) by blast
  have "table_routes ids t'" if "t = Some t'" for t'
    using init(2) that ids(1) compile_section_routes [OF _ f]
    by (auto simp: load_optional_routing_table_def rbind_Inr_iff split: option.splits pyval.splits)
  moreover have "routing_state c = \<lparr>generation = 0, table = t\<rparr>"
    using init(3) ids(3) by (auto simp: routing_state_init_def rbind_Inr_iff)
  ultimately show ?case using f ids(2) by (simp add: control_ok_def)
next
  case (replace c cfg expected r c')
  then have f: "frozen (target_id_by_name c)" by (simp add: control_ok_def)
  show ?case
    using replace install_ok [OF replace.IH, of "Some t" for t] compile_section_routes [OF _ f]
    by (auto simp: replace_from_config_def split: sum.splits) (metis snd_conv)
next
  case (disable c expected r c')
  then show ?case using install_ok [OF disable.IH, of None expected] by (simp add: control_disable_def)
qed

subsection \<open>Properties\<close>



text \<open>
  Every installed table routes every frame. In a service reached from the start by any
  updates, matching against the active table never raises, and what it returns makes a valid
  \<open>ProcessingSnapshot\<close>: distinct numbers of configured targets.
\<close>

theorem active_table_routes:
  assumes "control_reach c" and "table (routing_state c) = Some t"
  shows "\<exists>ts. match_target_ids t source = Inr ts \<and> set ts \<subseteq> snd ` set (target_id_by_name c) \<and>
    processing_snapshot (PInt (generation (routing_state c))) (Some PER_TARGET) (PList (map PInt ts)) =
      Inr \<lparr>routing_generation = generation (routing_state c), mode = PER_TARGET, target_ids = ts\<rparr>"
proof -
  have ok: "control_ok c" by (rule control_reach_ok [OF assms(1)])
  then obtain ts where ts: "match_target_ids t source = Inr ts" "distinct ts" "set ts \<subseteq> snd ` set (target_id_by_name c)"
    using assms(2) unfolding control_ok_def table_routes_def by blast
  have "0 \<le> i" if i: "i \<in> set ts" for i
  proof -
    obtain n where "(n, i) \<in> set (target_id_by_name c)" using i ts(3) by force
    with ok show ?thesis by (auto simp: control_ok_def frozen_def)
  qed
  then have "target_ids_of (map PInt ts) = Inr ts" by (simp add: target_ids_of_Inr)
  with ts ok show ?thesis by (simp add: processing_snapshot_def control_ok_def)
qed

text \<open>One zone, one route, one target.\<close>

definition example_section :: pyval where
  "example_section = PDict
     [(PStr (lit ''zones''), PDict [(PStr [122], PDict [(PStr (lit ''include''), PList [PStr [115]])])]),
      (PStr (lit ''routes''), PList [PDict [(PStr (lit ''name''), PStr [114]), (PStr (lit ''from_zone''), PStr [122]),
         (PStr (lit ''to''), PList [PStr [116]])]])]"

lemma example_section_compiles:
  "compile_routing_section example_section (mapping_of [([116], 4)]) =
     Inr \<lparr>resolved_zones = [([122], {[115]})],
          route_definitions = [\<lparr>rd_name = [114], rd_from = [122], rd_to = [[116]]\<rparr>],
          compiled_target_routes = Some [\<lparr>tr_sources = {[115]}, tr_targets = [4]\<rparr>]\<rparr>"
proof -
  let ?z = "no_zone\<lparr>zd_include := Some [[115]]\<rparr>"
  have f: "freeze_target_id_by_name (mapping_of [([116], 4)]) = Inr [([116], 4)]"
    by (rule freeze_mapping_of) (simp add: frozen_def)
  have "load_zone_definitions (zones_of (PDict [(PStr [122], PDict [(PStr (lit ''include''), PList [PStr [115]])])])) =
      Inr [([122], ?z)]"
    by (simp add: load_zone_definitions_def zones_of_def coerce_zone_definition_def unknown_fields_def lit_def
        zone_definition_def item_def optional_field_def as_string_tuple_def no_zone_def zone_expression_def
        List.map_filter_simps)
  moreover have "resolve_zones (as_configs [([122], ?z)]) = Inr [([122], {[115]})]"
    by (simp add: resolve_zones_def resolve.simps no_zone_def zone_expression_def List.map_filter_simps)
  ultimately show ?thesis
    using f by (simp add: compile_routing_section_def example_section_def unknown_fields_def lit_def from_config_def
        routes_of_def load_route_definitions_def coerce_route_definition_def route_definition_def as_string_tuple_def
        routing_table_def validate_route_zone_references_def validate_available_targets_def unknown_targets_def
        compile_target_ids_def compile_route_def)
qed

lemma active_table_routes_witness:
  "\<exists>c t. control_reach c \<and> table (routing_state c) = Some t \<and>
     (\<exists>ts. match_target_ids t [115] = Inr ts \<and> set ts \<subseteq> {4})"
proof -
  have f: "freeze_target_id_by_name (mapping_of [([116], 4)]) = Inr [([116], 4)]"
    by (rule freeze_mapping_of) (simp add: frozen_def)
  obtain t where t: "compile_routing_section example_section (mapping_of [([116], 4)]) = Inr t"
    "has_compiled_target_plan t"
    using example_section_compiles by (simp add: has_compiled_target_plan_def)
  let ?st = "\<lparr>generation = 0, table = Some t\<rparr>"
  have "control_reach \<lparr>routing_state = ?st, target_id_by_name = [([116], 4)]\<rparr>"
  proof (rule control_reach.init)
    show "\<forall>items. mapping_of [([116], 4)] = PDict items \<longrightarrow> distinct (keys items)" by (auto simp: mapping_of_def)
    show "load_optional_routing_table [(PStr (lit ''routing''), example_section)] (mapping_of [([116], 4)]) = Inr (Some t)"
      using t(1) f by (simp add: load_optional_routing_table_def example_section_def)
    show "routing_state_init (Some t) = Inr ?st" using t(2) by (simp add: routing_state_init_def)
    show "control_service_init ?st (mapping_of [([116], 4)]) = Inr \<lparr>routing_state = ?st, target_id_by_name = [([116], 4)]\<rparr>"
      using f by (simp add: control_service_init_def)
  qed
  from active_table_routes [OF this, of t "[115]"] this show ?thesis by fastforce
qed

text \<open>Updates made against the store, in the order in which they get the lock.\<close>

fun apply_updates ::
  "(routing_table option \<times> int option) list \<Rightarrow> routing_snapshot \<Rightarrow> bool list \<times> routing_snapshot" where
  "apply_updates [] s = ([], s)"
| "apply_updates ((t, expected) # ops) s =
     (case routing_replace t expected s of
        Inl _ \<Rightarrow> (case apply_updates ops s of (bs, s') \<Rightarrow> (False # bs, s'))
      | Inr s1 \<Rightarrow> (case apply_updates ops s1 of (bs, s') \<Rightarrow> (True # bs, s')))"

lemma apply_updates_run: "apply_updates ops s = rs.run ops s"
  by (induction ops s rule: apply_updates.induct) (simp_all split: sum.split)

text \<open>
  Optimistic updates do not overwrite each other. Of any updates made against the same
  generation, in whatever order their locked sections run and whatever other updates come
  between, at most one is installed; and the generation counts the installed updates.
\<close>

theorem updates_at_most_once:
  assumes "apply_updates ops s = (installed, s')"
  shows "length (filter (\<lambda>((t, expected), ok). expected = Some g \<and> ok) (zip ops installed)) \<le> 1 \<and>
    generation s' = generation s + int (length (filter id installed))"
  using rs.run_at_most_once [of ops s installed s' g] rs.run_version [of ops s installed s'] assms
  by (auto simp: apply_updates_run split: if_splits)

lemma updates_at_most_once_witness:
  "\<exists>installed s'. apply_updates [(None, Some 0), (None, Some 0), (None, Some 1)] \<lparr>generation = 0, table = None\<rparr> = (installed, s') \<and>
     generation s' = 2 \<and> installed = [True, False, True]"
proof -
  have a: "apply_updates [(None, Some 0), (None, Some 0), (None, Some 1)] \<lparr>generation = 0, table = None\<rparr> =
      ([True, False, True], \<lparr>generation = 2, table = None\<rparr>)"
    by (simp add: routing_replace_def)
  from updates_at_most_once [OF a] a show ?thesis by auto
qed

end
