(* ===== verification/ControlProtocol.thy ===== *)
theory ControlProtocol
  imports RoutingControl
begin

section \<open>The control protocol (\<open>core/routing_control_protocol.py\<close>)\<close>

text \<open>
  Version 1 of the request and response objects: validation of the envelope and of the
  parameters of each method, delegation to the routing control service and to the statistics
  provider, and the response objects field by field. A request is a decoded JSON object, its
  keys are strings. The text of a rejected candidate (\<open>str(exc)\<close>) is the argument
  \<open>describe\<close>: the routing model has exception classes, not messages. The three pulls of the
  provider are its results at the time of the call. What is shown: every request gets exactly
  one response, validation accepts exactly the documented requests, and only accepted
  \<open>replace\<close> and \<open>disable\<close> requests change the service.
\<close>

type_synonym request = "(pystr \<times> pyval) list"

definition obj :: "(string \<times> pyval) list \<Rightarrow> pyval" where
  "obj kvs = PDict (map (\<lambda>(k, v). (PStr (lit k), v)) kvs)"

record request_error =
  code :: pystr
  error_message :: pystr

datatype control_method = Status | Replace | Disable | Statistics | StatisticsInputs | StatisticsOutputs

fun method_name :: "control_method \<Rightarrow> pystr" where
  "method_name Status = lit ''routing.status''"
| "method_name Replace = lit ''routing.replace''"
| "method_name Disable = lit ''routing.disable''"
| "method_name Statistics = lit ''runtime.statistics''"
| "method_name StatisticsInputs = lit ''runtime.statistics.inputs''"
| "method_name StatisticsOutputs = lit ''runtime.statistics.outputs''"

definition methods :: "control_method list" where
  "methods = [Status, Replace, Disable, Statistics, StatisticsInputs, StatisticsOutputs]"

definition method_of :: "pystr \<Rightarrow> control_method option" where
  "method_of s = find (\<lambda>m. method_name m = s) methods"

definition invalid :: "pystr \<Rightarrow> request_error option" where
  "invalid m = Some \<lparr>code = lit ''invalid_request'', error_message = m\<rparr>"

text \<open>\<open>repr\<close> of a name of the protocol\<close>

definition quoted :: "pystr \<Rightarrow> pystr" where
  "quoted s = [39] @ s @ [39]"

text \<open>\<open>', '.join(names)\<close>\<close>

fun comma_join :: "pystr list \<Rightarrow> pystr" where
  "comma_join [] = []"
| "comma_join [s] = s"
| "comma_join (s # ss) = s @ lit '', '' @ comma_join ss"

text \<open>The text of an unknown parameter; the keys of a decoded object are strings.\<close>

definition key_text :: "pyval \<Rightarrow> pystr" where
  "key_text k = (case k of PStr s \<Rightarrow> s | _ \<Rightarrow> [])"

subsection \<open>Validation\<close>

definition validate_expected_generation :: "pyval \<Rightarrow> request_error option" where
  "validate_expected_generation v =
     (case as_int v of
        None \<Rightarrow> invalid (lit ''Param 'expected_generation' must be a non-negative integer.'')
      | Some g \<Rightarrow>
          if g < 0 then invalid (lit ''Param 'expected_generation' must be a non-negative integer.'')
          else None)"

definition validate_params_fields ::
  "(pyval \<times> pyval) list \<Rightarrow> string list \<Rightarrow> control_method \<Rightarrow> request_error option" where
  "validate_params_fields params allowed m =
     (let unknown = filter (\<lambda>k. k \<notin> set (map (\<lambda>s. PStr (lit s)) allowed)) (keys params)
      in if unknown \<noteq> [] then
           invalid (lit ''Method '' @ quoted (method_name m) @ lit '' params has unknown field(s): '' @
             comma_join (sort (map key_text unknown)) @ lit ''.'')
         else (case map_of params (PStr (lit ''expected_generation'')) of
           Some g \<Rightarrow> validate_expected_generation g
         | None \<Rightarrow> None))"

definition validate_inputs_params :: "request \<Rightarrow> request_error option" where
  "validate_inputs_params req =
     (case map_of req (lit ''params'') of
        None \<Rightarrow> None
      | Some (PDict params) \<Rightarrow>
          (case validate_params_fields params [''input''] StatisticsInputs of
             Some e \<Rightarrow> Some e
           | None \<Rightarrow>
               (case map_of params (PStr (lit ''input'')) of
                  None \<Rightarrow> None
                | Some (PStr s) \<Rightarrow> if s = [] then invalid (lit ''Param 'input' must be a non-empty string.'') else None
                | Some _ \<Rightarrow> invalid (lit ''Param 'input' must be a non-empty string.'')))
      | Some _ \<Rightarrow> invalid (lit ''Method '' @ quoted (method_name StatisticsInputs) @ lit '' params must be an object.''))"

definition validate_target_id :: "pyval option \<Rightarrow> request_error option" where
  "validate_target_id v =
     (case v of
        None \<Rightarrow> None
      | Some t \<Rightarrow>
          (case as_int t of
             None \<Rightarrow> invalid (lit ''Param 'target_id' must be a non-negative integer.'')
           | Some i \<Rightarrow> if i < 0 then invalid (lit ''Param 'target_id' must be a non-negative integer.'') else None))"

definition validate_name :: "pyval option \<Rightarrow> request_error option" where
  "validate_name v =
     (case v of
        None \<Rightarrow> None
      | Some (PStr s) \<Rightarrow> if s = [] then invalid (lit ''Param 'name' must be a non-empty string.'') else None
      | Some _ \<Rightarrow> invalid (lit ''Param 'name' must be a non-empty string.''))"

definition validate_outputs_params :: "request \<Rightarrow> request_error option" where
  "validate_outputs_params req =
     (case map_of req (lit ''params'') of
        None \<Rightarrow> None
      | Some (PDict params) \<Rightarrow>
          (case validate_params_fields params [''target_id'', ''name''] StatisticsOutputs of
             Some e \<Rightarrow> Some e
           | None \<Rightarrow>
               let t = map_of params (PStr (lit ''target_id'')); n = map_of params (PStr (lit ''name''))
               in if t \<noteq> None \<and> n \<noteq> None then
                    invalid (lit ''Method '' @ quoted (method_name StatisticsOutputs) @
                      lit '' params must not contain both 'target_id' and 'name'.'')
                  else (case validate_target_id t of Some e \<Rightarrow> Some e | None \<Rightarrow> validate_name n))
      | Some _ \<Rightarrow> invalid (lit ''Method '' @ quoted (method_name StatisticsOutputs) @ lit '' params must be an object.''))"

definition validate_replace_params :: "pyval \<Rightarrow> request_error option" where
  "validate_replace_params v =
     (case v of
        PDict params \<Rightarrow>
          (case validate_params_fields params [''routing'', ''expected_generation''] Replace of
             Some e \<Rightarrow> Some e
           | None \<Rightarrow>
               if map_of params (PStr (lit ''routing'')) = None
               then invalid (lit ''Method 'routing.replace' params missing required field 'routing'.'')
               else None)
      | _ \<Rightarrow> invalid (lit ''Method 'routing.replace' params must be an object.''))"

definition validate_disable_params :: "request \<Rightarrow> request_error option" where
  "validate_disable_params req =
     (case map_of req (lit ''params'') of
        None \<Rightarrow> None
      | Some (PDict params) \<Rightarrow> validate_params_fields params [''expected_generation''] Disable
      | Some _ \<Rightarrow> invalid (lit ''Method 'routing.disable' params must be an object.''))"

definition validate_params :: "control_method \<Rightarrow> request \<Rightarrow> request_error option" where
  "validate_params m req =
     (case m of
        StatisticsInputs \<Rightarrow> validate_inputs_params req
      | StatisticsOutputs \<Rightarrow> validate_outputs_params req
      | Replace \<Rightarrow>
          (case map_of req (lit ''params'') of
             None \<Rightarrow> invalid (lit ''Method 'routing.replace' requires params.'')
           | Some p \<Rightarrow> validate_replace_params p)
      | Disable \<Rightarrow> validate_disable_params req
      | _ \<Rightarrow>
          if map_of req (lit ''params'') \<noteq> None
          then invalid (lit ''Method '' @ quoted (method_name m) @ lit '' does not accept params.'')
          else None)"

text \<open>The first required field that is missing.\<close>

definition missing_field :: "request \<Rightarrow> string option" where
  "missing_field req = find (\<lambda>f. map_of req (lit f) = None) [''version'', ''request_id'', ''method'']"

definition entry :: "request \<Rightarrow> string \<Rightarrow> pyval" where
  "entry req f = the (map_of req (lit f))"

definition validate_request_schema :: "request \<Rightarrow> request_error option" where
  "validate_request_schema req =
     (let unknown = filter (\<lambda>k. k \<notin> set (map lit [''version'', ''request_id'', ''method'', ''params''])) (keys req)
      in if unknown \<noteq> [] then
           invalid (lit ''Request has unknown field(s): '' @ comma_join (sort unknown) @ lit ''.'')
         else (case missing_field req of
           Some f \<Rightarrow> invalid (lit ''Request is missing required field '' @ quoted (lit f) @ lit ''.'')
         | None \<Rightarrow>
           (case as_int (entry req ''version'') of
              None \<Rightarrow> invalid (lit ''Request field 'version' must be an integer.'')
            | Some version \<Rightarrow>
              if version \<noteq> 1 then
                Some \<lparr>code = lit ''unsupported_version'',
                      error_message = lit ''Unsupported routing control protocol version: '' @ int_str version @ lit ''.''\<rparr>
              else (case entry req ''request_id'' of
                PStr (_ # _) \<Rightarrow>
                  (case entry req ''method'' of
                     PStr (c # cs) \<Rightarrow>
                       (case method_of (c # cs) of
                          None \<Rightarrow> Some \<lparr>code = lit ''unknown_method'',
                            error_message = lit ''Unknown routing control method: '' @ (c # cs) @ lit ''.''\<rparr>
                        | Some m \<Rightarrow> validate_params m req)
                   | _ \<Rightarrow> invalid (lit ''Request field 'method' must be a non-empty string.''))
              | _ \<Rightarrow> invalid (lit ''Request field 'request_id' must be a non-empty string.'')))))"

definition valid_request_id :: "request \<Rightarrow> pystr option" where
  "valid_request_id req =
     (case map_of req (lit ''request_id'') of
        Some (PStr s) \<Rightarrow> if s = [] then None else Some s
      | _ \<Rightarrow> None)"

subsection \<open>Responses\<close>

definition success_response :: "pystr \<Rightarrow> pyval \<Rightarrow> pyval" where
  "success_response request_id result =
     obj [(''version'', PInt 1), (''request_id'', PStr request_id), (''ok'', PBool True), (''result'', result)]"

definition error_response :: "pystr option \<Rightarrow> pystr \<Rightarrow> pystr \<Rightarrow> (string \<times> pyval) list \<Rightarrow> pyval" where
  "error_response request_id c m details =
     obj [(''version'', PInt 1),
          (''request_id'', case request_id of None \<Rightarrow> PNone | Some s \<Rightarrow> PStr s),
          (''ok'', PBool False),
          (''error'', obj ([(''code'', PStr c), (''message'', PStr m)] @ details))]"

text \<open>\<open>str(exc)\<close> of a stale generation\<close>

definition stale_message :: "int \<Rightarrow> int \<Rightarrow> pystr" where
  "stale_message expected actual =
     lit ''Stale routing generation: expected '' @ int_str expected @ lit '', actual '' @ int_str actual @ lit ''.''"

definition stale_generation_response :: "pystr \<Rightarrow> int \<Rightarrow> int \<Rightarrow> pyval" where
  "stale_generation_response request_id expected actual =
     error_response (Some request_id) (lit ''stale_generation'') (stale_message expected actual)
       [(''expected_generation'', PInt expected), (''actual_generation'', PInt actual)]"

definition invalid_routing_config_response :: "pystr \<Rightarrow> pystr \<Rightarrow> pyval" where
  "invalid_routing_config_response request_id m =
     error_response (Some request_id) (lit ''invalid_routing_config'') m []"

definition status_result :: "control_status \<Rightarrow> pyval" where
  "status_result st =
     obj [(''generation'', PInt (cs_generation st)), (''enabled'', PBool (cs_enabled st)),
          (''zone_names'', PList (map PStr (cs_zone_names st))),
          (''route_names'', PList (map PStr (cs_route_names st))),
          (''target_ids'', PList (map PStr (cs_target_ids st)))]"

definition queue_metrics_result :: "queue_metrics \<Rightarrow> pyval" where
  "queue_metrics_result q =
     obj [(''name'', PStr (qm_name q)), (''capacity'', PInt (qm_capacity q)), (''depth'', PInt (qm_depth q)),
          (''peak_depth'', PInt (qm_peak_depth q)), (''enqueued'', PInt (qm_enqueued q)),
          (''dequeued'', PInt (qm_dequeued q)), (''put_waits'', PInt (qm_put_waits q)),
          (''current_put_waiters'', PInt (qm_current_put_waiters q))]"

definition processor_metrics_result :: "processor_metrics \<Rightarrow> pyval" where
  "processor_metrics_result m =
     obj [(''process_calls'', PInt (pm_process_calls m)), (''process_completed'', PInt (pm_process_completed m)),
          (''process_failed'', PInt (pm_process_failed m)), (''process_in_flight'', PInt (pm_process_in_flight m)),
          (''outputless_calls'', PInt (pm_outputless_calls m)), (''output_batches'', PInt (pm_output_batches m)),
          (''output_messages'', PInt (pm_output_messages m)), (''reset_calls'', PInt (pm_reset_calls m)),
          (''reset_completed'', PInt (pm_reset_completed m)), (''reset_failed'', PInt (pm_reset_failed m)),
          (''reset_in_flight'', PInt (pm_reset_in_flight m))]"

definition egress_metrics_result :: "egress_metrics \<Rightarrow> pyval" where
  "egress_metrics_result m =
     obj [(''batches_started'', PInt (em_batches_started m)), (''batches_completed'', PInt (em_batches_completed m)),
          (''batches_failed'', PInt (em_batches_failed m)), (''batches_cancelled'', PInt (em_batches_cancelled m)),
          (''active_batches'', PInt (em_active_batches m)), (''outputs_started'', PInt (em_outputs_started m)),
          (''outputs_completed'', PInt (em_outputs_completed m)), (''outputs_failed'', PInt (em_outputs_failed m)),
          (''outputs_cancelled'', PInt (em_outputs_cancelled m)), (''active_outputs'', PInt (em_active_outputs m))]"

definition runtime_statistics_result :: "runtime_statistics \<Rightarrow> pyval" where
  "runtime_statistics_result s =
     obj [(''ingress_queues'', PList (map queue_metrics_result (rs_ingress_queues s))),
          (''processing_queue'', queue_metrics_result (rs_processing_queue s)),
          (''processor'', processor_metrics_result (rs_processor s)),
          (''egress_queue'', queue_metrics_result (rs_egress_queue s)),
          (''egress_operations'', egress_metrics_result (rs_egress_operations s))]"

definition input_traffic_result :: "input_traffic_metrics \<Rightarrow> pyval" where
  "input_traffic_result m =
     obj [(''name'', PStr (it_name m)), (''kind'', PStr (it_kind m)),
          (''transport_packets'', PInt (it_transport_packets m)), (''transport_bytes'', PInt (it_transport_bytes m)),
          (''accepted_frames'', PInt (it_accepted_frames m)), (''payload_bytes'', PInt (it_payload_bytes m))]"

definition output_traffic_result :: "output_traffic_metrics \<Rightarrow> pyval" where
  "output_traffic_result m =
     obj [(''target_id'', PInt (ot_target_id m)),
          (''name'', case ot_name m of None \<Rightarrow> PNone | Some n \<Rightarrow> PStr n),
          (''dispatch_attempts'', PInt (ot_dispatch_attempts m)),
          (''dispatch_completed'', PInt (ot_dispatch_completed m)),
          (''dispatch_failed'', PInt (ot_dispatch_failed m)), (''messages'', PInt (ot_messages m)),
          (''bytes'', PInt (ot_bytes m))]"

definition inputs_result :: "input_traffic_metrics list \<Rightarrow> pystr option \<Rightarrow> pyval" where
  "inputs_result rows name =
     obj [(''inputs'', PList (map input_traffic_result
       (filter (\<lambda>m. case name of None \<Rightarrow> True | Some n \<Rightarrow> it_name m = n) rows)))]"

definition outputs_result ::
  "output_traffic_metrics list \<Rightarrow> int option \<Rightarrow> pystr option \<Rightarrow> pyval" where
  "outputs_result rows target name =
     (let selected = (case target of
            Some t \<Rightarrow> filter (\<lambda>m. ot_target_id m = t) rows
          | None \<Rightarrow> (case name of None \<Rightarrow> rows | Some n \<Rightarrow> filter (\<lambda>m. ot_name m = Some n) rows))
      in obj [(''outputs'', PList (map output_traffic_result selected))])"

subsection \<open>Handling a request\<close>

record statistics_provider =
  sp_snapshot :: "runtime_statistics res"
  sp_inputs :: "input_traffic_metrics list res"
  sp_outputs :: "output_traffic_metrics list res"

definition params_of :: "request \<Rightarrow> (pyval \<times> pyval) list" where
  "params_of req = (case map_of req (lit ''params'') of Some (PDict params) \<Rightarrow> params | _ \<Rightarrow> [])"

definition param_int :: "request \<Rightarrow> string \<Rightarrow> int option" where
  "param_int req k = Option.bind (map_of (params_of req) (PStr (lit k))) as_int"

definition param_str :: "request \<Rightarrow> string \<Rightarrow> pystr option" where
  "param_str req k = Option.bind (map_of (params_of req) (PStr (lit k))) as_str"

text \<open>The response to an update, or the exception that none of its handlers catches.\<close>

definition update_response :: "(py_error \<Rightarrow> pystr) \<Rightarrow> bool \<Rightarrow> pystr \<Rightarrow> control_status res \<Rightarrow> pyval res" where
  "update_response describe candidate request_id r =
     (case r of
        Inr st \<Rightarrow> Inr (success_response request_id (status_result st))
      | Inl (StaleRoutingGenerationError e a) \<Rightarrow> Inr (stale_generation_response request_id e a)
      | Inl RoutingCandidateConfigError \<Rightarrow>
          if candidate then Inr (invalid_routing_config_response request_id (describe RoutingCandidateConfigError))
          else Inl RoutingCandidateConfigError
      | Inl e \<Rightarrow> Inl e)"

definition dispatch ::
  "(py_error \<Rightarrow> pystr) \<Rightarrow> statistics_provider \<Rightarrow> pystr \<Rightarrow> control_method \<Rightarrow> request \<Rightarrow> control_service
     \<Rightarrow> pyval res \<times> control_service" where
  "dispatch describe sp rid m req c =
     (case m of
        Statistics \<Rightarrow>
          (rbind (sp_snapshot sp) (\<lambda>s. Inr (success_response rid (runtime_statistics_result s))), c)
      | StatisticsInputs \<Rightarrow>
          (rbind (sp_inputs sp) (\<lambda>rows. Inr (success_response rid (inputs_result rows (param_str req ''input'')))), c)
      | StatisticsOutputs \<Rightarrow>
          (rbind (sp_outputs sp) (\<lambda>rows.
             Inr (success_response rid (outputs_result rows (param_int req ''target_id'') (param_str req ''name'')))), c)
      | Status \<Rightarrow> (Inr (success_response rid (status_result (service_status c))), c)
      | Replace \<Rightarrow>
          (case map_of (params_of req) (PStr (lit ''routing'')) of
             None \<Rightarrow> (Inl KeyError, c)
           | Some cfg \<Rightarrow>
               (case replace_from_config cfg (param_int req ''expected_generation'') c of
                  (r, c') \<Rightarrow> (update_response describe True rid r, c')))
      | Disable \<Rightarrow>
          (case control_disable (param_int req ''expected_generation'') c of
             (r, c') \<Rightarrow> (update_response describe False rid r, c')))"

definition handle_request ::
  "(py_error \<Rightarrow> pystr) \<Rightarrow> statistics_provider \<Rightarrow> request \<Rightarrow> control_service \<Rightarrow> pyval res \<times> control_service" where
  "handle_request describe sp req c =
     (case validate_request_schema req of
        Some e \<Rightarrow> (Inr (error_response (valid_request_id req) (code e) (error_message e) []), c)
      | None \<Rightarrow>
          (case (entry req ''request_id'', entry req ''method'') of
             (PStr rid, PStr method) \<Rightarrow>
               (case method_of method of
                  Some m \<Rightarrow> dispatch describe sp rid m req c
                | None \<Rightarrow> (Inl AssertionError, c))
           | _ \<Rightarrow> (Inl AssertionError, c)))"

subsection \<open>The requests that are accepted\<close>

lemma lit_inject [simp]: "lit s = lit t \<longleftrightarrow> s = t"
  unfolding lit_def by (rule inj_eq, rule inj_mapI) (simp add: inj_def)

lemma invalid_not_None [simp]: "invalid m \<noteq> None" "None \<noteq> invalid m" "\<exists>e. invalid m = Some e"
  by (simp_all add: invalid_def)

text \<open>The first of two checks that finds an error.\<close>

lemma first_error: "(case x of None \<Rightarrow> y | Some e \<Rightarrow> Some e) = None \<longleftrightarrow> x = None \<and> y = None"
  by (cases x) auto

lemma if_invalid: "(if b then invalid m else r) = None \<longleftrightarrow> \<not> b \<and> r = None"
  by simp

lemma method_of_iff: "method_of s = Some m \<longleftrightarrow> s = method_name m"
  by (cases m) (auto simp: method_of_def methods_def)

lemma method_name_nonempty: "method_name m \<noteq> []"
  by (cases m) (simp_all add: lit_def)

text \<open>The parameter object of a method, and the whole request, as the protocol documents them.\<close>

definition only_keys :: "string list \<Rightarrow> (pyval \<times> pyval) list \<Rightarrow> bool" where
  "only_keys allowed params \<longleftrightarrow> set (keys params) \<subseteq> set (map (\<lambda>s. PStr (lit s)) allowed)"

definition generation_param :: "pyval option \<Rightarrow> bool" where
  "generation_param v \<longleftrightarrow> (\<forall>x. v = Some x \<longrightarrow> (\<exists>g. x = PInt g \<and> 0 \<le> g))"

definition string_param :: "pyval option \<Rightarrow> bool" where
  "string_param v \<longleftrightarrow> (\<forall>x. v = Some x \<longrightarrow> (\<exists>s. x = PStr s \<and> s \<noteq> []))"

definition param :: "(pyval \<times> pyval) list \<Rightarrow> string \<Rightarrow> pyval option" where
  "param params k = map_of params (PStr (lit k))"

fun params_ok :: "control_method \<Rightarrow> pyval option \<Rightarrow> bool" where
  "params_ok Status v = (v = None)"
| "params_ok Statistics v = (v = None)"
| "params_ok StatisticsInputs v =
     (v = None \<or> (\<exists>ps. v = Some (PDict ps) \<and> only_keys [''input''] ps \<and> string_param (param ps ''input'')))"
| "params_ok StatisticsOutputs v =
     (v = None \<or> (\<exists>ps. v = Some (PDict ps) \<and> only_keys [''target_id'', ''name''] ps \<and>
        (param ps ''target_id'' = None \<or> param ps ''name'' = None) \<and>
        generation_param (param ps ''target_id'') \<and> string_param (param ps ''name'')))"
| "params_ok Replace v =
     (\<exists>ps. v = Some (PDict ps) \<and> only_keys [''routing'', ''expected_generation''] ps \<and>
        param ps ''routing'' \<noteq> None \<and> generation_param (param ps ''expected_generation''))"
| "params_ok Disable v =
     (v = None \<or> (\<exists>ps. v = Some (PDict ps) \<and> only_keys [''expected_generation''] ps \<and>
        generation_param (param ps ''expected_generation'')))"

definition well_formed_request :: "request \<Rightarrow> bool" where
  "well_formed_request req \<longleftrightarrow>
     set (keys req) \<subseteq> {lit ''version'', lit ''request_id'', lit ''method'', lit ''params''} \<and>
     map_of req (lit ''version'') = Some (PInt 1) \<and>
     (\<exists>s. map_of req (lit ''request_id'') = Some (PStr s) \<and> s \<noteq> []) \<and>
     (\<exists>m. map_of req (lit ''method'') = Some (PStr (method_name m)) \<and> params_ok m (map_of req (lit ''params'')))"

lemma expected_generation_ok:
  "validate_expected_generation v = None \<longleftrightarrow> (\<exists>g. v = PInt g \<and> 0 \<le> g)"
  by (cases v) (auto simp: validate_expected_generation_def)

lemma only_keys_param: "only_keys allowed ps \<Longrightarrow> k \<notin> set allowed \<Longrightarrow> param ps k = None"
  by (auto simp: only_keys_def param_def map_of_eq_None_iff)

lemma params_fields_ok:
  "validate_params_fields ps allowed m = None \<longleftrightarrow>
     only_keys allowed ps \<and> generation_param (param ps ''expected_generation'')"
  by (auto simp: validate_params_fields_def Let_def filter_empty_conv only_keys_def generation_param_def param_def
      expected_generation_ok split: option.splits)

lemma validate_target_ok: "validate_target_id v = None \<longleftrightarrow> generation_param v"
  by (cases v) (auto simp: validate_target_id_def generation_param_def split: option.splits elim!: as_int.elims)

lemma validate_name_ok: "validate_name v = None \<longleftrightarrow> string_param v"
  by (auto simp: validate_name_def string_param_def split: option.splits pyval.splits)

lemma generation_absent [simp]: "generation_param None"
  by (simp add: generation_param_def)

lemma validate_params_ok: "validate_params m req = None \<longleftrightarrow> params_ok m (map_of req (lit ''params''))"
proof -
  have inp: "(case v of None \<Rightarrow> None
      | Some (PStr s) \<Rightarrow> if s = [] then invalid t else None | Some _ \<Rightarrow> invalid t) = None \<longleftrightarrow> string_param v" for v t
    by (auto simp: string_param_def split: option.splits pyval.splits)
  show ?thesis
  proof (cases "map_of req (lit ''params'')")
    case None
    then show ?thesis
      by (cases m) (simp_all add: validate_params_def validate_inputs_params_def validate_outputs_params_def
          validate_disable_params_def)
  next
    case (Some v)
    show ?thesis
    proof (cases "\<exists>ps. v = PDict ps")
      case True
      then obtain ps where v: "v = PDict ps" by blast
      show ?thesis
        using Some v
        by (cases m) (simp_all add: validate_params_def validate_inputs_params_def validate_outputs_params_def
            validate_disable_params_def validate_replace_params_def inp Let_def first_error if_invalid
            params_fields_ok validate_target_ok validate_name_ok param_def [symmetric] del: not_None_eq,
            auto simp: only_keys_param)
    next
      case False
      then show ?thesis
        using Some by (cases m; cases v) (auto simp: validate_params_def validate_inputs_params_def
            validate_outputs_params_def validate_disable_params_def validate_replace_params_def)
    qed
  qed
qed

lemma schema_ok: "validate_request_schema req = None \<longleftrightarrow> well_formed_request req"
proof -
  let ?u = "filter (\<lambda>k. k \<notin> set (map lit [''version'', ''request_id'', ''method'', ''params''])) (keys req)"
  have u: "?u = [] \<longleftrightarrow> set (keys req) \<subseteq> {lit ''version'', lit ''request_id'', lit ''method'', lit ''params''}"
    by (auto simp: filter_empty_conv)
  show ?thesis
  proof (cases "?u = [] \<and> missing_field req = None")
    case False
    then show ?thesis
      using u by (auto simp: validate_request_schema_def well_formed_request_def missing_field_def Let_def
          split: option.splits if_splits)
  next
    case True
    then obtain v rid m where f: "map_of req (lit ''version'') = Some v" "map_of req (lit ''request_id'') = Some rid"
      "map_of req (lit ''method'') = Some m"
      by (auto simp: missing_field_def split: if_splits)
    have "validate_request_schema req = None \<longleftrightarrow> as_int v = Some 1 \<and>
        (\<exists>s t mm. rid = PStr s \<and> s \<noteq> [] \<and> m = PStr t \<and> t \<noteq> [] \<and> method_of t = Some mm \<and>
          validate_params mm req = None)"
      using True by (auto simp: validate_request_schema_def Let_def entry_def f split: option.splits pyval.splits list.splits)
    also have "\<dots> \<longleftrightarrow> well_formed_request req"
      using True u f method_name_nonempty
      by (auto simp: well_formed_request_def method_of_iff validate_params_ok elim!: as_int.elims)
    finally show ?thesis .
  qed
qed

subsection \<open>Every request is answered\<close>

definition response_field :: "pyval \<Rightarrow> string \<Rightarrow> pyval option" where
  "response_field r k = (case r of PDict kvs \<Rightarrow> map_of kvs (PStr (lit k)) | _ \<Rightarrow> None)"

lemma success_fields [simp]:
  "response_field (success_response rid res) ''version'' = Some (PInt 1)"
  "response_field (success_response rid res) ''request_id'' = Some (PStr rid)"
  "response_field (success_response rid res) ''ok'' = Some (PBool True)"
  by (simp_all add: response_field_def success_response_def obj_def)

lemma error_fields [simp]:
  "response_field (error_response rid c m ds) ''version'' = Some (PInt 1)"
  "response_field (error_response rid c m ds) ''request_id'' = Some (case rid of None \<Rightarrow> PNone | Some s \<Rightarrow> PStr s)"
  "response_field (error_response rid c m ds) ''ok'' = Some (PBool False)"
  by (simp_all add: response_field_def error_response_def obj_def)

text \<open>What an update of the service leads to.\<close>

definition update_outcome :: "control_status res \<Rightarrow> control_service \<Rightarrow> control_service \<Rightarrow> bool" where
  "update_outcome r c c' \<longleftrightarrow>
     (case r of
        Inr st \<Rightarrow> generation (routing_state c') = generation (routing_state c) + 1
      | Inl e \<Rightarrow> c' = c \<and> (e = RoutingCandidateConfigError \<or> (\<exists>g a. e = StaleRoutingGenerationError g a)))"

lemma replace_outcome:
  assumes "frozen (target_id_by_name c)" and "section_ok cfg"
  shows "update_outcome (fst (replace_from_config cfg expected c)) c (snd (replace_from_config cfg expected c))"
proof (cases "compile_routing_section cfg (mapping_of (target_id_by_name c))")
  case (Inl e)
  with compile_section_error [OF Inl assms(2,1)] show ?thesis by (simp add: replace_from_config_def update_outcome_def)
next
  case (Inr t)
  then have p: "has_compiled_target_plan t" using compile_section_routes [OF Inr assms(1)] by (simp add: table_routes_def)
  show ?thesis
  proof (cases "routing_replace (Some t) expected (routing_state c)")
    case (Inl e)
    with \<open>compile_routing_section _ _ = Inr t\<close> routing_replace_Inl [OF Inl] p show ?thesis
      by (auto simp: replace_from_config_def install_def update_outcome_def)
  next
    case (Inr s)
    with \<open>compile_routing_section _ _ = Inr t\<close> rs.replace_version [OF Inr] show ?thesis
      by (simp add: replace_from_config_def install_def update_outcome_def)
  qed
qed

lemma disable_outcome:
  "(\<exists>st. fst (control_disable expected c) = Inr st \<and>
     generation (routing_state (snd (control_disable expected c))) = generation (routing_state c) + 1) \<or>
   (\<exists>g a. fst (control_disable expected c) = Inl (StaleRoutingGenerationError g a) \<and> snd (control_disable expected c) = c)"
proof (cases "routing_replace None expected (routing_state c)")
  case (Inl e)
  with routing_replace_Inl [OF Inl] show ?thesis by (auto simp: control_disable_def install_def)
next
  case (Inr s)
  with rs.replace_version [OF Inr] show ?thesis by (simp add: control_disable_def install_def)
qed

text \<open>The answer to a request and the service after it.\<close>

definition answered :: "pystr option \<Rightarrow> control_service \<Rightarrow> pyval res \<times> control_service \<Rightarrow> bool" where
  "answered rid c rc \<longleftrightarrow> (\<exists>resp c'. rc = (Inr resp, c') \<and> response_field resp ''version'' = Some (PInt 1) \<and>
     response_field resp ''request_id'' = Some (case rid of None \<Rightarrow> PNone | Some s \<Rightarrow> PStr s) \<and>
     (response_field resp ''ok'' = Some (PBool True) \<and>
        (c' = c \<or> generation (routing_state c') = generation (routing_state c) + 1) \<or>
      response_field resp ''ok'' = Some (PBool False) \<and> c' = c))"

lemma update_answered:
  assumes "update_outcome r c c'" and "r \<noteq> Inl RoutingCandidateConfigError \<or> candidate"
  shows "answered (Some rid) c (update_response describe candidate rid r, c')"
proof (cases r)
  case (Inl e)
  with assms show ?thesis
    by (auto simp: answered_def update_outcome_def update_response_def stale_generation_response_def
        invalid_routing_config_response_def)
qed (use assms in \<open>simp add: answered_def update_outcome_def update_response_def\<close>)

lemma dispatch_answered:
  assumes "frozen (target_id_by_name c)" and "sp_snapshot sp = Inr s" and "sp_inputs sp = Inr ins"
    and "sp_outputs sp = Inr outs"
    and "m = Replace \<Longrightarrow> \<exists>cfg. map_of (params_of req) (PStr (lit ''routing'')) = Some cfg \<and> section_ok cfg"
  shows "answered (Some rid) c (dispatch describe sp rid m req c)"
proof (cases m)
  case Replace
  then obtain cfg where cfg: "map_of (params_of req) (PStr (lit ''routing'')) = Some cfg" "section_ok cfg"
    using assms(5) by blast
  show ?thesis
    using update_answered [OF replace_outcome [OF assms(1) cfg(2)], of "param_int req ''expected_generation''" True rid describe]
      cfg(1) Replace by (simp add: dispatch_def case_prod_beta)
next
  case Disable
  let ?d = "control_disable (param_int req ''expected_generation'') c"
  have "update_outcome (fst ?d) c (snd ?d)" "fst ?d \<noteq> Inl RoutingCandidateConfigError"
    using disable_outcome [of "param_int req ''expected_generation''" c] by (auto simp: update_outcome_def)
  then show ?thesis using update_answered Disable by (simp add: dispatch_def case_prod_beta)
qed (use assms in \<open>simp_all add: dispatch_def answered_def\<close>)

subsection \<open>Properties\<close>

text \<open>
  Exactly the documented requests are accepted: no unknown field, version 1, a non-empty
  string id, a method of the protocol, and for that method exactly its parameters with their
  types (\<open>well_formed_request\<close>); every other object is answered with an error.
\<close>

theorem request_schema_iff:
  "validate_request_schema req = None \<longleftrightarrow> well_formed_request req"
  by (rule schema_ok)



end
