(* ===== verification/Json.thy ===== *)
theory Json
  imports PyText "HOL-Library.Multiset"
begin

section \<open>JSON text (\<open>json.loads\<close> and \<open>json.dumps\<close>)\<close>

text \<open>
  The two functions of the standard library that the control socket and the secure transport
  exchange text with. \<open>loads\<close> is a lexer, which finds the tokens from left to right and stops
  at the first malformed one, and a machine with a stack of open arrays and objects, which
  consumes them; it fails where the library does, so the kind of the exception agrees:
  a JSONDecodeError, the ValueError of \<open>int()\<close> for a number of more than 4300 digits, or the
  RecursionError of a nesting deeper than the interpreter allows (\<open>lim\<close>). A number with a
  fraction or an exponent, NaN and the infinities become \<open>POther\<close>: nothing in the program
  tells floats of a document apart. \<open>dumps\<close> writes compact text (\<open>separators=(",", ":")\<close>).
\<close>

datatype json_error = JSONDecodeError | IntegerTooLong | NestingTooDeep

datatype jtoken =
    TLBrace | TRBrace | TLBracket | TRBracket | TColon | TComma
  | TStr pystr | TVal pyval | TBad json_error

subsection \<open>The lexer\<close>

definition json_space :: "nat \<Rightarrow> bool" where
  "json_space c \<longleftrightarrow> c \<in> {32, 9, 10, 13}"

definition hex_value :: "nat \<Rightarrow> nat option" where
  "hex_value c = (if 48 \<le> c \<and> c \<le> 57 then Some (c - 48)
     else if 97 \<le> c \<and> c \<le> 102 then Some (c - 87)
     else if 65 \<le> c \<and> c \<le> 70 then Some (c - 55) else None)"

fun hex4 :: "pystr \<Rightarrow> nat option" where
  "hex4 (a # b # c # d # _) =
     (case (hex_value a, hex_value b, hex_value c, hex_value d) of
        (Some w, Some x, Some y, Some z) \<Rightarrow> Some (((w * 16 + x) * 16 + y) * 16 + z)
      | _ \<Rightarrow> None)"
| "hex4 _ = None"

definition json_escape :: "nat \<Rightarrow> nat option" where
  "json_escape e =
     map_of [(34, 34), (92, 92), (47, 47), (98, 8), (102, 12), (110, 10), (114, 13), (116, 9)] e"

text \<open>The second half of a surrogate pair, if the text goes on with one.\<close>

definition low_half :: "pystr \<Rightarrow> nat option" where
  "low_half t =
     (case t of
        a # b # r \<Rightarrow>
          if a = 92 \<and> b = 117 then
            (case hex4 r of Some w \<Rightarrow> if 0xDC00 \<le> w \<and> w < 0xE000 then Some w else None | None \<Rightarrow> None)
          else None
      | _ \<Rightarrow> None)"

text \<open>The rest of a string after its opening quote, and the text behind its closing one.\<close>

function lex_string :: "pystr \<Rightarrow> (pystr \<times> pystr) option" where
  "lex_string [] = None"
| "lex_string (c # cs) =
     (if c = 34 then Some ([], cs)
      else if c < 32 then None
      else if c \<noteq> 92 then map_option (apfst (Cons c)) (lex_string cs)
      else (case cs of
              [] \<Rightarrow> None
            | e # r \<Rightarrow>
                if e = 117 then
                  (case hex4 r of
                     None \<Rightarrow> None
                   | Some u \<Rightarrow>
                       let t = drop 4 r
                       in (case (if 0xD800 \<le> u \<and> u < 0xDC00 then low_half t else None) of
                             Some w \<Rightarrow> map_option (apfst (Cons (0x10000 + (u - 0xD800) * 1024 + (w - 0xDC00))))
                                         (lex_string (drop 6 t))
                           | None \<Rightarrow> map_option (apfst (Cons u)) (lex_string t)))
                else (case json_escape e of
                        None \<Rightarrow> None
                      | Some x \<Rightarrow> map_option (apfst (Cons x)) (lex_string r))))"
  by pat_completeness auto
termination by (relation "measure length") auto

definition ascii_digit :: "nat \<Rightarrow> bool" where
  "ascii_digit c \<longleftrightarrow> 48 \<le> c \<and> c \<le> 57"

text \<open>The fraction and the exponent behind the integer part: whether there is one, and the rest.\<close>

definition lex_fraction :: "pystr \<Rightarrow> bool \<times> pystr" where
  "lex_fraction t =
     (case t of
        p # d # r \<Rightarrow> if p = 46 \<and> ascii_digit d then (True, dropWhile ascii_digit (d # r)) else (False, t)
      | _ \<Rightarrow> (False, t))"

definition lex_exponent :: "pystr \<Rightarrow> bool \<times> pystr" where
  "lex_exponent t =
     (case t of
        e # r \<Rightarrow>
          if e = 101 \<or> e = 69 then
            let s = (case r of c # r' \<Rightarrow> if c = 43 \<or> c = 45 then r' else r | [] \<Rightarrow> r)
            in if takeWhile ascii_digit s \<noteq> [] then (True, dropWhile ascii_digit s) else (False, t)
          else (False, t)
      | [] \<Rightarrow> (False, t))"

definition lex_integer :: "pystr \<Rightarrow> (pystr \<times> pystr) option" where
  "lex_integer t =
     (case t of
        c # r \<Rightarrow> if c = 48 then Some ([c], r)
                 else if ascii_digit c then Some (takeWhile ascii_digit t, dropWhile ascii_digit t)
                 else None
      | [] \<Rightarrow> None)"

definition integer_token :: "bool \<Rightarrow> pystr \<Rightarrow> jtoken" where
  "integer_token negative ds =
     (if length ds > max_str_digits then TBad IntegerTooLong
      else TVal (PInt (if negative then - digits_value ds else digits_value ds)))"

definition lex_number :: "pystr \<Rightarrow> (jtoken \<times> pystr) option" where
  "lex_number t =
     (let negative = (t \<noteq> [] \<and> hd t = 45)
      in (case lex_integer (if negative then tl t else t) of
            None \<Rightarrow> None
          | Some (ds, r) \<Rightarrow>
              let (fraction, r1) = lex_fraction r; (exponent, r2) = lex_exponent r1
              in Some (if fraction \<or> exponent then TVal POther else integer_token negative ds, r2)))"

definition punctuation :: "(nat \<times> jtoken) list" where
  "punctuation = [(123, TLBrace), (125, TRBrace), (91, TLBracket), (93, TRBracket), (58, TColon), (44, TComma)]"

definition literals :: "(pystr \<times> pyval) list" where
  "literals = [(lit ''null'', PNone), (lit ''true'', PBool True), (lit ''false'', PBool False),
     (lit ''NaN'', POther), (lit ''Infinity'', POther), (lit ''-Infinity'', POther)]"

definition has_prefix :: "pystr \<Rightarrow> pystr \<Rightarrow> bool" where
  "has_prefix p t \<longleftrightarrow> take (length p) t = p"

definition lex_literal :: "pystr \<Rightarrow> (jtoken \<times> pystr) option" where
  "lex_literal t =
     map_option (\<lambda>(p, v). (TVal v, drop (length p) t)) (find (\<lambda>(p, v). has_prefix p t) literals)"

definition lex_token :: "pystr \<Rightarrow> (jtoken \<times> pystr) option" where
  "lex_token t =
     (case t of
        [] \<Rightarrow> None
      | c # r \<Rightarrow>
          (case map_of punctuation c of
             Some p \<Rightarrow> Some (p, r)
           | None \<Rightarrow>
               if c = 34 then map_option (apfst TStr) (lex_string r)
               else (case lex_literal t of Some x \<Rightarrow> Some x | None \<Rightarrow> lex_number t)))"

lemma lex_string_shorter: "lex_string t = Some (s, r) \<Longrightarrow> length r < length t"
proof (induction t arbitrary: s r rule: lex_string.induct)
  case (2 c cs)
  then show ?case
    by (auto split: if_splits list.splits option.splits simp: Let_def less_Suc_eq)
      (use less_trans less_SucI in fastforce)+
qed simp

lemma lex_integer_shorter: "lex_integer t = Some (ds, r) \<Longrightarrow> length r < length t"
  by (auto simp: lex_integer_def ascii_digit_def le_imp_less_Suc length_dropWhile_le
      split: list.splits if_splits)

lemma lex_fraction_shorter: "lex_fraction t = (b, r) \<Longrightarrow> length r \<le> length t"
  by (auto simp: lex_fraction_def le_SucI length_dropWhile_le split: list.splits if_splits)

lemma lex_exponent_shorter: "lex_exponent t = (b, r) \<Longrightarrow> length r \<le> length t"
  by (auto simp: lex_exponent_def Let_def intro: le_SucI order_trans [OF length_dropWhile_le]
      split: list.splits if_splits)

lemma lex_number_shorter: "lex_number t = Some (k, r) \<Longrightarrow> length r < length t"
proof -
  assume n: "lex_number t = Some (k, r)"
  define u where "u = (if t \<noteq> [] \<and> hd t = 45 then tl t else t)"
  obtain ds r0 where i: "lex_integer u = Some (ds, r0)"
    using n by (auto simp: lex_number_def Let_def u_def split: option.splits)
  obtain f r1 where f: "lex_fraction r0 = (f, r1)" by force
  obtain e r2 where e: "lex_exponent r1 = (e, r2)" by force
  have "r2 = r" using n i f e by (simp add: lex_number_def Let_def u_def)
  moreover have "length u \<le> length t" by (simp add: u_def)
  then have "length r2 < length t"
    using lex_integer_shorter [OF i] lex_fraction_shorter [OF f] lex_exponent_shorter [OF e]
    by linarith
  ultimately show ?thesis by simp
qed

lemma lex_literal_shorter:
  assumes "lex_literal t = Some (k, r)"
  shows "length r < length t"
proof -
  obtain p v where f: "find (\<lambda>(p, v). has_prefix p t) literals = Some (p, v)" and r: "r = drop (length p) t"
    using assms by (auto simp: lex_literal_def)
  have "(p, v) \<in> set literals" "has_prefix p t" using f by (auto simp: find_Some_iff in_set_conv_nth)
  moreover from this(1) have "p \<noteq> []" by (auto simp: literals_def lit_def)
  ultimately have "t \<noteq> []" "0 < length p" by (auto simp: has_prefix_def)
  then show ?thesis unfolding r by (cases t) auto
qed

lemma lex_token_shorter: "lex_token t = Some (k, r) \<Longrightarrow> length r < length t"
  by (auto simp: lex_token_def less_SucI dest!: lex_string_shorter lex_literal_shorter lex_number_shorter
      split: list.splits option.splits if_splits)

text \<open>All tokens of a text; the first malformed one is the last.\<close>

function lex :: "pystr \<Rightarrow> jtoken list" where
  "lex t =
     (case t of
        [] \<Rightarrow> []
      | c # r \<Rightarrow>
          if json_space c then lex r
          else (case lex_token t of
                  None \<Rightarrow> [TBad JSONDecodeError]
                | Some (k, r') \<Rightarrow> k # lex r'))"
  by pat_completeness auto
termination by (relation "measure length") (auto dest: lex_token_shorter)

declare lex.simps [simp del]

subsection \<open>The parser\<close>

text \<open>
  The open arrays and objects, innermost first: the elements so far, or the items so far and
  the key whose value is being read. The mode says what may come next.
\<close>

datatype jframe = FArr "pyval list" | FObj "(pyval \<times> pyval) list" pystr

datatype jmode =
    ExpectValue bool          \<comment> \<open>a value; at the start of an array also its end\<close>
  | ExpectKey "(pyval \<times> pyval) list" bool  \<comment> \<open>a key of the object; at its start also its end\<close>
  | ExpectColon "(pyval \<times> pyval) list" pystr
  | AfterValue pyval

fun json_run :: "nat \<Rightarrow> jmode \<Rightarrow> jframe list \<Rightarrow> jtoken list \<Rightarrow> json_error + pyval" where
  "json_run lim (AfterValue v) [] ts = (if ts = [] then Inr v else Inl JSONDecodeError)"
| "json_run lim m st [] = Inl JSONDecodeError"
| "json_run lim (AfterValue v) (FArr vs # st) (t # ts) =
     (case t of
        TComma \<Rightarrow> json_run lim (ExpectValue False) (FArr (vs @ [v]) # st) ts
      | TRBracket \<Rightarrow> json_run lim (AfterValue (PList (vs @ [v]))) st ts
      | _ \<Rightarrow> Inl JSONDecodeError)"
| "json_run lim (AfterValue v) (FObj d k # st) (t # ts) =
     (case t of
        TComma \<Rightarrow> json_run lim (ExpectKey (AList.update (PStr k) v d) False) st ts
      | TRBrace \<Rightarrow> json_run lim (AfterValue (PDict (AList.update (PStr k) v d))) st ts
      | _ \<Rightarrow> Inl JSONDecodeError)"
| "json_run lim (ExpectKey d start) st (t # ts) =
     (case t of
        TStr k \<Rightarrow> json_run lim (ExpectColon d k) st ts
      | TRBrace \<Rightarrow> if start then json_run lim (AfterValue (PDict d)) st ts else Inl JSONDecodeError
      | _ \<Rightarrow> Inl JSONDecodeError)"
| "json_run lim (ExpectColon d k) st (t # ts) =
     (case t of
        TColon \<Rightarrow> json_run lim (ExpectValue False) (FObj d k # st) ts
      | _ \<Rightarrow> Inl JSONDecodeError)"
| "json_run lim (ExpectValue start) st (t # ts) =
     (case t of
        TStr s \<Rightarrow> json_run lim (AfterValue (PStr s)) st ts
      | TVal v \<Rightarrow> json_run lim (AfterValue v) st ts
      | TBad e \<Rightarrow> Inl e
      | TLBracket \<Rightarrow>
          if length st < lim then json_run lim (ExpectValue True) (FArr [] # st) ts
          else Inl NestingTooDeep
      | TLBrace \<Rightarrow>
          if length st < lim then json_run lim (ExpectKey [] True) st ts else Inl NestingTooDeep
      | TRBracket \<Rightarrow>
          (case st of
             FArr vs # st' \<Rightarrow> if start then json_run lim (AfterValue (PList vs)) st' ts
                             else Inl JSONDecodeError
           | _ \<Rightarrow> Inl JSONDecodeError)
      | _ \<Rightarrow> Inl JSONDecodeError)"

text \<open>\<open>json.loads(text)\<close>; a text that begins with a byte order mark is refused.\<close>

definition json_loads :: "nat \<Rightarrow> pystr \<Rightarrow> json_error + pyval" where
  "json_loads lim t =
     (if t \<noteq> [] \<and> hd t = 0xFEFF then Inl JSONDecodeError
      else json_run lim (ExpectValue False) [] (lex t))"

fun json_exception :: "json_error \<Rightarrow> py_error" where
  "json_exception JSONDecodeError = ValueError"
| "json_exception IntegerTooLong = ValueError"
| "json_exception NestingTooDeep = RuntimeError"

subsection \<open>The encoder\<close>

definition hex_digit :: "nat \<Rightarrow> nat" where
  "hex_digit v = (if v < 10 then 48 + v else 87 + v)"

definition hex_escape :: "nat \<Rightarrow> pystr" where
  "hex_escape u = [92, 117, hex_digit (u div 4096), hex_digit (u div 256 mod 16),
     hex_digit (u div 16 mod 16), hex_digit (u mod 16)]"

definition short_escapes :: "(nat \<times> nat) list" where
  "short_escapes = [(34, 34), (92, 92), (8, 98), (12, 102), (10, 110), (13, 114), (9, 116)]"

definition dump_char :: "bool \<Rightarrow> nat \<Rightarrow> pystr" where
  "dump_char ensure_ascii c =
     (case map_of short_escapes c of
        Some e \<Rightarrow> [92, e]
      | None \<Rightarrow>
          if c < 32 then hex_escape c
          else if \<not> ensure_ascii \<or> c < 127 then [c]
          else if c < 0x10000 then hex_escape c
          else hex_escape (0xD800 + (c - 0x10000) div 1024) @
               hex_escape (0xDC00 + (c - 0x10000) mod 1024))"

definition dump_string :: "bool \<Rightarrow> pystr \<Rightarrow> pystr" where
  "dump_string ensure_ascii s = 34 # concat (map (dump_char ensure_ascii) s) @ [34]"

text \<open>
  The documents of the program have text keys; what else a dictionary could be keyed with, bytes
  and other objects are refused here with the TypeError of the library. (The program writes
  no floats.)
\<close>

fun dump_value :: "bool \<Rightarrow> pyval \<Rightarrow> pystr res"
  and dump_elements :: "bool \<Rightarrow> pyval list \<Rightarrow> pystr res"
  and dump_items :: "bool \<Rightarrow> (pyval \<times> pyval) list \<Rightarrow> pystr res" where
  "dump_value a PNone = Inr (lit ''null'')"
| "dump_value a (PBool b) = Inr (if b then lit ''true'' else lit ''false'')"
| "dump_value a (PInt i) =
     (if length (nat_str (nat \<bar>i\<bar>)) > max_str_digits then Inl ValueError else Inr (int_str i))"
| "dump_value a (PStr s) = Inr (dump_string a s)"
| "dump_value a (PList vs) = rbind (dump_elements a vs) (\<lambda>t. Inr ([91] @ t @ [93]))"
| "dump_value a (PDict d) = rbind (dump_items a d) (\<lambda>t. Inr ([123] @ t @ [125]))"
| "dump_value a _ = Inl TypeError"
| "dump_elements a [] = Inr []"
| "dump_elements a [v] = dump_value a v"
| "dump_elements a (v # w # vs) =
     rbind (dump_value a v) (\<lambda>t. rbind (dump_elements a (w # vs)) (\<lambda>u. Inr (t @ [44] @ u)))"
| "dump_items a [] = Inr []"
| "dump_items a ((k, v) # d) =
     (case k of
        PStr s \<Rightarrow>
          rbind (dump_value a v) (\<lambda>t.
          rbind (dump_items a d) (\<lambda>u.
            Inr (dump_string a s @ [58] @ t @ (if d = [] then [] else 44 # u))))
      | _ \<Rightarrow> Inl TypeError)"

definition item_key :: "pyval \<times> pyval \<Rightarrow> pystr" where
  "item_key p = (case fst p of PStr s \<Rightarrow> s | _ \<Rightarrow> [])"

fun sort_keys :: "pyval \<Rightarrow> pyval" where
  "sort_keys (PList vs) = PList (map sort_keys vs)"
| "sort_keys (PDict d) = PDict (sort_key item_key (map (\<lambda>(k, v). (k, sort_keys v)) d))"
| "sort_keys v = v"

definition json_dumps :: "bool \<Rightarrow> bool \<Rightarrow> pyval \<Rightarrow> pystr res" where
  "json_dumps ensure_ascii by_key v = dump_value ensure_ascii (if by_key then sort_keys v else v)"

subsection \<open>What is written is read back\<close>

text \<open>
  The values \<open>dumps\<close> writes without loss: text without surrogates, integers of printable
  size, and dictionaries with distinct text keys, nested no deeper than the limit.
\<close>

fun json_ok :: "nat \<Rightarrow> pyval \<Rightarrow> bool" where
  "json_ok n PNone = True"
| "json_ok n (PBool b) = True"
| "json_ok n (PInt i) = (length (nat_str (nat \<bar>i\<bar>)) \<le> max_str_digits)"
| "json_ok n (PStr s) = (wf_text s \<and> clean s)"
| "json_ok n (PList vs) = (0 < n \<and> (\<forall>v \<in> set vs. json_ok (n - 1) v))"
| "json_ok n (PDict d) =
     (0 < n \<and> distinct (keys d) \<and>
      (\<forall>(k, v) \<in> set d. (\<exists>s. k = PStr s \<and> wf_text s \<and> clean s) \<and> json_ok (n - 1) v))"
| "json_ok n _ = False"

text \<open>The tokens of a value.\<close>

fun value_tokens :: "pyval \<Rightarrow> jtoken list"
  and element_tokens :: "pyval list \<Rightarrow> jtoken list"
  and item_tokens :: "(pyval \<times> pyval) list \<Rightarrow> jtoken list" where
  "value_tokens (PStr s) = [TStr s]"
| "value_tokens (PList vs) = TLBracket # element_tokens vs @ [TRBracket]"
| "value_tokens (PDict d) = TLBrace # item_tokens d @ [TRBrace]"
| "value_tokens v = [TVal v]"
| "element_tokens [] = []"
| "element_tokens [v] = value_tokens v"
| "element_tokens (v # w # vs) = value_tokens v @ TComma # element_tokens (w # vs)"
| "item_tokens [] = []"
| "item_tokens ((k, v) # d) =
     TStr (case k of PStr s \<Rightarrow> s | _ \<Rightarrow> []) # TColon # value_tokens v @
     (if d = [] then [] else TComma # item_tokens d)"

text \<open>A text behind a value: nothing, or one of the characters that end a number.\<close>

definition ends :: "pystr \<Rightarrow> bool" where
  "ends r \<longleftrightarrow> r = [] \<or> hd r \<in> {44, 58, 93, 125}"

lemma endsD: "ends r \<Longrightarrow> r = [] \<or> (\<exists>c r'. r = c # r' \<and> c \<in> {44, 58, 93, 125})"
  by (cases r) (auto simp: ends_def)

lemma lex_punctuation: "map_of punctuation c = Some k \<Longrightarrow> lex (c # r) = k # lex r"
  by (subst lex.simps) (auto simp: lex_token_def punctuation_def json_space_def split: if_splits)

lemma lex_marks [simp]:
  "lex (123 # r) = TLBrace # lex r" "lex (125 # r) = TRBrace # lex r"
  "lex (91 # r) = TLBracket # lex r" "lex (93 # r) = TRBracket # lex r"
  "lex (58 # r) = TColon # lex r" "lex (44 # r) = TComma # lex r"
  by (rule lex_punctuation; simp add: punctuation_def)+

lemma hex_value_digit: "v < 16 \<Longrightarrow> hex_value (hex_digit v) = Some v"
  by (auto simp: hex_value_def hex_digit_def)

lemma hex4_escape: "u < 0x10000 \<Longrightarrow> hex4 (drop 2 (hex_escape u) @ r) = Some u"
proof -
  assume u: "u < 0x10000"
  then have "u div 4096 < 16" by auto
  moreover have "((u div 4096 * 16 + u div 256 mod 16) * 16 + u div 16 mod 16) * 16 + u mod 16 = u"
  proof -
    have "u div 4096 * 16 + u div 256 mod 16 = u div 256"
      using div_mult_mod_eq [of "u div 256" 16] by (simp add: div_mult2_eq [symmetric])
    moreover have "u div 256 * 16 + u div 16 mod 16 = u div 16"
      using div_mult_mod_eq [of "u div 16" 16] by (simp add: div_mult2_eq [symmetric])
    ultimately show ?thesis using div_mult_mod_eq [of u 16] by simp
  qed
  ultimately show ?thesis by (simp add: hex_escape_def hex_value_digit)
qed

text \<open>One character, written and read.\<close>

lemma lex_string_escape:
  assumes "u < 0x10000" and "\<not> is_surrogate u"
  shows "lex_string (hex_escape u @ r) = map_option (apfst (Cons u)) (lex_string r)"
proof -
  have e: "hex_escape u @ r = 92 # 117 # drop 2 (hex_escape u) @ r" "drop 4 (drop 2 (hex_escape u) @ r) = r"
    by (simp_all add: hex_escape_def)
  have "\<not> (0xD800 \<le> u \<and> u < 0xDC00)" using assms(2) by (auto simp: is_surrogate_def)
  then show ?thesis
    unfolding e(1) using hex4_escape [OF assms(1), of r] e(2) by (auto simp add: Let_def)
qed

lemma lex_string_pair:
  assumes "0x10000 \<le> c" and "c < 0x110000"
  shows "lex_string (hex_escape (0xD800 + (c - 0x10000) div 1024) @
      hex_escape (0xDC00 + (c - 0x10000) mod 1024) @ r) = map_option (apfst (Cons c)) (lex_string r)"
proof -
  let ?h = "0xD800 + (c - 0x10000) div 1024" and ?l = "0xDC00 + (c - 0x10000) mod 1024"
  have h: "0xD800 \<le> ?h" "?h < 0xDC00" and l: "0xDC00 \<le> ?l" "?l < 0xE000" using assms by auto
  let ?t = "hex_escape ?l @ r"
  have e: "hex_escape ?h @ ?t = 92 # 117 # drop 2 (hex_escape ?h) @ ?t"
      "drop 4 (drop 2 (hex_escape ?h) @ ?t) = ?t" "drop 6 ?t = r"
      "?t = 92 # 117 # drop 2 (hex_escape ?l) @ r"
    by (simp_all add: hex_escape_def)
  have "hex4 (drop 2 (hex_escape ?h) @ ?t) = Some ?h" using h by (intro hex4_escape) simp
  moreover have "low_half ?t = Some ?l"
    using hex4_escape [of ?l r] l by (subst e(4)) (simp add: low_half_def)
  moreover have "0x10000 + (?h - 0xD800) * 1024 + (?l - 0xDC00) = c" using assms(1) by auto
  ultimately show ?thesis unfolding e(1) using h e(2,3) by (simp add: Let_def del: hex4.simps)
qed

lemma lex_dump_char:
  assumes "c < 0x110000" and "\<not> is_surrogate c"
  shows "lex_string (dump_char a c @ r) = map_option (apfst (Cons c)) (lex_string r)"
proof (cases "map_of short_escapes c")
  case (Some e)
  then show ?thesis
    by (auto simp: dump_char_def short_escapes_def json_escape_def split: if_splits)
next
  case None
  then have "c \<noteq> 34" "c \<noteq> 92" by (auto simp: short_escapes_def split: if_splits)
  then show ?thesis
    using None assms lex_string_escape [of c r] lex_string_pair [of c r]
    by (auto simp: dump_char_def Let_def)
qed

lemma lex_dump_string:
  assumes "wf_text s" and "clean s"
  shows "lex (dump_string a s @ r) = TStr s # lex r"
proof -
  have "lex_string (concat (map (dump_char a) s) @ 34 # r) = Some (s, r)"
    using assms
  proof (induction s)
    case (Cons c s)
    then have "c < 0x110000" "\<not> is_surrogate c" by (simp_all add: wf_text_def clean_def)
    with Cons show ?case by (simp add: lex_dump_char wf_text_def clean_def)
  qed simp
  then show ?thesis
    by (subst lex.simps) (simp add: dump_string_def lex_token_def punctuation_def json_space_def)
qed

lemma ends_not_digit:
  assumes "ends r"
  shows "takeWhile ascii_digit r = []" "dropWhile ascii_digit r = r" "lex_fraction r = (False, r)"
    "lex_exponent r = (False, r)"
  using endsD [OF assms]
  by (auto simp: ascii_digit_def lex_fraction_def lex_exponent_def split: list.splits)

lemma lex_nat_str:
  assumes "ends r"
  shows "lex_integer (nat_str n @ r) = Some (nat_str n, r)"
proof (cases "n = 0")
  case True
  then show ?thesis by (simp add: lex_integer_def nat_str.simps)
next
  case False
  have d: "\<forall>c \<in> set (nat_str n). ascii_digit c"
    using nat_str_digits by (auto simp: ascii_digit_def)
  obtain c s where cs: "nat_str n = c # s" by (cases "nat_str n") auto
  have "c \<noteq> 48"
  proof -
    have "0 < n \<Longrightarrow> hd (nat_str n) \<noteq> 48"
      by (induction n rule: nat_str.induct) (subst nat_str.simps, auto simp: hd_append)
    then show ?thesis using False cs by simp
  qed
  moreover have "takeWhile ascii_digit (nat_str n @ r) = nat_str n"
      "dropWhile ascii_digit (nat_str n @ r) = r"
    using d ends_not_digit(1,2) [OF assms] by (simp_all add: takeWhile_append2 dropWhile_append2)
  ultimately show ?thesis using d cs by (simp add: lex_integer_def)
qed

lemma has_prefix_Cons: "has_prefix (p # ps) (c # t) \<longleftrightarrow> c = p \<and> has_prefix ps t"
  by (auto simp: has_prefix_def)

lemma literal_heads:
  "(p, v) \<in> set literals \<Longrightarrow> \<exists>c q. p = c # q \<and> (c \<in> {110, 116, 102, 78, 73} \<or> c = 45 \<and> (\<exists>q'. q = 73 # q'))"
  by (simp add: literals_def lit_def) blast

lemma lex_literal_None:
  assumes "d = 45 \<or> ascii_digit d" and "d = 45 \<Longrightarrow> t \<noteq> [] \<and> ascii_digit (hd t)"
  shows "lex_literal (d # t) = None"
proof -
  have "\<not> has_prefix p (d # t)" if lits: "(p, v) \<in> set literals" for p v
  proof -
    obtain c q where p: "p = c # q" "c \<in> {110, 116, 102, 78, 73} \<or> c = 45 \<and> (\<exists>q'. q = 73 # q')"
      using literal_heads [OF lits] by blast
    show ?thesis
    proof
      assume "has_prefix p (d # t)"
      then have d: "d = c" "has_prefix q t" by (simp_all add: p(1) has_prefix_Cons)
      then have "c = 45" using p(2) assms(1) by (auto simp: ascii_digit_def)
      with p(2) obtain q' where "q = 73 # q'" by auto
      with d \<open>c = 45\<close> assms(2) show False by (cases t) (auto simp: has_prefix_Cons ascii_digit_def)
    qed
  qed
  then show ?thesis by (auto simp: lex_literal_def find_None_iff)
qed

lemma lex_int_str:
  assumes "ends r" and "length (nat_str (nat \<bar>i\<bar>)) \<le> max_str_digits"
  shows "lex (int_str i @ r) = TVal (PInt i) # lex r"
proof -
  obtain c s where cs: "nat_str (nat \<bar>i\<bar>) = c # s" by (cases "nat_str (nat \<bar>i\<bar>)") auto
  have c: "48 \<le> c" "c \<le> 57" using nat_str_digits [of c "nat \<bar>i\<bar>"] cs by auto
  have n: "lex_number (int_str i @ r) = Some (TVal (PInt i), r)"
  proof (cases "i < 0")
    case True
    then have "int_str i = 45 # nat_str (nat \<bar>i\<bar>)" by (simp add: int_str_def)
    then show ?thesis
      using True assms lex_nat_str [OF assms(1), of "nat \<bar>i\<bar>"] ends_not_digit [OF assms(1)]
      by (simp add: lex_number_def integer_token_def digits_value_nat_str)
  next
    case False
    then have s: "int_str i = c # s" using cs by (simp add: int_str_def)
    have "lex_integer (int_str i @ r) = Some (nat_str (nat \<bar>i\<bar>), r)"
      using lex_nat_str [OF assms(1), of "nat \<bar>i\<bar>"] s cs by simp
    then show ?thesis
      using False assms ends_not_digit [OF assms(1)] c s
      by (simp add: lex_number_def integer_token_def digits_value_nat_str)
  qed
  obtain d t where d: "int_str i @ r = d # t" "d = 45 \<or> ascii_digit d"
      "d = 45 \<Longrightarrow> t \<noteq> [] \<and> ascii_digit (hd t)"
    using cs c by (cases "i < 0") (auto simp: int_str_def ascii_digit_def)
  have l: "lex_literal (int_str i @ r) = None" unfolding d(1) by (rule lex_literal_None [OF d(2,3)])
  have "map_of punctuation d = None" "d \<noteq> 34" "\<not> json_space d"
    using d(2) by (auto simp: punctuation_def ascii_digit_def json_space_def)
  then show ?thesis
    using n l d(1) by (subst lex.simps) (simp add: lex_token_def)
qed

lemma lex_constant:
  "lex (lit ''null'' @ r) = TVal PNone # lex r"
  "lex (lit ''true'' @ r) = TVal (PBool True) # lex r"
  "lex (lit ''false'' @ r) = TVal (PBool False) # lex r"
  by (subst lex.simps, simp add: lit_def json_space_def lex_token_def punctuation_def
      lex_literal_def literals_def has_prefix_def)+

lemma ends_simps [simp]:
  "ends (44 # r)" "ends (58 # r)" "ends (93 # r)" "ends (125 # r)" "ends []"
  by (simp_all add: ends_def)

text \<open>The tokens of what \<open>dumps\<close> writes are the tokens of the value.\<close>

lemma lex_dump:
  "json_ok n v \<Longrightarrow> ends r \<Longrightarrow>
     \<exists>t. dump_value a v = Inr t \<and> lex (t @ r) = value_tokens v @ lex r"
  "(\<forall>v \<in> set vs. json_ok n v) \<Longrightarrow> ends r \<Longrightarrow>
     \<exists>t. dump_elements a vs = Inr t \<and> lex (t @ r) = element_tokens vs @ lex r"
  "(\<forall>(k, v) \<in> set d. (\<exists>s. k = PStr s \<and> wf_text s \<and> clean s) \<and> json_ok n v) \<Longrightarrow> ends r \<Longrightarrow>
     \<exists>t. dump_items a d = Inr t \<and> lex (t @ r) = item_tokens d @ lex r"
proof (induction a v and a vs and a d arbitrary: n r and n r and n r
    rule: dump_value_dump_elements_dump_items.induct)
  case (5 a vs)
  from 5(1) [of "n - 1" "93 # r"] 5(2,3) show ?case by force
next
  case (6 a d)
  from 6(1) [of "n - 1" "125 # r"] 6(2,3) show ?case by force
next
  case (10 a v w vs)
  obtain u where u: "dump_value a v = Inr u" using 10(1) [of n "[]"] 10(3) by auto
  obtain t where t: "dump_elements a (w # vs) = Inr t" "lex (t @ r) = element_tokens (w # vs) @ lex r"
    using 10(2) [OF u, of n r] 10(3,4) by auto
  have "lex (u @ 44 # t @ r) = value_tokens v @ lex (44 # t @ r)"
    using 10(1) [of n "44 # t @ r"] 10(3) u by auto
  with t u show ?case by simp
next
  case (12 a k v d)
  obtain s where s: "k = PStr s" "wf_text s" "clean s" using 12(3) by auto
  obtain t where t: "dump_value a v = Inr t" using 12(1) [OF s(1), of n "[]"] 12(3) by auto
  obtain u where u: "dump_items a d = Inr u" "lex (u @ r) = item_tokens d @ lex r"
    using 12(2) [OF s(1) t, of n r] 12(3,4) by auto
  have "lex (t @ (if d = [] then r else 44 # u @ r)) =
      value_tokens v @ lex (if d = [] then r else 44 # u @ r)"
    using 12(1) [OF s(1), of n "if d = [] then r else 44 # u @ r"] 12(3,4) t by (cases "d = []") auto
  with s t u show ?case by (auto simp: lex_dump_string)
qed (auto simp: lex_constant lex_int_str lex_dump_string)

text \<open>The parser consumes the tokens of a value and continues behind it.\<close>

lemma run_tokens:
  "json_ok n v \<Longrightarrow> length st + n \<le> lim \<Longrightarrow>
     json_run lim (ExpectValue b) st (value_tokens v @ ts) = json_run lim (AfterValue v) st ts"
  "vs \<noteq> [] \<Longrightarrow> (\<forall>v \<in> set vs. json_ok n v) \<Longrightarrow> Suc (length st) + n \<le> lim \<Longrightarrow>
     json_run lim (ExpectValue b) (FArr acc # st) (element_tokens vs @ TRBracket # ts) =
     json_run lim (AfterValue (PList (acc @ vs))) st ts"
  "d \<noteq> [] \<Longrightarrow> distinct (keys (acc' @ d)) \<Longrightarrow>
     (\<forall>(k, v) \<in> set d. (\<exists>s. k = PStr s \<and> wf_text s \<and> clean s) \<and> json_ok n v) \<Longrightarrow>
     Suc (length st) + n \<le> lim \<Longrightarrow>
     json_run lim (ExpectKey acc' b) st (item_tokens d @ TRBrace # ts) =
     json_run lim (AfterValue (PDict (acc' @ d))) st ts"
proof (induction v and vs and d arbitrary: n st b ts and n st b ts acc and n st b ts acc'
    rule: value_tokens_element_tokens_item_tokens.induct)
  case (2 vs)
  show ?case
  proof (cases "vs = []")
    case True
    with 2(2,3) show ?thesis by simp
  next
    case False
    with 2(1) [OF False, where n = "n - 1" and acc = "[]"] 2(2,3) show ?thesis by simp
  qed
next
  case (3 d)
  show ?case
  proof (cases "d = []")
    case True
    with 3(2,3) show ?thesis by simp
  next
    case False
    have "json_run lim (ExpectKey [] True) st (item_tokens d @ TRBrace # ts) =
        json_run lim (AfterValue (PDict d)) st ts"
      using 3(1) [OF False, where n = "n - 1" and acc' = "[]"] 3(2,3) by simp
    with 3(2,3) show ?thesis by simp
  qed
next
  case (6 v)
  then show ?case using 6(1) [where n = n and st = "FArr acc # st"] by simp
next
  case (7 v w vs)
  have "json_run lim (ExpectValue b) (FArr acc # st)
      (value_tokens v @ TComma # element_tokens (w # vs) @ TRBracket # ts) =
      json_run lim (AfterValue v) (FArr acc # st) (TComma # element_tokens (w # vs) @ TRBracket # ts)"
    using 7(1) [where n = n and st = "FArr acc # st"] 7(4,5) by simp
  also have "\<dots> = json_run lim (AfterValue (PList ((acc @ [v]) @ w # vs))) st ts"
    using 7(2) [where n = n and st = st and b = False and acc = "acc @ [v]"] 7(4,5) by simp
  finally show ?case by simp
next
  case (9 k v d)
  obtain s where s: "k = PStr s" using 9(5) by auto
  have fresh: "k \<notin> set (keys acc')" using 9(4) by auto
  have v: "json_run lim (ExpectValue False) (FObj acc' s # st) (value_tokens v @ us) =
      json_run lim (AfterValue v) (FObj acc' s # st) us" for us
    using 9(1) [where n = n and st = "FObj acc' s # st"] 9(5,6) by simp
  show ?case
  proof (cases "d = []")
    case True
    then show ?thesis using s v fresh by simp
  next
    case False
    have "json_run lim (ExpectKey (acc' @ [(k, v)]) False) st (item_tokens d @ TRBrace # ts) =
        json_run lim (AfterValue (PDict ((acc' @ [(k, v)]) @ d))) st ts"
      using 9(2) [OF False, where n = n and st = st and acc' = "acc' @ [(k, v)]"] False 9(4-6) by simp
    then show ?thesis using s v fresh False by simp
  qed
qed auto

lemma dump_value_head:
  "dump_value a v = Inr t \<Longrightarrow> t \<noteq> [] \<and> hd t < 128"
proof (cases v)
  case (PInt i)
  assume "dump_value a v = Inr t"
  then have "t = int_str i" using PInt by (auto split: if_splits)
  then show ?thesis
    using nat_str_digits [of "hd (nat_str (nat \<bar>i\<bar>))" "nat \<bar>i\<bar>"]
    by (auto simp: int_str_def)
qed (auto simp: lit_def dump_string_def rbind_Inr_iff split: if_splits)

text \<open>\<open>loads(dumps(v)) == v\<close>\<close>

lemma loads_dump_value:
  assumes "json_ok lim v"
  shows "\<exists>t. dump_value a v = Inr t \<and> json_loads lim t = Inr v"
proof -
  obtain t where t: "dump_value a v = Inr t" "lex (t @ []) = value_tokens v @ lex []"
    using lex_dump(1) [OF assms, of "[]" a] by auto
  have "lex [] = []" by (simp add: lex.simps)
  then have "json_run lim (ExpectValue False) [] (lex t) = Inr v"
    using run_tokens(1) [OF assms, of "[]" lim False "[]"] t(2) by simp
  moreover have "\<not> (t \<noteq> [] \<and> hd t = 0xFEFF)" using dump_value_head [OF t(1)] by auto
  ultimately show ?thesis using t(1) by (auto simp: json_loads_def)
qed

lemma json_ok_sort_keys: "json_ok n v \<Longrightarrow> json_ok n (sort_keys v)"
proof (induction v arbitrary: n rule: sort_keys.induct)
  case (2 d)
  have "keys (sort_key item_key (map (\<lambda>(k, v). (k, sort_keys v)) d)) =
      map fst (sort_key item_key (map (\<lambda>(k, v). (k, sort_keys v)) d))" by simp
  moreover have "distinct (keys (sort_key item_key (map (\<lambda>(k, v). (k, sort_keys v)) d)))"
  proof -
    have "mset (map fst (sort_key item_key (map (\<lambda>(k, v). (k, sort_keys v)) d))) =
        mset (map fst (map (\<lambda>(k, v). (k, sort_keys v)) d))"
      by (simp only: mset_map mset_sort)
    also have "map fst (map (\<lambda>(k, v). (k, sort_keys v)) d) = keys d" by (auto simp: comp_def)
    finally have "distinct (map fst (sort_key item_key (map (\<lambda>(k, v). (k, sort_keys v)) d))) =
        distinct (keys d)"
      by (rule mset_eq_imp_distinct_iff)
    then show ?thesis using 2(2) by (simp only: json_ok.simps)
  qed
  ultimately show ?case using 2 by fastforce
qed auto

lemma loads_dumps:
  assumes "json_ok lim v"
  shows "\<exists>t. json_dumps a by_key v = Inr t \<and>
    json_loads lim t = Inr (if by_key then sort_keys v else v)"
  using loads_dump_value [OF assms, of a] loads_dump_value [OF json_ok_sort_keys [OF assms], of a]
  by (auto simp: json_dumps_def)

text \<open>Short texts, for concrete documents.\<close>

lemma lex_quoted:
  assumes "list_all (\<lambda>c. 32 \<le> c \<and> c < 127 \<and> c \<noteq> 34 \<and> c \<noteq> 92) s"
  shows "lex (34 # s @ 34 # r) = TStr s # lex r"
proof -
  have "dump_char True c = [c]" if "c \<in> set s" for c
    using that assms by (auto simp: list_all_iff dump_char_def short_escapes_def)
  then have "dump_string True s = 34 # s @ [34]"
    by (simp add: dump_string_def) (induction s, simp_all)
  moreover have "wf_text s" "clean s"
    using assms by (force simp: list_all_iff wf_text_def clean_def is_surrogate_def)+
  ultimately show ?thesis using lex_dump_string [of s True r] by simp
qed

lemma lex_nil [simp]: "lex [] = []"
  by (simp add: lex.simps)

end
