(* ===== verification/ControlJson.thy ===== *)
theory ControlJson
  imports ControlProtocol Json
begin

section \<open>Control messages as JSON (\<open>core/routing_control_protocol.py\<close>)\<close>

text \<open>
  \<open>decode_json_request\<close>, \<open>encode_json_response\<close> and \<open>handle_json\<close>: one unframed message in,
  one response out. \<open>lim\<close> is the nesting the interpreter allows to \<open>json.loads\<close>. What is
  shown: what the client decodes is the response object, the text of a response never
  contains a line break, a text that is not an object is answered without touching the
  service, and the three ways a message can raise instead of being answered.
\<close>

text \<open>The result of decoding: the request, or the MalformedJsonError its caller catches.\<close>

datatype decoded = Request request | MalformedJsonError

definition text_keys :: "(pyval \<times> pyval) list \<Rightarrow> request" where
  "text_keys d = map (\<lambda>(k, v). (item_key (k, v), v)) d"

definition decode_json_request :: "nat \<Rightarrow> pyval \<Rightarrow> decoded res" where
  "decode_json_request lim data =
     rbind (case data of
         PBytes b \<Rightarrow> (case utf8_decode Strict b of Inr t \<Rightarrow> Inr (Some t) | Inl _ \<Rightarrow> Inr None)
       | PStr t \<Rightarrow> Inr (Some t)
       | _ \<Rightarrow> Inl TypeError)
     (\<lambda>t. case t of
         None \<Rightarrow> Inr MalformedJsonError
       | Some s \<Rightarrow>
           (case json_loads lim s of
              Inl JSONDecodeError \<Rightarrow> Inr MalformedJsonError
            | Inl e \<Rightarrow> Inl (json_exception e)
            | Inr (PDict d) \<Rightarrow> Inr (Request (text_keys d))
            | Inr _ \<Rightarrow> Inr MalformedJsonError))"

definition encode_json_response :: "pyval \<Rightarrow> bytes res" where
  "encode_json_response response = rbind (json_dumps False True response) encode_strict"

definition malformed_response :: pyval where
  "malformed_response = error_response None (lit ''malformed_json'') (lit ''Malformed JSON request.'') []"

definition handle_json ::
  "nat \<Rightarrow> (py_error \<Rightarrow> pystr) \<Rightarrow> statistics_provider \<Rightarrow> pyval \<Rightarrow> control_service
     \<Rightarrow> bytes res \<times> control_service" where
  "handle_json lim describe sp data c =
     (case decode_json_request lim data of
        Inl e \<Rightarrow> (Inl e, c)
      | Inr MalformedJsonError \<Rightarrow> (encode_json_response malformed_response, c)
      | Inr (Request req) \<Rightarrow>
          (case handle_request describe sp req c of
             (Inl e, c') \<Rightarrow> (Inl e, c')
           | (Inr response, c') \<Rightarrow> (encode_json_response response, c')))"

text \<open>What a client makes of the bytes of a response.\<close>

definition client_decodes :: "nat \<Rightarrow> bytes \<Rightarrow> pyval \<Rightarrow> bool" where
  "client_decodes lim b v \<longleftrightarrow> (\<exists>t. utf8_decode Strict b = Inr t \<and> json_loads lim t = Inr v)"

subsection \<open>The text of a document\<close>

text \<open>No control character and, without surrogates in the value, no surrogate.\<close>

definition printable :: "pystr \<Rightarrow> bool" where
  "printable s \<longleftrightarrow> list_all (\<lambda>c. 32 \<le> c) s"

lemma printable_simps [simp]:
  "printable []" "printable (c # s) \<longleftrightarrow> 32 \<le> c \<and> printable s"
  "printable (s @ t) \<longleftrightarrow> printable s \<and> printable t"
  by (simp_all add: printable_def)

lemma hex_escape_plain: "printable (hex_escape u)" "\<forall>c \<in> set (hex_escape u). c < 0x80 \<or> 4096 * 16 \<le> u"
proof -
  have d: "u < 65536 \<Longrightarrow> u div 4096 < 16" by auto
  show "printable (hex_escape u)" by (auto simp: hex_escape_def hex_digit_def)
  show "\<forall>c \<in> set (hex_escape u). c < 0x80 \<or> 4096 * 16 \<le> u"
  proof (cases "u < 65536")
    case True
    moreover have "u div 4096 < 16" "u div 256 mod 16 < 16" "u div 16 mod 16 < 16" "u mod 16 < 16"
      using d True by auto
    ultimately show ?thesis by (auto simp: hex_escape_def hex_digit_def)
  qed auto
qed

lemma printable_dump_char: "printable (dump_char a c)"
  by (auto simp: dump_char_def short_escapes_def hex_escape_plain(1) split: option.splits if_splits)

lemma printable_dump_string [simp]: "printable (dump_string a s)"
proof -
  have "printable (concat (map (dump_char a) s))"
    by (induction s) (simp_all add: printable_dump_char)
  then show ?thesis by (simp add: dump_string_def)
qed

lemma printable_int_str: "printable (int_str i)"
  using nat_str_digits by (force simp: int_str_def printable_def list_all_iff)

lemma printable_dump:
  "dump_value a v = Inr t \<Longrightarrow> printable t"
  "dump_elements a vs = Inr t \<Longrightarrow> printable t"
  "dump_items a d = Inr t \<Longrightarrow> printable t"
proof (induction a v and a vs and a d arbitrary: t and t and t
    rule: dump_value_dump_elements_dump_items.induct)
  case (12 a k v d)
  then show ?case by (cases k) (auto simp: rbind_Inr_iff)
qed (auto simp: rbind_Inr_iff printable_int_str lit_def split: if_splits)

text \<open>The characters of a value: those of its texts, or ASCII.\<close>

lemma clean_dump_char: "\<not> is_surrogate c \<Longrightarrow> clean (dump_char False c)"
  using hex_escape_plain(2) [of c]
  by (auto simp: dump_char_def short_escapes_def is_surrogate_def intro!: clean_ascii split: option.splits if_splits)

lemma wf_dump_char: "c < 0x110000 \<Longrightarrow> wf_text (dump_char False c)"
  using hex_escape_plain(2) [of c]
  by (auto simp: dump_char_def short_escapes_def wf_text_def list_all_iff split: option.splits if_splits)

lemma dump_string_text: "wf_text s \<Longrightarrow> clean s \<Longrightarrow> wf_text (dump_string False s) \<and> clean (dump_string False s)"
proof -
  assume "wf_text s" "clean s"
  then have "wf_text (concat (map (dump_char False) s)) \<and> clean (concat (map (dump_char False) s))"
    by (induction s) (auto simp: wf_text_def clean_dump_char [unfolded clean_def] clean_def
        dest: wf_dump_char [unfolded wf_text_def])
  then show ?thesis by (simp add: dump_string_def wf_text_def is_surrogate_def)
qed

lemma int_str_text: "wf_text (int_str i) \<and> clean (int_str i)"
  using nat_str_digits by (force simp: int_str_def wf_text_def list_all_iff clean_def is_surrogate_def)

lemma wf_text_simps [simp]:
  "wf_text []" "wf_text (c # s) \<longleftrightarrow> c < 0x110000 \<and> wf_text s"
  "wf_text (s @ t) \<longleftrightarrow> wf_text s \<and> wf_text t"
  by (simp_all add: wf_text_def)

lemma dump_text:
  "dump_value a v = Inr t \<Longrightarrow> a = False \<Longrightarrow> json_ok n v \<Longrightarrow> wf_text t \<and> clean t"
  "dump_elements a vs = Inr t \<Longrightarrow> a = False \<Longrightarrow> \<forall>v \<in> set vs. json_ok n v \<Longrightarrow> wf_text t \<and> clean t"
  "dump_items a d = Inr t \<Longrightarrow> a = False \<Longrightarrow>
     \<forall>(k, v) \<in> set d. (\<exists>s. k = PStr s \<and> wf_text s \<and> clean s) \<and> json_ok n v \<Longrightarrow> wf_text t \<and> clean t"
proof (induction a v and a vs and a d arbitrary: n t and n t and n t
    rule: dump_value_dump_elements_dump_items.induct)
  case (5 a vs)
  then obtain u where u: "dump_elements a vs = Inr u" "t = [91] @ u @ [93]" by (auto simp: rbind_Inr_iff)
  with 5(1) [of u "n - 1"] 5(3,4) show ?case by (simp add: is_surrogate_def)
next
  case (6 a d)
  then obtain u where u: "dump_items a d = Inr u" "t = [123] @ u @ [125]" by (auto simp: rbind_Inr_iff)
  with 6(1) [of u "n - 1"] 6(3,4) show ?case by (simp add: is_surrogate_def)
next
  case (10 a v w vs)
  then obtain u u' where u: "dump_value a v = Inr u" "dump_elements a (w # vs) = Inr u'" "t = u @ [44] @ u'"
    by (auto simp: rbind_Inr_iff)
  with 10(1) [of u n] 10(2) [of u u' n] 10(4,5) show ?case by (simp add: is_surrogate_def)
next
  case (12 a k v d)
  obtain s where s: "k = PStr s" "wf_text s" "clean s" using 12(5) by auto
  with 12(3) obtain u u' where u: "dump_value a v = Inr u" "dump_items a d = Inr u'"
      "t = dump_string a s @ [58] @ u @ (if d = [] then [] else 44 # u')"
    by (auto simp: rbind_Inr_iff)
  with 12(1) [OF s(1), of u n] 12(2) [OF s(1), of u u' n] 12(4,5) s(2,3) dump_string_text [of s]
  show ?case by (simp add: is_surrogate_def)
qed (auto simp: lit_def is_surrogate_def dump_string_text int_str_text split: if_splits)

lemma char_of_10: "k < 256 \<Longrightarrow> char_of k = CHR 0x0A \<longleftrightarrow> k = (10 :: nat)"
  using char_of_eq_iff [of k "CHR 0x0A"] by (auto simp: take_bit_eq_mod)

text \<open>A response is one line, and the client reads the object from it.\<close>

lemma json_ok_dumps:
  assumes "json_ok lim v"
  shows "\<exists>t. json_dumps False True v = Inr t \<and> json_loads lim t = Inr (sort_keys v) \<and>
    wf_text t \<and> clean t \<and> printable t"
proof -
  obtain t where t: "json_dumps False True v = Inr t" "json_loads lim t = Inr (sort_keys v)"
    using loads_dumps [OF assms, of False True] by auto
  moreover have "dump_value False (sort_keys v) = Inr t" using t(1) by (simp add: json_dumps_def)
  ultimately show ?thesis
    using dump_text(1) [OF _ refl json_ok_sort_keys [OF assms]] printable_dump(1) by blast
qed

lemma encode_response:
  assumes "json_ok lim v"
  shows "\<exists>b. encode_json_response v = Inr b \<and> CHR 0x0A \<notin> set b \<and> client_decodes lim b (sort_keys v)"
proof -
  obtain t where t: "json_dumps False True v = Inr t" "json_loads lim t = Inr (sort_keys v)"
      "wf_text t" "clean t" "printable t"
    using json_ok_dumps [OF assms] by blast
  have "10 \<notin> set (utf8_enc t)"
  proof
    assume "10 \<in> set (utf8_enc t)"
    then obtain c where "c \<in> set t" "10 \<in> set (utf8_enc1 c)" by (auto simp: utf8_enc_def)
    with utf8_enc1_ascii [of 10 c] t(5) show False by (auto simp: printable_def list_all_iff)
  qed
  then have "CHR 0x0A \<notin> set (encode_surrogatepass t)"
    using utf8_enc_bound [OF t(3)] char_of_10 by (force simp: encode_surrogatepass_def)
  moreover have "encode_json_response v = Inr (encode_surrogatepass t)"
    using t by (simp add: encode_json_response_def encode_strict_clean)
  moreover have "utf8_decode Strict (encode_surrogatepass t) = Inr t"
    using decode_encode_strict [OF t(3) encode_strict_clean [OF t(4)]] .
  ultimately show ?thesis using t(2) by (auto simp: client_decodes_def)
qed

lemma json_ok_malformed: "2 \<le> lim \<Longrightarrow> json_ok lim malformed_response"
  by (auto simp: malformed_response_def error_response_def obj_def lit_def wf_text_def is_surrogate_def
      length_nat_str max_str_digits_def nat_str.simps)

text \<open>A text with a surrogate leads to text with one, which the codec refuses.\<close>

lemma dump_string_unclean: "\<not> clean s \<Longrightarrow> \<not> clean (dump_string False s)"
proof -
  assume "\<not> clean s"
  then obtain c where c: "c \<in> set s" "is_surrogate c" by (auto simp: clean_def list_all_iff)
  then have "dump_char False c = [c]"
    by (auto simp: dump_char_def short_escapes_def is_surrogate_def split: option.splits if_splits)
  with c show ?thesis by (auto simp: dump_string_def clean_def list_all_iff intro!: bexI [of _ c])
qed

lemma dump_items_unclean:
  "dump_items False d = Inr t \<Longrightarrow> (k, PStr s) \<in> set d \<Longrightarrow> \<not> clean s \<Longrightarrow> \<not> clean t"
proof (induction d arbitrary: t)
  case (Cons p d)
  obtain k' v where p: "p = (k', v)" by force
  with Cons.prems(1) obtain u u' x where u: "k' = PStr x" "dump_value False v = Inr u" "dump_items False d = Inr u'"
      "t = dump_string False x @ [58] @ u @ (if d = [] then [] else 44 # u')"
    by (cases k') (auto simp: rbind_Inr_iff)
  show ?case
  proof (cases "v = PStr s")
    case True
    then show ?thesis using u dump_string_unclean [OF Cons.prems(3)] by simp
  next
    case False
    then have "(k, PStr s) \<in> set d" using p Cons.prems(2) by auto
    then show ?thesis using Cons.IH [OF u(3) _ Cons.prems(3)] u(4) by auto
  qed
qed simp

lemma encode_unclean:
  assumes "(k, PStr s) \<in> set d" and "\<not> clean s"
  shows "\<exists>e. encode_json_response (PDict d) = Inl e"
proof (cases "json_dumps False True (PDict d)")
  case (Inr t)
  then obtain u where u: "dump_items False (sort_key item_key (map (\<lambda>(k, v). (k, sort_keys v)) d)) = Inr u"
      "t = [91 + 32] @ u @ [125]"
    by (auto simp: json_dumps_def rbind_Inr_iff)
  have "(k, PStr s) \<in> set (sort_key item_key (map (\<lambda>(k, v). (k, sort_keys v)) d))"
    using assms(1) by force
  then have "\<not> clean t" using dump_items_unclean [OF u(1) _ assms(2)] u(2) by auto
  then show ?thesis
    using Inr by (auto simp: encode_json_response_def encode_strict_def clean_def list_ex_iff list_all_iff)
qed (simp add: encode_json_response_def)

subsection \<open>Properties\<close>

text \<open>
  C32. A message is answered with one line the client can read. Whenever the message decodes
  (to an object, or not even to JSON) and the response object consists of encodable text,
  \<open>handle_json\<close> returns bytes without a line break from which strict UTF-8 and JSON decoding
  give back the response object with its keys sorted: the malformed_json error, with the
  service untouched, or exactly what \<open>handle_request\<close> answers for the decoded request.
\<close>

theorem json_message_answered:
  assumes "decode_json_request lim data = Inr d" and "2 \<le> lim"
    and "\<And>req. d = Request req \<Longrightarrow> \<exists>resp. fst (handle_request describe sp req c) = Inr resp \<and> json_ok lim resp"
  shows "\<exists>resp b c'. handle_json lim describe sp data c = (Inr b, c') \<and> CHR 0x0A \<notin> set b \<and>
    client_decodes lim b (sort_keys resp) \<and>
    (case d of MalformedJsonError \<Rightarrow> resp = malformed_response \<and> c' = c
     | Request req \<Rightarrow> handle_request describe sp req c = (Inr resp, c'))"
proof (cases d)
  case MalformedJsonError
  with encode_response [OF json_ok_malformed [OF assms(2)]] assms(1) show ?thesis
    by (auto simp: handle_json_def)
next
  case (Request req)
  obtain resp c' where "handle_request describe sp req c = (Inr resp, c')" "json_ok lim resp"
    using assms(3) [OF Request] by (metis prod.collapse)
  then show ?thesis
    using encode_response [of lim resp] assms(1) Request
    by (intro exI [of _ resp]) (auto simp: handle_json_def)
qed

lemma json_message_answered_witness:
  "decode_json_request 900 (PBytes ''[0]'') = Inr MalformedJsonError \<and>
   (\<forall>describe sp c. \<exists>resp b c'. handle_json 900 describe sp (PBytes ''[0]'') c = (Inr b, c') \<and>
      client_decodes 900 b (sort_keys resp) \<and> resp = malformed_response \<and> c' = c)"
proof
  have "lex [91, 48, 93] = [TLBracket, TVal (PInt 0), TRBracket]"
    using lex_int_str [of "[93]" 0] by (simp add: int_str_def nat_str.simps max_str_digits_def)
  moreover have "utf8_decode Strict ''[0]'' = Inr [91, 48, 93]" by code_simp
  ultimately show d: "decode_json_request 900 (PBytes ''[0]'') = Inr MalformedJsonError"
    by (simp add: decode_json_request_def json_loads_def)
  show "\<forall>describe sp c. \<exists>resp b c'. handle_json 900 describe sp (PBytes ''[0]'') c = (Inr b, c') \<and>
      client_decodes 900 b (sort_keys resp) \<and> resp = malformed_response \<and> c' = c"
  proof (intro allI)
    fix describe sp c
    show "\<exists>resp b c'. handle_json 900 describe sp (PBytes ''[0]'') c = (Inr b, c') \<and>
      client_decodes 900 b (sort_keys resp) \<and> resp = malformed_response \<and> c' = c"
      using json_message_answered [OF d, of describe sp c] by fastforce
  qed
qed

definition disable_request :: request where
  "disable_request =
     [(lit ''version'', PInt 1), (lit ''request_id'', PStr [0xD800]), (lit ''method'', PStr (lit ''routing.disable''))]"

lemma surrogate_request:
  "decode_json_request 900 (PBytes (''{\"version\":1,\"request_id\":\"'' @ [CHR 0x5C] @ ''uD800\",\"method\":\"routing.disable\"}''))
     = Inr (Request disable_request)"
proof -
  let ?b = "''{\"version\":1,\"request_id\":\"'' @ [CHR 0x5C] @ ''uD800\",\"method\":\"routing.disable\"}''"
  let ?t = "lit ''{\"version\":1,\"request_id\":\"'' @ [92] @ lit ''uD800\",\"method\":\"routing.disable\"}''"
  have "lex (49 # 44 # r) = TVal (PInt 1) # TComma # lex r" for r
    using lex_int_str [of "44 # r" 1] by (simp add: int_str_def nat_str.simps max_str_digits_def)
  moreover have "lex (34 # 92 # 117 # 68 # 56 # 48 # 48 # 34 # r) = TStr [0xD800] # lex r" for r
    by (subst lex.simps)
      (simp add: lex_token_def punctuation_def json_space_def hex_value_def low_half_def split: list.split)
  ultimately have l: "lex ?t = [TLBrace, TStr (lit ''version''), TColon, TVal (PInt 1), TComma,
      TStr (lit ''request_id''), TColon, TStr [0xD800], TComma,
      TStr (lit ''method''), TColon, TStr (lit ''routing.disable''), TRBrace]"
    using lex_quoted [of "lit ''version''"] lex_quoted [of "lit ''request_id''"]
      lex_quoted [of "lit ''method''"] lex_quoted [of "lit ''routing.disable''"]
    by (simp add: lit_def)
  have "json_loads 900 ?t = Inr (PDict [(PStr (lit ''version''), PInt 1), (PStr (lit ''request_id''), PStr [0xD800]),
      (PStr (lit ''method''), PStr (lit ''routing.disable''))])"
    unfolding json_loads_def l by (simp add: lit_def)
  moreover have "utf8_decode Strict ?b = Inr ?t" by code_simp
  ultimately show ?thesis
    by (simp add: decode_json_request_def text_keys_def item_key_def disable_request_def)
qed

text \<open>
  An update can take effect without being acknowledged. If the id of a decoded request
  holds a lone surrogate (JSON escapes can write one), the response cannot be encoded: the
  call raises, whatever the request did, and the service keeps what it did.
\<close>

theorem unencodable_id_raises:
  assumes "decode_json_request lim data = Inr (Request req)"
    and "valid_request_id req = Some rid" and "\<not> clean rid"
    and "handle_request describe sp req c = (Inr resp, c')"
    and "response_field resp ''request_id'' = Some (PStr rid)"
  shows "\<exists>e. handle_json lim describe sp data c = (Inl e, c')"
proof -
  obtain d where d: "resp = PDict d" "(PStr (lit ''request_id''), PStr rid) \<in> set d"
    using assms(5) by (auto simp: response_field_def dest: map_of_SomeD split: pyval.splits)
  with encode_unclean [OF d(2) assms(3)] assms(1,4) show ?thesis by (auto simp: handle_json_def)
qed

lemma unencodable_id_raises_witness:
  "\<forall>describe sp c. \<exists>e c'.
     handle_json 900 describe sp
       (PBytes (''{\"version\":1,\"request_id\":\"'' @ [CHR 0x5C] @ ''uD800\",\"method\":\"routing.disable\"}'')) c = (Inl e, c') \<and>
     generation (routing_state c') = generation (routing_state c) + 1"
proof (intro allI)
  fix describe sp and c :: control_service
  let ?data = "PBytes (''{\"version\":1,\"request_id\":\"'' @ [CHR 0x5C] @ ''uD800\",\"method\":\"routing.disable\"}'')"
  let ?req = disable_request
  have d: "decode_json_request 900 ?data = Inr (Request ?req)" by (rule surrogate_request)
  obtain s where s: "routing_replace None None (routing_state c) = Inr s"
    by (simp add: routing_replace_def)
  have c: "control_disable None c = (Inr (status_from_snapshot s), c\<lparr>routing_state := s\<rparr>)"
    using s by (simp add: control_disable_def install_def)
  have m: "lit ''routing.disable'' = method_name Disable" by simp
  have "well_formed_request ?req"
    unfolding well_formed_request_def
    by (intro conjI exI [of _ Disable]) (simp_all add: disable_request_def)
  then have "validate_request_schema ?req = None" by (simp add: schema_ok)
  moreover have "method_of (lit ''routing.disable'') = Some Disable" by (simp only: method_of_iff m)
  moreover have "param_int ?req ''expected_generation'' = None"
    by (simp add: disable_request_def param_int_def params_of_def)
  ultimately have h: "handle_request describe sp ?req c =
      (Inr (success_response [0xD800] (status_result (status_from_snapshot s))), c\<lparr>routing_state := s\<rparr>)"
    using c by (simp add: handle_request_def entry_def dispatch_def update_response_def disable_request_def)
  have "\<exists>e. handle_json 900 describe sp ?data c = (Inl e, c\<lparr>routing_state := s\<rparr>)"
    by (rule unencodable_id_raises [OF d _ _ h]) (simp_all add: valid_request_id_def is_surrogate_def disable_request_def)
  moreover have "generation s = generation (routing_state c) + 1"
    using rs.replace_version [OF s] by simp
  ultimately show "\<exists>e c'. handle_json 900 describe sp ?data c = (Inl e, c') \<and>
     generation (routing_state c') = generation (routing_state c) + 1" by force
qed

end
