(* ===== verification/ControlSocket.thy ===== *)
theory ControlSocket
  imports ControlJson "HOL-Library.Sublist"
begin

section \<open>The control connection (\<open>core/routing_control_unix.py\<close>)\<close>

text \<open>
  Newline-delimited framing of one connection, and several connections on one service. The
  asyncio stream is a reader (the bytes still to come, how many of them each read finds
  arrived, and how the stream ends) and a writer (the messages the peer has taken, and how
  many more it will take). One iteration of \<open>_serve_connection\<close>'s loop is one step: the loop
  gives up control only while it waits for bytes or for the peer. \<open>handle\<close> is the protocol's
  \<open>handle_json\<close>. What is shown: the answers depend on the bytes alone, not on how they arrive;
  and with any interleaving of connections the service sees whole frames, one at a time, in
  the order each client sent them.
\<close>

datatype stream_end = Eof | Reset

record reader =
  r_data :: bytes
  r_sizes :: "nat list"
  r_end :: stream_end

datatype read_result = Chunk bytes | EndOfStream | ConnectionLost

definition reader_read :: "nat \<Rightarrow> reader \<Rightarrow> read_result \<times> reader" where
  "reader_read n r =
     (if r_data r = [] then (case r_end r of Eof \<Rightarrow> EndOfStream | Reset \<Rightarrow> ConnectionLost, r)
      else let k = min n (case r_sizes r of [] \<Rightarrow> n | s # _ \<Rightarrow> max 1 s)
           in (Chunk (take k (r_data r)), r\<lparr>r_data := drop k (r_data r), r_sizes := tl (r_sizes r)\<rparr>))"

record writer =
  w_sent :: "bytes list"
  w_accepts :: "nat option"

definition newline :: char where
  "newline = CHR 0x0A"

text \<open>\<open>_write_response\<close>: False when the peer is gone.\<close>

definition write_response :: "writer \<Rightarrow> bytes \<Rightarrow> bool \<times> writer" where
  "write_response w response =
     (case w_accepts w of
        Some 0 \<Rightarrow> (False, w)
      | n \<Rightarrow> (True, w\<lparr>w_sent := w_sent w @ [response @ [newline]], w_accepts := map_option (\<lambda>k. k - 1) n\<rparr>))"

definition write_transport_error :: "writer \<Rightarrow> string \<Rightarrow> string \<Rightarrow> writer" where
  "write_transport_error w c m =
     (case encode_json_response (error_response None (lit c) (lit m) []) of
        Inl e \<Rightarrow> w
      | Inr response \<Rightarrow> snd (write_response w response))"

definition too_large :: "writer \<Rightarrow> writer" where
  "too_large w =
     write_transport_error w ''frame_too_large'' ''Routing control request exceeds maximum frame size.''"

definition internal_error :: "writer \<Rightarrow> writer" where
  "internal_error w = write_transport_error w ''internal_error'' ''Internal routing control error.''"

type_synonym 's handler = "pyval \<Rightarrow> 's \<Rightarrow> bytes res \<times> 's"

definition process_frame :: "'s handler \<Rightarrow> bytes \<Rightarrow> writer \<Rightarrow> 's \<Rightarrow> bool \<times> writer \<times> 's" where
  "process_frame handle frame w s =
     (case handle (PBytes frame) s of
        (Inl e, s') \<Rightarrow> (False, internal_error w, s')
      | (Inr response, s') \<Rightarrow> (case write_response w response of (ok, w') \<Rightarrow> (ok, w', s')))"

record connection =
  c_buffer :: bytes
  c_reader :: reader
  c_writer :: writer
  c_open :: bool

definition read_chunk_size :: nat where
  "read_chunk_size = 65536"

text \<open>One iteration of the loop; a connection that is not open has returned.\<close>

definition serve_iteration :: "'s handler \<Rightarrow> nat \<Rightarrow> connection \<Rightarrow> 's \<Rightarrow> connection \<times> 's" where
  "serve_iteration handle max_bytes c s =
     (case partition_at newline (c_buffer c) of
        Some (frame, rest) \<Rightarrow>
          if length frame > max_bytes then (c\<lparr>c_writer := too_large (c_writer c), c_open := False\<rparr>, s)
          else (case process_frame handle frame (c_writer c) s of
                  (go, w, s') \<Rightarrow> (c\<lparr>c_buffer := rest, c_writer := w, c_open := go\<rparr>, s'))
      | None \<Rightarrow>
          if length (c_buffer c) > max_bytes then
            (c\<lparr>c_writer := too_large (c_writer c), c_open := False\<rparr>, s)
          else (case reader_read (max 1 (min read_chunk_size (max_bytes + 1 - length (c_buffer c)))) (c_reader c) of
                  (Chunk chunk, r) \<Rightarrow> (c\<lparr>c_buffer := c_buffer c @ chunk, c_reader := r\<rparr>, s)
                | (ConnectionLost, r) \<Rightarrow> (c\<lparr>c_open := False\<rparr>, s)
                | (EndOfStream, r) \<Rightarrow>
                    if c_buffer c \<noteq> [] then
                      (case process_frame handle (c_buffer c) (c_writer c) s of
                         (go, w, s') \<Rightarrow> (c\<lparr>c_writer := w, c_open := False\<rparr>, s'))
                    else (c\<lparr>c_open := False\<rparr>, s)))"

definition connection_measure :: "connection \<Rightarrow> nat" where
  "connection_measure c =
     2 * length (r_data (c_reader c)) + length (c_buffer c) + (if c_open c then 1 else 0)"

lemma partition_at_Some:
  assumes "partition_at x s = Some (a, b)"
  shows "s = a @ x # b" and "x \<notin> set a"
proof -
  obtain d where d: "dropWhile (\<lambda>y. y \<noteq> x) s = d # b" "a = takeWhile (\<lambda>y. y \<noteq> x) s"
    using assms by (auto simp: partition_at_def before_sep_def split: list.splits)
  moreover from this(1) have "d = x" using hd_dropWhile [of "\<lambda>y. y \<noteq> x" s] by simp
  ultimately show "s = a @ x # b" using takeWhile_dropWhile_id [of "\<lambda>y. y \<noteq> x" s] by simp
  show "x \<notin> set a" unfolding d(2) by (auto dest: set_takeWhileD)
qed

text \<open>What a read does to the bytes to come.\<close>

lemma reader_read_Chunk:
  assumes "reader_read n r = (Chunk chunk, r')" and "0 < n"
  shows "chunk \<noteq> []" and "r_data r = chunk @ r_data r'" and "r_end r' = r_end r" and "length chunk \<le> n"
proof -
  let ?k = "min n (case r_sizes r of [] \<Rightarrow> n | s # _ \<Rightarrow> max 1 s)"
  have r: "r_data r \<noteq> []" "chunk = take ?k (r_data r)" "r' = r\<lparr>r_data := drop ?k (r_data r), r_sizes := tl (r_sizes r)\<rparr>"
    using assms(1) by (auto simp: reader_read_def Let_def split: if_splits stream_end.splits)
  have "0 < ?k" using assms(2) by (auto simp: max_def split: list.split)
  then show "chunk \<noteq> []" using r(1,2) by simp
  show "r_data r = chunk @ r_data r'" "r_end r' = r_end r" "length chunk \<le> n" using r(2,3) by simp_all
qed

lemma reader_read_end:
  "reader_read n r = (EndOfStream, r') \<Longrightarrow> r_data r = [] \<and> r_end r = Eof"
  "reader_read n r = (ConnectionLost, r') \<Longrightarrow> r_data r = [] \<and> r_end r = Reset"
  by (auto simp: reader_read_def Let_def split: if_splits stream_end.splits)

lemma serve_iteration_measure:
  assumes "serve_iteration handle mx c s = (c', s')" and "c_open c"
  shows "connection_measure c' < connection_measure c"
proof (cases "partition_at newline (c_buffer c)")
  case (Some p)
  obtain frame rest where p: "p = (frame, rest)" by force
  have "length rest < length (c_buffer c)" using partition_at_Some(1) [of newline "c_buffer c" frame rest] Some p by simp
  then show ?thesis
    using assms Some p by (auto simp: serve_iteration_def connection_measure_def split: if_splits prod.splits)
next
  case None
  show ?thesis
  proof (cases "length (c_buffer c) > mx")
    case True
    then show ?thesis using assms None by (auto simp: serve_iteration_def connection_measure_def)
  next
    case False
    let ?n = "max 1 (min read_chunk_size (mx + 1 - length (c_buffer c)))"
    obtain res r where r: "reader_read ?n (c_reader c) = (res, r)" by force
    show ?thesis
    proof (cases res)
      case (Chunk chunk)
      with reader_read_Chunk(1,2) [of ?n "c_reader c" chunk r] r
      have "0 < length chunk" "length (r_data (c_reader c)) = length chunk + length (r_data r)" by simp_all
      then show ?thesis
        using assms None False r Chunk by (auto simp: serve_iteration_def connection_measure_def)
    qed (use assms None False r in
        \<open>auto simp: serve_iteration_def connection_measure_def split: if_splits prod.splits\<close>)
  qed
qed

text \<open>The whole connection: \<open>_serve_connection\<close>. It returns, whatever the peer sends.\<close>

function serve_connection :: "'s handler \<Rightarrow> nat \<Rightarrow> connection \<Rightarrow> 's \<Rightarrow> connection \<times> 's" where
  "serve_connection handle mx c s =
     (if c_open c then (case serve_iteration handle mx c s of (c', s') \<Rightarrow> serve_connection handle mx c' s')
      else (c, s))"
  by pat_completeness auto
termination
  by (relation "measure (\<lambda>(handle, mx, c, s). connection_measure c)")
    (simp_all add: case_prod_beta serve_iteration_measure [OF surjective_pairing])

declare serve_connection.simps [simp del]

subsection \<open>Framing does not depend on how the bytes arrive\<close>

text \<open>The answers to a byte stream, without buffer and reads: line by line.\<close>

function answer_lines :: "'s handler \<Rightarrow> nat \<Rightarrow> stream_end \<Rightarrow> bytes \<Rightarrow> writer \<Rightarrow> 's \<Rightarrow> writer \<times> 's" where
  "answer_lines handle mx e stream w s =
     (case partition_at newline stream of
        Some (frame, rest) \<Rightarrow>
          if length frame > mx then (too_large w, s)
          else (case process_frame handle frame w s of
                  (go, w', s') \<Rightarrow> if go then answer_lines handle mx e rest w' s' else (w', s'))
      | None \<Rightarrow>
          if length stream > mx then (too_large w, s)
          else if e = Eof \<and> stream \<noteq> [] then snd (process_frame handle stream w s)
          else (w, s))"
  by pat_completeness auto
termination
  by (relation "measure (\<lambda>(handle, mx, e, stream, w, s). length stream)")
    (auto dest!: partition_at_Some(1))

declare answer_lines.simps [simp del]

lemma partition_at_appendI: "partition_at x a = Some (f, r) \<Longrightarrow> partition_at x (a @ b) = Some (f, r @ b)"
  using partition_at_Some [of x a f r] by simp

lemma partition_at_later:
  "partition_at x a = None \<Longrightarrow> partition_at x (a @ b) = Some (f, r) \<Longrightarrow> length a \<le> length f"
proof -
  assume a: "partition_at x a = None" and p: "partition_at x (a @ b) = Some (f, r)"
  have "x \<notin> set a" "a @ b = f @ x # r" using a partition_at_Some(1) [OF p] by (auto simp: partition_at_None)
  then show ?thesis
    by (auto simp: append_eq_append_conv2 append_eq_Cons_conv)
qed

lemma too_large_later:
  assumes "partition_at newline a = None" and "mx < length a"
  shows "answer_lines handle mx e (a @ b) w s = (too_large w, s)"
proof (cases "partition_at newline (a @ b)")
  case (Some p)
  obtain f r where p: "p = (f, r)" by force
  with Some partition_at_later [OF assms(1)] have "length a \<le> length f" by blast
  with assms(2) Some p show ?thesis by (simp add: answer_lines.simps)
qed (use assms(2) in \<open>simp add: answer_lines.simps\<close>)

lemma iteration_answers:
  assumes "serve_iteration handle mx c s = (c', s')" and "c_open c"
  shows "answer_lines handle mx (r_end (c_reader c)) (c_buffer c @ r_data (c_reader c)) (c_writer c) s =
    (if c_open c' then
       answer_lines handle mx (r_end (c_reader c')) (c_buffer c' @ r_data (c_reader c')) (c_writer c') s'
     else (c_writer c', s'))"
proof (cases "partition_at newline (c_buffer c)")
  case (Some p)
  obtain f r where p: "p = (f, r)" by force
  have "partition_at newline (c_buffer c @ r_data (c_reader c)) = Some (f, r @ r_data (c_reader c))"
    using Some p by (intro partition_at_appendI) simp
  then show ?thesis
    using assms Some p
    by (subst answer_lines.simps) (auto simp: serve_iteration_def split: if_splits prod.splits)
next
  case None
  show ?thesis
  proof (cases "length (c_buffer c) > mx")
    case True
    then show ?thesis
      using assms None too_large_later [OF None] by (auto simp: serve_iteration_def)
  next
    case False
    let ?n = "max 1 (min read_chunk_size (mx + 1 - length (c_buffer c)))"
    obtain res r where r: "reader_read ?n (c_reader c) = (res, r)" by force
    show ?thesis
    proof (cases res)
      case (Chunk chunk)
      with reader_read_Chunk [of ?n "c_reader c" chunk r] r
      have "r_data (c_reader c) = chunk @ r_data r" "r_end r = r_end (c_reader c)" by simp_all
      then show ?thesis using assms None False r Chunk by (auto simp: serve_iteration_def)
    next
      case EndOfStream
      then show ?thesis
        using assms None False r reader_read_end(1) [of ?n "c_reader c" r]
        by (subst answer_lines.simps) (auto simp: serve_iteration_def split: if_splits prod.splits)
    next
      case ConnectionLost
      then show ?thesis
        using assms None False r reader_read_end(2) [of ?n "c_reader c" r]
        by (subst answer_lines.simps) (auto simp: serve_iteration_def split: if_splits prod.splits)
    qed
  qed
qed

lemma serve_connection_answers:
  assumes "c_open c" and "serve_connection handle mx c s = (c', s')"
  shows "(c_writer c', s') =
    answer_lines handle mx (r_end (c_reader c)) (c_buffer c @ r_data (c_reader c)) (c_writer c) s"
  using assms
proof (induction handle mx c s rule: serve_connection.induct)
  case (1 handle mx c s)
  obtain d t where i: "serve_iteration handle mx c s = (d, t)" by force
  have v: "serve_connection handle mx d t = (c', s')"
    using 1(2,3) i by (simp add: serve_connection.simps [of handle mx c])
  show ?case
  proof (cases "c_open d")
    case True
    then show ?thesis using 1(1) [OF 1(2) i [symmetric] True v] iteration_answers [OF i 1(2)] by simp
  next
    case False
    then have "c' = d" "s' = t" using v by (simp_all add: serve_connection.simps [of handle mx d])
    then show ?thesis using False iteration_answers [OF i 1(2)] by simp
  qed
qed

subsection \<open>Several connections on one service\<close>

text \<open>
  The server: the connections in the order they were accepted, and the service. A step is one
  iteration of the loop of some open connection.
\<close>

inductive serve_step ::
  "'s handler \<Rightarrow> nat \<Rightarrow> connection list \<times> 's \<Rightarrow> connection list \<times> 's \<Rightarrow> bool"
  for handle :: "'s handler" and mx :: nat where
  iterate: "i < length cs \<Longrightarrow> c_open (cs ! i) \<Longrightarrow> serve_iteration handle mx (cs ! i) s = (c', s') \<Longrightarrow>
     serve_step handle mx (cs, s) (cs[i := c'], s')"

abbreviation serve_steps where "serve_steps handle mx \<equiv> (serve_step handle mx)\<^sup>*\<^sup>*"

inductive_cases serve_stepE: "serve_step handle mx (cs, s) (cs', s')"

text \<open>The requests in a byte stream: its lines up to the first that is too long.\<close>

function frames_of :: "nat \<Rightarrow> stream_end \<Rightarrow> bytes \<Rightarrow> bytes list" where
  "frames_of mx e stream =
     (case partition_at newline stream of
        Some (frame, rest) \<Rightarrow> if length frame > mx then [] else frame # frames_of mx e rest
      | None \<Rightarrow> if length stream > mx \<or> e = Reset \<or> stream = [] then [] else [stream])"
  by pat_completeness auto
termination
  by (relation "measure (\<lambda>(mx, e, stream). length stream)") (auto dest!: partition_at_Some(1))

declare frames_of.simps [simp del]

definition remaining_frames :: "nat \<Rightarrow> connection \<Rightarrow> bytes list" where
  "remaining_frames mx c =
     (if c_open c then frames_of mx (r_end (c_reader c)) (c_buffer c @ r_data (c_reader c)) else [])"

text \<open>What one iteration does to the service: nothing, or one whole request.\<close>

lemma process_frame_service: "snd (snd (process_frame handle frame w s)) = snd (handle (PBytes frame) s)"
  by (auto simp: process_frame_def split: prod.splits sum.splits)

lemma frames_too_large:
  assumes "partition_at newline a = None" and "mx < length a"
  shows "frames_of mx e (a @ b) = []"
proof (cases "partition_at newline (a @ b)")
  case (Some p)
  obtain f r where p: "p = (f, r)" by force
  with Some partition_at_later [OF assms(1)] have "length a \<le> length f" by blast
  with assms(2) Some p show ?thesis by (simp add: frames_of.simps)
qed (use assms(2) in \<open>simp add: frames_of.simps\<close>)

lemma iteration_frames:
  assumes "serve_iteration handle mx c s = (c', s')" and "c_open c"
  shows "(s' = s \<and> (remaining_frames mx c' = remaining_frames mx c \<or> \<not> c_open c')) \<or>
    (\<exists>f rest. s' = snd (handle (PBytes f) s) \<and> remaining_frames mx c = f # rest \<and>
       (remaining_frames mx c' = rest \<or> \<not> c_open c'))"
proof (cases "partition_at newline (c_buffer c)")
  case (Some p)
  obtain f r where p: "p = (f, r)" by force
  have q: "partition_at newline (c_buffer c @ r_data (c_reader c)) = Some (f, r @ r_data (c_reader c))"
    using Some p by (intro partition_at_appendI) simp
  show ?thesis
  proof (cases "length f > mx")
    case True
    then show ?thesis using assms Some p by (auto simp: serve_iteration_def)
  next
    case False
    obtain go w t where pf: "process_frame handle f (c_writer c) s = (go, w, t)" using prod_cases3 by blast
    have c': "c' = c\<lparr>c_buffer := r, c_writer := w, c_open := go\<rparr>" "s' = t"
      using assms Some p False pf by (simp_all add: serve_iteration_def)
    have "t = snd (handle (PBytes f) s)" using process_frame_service [of handle f "c_writer c" s] pf by simp
    moreover have "remaining_frames mx c =
        f # frames_of mx (r_end (c_reader c)) (r @ r_data (c_reader c))"
      using assms(2) q False by (simp add: remaining_frames_def frames_of.simps [of mx _ "c_buffer c @ _"])
    ultimately show ?thesis using c' by (simp add: remaining_frames_def)
  qed
next
  case None
  show ?thesis
  proof (cases "length (c_buffer c) > mx")
    case True
    then show ?thesis using assms None by (auto simp: serve_iteration_def)
  next
    case False
    let ?n = "max 1 (min read_chunk_size (mx + 1 - length (c_buffer c)))"
    obtain res r where r: "reader_read ?n (c_reader c) = (res, r)" by force
    show ?thesis
    proof (cases res)
      case (Chunk chunk)
      with reader_read_Chunk [of ?n "c_reader c" chunk r] r
      have "r_data (c_reader c) = chunk @ r_data r" "r_end r = r_end (c_reader c)" by simp_all
      then show ?thesis
        using assms None False r Chunk by (auto simp: serve_iteration_def remaining_frames_def)
    next
      case EndOfStream
      have e: "r_data (c_reader c) = []" "r_end (c_reader c) = Eof"
        using reader_read_end(1) [of ?n "c_reader c" r] r EndOfStream by simp_all
      show ?thesis
      proof (cases "c_buffer c = []")
        case True
        then show ?thesis using assms None False r EndOfStream by (auto simp: serve_iteration_def)
      next
        case ne: False
        obtain go w t where pf: "process_frame handle (c_buffer c) (c_writer c) s = (go, w, t)"
          using prod_cases3 by blast
        have c': "\<not> c_open c'" "s' = t"
          using assms None False ne r EndOfStream pf by (auto simp: serve_iteration_def)
        have "t = snd (handle (PBytes (c_buffer c)) s)"
          using process_frame_service [of handle "c_buffer c" "c_writer c" s] pf by simp
        moreover have "remaining_frames mx c = [c_buffer c]"
          using assms(2) None False ne e by (simp add: remaining_frames_def frames_of.simps)
        ultimately show ?thesis using c' by blast
      qed
    next
      case ConnectionLost
      then show ?thesis using assms None False r by (auto simp: serve_iteration_def)
    qed
  qed
qed

text \<open>A log of requests, each with the connection it came from.\<close>

definition run_log :: "'s handler \<Rightarrow> (nat \<times> bytes) list \<Rightarrow> 's \<Rightarrow> 's" where
  "run_log handle log s = foldl (\<lambda>s (i, f). snd (handle (PBytes f) s)) s log"

definition requests_from :: "nat \<Rightarrow> (nat \<times> bytes) list \<Rightarrow> bytes list" where
  "requests_from i log = map snd (filter (\<lambda>p. fst p = i) log)"

definition log_explains :: "nat \<Rightarrow> connection list \<Rightarrow> connection list \<Rightarrow> (nat \<times> bytes) list \<Rightarrow> bool" where
  "log_explains mx cs cs' log \<longleftrightarrow>
     length cs' = length cs \<and> list_all (\<lambda>p. fst p < length cs) log \<and>
     list_all (\<lambda>i. if c_open (cs' ! i)
                   then remaining_frames mx (cs ! i) = requests_from i log @ remaining_frames mx (cs' ! i)
                   else prefix (requests_from i log) (remaining_frames mx (cs ! i))) [0..<length cs]"

lemma log_explains_step:
  assumes "log_explains mx cs cs' log" and "i < length cs'" and "c_open (cs' ! i)"
    and "serve_iteration handle mx (cs' ! i) s = (c', s')"
  shows "\<exists>log'. log_explains mx cs (cs'[i := c']) log' \<and> s' = run_log handle (drop (length log) log') s \<and>
    take (length log) log' = log"
proof -
  have len: "length cs' = length cs" and i: "i < length cs"
    and ri: "remaining_frames mx (cs ! i) = requests_from i log @ remaining_frames mx (cs' ! i)"
    using assms(1-3) by (auto simp: log_explains_def list_all_iff)
  from iteration_frames [OF assms(4,3)] show ?thesis
  proof (elim disjE conjE exE)
    assume s: "s' = s" and r: "remaining_frames mx c' = remaining_frames mx (cs' ! i)"
    have "log_explains mx cs (cs'[i := c']) log"
      using assms(1,2) ri r by (auto simp: log_explains_def list_all_iff nth_list_update)
    then show ?thesis using s by (intro exI [of _ log]) (simp add: run_log_def)
  next
    assume s: "s' = s" and r: "\<not> c_open c'"
    have "log_explains mx cs (cs'[i := c']) log"
      using assms(1,2) ri r by (auto simp: log_explains_def list_all_iff nth_list_update)
    then show ?thesis using s by (intro exI [of _ log]) (simp add: run_log_def)
  next
    fix f rest assume s: "s' = snd (handle (PBytes f) s)" and r: "remaining_frames mx (cs' ! i) = f # rest"
      and c: "remaining_frames mx c' = rest"
    have "log_explains mx cs (cs'[i := c']) (log @ [(i, f)])"
      using assms(1,2) ri r c i
      by (auto simp: log_explains_def list_all_iff nth_list_update requests_from_def)
    then show ?thesis using s by (intro exI [of _ "log @ [(i, f)]"]) (simp add: run_log_def)
  next
    fix f rest assume s: "s' = snd (handle (PBytes f) s)" and r: "remaining_frames mx (cs' ! i) = f # rest"
      and c: "\<not> c_open c'"
    have "log_explains mx cs (cs'[i := c']) (log @ [(i, f)])"
      using assms(1,2) ri r c i
      by (auto simp: log_explains_def list_all_iff nth_list_update requests_from_def)
    then show ?thesis using s by (intro exI [of _ "log @ [(i, f)]"]) (simp add: run_log_def)
  qed
qed

lemma serve_steps_log:
  assumes "serve_steps handle mx (cs, s) (cs', s')"
  shows "\<exists>log. s' = run_log handle log s \<and> log_explains mx cs cs' log"
  using assms
proof (induction "(cs', s')" arbitrary: cs' s' rule: rtranclp_induct)
  case base
  show ?case
    by (intro exI [of _ "[]"]) (simp add: run_log_def log_explains_def requests_from_def list_all_iff)
next
  case (step y)
  obtain ds t where y: "y = (ds, t)" by force
  from step(3) [OF y] obtain log where l: "t = run_log handle log s" "log_explains mx cs ds log" by blast
  from step(2) y obtain i c' where i: "i < length ds" "c_open (ds ! i)" "cs' = ds[i := c']"
      "serve_iteration handle mx (ds ! i) t = (c', s')"
    by (auto elim: serve_stepE)
  from log_explains_step [OF l(2) i(1,2,4)] obtain log' where l': "log_explains mx cs cs' log'"
      "s' = run_log handle (drop (length log) log') t" "take (length log) log' = log"
    unfolding i(3) by blast
  have "run_log handle log' s = run_log handle (drop (length log) log') (run_log handle log s)"
    by (subst append_take_drop_id [of "length log" log', symmetric], unfold l'(3))
      (simp add: run_log_def)
  then have "s' = run_log handle log' s" using l'(2) l(1) by simp
  then show ?case using l'(1) by blast
qed

subsection \<open>Properties\<close>

definition accepted :: "bytes \<Rightarrow> nat list \<Rightarrow> stream_end \<Rightarrow> nat option \<Rightarrow> connection" where
  "accepted stream sizes e accepts =
     \<lparr>c_buffer = [], c_reader = \<lparr>r_data = stream, r_sizes = sizes, r_end = e\<rparr>,
      c_writer = \<lparr>w_sent = [], w_accepts = accepts\<rparr>, c_open = True\<rparr>"

text \<open>
  C30. Framing is independent of how the bytes arrive. Serving a connection always ends, and
  the responses and the service afterwards are those of answering its byte stream line by
  line (\<open>answer_lines\<close>): a final line needs no newline, a line of more than the limit is
  answered with frame_too_large and ends the connection. How many bytes each read found
  (\<open>sizes\<close>) makes no difference.
\<close>

theorem framing_equiv:
  "(case serve_connection handle mx (accepted stream sizes e accepts) s of
      (c, s') \<Rightarrow> \<not> c_open c \<and> (c_writer c, s') = answer_lines handle mx e stream \<lparr>w_sent = [], w_accepts = accepts\<rparr> s)"
proof -
  have closed: "\<not> c_open (fst (serve_connection handle mx c s))" for c :: connection and s
    by (induction handle mx c s rule: serve_connection.induct)
      (subst serve_connection.simps, auto split: prod.splits)
  obtain c s' where r: "serve_connection handle mx (accepted stream sizes e accepts) s = (c, s')" by force
  then show ?thesis
    using serve_connection_answers [OF _ r] closed [of "accepted stream sizes e accepts" s]
    by (simp add: accepted_def)
qed

text \<open>
  C31. Requests of concurrent clients are whole, ordered and one at a time. However the
  connections interleave, the service has done a sequence of whole requests, each from one
  connection, and nothing else; and the requests it has done for a connection are a prefix
  of the lines that client sent, all of them up to what is still unread while it is open.
\<close>

theorem requests_serialized:
  assumes "serve_steps handle mx (cs, s) (cs', s')"
  shows "\<exists>log. s' = run_log handle log s \<and> log_explains mx cs cs' log"
  by (rule serve_steps_log [OF assms])

lemma requests_serialized_witness:
  "\<exists>cs' log. serve_steps (\<lambda>d n. (Inr [], n + 1 :: nat)) 10 ([accepted ''a'' [] Reset None, accepted [newline] [] Eof None], 0) (cs', 1) \<and>
     1 = run_log (\<lambda>d n. (Inr [], n + 1 :: nat)) log 0 \<and>
     log_explains 10 [accepted ''a'' [] Reset None, accepted [newline] [] Eof None] cs' log"
proof -
  let ?h = "\<lambda>d n. (Inr [], n + 1 :: nat)"
  let ?cs = "[accepted ''a'' [] Reset None, accepted [newline] [] Eof None]"
  let ?c = "\<lparr>c_buffer = [newline], c_reader = \<lparr>r_data = [], r_sizes = [], r_end = Eof\<rparr>,
      c_writer = \<lparr>w_sent = [], w_accepts = None\<rparr>, c_open = True\<rparr>"
  let ?d = "?c\<lparr>c_buffer := [], c_writer := \<lparr>w_sent = [[newline]], w_accepts = None\<rparr>\<rparr>"
  have "serve_iteration ?h 10 (?cs ! 1) 0 = (?c, 0)"
    by (simp add: serve_iteration_def accepted_def partition_at_def reader_read_def read_chunk_size_def Let_def)
  from serve_step.iterate [of 1 ?cs, OF _ _ this]
  have 1: "serve_step ?h 10 (?cs, 0) (?cs[1 := ?c], 0)" by (simp add: accepted_def)
  have "serve_iteration ?h 10 (?cs[1 := ?c] ! 1) 0 = (?d, 1)"
    by (simp add: serve_iteration_def partition_at_def process_frame_def write_response_def before_sep_def)
  from serve_step.iterate [of 1 "?cs[1 := ?c]", OF _ _ this]
  have "serve_step ?h 10 (?cs[1 := ?c], 0) (?cs[1 := ?c, 1 := ?d], 1)" by simp
  with 1 have r: "serve_steps ?h 10 (?cs, 0) (?cs[1 := ?c, 1 := ?d], 1)" by (meson converse_rtranclp_into_rtranclp r_into_rtranclp)
  with requests_serialized [OF r] show ?thesis by blast
qed

end
