(* ===== verification/ExpiringSet.thy ===== *)
theory ExpiringSet
  imports ExpiringFifo
begin

section \<open>The expiring set of the secure listener (\<open>_BoundedExpiringSet\<close>, \<open>aismixer_secure.py\<close>)\<close>

text \<open>
  The set that remembers handshake keys and data nonces: a dictionary \<open>_live_by_key\<close> and a
  deque \<open>_expiry_order\<close> of the same records. As in \<open>Dedup\<close>, a record carries the identity it
  was allocated with, because the source compares records with \<open>is\<close>. The set is the second
  implementation of the contract in \<open>ExpiringFifo\<close>.
\<close>

record 'k expiring_record =
  x_ident :: nat
  x_key :: 'k
  expires_at :: time

record expiring_set_admission =
  adm_accepted :: bool
  adm_expired :: nat
  adm_capacity_evicted :: nat

record 'k expiring_set =
  x_ttl :: time
  x_max :: int
  live_by_key :: "('k \<times> 'k expiring_record) list"
  expiry_order :: "'k expiring_record list"
  x_next :: nat

definition expiring_set :: "time \<Rightarrow> int \<Rightarrow> 'k expiring_set" where
  "expiring_set ttl max_entries =
     \<lparr>x_ttl = ttl, x_max = max_entries, live_by_key = [], expiry_order = [], x_next = 0\<rparr>"

definition x_len :: "'k expiring_set \<Rightarrow> nat" where
  "x_len s = length (live_by_key s)"

definition is_current :: "'k expiring_record \<Rightarrow> 'k expiring_set \<Rightarrow> bool" where
  "is_current r s =
     (case map_of (live_by_key s) (x_key r) of Some r' \<Rightarrow> x_ident r' = x_ident r | None \<Rightarrow> False)"

function x_cleanup_expired :: "time \<Rightarrow> 'k expiring_set \<Rightarrow> nat \<times> 'k expiring_set" where
  "x_cleanup_expired now s =
     (case expiry_order s of
        [] \<Rightarrow> (0, s)
      | r # rs \<Rightarrow>
          if \<not> is_current r s then x_cleanup_expired now (s\<lparr>expiry_order := rs\<rparr>)
          else if now < expires_at r then (0, s)
          else let (n, s') = x_cleanup_expired now
                     (s\<lparr>expiry_order := rs, live_by_key := AList.delete (x_key r) (live_by_key s)\<rparr>)
               in (Suc n, s'))"
  by pat_completeness auto
termination by (relation "measure (\<lambda>(now, s). length (expiry_order s))") auto

function x_evict_oldest_live :: "'k expiring_set \<Rightarrow> (nat \<times> 'k expiring_set) res" where
  "x_evict_oldest_live s =
     (case expiry_order s of
        [] \<Rightarrow> Inl RuntimeError
      | r # rs \<Rightarrow>
          let s1 = s\<lparr>expiry_order := rs\<rparr>
          in if \<not> is_current r s1 then x_evict_oldest_live s1
             else Inr (1, s1\<lparr>live_by_key := AList.delete (x_key r) (live_by_key s1)\<rparr>))"
  by pat_completeness auto
termination by (relation "measure (\<lambda>s. length (expiry_order s))") auto

declare x_cleanup_expired.simps [simp del] x_evict_oldest_live.simps [simp del]

definition x_contains :: "'k \<Rightarrow> time \<Rightarrow> 'k expiring_set \<Rightarrow> (bool \<times> nat) \<times> 'k expiring_set" where
  "x_contains key now s =
     (let (n, s1) = x_cleanup_expired now s
      in ((key \<in> set (keys (live_by_key s1)), n), s1))"

definition x_accept ::
  "'k \<Rightarrow> time \<Rightarrow> 'k expiring_set \<Rightarrow> (expiring_set_admission \<times> 'k expiring_set) res" where
  "x_accept key now s =
     (let (n, s1) = x_cleanup_expired now s
      in if key \<in> set (keys (live_by_key s1))
         then Inr (\<lparr>adm_accepted = False, adm_expired = n, adm_capacity_evicted = 0\<rparr>, s1)
         else rbind (if x_max s1 \<le> int (x_len s1) then x_evict_oldest_live s1 else Inr (0, s1))
           (\<lambda>(ev, s2).
             let r = \<lparr>x_ident = x_next s2, x_key = key, expires_at = now + x_ttl s2\<rparr>
             in Inr (\<lparr>adm_accepted = True, adm_expired = n, adm_capacity_evicted = ev\<rparr>,
                     s2\<lparr>live_by_key := AList.update key r (live_by_key s2),
                        expiry_order := expiry_order s2 @ [r], x_next := Suc (x_next s2)\<rparr>)))"

definition x_discard_all :: "'k expiring_set \<Rightarrow> nat \<times> 'k expiring_set" where
  "x_discard_all s = (x_len s, s\<lparr>live_by_key := [], expiry_order := []\<rparr>)"

subsection \<open>The invariant\<close>

definition live_of :: "'k expiring_record list \<Rightarrow> ('k \<times> 'k expiring_record) list" where
  "live_of rs = map (\<lambda>r. (x_key r, r)) rs"

definition expiring_set_wf :: "'k expiring_set \<Rightarrow> bool" where
  "expiring_set_wf s \<longleftrightarrow> live_by_key s = live_of (expiry_order s) \<and>
     distinct (map x_key (expiry_order s)) \<and> 1 \<le> x_max s \<and> int (x_len s) \<le> x_max s"

lemma keys_live_of [simp]: "keys (live_of rs) = map x_key rs"
  by (simp add: live_of_def comp_def)

lemma live_of_simps [simp]:
  "live_of [] = []" "live_of (r # rs) = (x_key r, r) # live_of rs"
  "live_of (rs @ rs') = live_of rs @ live_of rs'" "length (live_of rs) = length rs"
  by (simp_all add: live_of_def)

lemma fst_set_live_of [simp]: "fst ` set (live_of rs) = x_key ` set rs"
  by (simp add: live_of_def image_image)

lemma x_len_wf: "expiring_set_wf s \<Longrightarrow> x_len s = length (expiry_order s)"
  by (simp add: x_len_def expiring_set_wf_def)

lemma expiring_set_init: "1 \<le> mx \<Longrightarrow> expiring_set_wf (expiring_set ttl mx)"
  by (simp add: expiring_set_wf_def expiring_set_def x_len_def)

lemma wf_tl:
  assumes "expiring_set_wf s" and "expiry_order s = r # rs"
  shows "is_current r s" "is_current r (s\<lparr>expiry_order := rs\<rparr>)"
    "AList.delete (x_key r) (live_by_key s) = live_of rs"
    "expiring_set_wf (s\<lparr>expiry_order := rs, live_by_key := live_of rs\<rparr>)"
  using assms by (auto simp: expiring_set_wf_def is_current_def x_len_def)

text \<open>What the loops compute on a set that satisfies the invariant.\<close>

abbreviation x_drop :: "time \<Rightarrow> 'k expiring_record list \<Rightarrow> 'k expiring_record list" where
  "x_drop now rs \<equiv> dropWhile (\<lambda>r. expires_at r \<le> now) rs"

lemma x_cleanup_eq:
  "expiring_set_wf s \<Longrightarrow> rs = x_drop now (expiry_order s) \<Longrightarrow>
   x_cleanup_expired now s = (x_len s - length rs, s\<lparr>expiry_order := rs, live_by_key := live_of rs\<rparr>)"
proof (induction "expiry_order s" arbitrary: s)
  case Nil
  then show ?case
    by (auto simp: x_cleanup_expired.simps [of now s] expiring_set_wf_def x_len_def
        intro!: expiring_set.equality)
next
  case (Cons r rs0)
  note o = Cons.hyps(2) [symmetric] and tl = wf_tl [OF Cons.prems(1) Cons.hyps(2) [symmetric]]
  show ?case
  proof (cases "now < expires_at r")
    case True
    then have "rs = expiry_order s" using Cons.prems(2) o by simp
    then show ?thesis
      using True o tl Cons.prems(1)
      by (auto simp: x_cleanup_expired.simps [of now s] expiring_set_wf_def x_len_def
          intro!: expiring_set.equality)
  next
    case False
    let ?s = "s\<lparr>expiry_order := rs0, live_by_key := live_of rs0\<rparr>"
    have rs: "rs = x_drop now rs0" using Cons.prems(2) o False by simp
    then have "x_cleanup_expired now ?s =
        (x_len ?s - length rs, ?s\<lparr>expiry_order := rs, live_by_key := live_of rs\<rparr>)"
      by (intro Cons.hyps(1) [of ?s] tl(4)) auto
    moreover have "length rs \<le> length rs0" using rs by (simp add: length_dropWhile_le)
    ultimately show ?thesis
      using False tl o Cons.prems(1)
      by (simp add: x_cleanup_expired.simps [of now s] x_len_wf x_len_def Suc_diff_le
          expiring_set_wf_def)
  qed
qed

lemma x_cleanup_wf:
  assumes "expiring_set_wf s" and "x_cleanup_expired now s = (n, s')"
  shows "expiring_set_wf s'" "x_ttl s' = x_ttl s" "x_max s' = x_max s" "x_len s = n + x_len s'"
    "expiry_order s' = x_drop now (expiry_order s)"
proof -
  let ?rs = "x_drop now (expiry_order s)"
  have l: "length ?rs \<le> length (expiry_order s)" by (rule length_dropWhile_le)
  have s': "n = x_len s - length ?rs" "s' = s\<lparr>expiry_order := ?rs, live_by_key := live_of ?rs\<rparr>"
    using assms x_cleanup_eq [OF assms(1) refl, of now] by auto
  then show "expiring_set_wf s'" "x_len s = n + x_len s'"
    using assms(1) l by (auto simp: expiring_set_wf_def x_len_def distinct_dropWhile_map)
  from s' show "x_ttl s' = x_ttl s" "x_max s' = x_max s" "expiry_order s' = ?rs" by auto
qed

lemma x_evict_eq:
  "expiring_set_wf s \<Longrightarrow> expiry_order s = r # rs \<Longrightarrow>
   x_evict_oldest_live s = Inr (1, s\<lparr>expiry_order := rs, live_by_key := live_of rs\<rparr>)"
  by (simp add: x_evict_oldest_live.simps [of s] wf_tl)

subsection \<open>Refinement of the expiring set\<close>

definition x_view :: "'k expiring_set \<Rightarrow> 'k fifo" where
  "x_view s = map (\<lambda>r. (x_key r, expires_at r - x_ttl s)) (expiry_order s)"

definition x_cap :: "'k expiring_set \<Rightarrow> nat option" where
  "x_cap s = Some (nat (x_max s))"

lemma x_view_simps:
  "x_view (s\<lparr>live_by_key := l\<rparr>) = x_view s"
  "x_view (s\<lparr>x_next := i\<rparr>) = x_view s"
  "length (x_view s) = length (expiry_order s)"
  "keys (x_view s) = map x_key (expiry_order s)"
  by (simp_all add: x_view_def comp_def)

lemma x_view_cleanup:
  "expiring_set_wf s \<Longrightarrow> x_cleanup_expired now s = (n, s') \<Longrightarrow>
   x_view s' = fifo_live (x_ttl s) now (x_view s)"
  using x_cleanup_eq [OF _ refl, of s now]
  by (auto simp: x_view_def fifo_live_def dropWhile_map comp_def le_diff_eq diff_le_eq
      intro!: arg_cong [where f = "map _"] dropWhile_cong)

lemma x_make_room:
  assumes "expiring_set_wf s"
  obtains ev s' where
    "(if x_max s \<le> int (x_len s) then x_evict_oldest_live s else Inr (0, s)) = Inr (ev, s')"
    "expiring_set_wf s'" "x_ttl s' = x_ttl s" "x_max s' = x_max s" "x_len s = ev + x_len s'"
    "int (x_len s') < x_max s" "x_view s' = fifo_room (x_cap s) (x_view s)"
    "set (expiry_order s') \<subseteq> set (expiry_order s)"
proof (cases "x_max s \<le> int (x_len s)")
  case False
  then have "Suc (length (expiry_order s)) \<le> nat (x_max s)"
    using x_len_wf [OF assms] by linarith
  then show thesis
    using False assms
    by (intro that [of 0 s]) (auto simp: fifo_room_def x_cap_def x_view_simps)
next
  case True
  then have full: "nat (x_max s) = length (expiry_order s)" "1 \<le> x_max s"
    using assms x_len_wf [OF assms] by (auto simp: expiring_set_wf_def)
  then obtain r rs where o: "expiry_order s = r # rs" by (cases "expiry_order s") auto
  show thesis
    using True full o assms
    by (intro that [of 1 "s\<lparr>expiry_order := rs, live_by_key := live_of rs\<rparr>"])
      (auto simp: x_evict_eq wf_tl fifo_room_def x_cap_def x_view_def x_len_def x_len_wf
        expiring_set_wf_def)
qed

text \<open>The whole behaviour of an admission, for the accounting of the sessions.\<close>

lemma x_accept_spec:
  assumes "expiring_set_wf s"
  obtains a s' where "x_accept key now s = Inr (a, s')" "expiring_set_wf s'"
    "x_ttl s' = x_ttl s" "x_max s' = x_max s"
    "x_len s + (if adm_accepted a then 1 else 0) = adm_expired a + adm_capacity_evicted a + x_len s'"
    "fifo_admit (x_cap s) (x_ttl s) key now (x_view s) = (adm_accepted a, x_view s')"
    "adm_accepted a \<or> adm_capacity_evicted a = 0"
proof -
  obtain n s1 where c: "x_cleanup_expired now s = (n, s1)" by force
  note c1 = x_cleanup_wf [OF assms c] and v1 = x_view_cleanup [OF assms c]
  have k1: "keys (live_by_key s1) = keys (x_view s1)"
    using c1(1) by (simp add: expiring_set_wf_def x_view_simps)
  show thesis
  proof (cases "key \<in> set (keys (live_by_key s1))")
    case True
    then have "x_accept key now s =
        Inr (\<lparr>adm_accepted = False, adm_expired = n, adm_capacity_evicted = 0\<rparr>, s1)"
      using c by (simp add: x_accept_def)
    then show thesis
      using True c1 v1 unfolding k1
      by (intro that [of "\<lparr>adm_accepted = False, adm_expired = n, adm_capacity_evicted = 0\<rparr>" s1])
        (simp_all add: fifo_admit_def)
  next
    case False
    obtain ev s2 where r: "(if x_max s1 \<le> int (x_len s1) then x_evict_oldest_live s1
          else Inr (0, s1)) = Inr (ev, s2)" "expiring_set_wf s2" "x_ttl s2 = x_ttl s1"
        "x_max s2 = x_max s1" "x_len s1 = ev + x_len s2" "int (x_len s2) < x_max s1"
        "x_view s2 = fifo_room (x_cap s1) (x_view s1)"
        "set (expiry_order s2) \<subseteq> set (expiry_order s1)"
      using x_make_room [OF c1(1)] by metis
    let ?r = "\<lparr>x_ident = x_next s2, x_key = key, expires_at = now + x_ttl s2\<rparr>"
    let ?s' = "s2\<lparr>live_by_key := AList.update key ?r (live_by_key s2),
      expiry_order := expiry_order s2 @ [?r], x_next := Suc (x_next s2)\<rparr>"
    have fresh: "key \<notin> x_key ` set (expiry_order s2)"
      using False r(8) c1(1) by (auto simp: expiring_set_wf_def)
    then have "expiring_set_wf ?s'" "x_len ?s' = Suc (x_len s2)"
      using r(2,4,6) by (auto simp: expiring_set_wf_def x_len_def)
    moreover have "x_view ?s' = fifo_room (x_cap s) (x_view s1) @ [(key, now)]"
      using r(7) c1(3) by (simp add: x_view_def x_cap_def)
    moreover have "x_accept key now s =
        Inr (\<lparr>adm_accepted = True, adm_expired = n, adm_capacity_evicted = ev\<rparr>, ?s')"
      using False c r(1) by (simp add: x_accept_def Let_def)
    ultimately show thesis
      using False c1 r v1 unfolding k1
      by (intro that [of "\<lparr>adm_accepted = True, adm_expired = n, adm_capacity_evicted = ev\<rparr>" ?s'])
        (simp_all add: fifo_admit_def)
  qed
qed

definition x_admit :: "'k \<Rightarrow> time \<Rightarrow> 'k expiring_set \<Rightarrow> (bool \<times> 'k expiring_set) res" where
  "x_admit key now s = map_sum id (\<lambda>(a, s'). (adm_accepted a, s')) (x_accept key now s)"

lemma x_admit_Inr:
  "x_admit key now s = Inr (b, s') \<longleftrightarrow> (\<exists>a. x_accept key now s = Inr (a, s') \<and> b = adm_accepted a)"
  by (cases "x_accept key now s") (auto simp: x_admit_def)

interpretation xs: expiring_fifo x_admit x_view x_ttl x_cap expiring_set_wf
proof
  fix s :: "'a expiring_set" and k now
  assume wf: "expiring_set_wf s"
  obtain a s' where a: "x_accept k now s = Inr (a, s')" "expiring_set_wf s'" "x_ttl s' = x_ttl s"
      "x_max s' = x_max s"
      "fifo_admit (x_cap s) (x_ttl s) k now (x_view s) = (adm_accepted a, x_view s')"
    using x_accept_spec [OF wf] by metis
  then show "\<exists>b s'. x_admit k now s = Inr (b, s') \<and>
      (b, x_view s') = fifo_admit (x_cap s) (x_ttl s) k now (x_view s)"
    by (auto simp: x_admit_Inr)
  fix b s''
  assume "x_admit k now s = Inr (b, s'')"
  with a show "expiring_set_wf s''" "x_ttl s'' = x_ttl s \<and> x_cap s'' = x_cap s"
    by (auto simp: x_admit_Inr x_cap_def)
qed

text \<open>Membership sees exactly the keys whose life has not ended.\<close>

lemma x_contains_spec:
  assumes "expiring_set_wf s" and "x_contains key now s = ((b, n), s')"
  shows "expiring_set_wf s'" "x_ttl s' = x_ttl s" "x_max s' = x_max s" "x_len s = n + x_len s'"
    "x_view s' = fifo_live (x_ttl s) now (x_view s)" "b \<longleftrightarrow> key \<in> set (keys (x_view s'))"
proof -
  have c: "x_cleanup_expired now s = (n, s')" and b: "b \<longleftrightarrow> key \<in> set (keys (live_by_key s'))"
    using assms(2) by (auto simp: x_contains_def split: prod.splits)
  show "expiring_set_wf s'" "x_ttl s' = x_ttl s" "x_max s' = x_max s" "x_len s = n + x_len s'"
    using x_cleanup_wf [OF assms(1) c] by auto
  show "x_view s' = fifo_live (x_ttl s) now (x_view s)" by (rule x_view_cleanup [OF assms(1) c])
  show "b \<longleftrightarrow> key \<in> set (keys (x_view s'))"
    using b x_cleanup_wf(1) [OF assms(1) c] by (simp add: expiring_set_wf_def x_view_simps)
qed

end
