(* ===== verification/SecureState.thy ===== *)
theory SecureState
  imports ExpiringSet
begin

section \<open>The state of the secure listener (\<open>SecureState\<close>, \<open>aismixer_secure.py\<close>)\<close>

text \<open>
  Two ordered dictionaries from peer address to session (confirmed sessions, ordered by last
  activity, and pending ones, ordered by creation), the set of handshake keys already used,
  and the counters. A session object is known to its users by reference and compared with
  \<open>is\<close>; the model gives each object the reference it was allocated with (\<open>s_ref\<close>,
  \<open>p_ref\<close>). An operation that takes a session object reads the immutable fields of its
  argument (address and reference) and changes the object the dictionaries hold. The nonce
  set of a pending session is handed to the session it is promoted to. Addresses and cipher
  objects are opaque values (\<open>'a\<close>, \<open>'c\<close>); clock readings are in nanoseconds.
\<close>

definition ticks_per_second :: int where
  "ticks_per_second = 1000000000"

fun validate_positive_int :: "pyval \<Rightarrow> int res" where
  "validate_positive_int (PInt i) = (if i < 1 then Inl ValueError else Inr i)"
| "validate_positive_int _ = Inl TypeError"

fun validate_positive_ttl :: "pyval \<Rightarrow> time res" where
  "validate_positive_ttl (PInt i) = (if \<not> 0 < i then Inl ValueError else Inr (i * ticks_per_second))"
| "validate_positive_ttl (PFloat f) = (if \<not> 0 < f then Inl ValueError else Inr f)"
| "validate_positive_ttl _ = Inl TypeError"

record ('a, 'c) secure_session =
  s_ref :: nat
  s_address :: 'a
  s_station :: pystr
  s_c2s :: 'c
  s_s2c :: 'c
  s_created_at :: time
  s_last_seen :: time
  s_nonces :: "bytes expiring_set"

record ('a, 'c) pending_session =
  p_ref :: nat
  p_address :: 'a
  p_station :: pystr
  p_c2s :: 'c
  p_s2c :: 'c
  p_created_at :: time
  p_nonces :: "bytes expiring_set"

record secure_state_stats =
  st_handshake_replay_accepted :: nat
  st_handshake_replay_rejected :: nat
  st_handshake_replay_expired :: nat
  st_handshake_replay_capacity_evicted :: nat
  st_sessions_created :: nat
  st_sessions_replaced :: nat
  st_sessions_touched :: nat
  st_sessions_expired :: nat
  st_sessions_capacity_evicted :: nat
  st_pending_sessions_created :: nat
  st_pending_sessions_replaced :: nat
  st_pending_sessions_promoted :: nat
  st_pending_sessions_expired :: nat
  st_pending_sessions_capacity_evicted :: nat
  st_data_nonces_accepted :: nat
  st_data_nonce_replays :: nat
  st_data_nonces_expired :: nat
  st_data_nonces_capacity_evicted :: nat
  st_data_nonces_session_discarded :: nat
  st_current_handshake_replays :: nat
  st_peak_handshake_replays :: nat
  st_current_sessions :: nat
  st_peak_sessions :: nat
  st_current_pending_sessions :: nat
  st_peak_pending_sessions :: nat
  st_current_data_nonces :: int
  st_peak_data_nonces :: int

record ('a, 'c) secure_state =
  session_ttl :: time
  max_sessions :: int
  pending_session_ttl :: time
  max_pending_sessions :: int
  data_nonce_ttl :: time
  data_nonce_max :: int
  handshake_replays :: "bytes expiring_set"
  sessions :: "('a \<times> ('a, 'c) secure_session) list"
  pending_sessions :: "('a \<times> ('a, 'c) pending_session) list"
  next_ref :: nat
  handshake_replay_accepted :: nat
  handshake_replay_rejected :: nat
  handshake_replay_expired :: nat
  handshake_replay_capacity_evicted :: nat
  sessions_created :: nat
  sessions_replaced :: nat
  sessions_touched :: nat
  sessions_expired :: nat
  sessions_capacity_evicted :: nat
  pending_sessions_created :: nat
  pending_sessions_replaced :: nat
  pending_sessions_promoted :: nat
  pending_sessions_expired :: nat
  pending_sessions_capacity_evicted :: nat
  data_nonces_accepted :: nat
  data_nonce_replays :: nat
  data_nonces_expired :: nat
  data_nonces_capacity_evicted :: nat
  data_nonces_session_discarded :: nat
  current_data_nonces :: int
  peak_handshake_replays :: nat
  peak_sessions :: nat
  peak_pending_sessions :: nat
  peak_data_nonces :: int

record secure_config =
  cfg_session_ttl :: pyval
  cfg_max_sessions :: pyval
  cfg_handshake_replay_ttl :: pyval
  cfg_handshake_replay_max :: pyval
  cfg_data_nonce_ttl :: pyval
  cfg_data_nonce_max :: pyval
  cfg_pending_session_ttl :: pyval
  cfg_max_pending_sessions :: pyval

definition default_config :: secure_config where
  "default_config =
     \<lparr>cfg_session_ttl = PInt 300, cfg_max_sessions = PInt 100000,
      cfg_handshake_replay_ttl = PInt 60, cfg_handshake_replay_max = PInt 100000,
      cfg_data_nonce_ttl = PInt 300, cfg_data_nonce_max = PInt 100000,
      cfg_pending_session_ttl = PInt 30, cfg_max_pending_sessions = PInt 100000\<rparr>"

definition secure_init :: "secure_config \<Rightarrow> ('a, 'c) secure_state res" where
  "secure_init c =
     rbind (validate_positive_ttl (cfg_session_ttl c)) (\<lambda>sttl.
     rbind (validate_positive_int (cfg_max_sessions c)) (\<lambda>smax.
     rbind (validate_positive_ttl (cfg_pending_session_ttl c)) (\<lambda>pttl.
     rbind (validate_positive_int (cfg_max_pending_sessions c)) (\<lambda>pmax.
     rbind (validate_positive_ttl (cfg_handshake_replay_ttl c)) (\<lambda>httl.
     rbind (validate_positive_int (cfg_handshake_replay_max c)) (\<lambda>hmax.
     rbind (validate_positive_ttl (cfg_data_nonce_ttl c)) (\<lambda>nttl.
     rbind (validate_positive_int (cfg_data_nonce_max c)) (\<lambda>nmax.
       Inr \<lparr>session_ttl = sttl, max_sessions = smax, pending_session_ttl = pttl,
            max_pending_sessions = pmax, data_nonce_ttl = nttl, data_nonce_max = nmax,
            handshake_replays = expiring_set httl hmax, sessions = [], pending_sessions = [],
            next_ref = 0,
            handshake_replay_accepted = 0, handshake_replay_rejected = 0,
            handshake_replay_expired = 0, handshake_replay_capacity_evicted = 0,
            sessions_created = 0, sessions_replaced = 0, sessions_touched = 0,
            sessions_expired = 0, sessions_capacity_evicted = 0,
            pending_sessions_created = 0, pending_sessions_replaced = 0,
            pending_sessions_promoted = 0, pending_sessions_expired = 0,
            pending_sessions_capacity_evicted = 0,
            data_nonces_accepted = 0, data_nonce_replays = 0, data_nonces_expired = 0,
            data_nonces_capacity_evicted = 0, data_nonces_session_discarded = 0,
            current_data_nonces = 0, peak_handshake_replays = 0, peak_sessions = 0,
            peak_pending_sessions = 0, peak_data_nonces = 0\<rparr>))))))))"

definition secure_stats :: "('a, 'c) secure_state \<Rightarrow> secure_state_stats" where
  "secure_stats st =
     \<lparr>st_handshake_replay_accepted = handshake_replay_accepted st,
      st_handshake_replay_rejected = handshake_replay_rejected st,
      st_handshake_replay_expired = handshake_replay_expired st,
      st_handshake_replay_capacity_evicted = handshake_replay_capacity_evicted st,
      st_sessions_created = sessions_created st,
      st_sessions_replaced = sessions_replaced st,
      st_sessions_touched = sessions_touched st,
      st_sessions_expired = sessions_expired st,
      st_sessions_capacity_evicted = sessions_capacity_evicted st,
      st_pending_sessions_created = pending_sessions_created st,
      st_pending_sessions_replaced = pending_sessions_replaced st,
      st_pending_sessions_promoted = pending_sessions_promoted st,
      st_pending_sessions_expired = pending_sessions_expired st,
      st_pending_sessions_capacity_evicted = pending_sessions_capacity_evicted st,
      st_data_nonces_accepted = data_nonces_accepted st,
      st_data_nonce_replays = data_nonce_replays st,
      st_data_nonces_expired = data_nonces_expired st,
      st_data_nonces_capacity_evicted = data_nonces_capacity_evicted st,
      st_data_nonces_session_discarded = data_nonces_session_discarded st,
      st_current_handshake_replays = x_len (handshake_replays st),
      st_peak_handshake_replays = peak_handshake_replays st,
      st_current_sessions = length (sessions st),
      st_peak_sessions = peak_sessions st,
      st_current_pending_sessions = length (pending_sessions st),
      st_peak_pending_sessions = peak_pending_sessions st,
      st_current_data_nonces = current_data_nonces st,
      st_peak_data_nonces = peak_data_nonces st\<rparr>"

subsection \<open>The operations\<close>

lemma length_delete_less: "map_of d k = Some v \<Longrightarrow> length (AList.delete k d) < length d"
  by (induction d) (auto simp: less_Suc_eq_le length_delete_le)

definition accept_handshake_replay ::
  "bytes \<Rightarrow> time \<Rightarrow> ('a, 'c) secure_state \<Rightarrow> (bool \<times> ('a, 'c) secure_state) res" where
  "accept_handshake_replay key now st =
     rbind (x_accept key now (handshake_replays st)) (\<lambda>(adm, hs).
       let st1 = st\<lparr>handshake_replays := hs,
             handshake_replay_expired := handshake_replay_expired st + adm_expired adm,
             handshake_replay_capacity_evicted :=
               handshake_replay_capacity_evicted st + adm_capacity_evicted adm\<rparr>
       in if \<not> adm_accepted adm
          then Inr (False, st1\<lparr>handshake_replay_rejected := Suc (handshake_replay_rejected st1)\<rparr>)
          else Inr (True, st1\<lparr>handshake_replay_accepted := Suc (handshake_replay_accepted st1),
                 peak_handshake_replays := max (peak_handshake_replays st1) (x_len hs)\<rparr>))"

text \<open>The removed session object is dropped with its emptied nonce set.\<close>

definition discard_session_nonces ::
  "bytes expiring_set \<Rightarrow> ('a, 'c) secure_state \<Rightarrow> ('a, 'c) secure_state" where
  "discard_session_nonces nonces st =
     (let discarded = fst (x_discard_all nonces)
      in st\<lparr>current_data_nonces := current_data_nonces st - int discarded,
            data_nonces_session_discarded := data_nonces_session_discarded st + discarded\<rparr>)"

datatype removal = RExpired | RCapacity | RReplaced

definition count_session_removal :: "removal \<Rightarrow> ('a, 'c) secure_state \<Rightarrow> ('a, 'c) secure_state" where
  "count_session_removal reason st =
     (case reason of
        RExpired \<Rightarrow> st\<lparr>sessions_expired := Suc (sessions_expired st)\<rparr>
      | RCapacity \<Rightarrow> st\<lparr>sessions_capacity_evicted := Suc (sessions_capacity_evicted st)\<rparr>
      | RReplaced \<Rightarrow> st\<lparr>sessions_replaced := Suc (sessions_replaced st)\<rparr>)"

definition remove_session ::
  "'a \<Rightarrow> removal \<Rightarrow> ('a, 'c) secure_state \<Rightarrow> ('a, 'c) secure_state res" where
  "remove_session addr reason st =
     (case map_of (sessions st) addr of
        None \<Rightarrow> Inl KeyError
      | Some x \<Rightarrow>
          Inr (count_session_removal reason
                 (discard_session_nonces (s_nonces x)
                    (st\<lparr>sessions := AList.delete addr (sessions st)\<rparr>))))"

definition count_pending_removal :: "removal \<Rightarrow> ('a, 'c) secure_state \<Rightarrow> ('a, 'c) secure_state" where
  "count_pending_removal reason st =
     (case reason of
        RExpired \<Rightarrow> st\<lparr>pending_sessions_expired := Suc (pending_sessions_expired st)\<rparr>
      | RCapacity \<Rightarrow>
          st\<lparr>pending_sessions_capacity_evicted := Suc (pending_sessions_capacity_evicted st)\<rparr>
      | RReplaced \<Rightarrow> st\<lparr>pending_sessions_replaced := Suc (pending_sessions_replaced st)\<rparr>)"

definition remove_pending_session ::
  "'a \<Rightarrow> removal \<Rightarrow> ('a, 'c) secure_state \<Rightarrow> ('a, 'c) secure_state res" where
  "remove_pending_session addr reason st =
     (case map_of (pending_sessions st) addr of
        None \<Rightarrow> Inl KeyError
      | Some p \<Rightarrow>
          Inr (count_pending_removal reason
                 (discard_session_nonces (p_nonces p)
                    (st\<lparr>pending_sessions := AList.delete addr (pending_sessions st)\<rparr>))))"

lemma remove_session_shrinks:
  "remove_session addr r st = Inr st' \<Longrightarrow> length (sessions st') < length (sessions st)"
  by (auto simp: remove_session_def count_session_removal_def discard_session_nonces_def Let_def
      length_delete_less split: option.splits removal.splits)

lemma remove_pending_shrinks:
  "remove_pending_session addr r st = Inr st' \<Longrightarrow>
   length (pending_sessions st') < length (pending_sessions st)"
  by (auto simp: remove_pending_session_def count_pending_removal_def discard_session_nonces_def
      Let_def length_delete_less split: option.splits removal.splits)

function cleanup_expired_sessions ::
  "time \<Rightarrow> ('a, 'c) secure_state \<Rightarrow> ('a list \<times> ('a, 'c) secure_state) res" where
  "cleanup_expired_sessions now st =
     (case sessions st of
        [] \<Rightarrow> Inr ([], st)
      | (addr, x) # _ \<Rightarrow>
          if now - s_last_seen x < session_ttl st then Inr ([], st)
          else rbind (remove_session addr RExpired st) (\<lambda>st1.
               rbind (cleanup_expired_sessions now st1) (\<lambda>(addrs, st2). Inr (addr # addrs, st2))))"
  by pat_completeness auto
termination
  by (relation "measure (\<lambda>(now, st). length (sessions st))") (auto dest: remove_session_shrinks)

function cleanup_expired_pending_sessions ::
  "time \<Rightarrow> ('a, 'c) secure_state \<Rightarrow> ('a list \<times> ('a, 'c) secure_state) res" where
  "cleanup_expired_pending_sessions now st =
     (case pending_sessions st of
        [] \<Rightarrow> Inr ([], st)
      | (addr, p) # _ \<Rightarrow>
          if now < p_created_at p + pending_session_ttl st then Inr ([], st)
          else rbind (remove_pending_session addr RExpired st) (\<lambda>st1.
               rbind (cleanup_expired_pending_sessions now st1) (\<lambda>(addrs, st2).
                 Inr (addr # addrs, st2))))"
  by pat_completeness auto
termination
  by (relation "measure (\<lambda>(now, st). length (pending_sessions st))")
    (auto dest: remove_pending_shrinks)

declare cleanup_expired_sessions.simps [simp del] cleanup_expired_pending_sessions.simps [simp del]

text \<open>
  The blocks of \<open>install_session\<close> and \<open>promote_pending_session\<close> that make room for a session.
  (\<open>next(iter(...))\<close> of an empty dictionary is never reached, as the maximum is at least 1.)
\<close>

definition make_session_room ::
  "'a \<Rightarrow> ('a, 'c) secure_state \<Rightarrow> ('a, 'c) secure_state res" where
  "make_session_room addr st =
     (if addr \<in> set (keys (sessions st)) then remove_session addr RReplaced st
      else if max_sessions st \<le> int (length (sessions st))
      then (case sessions st of
              [] \<Rightarrow> Inl RuntimeError
            | (oldest_addr, _) # _ \<Rightarrow> remove_session oldest_addr RCapacity st)
      else Inr st)"

definition make_pending_room ::
  "'a \<Rightarrow> ('a, 'c) secure_state \<Rightarrow> ('a, 'c) secure_state res" where
  "make_pending_room addr st =
     (if addr \<in> set (keys (pending_sessions st)) then remove_pending_session addr RReplaced st
      else if max_pending_sessions st \<le> int (length (pending_sessions st))
      then (case pending_sessions st of
              [] \<Rightarrow> Inl RuntimeError
            | (oldest_addr, _) # _ \<Rightarrow> remove_pending_session oldest_addr RCapacity st)
      else Inr st)"

definition add_session ::
  "'a \<Rightarrow> pystr \<Rightarrow> 'c \<Rightarrow> 'c \<Rightarrow> bytes expiring_set \<Rightarrow> time \<Rightarrow> ('a, 'c) secure_state \<Rightarrow>
   ('a, 'c) secure_session \<times> ('a, 'c) secure_state" where
  "add_session addr station c2s s2c nonces now st =
     (let x = \<lparr>s_ref = next_ref st, s_address = addr, s_station = station, s_c2s = c2s,
               s_s2c = s2c, s_created_at = now, s_last_seen = now, s_nonces = nonces\<rparr>;
          ss = AList.update addr x (sessions st)
      in (x, st\<lparr>sessions := ss, next_ref := Suc (next_ref st),
               sessions_created := Suc (sessions_created st),
               peak_sessions := max (peak_sessions st) (length ss)\<rparr>))"

definition install_session ::
  "'a \<Rightarrow> pystr \<Rightarrow> 'c \<Rightarrow> 'c \<Rightarrow> time \<Rightarrow> ('a, 'c) secure_state \<Rightarrow>
   (('a, 'c) secure_session \<times> ('a, 'c) secure_state) res" where
  "install_session addr station c2s s2c now st =
     rbind (cleanup_expired_sessions now st) (\<lambda>(_, st1).
     rbind (make_session_room addr st1) (\<lambda>st2.
       Inr (add_session addr station c2s s2c
              (expiring_set (data_nonce_ttl st2) (data_nonce_max st2)) now st2)))"

definition install_pending_session ::
  "'a \<Rightarrow> pystr \<Rightarrow> 'c \<Rightarrow> 'c \<Rightarrow> time \<Rightarrow> ('a, 'c) secure_state \<Rightarrow>
   (('a, 'c) pending_session \<times> ('a, 'c) secure_state) res" where
  "install_pending_session addr station c2s s2c now st =
     rbind (cleanup_expired_pending_sessions now st) (\<lambda>(_, st1).
     rbind (make_pending_room addr st1) (\<lambda>st2.
       let p = \<lparr>p_ref = next_ref st2, p_address = addr, p_station = station, p_c2s = c2s,
                p_s2c = s2c, p_created_at = now,
                p_nonces = expiring_set (data_nonce_ttl st2) (data_nonce_max st2)\<rparr>;
           ps = AList.update addr p (pending_sessions st2)
       in Inr (p, st2\<lparr>pending_sessions := ps, next_ref := Suc (next_ref st2),
                     pending_sessions_created := Suc (pending_sessions_created st2),
                     peak_pending_sessions := max (peak_pending_sessions st2) (length ps)\<rparr>)))"

definition get_active_session ::
  "'a \<Rightarrow> time \<Rightarrow> ('a, 'c) secure_state \<Rightarrow>
   (('a, 'c) secure_session option \<times> ('a, 'c) secure_state) res" where
  "get_active_session addr now st =
     rbind (cleanup_expired_sessions now st) (\<lambda>(_, st1). Inr (map_of (sessions st1) addr, st1))"

definition get_pending_session ::
  "'a \<Rightarrow> time \<Rightarrow> ('a, 'c) secure_state \<Rightarrow>
   (('a, 'c) pending_session option \<times> ('a, 'c) secure_state) res" where
  "get_pending_session addr now st =
     rbind (cleanup_expired_pending_sessions now st) (\<lambda>(_, st1).
       Inr (map_of (pending_sessions st1) addr, st1))"

text \<open>\<open>self._sessions.get(addr) is session\<close>: the object the dictionary holds, if it is this one.\<close>

definition held_session ::
  "'a \<Rightarrow> ('a, 'c) secure_session \<Rightarrow> ('a, 'c) secure_state \<Rightarrow> ('a, 'c) secure_session option" where
  "held_session addr h st =
     (case map_of (sessions st) addr of
        Some x \<Rightarrow> if s_ref x = s_ref h then Some x else None | None \<Rightarrow> None)"

definition held_pending ::
  "'a \<Rightarrow> ('a, 'c) pending_session \<Rightarrow> ('a, 'c) secure_state \<Rightarrow> ('a, 'c) pending_session option" where
  "held_pending addr h st =
     (case map_of (pending_sessions st) addr of
        Some p \<Rightarrow> if p_ref p = p_ref h then Some p else None | None \<Rightarrow> None)"

definition get_live_session_handle ::
  "'a \<Rightarrow> ('a, 'c) secure_session \<Rightarrow> time \<Rightarrow> ('a, 'c) secure_state \<Rightarrow>
   (('a, 'c) secure_session option \<times> ('a, 'c) secure_state) res" where
  "get_live_session_handle addr h now st =
     (if held_session addr h st = None then Inr (None, st)
      else rbind (cleanup_expired_sessions now st) (\<lambda>(_, st1). Inr (held_session addr h st1, st1)))"

definition get_live_pending_session_handle ::
  "'a \<Rightarrow> ('a, 'c) pending_session \<Rightarrow> time \<Rightarrow> ('a, 'c) secure_state \<Rightarrow>
   (('a, 'c) pending_session option \<times> ('a, 'c) secure_state) res" where
  "get_live_pending_session_handle addr h now st =
     (if held_pending addr h st = None then Inr (None, st)
      else rbind (cleanup_expired_pending_sessions now st) (\<lambda>(_, st1).
        Inr (held_pending addr h st1, st1)))"

definition touch_active_session ::
  "'a \<Rightarrow> ('a, 'c) secure_session \<Rightarrow> time \<Rightarrow> ('a, 'c) secure_state \<Rightarrow> ('a, 'c) secure_state" where
  "touch_active_session addr x now st =
     st\<lparr>sessions := AList.delete addr (sessions st) @ [(addr, x\<lparr>s_last_seen := now\<rparr>)],
        sessions_touched := Suc (sessions_touched st)\<rparr>"

definition touch_session ::
  "'a \<Rightarrow> ('a, 'c) secure_session \<Rightarrow> time \<Rightarrow> ('a, 'c) secure_state \<Rightarrow>
   (bool \<times> ('a, 'c) secure_state) res" where
  "touch_session addr h now st =
     rbind (get_live_session_handle addr h now st) (\<lambda>(l, st1).
       case l of None \<Rightarrow> Inr (False, st1)
       | Some x \<Rightarrow> Inr (True, touch_active_session addr x now st1))"

definition promote_pending_session ::
  "'a \<Rightarrow> ('a, 'c) pending_session \<Rightarrow> time \<Rightarrow> ('a, 'c) secure_state \<Rightarrow>
   (('a, 'c) secure_session option \<times> ('a, 'c) secure_state) res" where
  "promote_pending_session addr h now st =
     rbind (get_live_pending_session_handle addr h now st) (\<lambda>(l, st1).
       case l of None \<Rightarrow> Inr (None, st1)
       | Some p \<Rightarrow>
           rbind (cleanup_expired_sessions now st1) (\<lambda>(_, st2).
             let st3 = st2\<lparr>pending_sessions := AList.delete addr (pending_sessions st2),
                           pending_sessions_promoted := Suc (pending_sessions_promoted st2)\<rparr>
             in rbind (make_session_room addr st3) (\<lambda>st4.
                  let (x, st5) = add_session addr (p_station p) (p_c2s p) (p_s2c p) (p_nonces p) now st4
                  in Inr (Some x, st5))))"

definition account_expired_data_nonces ::
  "nat \<Rightarrow> ('a, 'c) secure_state \<Rightarrow> ('a, 'c) secure_state" where
  "account_expired_data_nonces expired st =
     st\<lparr>data_nonces_expired := data_nonces_expired st + expired,
        current_data_nonces := current_data_nonces st - int expired\<rparr>"

definition put_session_nonces ::
  "'a \<Rightarrow> ('a, 'c) secure_session \<Rightarrow> bytes expiring_set \<Rightarrow> ('a, 'c) secure_state \<Rightarrow>
   ('a, 'c) secure_state" where
  "put_session_nonces addr x u st =
     st\<lparr>sessions := AList.update addr (x\<lparr>s_nonces := u\<rparr>) (sessions st)\<rparr>"

definition put_pending_nonces ::
  "'a \<Rightarrow> ('a, 'c) pending_session \<Rightarrow> bytes expiring_set \<Rightarrow> ('a, 'c) secure_state \<Rightarrow>
   ('a, 'c) secure_state" where
  "put_pending_nonces addr p u st =
     st\<lparr>pending_sessions := AList.update addr (p\<lparr>p_nonces := u\<rparr>) (pending_sessions st)\<rparr>"

definition data_nonce_seen ::
  "('a, 'c) secure_session \<Rightarrow> bytes \<Rightarrow> time \<Rightarrow> ('a, 'c) secure_state \<Rightarrow>
   (bool \<times> ('a, 'c) secure_state) res" where
  "data_nonce_seen h nonce now st =
     rbind (get_live_session_handle (s_address h) h now st) (\<lambda>(l, st1).
       case l of None \<Rightarrow> Inr (False, st1)
       | Some x \<Rightarrow>
           let ((seen, expired), u) = x_contains nonce now (s_nonces x);
               st2 = account_expired_data_nonces expired (put_session_nonces (s_address h) x u st1)
           in Inr (seen, if seen then st2\<lparr>data_nonce_replays := Suc (data_nonce_replays st2)\<rparr>
                         else st2))"

definition pending_data_nonce_seen ::
  "('a, 'c) pending_session \<Rightarrow> bytes \<Rightarrow> time \<Rightarrow> ('a, 'c) secure_state \<Rightarrow>
   (bool \<times> ('a, 'c) secure_state) res" where
  "pending_data_nonce_seen h nonce now st =
     rbind (get_live_pending_session_handle (p_address h) h now st) (\<lambda>(l, st1).
       case l of None \<Rightarrow> Inr (False, st1)
       | Some p \<Rightarrow>
           let ((seen, expired), u) = x_contains nonce now (p_nonces p)
           in Inr (seen, account_expired_data_nonces expired
                           (put_pending_nonces (p_address h) p u st1)))"

text \<open>The counting both admissions share.\<close>

definition account_data_nonce ::
  "expiring_set_admission \<Rightarrow> ('a, 'c) secure_state \<Rightarrow> bool \<times> ('a, 'c) secure_state" where
  "account_data_nonce adm st =
     (let st1 = account_expired_data_nonces (adm_expired adm) st;
          st2 = st1\<lparr>data_nonces_capacity_evicted :=
                      data_nonces_capacity_evicted st1 + adm_capacity_evicted adm,
                    current_data_nonces :=
                      current_data_nonces st1 - int (adm_capacity_evicted adm)\<rparr>
      in if \<not> adm_accepted adm
         then (False, st2\<lparr>data_nonce_replays := Suc (data_nonce_replays st2)\<rparr>)
         else let st3 = st2\<lparr>data_nonces_accepted := Suc (data_nonces_accepted st2),
                            current_data_nonces := current_data_nonces st2 + 1\<rparr>
              in (True, st3\<lparr>peak_data_nonces :=
                              max (peak_data_nonces st3) (current_data_nonces st3)\<rparr>))"

definition accept_data_nonce ::
  "('a, 'c) secure_session \<Rightarrow> bytes \<Rightarrow> time \<Rightarrow> ('a, 'c) secure_state \<Rightarrow>
   (bool \<times> ('a, 'c) secure_state) res" where
  "accept_data_nonce h nonce now st =
     rbind (get_live_session_handle (s_address h) h now st) (\<lambda>(l, st1).
       case l of None \<Rightarrow> Inr (False, st1)
       | Some x \<Rightarrow>
           rbind (x_accept nonce now (s_nonces x)) (\<lambda>(adm, u).
             Inr (account_data_nonce adm (put_session_nonces (s_address h) x u st1))))"

definition accept_pending_data_nonce ::
  "('a, 'c) pending_session \<Rightarrow> bytes \<Rightarrow> time \<Rightarrow> ('a, 'c) secure_state \<Rightarrow>
   (bool \<times> ('a, 'c) secure_state) res" where
  "accept_pending_data_nonce h nonce now st =
     rbind (get_live_pending_session_handle (p_address h) h now st) (\<lambda>(l, st1).
       case l of None \<Rightarrow> Inr (False, st1)
       | Some p \<Rightarrow>
           rbind (x_accept nonce now (p_nonces p)) (\<lambda>(adm, u).
             Inr (account_data_nonce adm (put_pending_nonces (p_address h) p u st1))))"

end
