(* ===== verification/SecureInvariant.thy ===== *)
theory SecureInvariant
  imports SecureState
begin

section \<open>What the secure state promises\<close>

text \<open>
  The invariant of \<open>SecureState\<close> (tables, bounds, accounting), its preservation by every
  operation, the order of the tables under a monotonic clock, and the theorems on sessions
  and nonces that the listener relies on.
\<close>

subsection \<open>The invariant\<close>

definition nonces_ok :: "('a, 'c) secure_state \<Rightarrow> bytes expiring_set \<Rightarrow> bool" where
  "nonces_ok st u \<longleftrightarrow> expiring_set_wf u \<and> x_ttl u = data_nonce_ttl st \<and> x_max u = data_nonce_max st"

definition session_table :: "('a, 'c) secure_state \<Rightarrow> bool" where
  "session_table st \<longleftrightarrow> distinct (keys (sessions st)) \<and>
     (\<forall>(a, x) \<in> set (sessions st).
        s_address x = a \<and> s_ref x < next_ref st \<and> nonces_ok st (s_nonces x))"

definition pending_table :: "('a, 'c) secure_state \<Rightarrow> bool" where
  "pending_table st \<longleftrightarrow> distinct (keys (pending_sessions st)) \<and>
     (\<forall>(a, p) \<in> set (pending_sessions st).
        p_address p = a \<and> p_ref p < next_ref st \<and> nonces_ok st (p_nonces p))"

definition session_account :: "('a, 'c) secure_state \<Rightarrow> bool" where
  "session_account st \<longleftrightarrow>
     int (length (sessions st)) \<le> max_sessions st \<and>
     length (sessions st) \<le> peak_sessions st \<and> int (peak_sessions st) \<le> max_sessions st \<and>
     sessions_created st = length (sessions st) + sessions_replaced st + sessions_expired st +
       sessions_capacity_evicted st"

definition pending_account :: "('a, 'c) secure_state \<Rightarrow> bool" where
  "pending_account st \<longleftrightarrow>
     int (length (pending_sessions st)) \<le> max_pending_sessions st \<and>
     length (pending_sessions st) \<le> peak_pending_sessions st \<and>
     int (peak_pending_sessions st) \<le> max_pending_sessions st \<and>
     pending_sessions_created st = length (pending_sessions st) + pending_sessions_replaced st +
       pending_sessions_promoted st + pending_sessions_expired st +
       pending_sessions_capacity_evicted st"

definition session_nonce_total :: "('a, 'c) secure_state \<Rightarrow> nat" where
  "session_nonce_total st = sum_list (map (\<lambda>(a, x). x_len (s_nonces x)) (sessions st))"

definition pending_nonce_total :: "('a, 'c) secure_state \<Rightarrow> nat" where
  "pending_nonce_total st = sum_list (map (\<lambda>(a, p). x_len (p_nonces p)) (pending_sessions st))"

definition nonces_gone :: "('a, 'c) secure_state \<Rightarrow> nat" where
  "nonces_gone st = data_nonces_expired st + data_nonces_capacity_evicted st +
     data_nonces_session_discarded st"

text \<open>\<open>k\<close> nonces are in transit from a pending session to the session it becomes.\<close>

definition nonce_account :: "nat \<Rightarrow> ('a, 'c) secure_state \<Rightarrow> bool" where
  "nonce_account k st \<longleftrightarrow>
     current_data_nonces st = int (session_nonce_total st + pending_nonce_total st + k) \<and>
     current_data_nonces st \<le> peak_data_nonces st \<and>
     int (data_nonces_accepted st) = current_data_nonces st + int (nonces_gone st)"

definition handshake_account :: "('a, 'c) secure_state \<Rightarrow> bool" where
  "handshake_account st \<longleftrightarrow>
     expiring_set_wf (handshake_replays st) \<and>
     x_len (handshake_replays st) \<le> peak_handshake_replays st \<and>
     int (peak_handshake_replays st) \<le> x_max (handshake_replays st) \<and>
     handshake_replay_accepted st = x_len (handshake_replays st) + handshake_replay_expired st +
       handshake_replay_capacity_evicted st"

definition limits_ok :: "('a, 'c) secure_state \<Rightarrow> bool" where
  "limits_ok st \<longleftrightarrow> 1 \<le> max_sessions st \<and> 1 \<le> max_pending_sessions st \<and> 1 \<le> data_nonce_max st"

definition secure_wf :: "nat \<Rightarrow> ('a, 'c) secure_state \<Rightarrow> bool" where
  "secure_wf k st \<longleftrightarrow> session_table st \<and> pending_table st \<and> session_account st \<and>
     pending_account st \<and> nonce_account k st \<and> handshake_account st \<and> limits_ok st"

text \<open>The configuration, which no operation changes.\<close>

definition config_of ::
  "('a, 'c) secure_state \<Rightarrow> time \<times> int \<times> time \<times> int \<times> time \<times> int \<times> time" where
  "config_of st = (session_ttl st, max_sessions st, pending_session_ttl st, max_pending_sessions st,
     data_nonce_ttl st, data_nonce_max st, x_ttl (handshake_replays st))"

lemmas account_defs = session_account_def pending_account_def nonce_account_def
  handshake_account_def limits_ok_def session_nonce_total_def pending_nonce_total_def
  nonces_gone_def config_of_def
lemmas table_defs = session_table_def pending_table_def nonces_ok_def

subsection \<open>Dictionaries of counted objects\<close>

lemma sum_delete:
  "distinct (keys d) \<Longrightarrow> map_of d k = Some v \<Longrightarrow>
   sum_list (map f d) = f (k, v) + (sum_list (map f (AList.delete k d)) :: nat)"
  by (induction d) auto

lemma sum_update:
  "distinct (keys d) \<Longrightarrow>
   sum_list (map f (AList.update k v d)) = f (k, v) + (sum_list (map f (AList.delete k d)) :: nat)"
  by (induction d) auto

lemma map_update_same:
  "map_of d k = Some v \<Longrightarrow> f v' = f v \<Longrightarrow>
   map (\<lambda>p. f (snd p)) (AList.update k v' d) = map (\<lambda>p. f (snd p)) d"
  by (induction d) auto

lemma length_update_same: "map_of d k = Some v \<Longrightarrow> length (AList.update k v' d) = length d"
  by (induction d) auto

lemma keys_update_same: "map_of d k = Some v \<Longrightarrow> keys (AList.update k v' d) = keys d"
  by (induction d) auto

lemma set_update_same:
  "distinct (keys d) \<Longrightarrow> set (AList.update k v' d) = insert (k, v') {p \<in> set d. fst p \<noteq> k}"
  by (induction d) auto

subsection \<open>The building blocks\<close>

text \<open>What counting a removal, discarding and counting nonces leave alone.\<close>

lemma count_session_removal_simps [simp]:
  "sessions (count_session_removal r st) = sessions st"
  "pending_sessions (count_session_removal r st) = pending_sessions st"
  "next_ref (count_session_removal r st) = next_ref st"
  "config_of (count_session_removal r st) = config_of st"
  "session_table (count_session_removal r st) = session_table st"
  "pending_table (count_session_removal r st) = pending_table st"
  "pending_account (count_session_removal r st) = pending_account st"
  "nonce_account k (count_session_removal r st) = nonce_account k st"
  "handshake_account (count_session_removal r st) = handshake_account st"
  "limits_ok (count_session_removal r st) = limits_ok st"
  by (cases r; simp add: count_session_removal_def account_defs table_defs)+

lemma count_pending_removal_simps [simp]:
  "sessions (count_pending_removal r st) = sessions st"
  "pending_sessions (count_pending_removal r st) = pending_sessions st"
  "next_ref (count_pending_removal r st) = next_ref st"
  "config_of (count_pending_removal r st) = config_of st"
  "session_table (count_pending_removal r st) = session_table st"
  "pending_table (count_pending_removal r st) = pending_table st"
  "session_account (count_pending_removal r st) = session_account st"
  "nonce_account k (count_pending_removal r st) = nonce_account k st"
  "handshake_account (count_pending_removal r st) = handshake_account st"
  "limits_ok (count_pending_removal r st) = limits_ok st"
  by (cases r; simp add: count_pending_removal_def account_defs table_defs)+

lemma discard_simps [simp]:
  "sessions (discard_session_nonces u st) = sessions st"
  "pending_sessions (discard_session_nonces u st) = pending_sessions st"
  "next_ref (discard_session_nonces u st) = next_ref st"
  "config_of (discard_session_nonces u st) = config_of st"
  "session_table (discard_session_nonces u st) = session_table st"
  "pending_table (discard_session_nonces u st) = pending_table st"
  "session_account (discard_session_nonces u st) = session_account st"
  "pending_account (discard_session_nonces u st) = pending_account st"
  "handshake_account (discard_session_nonces u st) = handshake_account st"
  "limits_ok (discard_session_nonces u st) = limits_ok st"
  by (simp_all add: discard_session_nonces_def Let_def account_defs table_defs)

text \<open>Taking one object out of its table, with its nonces.\<close>

lemma delete_session_wf:
  assumes "secure_wf k st" and x: "map_of (sessions st) addr = Some x"
  defines "st1 \<equiv> st\<lparr>sessions := AList.delete addr (sessions st)\<rparr>"
  shows "secure_wf k (count_session_removal r (discard_session_nonces (s_nonces x) st1))"
proof -
  have w: "session_table st" "pending_table st" "session_account st" "pending_account st"
      "nonce_account k st" "handshake_account st" "limits_ok st"
    using assms(1) by (simp_all add: secure_wf_def)
  have d: "distinct (keys (sessions st))" using w(1) by (simp add: session_table_def)
  have l: "length (sessions st) = Suc (length (sessions st1))"
    unfolding st1_def by (simp add: length_delete [OF d x])
  have t: "session_nonce_total st = x_len (s_nonces x) + session_nonce_total st1"
    using sum_delete [OF d x, of "\<lambda>(a, x). x_len (s_nonces x)"]
    by (simp add: session_nonce_total_def st1_def)
  have "session_table st1" "pending_table st1" "pending_account st1" "handshake_account st1"
      "limits_ok st1"
    using w by (auto simp: st1_def table_defs account_defs distinct_keys_delete set_delete)
  moreover have "session_account (count_session_removal r (discard_session_nonces (s_nonces x) st1))"
    using w(3) l
    by (cases r) (simp_all add: count_session_removal_def discard_session_nonces_def Let_def
        session_account_def st1_def)
  moreover have "nonce_account k (discard_session_nonces (s_nonces x) st1)"
    using w(5) t
    by (simp add: discard_session_nonces_def x_discard_all_def Let_def nonce_account_def nonces_gone_def
        session_nonce_total_def pending_nonce_total_def st1_def)
  ultimately show ?thesis by (simp add: secure_wf_def)
qed

lemma delete_pending_wf:
  assumes "secure_wf k st" and x: "map_of (pending_sessions st) addr = Some p"
  defines "st1 \<equiv> st\<lparr>pending_sessions := AList.delete addr (pending_sessions st)\<rparr>"
  shows "secure_wf k (count_pending_removal r (discard_session_nonces (p_nonces p) st1))"
proof -
  have w: "session_table st" "pending_table st" "session_account st" "pending_account st"
      "nonce_account k st" "handshake_account st" "limits_ok st"
    using assms(1) by (simp_all add: secure_wf_def)
  have d: "distinct (keys (pending_sessions st))" using w(2) by (simp add: pending_table_def)
  have l: "length (pending_sessions st) = Suc (length (pending_sessions st1))"
    unfolding st1_def by (simp add: length_delete [OF d x])
  have t: "pending_nonce_total st = x_len (p_nonces p) + pending_nonce_total st1"
    using sum_delete [OF d x, of "\<lambda>(a, x). x_len (p_nonces x)"]
    by (simp add: pending_nonce_total_def st1_def)
  have "session_table st1" "pending_table st1" "session_account st1" "handshake_account st1"
      "limits_ok st1"
    using w by (auto simp: st1_def table_defs account_defs distinct_keys_delete set_delete)
  moreover have "pending_account (count_pending_removal r (discard_session_nonces (p_nonces p) st1))"
    using w(4) l
    by (cases r) (simp_all add: count_pending_removal_def discard_session_nonces_def Let_def
        pending_account_def st1_def)
  moreover have "nonce_account k (discard_session_nonces (p_nonces p) st1)"
    using w(5) t
    by (simp add: discard_session_nonces_def x_discard_all_def Let_def nonce_account_def nonces_gone_def
        session_nonce_total_def pending_nonce_total_def st1_def)
  ultimately show ?thesis by (simp add: secure_wf_def)
qed

subsection \<open>Removing and expiring\<close>

text \<open>
  The tables are in order of last activity and of creation, with no reading after \<open>t\<close>.
\<close>

definition timed_tables :: "time \<Rightarrow> ('a, 'c) secure_state \<Rightarrow> bool" where
  "timed_tables t st \<longleftrightarrow>
     sorted (map (\<lambda>p. s_last_seen (snd p)) (sessions st)) \<and>
     (\<forall>(a, x) \<in> set (sessions st). s_last_seen x \<le> t) \<and>
     sorted (map (\<lambda>p. p_created_at (snd p)) (pending_sessions st)) \<and>
     (\<forall>(a, p) \<in> set (pending_sessions st). p_created_at p \<le> t)"

definition secure_inv :: "nat \<Rightarrow> time \<Rightarrow> ('a, 'c) secure_state \<Rightarrow> bool" where
  "secure_inv k t st \<longleftrightarrow> secure_wf k st \<and> timed_tables t st"

definition same_core :: "('a, 'c) secure_state \<Rightarrow> ('a, 'c) secure_state \<Rightarrow> bool" where
  "same_core st st' \<longleftrightarrow> next_ref st' = next_ref st \<and> config_of st' = config_of st \<and>
     handshake_replays st' = handshake_replays st"

lemma same_core_refl [simp]: "same_core st st"
  by (simp add: same_core_def)

lemma same_core_trans: "same_core st st1 \<Longrightarrow> same_core st1 st2 \<Longrightarrow> same_core st st2"
  by (simp add: same_core_def)

lemma config_eqD:
  "config_of st' = config_of st \<Longrightarrow> session_ttl st' = session_ttl st \<and> max_sessions st' = max_sessions st \<and>
     pending_session_ttl st' = pending_session_ttl st \<and>
     max_pending_sessions st' = max_pending_sessions st \<and>
     data_nonce_ttl st' = data_nonce_ttl st \<and> data_nonce_max st' = data_nonce_max st"
  by (simp add: config_of_def)

lemma timed_tables_mono: "timed_tables t st \<Longrightarrow> t \<le> t' \<Longrightarrow> timed_tables t' st"
  by (fastforce simp: timed_tables_def)

lemma secure_inv_mono: "secure_inv k t st \<Longrightarrow> t \<le> t' \<Longrightarrow> secure_inv k t' st"
  by (auto simp: secure_inv_def intro: timed_tables_mono)

lemma sorted_delete: "sorted (map f d) \<Longrightarrow> sorted (map f (AList.delete k d))"
  by (simp add: AList.delete_eq sorted_filter)

lemma timed_tables_delete_session:
  assumes "timed_tables t st" and "sessions st' = AList.delete a (sessions st)"
    and "pending_sessions st' = pending_sessions st"
  shows "timed_tables t st'"
  using assms by (auto simp: timed_tables_def sorted_delete set_delete)

lemma timed_tables_delete_pending:
  assumes "timed_tables t st" and "pending_sessions st' = AList.delete a (pending_sessions st)"
    and "sessions st' = sessions st"
  shows "timed_tables t st'"
  using assms by (auto simp: timed_tables_def sorted_delete set_delete)

lemma remove_session_inv:
  assumes "secure_inv k t st" and "addr \<in> set (keys (sessions st))"
  obtains st' where "remove_session addr r st = Inr st'" "secure_inv k t st'"
    "sessions st' = AList.delete addr (sessions st)" "pending_sessions st' = pending_sessions st"
    "same_core st st'"
proof -
  obtain x where x: "map_of (sessions st) addr = Some x" using assms(2) unfolding keys_map_of by blast
  let ?st = "count_session_removal r (discard_session_nonces (s_nonces x)
    (st\<lparr>sessions := AList.delete addr (sessions st)\<rparr>))"
  have "secure_wf k ?st"
    using assms(1) x by (intro delete_session_wf) (simp_all add: secure_inv_def)
  moreover have "timed_tables t ?st"
    using assms(1) unfolding secure_inv_def
    by (elim conjE timed_tables_delete_session) simp_all
  moreover have "same_core st ?st"
    by (cases r) (simp_all add: same_core_def config_of_def count_session_removal_def
        discard_session_nonces_def Let_def)
  ultimately show thesis
    using x by (intro that [of ?st]) (simp_all add: remove_session_def secure_inv_def)
qed

lemma remove_pending_inv:
  assumes "secure_inv k t st" and "addr \<in> set (keys (pending_sessions st))"
  obtains st' where "remove_pending_session addr r st = Inr st'" "secure_inv k t st'"
    "pending_sessions st' = AList.delete addr (pending_sessions st)" "sessions st' = sessions st"
    "same_core st st'"
proof -
  obtain p where p: "map_of (pending_sessions st) addr = Some p"
    using assms(2) unfolding keys_map_of by blast
  let ?st = "count_pending_removal r (discard_session_nonces (p_nonces p)
    (st\<lparr>pending_sessions := AList.delete addr (pending_sessions st)\<rparr>))"
  have "secure_wf k ?st"
    using assms(1) p by (intro delete_pending_wf) (simp_all add: secure_inv_def)
  moreover have "timed_tables t ?st"
    using assms(1) unfolding secure_inv_def
    by (elim conjE timed_tables_delete_pending) simp_all
  moreover have "same_core st ?st"
    by (cases r) (simp_all add: same_core_def config_of_def count_pending_removal_def
        discard_session_nonces_def Let_def)
  ultimately show thesis
    using p by (intro that [of ?st]) (simp_all add: remove_pending_session_def secure_inv_def)
qed

lemma cleanup_sessions_inv:
  assumes "secure_inv k t st"
  shows "\<exists>as st'. cleanup_expired_sessions now st = Inr (as, st') \<and> secure_inv k t st' \<and>
    sessions st' = dropWhile (\<lambda>p. session_ttl st \<le> now - s_last_seen (snd p)) (sessions st) \<and>
    pending_sessions st' = pending_sessions st \<and> same_core st st'"
  using assms
proof (induction "sessions st" arbitrary: st)
  case Nil
  then show ?case by (simp add: cleanup_expired_sessions.simps [of now st])
next
  case (Cons p ss)
  obtain addr x where p: "p = (addr, x)" by force
  note s = Cons.hyps(2) [symmetric, unfolded p]
  show ?case
  proof (cases "now - s_last_seen x < session_ttl st")
    case True
    then show ?thesis
      using Cons.prems s by (simp add: cleanup_expired_sessions.simps [of now st])
  next
    case False
    have d: "AList.delete addr (sessions st) = ss"
      using Cons.prems s by (simp add: secure_inv_def secure_wf_def session_table_def)
    have "addr \<in> set (keys (sessions st))" using s by simp
    then obtain st1 where st1: "remove_session addr RExpired st = Inr st1" "secure_inv k t st1"
        "sessions st1 = ss" "pending_sessions st1 = pending_sessions st" "same_core st st1"
      using remove_session_inv [OF Cons.prems, of addr RExpired] d by metis
    moreover have "session_ttl st1 = session_ttl st"
      using st1(5) by (simp add: same_core_def config_of_def)
    ultimately show ?thesis
      using Cons.hyps(1) [OF st1(3) [symmetric] st1(2)] False s
      by (auto simp: cleanup_expired_sessions.simps [of now st] intro: same_core_trans)
  qed
qed

lemma cleanup_pending_inv:
  assumes "secure_inv k t st"
  shows "\<exists>as st'. cleanup_expired_pending_sessions now st = Inr (as, st') \<and> secure_inv k t st' \<and>
    pending_sessions st' =
      dropWhile (\<lambda>p. p_created_at (snd p) + pending_session_ttl st \<le> now) (pending_sessions st) \<and>
    sessions st' = sessions st \<and> same_core st st'"
  using assms
proof (induction "pending_sessions st" arbitrary: st)
  case Nil
  then show ?case by (simp add: cleanup_expired_pending_sessions.simps [of now st])
next
  case (Cons q ps)
  obtain addr p where q: "q = (addr, p)" by force
  note s = Cons.hyps(2) [symmetric, unfolded q]
  show ?case
  proof (cases "now < p_created_at p + pending_session_ttl st")
    case True
    then show ?thesis
      using Cons.prems s by (simp add: cleanup_expired_pending_sessions.simps [of now st])
  next
    case False
    have d: "AList.delete addr (pending_sessions st) = ps"
      using Cons.prems s by (simp add: secure_inv_def secure_wf_def pending_table_def)
    have "addr \<in> set (keys (pending_sessions st))" using s by simp
    then obtain st1 where st1: "remove_pending_session addr RExpired st = Inr st1"
        "secure_inv k t st1" "pending_sessions st1 = ps" "sessions st1 = sessions st"
        "same_core st st1"
      using remove_pending_inv [OF Cons.prems, of addr RExpired] d by metis
    moreover have "pending_session_ttl st1 = pending_session_ttl st"
      using st1(5) by (simp add: same_core_def config_of_def)
    ultimately show ?thesis
      using Cons.hyps(1) [OF st1(3) [symmetric] st1(2)] False s
      by (auto simp: cleanup_expired_pending_sessions.simps [of now st] intro: same_core_trans)
  qed
qed

subsection \<open>Making room and adding\<close>

lemma session_room_inv:
  assumes "secure_inv k t st"
  obtains st' where "make_session_room addr st = Inr st'" "secure_inv k t st'"
    "addr \<notin> set (keys (sessions st'))" "int (length (sessions st')) < max_sessions st"
    "set (sessions st') \<subseteq> set (sessions st)" "pending_sessions st' = pending_sessions st"
    "same_core st st'"
proof -
  have w: "distinct (keys (sessions st))" "int (length (sessions st)) \<le> max_sessions st"
      "1 \<le> max_sessions st"
    using assms by (simp_all add: secure_inv_def secure_wf_def session_table_def session_account_def
        limits_ok_def)
  show thesis
  proof (cases "addr \<in> set (keys (sessions st))")
    case True
    obtain st' where st': "remove_session addr RReplaced st = Inr st'" "secure_inv k t st'"
        "sessions st' = AList.delete addr (sessions st)" "pending_sessions st' = pending_sessions st"
        "same_core st st'"
      using remove_session_inv [OF assms True] by metis
    obtain x where "map_of (sessions st) addr = Some x" using True unfolding keys_map_of by blast
    from length_delete [OF w(1) this] w(2) st'(3)
    show thesis
      using True st'
      by (intro that [of st']) (auto simp: make_session_room_def set_delete)
  next
    case fresh: False
    show thesis
    proof (cases "max_sessions st \<le> int (length (sessions st))")
      case True
      with w(3) obtain a x ss where s: "sessions st = (a, x) # ss"
        by (cases "sessions st") auto
      have "a \<in> set (keys (sessions st))" using s by simp
      then obtain st' where st': "remove_session a RCapacity st = Inr st'" "secure_inv k t st'"
          "sessions st' = AList.delete a (sessions st)" "pending_sessions st' = pending_sessions st"
          "same_core st st'"
        using remove_session_inv [OF assms, of a RCapacity] by metis
      have "sessions st' = ss" using st'(3) s w(1) by simp
      then show thesis
        using fresh True s st' w(2)
        by (intro that [of st']) (auto simp: make_session_room_def)
    next
      case False
      then show thesis using fresh assms by (intro that [of st]) (auto simp: make_session_room_def)
    qed
  qed
qed

lemma pending_room_inv:
  assumes "secure_inv k t st"
  obtains st' where "make_pending_room addr st = Inr st'" "secure_inv k t st'"
    "addr \<notin> set (keys (pending_sessions st'))"
    "int (length (pending_sessions st')) < max_pending_sessions st"
    "set (pending_sessions st') \<subseteq> set (pending_sessions st)" "sessions st' = sessions st"
    "same_core st st'"
proof -
  have w: "distinct (keys (pending_sessions st))"
      "int (length (pending_sessions st)) \<le> max_pending_sessions st" "1 \<le> max_pending_sessions st"
    using assms by (simp_all add: secure_inv_def secure_wf_def pending_table_def pending_account_def
        limits_ok_def)
  show thesis
  proof (cases "addr \<in> set (keys (pending_sessions st))")
    case True
    obtain st' where st': "remove_pending_session addr RReplaced st = Inr st'" "secure_inv k t st'"
        "pending_sessions st' = AList.delete addr (pending_sessions st)" "sessions st' = sessions st"
        "same_core st st'"
      using remove_pending_inv [OF assms True] by metis
    obtain p where "map_of (pending_sessions st) addr = Some p"
      using True unfolding keys_map_of by blast
    from length_delete [OF w(1) this] w(2) st'(3)
    show thesis
      using True st'
      by (intro that [of st']) (auto simp: make_pending_room_def set_delete)
  next
    case fresh: False
    show thesis
    proof (cases "max_pending_sessions st \<le> int (length (pending_sessions st))")
      case True
      with w(3) obtain a p ps where s: "pending_sessions st = (a, p) # ps"
        by (cases "pending_sessions st") auto
      have "a \<in> set (keys (pending_sessions st))" using s by simp
      then obtain st' where st': "remove_pending_session a RCapacity st = Inr st'"
          "secure_inv k t st'" "pending_sessions st' = AList.delete a (pending_sessions st)"
          "sessions st' = sessions st" "same_core st st'"
        using remove_pending_inv [OF assms, of a RCapacity] by metis
      have "pending_sessions st' = ps" using st'(3) s w(1) by simp
      then show thesis
        using fresh True s st' w(2)
        by (intro that [of st']) (auto simp: make_pending_room_def)
    next
      case False
      then show thesis using fresh assms by (intro that [of st]) (auto simp: make_pending_room_def)
    qed
  qed
qed

lemma timed_snoc:
  assumes "sorted (map f d)" and "\<forall>p \<in> set d. f p \<le> t" and "t \<le> f q"
  shows "sorted (map f (d @ [q]))"
  using assms by (auto simp: sorted_append intro: order_trans)

text \<open>Adding a session takes its nonces out of transit.\<close>

lemma add_session_inv:
  assumes "secure_inv (x_len u) t st" and "t \<le> now" and "addr \<notin> set (keys (sessions st))"
    and "int (length (sessions st)) < max_sessions st" and "nonces_ok st u"
    and "add_session addr station c2s s2c u now st = (x, st')"
  shows "secure_inv 0 now st'"
    and "sessions st' = sessions st @ [(addr, x)]" "pending_sessions st' = pending_sessions st"
    and "next_ref st' = Suc (next_ref st)" "config_of st' = config_of st"
    and "handshake_replays st' = handshake_replays st"
    and "s_ref x = next_ref st" "s_nonces x = u" "s_address x = addr" "s_station x = station"
    and "s_c2s x = c2s" "s_s2c x = s2c"
proof -
  show st': "sessions st' = sessions st @ [(addr, x)]" "pending_sessions st' = pending_sessions st"
      "next_ref st' = Suc (next_ref st)" "config_of st' = config_of st"
      "handshake_replays st' = handshake_replays st"
    and x: "s_ref x = next_ref st" "s_nonces x = u" "s_address x = addr" "s_station x = station"
      "s_c2s x = c2s" "s_s2c x = s2c"
    using assms(3,6) by (auto simp: add_session_def Let_def config_of_def)
  have last: "s_last_seen x = now" using assms(6) by (auto simp: add_session_def Let_def)
  have w: "session_table st" "pending_table st" "session_account st" "pending_account st"
      "nonce_account (x_len u) st" "handshake_account st" "limits_ok st"
    using assms(1) by (simp_all add: secure_inv_def secure_wf_def)
  have e: "st' = st\<lparr>sessions := sessions st @ [(addr, x)], next_ref := Suc (next_ref st),
      sessions_created := Suc (sessions_created st),
      peak_sessions := max (peak_sessions st) (Suc (length (sessions st)))\<rparr>"
    using assms(3,6) by (auto simp: add_session_def Let_def)
  have "session_table st'"
    using w(1) assms(3,5) x unfolding e by (auto simp: table_defs)
  moreover have "pending_table st'" using w(2) unfolding e by (auto simp: table_defs)
  moreover have "session_account st'"
    using w(3) assms(4) unfolding e by (simp add: session_account_def max_def)
  moreover have "pending_account st'" using w(4) unfolding e by (simp add: pending_account_def)
  moreover have "nonce_account 0 st'"
    using w(5) x(2) unfolding e by (simp add: nonce_account_def session_nonce_total_def
        pending_nonce_total_def nonces_gone_def)
  moreover have "handshake_account st'" using w(6) unfolding e by (simp add: handshake_account_def)
  moreover have "limits_ok st'" using w(7) unfolding e by (simp add: limits_ok_def)
  moreover have "timed_tables now st'"
    using assms(1,2) st'(1,2) last timed_snoc [of "\<lambda>p. s_last_seen (snd p)" "sessions st" t "(addr, x)"]
    by (fastforce simp: secure_inv_def timed_tables_def)
  ultimately show "secure_inv 0 now st'" by (simp add: secure_inv_def secure_wf_def)
qed

subsection \<open>Nonce sets over time\<close>

definition nonces_evolve :: "time \<Rightarrow> bytes expiring_set \<Rightarrow> bytes expiring_set \<Rightarrow> bool" where
  "nonces_evolve now u u' \<longleftrightarrow> u' = u \<or> (\<exists>n. x_cleanup_expired now u = (n, u')) \<or>
     (\<exists>k a. x_accept k now u = Inr (a, u'))"

text \<open>The set remembers that \<open>k\<close> was admitted at \<open>t\<close>, with at most \<open>n\<close> admissions since.\<close>

definition remembers :: "bytes expiring_set \<Rightarrow> bytes \<Rightarrow> time \<Rightarrow> nat \<Rightarrow> bool" where
  "remembers u k t n \<longleftrightarrow> (\<exists>xs ys. x_view u = xs @ (k, t) # ys \<and> length ys \<le> n)"

lemma nonces_evolve_ok:
  assumes "nonces_evolve now u u'" and "expiring_set_wf u"
  shows "expiring_set_wf u'" "x_ttl u' = x_ttl u" "x_max u' = x_max u"
proof -
  have "expiring_set_wf u' \<and> x_ttl u' = x_ttl u \<and> x_max u' = x_max u"
    using assms(1) unfolding nonces_evolve_def
  proof (elim disjE exE)
    fix n assume "x_cleanup_expired now u = (n, u')"
    then show ?thesis using x_cleanup_wf [OF assms(2)] by blast
  next
    fix k a assume "x_accept k now u = Inr (a, u')"
    then show ?thesis using x_accept_spec [OF assms(2), of k now] by (metis prod.inject sum.inject(2))
  qed (use assms(2) in simp)
  then show "expiring_set_wf u'" "x_ttl u' = x_ttl u" "x_max u' = x_max u" by auto
qed

lemma remembers_evolve:
  assumes "nonces_evolve now u u'" and "expiring_set_wf u" and "remembers u k t n"
    and "now - t < x_ttl u" and "int n + 1 < x_max u"
  shows "remembers u' k t (Suc n)"
proof -
  obtain xs ys where v: "x_view u = xs @ (k, t) # ys" "length ys \<le> n"
    using assms(3) by (auto simp: remembers_def)
  from assms(1) show ?thesis unfolding nonces_evolve_def
  proof (elim disjE exE)
    assume "u' = u"
    then show ?thesis using v by (auto simp: remembers_def intro: le_SucI)
  next
    fix m assume "x_cleanup_expired now u = (m, u')"
    then have "x_view u' = fifo_live (x_ttl u) now (x_view u)" by (rule x_view_cleanup [OF assms(2)])
    with fifo_live_keeps [OF assms(4), of xs k ys] v show ?thesis
      by (auto simp: remembers_def intro: le_SucI)
  next
    fix k' a assume a: "x_accept k' now u = Inr (a, u')"
    have "fifo_admit (x_cap u) (x_ttl u) k' now (x_view u) = (adm_accepted a, x_view u')"
      using x_accept_spec [OF assms(2), of k' now] a by (metis prod.inject sum.inject(2))
    moreover have "length ys + (if adm_accepted a then 1 else 0) < nat (x_max u)"
      using v(2) assms(5) by auto
    ultimately obtain xs' ys' where "x_view u' = xs' @ (k, t) # ys'"
        "length ys' = length ys + (if adm_accepted a then 1 else 0)"
      using fifo_admit_keeps [OF _ v(1) assms(4)] by (force simp: x_cap_def)
    with v(2) show ?thesis
      unfolding remembers_def by (intro exI [of _ xs'] exI [of _ ys']) simp
  qed
qed

lemma remembers_refuses:
  assumes "remembers u k t n" and "expiring_set_wf u" and "now - t < x_ttl u"
  shows "\<exists>a u'. x_accept k now u = Inr (a, u') \<and> \<not> adm_accepted a"
    and "\<exists>m u'. x_contains k now u = ((True, m), u')"
proof -
  obtain xs ys where "x_view u = xs @ (k, t) # ys" using assms(1) by (auto simp: remembers_def)
  then have l: "k \<in> set (keys (fifo_live (x_ttl u) now (x_view u)))"
    using fifo_live_keeps [OF assms(3), of xs k ys] by auto
  obtain a u' where a: "x_accept k now u = Inr (a, u')"
      "fifo_admit (x_cap u) (x_ttl u) k now (x_view u) = (adm_accepted a, x_view u')"
    using x_accept_spec [OF assms(2), of k now] by metis
  have "\<not> adm_accepted a" using a(2) l by (auto simp: fifo_admit_def Let_def split: if_splits)
  with a(1) show "\<exists>a u'. x_accept k now u = Inr (a, u') \<and> \<not> adm_accepted a" by blast
  obtain b m u'' where c: "x_contains k now u = ((b, m), u'')" by (cases "x_contains k now u") auto
  with x_contains_spec [OF assms(2) c] l show "\<exists>m u'. x_contains k now u = ((True, m), u')" by auto
qed

lemma accepted_remembered:
  assumes "x_accept k now u = Inr (a, u')" and "adm_accepted a" and "expiring_set_wf u"
  shows "remembers u' k now 0"
proof -
  have "x_admit k now u = Inr (True, u')" using assms(1,2) by (auto simp: x_admit_Inr)
  from xs.accepted_entry [OF assms(3) this] show ?thesis by (auto simp: remembers_def)
qed

subsection \<open>How a state may change in one call\<close>

definition evolves :: "time \<Rightarrow> ('a, 'c) secure_state \<Rightarrow> ('a, 'c) secure_state \<Rightarrow> bool" where
  "evolves now st st' \<longleftrightarrow> config_of st' = config_of st \<and> next_ref st \<le> next_ref st' \<and>
     nonces_evolve now (handshake_replays st) (handshake_replays st') \<and>
     (\<forall>(a, x') \<in> set (sessions st'). next_ref st \<le> s_ref x' \<or>
        (\<exists>x. (a, x) \<in> set (sessions st) \<and> s_ref x = s_ref x' \<and>
             nonces_evolve now (s_nonces x) (s_nonces x')))"

lemma nonces_evolve_refl [simp]: "nonces_evolve now u u"
  by (simp add: nonces_evolve_def)

lemma evolves_sub:
  "same_core st st' \<Longrightarrow> set (sessions st') \<subseteq> set (sessions st) \<Longrightarrow> evolves now st st'"
  by (fastforce simp: evolves_def same_core_def)

text \<open>First objects leave, then the call does its work.\<close>

lemma evolves_after:
  "same_core st st1 \<Longrightarrow> set (sessions st1) \<subseteq> set (sessions st) \<Longrightarrow> evolves now st1 st2 \<Longrightarrow>
   evolves now st st2"
  unfolding evolves_def same_core_def by (fastforce split: prod.splits)

lemma evolves_add:
  "config_of st' = config_of st \<Longrightarrow> next_ref st' = Suc (next_ref st) \<Longrightarrow>
   handshake_replays st' = handshake_replays st \<Longrightarrow> sessions st' = sessions st @ [(a, x)] \<Longrightarrow>
   s_ref x = next_ref st \<Longrightarrow> evolves now st st'"
  by (fastforce simp: evolves_def)

subsection \<open>The calls\<close>

text \<open>
  Each call, made at a reading of the clock not before the last one, returns (no call raises),
  preserves the invariant and changes the nonce sets as \<open>evolves\<close> says.
\<close>

lemma set_dropWhile: "set (dropWhile P xs) \<subseteq> set xs"
  by (auto dest: set_dropWhileD)

lemma cleanup_sessions_call:
  assumes "secure_inv k t st" and "t \<le> now"
  obtains as st' where "cleanup_expired_sessions now st = Inr (as, st')" "secure_inv k now st'"
    "evolves now st st'" "same_core st st'"
    "sessions st' = dropWhile (\<lambda>p. session_ttl st \<le> now - s_last_seen (snd p)) (sessions st)"
    "pending_sessions st' = pending_sessions st"
  using cleanup_sessions_inv [OF assms(1), of now] secure_inv_mono [OF _ assms(2)] evolves_sub
    set_dropWhile by metis

lemma cleanup_pending_call:
  assumes "secure_inv k t st" and "t \<le> now"
  obtains as st' where "cleanup_expired_pending_sessions now st = Inr (as, st')"
    "secure_inv k now st'" "evolves now st st'" "same_core st st'"
    "pending_sessions st' =
       dropWhile (\<lambda>p. p_created_at (snd p) + pending_session_ttl st \<le> now) (pending_sessions st)"
    "sessions st' = sessions st"
  using cleanup_pending_inv [OF assms(1), of now] secure_inv_mono [OF _ assms(2)] evolves_sub
    subset_refl by metis

lemma fresh_nonces:
  assumes "limits_ok st"
  shows "nonces_ok st (expiring_set (data_nonce_ttl st) (data_nonce_max st))"
  using assms expiring_set_init [of "data_nonce_max st" "data_nonce_ttl st"]
  by (simp add: nonces_ok_def limits_ok_def) (simp add: expiring_set_def)

lemma fresh_len: "x_len (expiring_set ttl mx) = 0"
  by (simp add: expiring_set_def x_len_def)

lemma install_session_call:
  assumes "secure_inv 0 t st" and "t \<le> now"
  obtains x st' where "install_session addr station c2s s2c now st = Inr (x, st')"
    "secure_inv 0 now st'" "evolves now st st'"
proof -
  obtain as st1 where st1: "cleanup_expired_sessions now st = Inr (as, st1)" "secure_inv 0 now st1"
      "same_core st st1"
      "sessions st1 = dropWhile (\<lambda>p. session_ttl st \<le> now - s_last_seen (snd p)) (sessions st)"
    using cleanup_sessions_call [OF assms] by metis
  obtain st2 where st2: "make_session_room addr st1 = Inr st2" "secure_inv 0 now st2"
      "addr \<notin> set (keys (sessions st2))" "int (length (sessions st2)) < max_sessions st1"
      "set (sessions st2) \<subseteq> set (sessions st1)" "same_core st1 st2"
    using session_room_inv [OF st1(2), of addr] by metis
  let ?u = "expiring_set (data_nonce_ttl st2) (data_nonce_max st2) :: bytes expiring_set"
  have u: "nonces_ok st2 ?u" "x_len ?u = 0"
    using st2(2) by (simp_all add: fresh_nonces fresh_len secure_inv_def secure_wf_def)
  obtain x st' where a: "add_session addr station c2s s2c ?u now st2 = (x, st')" by force
  have m: "int (length (sessions st2)) < max_sessions st2"
    using st2(4,6) by (simp add: same_core_def config_of_def)
  note add = add_session_inv [where t = now, OF _ order_refl st2(3) m u(1) a, unfolded u(2), OF st2(2)]
  have "evolves now st2 st'" using add by (intro evolves_add) auto
  moreover have "set (sessions st2) \<subseteq> set (sessions st)"
    using st2(5) st1(4) set_dropWhile by (metis subset_trans)
  ultimately have "evolves now st st'"
    using evolves_after same_core_trans [OF st1(3) st2(6)] by blast
  then show thesis
    using st1(1) st2(1) a add(1) by (intro that [of x st']) (simp_all add: install_session_def)
qed

lemma install_pending_call:
  assumes "secure_inv 0 t st" and "t \<le> now"
  obtains p st' where "install_pending_session addr station c2s s2c now st = Inr (p, st')"
    "secure_inv 0 now st'" "evolves now st st'" "sessions st' = sessions st"
    "map_of (pending_sessions st') addr = Some p" "p_station p = station" "p_c2s p = c2s"
    "p_s2c p = s2c" "set (pending_sessions st') \<subseteq> insert (addr, p) (set (pending_sessions st))"
proof -
  obtain as st1 where st1: "cleanup_expired_pending_sessions now st = Inr (as, st1)"
      "secure_inv 0 now st1" "same_core st st1" "sessions st1 = sessions st"
      "pending_sessions st1 =
         dropWhile (\<lambda>p. p_created_at (snd p) + pending_session_ttl st \<le> now) (pending_sessions st)"
    using cleanup_pending_call [OF assms] by metis
  obtain st2 where st2: "make_pending_room addr st1 = Inr st2" "secure_inv 0 now st2"
      "addr \<notin> set (keys (pending_sessions st2))"
      "int (length (pending_sessions st2)) < max_pending_sessions st1"
      "set (pending_sessions st2) \<subseteq> set (pending_sessions st1)" "sessions st2 = sessions st1"
      "same_core st1 st2"
    using pending_room_inv [OF st1(2), of addr] by metis
  let ?u = "expiring_set (data_nonce_ttl st2) (data_nonce_max st2) :: bytes expiring_set"
  let ?p = "\<lparr>p_ref = next_ref st2, p_address = addr, p_station = station, p_c2s = c2s,
    p_s2c = s2c, p_created_at = now, p_nonces = ?u\<rparr>"
  let ?st = "st2\<lparr>pending_sessions := pending_sessions st2 @ [(addr, ?p)],
    next_ref := Suc (next_ref st2), pending_sessions_created := Suc (pending_sessions_created st2),
    peak_pending_sessions := max (peak_pending_sessions st2) (Suc (length (pending_sessions st2)))\<rparr>"
  have w: "session_table st2" "pending_table st2" "session_account st2" "pending_account st2"
      "nonce_account 0 st2" "handshake_account st2" "limits_ok st2" "timed_tables now st2"
    using st2(2) by (simp_all add: secure_inv_def secure_wf_def)
  have u: "nonces_ok st2 ?u" "x_len ?u = 0"
    using w(7) by (simp_all add: fresh_nonces fresh_len)
  have m: "int (length (pending_sessions st2)) < max_pending_sessions st2"
    using st2(4,7) by (simp add: same_core_def config_of_def)
  have "session_table ?st" using w(1) by (auto simp: table_defs)
  moreover have "pending_table ?st" using w(2) u(1) st2(3) by (auto simp: table_defs)
  moreover have "session_account ?st" using w(3) by (simp add: session_account_def)
  moreover have "pending_account ?st" using w(4) m by (simp add: pending_account_def max_def)
  moreover have "nonce_account 0 ?st" using w(5) u(2)
    by (simp add: nonce_account_def session_nonce_total_def pending_nonce_total_def nonces_gone_def)
  moreover have "handshake_account ?st" using w(6) by (simp add: handshake_account_def)
  moreover have "limits_ok ?st" using w(7) by (simp add: limits_ok_def)
  moreover have "timed_tables now ?st"
    using w(8) timed_snoc [of "\<lambda>p. p_created_at (snd p)" "pending_sessions st2" now "(addr, ?p)"]
    by (fastforce simp: timed_tables_def)
  ultimately have "secure_inv 0 now ?st" by (simp add: secure_inv_def secure_wf_def)
  moreover have "evolves now st ?st"
    using st1(3,4) st2(6,7) by (fastforce simp: evolves_def same_core_def config_of_def)
  moreover have "set (pending_sessions st2) \<subseteq> set (pending_sessions st)"
    using st2(5) st1(5) set_dropWhile by (metis subset_trans)
  moreover have "map_of (pending_sessions ?st) addr = Some ?p"
    using st2(3) by (simp add: map_of_keys [symmetric, simplified] map_add_def)
  moreover have "install_pending_session addr station c2s s2c now st = Inr (?p, ?st)"
    using st1(1) st2(1,3) by (simp add: install_pending_session_def Let_def)
  ultimately show thesis
    using st1(4) st2(6) by (intro that [of ?p ?st]) auto
qed

lemma held_sessionD:
  "held_session a h st = Some x \<Longrightarrow> map_of (sessions st) a = Some x \<and> s_ref x = s_ref h"
  by (auto simp: held_session_def split: option.splits if_splits)

lemma held_pendingD:
  "held_pending a h st = Some p \<Longrightarrow> map_of (pending_sessions st) a = Some p \<and> p_ref p = p_ref h"
  by (auto simp: held_pending_def split: option.splits if_splits)

lemma live_session_call:
  assumes "secure_inv 0 t st" and "t \<le> now"
  obtains l st' where "get_live_session_handle a h now st = Inr (l, st')" "secure_inv 0 now st'"
    "same_core st st'" "set (sessions st') \<subseteq> set (sessions st)"
    "pending_sessions st' = pending_sessions st"
    "\<And>x. l = Some x \<Longrightarrow> map_of (sessions st') a = Some x \<and> s_ref x = s_ref h \<and>
       now - s_last_seen x < session_ttl st"
proof (cases "held_session a h st = None")
  case True
  then show thesis
    using assms by (intro that [of None st]) (auto simp: get_live_session_handle_def
        intro: secure_inv_mono)
next
  case False
  obtain as st1 where st1: "cleanup_expired_sessions now st = Inr (as, st1)" "secure_inv 0 now st1"
      "same_core st st1"
      "sessions st1 = dropWhile (\<lambda>p. session_ttl st \<le> now - s_last_seen (snd p)) (sessions st)"
      "pending_sessions st1 = pending_sessions st"
    using cleanup_sessions_call [OF assms] by metis
  have "sorted (map (\<lambda>p. s_last_seen (snd p)) (sessions st))"
    using assms(1) by (simp add: secure_inv_def timed_tables_def)
  then have f: "sessions st1 = filter (\<lambda>p. now - s_last_seen (snd p) < session_ttl st) (sessions st)"
    unfolding st1(4)
    by (subst dropWhile_eq_filter [where f = "\<lambda>p. s_last_seen (snd p)"]) (auto intro: filter_cong)
  have "get_live_session_handle a h now st = Inr (held_session a h st1, st1)"
    using False st1(1) by (simp add: get_live_session_handle_def del: not_None_eq)
  moreover have "map_of (sessions st1) a = Some x \<and> s_ref x = s_ref h \<and>
      now - s_last_seen x < session_ttl st" if "held_session a h st1 = Some x" for x
  proof -
    have "map_of (sessions st1) a = Some x" "s_ref x = s_ref h" using held_sessionD [OF that] by auto
    moreover from this(1) have "(a, x) \<in> set (sessions st1)" by (rule map_of_SomeD)
    ultimately show ?thesis using f by simp
  qed
  ultimately show thesis
    using st1(2,3,5) f by (intro that [of "held_session a h st1" st1]) auto
qed

lemma live_pending_call:
  assumes "secure_inv 0 t st" and "t \<le> now"
  obtains l st' where "get_live_pending_session_handle a h now st = Inr (l, st')"
    "secure_inv 0 now st'" "same_core st st'" "sessions st' = sessions st"
    "set (pending_sessions st') \<subseteq> set (pending_sessions st)"
    "\<And>p. l = Some p \<Longrightarrow> map_of (pending_sessions st') a = Some p \<and> p_ref p = p_ref h"
proof (cases "held_pending a h st = None")
  case True
  then show thesis
    using assms by (intro that [of None st]) (auto simp: get_live_pending_session_handle_def
        intro: secure_inv_mono)
next
  case False
  obtain as st1 where st1: "cleanup_expired_pending_sessions now st = Inr (as, st1)"
      "secure_inv 0 now st1" "same_core st st1" "sessions st1 = sessions st"
      "pending_sessions st1 =
         dropWhile (\<lambda>p. p_created_at (snd p) + pending_session_ttl st \<le> now) (pending_sessions st)"
    using cleanup_pending_call [OF assms] by metis
  have "get_live_pending_session_handle a h now st = Inr (held_pending a h st1, st1)"
    using False st1(1) by (simp add: get_live_pending_session_handle_def del: not_None_eq)
  moreover have "set (pending_sessions st1) \<subseteq> set (pending_sessions st)"
    unfolding st1(5) by (rule set_dropWhile)
  ultimately show thesis
    using st1(2-4) by (intro that [of "held_pending a h st1" st1]) (auto dest: held_pendingD)
qed

lemma touch_session_call:
  assumes "secure_inv 0 t st" and "t \<le> now"
  obtains b st' where "touch_session a h now st = Inr (b, st')" "secure_inv 0 now st'"
    "evolves now st st'" "pending_sessions st' = pending_sessions st"
    "\<forall>(a', x') \<in> set (sessions st'). \<exists>x. (a', x) \<in> set (sessions st) \<and> (s_station x, s_c2s x, s_s2c x) = (s_station x', s_c2s x', s_s2c x')"
proof -
  obtain l st1 where st1: "get_live_session_handle a h now st = Inr (l, st1)" "secure_inv 0 now st1"
      "same_core st st1" "set (sessions st1) \<subseteq> set (sessions st)"
      "pending_sessions st1 = pending_sessions st"
      and l: "\<And>x. l = Some x \<Longrightarrow> map_of (sessions st1) a = Some x"
    using live_session_call [OF assms, of a h] by metis
  show thesis
  proof (cases l)
    case None
    then show thesis
      using st1 by (intro that [of False st1]) (auto simp: touch_session_def evolves_sub)
  next
    case (Some x)
    let ?st = "touch_active_session a x now st1"
    have w: "session_table st1" "pending_table st1" "session_account st1" "pending_account st1"
        "nonce_account 0 st1" "handshake_account st1" "limits_ok st1" "timed_tables now st1"
      using st1(2) by (simp_all add: secure_inv_def secure_wf_def)
    have d: "distinct (keys (sessions st1))" using w(1) by (simp add: session_table_def)
    have x: "map_of (sessions st1) a = Some x" "(a, x) \<in> set (sessions st1)"
      using l [OF Some] by (auto dest: map_of_SomeD)
    have len: "length (sessions ?st) = length (sessions st1)"
      using length_delete [OF d x(1)] by (simp add: touch_active_session_def)
    have tot: "session_nonce_total ?st = session_nonce_total st1"
      using sum_delete [OF d x(1), of "\<lambda>(a, x). x_len (s_nonces x)"]
      by (simp add: session_nonce_total_def touch_active_session_def)
    have "session_table ?st"
      using w(1) x(2) by (auto simp: table_defs touch_active_session_def distinct_keys_delete
          set_delete keys_delete)
    moreover have "pending_table ?st" using w(2) by (auto simp: table_defs touch_active_session_def)
    moreover have "session_account ?st" using w(3) len
      unfolding session_account_def len by (simp add: touch_active_session_def)
    moreover have "pending_account ?st" using w(4)
      by (simp add: pending_account_def touch_active_session_def)
    moreover have "nonce_account 0 ?st" using w(5)
      unfolding nonce_account_def tot
      by (simp add: touch_active_session_def pending_nonce_total_def nonces_gone_def)
    moreover have "handshake_account ?st" using w(6)
      by (simp add: handshake_account_def touch_active_session_def)
    moreover have "limits_ok ?st" using w(7) by (simp add: limits_ok_def touch_active_session_def)
    moreover have "timed_tables now ?st"
      using w(8) by (auto simp: timed_tables_def touch_active_session_def set_delete sorted_append
          sorted_delete split: prod.splits)
    ultimately have "secure_inv 0 now ?st" by (simp add: secure_inv_def secure_wf_def)
    moreover have "evolves now st1 ?st"
      using x(2) by (fastforce simp: evolves_def touch_active_session_def config_of_def set_delete)
    then have "evolves now st ?st" by (rule evolves_after [OF st1(3,4)])
    moreover have "\<forall>(a', x') \<in> set (sessions ?st). \<exists>x. (a', x) \<in> set (sessions st) \<and>
        (s_station x, s_c2s x, s_s2c x) = (s_station x', s_c2s x', s_s2c x')"
      using x(2) st1(4) by (auto simp: touch_active_session_def set_delete)
    ultimately show thesis
      using st1(1,5) Some
      by (intro that [of True ?st]) (simp_all add: touch_session_def touch_active_session_def)
  qed
qed

lemma promote_call:
  assumes "secure_inv 0 t st" and "t \<le> now"
  obtains r st' where "promote_pending_session a h now st = Inr (r, st')" "secure_inv 0 now st'"
    "evolves now st st'" "set (pending_sessions st') \<subseteq> set (pending_sessions st)"
    "\<And>x. r = Some x \<Longrightarrow> map_of (sessions st') a = Some x \<and> s_last_seen x = now \<and>
       (\<exists>p. map_of (pending_sessions st) a = Some p \<and> p_ref p = p_ref h \<and>
            s_nonces x = p_nonces p \<and> s_station x = p_station p \<and> s_c2s x = p_c2s p \<and>
            s_s2c x = p_s2c p \<and> set (sessions st') \<subseteq> insert (a, x) (set (sessions st)))"
    "r = None \<Longrightarrow> set (sessions st') \<subseteq> set (sessions st)"
proof -
  obtain l st1 where st1: "get_live_pending_session_handle a h now st = Inr (l, st1)"
      "secure_inv 0 now st1" "same_core st st1" "sessions st1 = sessions st"
      "set (pending_sessions st1) \<subseteq> set (pending_sessions st)"
      and l: "\<And>p. l = Some p \<Longrightarrow> map_of (pending_sessions st1) a = Some p \<and> p_ref p = p_ref h"
    using live_pending_call [OF assms, of a h] by blast
  show thesis
  proof (cases l)
    case None
    then have "promote_pending_session a h now st = Inr (None, st1)"
      using st1(1) by (simp add: promote_pending_session_def)
    moreover have "evolves now st st1" using st1(3,4) by (intro evolves_sub) simp_all
    ultimately show thesis using st1(2,4,5) by (intro that [of None st1]) simp_all
  next
    case (Some p)
    obtain as st2 where st2: "cleanup_expired_sessions now st1 = Inr (as, st2)" "secure_inv 0 now st2"
        "same_core st1 st2" "pending_sessions st2 = pending_sessions st1"
        "sessions st2 = dropWhile (\<lambda>p. session_ttl st1 \<le> now - s_last_seen (snd p)) (sessions st1)"
      using cleanup_sessions_call [OF st1(2) order_refl] by metis
    let ?st3 = "st2\<lparr>pending_sessions := AList.delete a (pending_sessions st2),
      pending_sessions_promoted := Suc (pending_sessions_promoted st2)\<rparr>"
    have w: "session_table st2" "pending_table st2" "session_account st2" "pending_account st2"
        "nonce_account 0 st2" "handshake_account st2" "limits_ok st2" "timed_tables now st2"
      using st2(2) by (simp_all add: secure_inv_def secure_wf_def)
    have p: "map_of (pending_sessions st2) a = Some p" using l [OF Some] st2(4) by simp
    have d: "distinct (keys (pending_sessions st2))" using w(2) by (simp add: pending_table_def)
    have u: "nonces_ok st2 (p_nonces p)"
      using w(2) map_of_SomeD [OF p] by (auto simp: pending_table_def)
    have "session_table ?st3" using w(1) by (auto simp: table_defs)
    moreover have "pending_table ?st3"
      using w(2) by (auto simp: table_defs distinct_keys_delete set_delete)
    moreover have "session_account ?st3" using w(3) by (simp add: session_account_def)
    moreover have "pending_account ?st3"
      using w(4) length_delete [OF d p] by (simp add: pending_account_def)
    moreover have "nonce_account (x_len (p_nonces p)) ?st3"
      using w(5) sum_delete [OF d p, of "\<lambda>(a, p). x_len (p_nonces p)"]
      by (simp add: nonce_account_def session_nonce_total_def pending_nonce_total_def nonces_gone_def)
    moreover have "handshake_account ?st3" using w(6) by (simp add: handshake_account_def)
    moreover have "limits_ok ?st3" using w(7) by (simp add: limits_ok_def)
    moreover have "timed_tables now ?st3"
      by (rule timed_tables_delete_pending [OF w(8), of _ a]) simp_all
    ultimately have inv3: "secure_inv (x_len (p_nonces p)) now ?st3"
      by (simp add: secure_inv_def secure_wf_def)
    obtain st4 where st4: "make_session_room a ?st3 = Inr st4"
        "secure_inv (x_len (p_nonces p)) now st4" "a \<notin> set (keys (sessions st4))"
        "int (length (sessions st4)) < max_sessions ?st3"
        "set (sessions st4) \<subseteq> set (sessions ?st3)" "pending_sessions st4 = pending_sessions ?st3"
        "same_core ?st3 st4"
      using session_room_inv [OF inv3, of a] by metis
    have core: "same_core st st4"
      using st1(3) st2(3) st4(7) by (simp add: same_core_def config_of_def)
    have m: "int (length (sessions st4)) < max_sessions st4"
      using st4(4,7) by (simp add: same_core_def config_of_def)
    have u4: "nonces_ok st4 (p_nonces p)"
      using u st4(7) by (simp add: same_core_def config_of_def nonces_ok_def)
    obtain x st' where a: "add_session a (p_station p) (p_c2s p) (p_s2c p) (p_nonces p) now st4 = (x, st')"
      by force
    note add = add_session_inv [OF st4(2) order_refl st4(3) m u4 a]
    have sub: "set (sessions st4) \<subseteq> set (sessions st)"
      using st4(5) st2(5) st1(4) set_dropWhile [of _ "sessions st1"] by auto
    have "evolves now st4 st'" using add by (intro evolves_add) auto
    then have "evolves now st st'" by (rule evolves_after [OF core sub])
    moreover have "promote_pending_session a h now st = Inr (Some x, st')"
      using st1(1) Some st2(1) st4(1) a by (simp add: promote_pending_session_def Let_def)
    moreover have "map_of (sessions st') a = Some x"
      using add(2) st4(3) by (simp add: map_of_keys [symmetric, simplified] map_add_def)
    moreover have "s_last_seen x = now" using a by (auto simp: add_session_def Let_def)
    moreover have "set (pending_sessions st') \<subseteq> set (pending_sessions st)"
      using add(3) st4(6) st2(4) st1(5) by (auto simp: set_delete)
    moreover have "map_of (pending_sessions st) a = Some p"
    proof -
      have "(a, p) \<in> set (pending_sessions st)" using map_of_SomeD [OF p] st2(4) st1(5) by auto
      moreover have "distinct (keys (pending_sessions st))"
        using assms(1) by (simp add: secure_inv_def secure_wf_def pending_table_def)
      ultimately show ?thesis by simp
    qed
    ultimately show thesis
      using add(1,2,8,10-) sub l [OF Some] by (intro that [of "Some x" st']) auto
  qed
qed

subsection \<open>The calls on nonces\<close>

text \<open>
  Everything but the account of the nonces survives the change of one set; the totals change
  by the difference of the sizes.
\<close>

definition wf_but_nonces :: "time \<Rightarrow> ('a, 'c) secure_state \<Rightarrow> bool" where
  "wf_but_nonces t st \<longleftrightarrow> session_table st \<and> pending_table st \<and> session_account st \<and>
     pending_account st \<and> handshake_account st \<and> limits_ok st \<and> timed_tables t st"

lemma secure_inv_split: "secure_inv k t st \<longleftrightarrow> wf_but_nonces t st \<and> nonce_account k st"
  by (auto simp: secure_inv_def secure_wf_def wf_but_nonces_def)

lemma put_session_simps [simp]:
  "config_of (put_session_nonces a x u st) = config_of st"
  "next_ref (put_session_nonces a x u st) = next_ref st"
  "handshake_replays (put_session_nonces a x u st) = handshake_replays st"
  "pending_sessions (put_session_nonces a x u st) = pending_sessions st"
  by (simp_all add: put_session_nonces_def config_of_def)

lemma put_pending_simps [simp]:
  "config_of (put_pending_nonces a p u st) = config_of st"
  "next_ref (put_pending_nonces a p u st) = next_ref st"
  "handshake_replays (put_pending_nonces a p u st) = handshake_replays st"
  "sessions (put_pending_nonces a p u st) = sessions st"
  by (simp_all add: put_pending_nonces_def config_of_def)

lemma put_session_wf:
  assumes "wf_but_nonces t st" and x: "map_of (sessions st) a = Some x" and u: "nonces_ok st u"
  shows "wf_but_nonces t (put_session_nonces a x u st)"
    "session_nonce_total (put_session_nonces a x u st) + x_len (s_nonces x) =
       session_nonce_total st + x_len u"
    "pending_nonce_total (put_session_nonces a x u st) = pending_nonce_total st"
proof -
  let ?st = "put_session_nonces a x u st" and ?x = "x\<lparr>s_nonces := u\<rparr>"
  have w: "session_table st" "pending_table st" "session_account st" "pending_account st"
      "handshake_account st" "limits_ok st" "timed_tables t st"
    using assms(1) by (simp_all add: wf_but_nonces_def)
  have d: "distinct (keys (sessions st))" using w(1) by (simp add: session_table_def)
  have x': "(a, x) \<in> set (sessions st)" by (rule map_of_SomeD [OF x])
  have s: "sessions ?st = AList.update a ?x (sessions st)" by (simp add: put_session_nonces_def)
  have ks: "keys (sessions ?st) = keys (sessions st)" unfolding s by (rule keys_update_same [OF x])
  have set: "set (sessions ?st) = insert (a, ?x) {p \<in> set (sessions st). fst p \<noteq> a}"
    unfolding s by (rule set_update_same [OF d])
  have len: "length (sessions ?st) = length (sessions st)"
    unfolding s by (rule length_update_same [OF x])
  have seen: "map (\<lambda>p. s_last_seen (snd p)) (sessions ?st) = map (\<lambda>p. s_last_seen (snd p)) (sessions st)"
    unfolding s by (rule map_update_same [OF x]) simp
  have f: "next_ref ?st = next_ref st" "pending_sessions ?st = pending_sessions st"
      "data_nonce_ttl ?st = data_nonce_ttl st" "data_nonce_max ?st = data_nonce_max st"
    by (simp_all add: put_session_nonces_def)
  have "session_table ?st"
    using w(1) x' u unfolding session_table_def ks set f(1) nonces_ok_def f(3,4) by auto
  moreover have "pending_table ?st" using w(2) unfolding pending_table_def nonces_ok_def f .
  moreover have "session_account ?st"
    using w(3) unfolding session_account_def len by (simp add: put_session_nonces_def)
  moreover have "pending_account ?st" using w(4) by (simp add: pending_account_def put_session_nonces_def)
  moreover have "handshake_account ?st"
    using w(5) by (simp add: handshake_account_def put_session_nonces_def)
  moreover have "limits_ok ?st" using w(6) by (simp add: limits_ok_def put_session_nonces_def)
  moreover have "timed_tables t ?st"
    using w(7) x' unfolding timed_tables_def seen set f(2) by auto
  ultimately show "wf_but_nonces t ?st" by (simp add: wf_but_nonces_def)
  show "session_nonce_total ?st + x_len (s_nonces x) = session_nonce_total st + x_len u"
    using sum_delete [OF d x, of "\<lambda>(a, x). x_len (s_nonces x)"]
      sum_update [OF d, of "\<lambda>(a, x). x_len (s_nonces x)" a ?x]
    unfolding session_nonce_total_def s by simp
  show "pending_nonce_total ?st = pending_nonce_total st" by (simp add: pending_nonce_total_def f)
qed

lemma put_pending_wf:
  assumes "wf_but_nonces t st" and p: "map_of (pending_sessions st) a = Some p" and u: "nonces_ok st u"
  shows "wf_but_nonces t (put_pending_nonces a p u st)"
    "pending_nonce_total (put_pending_nonces a p u st) + x_len (p_nonces p) =
       pending_nonce_total st + x_len u"
    "session_nonce_total (put_pending_nonces a p u st) = session_nonce_total st"
proof -
  let ?st = "put_pending_nonces a p u st" and ?p = "p\<lparr>p_nonces := u\<rparr>"
  have w: "session_table st" "pending_table st" "session_account st" "pending_account st"
      "handshake_account st" "limits_ok st" "timed_tables t st"
    using assms(1) by (simp_all add: wf_but_nonces_def)
  have d: "distinct (keys (pending_sessions st))" using w(2) by (simp add: pending_table_def)
  have p': "(a, p) \<in> set (pending_sessions st)" by (rule map_of_SomeD [OF p])
  have s: "pending_sessions ?st = AList.update a ?p (pending_sessions st)"
    by (simp add: put_pending_nonces_def)
  have ks: "keys (pending_sessions ?st) = keys (pending_sessions st)"
    unfolding s by (rule keys_update_same [OF p])
  have set: "set (pending_sessions ?st) = insert (a, ?p) {q \<in> set (pending_sessions st). fst q \<noteq> a}"
    unfolding s by (rule set_update_same [OF d])
  have len: "length (pending_sessions ?st) = length (pending_sessions st)"
    unfolding s by (rule length_update_same [OF p])
  have created: "map (\<lambda>q. p_created_at (snd q)) (pending_sessions ?st) =
      map (\<lambda>q. p_created_at (snd q)) (pending_sessions st)"
    unfolding s by (rule map_update_same [OF p]) simp
  have f: "next_ref ?st = next_ref st" "sessions ?st = sessions st"
      "data_nonce_ttl ?st = data_nonce_ttl st" "data_nonce_max ?st = data_nonce_max st"
    by (simp_all add: put_pending_nonces_def)
  have "pending_table ?st"
    using w(2) p' u unfolding pending_table_def ks set f(1) nonces_ok_def f(3,4) by auto
  moreover have "session_table ?st" using w(1) unfolding session_table_def nonces_ok_def f .
  moreover have "pending_account ?st"
    using w(4) unfolding pending_account_def len by (simp add: put_pending_nonces_def)
  moreover have "session_account ?st" using w(3) by (simp add: session_account_def put_pending_nonces_def)
  moreover have "handshake_account ?st"
    using w(5) by (simp add: handshake_account_def put_pending_nonces_def)
  moreover have "limits_ok ?st" using w(6) by (simp add: limits_ok_def put_pending_nonces_def)
  moreover have "timed_tables t ?st"
    using w(7) p' unfolding timed_tables_def created set f(2) by auto
  ultimately show "wf_but_nonces t ?st" by (simp add: wf_but_nonces_def)
  show "pending_nonce_total ?st + x_len (p_nonces p) = pending_nonce_total st + x_len u"
    using sum_delete [OF d p, of "\<lambda>(a, p). x_len (p_nonces p)"]
      sum_update [OF d, of "\<lambda>(a, p). x_len (p_nonces p)" a ?p]
    unfolding pending_nonce_total_def s by simp
  show "session_nonce_total ?st = session_nonce_total st" by (simp add: session_nonce_total_def f)
qed

lemma account_expired_simps [simp]:
  "sessions (account_expired_data_nonces n st) = sessions st"
  "pending_sessions (account_expired_data_nonces n st) = pending_sessions st"
  "next_ref (account_expired_data_nonces n st) = next_ref st"
  "handshake_replays (account_expired_data_nonces n st) = handshake_replays st"
  "config_of (account_expired_data_nonces n st) = config_of st"
  "wf_but_nonces t (account_expired_data_nonces n st) = wf_but_nonces t st"
  by (simp_all add: account_expired_data_nonces_def wf_but_nonces_def timed_tables_def account_defs
      table_defs)

lemma count_replay_simps [simp]:
  "config_of (st\<lparr>data_nonce_replays := k\<rparr>) = config_of st"
  "wf_but_nonces t (st\<lparr>data_nonce_replays := k\<rparr>) = wf_but_nonces t st"
  "nonce_account j (st\<lparr>data_nonce_replays := k\<rparr>) = nonce_account j st"
  by (simp_all add: wf_but_nonces_def timed_tables_def account_defs table_defs)

lemma account_data_nonce_simps [simp]:
  "sessions (snd (account_data_nonce adm st)) = sessions st"
  "pending_sessions (snd (account_data_nonce adm st)) = pending_sessions st"
  "next_ref (snd (account_data_nonce adm st)) = next_ref st"
  "handshake_replays (snd (account_data_nonce adm st)) = handshake_replays st"
  "config_of (snd (account_data_nonce adm st)) = config_of st"
  "wf_but_nonces t (snd (account_data_nonce adm st)) = wf_but_nonces t st"
  "fst (account_data_nonce adm st) = adm_accepted adm"
  by (simp_all add: account_data_nonce_def account_expired_data_nonces_def Let_def wf_but_nonces_def
      timed_tables_def account_defs table_defs)

text \<open>The nonces are \<open>m\<close> too many on the books until the call has counted.\<close>

definition nonces_off :: "int \<Rightarrow> ('a, 'c) secure_state \<Rightarrow> bool" where
  "nonces_off m st \<longleftrightarrow>
     current_data_nonces st = int (session_nonce_total st + pending_nonce_total st) + m \<and>
     current_data_nonces st \<le> peak_data_nonces st \<and>
     int (data_nonces_accepted st) = current_data_nonces st + int (nonces_gone st)"

lemma account_expired_account:
  "nonces_off (int n) st \<Longrightarrow> nonce_account 0 (account_expired_data_nonces n st)"
  by (simp add: nonces_off_def nonce_account_def account_expired_data_nonces_def
      session_nonce_total_def pending_nonce_total_def nonces_gone_def)

lemma account_data_account:
  assumes "nonces_off (int (adm_expired adm + adm_capacity_evicted adm) -
      (if adm_accepted adm then 1 else 0)) st"
  shows "nonce_account 0 (snd (account_data_nonce adm st))"
  using assms
  by (cases "adm_accepted adm") (auto simp: nonces_off_def nonce_account_def account_data_nonce_def Let_def
      account_expired_data_nonces_def session_nonce_total_def pending_nonce_total_def nonces_gone_def)

lemma put_session_off:
  assumes "secure_inv 0 t st" and "map_of (sessions st) a = Some x" and "nonces_ok st u"
  shows "nonces_off (int (x_len (s_nonces x)) - int (x_len u)) (put_session_nonces a x u st)"
proof -
  have w: "wf_but_nonces t st" "nonce_account 0 st" using assms(1) by (simp_all add: secure_inv_split)
  show ?thesis
    using w(2) put_session_wf [OF w(1) assms(2,3)]
    by (simp add: nonces_off_def nonce_account_def put_session_nonces_def nonces_gone_def)
qed

lemma put_pending_off:
  assumes "secure_inv 0 t st" and "map_of (pending_sessions st) a = Some p" and "nonces_ok st u"
  shows "nonces_off (int (x_len (p_nonces p)) - int (x_len u)) (put_pending_nonces a p u st)"
proof -
  have w: "wf_but_nonces t st" "nonce_account 0 st" using assms(1) by (simp_all add: secure_inv_split)
  show ?thesis
    using w(2) put_pending_wf [OF w(1) assms(2,3)]
    by (simp add: nonces_off_def nonce_account_def put_pending_nonces_def nonces_gone_def)
qed

lemma put_session_evolves:
  assumes "session_table st" and "map_of (sessions st) a = Some x" and "nonces_evolve now (s_nonces x) u"
    and "sessions st' = sessions (put_session_nonces a x u st)" and "next_ref st' = next_ref st"
    and "config_of st' = config_of st" and "handshake_replays st' = handshake_replays st"
  shows "evolves now st st'"
proof -
  have d: "distinct (keys (sessions st))" using assms(1) by (simp add: session_table_def)
  have s: "set (sessions st') = insert (a, x\<lparr>s_nonces := u\<rparr>) {p \<in> set (sessions st). fst p \<noteq> a}"
    using set_update_same [OF d] assms(4) by (simp add: put_session_nonces_def)
  show ?thesis
    using assms(3,5-7) map_of_SomeD [OF assms(2)] unfolding evolves_def s by fastforce
qed

text \<open>The four calls on nonces, each with what it answers.\<close>

lemma data_nonce_seen_call:
  assumes "secure_inv 0 t st" and "t \<le> now"
  obtains b st' where "data_nonce_seen h nonce now st = Inr (b, st')" "secure_inv 0 now st'"
    "evolves now st st'" "pending_sessions st' = pending_sessions st"
    "\<forall>(a', x') \<in> set (sessions st'). \<exists>x. (a', x) \<in> set (sessions st) \<and> (s_station x, s_c2s x, s_s2c x) = (s_station x', s_c2s x', s_s2c x')"
proof -
  let ?a = "s_address h"
  obtain l st1 where st1: "get_live_session_handle ?a h now st = Inr (l, st1)" "secure_inv 0 now st1"
      "same_core st st1" "set (sessions st1) \<subseteq> set (sessions st)"
      "pending_sessions st1 = pending_sessions st"
      and l: "\<And>x. l = Some x \<Longrightarrow> map_of (sessions st1) ?a = Some x"
    using live_session_call [OF assms, of ?a h] by metis
  show thesis
  proof (cases l)
    case None
    then have "data_nonce_seen h nonce now st = Inr (False, st1)"
      using st1(1) by (simp add: data_nonce_seen_def)
    then show thesis
      using st1 by (intro that [of False st1]) (auto intro: evolves_sub)
  next
    case (Some x)
    obtain seen n u where c: "x_contains nonce now (s_nonces x) = ((seen, n), u)"
      by (metis prod.exhaust)
    have x: "map_of (sessions st1) ?a = Some x" "(?a, x) \<in> set (sessions st1)"
      using l [OF Some] by (auto dest: map_of_SomeD)
    have ok: "nonces_ok st1 (s_nonces x)" "session_table st1"
      using st1(2) x(2) by (auto simp: secure_inv_def secure_wf_def session_table_def)
    then have u: "nonces_ok st1 u" "x_len (s_nonces x) = n + x_len u"
      using x_contains_spec [OF _ c] by (auto simp: nonces_ok_def)
    let ?st2 = "account_expired_data_nonces n (put_session_nonces ?a x u st1)"
    let ?st = "if seen then ?st2\<lparr>data_nonce_replays := Suc (data_nonce_replays ?st2)\<rparr> else ?st2"
    have "wf_but_nonces now ?st2" "nonce_account 0 ?st2"
      using put_session_wf(1) [OF _ x(1) u(1), of now] put_session_off [OF st1(2) x(1) u(1)] st1(2) u(2)
      by (auto simp: secure_inv_split intro: account_expired_account)
    then have "secure_inv 0 now ?st" by (simp add: secure_inv_split)
    moreover have "nonces_evolve now (s_nonces x) u"
      using c by (auto simp: nonces_evolve_def x_contains_def split: prod.splits)
    from put_session_evolves [OF ok(2) x(1) this, of ?st] have "evolves now st1 ?st"
      by simp
    then have "evolves now st ?st" by (rule evolves_after [OF st1(3,4)])
    moreover have "data_nonce_seen h nonce now st = Inr (seen, ?st)"
      using st1(1) Some c by (simp add: data_nonce_seen_def Let_def)
    moreover have "set (sessions ?st) = insert (?a, x\<lparr>s_nonces := u\<rparr>) {p \<in> set (sessions st1). fst p \<noteq> ?a}"
      using ok(2) by (simp add: put_session_nonces_def set_update_same session_table_def
          account_expired_data_nonces_def)
    ultimately show thesis
      using st1(4,5) x(2)
      by (intro that [of seen ?st])
        (auto simp: put_session_nonces_def account_expired_data_nonces_def)
  qed
qed

lemma pending_data_nonce_seen_call:
  assumes "secure_inv 0 t st" and "t \<le> now"
  obtains b st' where "pending_data_nonce_seen h nonce now st = Inr (b, st')" "secure_inv 0 now st'"
    "evolves now st st'" "sessions st' = sessions st"
    "\<forall>(a', p') \<in> set (pending_sessions st'). \<exists>p. (a', p) \<in> set (pending_sessions st) \<and>
       (p_station p, p_c2s p, p_s2c p) = (p_station p', p_c2s p', p_s2c p')"
proof -
  let ?a = "p_address h"
  obtain l st1 where st1: "get_live_pending_session_handle ?a h now st = Inr (l, st1)"
      "secure_inv 0 now st1" "same_core st st1" "sessions st1 = sessions st"
      "set (pending_sessions st1) \<subseteq> set (pending_sessions st)"
      and l: "\<And>p. l = Some p \<Longrightarrow> map_of (pending_sessions st1) ?a = Some p \<and> p_ref p = p_ref h"
    using live_pending_call [OF assms, of ?a h] by blast
  show thesis
  proof (cases l)
    case None
    then have "pending_data_nonce_seen h nonce now st = Inr (False, st1)"
      using st1(1) by (simp add: pending_data_nonce_seen_def)
    then show thesis
      using st1 by (intro that [of False st1]) (auto intro: evolves_sub)
  next
    case (Some p)
    obtain seen n u where c: "x_contains nonce now (p_nonces p) = ((seen, n), u)"
      by (metis prod.exhaust)
    have p: "map_of (pending_sessions st1) ?a = Some p" "(?a, p) \<in> set (pending_sessions st1)"
      using l [OF Some] by (auto dest: map_of_SomeD)
    have ok: "nonces_ok st1 (p_nonces p)" "pending_table st1"
      using st1(2) p(2) by (auto simp: secure_inv_def secure_wf_def pending_table_def)
    then have u: "nonces_ok st1 u" "x_len (p_nonces p) = n + x_len u"
      using x_contains_spec [OF _ c] by (auto simp: nonces_ok_def)
    let ?st = "account_expired_data_nonces n (put_pending_nonces ?a p u st1)"
    have "secure_inv 0 now ?st"
      using put_pending_wf(1) [OF _ p(1) u(1), of now] put_pending_off [OF st1(2) p(1) u(1)] st1(2) u(2)
      by (auto simp: secure_inv_split intro: account_expired_account)
    moreover have "evolves now st ?st"
      using st1(3,4) by (intro evolves_sub) (auto simp: same_core_def)
    moreover have "pending_data_nonce_seen h nonce now st = Inr (seen, ?st)"
      using st1(1) Some c by (simp add: pending_data_nonce_seen_def)
    moreover have "set (pending_sessions ?st) =
        insert (?a, p\<lparr>p_nonces := u\<rparr>) {q \<in> set (pending_sessions st1). fst q \<noteq> ?a}"
      using ok(2) by (simp add: put_pending_nonces_def set_update_same pending_table_def)
    ultimately show thesis
      using st1(4,5) p(2)
      by (intro that [of seen ?st]) (auto simp: put_pending_nonces_def)
  qed
qed

lemma accept_data_nonce_call:
  assumes "secure_inv 0 t st" and "t \<le> now"
  obtains b st' where "accept_data_nonce h nonce now st = Inr (b, st')" "secure_inv 0 now st'"
    "evolves now st st'" "pending_sessions st' = pending_sessions st"
    "\<forall>(a', x') \<in> set (sessions st'). \<exists>x. (a', x) \<in> set (sessions st) \<and> (s_station x, s_c2s x, s_s2c x) = (s_station x', s_c2s x', s_s2c x')"
    "b \<Longrightarrow> \<exists>x. map_of (sessions st) (s_address h) = Some x \<and> s_ref x = s_ref h \<and>
       now - s_last_seen x < session_ttl st"
    "b \<Longrightarrow> \<exists>x. map_of (sessions st') (s_address h) = Some x \<and> s_ref x = s_ref h \<and>
       remembers (s_nonces x) nonce now 0"
    "\<And>u n. (\<forall>x. (s_address h, x) \<in> set (sessions st) \<longrightarrow> s_ref x = s_ref h \<longrightarrow>
       remembers (s_nonces x) nonce u n) \<Longrightarrow> now - u < data_nonce_ttl st \<Longrightarrow> \<not> b"
proof -
  let ?a = "s_address h"
  obtain l st1 where st1: "get_live_session_handle ?a h now st = Inr (l, st1)" "secure_inv 0 now st1"
      "same_core st st1" "set (sessions st1) \<subseteq> set (sessions st)"
      "pending_sessions st1 = pending_sessions st"
      and l: "\<And>x. l = Some x \<Longrightarrow> map_of (sessions st1) ?a = Some x \<and> s_ref x = s_ref h \<and>
        now - s_last_seen x < session_ttl st"
    using live_session_call [OF assms, of ?a h] by blast
  show thesis
  proof (cases l)
    case None
    then have "accept_data_nonce h nonce now st = Inr (False, st1)"
      using st1(1) by (simp add: accept_data_nonce_def)
    then show thesis
      using st1 by (intro that [of False st1]) (auto intro: evolves_sub)
  next
    case (Some x)
    have x: "map_of (sessions st1) ?a = Some x" "(?a, x) \<in> set (sessions st1)" "s_ref x = s_ref h"
        "now - s_last_seen x < session_ttl st"
      using l [OF Some] by (auto dest: map_of_SomeD)
    have ok: "nonces_ok st1 (s_nonces x)" "session_table st1"
      using st1(2) x(2) by (auto simp: secure_inv_def secure_wf_def session_table_def)
    have cfg: "x_ttl (s_nonces x) = data_nonce_ttl st" "expiring_set_wf (s_nonces x)"
      using ok(1) st1(3) by (auto simp: nonces_ok_def same_core_def config_of_def)
    obtain adm u where c: "x_accept nonce now (s_nonces x) = Inr (adm, u)" "expiring_set_wf u"
        "x_ttl u = x_ttl (s_nonces x)" "x_max u = x_max (s_nonces x)"
        "x_len (s_nonces x) + (if adm_accepted adm then 1 else 0) =
           adm_expired adm + adm_capacity_evicted adm + x_len u"
      using x_accept_spec [OF cfg(2), of nonce now] by metis
    have u: "nonces_ok st1 u" using ok(1) c(2-4) by (simp add: nonces_ok_def)
    let ?st1 = "put_session_nonces ?a x u st1"
    let ?st = "snd (account_data_nonce adm ?st1)"
    have "int (x_len (s_nonces x)) - int (x_len u) =
        int (adm_expired adm + adm_capacity_evicted adm) - (if adm_accepted adm then 1 else 0)"
      using c(5) by (auto split: if_splits)
    then have "nonce_account 0 ?st"
      using put_session_off [OF st1(2) x(1) u] by (intro account_data_account) simp
    moreover have "wf_but_nonces now ?st"
      using put_session_wf(1) [OF _ x(1) u, of now] st1(2) by (simp add: secure_inv_split)
    ultimately have inv: "secure_inv 0 now ?st" by (simp add: secure_inv_split)
    have "nonces_evolve now (s_nonces x) u" using c(1) by (auto simp: nonces_evolve_def)
    from put_session_evolves [OF ok(2) x(1) this, of ?st] have "evolves now st1 ?st"
      by simp
    then have ev: "evolves now st ?st" by (rule evolves_after [OF st1(3,4)])
    have run: "accept_data_nonce h nonce now st = Inr (adm_accepted adm, ?st)"
      using st1(1) Some c(1) by (simp add: accept_data_nonce_def prod_eq_iff)
    have set: "set (sessions ?st) = insert (?a, x\<lparr>s_nonces := u\<rparr>) {p \<in> set (sessions st1). fst p \<noteq> ?a}"
      using ok(2) by (simp add: put_session_nonces_def set_update_same session_table_def)
    have new: "map_of (sessions ?st) ?a = Some (x\<lparr>s_nonces := u\<rparr>)"
      by (simp add: put_session_nonces_def AList.update_conv')
    have mem: "map_of (sessions st) ?a = Some x"
    proof -
      have "distinct (keys (sessions st))"
        using assms(1) by (simp add: secure_inv_def secure_wf_def session_table_def)
      then show ?thesis using x(2) st1(4) by auto
    qed
    show thesis
    proof (rule that [OF run inv ev])
      show "pending_sessions ?st = pending_sessions st"
        using st1(5) by (simp add: put_session_nonces_def)
      show "\<forall>(a', x') \<in> set (sessions ?st). \<exists>x. (a', x) \<in> set (sessions st) \<and> (s_station x, s_c2s x, s_s2c x) = (s_station x', s_c2s x', s_s2c x')"
        using set x(2) st1(4) by auto
      show "\<exists>x. map_of (sessions st) ?a = Some x \<and> s_ref x = s_ref h \<and>
          now - s_last_seen x < session_ttl st"
        using mem x(3,4) by blast
      show "\<exists>x. map_of (sessions ?st) ?a = Some x \<and> s_ref x = s_ref h \<and>
          remembers (s_nonces x) nonce now 0" if "adm_accepted adm"
        using new x(3) accepted_remembered [OF c(1) that cfg(2)] by auto
      show "\<not> adm_accepted adm"
        if "\<forall>x. (?a, x) \<in> set (sessions st) \<longrightarrow> s_ref x = s_ref h \<longrightarrow> remembers (s_nonces x) nonce u' n"
          and "now - u' < data_nonce_ttl st" for u' n
        using that x(2,3) st1(4) cfg remembers_refuses(1) [of "s_nonces x" nonce u' n now] c(1) by auto
    qed
  qed
qed

lemma accept_pending_data_nonce_call:
  assumes "secure_inv 0 t st" and "t \<le> now"
  obtains b st' where "accept_pending_data_nonce h nonce now st = Inr (b, st')" "secure_inv 0 now st'"
    "evolves now st st'" "sessions st' = sessions st"
    "\<forall>(a', p') \<in> set (pending_sessions st'). \<exists>p. (a', p) \<in> set (pending_sessions st) \<and>
       (p_station p, p_c2s p, p_s2c p) = (p_station p', p_c2s p', p_s2c p')"
    "b \<Longrightarrow> \<exists>p. map_of (pending_sessions st') (p_address h) = Some p \<and> p_ref p = p_ref h \<and>
       remembers (p_nonces p) nonce now 0"
proof -
  let ?a = "p_address h"
  obtain l st1 where st1: "get_live_pending_session_handle ?a h now st = Inr (l, st1)"
      "secure_inv 0 now st1" "same_core st st1" "sessions st1 = sessions st"
      "set (pending_sessions st1) \<subseteq> set (pending_sessions st)"
      and l: "\<And>p. l = Some p \<Longrightarrow> map_of (pending_sessions st1) ?a = Some p \<and> p_ref p = p_ref h"
    using live_pending_call [OF assms, of ?a h] by blast
  show thesis
  proof (cases l)
    case None
    then have "accept_pending_data_nonce h nonce now st = Inr (False, st1)"
      using st1(1) by (simp add: accept_pending_data_nonce_def)
    then show thesis
      using st1 by (intro that [of False st1]) (auto intro: evolves_sub)
  next
    case (Some p)
    have p: "map_of (pending_sessions st1) ?a = Some p" "(?a, p) \<in> set (pending_sessions st1)"
        "p_ref p = p_ref h"
      using l [OF Some] by (auto dest: map_of_SomeD)
    have ok: "nonces_ok st1 (p_nonces p)" "pending_table st1"
      using st1(2) p(2) by (auto simp: secure_inv_def secure_wf_def pending_table_def)
    then have wf: "expiring_set_wf (p_nonces p)" by (simp add: nonces_ok_def)
    obtain adm u where c: "x_accept nonce now (p_nonces p) = Inr (adm, u)" "expiring_set_wf u"
        "x_ttl u = x_ttl (p_nonces p)" "x_max u = x_max (p_nonces p)"
        "x_len (p_nonces p) + (if adm_accepted adm then 1 else 0) =
           adm_expired adm + adm_capacity_evicted adm + x_len u"
      using x_accept_spec [OF wf, of nonce now] by metis
    have u: "nonces_ok st1 u" using ok(1) c(2-4) by (simp add: nonces_ok_def)
    let ?st1 = "put_pending_nonces ?a p u st1"
    let ?st = "snd (account_data_nonce adm ?st1)"
    have "int (x_len (p_nonces p)) - int (x_len u) =
        int (adm_expired adm + adm_capacity_evicted adm) - (if adm_accepted adm then 1 else 0)"
      using c(5) by (auto split: if_splits)
    then have "nonce_account 0 ?st"
      using put_pending_off [OF st1(2) p(1) u] by (intro account_data_account) simp
    moreover have "wf_but_nonces now ?st"
      using put_pending_wf(1) [OF _ p(1) u, of now] st1(2) by (simp add: secure_inv_split)
    ultimately have inv: "secure_inv 0 now ?st" by (simp add: secure_inv_split)
    have ev: "evolves now st ?st"
      using st1(3,4) by (intro evolves_sub) (auto simp: same_core_def)
    have run: "accept_pending_data_nonce h nonce now st = Inr (adm_accepted adm, ?st)"
      using st1(1) Some c(1) by (simp add: accept_pending_data_nonce_def prod_eq_iff)
    have set: "set (pending_sessions ?st) =
        insert (?a, p\<lparr>p_nonces := u\<rparr>) {q \<in> set (pending_sessions st1). fst q \<noteq> ?a}"
      using ok(2) by (simp add: put_pending_nonces_def set_update_same pending_table_def)
    have new: "map_of (pending_sessions ?st) ?a = Some (p\<lparr>p_nonces := u\<rparr>)"
      by (simp add: put_pending_nonces_def AList.update_conv')
    show thesis
    proof (rule that [OF run inv ev])
      show "sessions ?st = sessions st" using st1(4) by (simp add: put_pending_nonces_def)
      show "\<forall>(a', p') \<in> set (pending_sessions ?st). \<exists>p. (a', p) \<in> set (pending_sessions st) \<and>
          (p_station p, p_c2s p, p_s2c p) = (p_station p', p_c2s p', p_s2c p')"
        using set p(2) st1(5) by auto
      show "\<exists>p. map_of (pending_sessions ?st) ?a = Some p \<and> p_ref p = p_ref h \<and>
          remembers (p_nonces p) nonce now 0" if "adm_accepted adm"
        using new p(3) accepted_remembered [OF c(1) that wf] by auto
    qed
  qed
qed

lemma handshake_call:
  assumes "secure_inv 0 t st" and "t \<le> now"
  obtains b st' where "accept_handshake_replay key now st = Inr (b, st')" "secure_inv 0 now st'"
    "evolves now st st'" "sessions st' = sessions st" "pending_sessions st' = pending_sessions st"
    "b \<Longrightarrow> remembers (handshake_replays st') key now 0"
    "\<And>u n. remembers (handshake_replays st) key u n \<Longrightarrow> now - u < x_ttl (handshake_replays st) \<Longrightarrow> \<not> b"
proof -
  have w: "session_table st" "pending_table st" "session_account st" "pending_account st"
      "nonce_account 0 st" "handshake_account st" "limits_ok st" "timed_tables t st"
    using assms(1) by (simp_all add: secure_inv_def secure_wf_def)
  have wf: "expiring_set_wf (handshake_replays st)" using w(6) by (simp add: handshake_account_def)
  obtain adm u where c: "x_accept key now (handshake_replays st) = Inr (adm, u)" "expiring_set_wf u"
      "x_ttl u = x_ttl (handshake_replays st)" "x_max u = x_max (handshake_replays st)"
      "x_len (handshake_replays st) + (if adm_accepted adm then 1 else 0) =
         adm_expired adm + adm_capacity_evicted adm + x_len u"
    using x_accept_spec [OF wf, of key now] by metis
  have len: "int (x_len u) \<le> x_max u" using c(2) by (simp add: expiring_set_wf_def)
  obtain st' where r: "accept_handshake_replay key now st = Inr (adm_accepted adm, st')"
    using c(1) by (cases "adm_accepted adm") (simp_all add: accept_handshake_replay_def Let_def)
  note run = r [unfolded accept_handshake_replay_def c(1) Let_def, simplified]
  have f: "sessions st' = sessions st" "pending_sessions st' = pending_sessions st"
      "next_ref st' = next_ref st" "handshake_replays st' = u" "config_of st' = config_of st"
      "data_nonce_ttl st' = data_nonce_ttl st" "data_nonce_max st' = data_nonce_max st"
    using run c(3) by (auto simp: config_of_def split: if_splits)
  have "session_table st'" "pending_table st'"
    using w(1,2) by (simp_all add: table_defs f)
  moreover have "session_account st'" "pending_account st'" "limits_ok st'"
    using w(3,4,7) run by (auto simp: session_account_def pending_account_def limits_ok_def split: if_splits)
  moreover have "nonce_account 0 st'"
    using w(5) run by (auto simp: nonce_account_def nonces_gone_def session_nonce_total_def
        pending_nonce_total_def split: if_splits)
  moreover have "handshake_account st'"
    using w(6) run c(2-5) len by (auto simp: handshake_account_def split: if_splits)
  moreover have "timed_tables now st'"
    using timed_tables_mono [OF w(8) assms(2)] by (simp add: timed_tables_def f)
  ultimately have "secure_inv 0 now st'" by (simp add: secure_inv_def secure_wf_def)
  moreover have "evolves now st st'"
    using c(1) by (auto simp: evolves_def f nonces_evolve_def)
  moreover have "\<not> adm_accepted adm"
    if "remembers (handshake_replays st) key u' n" and "now - u' < x_ttl (handshake_replays st)" for u' n
    using remembers_refuses(1) [OF that(1) wf that(2)] c(1) by auto
  ultimately show thesis
    using f accepted_remembered [OF c(1) _ wf] by (intro that [OF r]) auto
qed

lemma get_active_call:
  assumes "secure_inv 0 t st" and "t \<le> now"
  obtains r st' where "get_active_session a now st = Inr (r, st')" "secure_inv 0 now st'"
    "evolves now st st'" "pending_sessions st' = pending_sessions st"
    "set (sessions st') \<subseteq> set (sessions st)" "r = map_of (sessions st') a"
    "sessions st' = filter (\<lambda>p. now - s_last_seen (snd p) < session_ttl st) (sessions st)"
proof -
  obtain as st1 where st1: "cleanup_expired_sessions now st = Inr (as, st1)" "secure_inv 0 now st1"
      "evolves now st st1"
      "sessions st1 = dropWhile (\<lambda>p. session_ttl st \<le> now - s_last_seen (snd p)) (sessions st)"
      "pending_sessions st1 = pending_sessions st"
    using cleanup_sessions_call [OF assms] by metis
  have "sorted (map (\<lambda>p. s_last_seen (snd p)) (sessions st))"
    using assms(1) by (simp add: secure_inv_def timed_tables_def)
  then have "sessions st1 = filter (\<lambda>p. now - s_last_seen (snd p) < session_ttl st) (sessions st)"
    unfolding st1(4)
    by (subst dropWhile_eq_filter [where f = "\<lambda>p. s_last_seen (snd p)"]) (auto intro: filter_cong)
  then show thesis
    using st1(1-3,5) by (intro that [of "map_of (sessions st1) a" st1]) (auto simp: get_active_session_def)
qed

lemma get_pending_call:
  assumes "secure_inv 0 t st" and "t \<le> now"
  obtains r st' where "get_pending_session a now st = Inr (r, st')" "secure_inv 0 now st'"
    "evolves now st st'" "sessions st' = sessions st"
    "set (pending_sessions st') \<subseteq> set (pending_sessions st)" "r = map_of (pending_sessions st') a"
proof -
  obtain as st1 where st1: "cleanup_expired_pending_sessions now st = Inr (as, st1)"
      "secure_inv 0 now st1" "evolves now st st1" "sessions st1 = sessions st"
      "pending_sessions st1 =
         dropWhile (\<lambda>p. p_created_at (snd p) + pending_session_ttl st \<le> now) (pending_sessions st)"
    using cleanup_pending_call [OF assms] by metis
  have "set (pending_sessions st1) \<subseteq> set (pending_sessions st)"
    unfolding st1(5) by (rule set_dropWhile)
  then show thesis
    using st1(1-4)
    by (intro that [of "map_of (pending_sessions st1) a" st1]) (auto simp: get_pending_session_def)
qed

subsection \<open>Every sequence of calls\<close>

inductive secure_call :: "time \<Rightarrow> ('a, 'c) secure_state \<Rightarrow> ('a, 'c) secure_state \<Rightarrow> bool" where
  handshake: "accept_handshake_replay key now st = Inr (b, st') \<Longrightarrow> secure_call now st st'"
| cleanup: "cleanup_expired_sessions now st = Inr (as, st') \<Longrightarrow> secure_call now st st'"
| cleanup_pending: "cleanup_expired_pending_sessions now st = Inr (as, st') \<Longrightarrow> secure_call now st st'"
| install: "install_session a n c c' now st = Inr (x, st') \<Longrightarrow> secure_call now st st'"
| install_pending: "install_pending_session a n c c' now st = Inr (p, st') \<Longrightarrow> secure_call now st st'"
| active: "get_active_session a now st = Inr (r, st') \<Longrightarrow> secure_call now st st'"
| pending: "get_pending_session a now st = Inr (q, st') \<Longrightarrow> secure_call now st st'"
| touch: "touch_session a x now st = Inr (b, st') \<Longrightarrow> secure_call now st st'"
| promote: "promote_pending_session a p now st = Inr (r, st') \<Longrightarrow> secure_call now st st'"
| seen: "data_nonce_seen x nonce now st = Inr (b, st') \<Longrightarrow> secure_call now st st'"
| pending_seen: "pending_data_nonce_seen p nonce now st = Inr (b, st') \<Longrightarrow> secure_call now st st'"
| accept: "accept_data_nonce x nonce now st = Inr (b, st') \<Longrightarrow> secure_call now st st'"
| accept_pending: "accept_pending_data_nonce p nonce now st = Inr (b, st') \<Longrightarrow> secure_call now st st'"

lemma secure_call_inv:
  assumes "secure_call now st st'" and "secure_inv 0 t st" and "t \<le> now"
  shows "secure_inv 0 now st' \<and> evolves now st st'"
  using assms(1)
proof cases
  case (handshake key b)
  with handshake_call [OF assms(2,3), of key] show ?thesis by (metis prod.inject sum.inject(2))
next
  case (cleanup as)
  with cleanup_sessions_call [OF assms(2,3)] show ?thesis by (metis prod.inject sum.inject(2))
next
  case (cleanup_pending as)
  with cleanup_pending_call [OF assms(2,3)] show ?thesis by (metis prod.inject sum.inject(2))
next
  case (install a n c c' x)
  with install_session_call [OF assms(2,3), of a n c c'] show ?thesis
    by (metis prod.inject sum.inject(2))
next
  case (install_pending a n c c' p)
  with install_pending_call [OF assms(2,3), of a n c c'] show ?thesis
    by (metis prod.inject sum.inject(2))
next
  case (active a r)
  with get_active_call [OF assms(2,3), of a] show ?thesis by (metis prod.inject sum.inject(2))
next
  case (pending a q)
  with get_pending_call [OF assms(2,3), of a] show ?thesis by (metis prod.inject sum.inject(2))
next
  case (touch a x b)
  with touch_session_call [OF assms(2,3), of a x] show ?thesis by (metis prod.inject sum.inject(2))
next
  case (promote a p r)
  with promote_call [OF assms(2,3), of a p] show ?thesis by (metis prod.inject sum.inject(2))
next
  case (seen x nonce b)
  with data_nonce_seen_call [OF assms(2,3), of x nonce] show ?thesis
    by (metis prod.inject sum.inject(2))
next
  case (pending_seen p nonce b)
  with pending_data_nonce_seen_call [OF assms(2,3), of p nonce] show ?thesis
    by (metis prod.inject sum.inject(2))
next
  case (accept x nonce b)
  with accept_data_nonce_call [OF assms(2,3), of x nonce] show ?thesis
    by (metis prod.inject sum.inject(2))
next
  case (accept_pending p nonce b)
  with accept_pending_data_nonce_call [OF assms(2,3), of p nonce] show ?thesis
    by (metis prod.inject sum.inject(2))
qed

text \<open>Calls at readings of a monotonic clock: \<open>n\<close> of them, from the reading \<open>t\<close> to \<open>t'\<close>.\<close>

inductive secure_runs ::
  "time \<Rightarrow> ('a, 'c) secure_state \<Rightarrow> nat \<Rightarrow> time \<Rightarrow> ('a, 'c) secure_state \<Rightarrow> bool" where
  none: "secure_runs t st 0 t st"
| call: "secure_runs t st n u st1 \<Longrightarrow> u \<le> now \<Longrightarrow> secure_call now st1 st2 \<Longrightarrow>
    secure_runs t st (Suc n) now st2"

definition secure_reach :: "time \<Rightarrow> ('a, 'c) secure_state \<Rightarrow> bool" where
  "secure_reach t st \<longleftrightarrow> (\<exists>c st0 t0 n. secure_init c = Inr st0 \<and> secure_runs t0 st0 n t st)"

lemma validate_positive_int_Inr: "validate_positive_int v = Inr i \<Longrightarrow> 1 \<le> i"
  by (cases v) (auto split: if_splits)

lemma secure_init_inv: "secure_init c = Inr st \<Longrightarrow> secure_inv 0 t st"
  by (auto simp: secure_init_def rbind_Inr_iff secure_inv_def secure_wf_def timed_tables_def
      account_defs table_defs fresh_len expiring_set_init
      dest!: validate_positive_int_Inr) (simp_all add: expiring_set_def)

lemma secure_runs_inv:
  "secure_runs t st n u st' \<Longrightarrow> secure_inv 0 t st \<Longrightarrow> secure_inv 0 u st' \<and> t \<le> u"
  by (induction rule: secure_runs.induct) (use secure_call_inv in fastforce)+

lemma secure_reach_inv: "secure_reach t st \<Longrightarrow> secure_inv 0 t st"
  unfolding secure_reach_def using secure_init_inv secure_runs_inv by blast

text \<open>What \<open>n\<close> calls leave of a remembered nonce, if \<open>n\<close> is below the capacity.\<close>

definition session_remembers ::
  "'a \<Rightarrow> nat \<Rightarrow> bytes \<Rightarrow> time \<Rightarrow> nat \<Rightarrow> ('a, 'c) secure_state \<Rightarrow> bool" where
  "session_remembers a r nonce t n st \<longleftrightarrow> r < next_ref st \<and>
     (\<forall>x. (a, x) \<in> set (sessions st) \<longrightarrow> s_ref x = r \<longrightarrow> remembers (s_nonces x) nonce t n)"

lemma evolves_remember:
  assumes "evolves now st st'" and "secure_inv 0 u st" and "session_remembers a r nonce t n st"
    and "now - t < data_nonce_ttl st" and "int n + 1 < data_nonce_max st"
  shows "session_remembers a r nonce t (Suc n) st'"
proof -
  have r: "r < next_ref st" using assms(3) by (simp add: session_remembers_def)
  have "remembers (s_nonces x') nonce t (Suc n)" if x': "(a, x') \<in> set (sessions st')" "s_ref x' = r" for x'
  proof -
    have "next_ref st \<le> s_ref x' \<or> (\<exists>x. (a, x) \<in> set (sessions st) \<and> s_ref x = s_ref x' \<and>
        nonces_evolve now (s_nonces x) (s_nonces x'))"
      using assms(1) x'(1) by (auto simp: evolves_def)
    then obtain x where x: "(a, x) \<in> set (sessions st)" "s_ref x = r"
        "nonces_evolve now (s_nonces x) (s_nonces x')"
      using x'(2) r by auto
    have ok: "nonces_ok st (s_nonces x)"
      using assms(2) x(1) by (auto simp: secure_inv_def secure_wf_def session_table_def)
    have "remembers (s_nonces x) nonce t n" using assms(3) x(1,2) by (auto simp: session_remembers_def)
    then show ?thesis
      using ok assms(4,5) by (intro remembers_evolve [OF x(3)]) (auto simp: nonces_ok_def)
  qed
  then show ?thesis using assms(1) r by (auto simp: session_remembers_def evolves_def)
qed

lemma runs_remember:
  assumes "secure_runs t st n u st'" and "secure_inv 0 t st" and "session_remembers a r nonce t0 0 st"
    and "u - t0 < data_nonce_ttl st" and "int n < data_nonce_max st"
  shows "config_of st' = config_of st \<and> session_remembers a r nonce t0 n st'"
  using assms
proof (induction rule: secure_runs.induct)
  case (call t st n u st1 now st2)
  have i1: "secure_inv 0 u st1" using secure_runs_inv [OF call.hyps(1) call.prems(1)] by simp
  have ih: "config_of st1 = config_of st" "session_remembers a r nonce t0 n st1"
    using call.IH call.prems call.hyps(2) by auto
  have ev: "evolves now st1 st2" using secure_call_inv [OF call.hyps(3) i1 call.hyps(2)] by simp
  have cfg: "data_nonce_ttl st1 = data_nonce_ttl st" "data_nonce_max st1 = data_nonce_max st"
    using ih(1) by (simp_all add: config_of_def)
  then show ?case
    using evolves_remember [OF ev i1 ih(2)] call.prems(3,4) ev ih(1) by (simp add: evolves_def)
qed simp

lemma runs_remember_handshake:
  assumes "secure_runs t st n u st'" and "secure_inv 0 t st"
    and "remembers (handshake_replays st) key t0 0"
    and "u - t0 < x_ttl (handshake_replays st)" and "int n < x_max (handshake_replays st)"
  shows "remembers (handshake_replays st') key t0 n \<and>
    x_ttl (handshake_replays st') = x_ttl (handshake_replays st) \<and>
    x_max (handshake_replays st') = x_max (handshake_replays st)"
  using assms
proof (induction rule: secure_runs.induct)
  case (call t st n u st1 now st2)
  have i1: "secure_inv 0 u st1" using secure_runs_inv [OF call.hyps(1) call.prems(1)] by simp
  have ev: "nonces_evolve now (handshake_replays st1) (handshake_replays st2)"
    using secure_call_inv [OF call.hyps(3) i1 call.hyps(2)] by (simp add: evolves_def)
  have wf: "expiring_set_wf (handshake_replays st1)"
    using i1 by (simp add: secure_inv_def secure_wf_def handshake_account_def)
  show ?case
    using call.IH call.prems call.hyps(2) nonces_evolve_ok [OF ev wf] remembers_evolve [OF ev wf]
    by auto
qed simp

subsection \<open>A small run, for the witnesses\<close>

definition example_config :: secure_config where
  "example_config = default_config\<lparr>cfg_max_sessions := PInt 1, cfg_data_nonce_max := PInt 2\<rparr>"

definition example_init :: "(int, unit) secure_state" where
  "example_init = (case secure_init example_config of Inr st \<Rightarrow> st)"

lemma example_init: "secure_init example_config = Inr example_init"
  by (simp add: example_init_def secure_init_def example_config_def default_config_def)

definition example_installed :: "(int, unit) secure_session \<times> (int, unit) secure_state" where
  "example_installed = (case install_session 7 (lit ''a'') () () 0 example_init of Inr p \<Rightarrow> p)"

lemmas secure_run = example_init_def example_config_def default_config_def secure_init_def
  install_session_def cleanup_expired_sessions.simps make_session_room_def add_session_def
  expiring_set_def get_live_session_handle_def held_session_def ticks_per_second_def
  accept_data_nonce_def put_session_nonces_def x_accept_def x_cleanup_expired.simps
  account_data_nonce_def account_expired_data_nonces_def x_len_def Let_def is_current_def

lemma example_installed_eq:
  "install_session 7 (lit ''a'') () () 0 example_init = Inr example_installed"
  by (simp add: example_installed_def secure_run)

lemma example_reach: "secure_reach 0 (snd example_installed)"
proof -
  have "secure_call 0 example_init (snd example_installed)"
    using secure_call.install [of 7 "lit ''a''" "()" "()" 0 example_init] example_installed_eq
    by (metis prod.collapse)
  then show ?thesis
    unfolding secure_reach_def
    using example_init secure_runs.call [OF secure_runs.none order_refl] by blast
qed

definition example_accepted :: "(int, unit) secure_state" where
  "example_accepted =
     (case accept_data_nonce (fst example_installed) ''n'' 5 (snd example_installed) of
        Inr (_, st) \<Rightarrow> st)"

lemma example_accepted:
  "accept_data_nonce (fst example_installed) ''n'' 5 (snd example_installed) =
     Inr (True, example_accepted)"
  by (simp add: example_accepted_def example_installed_def secure_run)

subsection \<open>Properties\<close>



text \<open>
  A data nonce is used once per session: after \<open>accept_data_nonce\<close> admitted it, no later
  call admits it again on that session within its time to live, whatever calls come in
  between, as long as they are fewer than the capacity of the session's nonce set (each call
  admits at most one nonce).
\<close>

theorem data_nonce_single_use:
  assumes "secure_reach t st" and "t \<le> now" and "accept_data_nonce h nonce now st = Inr (True, st1)"
    and "secure_runs now st1 n u st2" and "u \<le> now'"
    and "now' - now < data_nonce_ttl st" and "int n < data_nonce_max st"
  shows "\<exists>st3. accept_data_nonce h nonce now' st2 = Inr (False, st3)"
proof -
  have i: "secure_inv 0 t st" by (rule secure_reach_inv [OF assms(1)])
  obtain b st' where b: "accept_data_nonce h nonce now st = Inr (b, st')" "secure_inv 0 now st'"
      "evolves now st st'"
      "b \<Longrightarrow> \<exists>x. map_of (sessions st) (s_address h) = Some x \<and> s_ref x = s_ref h \<and>
        now - s_last_seen x < session_ttl st"
      "b \<Longrightarrow> \<exists>x. map_of (sessions st') (s_address h) = Some x \<and> s_ref x = s_ref h \<and>
        remembers (s_nonces x) nonce now 0"
    by (rule accept_data_nonce_call [OF i assms(2), of h nonce]) blast
  have bt: "b" "st' = st1" using b(1) assms(3) by simp_all
  note i1 = b(2) [unfolded bt(2)] and ev = b(3) [unfolded bt(2)]
  obtain x0 where x0: "(s_address h, x0) \<in> set (sessions st)" "s_ref x0 = s_ref h"
    using b(4) [OF bt(1)] by (auto dest: map_of_SomeD)
  obtain x where x: "map_of (sessions st1) (s_address h) = Some x" "s_ref x = s_ref h"
      "remembers (s_nonces x) nonce now 0"
    using b(5) [OF bt(1)] bt(2) by auto
  have "s_ref h < next_ref st" using i x0 by (auto simp: secure_inv_def secure_wf_def session_table_def)
  moreover have "distinct (keys (sessions st1))"
    using i1 by (simp add: secure_inv_def secure_wf_def session_table_def)
  then have "y = x" if "(s_address h, y) \<in> set (sessions st1)" for y
    using that x(1) by auto
  ultimately have rem: "session_remembers (s_address h) (s_ref h) nonce now 0 st1"
    using ev x(3) by (auto simp: session_remembers_def evolves_def)
  have cfg: "data_nonce_ttl st1 = data_nonce_ttl st" "data_nonce_max st1 = data_nonce_max st"
    using ev by (auto simp: evolves_def config_of_def)
  have i2: "secure_inv 0 u st2" using secure_runs_inv [OF assms(4) i1] by simp
  have r2: "config_of st2 = config_of st1" "session_remembers (s_address h) (s_ref h) nonce now n st2"
    using runs_remember [OF assms(4) i1 rem] assms(5-7) cfg by auto
  obtain b2 st3 where b2: "accept_data_nonce h nonce now' st2 = Inr (b2, st3)"
      "\<And>u n. (\<forall>x. (s_address h, x) \<in> set (sessions st2) \<longrightarrow> s_ref x = s_ref h \<longrightarrow>
         remembers (s_nonces x) nonce u n) \<Longrightarrow> now' - u < data_nonce_ttl st2 \<Longrightarrow> \<not> b2"
    by (rule accept_data_nonce_call [OF i2 assms(5), of h nonce]) blast
  have "\<not> b2"
    using r2 cfg assms(6) by (intro b2(2) [of now n]) (auto simp: session_remembers_def config_of_def)
  with b2(1) show ?thesis by simp
qed

lemma data_nonce_single_use_witness:
  "\<exists>st. accept_data_nonce (fst example_installed) ''n'' 9 example_accepted = Inr (False, st)"
  using data_nonce_single_use [OF example_reach _ example_accepted secure_runs.none, of 9]
  by (simp add: example_installed_def secure_run)

text \<open>
  C23. A handshake is used once: after a handshake key was admitted, the same key is refused
  within its time to live, whatever calls come in between, as long as they are fewer than the
  capacity of the set of keys.
\<close>

theorem handshake_single_use:
  assumes "secure_reach t st" and "t \<le> now" and "accept_handshake_replay key now st = Inr (True, st1)"
    and "secure_runs now st1 n u st2" and "u \<le> now'"
    and "now' - now < x_ttl (handshake_replays st)" and "int n < x_max (handshake_replays st)"
  shows "\<exists>st3. accept_handshake_replay key now' st2 = Inr (False, st3)"
proof -
  have i: "secure_inv 0 t st" by (rule secure_reach_inv [OF assms(1)])
  obtain b st' where b: "accept_handshake_replay key now st = Inr (b, st')" "secure_inv 0 now st'"
      "evolves now st st'" "b \<Longrightarrow> remembers (handshake_replays st') key now 0"
    by (rule handshake_call [OF i assms(2), of key]) blast
  have bt: "b" "st' = st1" using b(1) assms(3) by simp_all
  note i1 = b(2) [unfolded bt(2)] and rem = b(4) [OF bt(1), unfolded bt(2)]
  have "expiring_set_wf (handshake_replays st)"
    using i by (simp add: secure_inv_def secure_wf_def handshake_account_def)
  then have cfg: "x_ttl (handshake_replays st1) = x_ttl (handshake_replays st)"
      "x_max (handshake_replays st1) = x_max (handshake_replays st)"
    using b(3) nonces_evolve_ok unfolding bt(2) evolves_def by blast+
  have i2: "secure_inv 0 u st2" using secure_runs_inv [OF assms(4) i1] by simp
  have r2: "remembers (handshake_replays st2) key now n"
      "x_ttl (handshake_replays st2) = x_ttl (handshake_replays st)"
    using runs_remember_handshake [OF assms(4) i1 rem] assms(5-7) cfg by auto
  obtain b2 st3 where b2: "accept_handshake_replay key now' st2 = Inr (b2, st3)"
      "\<And>u n. remembers (handshake_replays st2) key u n \<Longrightarrow>
         now' - u < x_ttl (handshake_replays st2) \<Longrightarrow> \<not> b2"
    by (rule handshake_call [OF i2 assms(5), of key]) blast
  have "\<not> b2" using r2 assms(6) by (intro b2(2) [OF r2(1)]) simp
  with b2(1) show ?thesis by simp
qed

lemma handshake_single_use_witness:
  "\<exists>st1 st2. accept_handshake_replay ''k'' 5 (snd example_installed) = Inr (True, st1) \<and>
     accept_handshake_replay ''k'' 9 st1 = Inr (False, st2)"
proof -
  obtain st1 where st1: "accept_handshake_replay ''k'' 5 (snd example_installed) = Inr (True, st1)"
    by (simp add: accept_handshake_replay_def example_installed_def secure_run)
  then show ?thesis
    using handshake_single_use [OF example_reach _ st1 secure_runs.none, of 9]
    by (simp add: example_installed_def secure_run)
qed

text \<open>
  Looking up the session of an address never raises and answers a session exactly when
  the table holds one for that address that was active within the session time to live; the
  expired sessions are removed on the way.
\<close>

theorem active_session_iff:
  assumes "secure_reach t st" and "t \<le> now"
  shows "\<exists>r st'. get_active_session a now st = Inr (r, st') \<and>
    (\<forall>x. r = Some x \<longleftrightarrow> (a, x) \<in> set (sessions st) \<and> now - s_last_seen x < session_ttl st) \<and>
    (\<forall>(a', x) \<in> set (sessions st'). now - s_last_seen x < session_ttl st)"
proof -
  obtain r st' where r: "get_active_session a now st = Inr (r, st')" "secure_inv 0 now st'"
      "r = map_of (sessions st') a"
      "sessions st' = filter (\<lambda>p. now - s_last_seen (snd p) < session_ttl st) (sessions st)"
    using get_active_call [OF secure_reach_inv [OF assms(1)] assms(2), of a] by metis
  have "distinct (keys (sessions st'))"
    using r(2) by (simp add: secure_inv_def secure_wf_def session_table_def)
  then have "r = Some x \<longleftrightarrow> (a, x) \<in> set (sessions st')" for x using r(3) by auto
  with r(1,4) show ?thesis by auto
qed

lemma active_session_iff_witness:
  "\<exists>st. get_active_session 7 5 (snd example_installed) = Inr (Some (fst example_installed), st)"
  using active_session_iff [OF example_reach, of 5 7]
  by (auto simp: example_installed_def secure_run)

end
