(* ===== verification/UdpsecProtocol.thy ===== *)
theory UdpsecProtocol
  imports PyText
begin

section \<open>The handshake packets (\<open>core/udpsec_protocol.py\<close>)\<close>

text \<open>
  ClientHello and ServerHello, their validation, and the canonical pipe-delimited codec:
  strict UTF-8 for the station, canonical decimal for the timestamp, canonical base64 for the
  binary fields. \<open>base64.b64encode\<close> and \<open>b64decode(..., validate=True)\<close> are defined first.
\<close>

subsection \<open>Base64\<close>

definition b64_char :: "nat \<Rightarrow> nat" where
  "b64_char v = (if v < 26 then 65 + v else if v < 52 then 71 + v else if v < 62 then v - 4
     else if v = 62 then 43 else 47)"

definition b64_value :: "nat \<Rightarrow> nat option" where
  "b64_value c = (if 65 \<le> c \<and> c \<le> 90 then Some (c - 65)
     else if 97 \<le> c \<and> c \<le> 122 then Some (c - 71)
     else if 48 \<le> c \<and> c \<le> 57 then Some (c + 4)
     else if c = 43 then Some 62 else if c = 47 then Some 63 else None)"

fun b64_enc :: "nat list \<Rightarrow> nat list" where
  "b64_enc [] = []"
| "b64_enc [a] = [b64_char (a div 4), b64_char (a mod 4 * 16), 61, 61]"
| "b64_enc [a, b] =
     [b64_char (a div 4), b64_char (a mod 4 * 16 + b div 16), b64_char (b mod 16 * 4), 61]"
| "b64_enc (a # b # c # r) =
     b64_char (a div 4) # b64_char (a mod 4 * 16 + b div 16) # b64_char (b mod 16 * 4 + c div 64) #
     b64_char (c mod 64) # b64_enc r"

text \<open>
  Groups of four characters; padding ends the input. Bits that do not fill a byte are dropped.
\<close>

fun b64_dec :: "nat list \<Rightarrow> nat list option" where
  "b64_dec [] = Some []"
| "b64_dec (p # q # r # s # rest) =
     (case (b64_value p, b64_value q, b64_value r, b64_value s) of
        (Some a, Some b, Some c, Some d) \<Rightarrow>
          map_option (\<lambda>bs. (a * 4 + b div 16) # (b mod 16 * 16 + c div 4) # (c mod 4 * 64 + d) # bs)
            (b64_dec rest)
      | (Some a, Some b, Some c, None) \<Rightarrow>
          if s = 61 \<and> rest = [] then Some [a * 4 + b div 16, b mod 16 * 16 + c div 4] else None
      | (Some a, Some b, None, None) \<Rightarrow>
          if r = 61 \<and> s = 61 \<and> rest = [] then Some [a * 4 + b div 16] else None
      | _ \<Rightarrow> None)"
| "b64_dec _ = None"

definition b64encode :: "bytes \<Rightarrow> bytes" where
  "b64encode bs = map char_of (b64_enc (map of_char bs))"

definition b64decode :: "bytes \<Rightarrow> bytes res" where
  "b64decode bs = (case b64_dec (map of_char bs) of
     None \<Rightarrow> Inl ValueError | Some ds \<Rightarrow> Inr (map char_of ds))"

lemma b64_value_char: "v < 64 \<Longrightarrow> b64_value (b64_char v) = Some v"
  by (auto simp: b64_value_def b64_char_def)

lemma b64_char_range: "v < 64 \<Longrightarrow> b64_char v < 124 \<and> b64_char v \<noteq> 61"
  by (auto simp: b64_char_def)

lemma b64_sextets:
  assumes "(a::nat) < 256" and "b < 256" and "c < 256"
  shows "a div 4 < 64" "a mod 4 * 16 + b div 16 < 64" "b mod 16 * 4 + c div 64 < 64" "c mod 64 < 64"
    "a mod 4 * 16 < 64" "b mod 16 * 4 < 64"
    "a div 4 * 4 + (a mod 4 * 16 + b div 16) div 16 = a"
    "(a mod 4 * 16 + b div 16) mod 16 * 16 + (b mod 16 * 4 + c div 64) div 4 = b"
    "(b mod 16 * 4 + c div 64) mod 4 * 64 + c mod 64 = c"
    "a div 4 * 4 + a mod 4 * 16 div 16 = a"
    "(a mod 4 * 16 + b div 16) mod 16 * 16 + b mod 16 * 4 div 4 = b"
  using assms by (auto; presburger)+

lemma b64_dec_enc: "(\<forall>b \<in> set bs. b < 256) \<Longrightarrow> b64_dec (b64_enc bs) = Some bs"
proof (induction bs rule: b64_enc.induct)
  case (2 a)
  then show ?case using b64_sextets [of a 0 0]
    by (simp add: b64_value_char) (simp add: b64_value_def)
next
  case (3 a b)
  then show ?case using b64_sextets [of a b 0]
    by (simp add: b64_value_char) (simp add: b64_value_def)
next
  case (4 a b c r)
  then show ?case using b64_sextets [of a b c] by (simp add: b64_value_char)
qed simp

lemma b64_enc_range: "(\<forall>b \<in> set bs. b < 256) \<Longrightarrow> x \<in> set (b64_enc bs) \<Longrightarrow> x < 124"
proof (induction bs rule: b64_enc.induct)
  case (2 a)
  then show ?case using b64_sextets [of a 0 0] b64_char_range by auto
next
  case (3 a b)
  then show ?case using b64_sextets [of a b 0] b64_char_range by auto
next
  case (4 a b c r)
  then show ?case using b64_sextets [of a b c] b64_char_range by auto
qed simp

lemma of_char_b64encode: "map of_char (b64encode bs) = b64_enc (map of_char bs)"
proof -
  have "\<forall>b \<in> set (map of_char bs). b < (256::nat)" by auto
  from b64_enc_range [OF this] show ?thesis
    by (force simp: b64encode_def comp_def intro!: map_idI)
qed

lemma b64decode_encode: "b64decode (b64encode bs) = Inr bs"
proof -
  have "b64_dec (b64_enc (map of_char bs)) = Some (map of_char bs)" by (rule b64_dec_enc) auto
  then show ?thesis by (simp add: b64decode_def of_char_b64encode comp_def)
qed

lemma b64encode_no_pipe: "CHR ''|'' \<notin> set (b64encode bs)"
proof
  assume "CHR ''|'' \<in> set (b64encode bs)"
  then have "of_char (CHR ''|'') \<in> set (map of_char (b64encode bs) :: nat list)"
    unfolding set_map by (rule imageI)
  then show False
    unfolding of_char_b64encode using b64_enc_range [of "map of_char bs" 124] by auto
qed

lemma b64encode_empty [simp]: "b64encode bs = [] \<longleftrightarrow> bs = []"
  by (cases "map of_char bs :: nat list" rule: b64_enc.cases) (auto simp: b64encode_def)

subsection \<open>The packets\<close>

record client_hello =
  ch_station_id :: pystr
  ch_timestamp :: int
  ch_random :: bytes
  ch_public_key :: bytes
  ch_signature :: bytes

record server_hello =
  sh_random :: bytes
  sh_public_key :: bytes
  sh_signature :: bytes

definition max_timestamp :: int where
  "max_timestamp = 2 ^ 64 - 1"

definition station_id_bytes :: "pyval \<Rightarrow> bytes res" where
  "station_id_bytes v =
     (case v of
        PStr s \<Rightarrow>
          if s = [] then Inl ValueError
          else if 124 \<in> set s then Inl ValueError
          else (case encode_strict s of Inl _ \<Rightarrow> Inl ValueError | Inr bs \<Rightarrow> Inr bs)
      | _ \<Rightarrow> Inl TypeError)"

definition validate_timestamp :: "pyval \<Rightarrow> int res" where
  "validate_timestamp v =
     (case v of
        PInt t \<Rightarrow> if \<not> (0 \<le> t \<and> t \<le> max_timestamp) then Inl ValueError else Inr t
      | _ \<Rightarrow> Inl TypeError)"

definition require_immutable_bytes :: "pyval \<Rightarrow> bytes res" where
  "require_immutable_bytes v = (case v of PBytes bs \<Rightarrow> Inr bs | _ \<Rightarrow> Inl TypeError)"

definition validate_random :: "pyval \<Rightarrow> bytes res" where
  "validate_random v = rbind (require_immutable_bytes v) (\<lambda>bs.
     if length bs \<noteq> 32 then Inl ValueError else Inr bs)"

definition validate_ephemeral_public_key :: "pyval \<Rightarrow> bytes res" where
  "validate_ephemeral_public_key v = rbind (require_immutable_bytes v) (\<lambda>bs.
     if length bs \<noteq> 33 then Inl ValueError
     else if of_char (bs ! 0) \<notin> {2, 3 :: nat} then Inl ValueError else Inr bs)"

definition validate_signature :: "pyval \<Rightarrow> bytes res" where
  "validate_signature v = rbind (require_immutable_bytes v) (\<lambda>bs.
     if bs = [] then Inl ValueError else Inr bs)"

definition make_client_hello ::
  "pyval \<Rightarrow> pyval \<Rightarrow> pyval \<Rightarrow> pyval \<Rightarrow> pyval \<Rightarrow> client_hello res" where
  "make_client_hello station timestamp random public_key signature =
     rbind (station_id_bytes station) (\<lambda>_.
     rbind (validate_timestamp timestamp) (\<lambda>t.
     rbind (validate_random random) (\<lambda>r.
     rbind (validate_ephemeral_public_key public_key) (\<lambda>k.
     rbind (validate_signature signature) (\<lambda>g.
       Inr \<lparr>ch_station_id = the (as_str station), ch_timestamp = t, ch_random = r,
            ch_public_key = k, ch_signature = g\<rparr>)))))"

definition make_server_hello :: "pyval \<Rightarrow> pyval \<Rightarrow> pyval \<Rightarrow> server_hello res" where
  "make_server_hello random public_key signature =
     rbind (validate_random random) (\<lambda>r.
     rbind (validate_ephemeral_public_key public_key) (\<lambda>k.
     rbind (validate_signature signature) (\<lambda>g.
       Inr \<lparr>sh_random = r, sh_public_key = k, sh_signature = g\<rparr>)))"

definition decode_base64 :: "bytes \<Rightarrow> bytes res" where
  "decode_base64 encoded =
     (if encoded = [] then Inl ValueError
      else (case b64decode encoded of
              Inl _ \<Rightarrow> Inl ValueError
            | Inr decoded \<Rightarrow> if b64encode decoded \<noteq> encoded then Inl ValueError else Inr decoded))"

text \<open>The ASCII bytes of a string literal or of \<open>str(n)\<close>.\<close>

definition ascii :: "pystr \<Rightarrow> bytes" where
  "ascii s = map char_of s"

definition max_timestamp_ascii :: bytes where
  "max_timestamp_ascii = ascii (int_str max_timestamp)"

definition parse_timestamp :: "bytes \<Rightarrow> int res" where
  "parse_timestamp encoded =
     (let ds = map of_char encoded :: pystr; mx = map of_char max_timestamp_ascii :: pystr
      in if encoded = ''0'' then Inr 0
         else if encoded = [] \<or> \<not> (0x31 \<le> ds ! 0 \<and> ds ! 0 \<le> 0x39) \<or>
                 list_ex (\<lambda>v. \<not> (0x30 \<le> v \<and> v \<le> 0x39)) (tl ds)
         then Inl ValueError
         else if length encoded > length max_timestamp_ascii \<or>
                 (length encoded = length max_timestamp_ascii \<and> ds > mx)
         then Inl ValueError
         else (case py_int ds of
                 None \<Rightarrow> Inl ValueError
               | Some t \<Rightarrow> if ascii (int_str t) \<noteq> encoded then Inl ValueError else Inr t))"

definition split_packet :: "pyval \<Rightarrow> bytes \<Rightarrow> nat \<Rightarrow> bytes list res" where
  "split_packet packet prefix field_count =
     (case packet of
        PBytes bs \<Rightarrow>
          let fs = split_on (CHR ''|'') bs
          in if length fs \<noteq> field_count \<or> fs ! 0 \<noteq> prefix then Inl ValueError else Inr fs
      | _ \<Rightarrow> Inl TypeError)"

definition build_client_hello_packet :: "client_hello \<Rightarrow> bytes res" where
  "build_client_hello_packet h =
     rbind (station_id_bytes (PStr (ch_station_id h))) (\<lambda>station.
       Inr (join (CHR ''|'')
         [''NMEA-H'', station, ascii (int_str (ch_timestamp h)), b64encode (ch_random h),
          b64encode (ch_public_key h), b64encode (ch_signature h)]))"

definition parse_client_hello_packet :: "pyval \<Rightarrow> client_hello res" where
  "parse_client_hello_packet packet =
     rbind (split_packet packet ''NMEA-H'' 6) (\<lambda>fs.
     rbind (case utf8_decode Strict (fs ! 1) of Inl _ \<Rightarrow> Inl ValueError | Inr s \<Rightarrow> Inr s) (\<lambda>station.
     rbind (parse_timestamp (fs ! 2)) (\<lambda>t.
     rbind (decode_base64 (fs ! 3)) (\<lambda>r.
     rbind (decode_base64 (fs ! 4)) (\<lambda>k.
     rbind (decode_base64 (fs ! 5)) (\<lambda>g.
       make_client_hello (PStr station) (PInt t) (PBytes r) (PBytes k) (PBytes g)))))))"

definition build_server_hello_packet :: "server_hello \<Rightarrow> bytes" where
  "build_server_hello_packet h =
     join (CHR ''|'')
       [''OK'', b64encode (sh_random h), b64encode (sh_public_key h), b64encode (sh_signature h)]"

definition parse_server_hello_packet :: "pyval \<Rightarrow> server_hello res" where
  "parse_server_hello_packet packet =
     rbind (split_packet packet ''OK'' 4) (\<lambda>fs.
     rbind (decode_base64 (fs ! 1)) (\<lambda>r.
     rbind (decode_base64 (fs ! 2)) (\<lambda>k.
     rbind (decode_base64 (fs ! 3)) (\<lambda>g.
       make_server_hello (PBytes r) (PBytes k) (PBytes g)))))"

subsection \<open>Strict UTF-8 is canonical\<close>

lemma digits2: "(y::nat) < 64 \<Longrightarrow> (x * 64 + y) div 64 = x \<and> (x * 64 + y) mod 64 = y"
  by simp

lemma digits3: "(y::nat) < 64 \<Longrightarrow> z < 64 \<Longrightarrow>
  (x * 4096 + y * 64 + z) div 4096 = x \<and> (x * 4096 + y * 64 + z) div 64 mod 64 = y \<and>
  (x * 4096 + y * 64 + z) mod 64 = z"
proof -
  assume yz: "y < 64" "z < 64"
  have e: "x * 4096 + y * 64 + z = (x * 64 + y) * 64 + z" by simp
  have d: "(x * 4096 + y * 64 + z) div 64 = x * 64 + y" "(x * 4096 + y * 64 + z) mod 64 = z"
    unfolding e using yz(2) div_mult_self3 [of 64 "x * 64 + y" z] mod_mult_self3 [of "x * 64 + y" 64 z]
    by (simp_all only: mod_less div_less)
  moreover have "(x * 4096 + y * 64 + z) div 4096 = (x * 4096 + y * 64 + z) div 64 div 64"
    by (simp add: div_mult2_eq [symmetric])
  ultimately show ?thesis using yz(1) by simp
qed

lemma digits4: "(y::nat) < 64 \<Longrightarrow> z < 64 \<Longrightarrow> w < 64 \<Longrightarrow>
  (x * 262144 + y * 4096 + z * 64 + w) div 262144 = x \<and>
  (x * 262144 + y * 4096 + z * 64 + w) div 4096 mod 64 = y \<and>
  (x * 262144 + y * 4096 + z * 64 + w) div 64 mod 64 = z \<and>
  (x * 262144 + y * 4096 + z * 64 + w) mod 64 = w"
proof -
  assume l: "y < 64" "z < 64" "w < 64"
  let ?n = "x * 262144 + y * 4096 + z * 64 + w"
  have e: "?n = (x * 64 + y) * 4096 + z * 64 + w" by simp
  have d: "?n div 4096 = x * 64 + y" "?n div 64 mod 64 = z" "?n mod 64 = w"
    unfolding e using digits3 [OF l(2,3), of "x * 64 + y"] by simp_all
  moreover have "?n div 262144 = ?n div 4096 div 64" by (simp add: div_mult2_eq [symmetric])
  ultimately show ?thesis using l(1) by simp
qed

lemma cont_digit: "is_cont c \<Longrightarrow> c - 128 < 64 \<and> 128 + (c - 128) = c"
  by (auto simp: is_cont_def)

lemma utf8_item_inverse:
  assumes "utf8_item (b # bs) = Unit c n"
  shows "b # bs = utf8_enc1 c @ drop (n - 1) bs \<and> c < 0x110000"
proof -
  consider "b < 128" | "128 \<le> b" "b < 194" | "194 \<le> b" "b < 224" | "224 \<le> b" "b < 240"
    | "240 \<le> b" "b < 245" | "245 \<le> b" by linarith
  then show ?thesis
  proof cases
    case 1
    then have "c = b" "n = 1" using assms by (simp_all add: utf8_item.simps(2))
    with 1 show ?thesis by (simp add: utf8_enc1.simps)
  next
    case 3
    with assms obtain d r where bs: "bs = d # r" "is_cont d" "c = (b - 192) * 64 + (d - 128)" "n = 2"
      by (auto simp: utf8_item.simps(2) split: list.splits if_splits)
    note d = cont_digit [OF bs(2)]
    have "c div 64 = b - 192" "c mod 64 = d - 128" using digits2 [of "d - 128"] d bs(3) by auto
    moreover have "128 \<le> c" "c < 2048" using 3 d unfolding bs(3) by linarith+
    ultimately show ?thesis using bs(1,4) d 3 by (simp add: utf8_enc1.simps)
  next
    case 4
    with assms obtain d e r where bs: "bs = d # e # r" "is_cont d" "is_cont e" "n = 3"
        "b = 224 \<longrightarrow> 160 \<le> d" "c = (b - 224) * 4096 + (d - 128) * 64 + (e - 128)"
      by (auto simp: utf8_item.simps(2) split: list.splits if_splits)
    note d = cont_digit [OF bs(2)] and e = cont_digit [OF bs(3)]
    have "c div 4096 = b - 224" "c div 64 mod 64 = d - 128" "c mod 64 = e - 128"
      using digits3 [of "d - 128" "e - 128" "b - 224"] d e bs(6) by auto
    moreover have "2048 \<le> c"
      using 4 bs(5) unfolding bs(6) by (cases "b = 224") auto
    moreover have "c < 65536" using 4 d e unfolding bs(6) by linarith
    ultimately show ?thesis using bs(1,4) d e 4 by (simp add: utf8_enc1.simps)
  next
    case 5
    with assms obtain d e f r where bs: "bs = d # e # f # r" "is_cont d" "is_cont e" "is_cont f"
        "n = 4" "b = 240 \<longrightarrow> 144 \<le> d" "b = 244 \<longrightarrow> d < 144"
        "c = (b - 240) * 262144 + (d - 128) * 4096 + (e - 128) * 64 + (f - 128)"
      by (auto simp: utf8_item.simps(2) split: list.splits if_splits)
    note d = cont_digit [OF bs(2)] and e = cont_digit [OF bs(3)] and f = cont_digit [OF bs(4)]
    have "c div 262144 = b - 240" "c div 4096 mod 64 = d - 128" "c div 64 mod 64 = e - 128"
        "c mod 64 = f - 128"
      using digits4 [of "d - 128" "e - 128" "f - 128" "b - 240"] d e f bs(8) by auto
    moreover have "65536 \<le> c"
      using 5 bs(6) unfolding bs(8) by (cases "b = 240") auto
    moreover have "b - 240 \<le> 3 \<or> b - 240 = 4 \<and> d - 128 \<le> 15" using 5 bs(7) by auto
    then have "c < 0x110000" using d e f unfolding bs(8) by linarith
    ultimately show ?thesis using bs(1,5) d e f 5 by (simp add: utf8_enc1.simps)
  qed (use assms in \<open>auto simp: utf8_item.simps(2)\<close>)
qed

lemma utf8_dec_inverse:
  "utf8_dec Strict bs = Some s \<Longrightarrow> utf8_enc s = bs \<and> wf_text s"
proof (induction Strict bs arbitrary: s rule: utf8_dec.induct)
  case (2 b bs)
  from 2(4) obtain c n where u: "utf8_item (b # bs) = Unit c n"
    by (auto split: utf8_seq.splits)
  with 2(4) obtain s' where s': "utf8_dec Strict (drop (n - 1) bs) = Some s'" "s = c # s'" by auto
  have "utf8_enc s' = drop (n - 1) bs \<and> wf_text s'" by (rule 2(1) [OF u s'(1)])
  then show ?case
    using utf8_item_inverse [OF u] s'(2) by (auto simp: utf8_enc_def wf_text_def)
qed (simp add: utf8_enc_def wf_text_def)

lemma encode_decode_strict:
  assumes "utf8_decode Strict bs = Inr s"
  shows "encode_strict s = Inr bs \<and> wf_text s"
proof -
  have d: "utf8_dec Strict (map of_char bs) = Some s"
    using assms by (simp add: utf8_decode_def split: option.splits)
  then have "utf8_enc s = map of_char bs" "wf_text s" "\<not> list_ex is_surrogate s"
    using utf8_dec_inverse [OF d] utf8_dec_ordinary [OF d] by auto
  then show ?thesis by (simp add: encode_strict_def encode_surrogatepass_def comp_def)
qed

subsection \<open>Canonical numbers\<close>

lemma ascii_of [simp]: "list_all (\<lambda>c. c < 256) s \<Longrightarrow> map of_char (ascii s) = (s :: pystr)"
  by (auto simp: ascii_def comp_def list_all_iff intro!: map_idI)

lemma nat_str_bytes: "list_all (\<lambda>c. c < 256) (nat_str n)"
  using nat_str_digits by (fastforce simp: list_all_iff)

lemma digits_value_bound:
  "(\<And>c. c \<in> set ds \<Longrightarrow> 48 \<le> c \<and> c \<le> 57) \<Longrightarrow> 0 \<le> digits_value ds \<and> digits_value ds < 10 ^ length ds"
proof (induction ds rule: rev_induct)
  case (snoc c ds)
  have "48 \<le> c \<and> c \<le> 57" using snoc.prems by simp
  moreover from this have "decimal_value c = Some (c - 48)" by (simp add: decimal_value_ascii)
  moreover have "0 \<le> digits_value ds \<and> digits_value ds < 10 ^ length ds" using snoc by simp
  ultimately show ?case by (auto simp: digits_value_snoc)
qed (simp add: digits_value_def)

lemma digits_value_append:
  "digits_value (as @ bs) = digits_value as * 10 ^ length bs + digits_value bs"
proof (induction bs rule: rev_induct)
  case (snoc c bs)
  then show ?case
    using digits_value_snoc [of "as @ bs" c] digits_value_snoc [of bs c] by (simp add: algebra_simps)
qed (simp add: digits_value_def)

lemma digits_value_Cons:
  "48 \<le> c \<Longrightarrow> c \<le> 57 \<Longrightarrow> digits_value (c # bs) = int (c - 48) * 10 ^ length bs + digits_value bs"
  using digits_value_append [of "[c]" bs] by (simp add: digits_value_def decimal_value_ascii)

text \<open>On strings of digits of the same length the order of the characters is the order of the numbers.\<close>

lemma digits_order:
  assumes "length as = length bs" and "\<And>c. c \<in> set as \<union> set bs \<Longrightarrow> 48 \<le> c \<and> c \<le> 57"
  shows "as < bs \<longleftrightarrow> digits_value as < digits_value bs"
  using assms
proof (induction as bs rule: list_induct2)
  case (Cons a as b bs)
  have d: "48 \<le> a" "a \<le> 57" "48 \<le> b" "b \<le> 57" using Cons.prems by auto
  have v: "digits_value (a # as) = int (a - 48) * 10 ^ length bs + digits_value as"
      "digits_value (b # bs) = int (b - 48) * 10 ^ length bs + digits_value bs"
    using d digits_value_Cons Cons.hyps by auto
  have bound: "0 \<le> digits_value as" "digits_value as < 10 ^ length bs" "0 \<le> digits_value bs"
      "digits_value bs < 10 ^ length bs"
    using digits_value_bound [of as] digits_value_bound [of bs] Cons.prems Cons.hyps by auto
  consider "a < b" | "a = b" | "b < a" by linarith
  then show ?case
  proof cases
    case 1
    then have "int (b - 48) \<ge> int (a - 48) + 1" using d by linarith
    then have "(int (a - 48) + 1) * 10 ^ length bs \<le> int (b - 48) * 10 ^ length bs"
      by (rule mult_right_mono) simp
    then have "int (a - 48) * 10 ^ length bs + 10 ^ length bs \<le> int (b - 48) * 10 ^ length bs"
      by (simp only: distrib_right mult_1)
    then have "digits_value (a # as) < digits_value (b # bs)" unfolding v using bound by linarith
    with 1 show ?thesis by simp
  next
    case 2
    then show ?thesis using Cons.IH Cons.prems unfolding v by simp
  next
    case 3
    then have "int (a - 48) \<ge> int (b - 48) + 1" using d by linarith
    then have "(int (b - 48) + 1) * 10 ^ length bs \<le> int (a - 48) * 10 ^ length bs"
      by (rule mult_right_mono) simp
    then have "int (b - 48) * 10 ^ length bs + 10 ^ length bs \<le> int (a - 48) * 10 ^ length bs"
      by (simp only: distrib_right mult_1)
    then have "\<not> digits_value (a # as) < digits_value (b # bs)" unfolding v using bound by linarith
    with 3 show ?thesis by simp
  qed
qed simp

lemma nat_str_head: "0 < n \<Longrightarrow> hd (nat_str n) \<noteq> 48"
proof (induction n rule: nat_str.induct)
  case (1 n)
  then show ?case
    by (subst nat_str.simps) (auto simp: hd_append)
qed

lemma nat_str_zero: "nat_str 0 = [48]"
  by (simp add: nat_str.simps)

lemma timestamp_text: "map of_char max_timestamp_ascii = nat_str (2 ^ 64 - 1)"
  "length max_timestamp_ascii = 20"
proof -
  show m: "map of_char max_timestamp_ascii = nat_str (2 ^ 64 - 1)"
    using nat_str_bytes by (simp add: max_timestamp_ascii_def max_timestamp_def int_str_def)
  have "length (map of_char max_timestamp_ascii :: pystr) = 20"
    unfolding m by (simp add: nat_str.simps)
  then show "length max_timestamp_ascii = 20" by simp
qed

lemma ascii_zero: "ascii (int_str 0) = ''0''"
proof -
  have "of_char (CHR ''0'') = (48::nat)" by simp
  then have "char_of (48::nat) = CHR ''0''" by (metis char_of_char)
  then show ?thesis by (simp add: ascii_def int_str_def nat_str_zero)
qed

lemma parse_timestamp_int_str:
  assumes "0 \<le> t" and "t \<le> max_timestamp"
  shows "parse_timestamp (ascii (int_str t)) = Inr t"
proof (cases "t = 0")
  case True
  then show ?thesis by (simp add: ascii_zero) (simp add: parse_timestamp_def)
next
  case False
  define n where "n = nat t"
  have n: "0 < n" "int n = t" "n \<le> 2 ^ 64 - 1"
    using assms False by (simp_all add: n_def max_timestamp_def)
  define ds where "ds = nat_str n"
  have i: "int_str t = ds" using n by (simp add: int_str_def ds_def n_def [symmetric] flip: n(2))
  have dig: "48 \<le> c \<and> c \<le> 57" if "c \<in> set ds" for c
    using nat_str_digits that unfolding ds_def by blast
  have e: "map of_char (ascii ds) = ds" "ascii ds \<noteq> []" "length (ascii ds) = length ds" "ds \<noteq> []"
    using ascii_of [OF nat_str_bytes, of n] by (simp_all add: ds_def) (simp_all add: ascii_def)
  have hd: "ds ! 0 \<noteq> 48" using nat_str_head [OF n(1)] e(4) by (simp add: ds_def hd_conv_nth)
  have first: "0x31 \<le> ds ! 0 \<and> ds ! 0 \<le> 0x39" using dig [of "ds ! 0"] hd e(4) by (cases ds) auto
  have rest: "\<not> list_ex (\<lambda>v. \<not> (0x30 \<le> v \<and> v \<le> 0x39)) (tl ds)"
    using dig by (auto simp: list_ex_iff dest: list.set_sel(2) [OF e(4)])
  have len: "length ds \<le> 20"
    unfolding ds_def using n(3) by (intro length_nat_str) auto
  have val: "digits_value ds = t" using n(2) by (simp add: ds_def digits_value_nat_str)
  have ord: "\<not> nat_str (2 ^ 64 - 1) < ds" if "length ds = 20"
  proof -
    have "length (nat_str (2 ^ 64 - 1)) = 20"
      using timestamp_text(2) unfolding timestamp_text(1) [symmetric] by simp
    then have "nat_str (2 ^ 64 - 1) < ds \<longleftrightarrow> digits_value (nat_str (2 ^ 64 - 1)) < digits_value ds"
      using that dig nat_str_digits by (intro digits_order) auto
    then show ?thesis using val assms(2) by (simp add: digits_value_nat_str max_timestamp_def)
  qed
  have z: "ascii ds \<noteq> ''0''"
  proof
    assume "ascii ds = ''0''"
    then have "map of_char (ascii ds) = [48 :: nat]" by simp
    then show False using e(1) hd by simp
  qed
  have "py_int ds = Some t"
    using py_int_ascii(1) [OF e(4)] len dig val by (simp add: max_str_digits_def)
  then show ?thesis
    unfolding i parse_timestamp_def Let_def e(1) timestamp_text(1)
    using z e(2,3) first rest len ord i by (simp add: timestamp_text(2))
qed

lemma parse_timestamp_canonical:
  assumes "parse_timestamp bs = Inr t"
  shows "bs = ascii (int_str t) \<and> 0 \<le> t \<and> t \<le> max_timestamp"
proof (cases "bs = ''0''")
  case True
  with assms show ?thesis
    by (simp add: parse_timestamp_def ascii_zero max_timestamp_def)
next
  case False
  define ds where "ds = (map of_char bs :: pystr)"
  have p: "bs \<noteq> []" "0x31 \<le> ds ! 0 \<and> ds ! 0 \<le> 0x39"
      "\<not> list_ex (\<lambda>v. \<not> (0x30 \<le> v \<and> v \<le> 0x39)) (tl ds)"
      "\<not> (length bs > length max_timestamp_ascii \<or>
        (length bs = length max_timestamp_ascii \<and> ds > map of_char max_timestamp_ascii))"
      "py_int ds = Some t" "ascii (int_str t) = bs"
    using assms False unfolding parse_timestamp_def Let_def ds_def [symmetric]
    by (auto split: if_splits option.splits)
  have ne: "ds \<noteq> []" "length ds = length bs" using p(1) by (simp_all add: ds_def)
  have dig: "48 \<le> c \<and> c \<le> 57" if "c \<in> set ds" for c
    using p(2,3) that ne(1) by (cases ds) (auto simp: list_ex_iff)
  have len: "length ds \<le> 20" using p(4) ne(2) by (simp add: timestamp_text(2))
  have t: "t = digits_value ds"
    using p(5) py_int_ascii(1) [OF ne(1)] len dig by (simp add: max_str_digits_def)
  have bound: "0 \<le> t" "t < 10 ^ length ds" using digits_value_bound [of ds] dig t by auto
  have "t \<le> max_timestamp"
  proof (cases "length ds = 20")
    case True
    have l: "length (nat_str (2 ^ 64 - 1)) = 20"
      using timestamp_text(2) unfolding timestamp_text(1) [symmetric] by simp
    have "\<not> nat_str (2 ^ 64 - 1) < ds" using p(4) True ne(2) by (simp add: timestamp_text)
    moreover have "nat_str (2 ^ 64 - 1) < ds \<longleftrightarrow>
        digits_value (nat_str (2 ^ 64 - 1)) < digits_value ds"
      using True l dig nat_str_digits by (intro digits_order) auto
    ultimately show ?thesis using t by (simp add: digits_value_nat_str max_timestamp_def)
  next
    case False
    then have "(10::int) ^ length ds \<le> 10 ^ 19" using len by (intro power_increasing) auto
    then show ?thesis using bound(2) by (simp add: max_timestamp_def)
  qed
  with p(6) bound(1) show ?thesis by simp
qed

subsection \<open>The codecs are inverse\<close>

definition valid_client_hello :: "client_hello \<Rightarrow> bool" where
  "valid_client_hello h \<longleftrightarrow> wf_text (ch_station_id h) \<and>
     make_client_hello (PStr (ch_station_id h)) (PInt (ch_timestamp h)) (PBytes (ch_random h))
       (PBytes (ch_public_key h)) (PBytes (ch_signature h)) = Inr h"

definition valid_server_hello :: "server_hello \<Rightarrow> bool" where
  "valid_server_hello h \<longleftrightarrow>
     make_server_hello (PBytes (sh_random h)) (PBytes (sh_public_key h)) (PBytes (sh_signature h)) = Inr h"

lemma decode_base64_iff: "decode_base64 bs = Inr x \<longleftrightarrow> x \<noteq> [] \<and> bs = b64encode x"
proof
  assume "decode_base64 bs = Inr x"
  then have "bs \<noteq> []" "b64encode x = bs"
    by (auto simp: decode_base64_def split: sum.splits if_splits)
  then show "x \<noteq> [] \<and> bs = b64encode x" by (cases x) (auto simp: b64encode_def)
next
  assume "x \<noteq> [] \<and> bs = b64encode x"
  then show "decode_base64 bs = Inr x" by (simp add: decode_base64_def b64decode_encode)
qed

lemma station_id_bytes_iff:
  "station_id_bytes (PStr s) = Inr bs \<longleftrightarrow> s \<noteq> [] \<and> 124 \<notin> set s \<and> encode_strict s = Inr bs"
  by (auto simp: station_id_bytes_def split: sum.splits)

lemma catch_Inr: "(case r of Inl _ \<Rightarrow> Inl e | Inr s \<Rightarrow> Inr s) = Inr y \<longleftrightarrow> r = Inr y"
  by (cases r) auto

lemma validate_field_iffs:
  "validate_timestamp (PInt t) = Inr u \<longleftrightarrow> 0 \<le> t \<and> t \<le> max_timestamp \<and> u = t"
  "validate_random (PBytes r) = Inr r' \<longleftrightarrow> length r = 32 \<and> r' = r"
  "validate_ephemeral_public_key (PBytes k) = Inr k' \<longleftrightarrow>
     length k = 33 \<and> of_char (k ! 0) \<in> {2, 3 :: nat} \<and> k' = k"
  "validate_signature (PBytes g) = Inr g' \<longleftrightarrow> g \<noteq> [] \<and> g' = g"
  by (auto simp: validate_timestamp_def validate_random_def validate_ephemeral_public_key_def
      validate_signature_def require_immutable_bytes_def split: if_splits)

lemma make_client_hello_iff:
  "make_client_hello (PStr s) (PInt t) (PBytes r) (PBytes k) (PBytes g) = Inr h \<longleftrightarrow>
     (\<exists>bs. station_id_bytes (PStr s) = Inr bs) \<and> 0 \<le> t \<and> t \<le> max_timestamp \<and> length r = 32 \<and>
     length k = 33 \<and> of_char (k ! 0) \<in> {2, 3 :: nat} \<and> g \<noteq> [] \<and>
     h = \<lparr>ch_station_id = s, ch_timestamp = t, ch_random = r, ch_public_key = k, ch_signature = g\<rparr>"
  unfolding make_client_hello_def rbind_Inr_iff validate_field_iffs as_str.simps option.sel
  by blast

lemma make_server_hello_iff:
  "make_server_hello (PBytes r) (PBytes k) (PBytes g) = Inr h \<longleftrightarrow>
     length r = 32 \<and> length k = 33 \<and> of_char (k ! 0) \<in> {2, 3 :: nat} \<and> g \<noteq> [] \<and>
     h = \<lparr>sh_random = r, sh_public_key = k, sh_signature = g\<rparr>"
  unfolding make_server_hello_def rbind_Inr_iff validate_field_iffs by blast

lemma station_no_pipe:
  assumes "wf_text s" and "station_id_bytes (PStr s) = Inr bs"
  shows "CHR ''|'' \<notin> set bs"
proof
  assume "CHR ''|'' \<in> set bs"
  then have "of_char (CHR ''|'') \<in> set (map of_char bs :: nat list)" unfolding set_map by (rule imageI)
  moreover have "map of_char bs = utf8_enc s"
    using assms by (auto simp: station_id_bytes_iff encode_strict_def split: if_splits)
  ultimately have "124 \<in> set (utf8_enc s)" by simp
  then obtain c where "c \<in> set s" "124 \<in> set (utf8_enc1 c)" by (auto simp: utf8_enc_def)
  then show False using utf8_enc1_ascii [of 124 c] assms(2) by (auto simp: station_id_bytes_iff)
qed

lemma int_str_no_pipe: "0 \<le> t \<Longrightarrow> CHR ''|'' \<notin> set (ascii (int_str t))"
proof
  assume t: "0 \<le> t" and "CHR ''|'' \<in> set (ascii (int_str t))"
  then have "of_char (CHR ''|'') \<in> set (map of_char (ascii (int_str t)) :: nat list)"
    unfolding set_map by (intro imageI)
  with t have "124 \<in> set (nat_str (nat t))" using nat_str_bytes by (simp add: int_str_def)
  then show False using nat_str_digits by fastforce
qed

lemma six_fields: "length fs = 6 \<Longrightarrow> fs = [fs ! 0, fs ! 1, fs ! 2, fs ! 3, fs ! 4, fs ! 5]"
  by (auto simp: eval_nat_numeral length_Suc_conv)

lemma four_fields: "length fs = 4 \<Longrightarrow> fs = [fs ! 0, fs ! 1, fs ! 2, fs ! 3]"
  by (auto simp: eval_nat_numeral length_Suc_conv)

lemma split_packet_iff:
  "split_packet (PBytes bs) prefix n = Inr fs \<longleftrightarrow>
     fs = split_on (CHR ''|'') bs \<and> length fs = n \<and> fs ! 0 = prefix"
  by (auto simp: split_packet_def Let_def)

text \<open>
  C24. The ClientHello codec is canonical: a packet parses to a hello exactly when the hello is
  valid and the packet is its encoding. So encoding and parsing are inverse, no two packets
  carry the same hello, and whatever parses would be accepted by the constructor.
\<close>

theorem client_hello_codec:
  "parse_client_hello_packet (PBytes bs) = Inr h \<longleftrightarrow>
   valid_client_hello h \<and> build_client_hello_packet h = Inr bs"
proof
  assume "parse_client_hello_packet (PBytes bs) = Inr h"
  then obtain fs s t r k g where p: "split_packet (PBytes bs) ''NMEA-H'' 6 = Inr fs"
      "utf8_decode Strict (fs ! 1) = Inr s" "parse_timestamp (fs ! 2) = Inr t"
      "decode_base64 (fs ! 3) = Inr r" "decode_base64 (fs ! 4) = Inr k"
      "decode_base64 (fs ! 5) = Inr g"
      "make_client_hello (PStr s) (PInt t) (PBytes r) (PBytes k) (PBytes g) = Inr h"
    unfolding parse_client_hello_packet_def rbind_Inr_iff catch_Inr by blast
  have f: "fs = split_on (CHR ''|'') bs" "length fs = 6" "fs ! 0 = ''NMEA-H''"
    using p(1) unfolding split_packet_iff by auto
  have s: "encode_strict s = Inr (fs ! 1)" "wf_text s" using encode_decode_strict [OF p(2)] by simp_all
  have h: "h = \<lparr>ch_station_id = s, ch_timestamp = t, ch_random = r, ch_public_key = k, ch_signature = g\<rparr>"
      "s \<noteq> []" "124 \<notin> set s"
    using p(7) by (auto simp: make_client_hello_iff station_id_bytes_iff)
  have "bs = join (CHR ''|'') fs" using join_split_on [of "CHR ''|''" bs] f(1) by simp
  also have "fs = [''NMEA-H'', fs ! 1, ascii (int_str t), b64encode r, b64encode k, b64encode g]"
    using six_fields [OF f(2)] f(3) parse_timestamp_canonical [OF p(3)] p(4-6)
    by (simp add: decode_base64_iff)
  finally have "build_client_hello_packet h = Inr bs"
    using h s(1) by (simp add: build_client_hello_packet_def station_id_bytes_iff rbind_Inr_iff)
  moreover have "valid_client_hello h" using p(7) s(2) h(1) by (simp add: valid_client_hello_def)
  ultimately show "valid_client_hello h \<and> build_client_hello_packet h = Inr bs" by simp
next
  assume "valid_client_hello h \<and> build_client_hello_packet h = Inr bs"
  then have v: "valid_client_hello h" and b: "build_client_hello_packet h = Inr bs" by simp_all
  let ?s = "ch_station_id h" and ?t = "ch_timestamp h"
  have c: "make_client_hello (PStr ?s) (PInt ?t) (PBytes (ch_random h)) (PBytes (ch_public_key h))
      (PBytes (ch_signature h)) = Inr h" "wf_text ?s"
    using v by (simp_all add: valid_client_hello_def)
  then have w: "0 \<le> ?t" "?t \<le> max_timestamp" "ch_random h \<noteq> []" "ch_public_key h \<noteq> []"
      "ch_signature h \<noteq> []"
    by (auto simp: make_client_hello_iff)
  obtain st where st: "station_id_bytes (PStr ?s) = Inr st"
    and bs: "bs = join (CHR ''|'') [''NMEA-H'', st, ascii (int_str ?t), b64encode (ch_random h),
      b64encode (ch_public_key h), b64encode (ch_signature h)]"
    using b by (auto simp: build_client_hello_packet_def rbind_Inr_iff)
  have "split_on (CHR ''|'') bs = [''NMEA-H'', st, ascii (int_str ?t), b64encode (ch_random h),
      b64encode (ch_public_key h), b64encode (ch_signature h)]"
    unfolding bs using station_no_pipe [OF c(2) st] int_str_no_pipe [OF w(1)] b64encode_no_pipe
    by (intro split_on_join) auto
  then have "split_packet (PBytes bs) ''NMEA-H'' 6 = Inr [''NMEA-H'', st, ascii (int_str ?t),
      b64encode (ch_random h), b64encode (ch_public_key h), b64encode (ch_signature h)]"
    by (simp add: split_packet_iff)
  moreover have "utf8_decode Strict st = Inr ?s"
    using st decode_encode_strict [OF c(2)] by (auto simp: station_id_bytes_iff)
  moreover have "decode_base64 (b64encode x) = Inr x" if "x \<noteq> []" for x
    using that by (simp add: decode_base64_iff)
  ultimately show "parse_client_hello_packet (PBytes bs) = Inr h"
    using c(1) w parse_timestamp_int_str [OF w(1,2)] by (simp add: parse_client_hello_packet_def)
qed

text \<open>The ServerHello codec is canonical in the same sense.\<close>

theorem server_hello_codec:
  "parse_server_hello_packet (PBytes bs) = Inr h \<longleftrightarrow>
   valid_server_hello h \<and> build_server_hello_packet h = bs"
proof
  assume "parse_server_hello_packet (PBytes bs) = Inr h"
  then obtain fs r k g where p: "split_packet (PBytes bs) ''OK'' 4 = Inr fs"
      "decode_base64 (fs ! 1) = Inr r" "decode_base64 (fs ! 2) = Inr k"
      "decode_base64 (fs ! 3) = Inr g" "make_server_hello (PBytes r) (PBytes k) (PBytes g) = Inr h"
    by (auto simp: parse_server_hello_packet_def rbind_Inr_iff)
  have f: "fs = split_on (CHR ''|'') bs" "length fs = 4" "fs ! 0 = ''OK''"
    using p(1) unfolding split_packet_iff by auto
  have h: "h = \<lparr>sh_random = r, sh_public_key = k, sh_signature = g\<rparr>"
    using p(5) by (simp add: make_server_hello_iff)
  have "bs = join (CHR ''|'') fs" using join_split_on [of "CHR ''|''" bs] f(1) by simp
  also have "fs = [''OK'', b64encode r, b64encode k, b64encode g]"
    using four_fields [OF f(2)] f(3) p(2-4) by (simp add: decode_base64_iff)
  finally show "valid_server_hello h \<and> build_server_hello_packet h = bs"
    using p(5) h by (simp add: build_server_hello_packet_def valid_server_hello_def)
next
  assume a: "valid_server_hello h \<and> build_server_hello_packet h = bs"
  then have c: "make_server_hello (PBytes (sh_random h)) (PBytes (sh_public_key h))
      (PBytes (sh_signature h)) = Inr h"
    by (simp add: valid_server_hello_def)
  then have w: "sh_random h \<noteq> []" "sh_public_key h \<noteq> []" "sh_signature h \<noteq> []"
    by (auto simp: make_server_hello_iff)
  have "split_on (CHR ''|'') bs = [''OK'', b64encode (sh_random h), b64encode (sh_public_key h),
      b64encode (sh_signature h)]"
    using a b64encode_no_pipe unfolding build_server_hello_packet_def
    by (elim conjE) (hypsubst, intro split_on_join, auto)
  then have "split_packet (PBytes bs) ''OK'' 4 = Inr [''OK'', b64encode (sh_random h),
      b64encode (sh_public_key h), b64encode (sh_signature h)]"
    by (simp add: split_packet_iff)
  moreover have "decode_base64 (b64encode x) = Inr x" if "x \<noteq> []" for x
    using that by (simp add: decode_base64_iff)
  ultimately show "parse_server_hello_packet (PBytes bs) = Inr h"
    using c w by (simp add: parse_server_hello_packet_def)
qed

end
