(* ===== verification/UdpsecCrypto.thy ===== *)
theory UdpsecCrypto
  imports PyText
begin

section \<open>Transcripts, signatures and session keys (\<open>core/udpsec_crypto.py\<close>)\<close>

text \<open>
  The module around the third-party package \<open>cryptography\<close>: what it checks, how it frames the
  transcripts it hashes and signs, and how it canonicalises ECDSA signatures. The package is
  a parameter, a record of the functions the module calls; \<open>Hash.update\<close> and \<open>finalize\<close> are
  the hash of the concatenated updates. A binary argument of the module is \<open>bytes\<close>,
  \<open>bytearray\<close> or \<open>memoryview\<close>; \<open>bytes(v)\<close> raises ValueError for a released view.
\<close>

record ('sk, 'pk) crypto =
  sha256 :: "bytes \<Rightarrow> bytes"
  hkdf_sha256 :: "nat \<Rightarrow> bytes \<Rightarrow> bytes \<Rightarrow> bytes \<Rightarrow> bytes"  \<comment> \<open>length, salt, info, secret\<close>
  is_p256_private :: "'sk \<Rightarrow> bool"
  is_p256_public :: "'pk \<Rightarrow> bool"
  from_encoded_point :: "bytes \<Rightarrow> 'pk option"
  compressed_point :: "'pk \<Rightarrow> bytes"
  ecdh_exchange :: "'sk \<Rightarrow> 'pk \<Rightarrow> bytes"
  ecdsa_sign :: "'sk \<Rightarrow> bytes \<Rightarrow> bytes"
  ecdsa_verify :: "'pk \<Rightarrow> bytes \<Rightarrow> bytes \<Rightarrow> bool"
  decode_dss :: "bytes \<Rightarrow> (int \<times> int) option"
  encode_dss :: "int \<Rightarrow> int \<Rightarrow> bytes"

datatype bytes_like = Bytes bytes | ByteArray bytes | MemoryView "bytes option" | NotBytes

text \<open>\<open>isinstance\<close> and \<open>bytes(value)\<close>\<close>

fun to_bytes :: "bytes_like \<Rightarrow> bytes res" where
  "to_bytes (Bytes b) = Inr b"
| "to_bytes (ByteArray b) = Inr b"
| "to_bytes (MemoryView (Some b)) = Inr b"
| "to_bytes (MemoryView None) = Inl ValueError"
| "to_bytes NotBytes = Inl TypeError"

definition p256_order :: int where
  "p256_order = 0xFFFFFFFF00000000FFFFFFFFFFFFFFFFBCE6FAADA7179E84F3B9CAC2FC632551"

definition p256_half_order :: int where
  "p256_half_order = p256_order div 2"

definition max_framed_length :: nat where
  "max_framed_length = 2 ^ 32 - 1"

record session_key_material =
  client_to_server_key :: bytes
  server_to_client_key :: bytes

definition make_session_key_material :: "bytes_like \<Rightarrow> bytes_like \<Rightarrow> session_key_material res" where
  "make_session_key_material c2s s2c =
     rbind (case c2s of Bytes b \<Rightarrow> if length b \<noteq> 32 then Inl ValueError else Inr b | _ \<Rightarrow> Inl TypeError)
       (\<lambda>a. rbind (case s2c of Bytes b \<Rightarrow> if length b \<noteq> 32 then Inl ValueError else Inr b
                   | _ \<Rightarrow> Inl TypeError)
       (\<lambda>b. Inr \<lparr>client_to_server_key = a, server_to_client_key = b\<rparr>))"

subsection \<open>Normalising the arguments\<close>

definition station_bytes :: "pyval \<Rightarrow> bytes res" where
  "station_bytes v =
     (case v of
        PStr s \<Rightarrow>
          if s = [] then Inl ValueError
          else (case encode_strict s of Inl _ \<Rightarrow> Inl ValueError | Inr bs \<Rightarrow> Inr bs)
      | _ \<Rightarrow> Inl TypeError)"

text \<open>\<open>n.to_bytes(k, "big")\<close>\<close>

fun to_bytes_big :: "nat \<Rightarrow> nat \<Rightarrow> bytes" where
  "to_bytes_big 0 n = []"
| "to_bytes_big (Suc k) n = char_of (n div 256 ^ k mod 256) # to_bytes_big k n"

definition timestamp_bytes :: "pyval \<Rightarrow> bytes res" where
  "timestamp_bytes v =
     (case v of
        PInt t \<Rightarrow> if \<not> (0 \<le> t \<and> t \<le> 2 ^ 64 - 1) then Inl ValueError else Inr (to_bytes_big 8 (nat t))
      | _ \<Rightarrow> Inl TypeError)"

definition required_bytes :: "bytes_like \<Rightarrow> bytes res" where
  "required_bytes v = rbind (to_bytes v) (\<lambda>b. if b = [] then Inl ValueError else Inr b)"

definition transcript_digest_bytes :: "bytes_like \<Rightarrow> bytes res" where
  "transcript_digest_bytes v =
     rbind (to_bytes v) (\<lambda>b. if length b \<noteq> 32 then Inl ValueError else Inr b)"

definition signature_bytes :: "bytes_like \<Rightarrow> bytes option res" where
  "signature_bytes v =
     (case to_bytes v of
        Inl TypeError \<Rightarrow> Inl TypeError
      | Inl _ \<Rightarrow> Inr None
      | Inr b \<Rightarrow> Inr (Some b))"

definition valid_p256_scalar :: "int \<Rightarrow> bool" where
  "valid_p256_scalar v \<longleftrightarrow> 1 \<le> v \<and> v < p256_order"

definition session_key_input_bytes :: "bytes_like \<Rightarrow> bytes res" where
  "session_key_input_bytes v =
     rbind (to_bytes v) (\<lambda>b. if length b \<noteq> 32 then Inl ValueError else Inr b)"

subsection \<open>Framing\<close>

definition framed_field :: "bytes \<Rightarrow> bytes res" where
  "framed_field v =
     (if length v > max_framed_length then Inl ValueError
      else Inr (to_bytes_big 4 (length v) @ v))"

definition domain_context :: bytes where "domain_context = ''AISMIXER-UDPSEC-ECDHE''"
definition client_auth_label :: bytes where "client_auth_label = ''CLIENT-AUTH''"
definition server_auth_label :: bytes where "server_auth_label = ''SERVER-AUTH''"
definition session_transcript_label :: bytes where
  "session_transcript_label = ''SESSION-TRANSCRIPT''"
definition session_key_schedule_label :: bytes where
  "session_key_schedule_label = ''SESSION-KEY-SCHEDULE''"
definition client_to_server_label :: bytes where "client_to_server_label = ''CLIENT-TO-SERVER''"
definition server_to_client_label :: bytes where "server_to_client_label = ''SERVER-TO-CLIENT''"
definition aes_256_gcm_key_label :: bytes where "aes_256_gcm_key_label = ''AES-256-GCM-KEY''"

definition session_key_info :: "bytes \<Rightarrow> bytes res" where
  "session_key_info direction =
     rbind (rmap framed_field
       [domain_context, session_key_schedule_label, direction, aes_256_gcm_key_label])
       (\<lambda>fs. Inr (concat fs))"

definition digest_fields :: "('sk, 'pk, 'z) crypto_scheme \<Rightarrow> bytes \<Rightarrow> bytes list \<Rightarrow> bytes res" where
  "digest_fields C label fs =
     rbind (rmap framed_field (domain_context # label # fs)) (\<lambda>gs. Inr (sha256 C (concat gs)))"

subsection \<open>Keys\<close>

definition derive_directional_session_key ::
  "('sk, 'pk, 'z) crypto_scheme \<Rightarrow> bytes \<Rightarrow> bytes \<Rightarrow> bytes \<Rightarrow> bytes res" where
  "derive_directional_session_key C shared_secret transcript_hash direction =
     rbind (session_key_info direction) (\<lambda>info.
       let key = hkdf_sha256 C 32 transcript_hash info shared_secret
       in if length key \<noteq> 32 then Inl RuntimeError else Inr key)"

definition serialize_ephemeral_public_key :: "('sk, 'pk, 'z) crypto_scheme \<Rightarrow> 'pk \<Rightarrow> bytes res" where
  "serialize_ephemeral_public_key C pk =
     (if \<not> is_p256_public C pk then Inl ValueError
      else let encoded = compressed_point C pk
           in if length encoded \<noteq> 33 \<or> of_char (encoded ! 0) \<notin> {2, 3 :: nat}
              then Inl RuntimeError else Inr encoded)"

definition parse_ephemeral_public_key :: "('sk, 'pk, 'z) crypto_scheme \<Rightarrow> bytes_like \<Rightarrow> 'pk res" where
  "parse_ephemeral_public_key C encoded =
     rbind (required_bytes encoded) (\<lambda>b.
       if length b \<noteq> 33 then Inl ValueError
       else if of_char (b ! 0) \<notin> {2, 3 :: nat} then Inl ValueError
       else (case from_encoded_point C b of
               None \<Rightarrow> Inl ValueError
             | Some pk \<Rightarrow>
                 rbind (serialize_ephemeral_public_key C pk) (\<lambda>canonical.
                   if canonical \<noteq> b then Inl ValueError else Inr pk)))"

definition derive_ephemeral_shared_secret ::
  "('sk, 'pk, 'z) crypto_scheme \<Rightarrow> 'sk \<Rightarrow> 'pk \<Rightarrow> bytes res" where
  "derive_ephemeral_shared_secret C sk pk =
     (if \<not> is_p256_private C sk then Inl ValueError
      else if \<not> is_p256_public C pk then Inl ValueError
      else let secret = ecdh_exchange C sk pk
           in if length secret \<noteq> 32 then Inl RuntimeError else Inr secret)"

definition derive_session_key_material ::
  "('sk, 'pk, 'z) crypto_scheme \<Rightarrow> bytes_like \<Rightarrow> bytes_like \<Rightarrow> session_key_material res" where
  "derive_session_key_material C shared_secret transcript_hash =
     rbind (session_key_input_bytes shared_secret) (\<lambda>secret.
     rbind (session_key_input_bytes transcript_hash) (\<lambda>h.
     rbind (derive_directional_session_key C secret h client_to_server_label) (\<lambda>c2s.
     rbind (derive_directional_session_key C secret h server_to_client_label) (\<lambda>s2c.
       if c2s = s2c then Inl RuntimeError
       else make_session_key_material (Bytes c2s) (Bytes s2c)))))"

subsection \<open>Signatures\<close>

definition sign_transcript_digest ::
  "('sk, 'pk, 'z) crypto_scheme \<Rightarrow> 'sk \<Rightarrow> bytes_like \<Rightarrow> bytes res" where
  "sign_transcript_digest C sk digest =
     (if \<not> is_p256_private C sk then Inl ValueError
      else rbind (transcript_digest_bytes digest) (\<lambda>d.
        let signature = ecdsa_sign C sk d
        in if signature = [] then Inl RuntimeError
           else (case decode_dss C signature of
                   None \<Rightarrow> Inl RuntimeError
                 | Some (r, s) \<Rightarrow>
                     if \<not> valid_p256_scalar r \<or> \<not> valid_p256_scalar s then Inl RuntimeError
                     else if encode_dss C r s \<noteq> signature then Inl RuntimeError
                     else let s' = if s > p256_half_order then p256_order - s else s;
                              canonical = encode_dss C r s'
                          in if canonical = [] then Inl RuntimeError else Inr canonical)))"

definition verify_transcript_signature ::
  "('sk, 'pk, 'z) crypto_scheme \<Rightarrow> 'pk \<Rightarrow> bytes_like \<Rightarrow> bytes_like \<Rightarrow> bool res" where
  "verify_transcript_signature C pk signature digest =
     (if \<not> is_p256_public C pk then Inl ValueError
      else rbind (transcript_digest_bytes digest) (\<lambda>d.
        rbind (signature_bytes signature) (\<lambda>sig.
          Inr (case sig of
                 None \<Rightarrow> False
               | Some b \<Rightarrow>
                   if b = [] then False
                   else (case decode_dss C b of
                           None \<Rightarrow> False
                         | Some (r, s) \<Rightarrow>
                             if \<not> valid_p256_scalar r \<or> \<not> valid_p256_scalar s then False
                             else if s > p256_half_order then False
                             else if encode_dss C r s \<noteq> b then False
                             else ecdsa_verify C pk b d)))))"

subsection \<open>Transcripts\<close>

definition client_hello_fields ::
  "pyval \<Rightarrow> pyval \<Rightarrow> bytes_like \<Rightarrow> bytes_like \<Rightarrow> bytes list res" where
  "client_hello_fields station timestamp random public_key =
     rbind (station_bytes station) (\<lambda>a.
     rbind (timestamp_bytes timestamp) (\<lambda>b.
     rbind (required_bytes random) (\<lambda>c.
     rbind (required_bytes public_key) (\<lambda>d. Inr [a, b, c, d]))))"

definition server_hello_fields :: "bytes_like \<Rightarrow> bytes_like \<Rightarrow> bytes list res" where
  "server_hello_fields random public_key =
     rbind (required_bytes random) (\<lambda>a. rbind (required_bytes public_key) (\<lambda>b. Inr [a, b]))"

definition build_client_auth_digest ::
  "('sk, 'pk, 'z) crypto_scheme \<Rightarrow> pyval \<Rightarrow> pyval \<Rightarrow> bytes_like \<Rightarrow> bytes_like \<Rightarrow> bytes res" where
  "build_client_auth_digest C station timestamp random public_key =
     rbind (client_hello_fields station timestamp random public_key) (\<lambda>fs.
       digest_fields C client_auth_label fs)"

definition build_server_auth_digest ::
  "('sk, 'pk, 'z) crypto_scheme \<Rightarrow> pyval \<Rightarrow> pyval \<Rightarrow> bytes_like \<Rightarrow> bytes_like \<Rightarrow> bytes_like \<Rightarrow>
   bytes_like \<Rightarrow> bytes_like \<Rightarrow> bytes res" where
  "build_server_auth_digest C station timestamp random public_key client_signature server_random
     server_public_key =
     rbind (client_hello_fields station timestamp random public_key) (\<lambda>ch.
     rbind (required_bytes client_signature) (\<lambda>cs.
     rbind (server_hello_fields server_random server_public_key) (\<lambda>sh.
       digest_fields C server_auth_label (ch @ [cs] @ sh))))"

definition build_session_transcript_hash ::
  "('sk, 'pk, 'z) crypto_scheme \<Rightarrow> pyval \<Rightarrow> pyval \<Rightarrow> bytes_like \<Rightarrow> bytes_like \<Rightarrow> bytes_like \<Rightarrow>
   bytes_like \<Rightarrow> bytes_like \<Rightarrow> bytes_like \<Rightarrow> bytes res" where
  "build_session_transcript_hash C station timestamp random public_key client_signature
     server_random server_public_key server_signature =
     rbind (client_hello_fields station timestamp random public_key) (\<lambda>ch.
     rbind (required_bytes client_signature) (\<lambda>cs.
     rbind (server_hello_fields server_random server_public_key) (\<lambda>sh.
     rbind (required_bytes server_signature) (\<lambda>ss.
       digest_fields C session_transcript_label (ch @ [cs] @ sh @ [ss])))))"

text \<open>The handshake replay key of the listener (\<open>aismixer_secure.py\<close>) is framed alike.\<close>

definition build_handshake_replay_key ::
  "('sk, 'pk, 'z) crypto_scheme \<Rightarrow> bytes_like \<Rightarrow> bytes_like \<Rightarrow> bytes res" where
  "build_handshake_replay_key C client_auth_digest client_signature =
     rbind (case client_auth_digest of
              Bytes b \<Rightarrow> if length b \<noteq> 32 then Inl ValueError else Inr b | _ \<Rightarrow> Inl TypeError) (\<lambda>d.
     rbind (case client_signature of
              Bytes b \<Rightarrow> if b = [] then Inl ValueError else Inr b | _ \<Rightarrow> Inl TypeError) (\<lambda>sg.
     rbind (rmap framed_field [domain_context, ''HANDSHAKE-REPLAY'', d, sg]) (\<lambda>gs.
       Inr (sha256 C (concat gs)))))"

subsection \<open>Framing is injective\<close>

lemma length_to_bytes_big [simp]: "length (to_bytes_big k n) = k"
  by (induction k) auto

lemma to_bytes_big_mod: "to_bytes_big k (n mod 256 ^ j) = to_bytes_big k n" if "k \<le> j"
  using that
proof (induction k)
  case (Suc k)
  have "n mod 256 ^ j div 256 ^ k mod 256 = n div 256 ^ k mod 256"
  proof -
    have "(256::nat) ^ j = 256 ^ k * 256 ^ (j - k)" using Suc.prems by (simp add: power_add [symmetric])
    then have "n mod 256 ^ j div 256 ^ k = n div 256 ^ k mod 256 ^ (j - k)"
      by (simp add: mod_mult2_eq)
    moreover have "(256::nat) dvd 256 ^ (j - k)" using Suc.prems by (intro dvd_power) auto
    ultimately show ?thesis by (simp add: mod_mod_cancel)
  qed
  with Suc show ?case by simp
qed simp

lemma to_bytes_big_inj:
  "n < 256 ^ k \<Longrightarrow> m < 256 ^ k \<Longrightarrow> to_bytes_big k n = to_bytes_big k m \<Longrightarrow> n = m"
proof (induction k arbitrary: n m)
  case (Suc k)
  have "n div 256 ^ k < 256" "m div 256 ^ k < 256"
    using Suc.prems(1,2) by (simp_all add: less_mult_imp_div_less mult.commute)
  moreover have "(of_char (char_of (n div 256 ^ k mod 256)) :: nat) = of_char (char_of (m div 256 ^ k mod 256))"
    using Suc.prems(3) by simp
  ultimately have d: "n div 256 ^ k = m div 256 ^ k" by simp
  have "to_bytes_big k (n mod 256 ^ k) = to_bytes_big k (m mod 256 ^ k)"
    using Suc.prems(3) to_bytes_big_mod [of k k] by simp
  then have "n mod 256 ^ k = m mod 256 ^ k" by (intro Suc.IH) simp_all
  with d show ?case by (metis div_mult_mod_eq)
qed simp

lemma framed_field_Inr:
  "framed_field v = Inr g \<longleftrightarrow> length v \<le> max_framed_length \<and> g = to_bytes_big 4 (length v) @ v"
  by (auto simp: framed_field_def)

lemma framed_prefix:
  assumes "framed_field v = Inr g" and "framed_field v' = Inr g'" and "g @ r = g' @ r'"
  shows "v = v' \<and> r = r'"
proof -
  have g: "g = to_bytes_big 4 (length v) @ v" "g' = to_bytes_big 4 (length v') @ v'"
    "length v < 256 ^ 4" "length v' < 256 ^ 4"
    using assms(1,2) by (auto simp: framed_field_Inr max_framed_length_def)
  have e: "to_bytes_big 4 (length v) @ (v @ r) = to_bytes_big 4 (length v') @ (v' @ r')"
    using assms(3) g by simp
  then have l: "to_bytes_big 4 (length v) = to_bytes_big 4 (length v')" "v @ r = v' @ r'"
    using append_eq_append_conv [of "to_bytes_big 4 (length v)" "to_bytes_big 4 (length v')"]
    by (metis length_to_bytes_big)+
  have "length v = length v'" by (rule to_bytes_big_inj [OF g(3,4) l(1)])
  with l(2) show ?thesis by simp
qed

lemma framed_nonempty: "framed_field v = Inr g \<Longrightarrow> g \<noteq> []"
  by (auto simp: framed_field_Inr dest: arg_cong [where f = length])

lemma framing_injective:
  "rmap framed_field fs = Inr gs \<Longrightarrow> rmap framed_field fs' = Inr gs' \<Longrightarrow> concat gs = concat gs' \<Longrightarrow>
   fs = fs'"
proof (induction fs arbitrary: gs fs' gs')
  case Nil
  then show ?case
    by (cases fs') (auto simp: rbind_Inr_iff dest: framed_nonempty)
next
  case (Cons f fs)
  obtain g gr where g: "framed_field f = Inr g" "rmap framed_field fs = Inr gr" "gs = g # gr"
    using Cons.prems(1) by (auto simp: rbind_Inr_iff)
  then obtain f' fr' where fs': "fs' = f' # fr'"
    using Cons.prems(2,3) framed_nonempty by (cases fs') auto
  then obtain g' gr' where g': "framed_field f' = Inr g'" "rmap framed_field fr' = Inr gr'" "gs' = g' # gr'"
    using Cons.prems(2) by (auto simp: rbind_Inr_iff)
  have "f = f' \<and> concat gr = concat gr'"
    using framed_prefix [OF g(1) g'(1)] Cons.prems(3) g(3) g'(3) by simp
  with Cons.IH [OF g(2) g'(2)] fs' show ?case by simp
qed

text \<open>Equal digests are equal transcripts, or a collision of the hash function.\<close>

definition collision :: "('sk, 'pk, 'z) crypto_scheme \<Rightarrow> bool" where
  "collision C \<longleftrightarrow> (\<exists>x y. x \<noteq> y \<and> sha256 C x = sha256 C y)"

lemma digest_fields_bind:
  assumes "digest_fields C l fs = Inr d" and "digest_fields C l' fs' = Inr d"
  shows "l = l' \<and> fs = fs' \<or> collision C"
proof -
  obtain gs gs' where g: "rmap framed_field (domain_context # l # fs) = Inr gs"
      "rmap framed_field (domain_context # l' # fs') = Inr gs'"
      "sha256 C (concat gs) = sha256 C (concat gs')"
    using assms by (auto simp: digest_fields_def rbind_Inr_iff simp del: rmap.simps)
  show ?thesis
  proof (cases "concat gs = concat gs'")
    case True
    then have "domain_context # l # fs = domain_context # l' # fs'"
      by (rule framing_injective [OF g(1,2)])
    then show ?thesis by simp
  next
    case False
    with g(3) show ?thesis by (auto simp: collision_def)
  qed
qed

lemma station_bytes_inj:
  assumes "station_bytes v = Inr bs" and "station_bytes v' = Inr bs"
    and "\<forall>s. v = PStr s \<longrightarrow> wf_text s" and "\<forall>s. v' = PStr s \<longrightarrow> wf_text s"
  shows "v = v'"
proof -
  obtain s s' where "v = PStr s" "encode_strict s = Inr bs" "v' = PStr s'" "encode_strict s' = Inr bs"
    using assms(1,2) by (cases v; cases v') (auto simp: station_bytes_def split: if_splits sum.splits)
  moreover from this have "utf8_decode Strict bs = Inr s" "utf8_decode Strict bs = Inr s'"
    using assms(3,4) decode_encode_strict by blast+
  ultimately show ?thesis by simp
qed

lemma timestamp_bytes_inj: "timestamp_bytes v = Inr bs \<Longrightarrow> timestamp_bytes v' = Inr bs \<Longrightarrow> v = v'"
proof -
  assume "timestamp_bytes v = Inr bs" "timestamp_bytes v' = Inr bs"
  then obtain t t' where t: "v = PInt t" "v' = PInt t'" "0 \<le> t" "t < 2 ^ 64" "0 \<le> t'" "t' < 2 ^ 64"
      "to_bytes_big 8 (nat t) = to_bytes_big 8 (nat t')"
    by (cases v; cases v') (auto simp: timestamp_bytes_def split: if_splits)
  then have "nat t = nat t'" by (intro to_bytes_big_inj [of _ 8]) (auto simp: nat_less_iff)
  with t show ?thesis by simp
qed

lemma client_hello_fields_inj:
  assumes "client_hello_fields v t r k = Inr fs" and "client_hello_fields v' t' r' k' = Inr fs"
    and "\<forall>s. v = PStr s \<longrightarrow> wf_text s" and "\<forall>s. v' = PStr s \<longrightarrow> wf_text s"
  shows "v = v' \<and> t = t' \<and> to_bytes r = to_bytes r' \<and> to_bytes k = to_bytes k' \<and> length fs = 4"
  using assms station_bytes_inj [OF _ _ assms(3,4)] timestamp_bytes_inj
  by (auto simp: client_hello_fields_def rbind_Inr_iff required_bytes_def split: if_splits)

subsection \<open>A toy package, for the witnesses\<close>

text \<open>
  The functions below satisfy what the theorems assume of the package. Scalars are encoded in
  unary, a signature is \<open>(1, n - 1)\<close>, hashing is the identity.
\<close>

definition toy_encode :: "int \<Rightarrow> int \<Rightarrow> bytes" where
  "toy_encode r s = replicate (nat r) (CHR ''r'') @ replicate (nat s) (CHR ''s'')"

definition toy_decode :: "bytes \<Rightarrow> (int \<times> int) option" where
  "toy_decode b = Some (int (length (filter (\<lambda>c. c = CHR ''r'') b)),
     int (length (filter (\<lambda>c. c = CHR ''s'') b)))"

definition toy :: "(unit, unit) crypto" where
  "toy = \<lparr>sha256 = id, hkdf_sha256 = (\<lambda>n salt info secret. take n (rev info @ salt)),
     is_p256_private = (\<lambda>_. True), is_p256_public = (\<lambda>_. True),
     from_encoded_point = (\<lambda>b. if b = replicate 33 (CHR 0x02) then Some () else None),
     compressed_point = (\<lambda>_. replicate 33 (CHR 0x02)), ecdh_exchange = (\<lambda>_ _. replicate 32 (CHR ''s'')),
     ecdsa_sign = (\<lambda>_ _. toy_encode 1 (p256_order - 1)),
     ecdsa_verify = (\<lambda>_ b _. (\<exists>s. toy_decode b = Some (1, s))),
     decode_dss = toy_decode, encode_dss = toy_encode\<rparr>"

lemma toy_decode_encode: "0 \<le> r \<Longrightarrow> 0 \<le> s \<Longrightarrow> toy_decode (toy_encode r s) = Some (r, s)"
  by (simp add: toy_decode_def toy_encode_def filter_replicate)

lemma toy_decode_one: "toy_decode (toy_encode 1 s) = Some (1, int (nat s))"
  by (simp add: toy_decode_def toy_encode_def filter_replicate)

subsection \<open>Properties\<close>


text \<open>A session transcript of small fields, for the witness.\<close>

definition example_transcript :: "bytes \<Rightarrow> bytes res" where
  "example_transcript g = build_session_transcript_hash toy (PStr (lit ''a'')) (PInt 5) (Bytes ''r'')
     (Bytes ''k'') (Bytes ''c'') (Bytes ''s'') (Bytes ''p'') (Bytes g)"

lemma example_transcript: "\<exists>d. example_transcript ''g'' = Inr d"
  by (simp add: example_transcript_def build_session_transcript_hash_def client_hello_fields_def
      station_bytes_def timestamp_bytes_def required_bytes_def server_hello_fields_def
      digest_fields_def framed_field_def max_framed_length_def lit_def encode_strict_def
      is_surrogate_def domain_context_def session_transcript_label_def encode_surrogatepass_def
      utf8_enc_def utf8_enc1.simps)


text \<open>
  Accepted signatures are not malleable: of the two scalars \<open>s\<close> and \<open>n - s\<close> that verify
  for a given \<open>r\<close> only one is ever accepted, in one encoding. So the signature bytes that enter
  the handshake replay key cannot be varied by a third party.
\<close>

theorem signature_not_malleable:
  assumes "verify_transcript_signature C pk (Bytes b) dg = Inr True"
    and "verify_transcript_signature C pk' (Bytes b') dg' = Inr True"
    and "decode_dss C b = Some (r, s)" and "decode_dss C b' = Some (r, s')"
    and "s' = s \<or> s' = p256_order - s"
  shows "b' = b"
proof -
  have v: "s \<le> p256_half_order" "encode_dss C r s = b" "s' \<le> p256_half_order" "encode_dss C r s' = b'"
    using assms(1-4)
    by (auto simp: verify_transcript_signature_def rbind_Inr_iff signature_bytes_def split: if_splits)
  have "p256_half_order + p256_half_order < p256_order"
    by (simp add: p256_half_order_def p256_order_def)
  with v(1,3) assms(5) have "s' = s" by linarith
  with v(2,4) show ?thesis by simp
qed

lemma signature_not_malleable_witness:
  "verify_transcript_signature toy () (Bytes (toy_encode 1 1)) (Bytes (replicate 32 (CHR ''d''))) = Inr True \<and>
   verify_transcript_signature toy () (Bytes (toy_encode 1 (p256_order - 1)))
     (Bytes (replicate 32 (CHR ''d''))) \<noteq> Inr True"
proof
  have d: "decode_dss toy (toy_encode 1 1) = Some (1, 1)"
      "decode_dss toy (toy_encode 1 (p256_order - 1)) = Some (1, p256_order - 1)"
    by (simp_all add: toy_def toy_decode_one p256_order_def)
  have "toy_encode 1 1 \<noteq> []" by (simp add: toy_encode_def)
  then show v: "verify_transcript_signature toy () (Bytes (toy_encode 1 1))
      (Bytes (replicate 32 (CHR ''d''))) = Inr True"
    using d(1) by (simp add: verify_transcript_signature_def transcript_digest_bytes_def
        signature_bytes_def valid_p256_scalar_def p256_order_def p256_half_order_def)
      (simp add: toy_def toy_decode_one)
  show "verify_transcript_signature toy () (Bytes (toy_encode 1 (p256_order - 1)))
      (Bytes (replicate 32 (CHR ''d''))) \<noteq> Inr True"
  proof
    assume "verify_transcript_signature toy () (Bytes (toy_encode 1 (p256_order - 1)))
      (Bytes (replicate 32 (CHR ''d''))) = Inr True"
    then have "toy_encode 1 (p256_order - 1) = toy_encode 1 1"
      using signature_not_malleable [OF v _ d, of "()"] by blast
    then have "toy_decode (toy_encode 1 (p256_order - 1)) = toy_decode (toy_encode 1 1)" by simp
    then show False by (simp add: toy_decode_one p256_order_def)
  qed
qed

text \<open>
  What \<open>sign_transcript_digest\<close> returns, \<open>verify_transcript_signature\<close> accepts: for a
  package whose signatures are canonical DER of scalars in range and whose verification
  accepts both \<open>(r, s)\<close> and \<open>(r, n - s)\<close>, signing never raises and the low-S form it
  chooses verifies under the key pair.
\<close>

theorem signed_digest_verifies:
  assumes "is_p256_private C sk" and "is_p256_public C pk" and "length d = 32"
    and "\<And>r s. valid_p256_scalar r \<Longrightarrow> valid_p256_scalar s \<Longrightarrow>
      encode_dss C r s \<noteq> [] \<and> decode_dss C (encode_dss C r s) = Some (r, s)"
    and "decode_dss C (ecdsa_sign C sk d) = Some (r0, s0)" and "valid_p256_scalar r0"
    and "valid_p256_scalar s0" and "encode_dss C r0 s0 = ecdsa_sign C sk d"
    and "ecdsa_verify C pk (encode_dss C r0 s0) d"
    and "ecdsa_verify C pk (encode_dss C r0 (p256_order - s0)) d"
  shows "\<exists>sig. sign_transcript_digest C sk (Bytes d) = Inr sig \<and>
    verify_transcript_signature C pk (Bytes sig) (Bytes d) = Inr True"
proof -
  define s1 where "s1 = (if s0 > p256_half_order then p256_order - s0 else s0)"
  have odd: "p256_order = 2 * p256_half_order + 1"
    by (simp add: p256_half_order_def p256_order_def)
  have s1: "valid_p256_scalar s1" "\<not> s1 > p256_half_order" "ecdsa_verify C pk (encode_dss C r0 s1) d"
    using assms(7,9,10) odd by (auto simp: s1_def valid_p256_scalar_def)
  have ne: "encode_dss C r0 s1 \<noteq> []" "decode_dss C (encode_dss C r0 s1) = Some (r0, s1)"
      "ecdsa_sign C sk d \<noteq> []"
    using assms(4) [OF assms(6) s1(1)] assms(4) [OF assms(6,7)] assms(8) by auto
  have "sign_transcript_digest C sk (Bytes d) = Inr (encode_dss C r0 s1)"
    using assms(1,3,5-8) ne(1,3)
    by (simp add: sign_transcript_digest_def transcript_digest_bytes_def Let_def s1_def [symmetric])
  moreover have "verify_transcript_signature C pk (Bytes (encode_dss C r0 s1)) (Bytes d) = Inr True"
    using assms(2,3,6) s1 ne(1,2)
    by (simp add: verify_transcript_signature_def transcript_digest_bytes_def signature_bytes_def)
  ultimately show ?thesis by blast
qed

lemma signed_digest_verifies_witness:
  "\<exists>sig. sign_transcript_digest toy () (Bytes (replicate 32 (CHR ''d''))) = Inr sig \<and>
    verify_transcript_signature toy () (Bytes sig) (Bytes (replicate 32 (CHR ''d''))) = Inr True"
proof (rule signed_digest_verifies [where ?r0.0 = 1 and ?s0.0 = "p256_order - 1"])
  fix r s assume "valid_p256_scalar r" "valid_p256_scalar s"
  then show "encode_dss toy r s \<noteq> [] \<and> decode_dss toy (encode_dss toy r s) = Some (r, s)"
    using toy_decode_encode [of r s] by (auto simp: toy_def valid_p256_scalar_def toy_encode_def)
qed (auto simp: toy_def toy_decode_one valid_p256_scalar_def p256_order_def)

end
