(* ===== verification/NetworkPolicy.thy ===== *)
theory NetworkPolicy
  imports PyText "HOL-Library.Word"
begin

unbundle bit_operations_syntax

section \<open>Source address policies (\<open>core/network_policy.py\<close>)\<close>

text \<open>
  The allow-list of a UDP ingress, with the parts of the standard library's \<open>ipaddress\<close> it
  uses: textual IPv4 and IPv6 addresses, networks in prefix, netmask and hostmask notation
  without host bits, membership. Addresses are machine words. What is shown: an unrestricted
  policy allows everything and an empty list nothing; otherwise exactly the texts are allowed
  that denote an address in the range of a listed network of the same version, where an IPv6
  address that embeds an IPv4 one counts as the latter.
\<close>

datatype ip_address = V4 "32 word" | V6 "128 word"

text \<open>A network: its first address and the length of its prefix.\<close>

datatype ip_network = N4 "32 word" nat | N6 "128 word" nat

datatype network_policy = Unrestricted | Networks "ip_network list"

subsection \<open>Textual addresses\<close>

definition ascii_digits :: "pystr \<Rightarrow> bool" where
  "ascii_digits s \<longleftrightarrow> s \<noteq> [] \<and> list_all (\<lambda>c. 48 \<le> c \<and> c \<le> 57) s"

definition decimal :: "pystr \<Rightarrow> nat" where
  "decimal s = foldl (\<lambda>n c. n * 10 + (c - 48)) 0 s"

definition parse_octet :: "pystr \<Rightarrow> nat option" where
  "parse_octet s =
     (if \<not> ascii_digits s \<or> length s > 3 then None
      else if s \<noteq> [48] \<and> hd s = 48 then None
      else if decimal s > 255 then None
      else Some (decimal s))"

definition ipv4_int :: "pystr \<Rightarrow> nat option" where
  "ipv4_int s =
     (case map parse_octet (split_on 46 s) of
        [Some a, Some b, Some c, Some d] \<Rightarrow> Some (((a * 256 + b) * 256 + c) * 256 + d)
      | _ \<Rightarrow> None)"

definition hex_digit_value :: "nat \<Rightarrow> nat option" where
  "hex_digit_value c = (if 48 \<le> c \<and> c \<le> 57 then Some (c - 48)
     else if 97 \<le> c \<and> c \<le> 102 then Some (c - 87)
     else if 65 \<le> c \<and> c \<le> 70 then Some (c - 55) else None)"

definition parse_hextet :: "pystr \<Rightarrow> nat option" where
  "parse_hextet s =
     (if s = [] \<or> length s > 4 \<or> None \<in> set (map hex_digit_value s) then None
      else Some (foldl (\<lambda>n v. n * 16 + the v) 0 (map hex_digit_value s)))"

text \<open>The groups: a group is its text, or the value of half an embedded IPv4 address.\<close>

datatype group = Text pystr | Half nat

fun group_value :: "group \<Rightarrow> nat option" where
  "group_value (Text s) = parse_hextet s"
| "group_value (Half n) = Some n"

definition ipv6_groups :: "pystr \<Rightarrow> group list option" where
  "ipv6_groups s =
     (let parts = split_on 58 s
      in if length parts < 3 then None
         else if 46 \<in> set (last parts) then
           (case ipv4_int (last parts) of
              None \<Rightarrow> None
            | Some v \<Rightarrow> Some (map Text (butlast parts) @ [Half (v div 65536), Half (v mod 65536)]))
         else Some (map Text parts))"

definition groups_value :: "group list \<Rightarrow> nat option" where
  "groups_value gs =
     (if None \<in> set (map group_value gs) then None
      else Some (foldl (\<lambda>n g. n * 65536 + the (group_value g)) 0 gs))"

definition skips :: "group list \<Rightarrow> nat list" where
  "skips gs = filter (\<lambda>i. gs ! i = Text []) [1..<length gs - 1]"

definition ipv6_int :: "pystr \<Rightarrow> nat option" where
  "ipv6_int s =
     (case ipv6_groups s of
        None \<Rightarrow> None
      | Some gs \<Rightarrow>
          if length gs > 9 then None
          else (case skips gs of
            [] \<Rightarrow> if length gs \<noteq> 8 then None else groups_value gs
          | [k] \<Rightarrow>
              let hi = (if hd gs = Text [] then k - 1 else k);
                  lo = (if last gs = Text [] then length gs - k - 2 else length gs - k - 1)
              in if hd gs = Text [] \<and> hi \<noteq> 0 \<or> last gs = Text [] \<and> lo \<noteq> 0 then None
                 else if 8 - (hi + lo) < 1 then None
                 else (case (groups_value (take hi gs), groups_value (drop (length gs - lo) gs)) of
                   (Some a, Some b) \<Rightarrow> Some (a * 65536 ^ (8 - hi) + b)
                 | _ \<Rightarrow> None)
          | _ \<Rightarrow> None))"

text \<open>\<open>_split_scope_id\<close>: the address without its zone.\<close>

definition split_scope_id :: "pystr \<Rightarrow> pystr option" where
  "split_scope_id s =
     (case partition_at 37 s of
        None \<Rightarrow> Some s
      | Some (a, scope) \<Rightarrow> if scope = [] \<or> 37 \<in> set scope then None else Some a)"

text \<open>\<open>IPv4Address(s)\<close>, \<open>IPv6Address(s)\<close> and \<open>ipaddress.ip_address(s)\<close>\<close>

definition ipv4_address :: "pystr \<Rightarrow> 32 word option" where
  "ipv4_address s = (if 47 \<in> set s then None else map_option of_nat (ipv4_int s))"

definition ipv6_address :: "pystr \<Rightarrow> 128 word option" where
  "ipv6_address s =
     (if 47 \<in> set s then None else map_option of_nat (Option.bind (split_scope_id s) ipv6_int))"

definition ip_address :: "pystr \<Rightarrow> ip_address option" where
  "ip_address s =
     (case ipv4_address s of Some w \<Rightarrow> Some (V4 w) | None \<Rightarrow> map_option V6 (ipv6_address s))"

subsection \<open>Textual networks\<close>

definition netmask :: "nat \<Rightarrow> 'a::len word" where
  "netmask p = NOT (mask (LENGTH('a) - p))"

text \<open>\<open>_prefix_from_prefix_string\<close>\<close>

definition prefix_string :: "nat \<Rightarrow> pystr \<Rightarrow> nat option" where
  "prefix_string bits s =
     (if \<not> ascii_digits s \<or> length s > max_str_digits then None
      else if decimal s > bits then None else Some (decimal s))"

text \<open>\<open>_prefix_from_ip_int\<close>: the length of a run of ones followed by zeros only.\<close>

definition prefix_from_ip_int :: "32 word \<Rightarrow> nat option" where
  "prefix_from_ip_int w = find (\<lambda>p. netmask p = w) [0..<33]"

definition prefix_from_ip_string :: "pystr \<Rightarrow> nat option" where
  "prefix_from_ip_string s =
     (case ipv4_int s of
        None \<Rightarrow> None
      | Some n \<Rightarrow>
          (case prefix_from_ip_int (of_nat n) of
             Some p \<Rightarrow> Some p
           | None \<Rightarrow> prefix_from_ip_int (NOT (of_nat n))))"

definition ipv4_network :: "pystr \<Rightarrow> pystr \<Rightarrow> ip_network option" where
  "ipv4_network a m =
     (case ipv4_address a of
        None \<Rightarrow> None
      | Some w \<Rightarrow>
          (case (case prefix_string 32 m of Some p \<Rightarrow> Some p | None \<Rightarrow> prefix_from_ip_string m) of
             None \<Rightarrow> None
           | Some p \<Rightarrow> if w AND netmask p \<noteq> w then None else Some (N4 w p)))"

definition ipv6_network :: "pystr \<Rightarrow> pystr \<Rightarrow> ip_network option" where
  "ipv6_network a m =
     (case (ipv6_address a, prefix_string 128 m) of
        (Some w, Some p) \<Rightarrow> if w AND netmask p \<noteq> w then None else Some (N6 w p)
      | _ \<Rightarrow> None)"

definition ip_network :: "pystr \<Rightarrow> ip_network option" where
  "ip_network s =
     (case split_on 47 s of
        [a, m] \<Rightarrow> (case ipv4_network a m of Some n \<Rightarrow> Some n | None \<Rightarrow> ipv6_network a m)
      | _ \<Rightarrow> None)"

fun host_network :: "ip_address \<Rightarrow> ip_network" where
  "host_network (V4 w) = N4 w 32"
| "host_network (V6 w) = N6 w 128"

subsection \<open>The policy\<close>

definition compile_network_entry :: "pyval \<Rightarrow> ip_network res" where
  "compile_network_entry entry =
     (case entry of
        PStr s \<Rightarrow>
          let value = strip s
          in if value = [] then Inl NetworkPolicyConfigError
             else (case (if 47 \<in> set value then ip_network value
                         else map_option host_network (ip_address value)) of
               None \<Rightarrow> Inl NetworkPolicyConfigError
             | Some n \<Rightarrow> Inr n)
      | _ \<Rightarrow> Inl NetworkPolicyConfigError)"

definition from_entries :: "pyval \<Rightarrow> network_policy res" where
  "from_entries entries =
     (case entries of
        PList vs \<Rightarrow> rbind (rmap compile_network_entry vs) (\<lambda>ns. Inr (Networks ns))
      | _ \<Rightarrow> Inl NetworkPolicyConfigError)"

definition compile_ingress_policy :: "(pyval \<times> pyval) list \<Rightarrow> network_policy res" where
  "compile_ingress_policy entry =
     (case map_of entry (PStr (lit ''allow_from'')) of
        None \<Rightarrow> Inr Unrestricted
      | Some PNone \<Rightarrow> Inl NetworkPolicyConfigError
      | Some v \<Rightarrow> from_entries v)"

definition is_deny_all :: "network_policy \<Rightarrow> bool" where
  "is_deny_all p \<longleftrightarrow> p = Networks []"

text \<open>\<open>address.ipv4_mapped\<close>\<close>

definition unmap :: "ip_address \<Rightarrow> ip_address" where
  "unmap a =
     (case a of
        V6 w \<Rightarrow> if drop_bit 32 w = 0xFFFF then V4 (ucast w) else a
      | _ \<Rightarrow> a)"

fun in_network :: "ip_address \<Rightarrow> ip_network \<Rightarrow> bool" where
  "in_network (V4 w) (N4 n p) = (w AND netmask p = n)"
| "in_network (V6 w) (N6 n p) = (w AND netmask p = n)"
| "in_network _ _ = False"

definition allows :: "network_policy \<Rightarrow> pystr \<Rightarrow> bool" where
  "allows policy peer =
     (case policy of
        Unrestricted \<Rightarrow> True
      | Networks ns \<Rightarrow>
          (case ip_address peer of
             None \<Rightarrow> False
           | Some a \<Rightarrow> list_ex (in_network (unmap a)) ns))"

subsection \<open>Ranges\<close>

text \<open>The numbers a network covers.\<close>

fun network_range :: "ip_network \<Rightarrow> nat set" where
  "network_range (N4 n p) = {unat n ..< unat n + 2 ^ (32 - p)}"
| "network_range (N6 n p) = {unat n ..< unat n + 2 ^ (128 - p)}"

fun version :: "ip_address \<Rightarrow> nat" where
  "version (V4 w) = 4"
| "version (V6 w) = 6"

fun net_version :: "ip_network \<Rightarrow> nat" where
  "net_version (N4 n p) = 4"
| "net_version (N6 n p) = 6"

fun ip_value :: "ip_address \<Rightarrow> nat" where
  "ip_value (V4 w) = unat w"
| "ip_value (V6 w) = unat w"

text \<open>A network without host bits.\<close>

fun network_ok :: "ip_network \<Rightarrow> bool" where
  "network_ok (N4 n p) = (p \<le> 32 \<and> n AND netmask p = n)"
| "network_ok (N6 n p) = (p \<le> 128 \<and> n AND netmask p = n)"

lemma unat_and_netmask:
  "unat (w AND netmask p :: 'a::len word) = unat w div 2 ^ (LENGTH('a) - p) * 2 ^ (LENGTH('a) - p)"
proof -
  let ?k = "LENGTH('a) - p"
  have "w AND NOT (mask ?k) = push_bit ?k (drop_bit ?k w)"
    by (rule bit_eqI) (auto simp: bit_simps)
  moreover have "unat (push_bit ?k (drop_bit ?k w)) = unat w div 2 ^ ?k * 2 ^ ?k"
  proof -
    have "unat w div 2 ^ ?k * 2 ^ ?k < 2 ^ LENGTH('a)"
      by (rule le_less_trans [OF div_times_less_eq_dividend unsigned_less])
    moreover have "unat (push_bit ?k (drop_bit ?k w)) =
        take_bit LENGTH('a) (push_bit ?k (drop_bit ?k (unat w)))"
      by (simp only: unsigned_push_bit_eq unsigned_drop_bit_eq take_bit_nat_eq_self [OF unsigned_less])
    ultimately show ?thesis
      by (simp only: push_bit_eq_mult drop_bit_eq_div take_bit_nat_eq_self)
  qed
  ultimately show ?thesis by (simp add: netmask_def)
qed

lemma aligned_div:
  fixes k :: nat
  assumes "n div k * k = (n :: nat)" and "0 < k"
  shows "w div k * k = n \<longleftrightarrow> n \<le> w \<and> w < n + k"
proof
  assume "w div k * k = n"
  then show "n \<le> w \<and> w < n + k"
    using div_mult_mod_eq [of w k] mod_less_divisor [OF assms(2), of w] by linarith
next
  assume w: "n \<le> w \<and> w < n + k"
  obtain q where q: "n = q * k" using assms(1) by metis
  have "w div k = q"
    using w q assms(2) by (intro div_nat_eqI) (simp_all add: mult.commute add.commute)
  then show "w div k * k = n" using q by simp
qed

lemma masked_range:
  fixes n w :: "'a::len word"
  assumes "n AND netmask p = n"
  shows "w AND netmask p = n \<longleftrightarrow> unat w \<in> {unat n ..< unat n + 2 ^ (LENGTH('a) - p)}"
proof -
  have "unat n div 2 ^ (LENGTH('a) - p) * 2 ^ (LENGTH('a) - p) = unat n"
    using arg_cong [OF assms, of unat] by (simp add: unat_and_netmask)
  from aligned_div [OF this, of "unat w"] show ?thesis
    by (simp add: word_unat_eq_iff unat_and_netmask)
qed

lemma in_network_iff:
  "network_ok n \<Longrightarrow> in_network a n \<longleftrightarrow> version a = net_version n \<and> ip_value a \<in> network_range n"
  using masked_range [where ?'a = 32] masked_range [where ?'a = 128]
  by (cases a; cases n) auto

lemma compile_entry_ok: "compile_network_entry v = Inr n \<Longrightarrow> network_ok n"
proof -
  assume "compile_network_entry v = Inr n"
  moreover from this obtain t where "v = PStr t" by (cases v) (auto simp: compile_network_entry_def)
  ultimately have s: "(if 47 \<in> set (strip t) then ip_network (strip t)
      else map_option host_network (ip_address (strip t))) = Some n"
    by (auto simp: compile_network_entry_def Let_def split: if_splits option.splits)
  show ?thesis
  proof (cases "47 \<in> set (strip t)")
    case True
    have p: "prefix_string b m = Some p \<Longrightarrow> p \<le> b" for b m p
      by (auto simp: prefix_string_def split: if_splits)
    have f: "prefix_from_ip_int w = Some p \<Longrightarrow> p \<le> 32" for w p
      by (auto simp: prefix_from_ip_int_def find_Some_iff)
    have q: "prefix_from_ip_string m = Some p \<Longrightarrow> p \<le> 32" for m p
      using f by (auto simp: prefix_from_ip_string_def split: option.splits)
    have 4: "ipv4_network a m = Some k \<Longrightarrow> network_ok k" for a m k
      using p [of 32] q by (auto simp: ipv4_network_def split: option.splits if_splits)
    have 6: "ipv6_network a m = Some k \<Longrightarrow> network_ok k" for a m k
      using p by (auto simp: ipv6_network_def split: option.splits if_splits)
    show ?thesis
      using True s 4 6 by (auto simp: ip_network_def split: list.splits option.splits)
  next
    case False
    then obtain a where "n = host_network a" using s by auto
    then show ?thesis by (cases a) (simp_all add: netmask_def)
  qed
qed

text \<open>
  The allow-list means what it says. A policy compiled from a list of entries allows
  exactly the peer texts that denote an address inside the numeric range of one of the
  compiled networks of the same version, an IPv6 address with an embedded IPv4 address being
  looked up as the latter; every entry has compiled to a network without host bits.
\<close>

theorem policy_ranges:
  assumes "from_entries entries = Inr policy"
  shows "\<exists>vs ns. entries = PList vs \<and> list_all2 (\<lambda>v n. compile_network_entry v = Inr n) vs ns \<and>
    list_all network_ok ns \<and>
    allows policy peer = (case ip_address peer of
        None \<Rightarrow> False
      | Some a \<Rightarrow> list_ex (\<lambda>n. version (unmap a) = net_version n \<and> ip_value (unmap a) \<in> network_range n) ns)"
proof -
  obtain vs ns where e: "entries = PList vs" "rmap compile_network_entry vs = Inr ns" "policy = Networks ns"
    using assms by (auto simp: from_entries_def rbind_Inr_iff split: pyval.splits)
  have all: "list_all2 (\<lambda>v n. compile_network_entry v = Inr n) vs ns" using e(2) by (simp add: rmap_Inr_iff)
  then have ok: "list_all network_ok ns"
    by (auto simp: list_all_length list_all2_conv_all_nth intro: compile_entry_ok)
  have "list_ex (in_network a) ns =
      list_ex (\<lambda>n. version a = net_version n \<and> ip_value a \<in> network_range n) ns" for a
    using ok by (auto simp: list_ex_iff list_all_iff in_network_iff)
  then show ?thesis using e all ok by (auto simp: allows_def split: option.splits)
qed

lemma policy_ranges_witness:
  "\<exists>policy vs ns. from_entries (PList [PStr (lit ''10.1.0.0/16'')]) = Inr policy \<and>
     PList [PStr (lit ''10.1.0.0/16'')] = PList vs \<and>
     list_all2 (\<lambda>v n. compile_network_entry v = Inr n) vs ns \<and>
     allows policy (lit ''::ffff:10.1.2.3'') \<and> \<not> allows policy (lit ''10.2.0.1'')"
proof -
  note eval = lit_def ipv4_int_def parse_octet_def ascii_digits_def decimal_def
  have c: "compile_network_entry (PStr (lit ''10.1.0.0/16'')) = Inr (N4 0x0A010000 16)"
  proof -
    have "strip (lit ''10.1.0.0/16'') = lit ''10.1.0.0/16''" "47 \<in> set (lit ''10.1.0.0/16'')"
      "split_on 47 (lit ''10.1.0.0/16'') = [lit ''10.1.0.0'', lit ''16'']" "lit ''10.1.0.0/16'' \<noteq> []"
      by (simp_all add: strip_def lit_def is_space_def)
    moreover have "ipv4_network (lit ''10.1.0.0'') (lit ''16'') = Some (N4 0x0A010000 16)"
      by (simp add: ipv4_network_def ipv4_address_def prefix_string_def max_str_digits_def eval
          netmask_def mask_eq_exp_minus_1)
    ultimately show ?thesis by (simp add: compile_network_entry_def ip_network_def)
  qed
  then have p: "from_entries (PList [PStr (lit ''10.1.0.0/16'')]) = Inr (Networks [N4 0x0A010000 16])"
    by (simp add: from_entries_def)
  have a: "map_option unmap (ip_address (lit ''::ffff:10.1.2.3'')) = Some (V4 0x0A010203)"
    by (simp add: ip_address_def ipv4_address_def ipv6_address_def split_scope_id_def partition_at_def
        ipv6_int_def ipv6_groups_def skips_def groups_value_def parse_hextet_def hex_digit_value_def
        upt_rec Let_def eval unmap_def drop_bit_eq_div)
  have b: "ip_address (lit ''10.2.0.1'') = Some (V4 0x0A020001)"
    by (simp add: ip_address_def ipv4_address_def eval)
  obtain x where x: "ip_address (lit ''::ffff:10.1.2.3'') = Some x" "unmap x = V4 0x0A010203" using a by auto
  from policy_ranges [OF p, of "lit ''::ffff:10.1.2.3''"] obtain vs ns where
    w: "PList [PStr (lit ''10.1.0.0/16'')] = PList vs" "list_all2 (\<lambda>v n. compile_network_entry v = Inr n) vs ns"
    "allows (Networks [N4 0x0A010000 16]) (lit ''::ffff:10.1.2.3'') =
      list_ex (\<lambda>n. version (unmap x) = net_version n \<and> ip_value (unmap x) \<in> network_range n) ns"
    using x(1) by auto
  have "ns = [N4 0x0A010000 16]" using w(1,2) c by (auto simp: list_all2_Cons1)
  with w(3) x(2) have "allows (Networks [N4 0x0A010000 16]) (lit ''::ffff:10.1.2.3'')" by simp
  moreover have "\<not> allows (Networks [N4 0x0A010000 16]) (lit ''10.2.0.1'')"
    by (simp add: allows_def b unmap_def netmask_def mask_eq_exp_minus_1)
  ultimately show ?thesis using p w(1,2) by blast
qed

end
