(* ===== verification/SecureListener.thy ===== *)
theory SecureListener
  imports SecureInvariant UdpsecProtocol UdpsecCrypto Json NetworkPolicy IngressFrame Identity Metrics
begin

section \<open>The secure listener (\<open>aismixer_secure.py\<close>)\<close>

text \<open>
  The datagrams of the encrypted ingress: handshakes, session confirmation, pings and NMEA
  messages. One datagram is one step of \<open>_secure_server_loop\<close>, which handles it without giving
  up control until it waits for room in the queue. A step has an environment: the readings of
  the two clocks, what \<open>os.urandom\<close> and the key generator return, and whether the socket
  takes a packet. The package \<open>cryptography\<close> is a parameter, as in \<open>UdpsecCrypto\<close>, here with
  AES-GCM and the public half of a private key; a cipher object is its key. Whatever an
  operation inside the \<open>try\<close> blocks raises is logged and leaves the state it had reached.
\<close>

type_synonym address = "pystr \<times> int \<times> int list"  \<comment> \<open>host, port, and what IPv6 adds\<close>

record ('sk, 'pk) listener_crypto = "('sk, 'pk) crypto" +
  public_key :: "'sk \<Rightarrow> 'pk"
  aes_encrypt :: "bytes \<Rightarrow> bytes \<Rightarrow> bytes \<Rightarrow> bytes \<Rightarrow> bytes"  \<comment> \<open>key, nonce, plaintext, associated data\<close>
  aes_decrypt :: "bytes \<Rightarrow> bytes \<Rightarrow> bytes \<Rightarrow> bytes \<Rightarrow> bytes option"

record ('sk, 'pk) listener_config =
  lc_crypto :: "('sk, 'pk) listener_crypto"
  lc_server_key :: 'sk
  lc_authorized :: "(pystr \<times> 'pk) list"
  lc_policy :: network_policy
  lc_input_id :: "pystr option"
  lc_nesting :: nat  \<comment> \<open>nesting allowed to \<open>json.loads\<close>\<close>

record 'sk datagram_env =
  de_now :: time
  de_wall :: time
  de_urandom :: "nat \<Rightarrow> bytes"
  de_ephemeral :: 'sk
  de_can_send :: bool

record listener =
  li_state :: "(address, bytes) secure_state"
  li_queue :: "frame list"
  li_sent :: "(address \<times> bytes) list"
  li_traffic :: input_traffic

subsection \<open>Authorised keys\<close>

definition load_authorized_identity_public_key ::
  "('sk, 'pk, 'z) crypto_scheme \<Rightarrow> pyval \<Rightarrow> 'pk res" where
  "load_authorized_identity_public_key C v =
     (case v of
        PStr s \<Rightarrow>
          if s = [] then Inl ValueError
          else if list_ex (\<lambda>c. 128 \<le> c) s then Inl ValueError
          else (case b64decode (ascii s) of
            Inl _ \<Rightarrow> Inl ValueError
          | Inr b \<Rightarrow>
              if b64encode b \<noteq> ascii s then Inl ValueError
              else if length b \<noteq> 33 then Inl ValueError
              else if of_char (b ! 0) \<notin> {2, 3 :: nat} then Inl ValueError
              else (case from_encoded_point C b of
                None \<Rightarrow> Inl ValueError
              | Some pk \<Rightarrow> if compressed_point C pk \<noteq> b then Inl ValueError else Inr pk))
      | _ \<Rightarrow> Inl TypeError)"

text \<open>The dictionary comprehension over the entries of the key file.\<close>

definition load_authorized_keys ::
  "('sk, 'pk, 'z) crypto_scheme \<Rightarrow> (pystr \<times> pyval) list \<Rightarrow> (pystr \<times> 'pk) list res" where
  "load_authorized_keys C entries =
     rbind (rmap (\<lambda>(name, key). rbind (load_authorized_identity_public_key C key) (\<lambda>pk. Inr (name, pk))) entries)
       (\<lambda>kvs. Inr (foldl (\<lambda>d (name, pk). AList.update name pk d) [] kvs))"

subsection \<open>Packets and messages\<close>

definition data_prefix :: bytes where "data_prefix = ''NMEA-D''"
definition hello_prefix :: bytes where "hello_prefix = ''NMEA-H''"
definition data_aad :: bytes where "data_aad = ''NMEA''"
definition confirmation_sequence :: int where "confirmation_sequence = 0"

definition starts_with :: "bytes \<Rightarrow> bytes \<Rightarrow> bool" where
  "starts_with p data \<longleftrightarrow> take (length p) data = p"

definition parse_secure_data_packet :: "bytes \<Rightarrow> (bytes \<times> bytes) res" where
  "parse_secure_data_packet data =
     (let n = length data_prefix
      in if \<not> starts_with data_prefix data then Inl ValueError
         else if length data < n + 12 + 16 then Inl ValueError
         else Inr (PyText.slice data n (n + 12), drop (n + 12) data))"

definition build_no_session_hint :: "pystr option \<Rightarrow> bytes res" where
  "build_no_session_hint station =
     (case station of
        None \<Rightarrow> Inr ''NOSESSION''
      | Some s \<Rightarrow> if s = [] then Inr ''NOSESSION''
                  else rbind (encode_strict s) (\<lambda>b. Inr (''NOSESSION'' @ ''|'' @ b)))"

definition encrypt_secure_json_message ::
  "('sk, 'pk) listener_crypto \<Rightarrow> bytes \<Rightarrow> bytes \<Rightarrow> pyval \<Rightarrow> bytes res" where
  "encrypt_secure_json_message C key nonce message =
     rbind (json_dumps True False message) (\<lambda>t.
     rbind (encode_strict t) (\<lambda>plaintext.
       Inr (data_prefix @ nonce @ aes_encrypt C key nonce plaintext data_aad)))"

text \<open>\<open>json.loads(plaintext.decode())\<close>\<close>

definition load_message :: "nat \<Rightarrow> bytes \<Rightarrow> pyval res" where
  "load_message lim plaintext =
     rbind (utf8_decode Strict plaintext) (\<lambda>t.
       case json_loads lim t of Inl e \<Rightarrow> Inl (json_exception e) | Inr v \<Rightarrow> Inr v)"

text \<open>\<open>message.get(k)\<close> of a decoded object; other values have no such method.\<close>

definition message_field :: "(pyval \<times> pyval) list \<Rightarrow> string \<Rightarrow> pyval" where
  "message_field d k = (case map_of d (PStr (lit k)) of None \<Rightarrow> PNone | Some v \<Rightarrow> v)"

definition is_session_confirmation_ping :: "pyval \<Rightarrow> pystr \<Rightarrow> bool" where
  "is_session_confirmation_ping message station =
     (case message of
        PDict d \<Rightarrow>
          message_field d ''type'' = PStr (lit ''ping'') \<and>
          as_int (message_field d ''seq'') = Some confirmation_sequence \<and>
          as_int (message_field d ''timestamp'') \<noteq> None \<and>
          message_field d ''source_id'' = PStr station
      | _ \<Rightarrow> False)"

text \<open>\<open>int(wall_now())\<close> truncates toward zero.\<close>

definition whole_seconds :: "time \<Rightarrow> int" where
  "whole_seconds t = (if t < 0 then - ((- t) div ticks_per_second) else t div ticks_per_second)"

definition pong :: "pyval \<Rightarrow> time \<Rightarrow> pystr \<Rightarrow> pyval" where
  "pong sequence wall station =
     PDict [(PStr (lit ''type''), PStr (lit ''pong'')), (PStr (lit ''seq''), sequence),
            (PStr (lit ''timestamp''), PInt (whole_seconds wall)), (PStr (lit ''source_id''), PStr station)]"

subsection \<open>The server half of the handshake\<close>

definition build_server_handshake ::
  "('sk, 'pk) listener_config \<Rightarrow> 'sk datagram_env \<Rightarrow> client_hello \<Rightarrow> 'pk \<Rightarrow> (bytes \<times> bytes \<times> bytes) res" where
  "build_server_handshake cfg env h client_key =
     (let C = lc_crypto cfg; random = de_urandom env 32; sk = de_ephemeral env
      in rbind (serialize_ephemeral_public_key C (public_key C sk)) (\<lambda>public.
         rbind (build_server_auth_digest C (PStr (ch_station_id h)) (PInt (ch_timestamp h)) (Bytes (ch_random h))
                  (Bytes (ch_public_key h)) (Bytes (ch_signature h)) (Bytes random) (Bytes public)) (\<lambda>digest.
         rbind (sign_transcript_digest C (lc_server_key cfg) (Bytes digest)) (\<lambda>signature.
         rbind (derive_ephemeral_shared_secret C sk client_key) (\<lambda>secret.
         rbind (build_session_transcript_hash C (PStr (ch_station_id h)) (PInt (ch_timestamp h)) (Bytes (ch_random h))
                  (Bytes (ch_public_key h)) (Bytes (ch_signature h)) (Bytes random) (Bytes public)
                  (Bytes signature)) (\<lambda>hash.
         rbind (derive_session_key_material C (Bytes secret) (Bytes hash)) (\<lambda>keys.
         rbind (make_server_hello (PBytes random) (PBytes public) (PBytes signature)) (\<lambda>hello.
           Inr (build_server_hello_packet hello, client_to_server_key keys, server_to_client_key keys)))))))))"

subsection \<open>One datagram\<close>

text \<open>The rest of a \<open>try\<close> block behind a call: an exception keeps the state reached so far.\<close>

definition attempt :: "'x res \<Rightarrow> 'l \<Rightarrow> ('x \<Rightarrow> 'l) \<Rightarrow> 'l" where
  "attempt r l f = (case r of Inl e \<Rightarrow> l | Inr x \<Rightarrow> f x)"

lemma attempt_simps [simp]: "attempt (Inl e) l f = l" "attempt (Inr x) l f = f x"
  by (simp_all add: attempt_def)

definition send :: "'sk datagram_env \<Rightarrow> address \<Rightarrow> bytes \<Rightarrow> listener \<Rightarrow> listener" where
  "send env addr packet l =
     (if de_can_send env then l\<lparr>li_sent := li_sent l @ [(addr, packet)]\<rparr> else l)"

text \<open>The checks of a ClientHello that come before any state changes.\<close>

definition authenticate_hello ::
  "('sk, 'pk) listener_config \<Rightarrow> 'sk datagram_env \<Rightarrow> bytes \<Rightarrow> (client_hello \<times> 'pk \<times> bytes) res" where
  "authenticate_hello cfg env data =
     (let C = lc_crypto cfg
      in rbind (parse_client_hello_packet (PBytes data)) (\<lambda>h.
         if \<bar>de_wall env - ch_timestamp h * ticks_per_second\<bar> > 30 * ticks_per_second then Inl ValueError
         else (case map_of (lc_authorized cfg) (ch_station_id h) of
           None \<Rightarrow> Inl ValueError
         | Some pk \<Rightarrow>
             rbind (build_client_auth_digest C (PStr (ch_station_id h)) (PInt (ch_timestamp h))
                      (Bytes (ch_random h)) (Bytes (ch_public_key h))) (\<lambda>digest.
             rbind (verify_transcript_signature C pk (Bytes (ch_signature h)) (Bytes digest)) (\<lambda>ok.
             if \<not> ok then Inl ValueError
             else rbind (parse_ephemeral_public_key C (Bytes (ch_public_key h))) (\<lambda>client_key.
                  rbind (build_handshake_replay_key C (Bytes digest) (Bytes (ch_signature h))) (\<lambda>key.
                    Inr (h, client_key, key))))))))"

definition handle_hello ::
  "('sk, 'pk) listener_config \<Rightarrow> 'sk datagram_env \<Rightarrow> bytes \<Rightarrow> address \<Rightarrow> listener \<Rightarrow> listener" where
  "handle_hello cfg env data addr l =
     attempt (authenticate_hello cfg env data) l (\<lambda>(h, client_key, key).
     attempt (accept_handshake_replay key (de_now env) (li_state l)) l (\<lambda>(fresh, st1).
       let l1 = l\<lparr>li_state := st1\<rparr>
       in if \<not> fresh then l1
          else attempt (build_server_handshake cfg env h client_key) l1 (\<lambda>(packet, c2s, s2c).
               attempt (install_pending_session addr (ch_station_id h) c2s s2c (de_now env) st1) l1 (\<lambda>(p, st2).
                 send env addr packet (l1\<lparr>li_state := st2\<rparr>)))))"

definition send_message ::
  "('sk, 'pk) listener_config \<Rightarrow> 'sk datagram_env \<Rightarrow> address \<Rightarrow> bytes \<Rightarrow> pyval \<Rightarrow> listener \<Rightarrow> listener" where
  "send_message cfg env addr key message l =
     attempt (encrypt_secure_json_message (lc_crypto cfg) key (de_urandom env 12) message) l (\<lambda>packet.
       send env addr packet l)"

text \<open>A packet the key of a pending session opens: the confirmation that promotes it.\<close>

definition confirm_session ::
  "('sk, 'pk) listener_config \<Rightarrow> 'sk datagram_env \<Rightarrow> address \<Rightarrow> (address, bytes) pending_session \<Rightarrow>
   bytes \<Rightarrow> bytes \<Rightarrow> listener \<Rightarrow> listener" where
  "confirm_session cfg env addr p nonce plaintext l =
     attempt (load_message (lc_nesting cfg) plaintext) l (\<lambda>message.
       if \<not> is_session_confirmation_ping message (p_station p) then l
       else attempt (accept_pending_data_nonce p nonce (de_now env) (li_state l)) l (\<lambda>(fresh, st1).
         let l1 = l\<lparr>li_state := st1\<rparr>
         in if \<not> fresh then l1
            else attempt (promote_pending_session addr p (de_now env) st1) l1 (\<lambda>(promoted, st2).
              let l2 = l1\<lparr>li_state := st2\<rparr>
              in (case promoted of
                    None \<Rightarrow> l2
                  | Some x \<Rightarrow>
                      attempt (touch_session addr x (de_now env) st2) l2 (\<lambda>(touched, st3).
                        let l3 = l2\<lparr>li_state := st3\<rparr>
                        in if \<not> touched then l3
                           else send_message cfg env addr (s_s2c x)
                                  (pong (PInt confirmation_sequence) (de_wall env) (s_station x)) l3)))))"

text \<open>What an authenticated message of an active session asks for.\<close>

datatype secure_message = Ping pyval | Nmea pyval | Refused

definition classify_message :: "(pyval \<times> pyval) list \<Rightarrow> pystr \<Rightarrow> secure_message" where
  "classify_message d station =
     (if message_field d ''source_id'' \<noteq> PStr station then Refused
      else if message_field d ''type'' = PStr (lit ''ping'') then
        (case as_int (message_field d ''seq'') of
           None \<Rightarrow> Refused
         | Some n \<Rightarrow> if n \<le> confirmation_sequence then Refused else Ping (message_field d ''seq''))
      else if message_field d ''type'' = PStr (lit ''nmea'') then
        (case map_of d (PStr (lit ''payload'')) of None \<Rightarrow> Refused | Some v \<Rightarrow> Nmea v)
      else Refused)"

definition source_alias :: "pystr option \<Rightarrow> pystr \<Rightarrow> pystr" where
  "source_alias input_id station =
     (case input_id of
        Some s \<Rightarrow> if s \<noteq> [] then s else if station \<noteq> [] then station else lit ''ANONYMOUS''
      | None \<Rightarrow> if station \<noteq> [] then station else lit ''ANONYMOUS'')"

definition queue_payload ::
  "('sk, 'pk) listener_config \<Rightarrow> address \<Rightarrow> pystr \<Rightarrow> pyval \<Rightarrow> listener \<Rightarrow> listener" where
  "queue_payload cfg addr station v l =
     attempt (build_udpsec_source_id (Some station)) l (\<lambda>source.
       case frame_from_text_payload (lit ''sec'') source (Some (source_alias (lc_input_id cfg) station))
              (Some (fst addr)) (fst addr @ lit '':'' @ int_str (fst (snd addr))) v of
         None \<Rightarrow> l
       | Some f \<Rightarrow> l\<lparr>li_queue := li_queue l @ [f], li_traffic := frame_accepted (payload f) (li_traffic l)\<rparr>)"

definition handle_session_data ::
  "('sk, 'pk) listener_config \<Rightarrow> 'sk datagram_env \<Rightarrow> address \<Rightarrow> (address, bytes) secure_session \<Rightarrow>
   bytes \<Rightarrow> bytes \<Rightarrow> listener \<Rightarrow> listener" where
  "handle_session_data cfg env addr x nonce ciphertext l =
     attempt (data_nonce_seen x nonce (de_now env) (li_state l)) l (\<lambda>(seen, st1).
       let l1 = l\<lparr>li_state := st1\<rparr>
       in if seen then l1
          else (case aes_decrypt (lc_crypto cfg) (s_c2s x) nonce ciphertext data_aad of
                  None \<Rightarrow> l1
                | Some plaintext \<Rightarrow>
                    attempt (load_message (lc_nesting cfg) plaintext) l1 (\<lambda>message.
                      case (case message of PDict d \<Rightarrow> classify_message d (s_station x) | _ \<Rightarrow> Refused) of
                        Refused \<Rightarrow> l1
                      | request \<Rightarrow>
                          attempt (accept_data_nonce x nonce (de_now env) st1) l1 (\<lambda>(fresh, st2).
                            let l2 = l1\<lparr>li_state := st2\<rparr>
                            in if \<not> fresh then l2
                               else attempt (touch_session addr x (de_now env) st2) l2 (\<lambda>(_, st3).
                                 let l3 = l2\<lparr>li_state := st3\<rparr>
                                 in (case request of
                                       Ping n \<Rightarrow> send_message cfg env addr (s_s2c x)
                                                   (pong n (de_wall env) (s_station x)) l3
                                     | Nmea v \<Rightarrow> queue_payload cfg addr (s_station x) v l3
                                     | Refused \<Rightarrow> l3))))))"

definition handle_data ::
  "('sk, 'pk) listener_config \<Rightarrow> 'sk datagram_env \<Rightarrow> bytes \<Rightarrow> address \<Rightarrow> listener \<Rightarrow> listener" where
  "handle_data cfg env data addr l =
     attempt (get_pending_session addr (de_now env) (li_state l)) l (\<lambda>(pending, st1).
     let l1 = l\<lparr>li_state := st1\<rparr> in
     attempt (get_active_session addr (de_now env) st1) l1 (\<lambda>(session, st2).
     let l2 = l1\<lparr>li_state := st2\<rparr> in
       if pending = None \<and> session = None then
         attempt (build_no_session_hint None) l2 (\<lambda>hint. send env addr hint l2)
       else attempt (parse_secure_data_packet data) l2 (\<lambda>(nonce, ciphertext).
         let active = (\<lambda>l. case session of None \<Rightarrow> l
                          | Some x \<Rightarrow> handle_session_data cfg env addr x nonce ciphertext l)
         in (case pending of
               None \<Rightarrow> active l2
             | Some p \<Rightarrow>
                 attempt (pending_data_nonce_seen p nonce (de_now env) st2) l2 (\<lambda>(seen, st3).
                   let l3 = l2\<lparr>li_state := st3\<rparr>
                   in if seen then active l3
                      else (case aes_decrypt (lc_crypto cfg) (p_c2s p) nonce ciphertext data_aad of
                              None \<Rightarrow> active l3
                            | Some plaintext \<Rightarrow> confirm_session cfg env addr p nonce plaintext l3))))))"

text \<open>
  The body of the loop. The two clean-ups are outside the \<open>try\<close> blocks: what they raised would
  end the listener (\<open>Inl\<close>).
\<close>

definition secure_datagram ::
  "('sk, 'pk) listener_config \<Rightarrow> 'sk datagram_env \<Rightarrow> bytes \<Rightarrow> address \<Rightarrow> listener \<Rightarrow> listener res" where
  "secure_datagram cfg env data addr l =
     (let l0 = l\<lparr>li_traffic := transport_received data (li_traffic l)\<rparr>
      in if \<not> allows (lc_policy cfg) (fst addr) then Inr l0
         else rbind (cleanup_expired_sessions (de_now env) (li_state l0)) (\<lambda>(_, st1).
              rbind (cleanup_expired_pending_sessions (de_now env) st1) (\<lambda>(_, st2).
                let l1 = l0\<lparr>li_state := st2\<rparr>
                in Inr (if starts_with hello_prefix data then handle_hello cfg env data addr l1
                        else if starts_with data_prefix data then handle_data cfg env data addr l1
                        else l1))))"

subsection \<open>What a datagram does to the state\<close>

text \<open>The stations behind the sessions: address, station and the two keys.\<close>

definition session_peer where
  "session_peer p = (fst p :: address, s_station (snd p), s_c2s (snd p) :: bytes, s_s2c (snd p) :: bytes)"

definition pending_peer where
  "pending_peer p = (fst p :: address, p_station (snd p), p_c2s (snd p) :: bytes, p_s2c (snd p) :: bytes)"

definition peers :: "(address, bytes) secure_state \<Rightarrow> (address \<times> pystr \<times> bytes \<times> bytes) set" where
  "peers st = session_peer ` set (sessions st) \<union> pending_peer ` set (pending_sessions st)"

text \<open>At most \<open>k\<close> calls at the reading \<open>now\<close> that bring no new station.\<close>

definition tracks :: "time \<Rightarrow> nat \<Rightarrow> (address, bytes) secure_state \<Rightarrow> (address, bytes) secure_state \<Rightarrow> bool" where
  "tracks now k st st' \<longleftrightarrow> (\<exists>n \<le> k. secure_runs now st n now st') \<and> peers st' \<subseteq> peers st"

lemma secure_runs_append:
  "secure_runs u st1 m v st2 \<Longrightarrow> secure_runs t st n u st1 \<Longrightarrow> secure_runs t st (n + m) v st2"
proof (induction rule: secure_runs.induct)
  case (call t st1 n u st2 now st3)
  then show ?case by (simp add: secure_runs.call)
qed simp

lemma tracks_refl [simp]: "tracks now k st st"
  unfolding tracks_def by (auto intro: exI [of _ 0] secure_runs.none)

lemma tracks_trans:
  "tracks now k st st1 \<Longrightarrow> tracks now m st1 st2 \<Longrightarrow> k + m \<le> j \<Longrightarrow> tracks now j st st2"
  unfolding tracks_def by (meson add_le_mono order_trans secure_runs_append subset_trans)

lemma tracks_call: "secure_call now st st' \<Longrightarrow> peers st' \<subseteq> peers st \<Longrightarrow> 0 < k \<Longrightarrow> tracks now k st st'"
  unfolding tracks_def
  using secure_runs.call [OF secure_runs.none order_refl] by (metis One_nat_def Suc_leI)

lemma tracks_inv: "tracks now k st st' \<Longrightarrow> secure_inv 0 now st \<Longrightarrow> secure_inv 0 now st'"
  unfolding tracks_def using secure_runs_inv by blast

lemma peers_mono:
  assumes "\<forall>(a, x') \<in> set (sessions st'). \<exists>x. (a, x) \<in> set (sessions st) \<and>
      (s_station x, s_c2s x, s_s2c x) = (s_station x', s_c2s x', s_s2c x')"
    and "\<forall>(a, p') \<in> set (pending_sessions st'). \<exists>p. (a, p) \<in> set (pending_sessions st) \<and>
      (p_station p, p_c2s p, p_s2c p) = (p_station p', p_c2s p', p_s2c p')"
  shows "peers st' \<subseteq> peers st"
  using assms by (fastforce simp: peers_def session_peer_def pending_peer_def image_iff)

lemma peers_subset:
  "set (sessions st') \<subseteq> set (sessions st) \<Longrightarrow> set (pending_sessions st') \<subseteq> set (pending_sessions st) \<Longrightarrow>
     peers st' \<subseteq> peers st"
  by (auto simp: peers_def)

lemma tracks_subset:
  assumes "secure_call now st st'" and "set (sessions st') \<subseteq> set (sessions st)"
    and "set (pending_sessions st') \<subseteq> set (pending_sessions st)" and "0 < k"
  shows "tracks now k st st'"
  using assms by (intro tracks_call peers_subset)

text \<open>Each call, at a reading the state is valid for.\<close>

lemma cleanup_tracks:
  assumes "secure_inv 0 now st"
  shows "\<exists>as st'. cleanup_expired_sessions now st = Inr (as, st') \<and> tracks now 1 st st' \<and>
     set (sessions st') \<subseteq> set (sessions st)"
proof -
  obtain as st' where c: "cleanup_expired_sessions now st = Inr (as, st')"
      "sessions st' = dropWhile (\<lambda>p. session_ttl st \<le> now - s_last_seen (snd p)) (sessions st)"
      "pending_sessions st' = pending_sessions st"
    by (rule cleanup_sessions_call [OF assms order_refl]) blast
  have "set (sessions st') \<subseteq> set (sessions st)" unfolding c(2) by (rule set_dropWhile)
  then show ?thesis using c(1,3) by (auto intro!: tracks_subset secure_call.cleanup [OF c(1)])
qed

lemma cleanup_pending_tracks:
  assumes "secure_inv 0 now st"
  shows "\<exists>as st'. cleanup_expired_pending_sessions now st = Inr (as, st') \<and> tracks now 1 st st' \<and>
     sessions st' = sessions st"
proof -
  obtain as st' where c: "cleanup_expired_pending_sessions now st = Inr (as, st')" "sessions st' = sessions st"
      "pending_sessions st' =
         dropWhile (\<lambda>p. p_created_at (snd p) + pending_session_ttl st \<le> now) (pending_sessions st)"
    by (rule cleanup_pending_call [OF assms order_refl]) blast
  have "set (pending_sessions st') \<subseteq> set (pending_sessions st)" unfolding c(3) by (rule set_dropWhile)
  then show ?thesis using c(1,2) by (auto intro!: tracks_subset secure_call.cleanup_pending [OF c(1)])
qed

lemma get_pending_tracks:
  assumes "secure_inv 0 now st" and "get_pending_session a now st = Inr (r, st')"
  shows "tracks now 1 st st'" and "sessions st' = sessions st"
    and "r = Some p \<Longrightarrow> pending_peer (a, p) \<in> peers st"
proof -
  obtain r0 st0 where g: "get_pending_session a now st = Inr (r0, st0)" "sessions st0 = sessions st"
      "set (pending_sessions st0) \<subseteq> set (pending_sessions st)" "r0 = map_of (pending_sessions st0) a"
    by (rule get_pending_call [OF assms(1) order_refl, of a]) blast
  then have "r0 = r" "st0 = st'" using assms(2) by simp_all
  with g show "sessions st' = sessions st" "tracks now 1 st st'"
    by (auto intro!: tracks_subset secure_call.pending [OF assms(2)])
  assume "r = Some p"
  then have "(a, p) \<in> set (pending_sessions st0)" using g(4) \<open>r0 = r\<close> by (simp add: map_of_SomeD)
  then show "pending_peer (a, p) \<in> peers st" using g(3) by (auto simp: peers_def)
qed

lemma get_active_tracks:
  assumes "secure_inv 0 now st" and "get_active_session a now st = Inr (r, st')"
  shows "tracks now 1 st st'"
    and "r = Some x \<Longrightarrow> (a, x) \<in> set (sessions st) \<and> now - s_last_seen x < session_ttl st"
proof -
  obtain r0 st0 where g: "get_active_session a now st = Inr (r0, st0)" "pending_sessions st0 = pending_sessions st"
      "set (sessions st0) \<subseteq> set (sessions st)" "r0 = map_of (sessions st0) a"
      "sessions st0 = filter (\<lambda>p. now - s_last_seen (snd p) < session_ttl st) (sessions st)"
    by (rule get_active_call [OF assms(1) order_refl, of a]) blast
  then have e: "r0 = r" "st0 = st'" using assms(2) by simp_all
  with g(2,3) show "tracks now 1 st st'"
    by (auto intro!: tracks_subset secure_call.active [OF assms(2)])
  assume "r = Some x"
  then have "(a, x) \<in> set (sessions st0)" using g(4) e(1) by (simp add: map_of_SomeD)
  then show "(a, x) \<in> set (sessions st) \<and> now - s_last_seen x < session_ttl st" using g(5) by auto
qed

lemma touch_tracks:
  assumes "secure_inv 0 now st" and "touch_session a x now st = Inr (b, st')"
  shows "tracks now 1 st st'"
proof -
  obtain b0 st0 where g: "touch_session a x now st = Inr (b0, st0)" "pending_sessions st0 = pending_sessions st"
      "\<forall>(a', x') \<in> set (sessions st0). \<exists>x. (a', x) \<in> set (sessions st) \<and>
         (s_station x, s_c2s x, s_s2c x) = (s_station x', s_c2s x', s_s2c x')"
    by (rule touch_session_call [OF assms(1) order_refl, of a x]) blast
  then have "st0 = st'" using assms(2) by simp
  with g show ?thesis by (intro tracks_call secure_call.touch [OF assms(2)] peers_mono) auto
qed

lemma seen_tracks:
  assumes "secure_inv 0 now st" and "data_nonce_seen x nonce now st = Inr (b, st')"
  shows "tracks now 1 st st'"
proof -
  obtain b0 st0 where g: "data_nonce_seen x nonce now st = Inr (b0, st0)" "pending_sessions st0 = pending_sessions st"
      "\<forall>(a', x') \<in> set (sessions st0). \<exists>x. (a', x) \<in> set (sessions st) \<and>
         (s_station x, s_c2s x, s_s2c x) = (s_station x', s_c2s x', s_s2c x')"
    by (rule data_nonce_seen_call [OF assms(1) order_refl, of x nonce]) blast
  then have "st0 = st'" using assms(2) by simp
  with g show ?thesis by (intro tracks_call secure_call.seen [OF assms(2)] peers_mono) auto
qed

lemma pending_seen_tracks:
  assumes "secure_inv 0 now st" and "pending_data_nonce_seen p nonce now st = Inr (b, st')"
  shows "tracks now 1 st st'" and "sessions st' = sessions st"
proof -
  obtain b0 st0 where g: "pending_data_nonce_seen p nonce now st = Inr (b0, st0)" "sessions st0 = sessions st"
      "\<forall>(a', p') \<in> set (pending_sessions st0). \<exists>p. (a', p) \<in> set (pending_sessions st) \<and>
         (p_station p, p_c2s p, p_s2c p) = (p_station p', p_c2s p', p_s2c p')"
    by (rule pending_data_nonce_seen_call [OF assms(1) order_refl, of p nonce]) blast
  then have e: "st0 = st'" using assms(2) by simp
  with g show "tracks now 1 st st'" by (intro tracks_call secure_call.pending_seen [OF assms(2)] peers_mono) auto
  show "sessions st' = sessions st" using g e by simp
qed

lemma accept_tracks:
  assumes "secure_inv 0 now st" and "accept_data_nonce x nonce now st = Inr (b, st')"
  shows "tracks now 1 st st'"
proof -
  obtain b0 st0 where g: "accept_data_nonce x nonce now st = Inr (b0, st0)" "pending_sessions st0 = pending_sessions st"
      "\<forall>(a', x') \<in> set (sessions st0). \<exists>x. (a', x) \<in> set (sessions st) \<and>
         (s_station x, s_c2s x, s_s2c x) = (s_station x', s_c2s x', s_s2c x')"
    by (rule accept_data_nonce_call [OF assms(1) order_refl, of x nonce]) blast
  then have "st0 = st'" using assms(2) by simp
  with g show ?thesis by (intro tracks_call secure_call.accept [OF assms(2)] peers_mono) auto
qed

lemma accept_pending_tracks:
  assumes "secure_inv 0 now st" and "accept_pending_data_nonce p nonce now st = Inr (b, st')"
  shows "tracks now 1 st st'"
proof -
  obtain b0 st0 where g: "accept_pending_data_nonce p nonce now st = Inr (b0, st0)" "sessions st0 = sessions st"
      "\<forall>(a', p') \<in> set (pending_sessions st0). \<exists>p. (a', p) \<in> set (pending_sessions st) \<and>
         (p_station p, p_c2s p, p_s2c p) = (p_station p', p_c2s p', p_s2c p')"
    by (rule accept_pending_data_nonce_call [OF assms(1) order_refl, of p nonce]) blast
  then have "st0 = st'" using assms(2) by simp
  with g show ?thesis by (intro tracks_call secure_call.accept_pending [OF assms(2)] peers_mono) auto
qed

lemma promote_tracks:
  assumes "secure_inv 0 now st" and "promote_pending_session a p now st = Inr (r, st')"
  shows "tracks now 1 st st'"
proof -
  obtain r0 st0 where g: "promote_pending_session a p now st = Inr (r0, st0)"
      "set (pending_sessions st0) \<subseteq> set (pending_sessions st)"
      "\<And>x. r0 = Some x \<Longrightarrow> map_of (sessions st0) a = Some x \<and> s_last_seen x = now \<and>
         (\<exists>q. map_of (pending_sessions st) a = Some q \<and> p_ref q = p_ref p \<and>
            s_nonces x = p_nonces q \<and> s_station x = p_station q \<and> s_c2s x = p_c2s q \<and>
            s_s2c x = p_s2c q \<and> set (sessions st0) \<subseteq> insert (a, x) (set (sessions st)))"
      "r0 = None \<Longrightarrow> set (sessions st0) \<subseteq> set (sessions st)"
    by (rule promote_call [OF assms(1) order_refl, of a p]) blast
  then have e: "r0 = r" "st0 = st'" using assms(2) by simp_all
  have "peers st' \<subseteq> peers st"
  proof (cases r)
    case None
    then show ?thesis using g(2,4) e by (intro peers_subset) simp_all
  next
    case (Some x)
    then obtain q where "map_of (pending_sessions st) a = Some q" "s_station x = p_station q" "s_c2s x = p_c2s q"
        "s_s2c x = p_s2c q" "set (sessions st') \<subseteq> insert (a, x) (set (sessions st))"
      using g(3) e by blast
    moreover from this have "session_peer (a, x) = pending_peer (a, q)" "(a, q) \<in> set (pending_sessions st)"
      by (auto simp: session_peer_def pending_peer_def dest: map_of_SomeD)
    ultimately have x: "session_peer (a, x) \<in> peers st"
        "set (sessions st') \<subseteq> insert (a, x) (set (sessions st))"
      by (simp_all add: peers_def)
    have "session_peer ` set (sessions st') \<subseteq> insert (session_peer (a, x)) (session_peer ` set (sessions st))"
      using image_mono [OF x(2), of session_peer] by simp
    moreover have "pending_peer ` set (pending_sessions st') \<subseteq> pending_peer ` set (pending_sessions st)"
      using g(2) e(2) by (intro image_mono) simp
    ultimately show ?thesis using x(1) by (auto simp: peers_def)
  qed
  then show ?thesis by (intro tracks_call secure_call.promote [OF assms(2)]) simp_all
qed

lemma handshake_tracks:
  assumes "secure_inv 0 now st" and "accept_handshake_replay key now st = Inr (b, st')"
  shows "tracks now 1 st st'"
proof -
  obtain b0 st0 where g: "accept_handshake_replay key now st = Inr (b0, st0)" "sessions st0 = sessions st"
      "pending_sessions st0 = pending_sessions st"
    by (rule handshake_call [OF assms(1) order_refl, of key]) blast
  then have "st0 = st'" using assms(2) by simp
  with g show ?thesis by (intro tracks_call secure_call.handshake [OF assms(2)] peers_subset) auto
qed

subsection \<open>What a datagram does to the queue and the socket\<close>

lemma attemptI:
  "P l \<Longrightarrow> (\<And>x. r = Inr x \<Longrightarrow> P (f x)) \<Longrightarrow> P (attempt r l f)"
  by (cases r) (simp_all add: attempt_def)

text \<open>At most one packet, to the sender.\<close>

definition replied :: "address \<Rightarrow> listener \<Rightarrow> listener \<Rightarrow> bool" where
  "replied addr l l' \<longleftrightarrow> li_sent l' = li_sent l \<or> (\<exists>packet. li_sent l' = li_sent l @ [(addr, packet)])"

text \<open>
  The frame of an NMEA message: a ciphertext the key of the session opens, to an object that
  names the station of the session and carries a text.
\<close>

definition frame_of_text ::
  "('sk, 'pk) listener_config \<Rightarrow> address \<Rightarrow> pystr \<Rightarrow> pystr \<Rightarrow> frame" where
  "frame_of_text cfg addr station text' =
     \<lparr>fr_kind = lit ''sec'', fr_source_id = lit ''udpsec:'' @ station,
      alias_for_s = Some (source_alias (lc_input_id cfg) station), remote_ip = Some (fst addr),
      assembler_key = fst addr @ lit '':'' @ int_str (fst (snd addr)),
      payload = encode_surrogatepass text', text_mode = UTF8_SURROGATEPASS\<rparr>"

definition authentic_frame ::
  "('sk, 'pk) listener_config \<Rightarrow> address \<Rightarrow> pystr \<Rightarrow> bytes \<Rightarrow> bytes \<Rightarrow> bytes \<Rightarrow> frame \<Rightarrow> bool" where
  "authentic_frame cfg addr station key nonce ciphertext f \<longleftrightarrow>
     (\<exists>plaintext d text'. aes_decrypt (lc_crypto cfg) key nonce ciphertext data_aad = Some plaintext \<and>
        load_message (lc_nesting cfg) plaintext = Inr (PDict d) \<and>
        message_field d ''source_id'' = PStr station \<and> message_field d ''type'' = PStr (lit ''nmea'') \<and>
        map_of d (PStr (lit ''payload'')) = Some (PStr text') \<and> f = frame_of_text cfg addr station text')"

text \<open>A run of at most \<open>k\<close> calls in which the nonce was admitted on the session.\<close>

definition admits ::
  "time \<Rightarrow> nat \<Rightarrow> (address, bytes) secure_session \<Rightarrow> bytes \<Rightarrow> (address, bytes) secure_state \<Rightarrow>
   (address, bytes) secure_state \<Rightarrow> bool" where
  "admits now k x nonce st st' \<longleftrightarrow> (\<exists>st1 st2 n m. n + m < k \<and> secure_runs now st n now st1 \<and>
     accept_data_nonce x nonce now st1 = Inr (True, st2) \<and> secure_runs now st2 m now st')"

lemma admits_after: "tracks now j st st1 \<Longrightarrow> admits now k x nonce st1 st2 \<Longrightarrow> j + k \<le> i \<Longrightarrow> admits now i x nonce st st2"
proof -
  assume t: "tracks now j st st1" and a: "admits now k x nonce st1 st2" and i: "j + k \<le> i"
  obtain n0 where n0: "n0 \<le> j" "secure_runs now st n0 now st1" using t by (auto simp: tracks_def)
  obtain s1 s2 n m where s: "n + m < k" "secure_runs now st1 n now s1"
      "accept_data_nonce x nonce now s1 = Inr (True, s2)" "secure_runs now s2 m now st2"
    using a by (auto simp: admits_def)
  have "secure_runs now st (n0 + n) now s1" by (rule secure_runs_append [OF s(2) n0(2)])
  moreover have "n0 + n + m < i" using n0(1) s(1) i by simp
  ultimately show ?thesis using s(3,4) unfolding admits_def by blast
qed

definition queued ::
  "('sk, 'pk) listener_config \<Rightarrow> 'sk datagram_env \<Rightarrow> address \<Rightarrow> nat \<Rightarrow> (address, bytes) secure_session \<Rightarrow>
   bytes \<Rightarrow> bytes \<Rightarrow> listener \<Rightarrow> listener \<Rightarrow> bool" where
  "queued cfg env addr k x nonce ciphertext l l' \<longleftrightarrow>
     (\<exists>f. li_queue l' = li_queue l @ [f] \<and>
        authentic_frame cfg addr (s_station x) (s_c2s x) nonce ciphertext f \<and>
        admits (de_now env) k x nonce (li_state l) (li_state l'))"

lemma send_simps [simp]:
  "li_state (send env addr p l) = li_state l" "li_queue (send env addr p l) = li_queue l"
  "replied addr l0 l \<Longrightarrow> li_sent l = li_sent l0 \<Longrightarrow> replied addr l0 (send env addr p l)"
  by (auto simp: send_def replied_def)

lemma send_message_simps [simp]:
  "li_state (send_message cfg env addr key m l) = li_state l"
  "li_queue (send_message cfg env addr key m l) = li_queue l"
  "li_sent l = li_sent l0 \<Longrightarrow> replied addr l0 (send_message cfg env addr key m l)"
  by (auto simp: send_message_def send_def attempt_def replied_def split: sum.splits)

lemma queue_payload_simps [simp]:
  "li_state (queue_payload cfg addr station v l) = li_state l"
  "li_sent (queue_payload cfg addr station v l) = li_sent l"
  by (auto simp: queue_payload_def attempt_def split: sum.splits option.splits)

lemma queue_payload_frame:
  "li_queue (queue_payload cfg addr station v l) = li_queue l \<or>
   (\<exists>text'. v = PStr text' \<and> li_queue (queue_payload cfg addr station v l) = li_queue l @ [frame_of_text cfg addr station text'])"
  by (cases v) (auto simp: queue_payload_def attempt_def frame_from_text_payload_def build_udpsec_source_id_def
      frame_of_text_def)

text \<open>A packet of an active session.\<close>

lemma session_data_effect:
  assumes i: "secure_inv 0 (de_now env) (li_state l)"
  shows "tracks (de_now env) 3 (li_state l) (li_state (handle_session_data cfg env addr x nonce ct l)) \<and>
    replied addr l (handle_session_data cfg env addr x nonce ct l) \<and>
    (li_queue (handle_session_data cfg env addr x nonce ct l) = li_queue l \<or>
     queued cfg env addr 4 x nonce ct l (handle_session_data cfg env addr x nonce ct l))"
    (is "?P (handle_session_data cfg env addr x nonce ct l)")
proof -
  let ?now = "de_now env"
  have same: "?P l'" if "li_queue l' = li_queue l" "li_sent l' = li_sent l" "tracks ?now 3 (li_state l) (li_state l')" for l'
    using that by (simp add: replied_def)
  show ?thesis
    unfolding handle_session_data_def
  proof (rule attemptI [where P = ?P])
    show "?P l" by (simp add: replied_def)
  next
    fix p assume p: "data_nonce_seen x nonce ?now (li_state l) = Inr p"
    obtain seen st1 where q: "p = (seen, st1)" by force
    have t1: "tracks ?now 1 (li_state l) st1" using seen_tracks [OF i] p q by simp
    have i1: "secure_inv 0 ?now st1" by (rule tracks_inv [OF t1 i])
    let ?l1 = "l\<lparr>li_state := st1\<rparr>"
    have s1: "?P ?l1" using tracks_trans [OF t1 tracks_refl [of ?now 2]] by (intro same) simp_all
    show "?P (case p of (seen, st1) \<Rightarrow> let l1 = l\<lparr>li_state := st1\<rparr>
       in if seen then l1
          else (case aes_decrypt (lc_crypto cfg) (s_c2s x) nonce ct data_aad of
                  None \<Rightarrow> l1
                | Some plaintext \<Rightarrow>
                    attempt (load_message (lc_nesting cfg) plaintext) l1 (\<lambda>message.
                      case (case message of PDict d \<Rightarrow> classify_message d (s_station x) | _ \<Rightarrow> Refused) of
                        Refused \<Rightarrow> l1
                      | request \<Rightarrow>
                          attempt (accept_data_nonce x nonce ?now st1) l1 (\<lambda>(fresh, st2).
                            let l2 = l1\<lparr>li_state := st2\<rparr>
                            in if \<not> fresh then l2
                               else attempt (touch_session addr x ?now st2) l2 (\<lambda>(_, st3).
                                 let l3 = l2\<lparr>li_state := st3\<rparr>
                                 in (case request of
                                       Ping n \<Rightarrow> send_message cfg env addr (s_s2c x)
                                                   (pong n (de_wall env) (s_station x)) l3
                                     | Nmea v \<Rightarrow> queue_payload cfg addr (s_station x) v l3
                                     | Refused \<Rightarrow> l3))))))"
    proof (cases "aes_decrypt (lc_crypto cfg) (s_c2s x) nonce ct data_aad")
      case None
      then show ?thesis using s1 by (simp add: q Let_def)
    next
      case (Some plaintext)
      note opened = Some
      show ?thesis
      proof (cases "seen \<or> (\<exists>e. load_message (lc_nesting cfg) plaintext = Inl e)")
        case True
        then show ?thesis using s1 opened by (auto simp: q Let_def)
      next
        case False
        then obtain m where m: "load_message (lc_nesting cfg) plaintext = Inr m" "\<not> seen"
          by (cases "load_message (lc_nesting cfg) plaintext") auto
        define req where "req = (case m of PDict d \<Rightarrow> classify_message d (s_station x) | _ \<Rightarrow> Refused)"
        let ?accept = "accept_data_nonce x nonce ?now st1"
        consider "req = Refused" | "\<exists>e. ?accept = Inl e"
          | st2 where "req \<noteq> Refused" "?accept = Inr (False, st2)"
          | st2 where "req \<noteq> Refused" "?accept = Inr (True, st2)"
          by (cases ?accept) (metis prod.collapse)+
        then show ?thesis
        proof cases
          case 1
          then show ?thesis using s1 opened m by (simp add: q Let_def req_def [symmetric])
        next
          case 2
          then show ?thesis using s1 opened m
            by (cases req) (auto simp: q Let_def req_def [symmetric])
        next
          case (3 st2)
          have "tracks ?now 1 st1 st2" by (rule accept_tracks [OF i1 3(2)])
          then have "?P (l\<lparr>li_state := st2\<rparr>)" using tracks_trans [OF t1] by (intro same) simp_all
          then show ?thesis using opened m 3
            by (cases req) (simp_all add: q Let_def req_def [symmetric])
        next
          case (4 st2)
          have t2: "tracks ?now 1 st1 st2" by (rule accept_tracks [OF i1 4(2)])
          have i2: "secure_inv 0 ?now st2" by (rule tracks_inv [OF t2 i1])
          have t12: "tracks ?now 2 (li_state l) st2" by (rule tracks_trans [OF t1 t2]) simp
          show ?thesis
          proof (cases "touch_session addr x ?now st2")
            case (Inl e)
            have "?P (l\<lparr>li_state := st2\<rparr>)"
              using tracks_trans [OF t12 tracks_refl [of ?now 1]] by (intro same) simp_all
            then show ?thesis using opened m 4 Inl
              by (cases req) (simp_all add: q Let_def req_def [symmetric])
          next
            case (Inr r)
            obtain b st3 where b: "r = (b, st3)" by force
            have t3: "tracks ?now 1 st2 st3" using touch_tracks [OF i2] Inr b by simp
            have t: "tracks ?now 3 (li_state l) st3" by (rule tracks_trans [OF t12 t3]) simp
            let ?l3 = "l\<lparr>li_state := st3\<rparr>"
            have adm: "admits ?now 4 x nonce (li_state l) st3"
            proof -
              obtain n m where n: "n \<le> 1" "secure_runs ?now (li_state l) n ?now st1"
                  and m: "m \<le> 1" "secure_runs ?now st2 m ?now st3"
                using t1 t3 by (auto simp: tracks_def)
              then have "n + m < 4" by simp
              with n m 4(2) show ?thesis unfolding admits_def by blast
            qed
            show ?thesis
            proof (cases req)
              case Refused
              with 4(1) show ?thesis by simp
            next
              case (Ping n)
              have "?P (send_message cfg env addr (s_s2c x) (pong n (de_wall env) (s_station x)) ?l3)"
                using t by simp
              then show ?thesis using opened m 4 Inr b Ping by (simp add: q Let_def req_def [symmetric])
            next
              case (Nmea v)
              then obtain d where d: "m = PDict d" "classify_message d (s_station x) = Nmea v"
                unfolding req_def by (cases m) auto
              then have f: "message_field d ''source_id'' = PStr (s_station x)"
                  "message_field d ''type'' = PStr (lit ''nmea'')" "map_of d (PStr (lit ''payload'')) = Some v"
                by (auto simp: classify_message_def split: if_splits option.splits)
              have "?P (queue_payload cfg addr (s_station x) v ?l3)"
                using queue_payload_frame [of cfg addr "s_station x" v ?l3] t adm opened m(1) d(1) f
                by (auto simp: replied_def queued_def authentic_frame_def)
              then show ?thesis using opened m 4 Inr b Nmea by (simp add: q Let_def req_def [symmetric])
            qed
          qed
        qed
      qed
    qed
  qed
qed

text \<open>A packet the key of a pending session opens never queues anything.\<close>

lemma confirm_effect:
  assumes i: "secure_inv 0 (de_now env) (li_state l)"
  shows "tracks (de_now env) 3 (li_state l) (li_state (confirm_session cfg env addr p nonce plaintext l)) \<and>
    replied addr l (confirm_session cfg env addr p nonce plaintext l) \<and>
    li_queue (confirm_session cfg env addr p nonce plaintext l) = li_queue l"
    (is "?P (confirm_session cfg env addr p nonce plaintext l)")
proof -
  let ?now = "de_now env"
  have same: "?P (l\<lparr>li_state := st\<rparr>)" if "tracks ?now 3 (li_state l) st" for st
    using that by (simp add: replied_def)
  have "?P l" by (simp add: replied_def)
  show ?thesis
  proof (cases "load_message (lc_nesting cfg) plaintext")
    case (Inl e)
    with \<open>?P l\<close> show ?thesis by (simp add: confirm_session_def)
  next
    case (Inr m)
    note m = this
    let ?accept = "accept_pending_data_nonce p nonce ?now (li_state l)"
    consider "\<not> is_session_confirmation_ping m (p_station p)" | "\<exists>e. ?accept = Inl e"
      | st1 where "is_session_confirmation_ping m (p_station p)" "?accept = Inr (False, st1)"
      | st1 where "is_session_confirmation_ping m (p_station p)" "?accept = Inr (True, st1)"
      by (cases ?accept) (metis prod.collapse)+
    then show ?thesis
    proof cases
      case 1
      with \<open>?P l\<close> m show ?thesis by (simp add: confirm_session_def)
    next
      case 2
      with \<open>?P l\<close> m show ?thesis by (auto simp: confirm_session_def)
    next
      case (3 st1)
      have "tracks ?now 1 (li_state l) st1" by (rule accept_pending_tracks [OF i 3(2)])
      from same [OF tracks_trans [OF this tracks_refl [of ?now 2]]] show ?thesis
        using m 3 by (simp add: confirm_session_def Let_def)
    next
      case (4 st1)
      have t1: "tracks ?now 1 (li_state l) st1" by (rule accept_pending_tracks [OF i 4(2)])
      have i1: "secure_inv 0 ?now st1" by (rule tracks_inv [OF t1 i])
      let ?promote = "promote_pending_session addr p ?now st1"
      consider e where "?promote = Inl e" | st2 where "?promote = Inr (None, st2)"
        | x st2 where "?promote = Inr (Some x, st2)"
        by (cases ?promote) (metis prod.collapse option.exhaust)+
      then show ?thesis
      proof cases
        case 1
        from same [OF tracks_trans [OF t1 tracks_refl [of ?now 2]]] show ?thesis
          using m 4 1 by (simp add: confirm_session_def Let_def)
      next
        case (2 st2)
        have "tracks ?now 1 st1 st2" by (rule promote_tracks [OF i1 2])
        from same [OF tracks_trans [OF t1 this]] show ?thesis
          using m 4 2 by (simp add: confirm_session_def Let_def)
      next
        case (3 x st2)
        have t2: "tracks ?now 1 st1 st2" by (rule promote_tracks [OF i1 3])
        have i2: "secure_inv 0 ?now st2" by (rule tracks_inv [OF t2 i1])
        have t12: "tracks ?now 2 (li_state l) st2" by (rule tracks_trans [OF t1 t2]) simp
        show ?thesis
        proof (cases "touch_session addr x ?now st2")
          case (Inl e)
          from same [OF tracks_trans [OF t12 tracks_refl [of ?now 1]]] show ?thesis
            using m 4 3 Inl by (simp add: confirm_session_def Let_def)
        next
          case (Inr r)
          obtain b st3 where b: "r = (b, st3)" by force
          have "tracks ?now 1 st2 st3" using touch_tracks [OF i2] Inr b by simp
          then have t: "tracks ?now 3 (li_state l) st3" by (rule tracks_trans [OF t12]) simp
          let ?l3 = "l\<lparr>li_state := st3\<rparr>"
          have "?P (send_message cfg env addr (s_s2c x) (pong (PInt confirmation_sequence) (de_wall env) (s_station x)) ?l3)"
            using t by simp
          then show ?thesis
            using m 4 3 Inr b same [OF t] by (simp add: confirm_session_def Let_def)
        qed
      qed
    qed
  qed
qed

text \<open>A data packet.\<close>

definition data_result ::
  "('sk, 'pk) listener_config \<Rightarrow> 'sk datagram_env \<Rightarrow> bytes \<Rightarrow> address \<Rightarrow> listener \<Rightarrow> listener \<Rightarrow> bool" where
  "data_result cfg env data addr l l' \<longleftrightarrow>
     tracks (de_now env) 6 (li_state l) (li_state l') \<and> replied addr l l' \<and>
     (li_queue l' = li_queue l \<or>
      (\<exists>x nonce ct. (addr, x) \<in> set (sessions (li_state l)) \<and>
         de_now env - s_last_seen x < session_ttl (li_state l) \<and>
         parse_secure_data_packet data = Inr (nonce, ct) \<and>
         queued cfg env addr 7 x nonce ct l l'))"

lemma replied_trans: "li_sent l1 = li_sent l \<Longrightarrow> replied addr l1 l' \<Longrightarrow> replied addr l l'"
  by (simp add: replied_def)

lemma secure_runs_config:
  "secure_runs t st n u st' \<Longrightarrow> secure_inv 0 t st \<Longrightarrow> config_of st' = config_of st"
proof (induction rule: secure_runs.induct)
  case (call t st n u st1 now st2)
  have "secure_inv 0 u st1" using secure_runs_inv [OF call.hyps(1) call.prems] by simp
  from secure_call_inv [OF call.hyps(3) this call.hyps(2)] call.IH [OF call.prems]
  show ?case by (simp add: evolves_def)
qed simp

lemma session_ttl_tracks: "tracks now k st st' \<Longrightarrow> secure_inv 0 now st \<Longrightarrow> session_ttl st' = session_ttl st"
  using secure_runs_config by (fastforce simp: tracks_def config_of_def)

lemma session_part:
  assumes i: "secure_inv 0 (de_now env) (li_state l)"
    and t: "tracks (de_now env) 3 (li_state l) st"
    and x: "\<And>x. session = Some x \<Longrightarrow> (addr, x) \<in> set (sessions (li_state l)) \<and>
      de_now env - s_last_seen x < session_ttl (li_state l)"
    and p: "parse_secure_data_packet data = Inr (nonce, ct)"
  shows "data_result cfg env data addr l
    (case session of None \<Rightarrow> l\<lparr>li_state := st\<rparr>
     | Some x \<Rightarrow> handle_session_data cfg env addr x nonce ct (l\<lparr>li_state := st\<rparr>))"
proof (cases session)
  case None
  then show ?thesis
    using tracks_trans [OF t tracks_refl [of "de_now env" 3]] by (simp add: data_result_def replied_def)
next
  case (Some x)
  let ?l1 = "l\<lparr>li_state := st\<rparr>" and ?now = "de_now env"
  define l' where "l' = handle_session_data cfg env addr x nonce ct ?l1"
  have i1: "secure_inv 0 ?now (li_state ?l1)" using tracks_inv [OF t i] by simp
  have e: "tracks ?now 3 st (li_state l')" "replied addr ?l1 l'"
      "li_queue l' = li_queue l \<or> queued cfg env addr 4 x nonce ct ?l1 l'"
    using session_data_effect [OF i1, of cfg addr x nonce ct] by (simp_all add: l'_def)
  have "tracks ?now 6 (li_state l) (li_state l')" by (rule tracks_trans [OF t e(1)]) simp
  moreover have "replied addr l l'" by (rule replied_trans [OF _ e(2)]) simp
  moreover have "queued cfg env addr 7 x nonce ct l l'" if q: "queued cfg env addr 4 x nonce ct ?l1 l'"
  proof -
    obtain f where f: "li_queue l' = li_queue l @ [f]"
        "authentic_frame cfg addr (s_station x) (s_c2s x) nonce ct f" "admits ?now 4 x nonce st (li_state l')"
      using q by (auto simp: queued_def)
    from f(1,2) admits_after [OF t f(3), of 7] show ?thesis by (auto simp: queued_def)
  qed
  ultimately have "data_result cfg env data addr l l'"
    unfolding data_result_def using e(3) x [OF Some] p by blast
  then show ?thesis using Some by (simp add: l'_def)
qed

lemma handle_data_result:
  assumes i: "secure_inv 0 (de_now env) (li_state l)"
  shows "data_result cfg env data addr l (handle_data cfg env data addr l)"
    (is "?P (handle_data cfg env data addr l)")
proof -
  let ?now = "de_now env"
  have same: "?P (l\<lparr>li_state := st\<rparr>)" if "tracks ?now 3 (li_state l) st" for st
    using tracks_trans [OF that tracks_refl [of ?now 3]] by (simp add: data_result_def replied_def)
  show ?thesis
  proof (cases "get_pending_session addr ?now (li_state l)")
    case (Inl e)
    then show ?thesis by (simp add: handle_data_def data_result_def replied_def)
  next
    case gp: (Inr r)
    obtain pending st1 where r: "r = (pending, st1)" by force
    note gp = gp [unfolded r]
    have t1: "tracks ?now 1 (li_state l) st1" and s1: "sessions st1 = sessions (li_state l)"
      using get_pending_tracks(1,2) [OF i gp] by simp_all
    have i1: "secure_inv 0 ?now st1" by (rule tracks_inv [OF t1 i])
    show ?thesis
    proof (cases "get_active_session addr ?now st1")
      case (Inl e)
      from same [OF tracks_trans [OF t1 tracks_refl [of ?now 2]]] show ?thesis
        using gp Inl by (simp add: handle_data_def)
    next
      case ga: (Inr r)
      obtain session st2 where r: "r = (session, st2)" by force
      note ga = ga [unfolded r]
      have t2: "tracks ?now 1 st1 st2" by (rule get_active_tracks(1) [OF i1 ga])
      have x: "(addr, x) \<in> set (sessions (li_state l)) \<and> ?now - s_last_seen x < session_ttl (li_state l)"
        if "session = Some x" for x
        using get_active_tracks(2) [OF i1 ga that] s1 session_ttl_tracks [OF t1 i] by simp
      have i2: "secure_inv 0 ?now st2" by (rule tracks_inv [OF t2 i1])
      have t12: "tracks ?now 2 (li_state l) st2" by (rule tracks_trans [OF t1 t2]) simp
      have t12': "tracks ?now 3 (li_state l) st2" by (rule tracks_trans [OF t12 tracks_refl [of ?now 1]]) simp
      let ?l2 = "l\<lparr>li_state := st2\<rparr>"
      show ?thesis
      proof (cases "pending = None \<and> session = None")
        case True
        have "?P (send env addr ''NOSESSION'' ?l2)"
          using same [OF t12'] by (auto simp: data_result_def replied_def send_def)
        then show ?thesis using True gp ga by (simp add: handle_data_def Let_def build_no_session_hint_def)
      next
        case some: False
        show ?thesis
        proof (cases "parse_secure_data_packet data")
          case (Inl e)
          then show ?thesis using same [OF t12'] gp ga some by (auto simp: handle_data_def Let_def)
        next
          case pk: (Inr r)
          obtain nonce ct where r: "r = (nonce, ct)" by force
          note pk = pk [unfolded r]
          note active = session_part [where session = session and cfg = cfg, OF i _ x pk]
          show ?thesis
          proof (cases pending)
            case None
            then show ?thesis
              using active [OF t12'] gp ga some pk by (cases session) (simp_all add: handle_data_def Let_def)
          next
            case (Some p)
            show ?thesis
            proof (cases "pending_data_nonce_seen p nonce ?now st2")
              case (Inl e)
              then show ?thesis using same [OF t12'] gp ga pk Some by (simp add: handle_data_def Let_def)
            next
              case ps: (Inr r)
              obtain seen st3 where r: "r = (seen, st3)" by force
              note ps = ps [unfolded r]
              have t3: "tracks ?now 3 (li_state l) st3"
                by (rule tracks_trans [OF t12 pending_seen_tracks(1) [OF i2 ps]]) simp
              have i3: "secure_inv 0 ?now (li_state (l\<lparr>li_state := st3\<rparr>))" using tracks_inv [OF t3 i] by simp
              show ?thesis
              proof (cases "seen \<or> aes_decrypt (lc_crypto cfg) (p_c2s p) nonce ct data_aad = None")
                case True
                then show ?thesis
                  using active [OF t3] gp ga pk Some ps
                  by (cases seen) (simp_all add: handle_data_def Let_def)
              next
                case False
                then obtain plaintext where pl: "\<not> seen"
                    "aes_decrypt (lc_crypto cfg) (p_c2s p) nonce ct data_aad = Some plaintext" by blast
                define l' where "l' = confirm_session cfg env addr p nonce plaintext (l\<lparr>li_state := st3\<rparr>)"
                have e: "tracks ?now 3 st3 (li_state l')" "replied addr (l\<lparr>li_state := st3\<rparr>) l'"
                    "li_queue l' = li_queue l"
                  using confirm_effect [OF i3, of cfg addr p nonce plaintext] by (simp_all add: l'_def)
                have "tracks ?now 6 (li_state l) (li_state l')" by (rule tracks_trans [OF t3 e(1)]) simp
                moreover have "replied addr l l'" by (rule replied_trans [OF _ e(2)]) simp
                ultimately have "?P l'" unfolding data_result_def using e(3) by blast
                then have "?P (confirm_session cfg env addr p nonce plaintext (l\<lparr>li_state := st3\<rparr>))"
                  by (simp add: l'_def)
                then show ?thesis using gp ga pk Some ps pl by (simp add: handle_data_def Let_def)
              qed
            qed
          qed
        qed
      qed
    qed
  qed
qed

text \<open>
  A ClientHello that passed every check, and the keys the server derived in answering it.
\<close>

definition greeted ::
  "('sk, 'pk) listener_config \<Rightarrow> 'sk datagram_env \<Rightarrow> bytes \<Rightarrow> pystr \<Rightarrow> bytes \<Rightarrow> bytes \<Rightarrow> bool" where
  "greeted cfg env data station c2s s2c \<longleftrightarrow>
     (\<exists>h client_key key packet. authenticate_hello cfg env data = Inr (h, client_key, key) \<and>
        build_server_handshake cfg env h client_key = Inr (packet, c2s, s2c) \<and> station = ch_station_id h)"

definition grown ::
  "('sk, 'pk) listener_config \<Rightarrow> 'sk datagram_env \<Rightarrow> bytes \<Rightarrow> address \<Rightarrow> (address, bytes) secure_state \<Rightarrow>
   (address, bytes) secure_state \<Rightarrow> bool" where
  "grown cfg env data addr st st' \<longleftrightarrow>
     peers st' \<subseteq> peers st \<union> {(a, station, c2s, s2c). a = addr \<and> greeted cfg env data station c2s s2c}"

lemma tracks_grown: "tracks now k st st' \<Longrightarrow> grown cfg env data addr st st'"
  by (auto simp: tracks_def grown_def)

definition hello_result ::
  "('sk, 'pk) listener_config \<Rightarrow> 'sk datagram_env \<Rightarrow> bytes \<Rightarrow> address \<Rightarrow> listener \<Rightarrow> listener \<Rightarrow> bool" where
  "hello_result cfg env data addr l l' \<longleftrightarrow>
     (\<exists>n \<le> 2. secure_runs (de_now env) (li_state l) n (de_now env) (li_state l')) \<and>
     grown cfg env data addr (li_state l) (li_state l') \<and> li_queue l' = li_queue l \<and> replied addr l l' \<and>
     (li_sent l' = li_sent l \<or> (\<exists>station c2s s2c. greeted cfg env data station c2s s2c))"

lemma runs_after:
  "tracks now k st st1 \<Longrightarrow> \<exists>n \<le> m. secure_runs now st1 n now st2 \<Longrightarrow> k + m \<le> j \<Longrightarrow>
     \<exists>n \<le> j. secure_runs now st n now st2"
  unfolding tracks_def by (meson add_le_mono order_trans secure_runs_append)

lemma hello_unchanged:
  "tracks (de_now env) 2 (li_state l) st \<Longrightarrow> hello_result cfg env data addr l (l\<lparr>li_state := st\<rparr>)"
  using tracks_grown [of "de_now env" 2 "li_state l" st cfg env data addr]
  by (auto simp: hello_result_def tracks_def replied_def)

lemma handle_hello_result:
  assumes i: "secure_inv 0 (de_now env) (li_state l)"
  shows "hello_result cfg env data addr l (handle_hello cfg env data addr l)"
proof (cases "authenticate_hello cfg env data")
  case (Inl e)
  then show ?thesis using hello_unchanged [where l = l and st = "li_state l"] by (simp add: handle_hello_def)
next
  case auth: (Inr r)
  obtain h client_key key where r: "r = (h, client_key, key)" using prod_cases3 by blast
  note auth = auth [unfolded r]
  let ?now = "de_now env"
  show ?thesis
  proof (cases "accept_handshake_replay key ?now (li_state l)")
    case (Inl e)
    then show ?thesis using auth hello_unchanged [where l = l and st = "li_state l"] by (simp add: handle_hello_def)
  next
    case acc: (Inr r)
    obtain fresh st1 where r: "r = (fresh, st1)" by force
    note acc = acc [unfolded r]
    have t1: "tracks ?now 1 (li_state l) st1" by (rule handshake_tracks [OF i acc])
    have i1: "secure_inv 0 ?now st1" by (rule tracks_inv [OF t1 i])
    have t1': "tracks ?now 2 (li_state l) st1" by (rule tracks_trans [OF t1 tracks_refl [of ?now 1]]) simp
    show ?thesis
    proof (cases "\<not> fresh \<or> (\<exists>e. build_server_handshake cfg env h client_key = Inl e)")
      case True
      then show ?thesis using auth acc hello_unchanged [OF t1', of cfg data addr] by (auto simp: handle_hello_def Let_def)
    next
      case False
      then obtain packet c2s s2c where b: "fresh" "build_server_handshake cfg env h client_key = Inr (packet, c2s, s2c)"
        by (metis sum.exhaust prod_cases3)
      have g: "greeted cfg env data (ch_station_id h) c2s s2c" using auth b by (auto simp: greeted_def)
      obtain p st2 where p: "install_pending_session addr (ch_station_id h) c2s s2c ?now st1 = Inr (p, st2)"
          "sessions st2 = sessions st1" "p_station p = ch_station_id h" "p_c2s p = c2s" "p_s2c p = s2c"
          "set (pending_sessions st2) \<subseteq> insert (addr, p) (set (pending_sessions st1))"
        by (rule install_pending_call [OF i1 order_refl, of addr "ch_station_id h" c2s s2c]) blast
      have "pending_peer ` set (pending_sessions st2) \<subseteq> insert (pending_peer (addr, p)) (pending_peer ` set (pending_sessions st1))"
        using image_mono [OF p(6), of pending_peer] by simp
      then have "peers st2 \<subseteq> insert (addr, ch_station_id h, c2s, s2c) (peers st1)"
        using p(2-5) by (auto simp: peers_def pending_peer_def)
      then have "grown cfg env data addr (li_state l) st2"
        using t1 g by (auto simp: grown_def tracks_def)
      moreover have "secure_runs ?now st1 1 ?now st2"
        using secure_runs.call [OF secure_runs.none order_refl secure_call.install_pending [OF p(1)]] by simp
      then have "\<exists>n \<le> 2. secure_runs ?now (li_state l) n ?now st2"
        by (intro runs_after [OF t1, of 1]) auto
      ultimately have "hello_result cfg env data addr l (send env addr packet (l\<lparr>li_state := st2\<rparr>))"
        using g by (auto simp: hello_result_def replied_def send_def)
      then show ?thesis using auth acc b p(1) by (simp add: handle_hello_def Let_def)
    qed
  qed
qed

text \<open>The whole step.\<close>

definition datagram_result ::
  "('sk, 'pk) listener_config \<Rightarrow> 'sk datagram_env \<Rightarrow> bytes \<Rightarrow> address \<Rightarrow> listener \<Rightarrow> listener \<Rightarrow> bool" where
  "datagram_result cfg env data addr l l' \<longleftrightarrow>
     (\<exists>n \<le> 8. secure_runs (de_now env) (li_state l) n (de_now env) (li_state l')) \<and>
     grown cfg env data addr (li_state l) (li_state l') \<and> replied addr l l' \<and>
     (allows (lc_policy cfg) (fst addr) \<or> li_state l' = li_state l \<and> li_queue l' = li_queue l \<and> li_sent l' = li_sent l) \<and>
     (starts_with hello_prefix data \<longrightarrow> li_sent l' = li_sent l \<or> (\<exists>station c2s s2c. greeted cfg env data station c2s s2c)) \<and>
     (li_queue l' = li_queue l \<or>
      (\<exists>x nonce ct. (addr, x) \<in> set (sessions (li_state l)) \<and>
         de_now env - s_last_seen x < session_ttl (li_state l) \<and>
         parse_secure_data_packet data = Inr (nonce, ct) \<and>
         queued cfg env addr 9 x nonce ct l l'))"

lemma grown_after: "tracks now k st st1 \<Longrightarrow> grown cfg env data addr st1 st2 \<Longrightarrow> grown cfg env data addr st st2"
  by (auto simp: tracks_def grown_def)

lemma data_not_hello: "starts_with data_prefix data \<Longrightarrow> \<not> starts_with hello_prefix data"
  by (auto simp: starts_with_def data_prefix_def hello_prefix_def)

lemma secure_datagram_result:
  assumes i: "secure_inv 0 (de_now env) (li_state l)"
  shows "\<exists>l'. secure_datagram cfg env data addr l = Inr l' \<and> datagram_result cfg env data addr l l'"
proof (cases "allows (lc_policy cfg) (fst addr)")
  case False
  then show ?thesis
    by (auto simp: secure_datagram_def Let_def datagram_result_def replied_def grown_def
        intro: exI [of _ 0] secure_runs.none)
next
  case True
  let ?now = "de_now env"
  define l0 where "l0 = l\<lparr>li_traffic := transport_received data (li_traffic l)\<rparr>"
  obtain as st1 where c1: "cleanup_expired_sessions ?now (li_state l) = Inr (as, st1)"
      "tracks ?now 1 (li_state l) st1" "set (sessions st1) \<subseteq> set (sessions (li_state l))"
    using cleanup_tracks [OF i] by blast
  have i1: "secure_inv 0 ?now st1" by (rule tracks_inv [OF c1(2) i])
  obtain bs st2 where c2: "cleanup_expired_pending_sessions ?now st1 = Inr (bs, st2)"
      "tracks ?now 1 st1 st2" "sessions st2 = sessions st1"
    using cleanup_pending_tracks [OF i1] by blast
  have t: "tracks ?now 2 (li_state l) st2" by (rule tracks_trans [OF c1(2) c2(2)]) simp
  define l1 where "l1 = l0\<lparr>li_state := st2\<rparr>"
  have i2: "secure_inv 0 ?now (li_state l1)" using tracks_inv [OF t i] by (simp add: l1_def)
  have l1: "li_state l1 = st2" "li_queue l1 = li_queue l" "li_sent l1 = li_sent l"
    by (simp_all add: l1_def l0_def)
  have step: "secure_datagram cfg env data addr l =
      Inr (if starts_with hello_prefix data then handle_hello cfg env data addr l1
           else if starts_with data_prefix data then handle_data cfg env data addr l1 else l1)"
    using True c1(1) c2(1) by (simp add: secure_datagram_def Let_def l1_def l0_def)
  consider (hello) "starts_with hello_prefix data" | (data) "starts_with data_prefix data" "\<not> starts_with hello_prefix data"
    | (other) "\<not> starts_with hello_prefix data" "\<not> starts_with data_prefix data" by blast
  then show ?thesis
  proof cases
    case hello
    define l' where "l' = handle_hello cfg env data addr l1"
    have h: "hello_result cfg env data addr l1 l'"
      using handle_hello_result [OF i2] by (simp add: l'_def)
    then have "\<exists>n \<le> 2. secure_runs ?now st2 n ?now (li_state l')" by (simp add: hello_result_def l1)
    from runs_after [OF t this, of 8] have "\<exists>n \<le> 8. secure_runs ?now (li_state l) n ?now (li_state l')" by simp
    moreover have "grown cfg env data addr (li_state l) (li_state l')"
      by (rule grown_after [OF t]) (use h in \<open>simp add: hello_result_def l1\<close>)
    ultimately have "datagram_result cfg env data addr l l'"
      unfolding datagram_result_def using h True by (simp add: hello_result_def l1 replied_def)
    then show ?thesis using step hello by (simp add: l'_def)
  next
    case data
    define l' where "l' = handle_data cfg env data addr l1"
    have d: "data_result cfg env data addr l1 l'"
      using handle_data_result [OF i2] by (simp add: l'_def)
    have td: "tracks ?now 6 st2 (li_state l')" using d by (simp add: data_result_def l1)
    have "tracks ?now 8 (li_state l) (li_state l')" by (rule tracks_trans [OF t td]) simp
    moreover have "replied addr l l'" using d by (auto simp: data_result_def replied_def l1)
    moreover have "li_queue l' = li_queue l \<or>
      (\<exists>x nonce ct. (addr, x) \<in> set (sessions (li_state l)) \<and> ?now - s_last_seen x < session_ttl (li_state l) \<and>
         parse_secure_data_packet data = Inr (nonce, ct) \<and> queued cfg env addr 9 x nonce ct l l')"
    proof (cases "li_queue l' = li_queue l")
      case False
      then obtain x nonce ct where x: "(addr, x) \<in> set (sessions st2)" "?now - s_last_seen x < session_ttl st2"
          "parse_secure_data_packet data = Inr (nonce, ct)" "queued cfg env addr 7 x nonce ct l1 l'"
        using d by (auto simp: data_result_def l1)
      have "queued cfg env addr 9 x nonce ct l l'"
        using x(4) admits_after [OF t, of 7 x nonce "li_state l'" 9] by (auto simp: queued_def l1)
      moreover have "(addr, x) \<in> set (sessions (li_state l))" using x(1) c1(3) c2(3) by auto
      moreover have "?now - s_last_seen x < session_ttl (li_state l)" using x(2) session_ttl_tracks [OF t i] by simp
      ultimately show ?thesis using x(3) by blast
    qed simp
    ultimately have "datagram_result cfg env data addr l l'"
      unfolding datagram_result_def using True data(2) tracks_grown [of ?now 8 "li_state l" "li_state l'" cfg env data addr] by (auto simp: tracks_def)
    then show ?thesis using step data by (simp add: l'_def)
  next
    case other
    have "tracks ?now 8 (li_state l) st2" by (rule tracks_trans [OF t tracks_refl [of ?now 6]]) simp
    then have "datagram_result cfg env data addr l l1"
      unfolding datagram_result_def l1 replied_def
      using True other tracks_grown [of ?now 8 "li_state l" st2 cfg env data addr] by (auto simp: tracks_def)
    then show ?thesis using step other by simp
  qed
qed

subsection \<open>Runs of the listener\<close>

type_synonym 'sk received = "'sk datagram_env \<times> bytes \<times> address"

text \<open>Datagrams at readings of a monotonic clock, from the reading \<open>t\<close> to \<open>u\<close>.\<close>

inductive receives ::
  "('sk, 'pk) listener_config \<Rightarrow> time \<Rightarrow> listener \<Rightarrow> 'sk received list \<Rightarrow> time \<Rightarrow> listener \<Rightarrow> bool"
  for cfg :: "('sk, 'pk) listener_config" where
  none: "receives cfg t l [] t l"
| datagram: "receives cfg t l evs u l1 \<Longrightarrow> u \<le> de_now env \<Longrightarrow> secure_datagram cfg env data addr l1 = Inr l2 \<Longrightarrow>
    receives cfg t l (evs @ [(env, data, addr)]) (de_now env) l2"

definition listener_init :: "(address, bytes) secure_state \<Rightarrow> input_traffic \<Rightarrow> listener" where
  "listener_init st traffic = \<lparr>li_state = st, li_queue = [], li_sent = [], li_traffic = traffic\<rparr>"

definition listening ::
  "('sk, 'pk) listener_config \<Rightarrow> 'sk received list \<Rightarrow> time \<Rightarrow> listener \<Rightarrow> bool" where
  "listening cfg hist t l \<longleftrightarrow>
     (\<exists>c st traffic t0. secure_init c = Inr st \<and> receives cfg t0 (listener_init st traffic) hist t l)"

text \<open>Behind every session stands an authenticated ClientHello from its address.\<close>

definition introduced ::
  "('sk, 'pk) listener_config \<Rightarrow> 'sk received list \<Rightarrow> address \<Rightarrow> pystr \<Rightarrow> bytes \<Rightarrow> bytes \<Rightarrow> bool" where
  "introduced cfg hist addr station c2s s2c \<longleftrightarrow>
     (\<exists>(env, data, a) \<in> set hist. a = addr \<and> allows (lc_policy cfg) (fst addr) \<and>
        greeted cfg env data station c2s s2c)"

definition all_introduced where
  "all_introduced cfg hist st \<longleftrightarrow>
     (\<forall>(a, station, c2s, s2c) \<in> peers st. introduced cfg hist a station c2s s2c)"

lemma receives_inv:
  assumes "receives cfg t l hist u l'" and "secure_inv 0 t (li_state l)" and "all_introduced cfg [] (li_state l)"
  shows "t \<le> u \<and> secure_inv 0 u (li_state l') \<and> all_introduced cfg hist (li_state l')"
  using assms
proof (induction rule: receives.induct)
  case (datagram t l evs u l1 env data addr l2)
  have ih: "t \<le> u" "secure_inv 0 u (li_state l1)" "all_introduced cfg evs (li_state l1)"
    using datagram.IH datagram.prems by auto
  have i: "secure_inv 0 (de_now env) (li_state l1)" by (rule secure_inv_mono [OF ih(2) datagram.hyps(2)])
  obtain l' where "secure_datagram cfg env data addr l1 = Inr l'" "datagram_result cfg env data addr l1 l'"
    using secure_datagram_result [OF i] by blast
  then have d: "datagram_result cfg env data addr l1 l2" using datagram.hyps(3) by simp
  then obtain n where "secure_runs (de_now env) (li_state l1) n (de_now env) (li_state l2)"
    by (auto simp: datagram_result_def)
  then have "secure_inv 0 (de_now env) (li_state l2)" using secure_runs_inv i by blast
  moreover have "all_introduced cfg (evs @ [(env, data, addr)]) (li_state l2)"
  proof (cases "allows (lc_policy cfg) (fst addr)")
    case True
    have "peers (li_state l2) \<subseteq> peers (li_state l1) \<union>
        {(a, station, c2s, s2c). a = addr \<and> greeted cfg env data station c2s s2c}"
      using d by (simp add: datagram_result_def grown_def)
    then show ?thesis using ih(3) True unfolding all_introduced_def introduced_def by fastforce
  next
    case False
    then have "li_state l2 = li_state l1" using d by (simp add: datagram_result_def)
    then show ?thesis using ih(3) unfolding all_introduced_def introduced_def by fastforce
  qed
  ultimately show ?case using ih(1) datagram.hyps(2) by simp
qed simp

lemma init_introduced: "secure_init c = Inr st \<Longrightarrow> all_introduced cfg [] st"
  by (auto simp: all_introduced_def peers_def secure_init_def rbind_Inr_iff)

lemma listening_inv:
  assumes "listening cfg hist t l"
  shows "secure_inv 0 t (li_state l) \<and> all_introduced cfg hist (li_state l)"
proof -
  obtain c st traffic t0 where c: "secure_init c = Inr st" "receives cfg t0 (listener_init st traffic) hist t l"
    using assms unfolding listening_def by blast
  have "li_state (listener_init st traffic) = st" by (simp add: listener_init_def)
  then show ?thesis
    using receives_inv [OF c(2)] secure_init_inv [OF c(1)] init_introduced [OF c(1), of cfg] by simp
qed

subsection \<open>A nonce that was admitted is remembered\<close>

lemma accept_remembers:
  assumes i: "secure_inv 0 t st" and "t \<le> now" and "accept_data_nonce h nonce now st = Inr (True, st1)"
  shows "session_remembers (s_address h) (s_ref h) nonce now 0 st1" and "secure_inv 0 now st1"
    and "config_of st1 = config_of st"
proof -
  obtain b st' where b: "accept_data_nonce h nonce now st = Inr (b, st')" "secure_inv 0 now st'"
      "evolves now st st'"
      "b \<Longrightarrow> \<exists>x. map_of (sessions st) (s_address h) = Some x \<and> s_ref x = s_ref h \<and>
        now - s_last_seen x < session_ttl st"
      "b \<Longrightarrow> \<exists>x. map_of (sessions st') (s_address h) = Some x \<and> s_ref x = s_ref h \<and>
        remembers (s_nonces x) nonce now 0"
    by (rule accept_data_nonce_call [OF i assms(2), of h nonce]) blast
  have bt: "b" "st' = st1" using b(1) assms(3) by simp_all
  obtain x0 where x0: "(s_address h, x0) \<in> set (sessions st)" "s_ref x0 = s_ref h"
    using b(4) [OF bt(1)] by (auto dest: map_of_SomeD)
  obtain x where x: "map_of (sessions st1) (s_address h) = Some x" "s_ref x = s_ref h"
      "remembers (s_nonces x) nonce now 0"
    using b(5) [OF bt(1)] bt(2) by auto
  show "secure_inv 0 now st1" using b(2) bt(2) by simp
  show "config_of st1 = config_of st" using b(3) bt(2) by (simp add: evolves_def)
  have "s_ref h < next_ref st" using i x0 by (auto simp: secure_inv_def secure_wf_def session_table_def)
  moreover have "distinct (keys (sessions st1))"
    using b(2) bt(2) by (simp add: secure_inv_def secure_wf_def session_table_def)
  then have "y = x" if "(s_address h, y) \<in> set (sessions st1)" for y
    using that x(1) by auto
  ultimately show "session_remembers (s_address h) (s_ref h) nonce now 0 st1"
    using b(3) bt(2) x(3) by (auto simp: session_remembers_def evolves_def)
qed

lemma remembered_refused:
  assumes "session_remembers (s_address h) (s_ref h) nonce u n st" and "secure_inv 0 t st" and "t \<le> now"
    and "now - u < data_nonce_ttl st"
  shows "\<not> (\<exists>st'. accept_data_nonce h nonce now st = Inr (True, st'))"
proof -
  obtain b st' where b: "accept_data_nonce h nonce now st = Inr (b, st')"
      "\<And>u n. (\<forall>x. (s_address h, x) \<in> set (sessions st) \<longrightarrow> s_ref x = s_ref h \<longrightarrow>
         remembers (s_nonces x) nonce u n) \<Longrightarrow> now - u < data_nonce_ttl st \<Longrightarrow> \<not> b"
    by (rule accept_data_nonce_call [OF assms(2,3), of h nonce]) blast
  have "\<not> b" using assms(1,4) by (intro b(2) [of u n]) (auto simp: session_remembers_def)
  with b(1) show ?thesis by simp
qed

text \<open>Runs of calls one after the other.\<close>

lemma secure_runs_join:
  "secure_runs a st1 m v st2 \<Longrightarrow> secure_runs t st n u st1 \<Longrightarrow> u \<le> a \<Longrightarrow>
     \<exists>w. u \<le> w \<and> w \<le> v \<and> secure_runs t st (n + m) w st2"
proof (induction rule: secure_runs.induct)
  case (none a st1)
  then show ?case by auto
next
  case (call a st1 m v st2 now st3)
  then obtain w where w: "u \<le> w" "w \<le> v" "secure_runs t st (n + m) w st2" by blast
  then have "secure_runs t st (Suc (n + m)) now st3"
    using call.hyps(2,3) by (intro secure_runs.call [OF w(3)]) auto
  then show ?case using w call.hyps(2) by (intro exI [of _ now]) simp
qed

lemma receives_runs:
  assumes "receives cfg t l hist u l'" and "secure_inv 0 t (li_state l)"
  shows "\<exists>n w. n \<le> 8 * length hist \<and> w \<le> u \<and> secure_runs t (li_state l) n w (li_state l')"
  using assms
proof (induction rule: receives.induct)
  case (datagram t l evs u l1 env data addr l2)
  then obtain n w where n: "n \<le> 8 * length evs" "w \<le> u" "secure_runs t (li_state l) n w (li_state l1)" by blast
  have "secure_inv 0 w (li_state l1)" using secure_runs_inv [OF n(3) datagram.prems] by simp
  then have i: "secure_inv 0 (de_now env) (li_state l1)"
    using n(2) datagram.hyps(2) by (auto intro: secure_inv_mono)
  obtain l' where "secure_datagram cfg env data addr l1 = Inr l'" "datagram_result cfg env data addr l1 l'"
    using secure_datagram_result [OF i] by blast
  then obtain m where m: "m \<le> 8" "secure_runs (de_now env) (li_state l1) m (de_now env) (li_state l2)"
    using datagram.hyps(3) by (auto simp: datagram_result_def)
  have "w \<le> de_now env" using n(2) datagram.hyps(2) by simp
  from secure_runs_join [OF m(2) n(3) this] obtain v where
    "v \<le> de_now env" "secure_runs t (li_state l) (n + m) v (li_state l2)" by blast
  moreover have "n + m \<le> 8 * length (evs @ [(env, data, addr)])" using n(1) m(1) by simp
  ultimately show ?case by blast
qed (auto intro: exI [of _ 0] secure_runs.none)

lemma unique_session:
  assumes "secure_inv 0 t st" and "map_of (sessions st) a = Some x" and "(a, y) \<in> set (sessions st)"
  shows "y = x" and "s_address y = a"
  using assms by (auto simp: secure_inv_def secure_wf_def session_table_def)

subsection \<open>A small listener, for the witnesses\<close>

definition example_crypto :: "(unit, bytes) listener_crypto" where
  "example_crypto =
     \<lparr>sha256 = (\<lambda>b. replicate 32 CHR ''h''),
      hkdf_sha256 = (\<lambda>n salt info secret. take n (drop (length info - 60) info)),
      is_p256_private = (\<lambda>sk. True), is_p256_public = (\<lambda>pk. True),
      from_encoded_point = Some, compressed_point = (\<lambda>pk. pk),
      ecdh_exchange = (\<lambda>sk pk. replicate 32 CHR ''z''),
      ecdsa_sign = (\<lambda>sk d. ''s''), ecdsa_verify = (\<lambda>pk s d. True),
      decode_dss = (\<lambda>s. Some (1, 1)), encode_dss = (\<lambda>r s. ''s''),
      public_key = (\<lambda>sk. char_of (2 :: nat) # replicate 32 CHR ''p''),
      aes_encrypt = (\<lambda>k n p a. replicate 16 CHR ''t'' @ p),
      aes_decrypt = (\<lambda>k n c a. Some (drop 16 c))\<rparr>"

definition example_listener :: "(unit, bytes) listener_config" where
  "example_listener =
     \<lparr>lc_crypto = example_crypto, lc_server_key = (), lc_authorized = [(lit ''st'', ''key'')],
      lc_policy = Unrestricted, lc_input_id = None, lc_nesting = 900\<rparr>"

definition example_env :: "time \<Rightarrow> unit datagram_env" where
  "example_env now =
     \<lparr>de_now = now, de_wall = now, de_urandom = (\<lambda>n. replicate n CHR ''r''), de_ephemeral = (),
      de_can_send = True\<rparr>"

definition example_packet :: bytes where
  "example_packet = ''NMEA-D'' @ replicate 28 CHR ''x''"

definition example_traffic :: input_traffic where
  "example_traffic =
     \<lparr>in_name = lit ''sec'', in_kind = lit ''udpsec'', transport_packets = 0, transport_bytes = 0,
      accepted_frames = 0, payload_bytes = 0\<rparr>"

lemma example_listening:
  "secure_init default_config = Inr st \<Longrightarrow> listening cfg [] t (listener_init st example_traffic)"
  unfolding listening_def using receives.none by blast

lemma init_sessions: "secure_init c = Inr st \<Longrightarrow> sessions st = [] \<and> pending_sessions st = []"
  by (auto simp: secure_init_def rbind_Inr_iff)

lemma example_packet_parses: "\<exists>ct. parse_secure_data_packet example_packet = Inr (replicate 12 CHR ''x'', ct)"
  by (simp add: parse_secure_data_packet_def example_packet_def starts_with_def data_prefix_def PyText.slice_def
      numeral_eq_Suc Let_def)

subsection \<open>Properties\<close>

text \<open>
  C8. Only authentic messages of authorised stations reach the queue. In any run of the
  listener, whatever datagrams it got, a datagram adds to the queue nothing, or one frame;
  and then the policy allows the address, an unexpired session of that address exists whose
  keys come from an earlier ClientHello of the same address that passed every check
  (\<open>greeted\<close>: authorised station, fresh timestamp, valid signature), the ciphertext opens under
  the session's key to an NMEA message that names the station, and the frame is its payload
  under the identity of the station.
\<close>

theorem queued_frame_authentic:
  assumes "listening cfg hist t l" and "t \<le> de_now env" and "secure_datagram cfg env data addr l = Inr l'"
  shows "li_queue l' = li_queue l \<or>
    (\<exists>f x nonce ct. li_queue l' = li_queue l @ [f] \<and> allows (lc_policy cfg) (fst addr) \<and>
       (addr, x) \<in> set (sessions (li_state l)) \<and> de_now env - s_last_seen x < session_ttl (li_state l) \<and>
       introduced cfg hist addr (s_station x) (s_c2s x) (s_s2c x) \<and>
       parse_secure_data_packet data = Inr (nonce, ct) \<and>
       authentic_frame cfg addr (s_station x) (s_c2s x) nonce ct f)"
proof (cases "li_queue l' = li_queue l")
  case False
  have l: "secure_inv 0 (de_now env) (li_state l)" "all_introduced cfg hist (li_state l)"
    using listening_inv [OF assms(1)] secure_inv_mono [OF _ assms(2)] by auto
  have d: "datagram_result cfg env data addr l l'"
    using secure_datagram_result [OF l(1), of cfg data addr] assms(3) by auto
  with False obtain x nonce ct f where x: "(addr, x) \<in> set (sessions (li_state l))"
      "de_now env - s_last_seen x < session_ttl (li_state l)" "parse_secure_data_packet data = Inr (nonce, ct)"
      "li_queue l' = li_queue l @ [f]" "authentic_frame cfg addr (s_station x) (s_c2s x) nonce ct f"
    unfolding datagram_result_def queued_def by blast
  have "session_peer (addr, x) \<in> peers (li_state l)" using x(1) by (auto simp: peers_def)
  then have "introduced cfg hist addr (s_station x) (s_c2s x) (s_s2c x)"
    using l(2) by (auto simp: all_introduced_def session_peer_def)
  moreover have "allows (lc_policy cfg) (fst addr)" using d False by (auto simp: datagram_result_def)
  ultimately show ?thesis using x by blast
qed simp

lemma queued_frame_authentic_witness:
  "\<exists>st. secure_init default_config = Inr st \<and>
     (\<forall>l'. secure_datagram example_listener (example_env 5) example_packet (lit ''::1'', 7, [])
        (listener_init st example_traffic) = Inr l' \<longrightarrow> li_queue l' = [])"
proof -
  obtain st :: "(address, bytes) secure_state" where st: "secure_init default_config = Inr st"
    by (simp add: secure_init_def default_config_def)
  let ?l = "listener_init st example_traffic"
  note l = example_listening [OF st, of example_listener 0]
  have "li_queue l' = []"
    if "secure_datagram example_listener (example_env 5) example_packet (lit ''::1'', 7, []) ?l = Inr l'" for l'
    using queued_frame_authentic [OF l _ that] init_sessions [OF st]
    by (auto simp: example_env_def listener_init_def)
  then show ?thesis using st by blast
qed

text \<open>
  C10. The listener answers every datagram and never stops: no datagram raises out of the loop;
  an address outside the policy changes nothing but the packet counters; and each datagram
  leads to at most one packet, sent to the address it came from, and for a ClientHello only
  if it passed every check, so a stranger cannot make the server do key agreement or reply.
\<close>

theorem listener_robust:
  assumes "listening cfg hist t l" and "t \<le> de_now env"
  shows "\<exists>l'. secure_datagram cfg env data addr l = Inr l' \<and>
    (li_sent l' = li_sent l \<or> (\<exists>packet. li_sent l' = li_sent l @ [(addr, packet)])) \<and>
    (allows (lc_policy cfg) (fst addr) \<or> li_state l' = li_state l \<and> li_queue l' = li_queue l \<and> li_sent l' = li_sent l) \<and>
    (starts_with hello_prefix data \<longrightarrow> li_sent l' = li_sent l \<or> (\<exists>station c2s s2c. greeted cfg env data station c2s s2c))"
proof -
  have "secure_inv 0 (de_now env) (li_state l)"
    using listening_inv [OF assms(1)] secure_inv_mono [OF _ assms(2)] by auto
  from secure_datagram_result [OF this, of cfg data addr] obtain l' where
    "secure_datagram cfg env data addr l = Inr l'" "datagram_result cfg env data addr l l'" by blast
  then show ?thesis unfolding datagram_result_def replied_def by blast
qed

lemma listener_robust_witness:
  "\<exists>st l'. secure_init default_config = Inr st \<and>
     secure_datagram example_listener (example_env 5) example_packet (lit ''::1'', 7, [])
        (listener_init st example_traffic) = Inr l' \<and> length (li_sent l') \<le> 1"
proof -
  obtain st :: "(address, bytes) secure_state" where st: "secure_init default_config = Inr st"
    by (simp add: secure_init_def default_config_def)
  from listener_robust [OF example_listening [OF st], where t = 0 and env = "example_env 5"
      and cfg = example_listener and data = example_packet and addr = "(lit ''::1'', 7, [])"] st
  show ?thesis by (force simp: example_env_def listener_init_def)
qed



end
