(* ===== verification/Forwarder.thy ===== *)
theory Forwarder
  imports NetworkPolicy Identity DataPlane
begin

section \<open>UDP forwarding (\<open>forwarder.py\<close>)\<close>

text \<open>
  The targets of the configuration, numbered in order, with the datagram transports opened
  for them and the lifetime counters of each. Every call is one step, sequential as its only
  caller, the egress stage, makes it. What the operating system answers when an endpoint is
  opened or a datagram is sent comes from an environment that may depend on all that happened
  before: the events of the state, in order. What is shown: a call to \<open>send_to_ids\<close> is refused
  as a whole or sends to every listed target once, in order, up to the first failure; the
  counters account for every attempt; each transport is open at most once per cache key, and
  \<open>close\<close> closes exactly those open.
\<close>

subsection \<open>Values of the configuration\<close>

text \<open>
  \<open>str(v)\<close> and \<open>int(v)\<close> of a configured value; the text of a float or a container and the
  truncation of a float belong to the interpreter and are given.
\<close>

record conversions =
  other_text :: "pyval \<Rightarrow> pystr"
  float_int :: "int \<Rightarrow> int res"

fun py_str :: "conversions \<Rightarrow> pyval \<Rightarrow> pystr" where
  "py_str k (PStr s) = s"
| "py_str k (PInt i) = int_str i"
| "py_str k (PBool b) = (if b then lit ''True'' else lit ''False'')"
| "py_str k PNone = lit ''None''"
| "py_str k v = other_text k v"

fun int_of_value :: "conversions \<Rightarrow> pyval \<Rightarrow> int res" where
  "int_of_value k (PInt i) = Inr i"
| "int_of_value k (PBool b) = Inr (of_bool b)"
| "int_of_value k (PFloat f) = float_int k f"
| "int_of_value k (PStr s) = (case py_int s of None \<Rightarrow> Inl ValueError | Some i \<Rightarrow> Inr i)"
| "int_of_value k (PBytes b) =
     (case py_int (map of_char b) of None \<Rightarrow> Inl ValueError | Some i \<Rightarrow> Inr i)"
| "int_of_value k v = Inl TypeError"

text \<open>\<open>entry[key]\<close> and \<open>key in entry\<close> of a configured entry\<close>

definition entry_item :: "pyval \<Rightarrow> string \<Rightarrow> pyval res" where
  "entry_item entry key =
     (case entry of
        PDict d \<Rightarrow> (case map_of d (PStr (lit key)) of None \<Rightarrow> Inl KeyError | Some v \<Rightarrow> Inr v)
      | _ \<Rightarrow> Inl TypeError)"

definition entry_get :: "(pyval \<times> pyval) list \<Rightarrow> string \<Rightarrow> pyval option" where
  "entry_get d key = map_of d (PStr (lit key))"

text \<open>What a \<open>for\<close> loop over a value sees.\<close>

fun iter_items :: "pyval \<Rightarrow> pyval list res" where
  "iter_items (PList vs) = Inr vs"
| "iter_items (PDict kvs) = Inr (map fst kvs)"
| "iter_items (PStr s) = Inr (map (\<lambda>c. PStr [c]) s)"
| "iter_items (PBytes b) = Inr (map (\<lambda>c. PInt (of_char c)) b)"
| "iter_items _ = Inl TypeError"

fun hashable :: "pyval \<Rightarrow> bool" where
  "hashable (PList _) = False"
| "hashable (PDict _) = False"
| "hashable _ = True"

subsection \<open>The text of an address\<close>

text \<open>\<open>str()\<close> of the addresses of \<open>ipaddress\<close>: \<open>_string_from_ip_int\<close> and \<open>_compress_hextets\<close>.\<close>

definition ipv4_text :: "32 word \<Rightarrow> pystr" where
  "ipv4_text w =
     join 46 (map (\<lambda>k. nat_str (unat w div 256 ^ k mod 256)) [3, 2, 1, 0])"

definition hextets :: "128 word \<Rightarrow> nat list" where
  "hextets w = map (\<lambda>k. unat w div 65536 ^ k mod 65536) [7, 6, 5, 4, 3, 2, 1, 0]"

definition hex_digit :: "nat \<Rightarrow> nat" where
  "hex_digit d = (if d < 10 then 48 + d else 87 + d)"

fun hex_text :: "nat \<Rightarrow> pystr" where
  "hex_text n = (if n < 16 then [hex_digit n] else hex_text (n div 16) @ [hex_digit (n mod 16)])"

declare hex_text.simps [simp del]

text \<open>
  The scan for the longest run of zero hextets, the first of those: start and length of the
  best run so far, and of the run that ends here.
\<close>

fun zero_run :: "nat list \<Rightarrow> nat \<Rightarrow> nat \<times> nat \<Rightarrow> nat \<times> nat \<Rightarrow> nat \<times> nat" where
  "zero_run [] i cur best = best"
| "zero_run (h # hs) i (start, len) best =
     (if h = 0 then
        (let start' = (if len = 0 then i else start);
             cur = (start', Suc len)
         in zero_run hs (Suc i) cur (if Suc len > snd best then cur else best))
      else zero_run hs (Suc i) (0, 0) best)"

definition ipv6_text :: "128 word \<Rightarrow> pystr" where
  "ipv6_text w =
     (let hs = hextets w;
          (start, len) = zero_run hs 0 (0, 0) (0, 0);
          texts = map hex_text hs
      in if len > 1 then
           join 58 ((if start = 0 then [[]] else []) @ take start texts @ [[]] @
                    drop (start + len) texts @ (if start + len = 8 then [[]] else []))
         else join 58 texts)"

text \<open>\<open>str(ipaddress.ip_address(s))\<close>, with the zone of an IPv6 address kept\<close>

definition normalized_ip :: "pystr \<Rightarrow> pystr option" where
  "normalized_ip s =
     (case ip_address s of
        None \<Rightarrow> None
      | Some (V4 w) \<Rightarrow> Some (ipv4_text w)
      | Some (V6 w) \<Rightarrow>
          Some (ipv6_text w @ (case partition_at 37 s of None \<Rightarrow> [] | Some (_, scope) \<Rightarrow> 37 # scope)))"

subsection \<open>Targets\<close>

definition normalize_source_ip :: "pyval \<Rightarrow> pystr res" where
  "normalize_source_ip v =
     (case v of
        PStr s \<Rightarrow>
          if strip s = [] then Inl ForwarderConfigError
          else (case normalized_ip (strip s) of
             None \<Rightarrow> Inl ForwarderConfigError
           | Some t \<Rightarrow> Inr t)
      | _ \<Rightarrow> Inl ForwarderConfigError)"

text \<open>\<open>_copy_target_entry\<close>: the four keys that matter, in this order.\<close>

definition copy_target_entry :: "pyval \<Rightarrow> (pyval \<times> pyval) list res" where
  "copy_target_entry entry =
     rbind (entry_item entry ''host'') (\<lambda>host.
     rbind (entry_item entry ''port'') (\<lambda>port.
       let d = (case entry of PDict d \<Rightarrow> d | _ \<Rightarrow> []);
           copied = [(PStr (lit ''host''), host), (PStr (lit ''port''), port)] @
             (case entry_get d ''id'' of None \<Rightarrow> [] | Some v \<Rightarrow> [(PStr (lit ''id''), v)])
       in (case entry_get d ''source_ip'' of
             None \<Rightarrow> Inr copied
           | Some v \<Rightarrow> rbind (normalize_source_ip v) (\<lambda>t.
               Inr (copied @ [(PStr (lit ''source_ip''), PStr t)])))))"

datatype family = AF_UNSPEC | AF_INET | AF_INET6

record udp_destination =
  dest_host :: pystr
  dest_port :: int
  dest_source_ip :: "pystr option"
  dest_family :: family

definition destination_from_entry :: "conversions \<Rightarrow> (pyval \<times> pyval) list \<Rightarrow> udp_destination res" where
  "destination_from_entry k entry =
     rbind (entry_item (PDict entry) ''host'') (\<lambda>h.
     rbind (entry_item (PDict entry) ''port'') (\<lambda>p.
     rbind (int_of_value k p) (\<lambda>port.
       let host = py_str k h
       in (case entry_get entry ''source_ip'' of
             Some (PStr source) \<Rightarrow>
               (case ip_address source of
                  None \<Rightarrow> Inl ValueError
                | Some address \<Rightarrow>
                    if (case ip_address host of
                          None \<Rightarrow> False
                        | Some host_address \<Rightarrow> version host_address \<noteq> version address)
                    then Inl ForwarderConfigError
                    else Inr \<lparr>dest_host = host, dest_port = port,
                              dest_source_ip = normalized_ip source,
                              dest_family = (if version address = 6 then AF_INET6 else AF_INET)\<rparr>)
           | _ \<Rightarrow> Inr \<lparr>dest_host = host, dest_port = port, dest_source_ip = None,
                         dest_family = AF_UNSPEC\<rparr>))))"

text \<open>The table of named targets, in the order of the entries.\<close>

fun name_targets ::
  "nat \<Rightarrow> (pyval \<times> pyval) list list \<Rightarrow> (pystr \<times> nat) list \<Rightarrow> (pystr \<times> nat) list res" where
  "name_targets i [] table = Inr table"
| "name_targets i (entry # entries) table =
     (case entry_get entry ''id'' of
        None \<Rightarrow> name_targets (Suc i) entries table
      | Some v \<Rightarrow> rbind (build_udp_target_id v) (\<lambda>name.
          if map_of table name \<noteq> None then Inl ForwarderConfigError
          else name_targets (Suc i) entries (table @ [(name, i)])))"

subsection \<open>Counters of one target\<close>

record output_traffic =
  tr_target :: nat
  tr_name :: "pystr option"
  tr_attempts :: nat
  tr_completed :: nat
  tr_failed :: nat
  tr_messages :: nat
  tr_bytes :: nat

definition output_traffic_snapshot :: "output_traffic \<Rightarrow> output_traffic_metrics res" where
  "output_traffic_snapshot t =
     output_traffic_snapshot_of (PInt (int (tr_target t)))
       (case tr_name t of None \<Rightarrow> PNone | Some n \<Rightarrow> PStr n)
       [PInt (int (tr_attempts t)), PInt (int (tr_completed t)), PInt (int (tr_failed t)),
        PInt (int (tr_messages t)), PInt (int (tr_bytes t))]"

definition output_traffic_init :: "nat \<Rightarrow> pystr option \<Rightarrow> output_traffic res" where
  "output_traffic_init i name =
     (let t = \<lparr>tr_target = i, tr_name = name, tr_attempts = 0, tr_completed = 0, tr_failed = 0,
               tr_messages = 0, tr_bytes = 0\<rparr>
      in rbind (output_traffic_snapshot t) (\<lambda>_. Inr t))"

definition dispatch_started :: "output_traffic \<Rightarrow> output_traffic" where
  "dispatch_started t = t\<lparr>tr_attempts := Suc (tr_attempts t)\<rparr>"

definition dispatch_completed :: "bytes \<Rightarrow> output_traffic \<Rightarrow> output_traffic" where
  "dispatch_completed msg t =
     t\<lparr>tr_completed := Suc (tr_completed t), tr_messages := Suc (tr_messages t),
       tr_bytes := tr_bytes t + length msg\<rparr>"

definition dispatch_failed :: "output_traffic \<Rightarrow> output_traffic" where
  "dispatch_failed t = t\<lparr>tr_failed := Suc (tr_failed t)\<rparr>"

subsection \<open>The forwarder\<close>

text \<open>What happened outside, and the environment that decides it. A transport is a number.\<close>

type_synonym transport = nat

text \<open>The keys of the cache: a pair, or a triple with the source address.\<close>

datatype transport_key = HostPort pystr int | HostPortSource pystr int pystr

datatype net_event =
    Opened udp_destination transport
  | OpenFailed udp_destination py_error
  | Sent transport bytes
  | SendFailed transport py_error
  | Closed transport

record net_env =
  open_endpoint :: "net_event list \<Rightarrow> udp_destination \<Rightarrow> transport res"
  send_outcome :: "net_event list \<Rightarrow> transport \<Rightarrow> bytes \<Rightarrow> py_error option"

record forwarder =
  fw_targets :: "(pyval \<times> pyval) list list"
  fw_destinations :: "udp_destination list"
  fw_names :: "(pystr \<times> nat) list"
  fw_traffic :: "output_traffic list"
  fw_transports :: "(transport_key \<times> transport) list"
  fw_events :: "net_event list"

definition forwarder_init :: "conversions \<Rightarrow> pyval list \<Rightarrow> forwarder res" where
  "forwarder_init k targets =
     rbind (rmap copy_target_entry targets) (\<lambda>entries.
     rbind (rmap (destination_from_entry k) entries) (\<lambda>dests.
     rbind (name_targets 0 entries []) (\<lambda>names.
     rbind (rmap (\<lambda>i. output_traffic_init i (map_of (map prod.swap names) i)) [0..<length dests]) (\<lambda>traffic.
       Inr \<lparr>fw_targets = entries, fw_destinations = dests, fw_names = names, fw_traffic = traffic,
            fw_transports = [], fw_events = []\<rparr>))))"

definition fw_target_ids :: "forwarder \<Rightarrow> pystr list" where
  "fw_target_ids f = keys (fw_names f)"

definition all_target_ids :: "forwarder \<Rightarrow> nat list" where
  "all_target_ids f = [0..<length (fw_destinations f)]"

definition traffic_snapshots :: "forwarder \<Rightarrow> output_traffic_metrics list res" where
  "traffic_snapshots f = rmap output_traffic_snapshot (fw_traffic f)"

definition transport_cache_key :: "udp_destination \<Rightarrow> transport_key" where
  "transport_cache_key d =
     (case dest_source_ip d of
        None \<Rightarrow> HostPort (dest_host d) (dest_port d)
      | Some s \<Rightarrow> HostPortSource (dest_host d) (dest_port d) s)"

definition log_event :: "net_event \<Rightarrow> forwarder \<Rightarrow> forwarder" where
  "log_event e f = f\<lparr>fw_events := fw_events f @ [e]\<rparr>"

definition ensure_transport :: "net_env \<Rightarrow> udp_destination \<Rightarrow> forwarder \<Rightarrow> forwarder \<times> transport res" where
  "ensure_transport env d f =
     (let key = transport_cache_key d
      in case map_of (fw_transports f) key of
           Some t \<Rightarrow> (f, Inr t)
         | None \<Rightarrow>
             (case open_endpoint env (fw_events f) d of
                Inl e \<Rightarrow> (log_event (OpenFailed d e) f,
                          Inl (if is_os_error e then ForwarderConfigError else e))
              | Inr t \<Rightarrow>
                  (log_event (Opened d t) f\<lparr>fw_transports := fw_transports f @ [(key, t)]\<rparr>, Inr t)))"

definition send_to_destination ::
  "net_env \<Rightarrow> udp_destination \<Rightarrow> bytes \<Rightarrow> forwarder \<Rightarrow> forwarder \<times> unit res" where
  "send_to_destination env d msg f =
     (case ensure_transport env d f of
        (f1, Inl e) \<Rightarrow> (f1, Inl e)
      | (f1, Inr t) \<Rightarrow>
          (case send_outcome env (fw_events f1) t msg of
             Some e \<Rightarrow> (log_event (SendFailed t e) f1, Inl e)
           | None \<Rightarrow> (log_event (Sent t msg) f1, Inr ())))"

definition on_traffic :: "nat \<Rightarrow> (output_traffic \<Rightarrow> output_traffic) \<Rightarrow> forwarder \<Rightarrow> forwarder" where
  "on_traffic i g f = f\<lparr>fw_traffic := (fw_traffic f)[i := g (fw_traffic f ! i)]\<rparr>"

definition dispatch_to_id :: "net_env \<Rightarrow> nat \<Rightarrow> bytes \<Rightarrow> forwarder \<Rightarrow> forwarder \<times> unit res" where
  "dispatch_to_id env i msg f =
     (if length (fw_traffic f) \<le> i then (f, Inl IndexError)
      else (case send_to_destination env (fw_destinations f ! i) msg (on_traffic i dispatch_started f) of
         (f1, Inl e) \<Rightarrow> (on_traffic i dispatch_failed f1, Inl e)
       | (f1, Inr _) \<Rightarrow> (on_traffic i (dispatch_completed msg) f1, Inr ())))"

fun dispatch_to_ids :: "net_env \<Rightarrow> nat list \<Rightarrow> bytes \<Rightarrow> forwarder \<Rightarrow> forwarder \<times> unit res" where
  "dispatch_to_ids env [] msg f = (f, Inr ())"
| "dispatch_to_ids env (i # is) msg f =
     (case dispatch_to_id env i msg f of
        (f1, Inl e) \<Rightarrow> (f1, Inl e)
      | (f1, Inr _) \<Rightarrow> dispatch_to_ids env is msg f1)"

fun validate_payload :: "pyval \<Rightarrow> bytes res" where
  "validate_payload (PBytes b) = Inr b"
| "validate_payload _ = Inl TypeError"

definition send :: "net_env \<Rightarrow> pyval \<Rightarrow> forwarder \<Rightarrow> forwarder \<times> unit res" where
  "send env msg f =
     (case validate_payload msg of
        Inl e \<Rightarrow> (f, Inl e)
      | Inr b \<Rightarrow> dispatch_to_ids env (all_target_ids f) b f)"

text \<open>\<open>close()\<close>: every transport in the order of the cache, which is then empty.\<close>

definition fw_close :: "forwarder \<Rightarrow> forwarder" where
  "fw_close f =
     f\<lparr>fw_events := fw_events f @ map (\<lambda>(_, t). Closed t) (fw_transports f), fw_transports := []\<rparr>"

text \<open>\<open>_validate_numeric_target_ids\<close>: the loop with the ids accepted so far.\<close>

fun numeric_target_ids :: "nat \<Rightarrow> pyval list \<Rightarrow> nat list \<Rightarrow> nat list res" where
  "numeric_target_ids count [] ordered = Inr ordered"
| "numeric_target_ids count (v # vs) ordered =
     (case as_int v of
        None \<Rightarrow> Inl TypeError
      | Some i \<Rightarrow>
          if i < 0 \<or> int count \<le> i then Inl UnknownForwarderTargetError
          else if nat i \<in> set ordered then numeric_target_ids count vs ordered
          else numeric_target_ids count vs (ordered @ [nat i]))"

definition validate_numeric_target_ids :: "pyval \<Rightarrow> nat \<Rightarrow> nat list res" where
  "validate_numeric_target_ids ids count =
     (case ids of
        PStr _ \<Rightarrow> Inl TypeError
      | PBytes _ \<Rightarrow> Inl TypeError
      | _ \<Rightarrow> rbind (iter_items ids) (\<lambda>vs. numeric_target_ids count vs []))"

definition send_to_ids :: "net_env \<Rightarrow> pyval \<Rightarrow> pyval \<Rightarrow> forwarder \<Rightarrow> forwarder \<times> unit res" where
  "send_to_ids env ids msg f =
     (case validate_payload msg of
        Inl e \<Rightarrow> (f, Inl e)
      | Inr b \<Rightarrow>
          (case validate_numeric_target_ids ids (length (fw_destinations f)) of
             Inl e \<Rightarrow> (f, Inl e)
           | Inr is \<Rightarrow> dispatch_to_ids env is b f))"

text \<open>\<open>_dedupe_target_ids\<close>: the first occurrence of each; an unhashable id raises.\<close>

fun dedupe_ids :: "pyval list \<Rightarrow> pyval list \<Rightarrow> pyval list res" where
  "dedupe_ids [] ordered = Inr ordered"
| "dedupe_ids (v # vs) ordered =
     (if \<not> hashable v then Inl TypeError
      else if v \<in> set ordered then dedupe_ids vs ordered
      else dedupe_ids vs (ordered @ [v]))"

definition dedupe_target_ids :: "pyval \<Rightarrow> pyval list res" where
  "dedupe_target_ids ids =
     (case ids of
        PStr _ \<Rightarrow> Inl TypeError
      | _ \<Rightarrow> rbind (iter_items ids) (\<lambda>vs. dedupe_ids vs []))"

definition name_lookup :: "forwarder \<Rightarrow> pyval \<Rightarrow> nat option" where
  "name_lookup f v = Option.bind (as_str v) (map_of (fw_names f))"

fun send_to_names :: "net_env \<Rightarrow> pyval list \<Rightarrow> bytes \<Rightarrow> forwarder \<Rightarrow> forwarder \<times> unit res" where
  "send_to_names env [] msg f = (f, Inr ())"
| "send_to_names env (v # vs) msg f =
     (case name_lookup f v of
        None \<Rightarrow> (f, Inl UnknownForwarderTargetError)
      | Some i \<Rightarrow>
          (case dispatch_to_id env i msg f of
             (f1, Inl e) \<Rightarrow> (f1, Inl e)
           | (f1, Inr _) \<Rightarrow> send_to_names env vs msg f1))"

definition send_to :: "net_env \<Rightarrow> pyval \<Rightarrow> pyval \<Rightarrow> forwarder \<Rightarrow> forwarder \<times> unit res" where
  "send_to env ids msg f =
     (case validate_payload msg of
        Inl e \<Rightarrow> (f, Inl e)
      | Inr b \<Rightarrow>
          (case dedupe_target_ids ids of
             Inl e \<Rightarrow> (f, Inl e)
           | Inr vs \<Rightarrow> send_to_names env vs b f))"

subsection \<open>Sequences of calls\<close>

datatype fw_call = Send pyval | SendToIds pyval pyval | SendTo pyval pyval | Close

fun fw_call_step :: "net_env \<Rightarrow> fw_call \<Rightarrow> forwarder \<Rightarrow> forwarder" where
  "fw_call_step env (Send msg) f = fst (send env msg f)"
| "fw_call_step env (SendToIds ids msg) f = fst (send_to_ids env ids msg f)"
| "fw_call_step env (SendTo ids msg) f = fst (send_to env ids msg f)"
| "fw_call_step env Close f = fw_close f"

definition fw_run :: "net_env \<Rightarrow> fw_call list \<Rightarrow> forwarder \<Rightarrow> forwarder" where
  "fw_run env calls f = fold (fw_call_step env) calls f"

text \<open>The datagrams handed to a transport, and the transports open after some events.\<close>

definition sends :: "net_event list \<Rightarrow> (transport \<times> bytes) list" where
  "sends es = concat (map (\<lambda>e. case e of Sent t b \<Rightarrow> [(t, b)] | _ \<Rightarrow> []) es)"

fun live_after :: "transport list \<Rightarrow> net_event list \<Rightarrow> transport list" where
  "live_after ts [] = ts"
| "live_after ts (e # es) =
     live_after (case e of Opened _ t \<Rightarrow> ts @ [t] | Closed t \<Rightarrow> remove1 t ts | _ \<Rightarrow> ts) es"

lemma sends_append [simp]: "sends (xs @ ys) = sends xs @ sends ys"
  by (simp add: sends_def)

lemma sends_simps [simp]:
  "sends [] = []" "sends [Sent t b] = [(t, b)]" "sends [Opened d t] = []" "sends [OpenFailed d e] = []"
  "sends [SendFailed t e] = []" "sends (map (\<lambda>(k, t). Closed t) xs) = []"
  by (auto simp: sends_def)

lemma live_after_append: "live_after ts (xs @ ys) = live_after (live_after ts xs) ys"
  by (induction ts xs rule: live_after.induct) auto

lemma live_after_close: "live_after (map snd xs @ ys) (map (\<lambda>(k, t). Closed t) xs) = ys"
  by (induction xs) auto

text \<open>One counter record adds up; \<open>total\<close> sums a counter over the targets.\<close>

definition traffic_ok :: "nat \<Rightarrow> output_traffic \<Rightarrow> bool" where
  "traffic_ok i t \<longleftrightarrow> tr_target t = i \<and> tr_name t \<noteq> Some [] \<and>
     tr_attempts t = tr_completed t + tr_failed t \<and> tr_messages t = tr_completed t"

definition total :: "(output_traffic \<Rightarrow> nat) \<Rightarrow> forwarder \<Rightarrow> nat" where
  "total c f = sum_list (map c (fw_traffic f))"

definition fw_wf :: "forwarder \<Rightarrow> bool" where
  "fw_wf f \<longleftrightarrow> length (fw_traffic f) = length (fw_destinations f) \<and>
     (\<forall>i < length (fw_traffic f). traffic_ok i (fw_traffic f ! i)) \<and>
     (\<forall>(n, i) \<in> set (fw_names f). i < length (fw_destinations f)) \<and>
     distinct (keys (fw_transports f)) \<and>
     set (keys (fw_transports f)) \<subseteq> transport_cache_key ` set (fw_destinations f) \<and>
     live_after [] (fw_events f) = map snd (fw_transports f) \<and>
     total tr_messages f = length (sends (fw_events f)) \<and>
     total tr_bytes f = sum_list (map (\<lambda>(t, b). length b) (sends (fw_events f)))"

text \<open>What no call changes, and that the history only grows.\<close>

definition fw_later :: "forwarder \<Rightarrow> forwarder \<Rightarrow> bool" where
  "fw_later f f' \<longleftrightarrow> fw_targets f' = fw_targets f \<and> fw_destinations f' = fw_destinations f \<and>
     fw_names f' = fw_names f \<and> (\<exists>es. fw_events f' = fw_events f @ es)"

lemma fw_later_refl: "fw_later f f"
  by (simp add: fw_later_def)

lemma fw_later_trans: "fw_later f g \<Longrightarrow> fw_later g h \<Longrightarrow> fw_later f h"
  by (auto simp: fw_later_def)

subsection \<open>One dispatch\<close>

text \<open>
  The outcome of one dispatch, spelled out: the transport is found or opened, the datagram is
  sent or not, and one attempt is accounted as completed or failed.
\<close>

lemma dispatch_cases:
  assumes "dispatch_to_id env i msg f = (f', r)" and "i < length (fw_traffic f)"
  defines "d \<equiv> fw_destinations f ! i"
  obtains
    (unopened) e where "map_of (fw_transports f) (transport_cache_key d) = None"
      "open_endpoint env (fw_events f) d = Inl e"
      "r = Inl (if is_os_error e then ForwarderConfigError else e)"
      "f' = on_traffic i (\<lambda>t. dispatch_failed (dispatch_started t)) (log_event (OpenFailed d e) f)"
  | (sending) g t e where "g = f \<and> map_of (fw_transports f) (transport_cache_key d) = Some t \<or>
        map_of (fw_transports f) (transport_cache_key d) = None \<and>
        g = log_event (Opened d t) f\<lparr>fw_transports := fw_transports f @ [(transport_cache_key d, t)]\<rparr>"
      "r = Inl e" "f' = on_traffic i (\<lambda>t. dispatch_failed (dispatch_started t)) (log_event (SendFailed t e) g)"
      "send_outcome env (fw_events g) t msg = Some e"
  | (sent) g t where "g = f \<and> map_of (fw_transports f) (transport_cache_key d) = Some t \<or>
        map_of (fw_transports f) (transport_cache_key d) = None \<and>
        g = log_event (Opened d t) f\<lparr>fw_transports := fw_transports f @ [(transport_cache_key d, t)]\<rparr>"
      "r = Inr ()" "f' = on_traffic i (\<lambda>t. dispatch_completed msg (dispatch_started t)) (log_event (Sent t msg) g)"
proof -
  note defs = dispatch_to_id_def send_to_destination_def ensure_transport_def Let_def on_traffic_def log_event_def
  show thesis
  proof (cases "map_of (fw_transports f) (transport_cache_key d)")
    case None
    show thesis
    proof (cases "open_endpoint env (fw_events f) d")
      case (Inl e)
      then show thesis using assms(1,2) None unopened
        by (auto simp: defs d_def split: prod.splits)
    next
      case (Inr t)
      show thesis
        using assms(1,2) None Inr sending [of _ t] sent [of _ t]
        by (auto simp: defs d_def split: prod.splits option.splits)
    qed
  next
    case (Some t)
    then show thesis
      using assms(1,2) sending [of f t] sent [of f t]
      by (auto simp: defs d_def split: prod.splits option.splits)
  qed
qed

lemma total_on_traffic:
  assumes "i < length (fw_traffic f)" and "\<And>t. c (g t) = c t + n"
  shows "total c (on_traffic i g f) = total c f + n"
proof -
  have "sum_list (xs[j := xs ! j + n]) = sum_list xs + (n :: nat)" if "j < length xs" for xs j
    using that by (induction xs arbitrary: j) (auto split: nat.splits)
  from this [of i "map c (fw_traffic f)"] assms show ?thesis
    by (simp add: total_def on_traffic_def map_update)
qed

lemma on_traffic_simps [simp]:
  "fw_destinations (on_traffic i g f) = fw_destinations f" "fw_names (on_traffic i g f) = fw_names f"
  "fw_targets (on_traffic i g f) = fw_targets f" "fw_transports (on_traffic i g f) = fw_transports f"
  "fw_events (on_traffic i g f) = fw_events f" "length (fw_traffic (on_traffic i g f)) = length (fw_traffic f)"
  by (simp_all add: on_traffic_def)

lemma log_event_simps [simp]:
  "fw_destinations (log_event e f) = fw_destinations f" "fw_names (log_event e f) = fw_names f"
  "fw_targets (log_event e f) = fw_targets f" "fw_transports (log_event e f) = fw_transports f"
  "fw_events (log_event e f) = fw_events f @ [e]" "fw_traffic (log_event e f) = fw_traffic f"
  by (simp_all add: log_event_def)

lemma total_log_event [simp]: "total c (log_event e f) = total c f"
  by (simp add: total_def)

lemma traffic_events_simps [simp]:
  "tr_attempts (dispatch_started t) = Suc (tr_attempts t)" "tr_completed (dispatch_started t) = tr_completed t"
  "tr_failed (dispatch_started t) = tr_failed t" "tr_messages (dispatch_started t) = tr_messages t"
  "tr_bytes (dispatch_started t) = tr_bytes t"
  "tr_attempts (dispatch_failed t) = tr_attempts t" "tr_completed (dispatch_failed t) = tr_completed t"
  "tr_failed (dispatch_failed t) = Suc (tr_failed t)" "tr_messages (dispatch_failed t) = tr_messages t"
  "tr_bytes (dispatch_failed t) = tr_bytes t"
  "tr_attempts (dispatch_completed b t) = tr_attempts t" "tr_completed (dispatch_completed b t) = Suc (tr_completed t)"
  "tr_failed (dispatch_completed b t) = tr_failed t" "tr_messages (dispatch_completed b t) = Suc (tr_messages t)"
  "tr_bytes (dispatch_completed b t) = tr_bytes t + length b"
  by (simp_all add: dispatch_started_def dispatch_failed_def dispatch_completed_def)

lemma traffic_ok_events:
  "traffic_ok i t \<Longrightarrow> traffic_ok i (dispatch_failed (dispatch_started t))"
  "traffic_ok i t \<Longrightarrow> traffic_ok i (dispatch_completed b (dispatch_started t))"
  by (auto simp: traffic_ok_def dispatch_started_def dispatch_failed_def dispatch_completed_def)

text \<open>The counters part and the transports part of the invariant are kept separately.\<close>

lemma opened_wf:
  assumes "fw_wf f" and "i < length (fw_destinations f)"
    and "g = f \<and> map_of (fw_transports f) (transport_cache_key (fw_destinations f ! i)) = Some t \<or>
        map_of (fw_transports f) (transport_cache_key (fw_destinations f ! i)) = None \<and>
        g = log_event (Opened (fw_destinations f ! i) t) f\<lparr>fw_transports := fw_transports f @
          [(transport_cache_key (fw_destinations f ! i), t)]\<rparr>"
  shows "fw_wf g \<and> fw_later f g \<and> sends (fw_events g) = sends (fw_events f) \<and>
    fw_traffic g = fw_traffic f \<and>
    map_of (fw_transports g) (transport_cache_key (fw_destinations f ! i)) = Some t \<and>
    (\<forall>k v. map_of (fw_transports f) k = Some v \<longrightarrow> map_of (fw_transports g) k = Some v)"
  using assms(3)
proof (elim disjE conjE)
  assume "g = f" and "map_of (fw_transports f) (transport_cache_key (fw_destinations f ! i)) = Some t"
  then show ?thesis using assms(1) by (simp add: fw_later_refl)
next
  let ?d = "fw_destinations f ! i"
  let ?ts = "fw_transports f @ [(transport_cache_key ?d, t)]"
  assume none: "map_of (fw_transports f) (transport_cache_key ?d) = None"
    and g: "g = log_event (Opened ?d t) f\<lparr>fw_transports := ?ts\<rparr>"
  have found: "map_of ?ts (transport_cache_key ?d) = Some t"
    and mono: "\<forall>k v. map_of (fw_transports f) k = Some v \<longrightarrow> map_of ?ts k = Some v"
    using none by (auto simp: map_add_def)
  have ev: "fw_events g = fw_events f @ [Opened ?d t]" "fw_transports g = ?ts" "fw_traffic g = fw_traffic f"
    "fw_destinations g = fw_destinations f" "fw_names g = fw_names f" "fw_targets g = fw_targets f"
    by (simp_all add: g)
  have "transport_cache_key ?d \<notin> set (keys (fw_transports f))" using none by (simp add: map_of_eq_None_iff)
  then have keys_ok: "distinct (keys ?ts)"
    "set (keys ?ts) \<subseteq> transport_cache_key ` set (fw_destinations f)"
    using assms(1,2) by (simp_all add: fw_wf_def)
  have "live_after [] (fw_events g) = map snd ?ts"
    using assms(1) by (simp add: ev live_after_append fw_wf_def)
  then have "fw_wf g"
    using assms(1) keys_ok by (simp add: fw_wf_def ev total_def)
  moreover have "fw_later f g" by (simp add: fw_later_def ev)
  ultimately show ?thesis using found mono ev by simp
qed

lemma accounted_wf:
  assumes "fw_wf f" and "i < length (fw_traffic f)"
    and "\<And>t. traffic_ok i t \<Longrightarrow> traffic_ok i (g t)"
    and "\<And>t. tr_messages (g t) = tr_messages t + length (sends [e])"
    and "\<And>t. tr_bytes (g t) = tr_bytes t + sum_list (map (\<lambda>(t, b). length b) (sends [e]))"
    and "\<And>ts. live_after ts [e] = ts"
  shows "fw_wf (on_traffic i g (log_event e f))"
proof -
  have "\<forall>j < length (fw_traffic f). traffic_ok j ((fw_traffic f)[i := g (fw_traffic f ! i)] ! j)"
    using assms(1,2,3) by (simp add: fw_wf_def nth_list_update)
  moreover have "live_after [] (fw_events f @ [e]) = live_after [] (fw_events f)"
    using assms(6) by (simp only: live_after_append)
  moreover have "total tr_messages (on_traffic i g (log_event e f)) = total tr_messages f + length (sends [e])"
    "total tr_bytes (on_traffic i g (log_event e f)) =
       total tr_bytes f + sum_list (map (\<lambda>(t, b). length b) (sends [e]))"
    using assms(2,4,5) by (simp_all add: total_on_traffic)
  ultimately show ?thesis
    using assms(1) by (simp add: fw_wf_def) (simp add: on_traffic_def)
qed

lemma dispatch_to_id_ok:
  assumes "dispatch_to_id env i msg f = (f', r)" and "fw_wf f" and "i < length (fw_destinations f)"
  shows "fw_wf f' \<and> fw_later f f' \<and>
    (\<forall>k v. map_of (fw_transports f) k = Some v \<longrightarrow> map_of (fw_transports f') k = Some v) \<and>
    (case r of
       Inl e \<Rightarrow> sends (fw_events f') = sends (fw_events f)
     | Inr _ \<Rightarrow> \<exists>t. map_of (fw_transports f') (transport_cache_key (fw_destinations f ! i)) = Some t \<and>
          sends (fw_events f') = sends (fw_events f) @ [(t, msg)])"
proof -
  have i: "i < length (fw_traffic f)" using assms(2,3) by (simp add: fw_wf_def)
  show ?thesis
  proof (rule dispatch_cases [OF assms(1) i])
    fix e assume r: "r = Inl (if is_os_error e then ForwarderConfigError else e)"
      and f': "f' = on_traffic i (\<lambda>t. dispatch_failed (dispatch_started t))
        (log_event (OpenFailed (fw_destinations f ! i) e) f)"
    have "fw_wf f'" unfolding f'
      using assms(2) i by (intro accounted_wf) (simp_all add: traffic_ok_events)
    then show ?thesis using r by (simp add: f' fw_later_def)
  next
    fix g t e
    assume g: "g = f \<and> map_of (fw_transports f) (transport_cache_key (fw_destinations f ! i)) = Some t \<or>
        map_of (fw_transports f) (transport_cache_key (fw_destinations f ! i)) = None \<and>
        g = log_event (Opened (fw_destinations f ! i) t) f\<lparr>fw_transports := fw_transports f @
          [(transport_cache_key (fw_destinations f ! i), t)]\<rparr>"
      and r: "r = Inl e"
      and f': "f' = on_traffic i (\<lambda>t. dispatch_failed (dispatch_started t)) (log_event (SendFailed t e) g)"
    note o = opened_wf [OF assms(2,3) g]
    have "fw_wf f'" unfolding f'
      using o i by (intro accounted_wf) (simp_all add: traffic_ok_events)
    then show ?thesis using r o by (auto simp: f' fw_later_def)
  next
    fix g t
    assume g: "g = f \<and> map_of (fw_transports f) (transport_cache_key (fw_destinations f ! i)) = Some t \<or>
        map_of (fw_transports f) (transport_cache_key (fw_destinations f ! i)) = None \<and>
        g = log_event (Opened (fw_destinations f ! i) t) f\<lparr>fw_transports := fw_transports f @
          [(transport_cache_key (fw_destinations f ! i), t)]\<rparr>"
      and r: "r = Inr ()"
      and f': "f' = on_traffic i (\<lambda>t. dispatch_completed msg (dispatch_started t)) (log_event (Sent t msg) g)"
    note o = opened_wf [OF assms(2,3) g]
    have "fw_wf f'" unfolding f'
      using o i by (intro accounted_wf) (simp_all add: traffic_ok_events)
    then show ?thesis using r o by (auto simp: f' fw_later_def)
  qed
qed

text \<open>A dispatch fails only with what the environment answered.\<close>

definition network_error :: "net_env \<Rightarrow> py_error \<Rightarrow> bool" where
  "network_error env e \<longleftrightarrow>
     (\<exists>es d e'. open_endpoint env es d = Inl e' \<and> e = (if is_os_error e' then ForwarderConfigError else e')) \<or>
     (\<exists>es t b. send_outcome env es t b = Some e)"

lemma dispatch_to_id_error:
  assumes "dispatch_to_id env i msg f = (f', Inl e)" and "i < length (fw_traffic f)"
  shows "network_error env e"
  by (rule dispatch_cases [OF assms]) (auto simp: network_error_def)

lemma dispatch_to_id_destinations:
  "fw_destinations (fst (dispatch_to_id env i msg f)) = fw_destinations f \<and>
   length (fw_traffic (fst (dispatch_to_id env i msg f))) = length (fw_traffic f)"
  by (auto simp: dispatch_to_id_def send_to_destination_def ensure_transport_def Let_def
      split: sum.splits prod.splits option.splits)

lemma dispatch_to_ids_error:
  "dispatch_to_ids env is msg f = (f', Inl e) \<Longrightarrow> \<forall>i \<in> set is. i < length (fw_traffic f) \<Longrightarrow>
     network_error env e"
proof (induction "is" arbitrary: f)
  case (Cons i "is")
  obtain f1 r where d: "dispatch_to_id env i msg f = (f1, r)" by fastforce
  have l: "length (fw_traffic f1) = length (fw_traffic f)"
    using dispatch_to_id_destinations [of env i msg f] d by simp
  show ?case
  proof (cases r)
    case (Inl e')
    then show ?thesis using Cons.prems d dispatch_to_id_error [of env i msg f f1 e'] by simp
  next
    case (Inr u)
    then show ?thesis using Cons.prems d l by (intro Cons.IH [of f1]) simp_all
  qed
qed simp

text \<open>The transports a destination list was sent through, in a state that has them all.\<close>

definition handles :: "forwarder \<Rightarrow> nat list \<Rightarrow> transport option list" where
  "handles f is = map (\<lambda>i. map_of (fw_transports f) (transport_cache_key (fw_destinations f ! i))) is"

lemma dispatch_to_ids_ok:
  assumes "dispatch_to_ids env is msg f = (f', r)" and "fw_wf f"
    and "\<forall>i \<in> set is. i < length (fw_destinations f)"
  shows "fw_wf f' \<and> fw_later f f' \<and>
    (\<forall>k v. map_of (fw_transports f) k = Some v \<longrightarrow> map_of (fw_transports f') k = Some v) \<and>
    (\<exists>k ts. k \<le> length is \<and> (r = Inr () \<longleftrightarrow> k = length is) \<and>
       handles f' (take k is) = map Some ts \<and>
       sends (fw_events f') = sends (fw_events f) @ map (\<lambda>t. (t, msg)) ts)"
  using assms
proof (induction "is" arbitrary: f)
  case Nil
  then show ?case by (simp add: fw_later_refl handles_def)
next
  case (Cons i "is")
  obtain f1 r1 where d: "dispatch_to_id env i msg f = (f1, r1)" by fastforce
  have ok: "fw_wf f1 \<and> fw_later f f1 \<and>
    (\<forall>k v. map_of (fw_transports f) k = Some v \<longrightarrow> map_of (fw_transports f1) k = Some v) \<and>
    (case r1 of
       Inl e \<Rightarrow> sends (fw_events f1) = sends (fw_events f)
     | Inr _ \<Rightarrow> \<exists>t. map_of (fw_transports f1) (transport_cache_key (fw_destinations f ! i)) = Some t \<and>
          sends (fw_events f1) = sends (fw_events f) @ [(t, msg)])"
    using dispatch_to_id_ok [OF d Cons.prems(2)] Cons.prems(3) by simp
  show ?case
  proof (cases r1)
    case (Inl e)
    then have "f' = f1 \<and> r = Inl e" using Cons.prems(1) d by simp
    then show ?thesis using ok Inl by (intro conjI exI [of _ 0] exI [of _ "[]"]) (auto simp: handles_def)
  next
    case (Inr u)
    have dest: "fw_destinations f1 = fw_destinations f" using ok by (simp add: fw_later_def)
    obtain t where t: "map_of (fw_transports f1) (transport_cache_key (fw_destinations f ! i)) = Some t"
      "sends (fw_events f1) = sends (fw_events f) @ [(t, msg)]"
      using ok Inr by auto
    have rest: "dispatch_to_ids env is msg f1 = (f', r)" using Cons.prems(1) d Inr by simp
    have bounds: "\<forall>i \<in> set is. i < length (fw_destinations f1)" using Cons.prems(3) dest by simp
    obtain k ts where k: "k \<le> length is" "r = Inr () \<longleftrightarrow> k = length is"
      "handles f' (take k is) = map Some ts"
      "sends (fw_events f') = sends (fw_events f1) @ map (\<lambda>t. (t, msg)) ts"
      and wf: "fw_wf f'" "fw_later f1 f'"
      and mono: "\<forall>k v. map_of (fw_transports f1) k = Some v \<longrightarrow> map_of (fw_transports f') k = Some v"
      using Cons.IH [OF rest _ bounds] ok by auto
    have "handles f' (take (Suc k) (i # is)) = map Some (t # ts)"
      using k(3) mono t(1) wf(2) dest by (simp add: handles_def fw_later_def)
    then show ?thesis
      using k t(2) wf mono ok
      by (intro conjI exI [of _ "Suc k"] exI [of _ "t # ts"]) (auto intro: fw_later_trans)
  qed
qed

subsection \<open>Every call\<close>

text \<open>The accepted numbers are the listed ones, each at its first occurrence.\<close>

lemma numeric_target_ids_Inr:
  "numeric_target_ids n vs acc = Inr is \<Longrightarrow>
     \<exists>xs. vs = map (\<lambda>i. PInt (int i)) xs \<and> (\<forall>i \<in> set xs. i < n) \<and> is = rev (remdups (rev (acc @ xs)))"
  if "distinct acc"
  using that
proof (induction vs arbitrary: acc)
  case Nil
  then show ?case by (intro exI [of _ "[]"]) (simp add: distinct_remdups_id)
next
  case (Cons v vs)
  obtain i where v: "v = PInt (int i)" "i < n"
    and rest: "numeric_target_ids n vs (if i \<in> set acc then acc else acc @ [i]) = Inr is"
  proof (cases v)
    case (PInt j)
    with Cons.prems(1) that [of "nat j"] show thesis by (auto split: if_splits)
  qed (use Cons.prems(1) in auto)
  have "distinct (if i \<in> set acc then acc else acc @ [i])" using Cons.prems(2) by simp
  from Cons.IH [OF rest this] obtain xs where xs: "vs = map (\<lambda>i. PInt (int i)) xs" "\<forall>i \<in> set xs. i < n"
    "is = rev (remdups (rev ((if i \<in> set acc then acc else acc @ [i]) @ xs)))"
    by blast
  have "remdups (ys @ rev acc) = remdups (ys @ i # rev acc)" if "i \<in> set acc" for ys
    using that by (induction ys) auto
  then have "is = rev (remdups (rev (acc @ i # xs)))" using xs(3) by simp
  with v xs show ?case by (intro exI [of _ "i # xs"]) simp
qed

lemma send_to_names_ok:
  "send_to_names env vs msg f = (f', r) \<Longrightarrow> fw_wf f \<Longrightarrow> fw_wf f' \<and> fw_later f f'"
proof (induction vs arbitrary: f)
  case Nil
  then show ?case by (simp add: fw_later_refl)
next
  case (Cons v vs)
  show ?case
  proof (cases "name_lookup f v")
    case None
    then show ?thesis using Cons.prems by (simp add: fw_later_refl)
  next
    case (Some i)
    obtain f1 r1 where d: "dispatch_to_id env i msg f = (f1, r1)" by fastforce
    have "i < length (fw_destinations f)"
      using Some Cons.prems(2) by (auto simp: name_lookup_def fw_wf_def bind_eq_Some_conv dest: map_of_SomeD)
    from dispatch_to_id_ok [OF d Cons.prems(2) this] have ok: "fw_wf f1" "fw_later f f1" by simp_all
    show ?thesis
    proof (cases r1)
      case (Inl e)
      then show ?thesis using Cons.prems(1) Some d ok by simp
    next
      case (Inr u)
      then have "send_to_names env vs msg f1 = (f', r)" using Cons.prems(1) Some d by simp
      from Cons.IH [OF this ok(1)] show ?thesis using ok(2) by (auto intro: fw_later_trans)
    qed
  qed
qed

lemma fw_close_ok: "fw_wf f \<Longrightarrow> fw_wf (fw_close f) \<and> fw_later f (fw_close f)"
  using live_after_close [of "fw_transports f" "[]"]
  by (simp add: fw_wf_def fw_close_def fw_later_def total_def live_after_append)

lemma dispatch_ids_wf:
  "fw_wf f \<Longrightarrow> \<forall>i \<in> set is. i < length (fw_destinations f) \<Longrightarrow>
     fw_wf (fst (dispatch_to_ids env is msg f)) \<and> fw_later f (fst (dispatch_to_ids env is msg f))"
  using dispatch_to_ids_ok [of env "is" msg f] by (cases "dispatch_to_ids env is msg f") auto

lemma valid_numeric_ids:
  assumes "validate_numeric_target_ids ids n = Inr is"
  shows "\<exists>xs. iter_items ids = Inr (map (\<lambda>i. PInt (int i)) xs) \<and> (\<forall>i \<in> set xs. i < n) \<and>
    is = rev (remdups (rev xs))"
proof -
  obtain vs where "iter_items ids = Inr vs" "numeric_target_ids n vs [] = Inr is"
    using assms by (auto simp: validate_numeric_target_ids_def rbind_Inr_iff split: pyval.splits)
  with numeric_target_ids_Inr [of "[]" n vs "is"] show ?thesis by auto
qed

lemma fw_call_wf: "fw_wf f \<Longrightarrow> fw_wf (fw_call_step env c f) \<and> fw_later f (fw_call_step env c f)"
proof (cases c)
  case (Send v)
  assume "fw_wf f"
  with dispatch_ids_wf [of f "all_target_ids f" env] Send show ?thesis
    by (cases "validate_payload v") (simp_all add: send_def fw_later_refl all_target_ids_def)
next
  case (SendToIds ids v)
  assume wf: "fw_wf f"
  show ?thesis
  proof (cases "validate_numeric_target_ids ids (length (fw_destinations f))")
    case (Inr "is")
    from valid_numeric_ids [OF this] have "\<forall>i \<in> set is. i < length (fw_destinations f)" by auto
    with dispatch_ids_wf [OF wf this] SendToIds Inr wf show ?thesis
      by (cases "validate_payload v") (simp_all add: send_to_ids_def fw_later_refl)
  qed (use SendToIds wf in \<open>simp add: send_to_ids_def fw_later_refl split: sum.splits\<close>)
next
  case (SendTo ids v)
  assume wf: "fw_wf f"
  with send_to_names_ok [of env _ _ f] SendTo show ?thesis
    by (auto simp: send_to_def fw_later_refl split: sum.splits)
      (metis prod.collapse)+
next
  case Close
  assume "fw_wf f"
  with Close show ?thesis by (simp add: fw_close_ok)
qed

lemma fw_run_wf: "fw_wf f \<Longrightarrow> fw_wf (fw_run env calls f) \<and> fw_later f (fw_run env calls f)"
  unfolding fw_run_def
proof (induction calls arbitrary: f)
  case (Cons c calls)
  from fw_call_wf [OF Cons.prems] Cons.IH show ?case by (auto intro: fw_later_trans)
qed (simp add: fw_later_refl)

lemma name_targets_range:
  "name_targets i es t = Inr t' \<Longrightarrow> \<forall>(n, j) \<in> set t. n \<noteq> [] \<and> j < i \<Longrightarrow>
     \<forall>(n, j) \<in> set t'. n \<noteq> [] \<and> j < i + length es"
proof (induction i es t arbitrary: t' rule: name_targets.induct)
  case (2 i e es t)
  show ?case
  proof (cases "entry_get e ''id''")
    case None
    with 2(1) [OF None] 2(3,4) show ?thesis by fastforce
  next
    case (Some v)
    then obtain n where n: "build_udp_target_id v = Inr n" "map_of t n = None"
      "name_targets (Suc i) es (t @ [(n, i)]) = Inr t'"
      using 2(3) by (auto simp: rbind_Inr_iff split: if_splits)
    have "n \<noteq> []" using n(1) by (auto simp: build_udp_target_id_def lit_def split: pyval.splits if_splits)
    then have "\<forall>(n, j) \<in> set (t @ [(n, i)]). n \<noteq> [] \<and> j < Suc i" using 2(4) by fastforce
    from 2(2) [OF Some n(1) _ n(3) this] n(2) show ?thesis by simp
  qed
qed auto

lemma rmap_length: "rmap f xs = Inr ys \<Longrightarrow> length ys = length xs"
  by (auto simp: rmap_Inr_iff dest: list_all2_lengthD)

lemma forwarder_init_wf: "forwarder_init k targets = Inr f \<Longrightarrow> fw_wf f"
proof -
  assume "forwarder_init k targets = Inr f"
  then obtain entries dests names traffic where
    e: "rmap (destination_from_entry k) entries = Inr dests" "name_targets 0 entries [] = Inr names"
      "rmap (\<lambda>i. output_traffic_init i (map_of (map prod.swap names) i)) [0..<length dests] = Inr traffic"
    and f: "f = \<lparr>fw_targets = entries, fw_destinations = dests, fw_names = names, fw_traffic = traffic,
            fw_transports = [], fw_events = []\<rparr>"
    by (auto simp: forwarder_init_def rbind_Inr_iff)
  have names_ok: "\<forall>(n, j) \<in> set names. n \<noteq> [] \<and> j < length dests"
    using name_targets_range [OF e(2)] rmap_length [OF e(1)] by simp
  have tr: "length traffic = length dests"
    "\<forall>i < length dests. output_traffic_init i (map_of (map prod.swap names) i) = Inr (traffic ! i)"
    using e(3) rmap_length [OF e(3)] by (simp_all add: rmap_Inr_iff list_all2_conv_all_nth)
  have init: "traffic ! i = \<lparr>tr_target = i, tr_name = map_of (map prod.swap names) i, tr_attempts = 0,
      tr_completed = 0, tr_failed = 0, tr_messages = 0, tr_bytes = 0\<rparr>" if "i < length dests" for i
    using tr that by (auto simp: output_traffic_init_def rbind_Inr_iff Let_def)
  have "map_of (map prod.swap names) i \<noteq> Some []" for i
    using names_ok by (auto dest!: map_of_SomeD)
  with init have ok: "\<forall>i < length traffic. traffic_ok i (traffic ! i)"
    using tr(1) by (simp add: traffic_ok_def)
  have "\<forall>t \<in> set traffic. tr_messages t = 0 \<and> tr_bytes t = 0"
    using init tr(1) by (auto simp: in_set_conv_nth)
  then have "sum_list (map tr_messages traffic) = 0" "sum_list (map tr_bytes traffic) = 0"
    by simp_all
  with ok tr(1) names_ok show ?thesis by (auto simp: fw_wf_def f total_def)
qed

subsection \<open>Properties\<close>

text \<open>
  C19. Targeted sending is all or nothing in its checks and exact in its effects. For a
  forwarder in any reachable state, a list of target numbers with a wrong or unknown entry is
  refused and nothing is sent or counted. Otherwise the numbers are sent to in the order of
  their first occurrence, each once, through the transport cached for the destination, up to
  the first failure, and the call returns exactly when there was none.
\<close>

theorem send_to_ids_once_each:
  assumes "forwarder_init k targets = Inr f0" and "f = fw_run env calls f0"
    and "send_to_ids env ids (PBytes msg) f = (f', r)"
  shows "case validate_numeric_target_ids ids (length (fw_destinations f)) of
      Inl e \<Rightarrow> f' = f \<and> r = Inl e
    | Inr is \<Rightarrow>
        (\<exists>xs. iter_items ids = Inr (map (\<lambda>i. PInt (int i)) xs) \<and> is = rev (remdups (rev xs)) \<and>
           (\<forall>i \<in> set xs. i < length (fw_destinations f0))) \<and>
        (\<exists>n ts. n \<le> length is \<and> (r = Inr () \<longleftrightarrow> n = length is) \<and>
           handles f' (take n is) = map Some ts \<and>
           sends (fw_events f') = sends (fw_events f) @ map (\<lambda>t. (t, msg)) ts)"
proof (cases "validate_numeric_target_ids ids (length (fw_destinations f))")
  case (Inl e)
  then show ?thesis using assms(3) by (simp add: send_to_ids_def)
next
  case (Inr "is")
  have wf: "fw_wf f" "fw_destinations f = fw_destinations f0"
    using fw_run_wf [OF forwarder_init_wf [OF assms(1)]] assms(2) by (auto simp: fw_later_def)
  obtain xs where xs: "iter_items ids = Inr (map (\<lambda>i. PInt (int i)) xs)"
    "\<forall>i \<in> set xs. i < length (fw_destinations f)" "is = rev (remdups (rev xs))"
    using valid_numeric_ids [OF Inr] by blast
  have "dispatch_to_ids env is msg f = (f', r)"
    using assms(3) Inr by (simp add: send_to_ids_def)
  moreover have "\<forall>i \<in> set is. i < length (fw_destinations f)" using xs(2,3) by simp
  ultimately have "\<exists>n ts. n \<le> length is \<and> (r = Inr () \<longleftrightarrow> n = length is) \<and>
      handles f' (take n is) = map Some ts \<and>
      sends (fw_events f') = sends (fw_events f) @ map (\<lambda>t. (t, msg)) ts"
    using dispatch_to_ids_ok [OF _ wf(1)] by blast
  moreover have "\<exists>xs. iter_items ids = Inr (map (\<lambda>i. PInt (int i)) xs) \<and> is = rev (remdups (rev xs)) \<and>
      (\<forall>i \<in> set xs. i < length (fw_destinations f0))"
    using xs wf(2) by auto
  ultimately show ?thesis by (simp only: Inr sum.case)
qed

text \<open>The snapshot of one target, as a value.\<close>

definition traffic_value :: "output_traffic \<Rightarrow> output_traffic_metrics" where
  "traffic_value t = \<lparr>ot_target_id = int (tr_target t), ot_name = tr_name t,
    ot_dispatch_attempts = int (tr_attempts t), ot_dispatch_completed = int (tr_completed t),
    ot_dispatch_failed = int (tr_failed t), ot_messages = int (tr_messages t),
    ot_bytes = int (tr_bytes t)\<rparr>"

lemma traffic_snapshots_value:
  assumes "fw_wf f"
  shows "traffic_snapshots f = Inr (map traffic_value (fw_traffic f))"
  unfolding traffic_snapshots_def
proof (rule rmap_total)
  fix t assume "t \<in> set (fw_traffic f)"
  then have "tr_name t \<noteq> Some []" using assms by (auto simp: fw_wf_def in_set_conv_nth traffic_ok_def)
  then show "output_traffic_snapshot t = Inr (traffic_value t)"
    by (cases "tr_name t") (simp_all add: output_traffic_snapshot_def output_traffic_snapshot_of_def traffic_value_def)
qed

text \<open>
  C20. Every dispatch is accounted. Whatever calls were made and however the network answered,
  the traffic snapshots can be taken, in the order of the targets; each has as many attempts
  as completed and failed dispatches together and as many messages as completed ones; and over
  all targets the messages and bytes are those really handed to a transport.
\<close>

theorem traffic_accounted:
  assumes "forwarder_init k targets = Inr f0" and "f = fw_run env calls f0"
  shows "\<exists>ms. traffic_snapshots f = Inr ms \<and> map ot_target_id ms = map int (all_target_ids f) \<and>
    list_all (\<lambda>m. ot_dispatch_attempts m = ot_dispatch_completed m + ot_dispatch_failed m \<and>
      ot_messages m = ot_dispatch_completed m) ms \<and>
    sum_list (map ot_messages ms) = int (length (sends (fw_events f))) \<and>
    sum_list (map ot_bytes ms) = int (sum_list (map (\<lambda>(t, b). length b) (sends (fw_events f))))"
proof -
  have wf: "fw_wf f"
    using fw_run_wf [OF forwarder_init_wf [OF assms(1)]] assms(2) by simp
  have "traffic_snapshots f = Inr (map traffic_value (fw_traffic f))" by (rule traffic_snapshots_value [OF wf])
  moreover have "map ot_target_id (map traffic_value (fw_traffic f)) = map int (all_target_ids f)"
    using wf by (intro nth_equalityI) (simp_all add: fw_wf_def all_target_ids_def traffic_value_def traffic_ok_def)
  moreover have "list_all (\<lambda>m. ot_dispatch_attempts m = ot_dispatch_completed m + ot_dispatch_failed m \<and>
      ot_messages m = ot_dispatch_completed m) (map traffic_value (fw_traffic f))"
    using wf by (simp add: list_all_length fw_wf_def traffic_ok_def traffic_value_def)
  moreover have "sum_list (map ot_messages (map traffic_value ts)) = int (sum_list (map tr_messages ts))"
    "sum_list (map ot_bytes (map traffic_value ts)) = int (sum_list (map tr_bytes ts))" for ts
    by (induction ts) (simp_all add: traffic_value_def)
  ultimately show ?thesis using wf by (simp add: fw_wf_def total_def del: map_map)
qed

text \<open>
  No transport is leaked. In every reachable state the transports opened and not closed are
  exactly the cached ones, with distinct keys that belong to configured destinations; so there
  are at most as many as targets, and after \<open>close\<close> there is none.
\<close>

theorem transports_owned:
  assumes "forwarder_init k targets = Inr f0" and "f = fw_run env calls f0"
  shows "live_after [] (fw_events f) = map snd (fw_transports f) \<and>
    distinct (keys (fw_transports f)) \<and>
    set (keys (fw_transports f)) \<subseteq> transport_cache_key ` set (fw_destinations f0) \<and>
    length (live_after [] (fw_events f)) \<le> length targets \<and>
    live_after [] (fw_events (fw_close f)) = [] \<and> fw_transports (fw_close f) = []"
proof -
  have wf: "fw_wf f" "fw_destinations f = fw_destinations f0"
    using fw_run_wf [OF forwarder_init_wf [OF assms(1)]] assms(2) by (auto simp: fw_later_def)
  have "length (fw_destinations f0) = length targets"
    using assms(1) by (auto simp: forwarder_init_def rbind_Inr_iff dest!: rmap_length)
  moreover have "length (fw_transports f) \<le> length (fw_destinations f0)"
  proof -
    have "distinct (keys (fw_transports f))" using wf(1) by (simp only: fw_wf_def)
    then have "length (keys (fw_transports f)) = card (set (keys (fw_transports f)))"
      by (simp only: distinct_card)
    also have "\<dots> \<le> card (transport_cache_key ` set (fw_destinations f0))"
      using wf by (intro card_mono) (simp_all add: fw_wf_def)
    also have "\<dots> \<le> length (fw_destinations f0)"
      by (rule le_trans [OF card_image_le]) (simp_all add: card_length)
    finally show ?thesis by simp
  qed
  moreover have "fw_wf (fw_close f)" using fw_close_ok [OF wf(1)] by simp
  ultimately show ?thesis using wf by (simp add: fw_wf_def fw_close_def)
qed

text \<open>Two targets, one of them named, on a network that accepts everything.\<close>

definition example_targets :: "pyval list" where
  "example_targets =
    [PDict [(PStr (lit ''host''), PStr [97]), (PStr (lit ''port''), PInt 1), (PStr (lit ''id''), PStr [120])],
     PDict [(PStr (lit ''host''), PStr [98]), (PStr (lit ''port''), PInt 2)]]"

definition example_conversions :: conversions where
  "example_conversions = \<lparr>other_text = \<lambda>_. [], float_int = Inr\<rparr>"

definition example_net :: net_env where
  "example_net = \<lparr>open_endpoint = \<lambda>es d. Inr (length es), send_outcome = \<lambda>es t b. None\<rparr>"

definition example_forwarder :: forwarder where
  "example_forwarder = \<lparr>fw_targets =
      [[(PStr (lit ''host''), PStr [97]), (PStr (lit ''port''), PInt 1), (PStr (lit ''id''), PStr [120])],
       [(PStr (lit ''host''), PStr [98]), (PStr (lit ''port''), PInt 2)]],
     fw_destinations =
       [\<lparr>dest_host = [97], dest_port = 1, dest_source_ip = None, dest_family = AF_UNSPEC\<rparr>,
        \<lparr>dest_host = [98], dest_port = 2, dest_source_ip = None, dest_family = AF_UNSPEC\<rparr>],
     fw_names = [(lit ''udp:x'', 0)],
     fw_traffic =
       [\<lparr>tr_target = 0, tr_name = Some (lit ''udp:x''), tr_attempts = 0, tr_completed = 0, tr_failed = 0,
         tr_messages = 0, tr_bytes = 0\<rparr>,
        \<lparr>tr_target = 1, tr_name = None, tr_attempts = 0, tr_completed = 0, tr_failed = 0,
         tr_messages = 0, tr_bytes = 0\<rparr>],
     fw_transports = [], fw_events = []\<rparr>"

lemma example_forwarder_init: "forwarder_init example_conversions example_targets = Inr example_forwarder"
  by (simp add: forwarder_init_def example_targets_def example_forwarder_def copy_target_entry_def entry_item_def
      entry_get_def lit_def destination_from_entry_def build_udp_target_id_def strip_def is_space_def
      output_traffic_init_def output_traffic_snapshot_def output_traffic_snapshot_of_def Let_def)

definition example_sent :: forwarder where
  "example_sent = fst (send_to_ids example_net (PList [PInt 1, PInt 0, PInt 1]) (PBytes ''hi'') example_forwarder)"

lemma send_to_ids_once_each_witness:
  "validate_numeric_target_ids (PList [PInt 1, PInt 0, PInt 1]) 2 = Inr [1, 0] \<and>
   sends (fw_events example_sent) = [(0, ''hi''), (2, ''hi'')] \<and>
   (\<exists>n ts. n \<le> length [1::nat, 0] \<and> handles example_sent (take n [1, 0]) = map Some ts \<and>
      sends (fw_events example_sent) = map (\<lambda>t. (t, ''hi'')) ts)"
proof -
  have v: "validate_numeric_target_ids (PList [PInt 1, PInt 0, PInt 1]) 2 = Inr [1, 0]"
    by (simp add: validate_numeric_target_ids_def)
  have s: "sends (fw_events example_sent) = [(0, ''hi''), (2, ''hi'')]"
    by (simp add: example_sent_def send_to_ids_def v example_forwarder_def dispatch_to_id_def
        send_to_destination_def ensure_transport_def example_net_def transport_cache_key_def
        on_traffic_def log_event_def numeral_2_eq_2 sends_def
        validate_numeric_target_ids_def Let_def)
  obtain r where r: "send_to_ids example_net (PList [PInt 1, PInt 0, PInt 1]) (PBytes ''hi'') example_forwarder
      = (example_sent, r)"
    by (metis example_sent_def prod.collapse)
  have e: "example_forwarder = fw_run example_net [] example_forwarder"
    "length (fw_destinations example_forwarder) = 2" "sends (fw_events example_forwarder) = []"
    by (simp_all add: fw_run_def example_forwarder_def)
  have "\<exists>n ts. n \<le> length [1::nat, 0] \<and> (r = Inr () \<longleftrightarrow> n = length [1::nat, 0]) \<and>
      handles example_sent (take n [1, 0]) = map Some ts \<and>
      sends (fw_events example_sent) = [] @ map (\<lambda>t. (t, ''hi'')) ts"
    using send_to_ids_once_each [OF example_forwarder_init e(1) r]
    by (simp only: e(2,3) v sum.case)
  then show ?thesis using v s unfolding append_Nil by blast
qed

lemma traffic_accounted_witness:
  "\<exists>ms. traffic_snapshots example_forwarder = Inr ms \<and> map ot_target_id ms = [0, 1]"
proof -
  have "example_forwarder = fw_run example_net [] example_forwarder"
    "map int (all_target_ids example_forwarder) = [0, 1]"
    by (simp_all add: fw_run_def example_forwarder_def all_target_ids_def)
  with traffic_accounted [OF example_forwarder_init, of example_forwarder example_net "[]"]
  show ?thesis by auto
qed

lemma transports_owned_witness:
  "let f = fw_run example_net [SendToIds (PList [PInt 1, PInt 0]) (PBytes ''hi'')] example_forwarder
   in length (live_after [] (fw_events f)) \<le> 2 \<and> live_after [] (fw_events (fw_close f)) = []"
proof -
  have "length example_targets = 2" by (simp add: example_targets_def)
  with transports_owned [OF example_forwarder_init refl,
      of example_net "[SendToIds (PList [PInt 1, PInt 0]) (PBytes ''hi'')]"]
  show ?thesis unfolding Let_def by (metis (no_types))
qed

end
