(* ===== verification/RuntimeQueue.thy ===== *)
theory RuntimeQueue
  imports Metrics
begin

section \<open>The queues of the runtime and their counters (\<open>aismixer.py\<close>)\<close>

text \<open>
  \<open>_ObservedQueue\<close>, \<open>_BoundedProcessingQueue\<close> and \<open>_EgressMetrics\<close>. A coroutine that waits is
  split at its suspension: what it does before, when it resumes, and when it is cancelled
  there, are one atomic step each, as asyncio runs them. The semaphore of the processing queue
  is that of asyncio (CPython 3.11 and 3.12): a released permit is handed to the first waiter
  that has none, which holds it until it runs. What is shown: every snapshot can be taken at
  any moment; permits, granted waiters and queued items always add up to the capacity, so the
  queue is never full when an admitted item is put and no release is one too many; and no
  wakeup is lost.
\<close>

subsection \<open>Sources of metrics\<close>

text \<open>
  The statistics provider relies on one promise of its owners: in every state their operations
  lead to, a snapshot can be taken.
\<close>

locale metrics_source =
  fixes wf :: "'s \<Rightarrow> bool"
    and snapshot :: "'s \<Rightarrow> 'm res"
  assumes snapshot_total: "wf s \<Longrightarrow> \<exists>m. snapshot s = Inr m"
begin

lemma snapshots_total: "list_all wf ss \<Longrightarrow> \<exists>ms. rmap snapshot ss = Inr ms \<and> length ms = length ss"
proof (induction ss)
  case (Cons s ss)
  then obtain ms where "rmap snapshot ss = Inr ms" "length ms = length ss" by auto
  moreover from Cons.prems obtain m where "snapshot s = Inr m" using snapshot_total [of s] by auto
  ultimately show ?case by simp
qed simp

end

text \<open>\<open>_validate_queue_capacity\<close>\<close>

fun validate_queue_capacity :: "pyval \<Rightarrow> nat res" where
  "validate_queue_capacity (PInt i) = (if i < 1 then Inl ValueError else Inr (nat i))"
| "validate_queue_capacity _ = Inl TypeError"

lemma validate_queue_capacity_pos: "validate_queue_capacity v = Inr n \<Longrightarrow> 0 < n"
  by (cases v) (auto split: if_splits)

subsection \<open>The observed queue\<close>

record 'a observed_queue =
  oq_name :: pystr
  oq_capacity :: nat
  oq_items :: "'a list"
  oq_peak :: nat
  oq_enqueued :: nat
  oq_dequeued :: nat
  oq_put_waits :: nat
  oq_put_waiters :: nat

definition oq_snapshot :: "'a observed_queue \<Rightarrow> queue_metrics res" where
  "oq_snapshot q =
     queue_snapshot (PStr (oq_name q)) (map (\<lambda>n. PInt (int n))
       [oq_capacity q, length (oq_items q), oq_peak q, oq_enqueued q, oq_dequeued q, oq_put_waits q,
        oq_put_waiters q])"

definition observed_queue_init :: "pyval \<Rightarrow> pyval \<Rightarrow> 'a observed_queue res" where
  "observed_queue_init name maxsize =
     rbind (validate_queue_capacity maxsize) (\<lambda>n.
     rbind (queue_snapshot name [PInt (int n), PInt 0, PInt 0, PInt 0, PInt 0, PInt 0, PInt 0]) (\<lambda>m.
       Inr \<lparr>oq_name = qm_name m, oq_capacity = n, oq_items = [], oq_peak = 0, oq_enqueued = 0,
            oq_dequeued = 0, oq_put_waits = 0, oq_put_waiters = 0\<rparr>))"

definition oq_full :: "'a observed_queue \<Rightarrow> bool" where
  "oq_full q \<longleftrightarrow> oq_capacity q \<le> length (oq_items q)"

definition oq_put_nowait :: "'a \<Rightarrow> 'a observed_queue \<Rightarrow> 'a observed_queue res" where
  "oq_put_nowait x q =
     (if oq_full q then Inl QueueFull
      else Inr (q\<lparr>oq_items := oq_items q @ [x], oq_enqueued := Suc (oq_enqueued q),
                  oq_peak := max (oq_peak q) (Suc (length (oq_items q)))\<rparr>))"

text \<open>
  \<open>put\<close>: done at once (\<open>True\<close>), or the caller waits for room. A waiter that is woken up puts
  the item if there is room now, and else waits on; cancellation ends the wait.
\<close>

definition oq_put :: "'a \<Rightarrow> 'a observed_queue \<Rightarrow> bool \<times> 'a observed_queue" where
  "oq_put x q =
     (case oq_put_nowait x q of
        Inr q' \<Rightarrow> (True, q')
      | Inl _ \<Rightarrow> (False, q\<lparr>oq_put_waits := Suc (oq_put_waits q), oq_put_waiters := Suc (oq_put_waiters q)\<rparr>))"

definition oq_put_resume :: "'a \<Rightarrow> 'a observed_queue \<Rightarrow> bool \<times> 'a observed_queue" where
  "oq_put_resume x q =
     (case oq_put_nowait x q of
        Inr q' \<Rightarrow> (True, q'\<lparr>oq_put_waiters := oq_put_waiters q' - 1\<rparr>)
      | Inl _ \<Rightarrow> (False, q))"

definition oq_put_cancel :: "'a observed_queue \<Rightarrow> 'a observed_queue" where
  "oq_put_cancel q = q\<lparr>oq_put_waiters := oq_put_waiters q - 1\<rparr>"

text \<open>\<open>get_nowait\<close>, and the last part of \<open>get\<close>: None when there is nothing to get yet.\<close>

definition oq_get :: "'a observed_queue \<Rightarrow> ('a \<times> 'a observed_queue) option" where
  "oq_get q =
     (case oq_items q of
        [] \<Rightarrow> None
      | x # xs \<Rightarrow> Some (x, q\<lparr>oq_items := xs, oq_dequeued := Suc (oq_dequeued q)\<rparr>))"

definition oq_wf :: "'a observed_queue \<Rightarrow> bool" where
  "oq_wf q \<longleftrightarrow> oq_name q \<noteq> [] \<and> 0 < oq_capacity q \<and> length (oq_items q) \<le> oq_peak q \<and>
     oq_peak q \<le> oq_capacity q \<and> oq_enqueued q = oq_dequeued q + length (oq_items q) \<and>
     oq_put_waiters q \<le> oq_put_waits q"

lemma queue_snapshot_ok:
  assumes "n \<noteq> []" "0 < cap" "depth \<le> peak" "peak \<le> cap" "enq = deq + depth" "waiters \<le> waits"
  shows "\<exists>m. queue_snapshot (PStr n) (map (\<lambda>n. PInt (int n)) [cap, depth, peak, enq, deq, waits, waiters]) = Inr m"
  using assms by (simp add: queue_snapshot_def)

interpretation observed: metrics_source oq_wf oq_snapshot
proof
  fix q :: "'a observed_queue"
  assume "oq_wf q"
  then show "\<exists>m. oq_snapshot q = Inr m"
    unfolding oq_wf_def oq_snapshot_def by (intro queue_snapshot_ok) auto
qed

lemma observed_queue_init_wf: "observed_queue_init name cap = Inr q \<Longrightarrow> oq_wf q \<and> oq_items q = []"
  by (cases name; cases cap)
    (auto simp: observed_queue_init_def rbind_Inr_iff queue_snapshot_def oq_wf_def split: if_splits)

lemma oq_put_nowait_wf: "oq_put_nowait x q = Inr q' \<Longrightarrow> oq_wf q \<Longrightarrow>
    oq_wf q' \<and> oq_items q' = oq_items q @ [x] \<and> oq_put_waiters q' = oq_put_waiters q"
  by (auto simp: oq_put_nowait_def oq_wf_def oq_full_def split: if_splits)

lemma oq_put_wf:
  assumes "oq_put x q = (done, q')" and "oq_wf q"
  shows "oq_wf q' \<and> oq_items q' = oq_items q @ (if done then [x] else [])"
proof (cases "oq_put_nowait x q")
  case (Inl e)
  then show ?thesis using assms by (auto simp: oq_put_def oq_wf_def)
next
  case (Inr q1)
  then show ?thesis using assms oq_put_nowait_wf [OF Inr assms(2)] by (auto simp: oq_put_def)
qed

lemma oq_put_resume_wf:
  assumes "oq_put_resume x q = (done, q')" and "oq_wf q"
  shows "oq_wf q' \<and> oq_items q' = oq_items q @ (if done then [x] else [])"
proof (cases "oq_put_nowait x q")
  case (Inl e)
  then show ?thesis using assms by (auto simp: oq_put_resume_def)
next
  case (Inr q1)
  then show ?thesis using assms oq_put_nowait_wf [OF Inr assms(2)]
    by (auto simp: oq_put_resume_def oq_wf_def)
qed

lemma oq_put_cancel_wf: "oq_wf q \<Longrightarrow> oq_wf (oq_put_cancel q) \<and> oq_items (oq_put_cancel q) = oq_items q"
  by (auto simp: oq_put_cancel_def oq_wf_def)

lemma oq_get_wf: "oq_get q = Some (x, q') \<Longrightarrow> oq_wf q \<Longrightarrow> oq_wf q' \<and> oq_items q = x # oq_items q'"
  by (auto simp: oq_get_def oq_wf_def split: list.splits)

subsection \<open>The processing queue and its permits\<close>

text \<open>A waiter is a task with the permit it may already hold.\<close>

record 'a work_queue =
  wq_maxsize :: nat
  wq_value :: nat
  wq_waiters :: "(nat \<times> bool) list"
  wq_items :: "'a list"
  wq_peak :: nat
  wq_enqueued :: nat
  wq_dequeued :: nat
  wq_put_waits :: nat
  wq_put_waiters :: nat

definition work_queue_init :: "pyval \<Rightarrow> 'a work_queue res" where
  "work_queue_init maxsize =
     rbind (validate_queue_capacity maxsize) (\<lambda>n.
       Inr \<lparr>wq_maxsize = n, wq_value = n, wq_waiters = [], wq_items = [], wq_peak = 0, wq_enqueued = 0,
            wq_dequeued = 0, wq_put_waits = 0, wq_put_waiters = 0\<rparr>)"

definition wq_snapshot :: "'a work_queue \<Rightarrow> queue_metrics res" where
  "wq_snapshot q =
     queue_snapshot (PStr (lit ''processing'')) (map (\<lambda>n. PInt (int n))
       [wq_maxsize q, length (wq_items q), wq_peak q, wq_enqueued q, wq_dequeued q, wq_put_waits q,
        wq_put_waiters q])"

text \<open>The semaphore: \<open>locked\<close>, \<open>_wake_up_next\<close> and \<open>release\<close> of the bounded one.\<close>

definition sem_locked :: "'a work_queue \<Rightarrow> bool" where
  "sem_locked q \<longleftrightarrow> wq_value q = 0 \<or> wq_waiters q \<noteq> []"

fun grant_first :: "(nat \<times> bool) list \<Rightarrow> (nat \<times> bool) list option" where
  "grant_first [] = None"
| "grant_first ((i, g) # ws) =
     (if g then map_option (Cons (i, g)) (grant_first ws) else Some ((i, True) # ws))"

definition wake_up_next :: "'a work_queue \<Rightarrow> 'a work_queue" where
  "wake_up_next q =
     (case grant_first (wq_waiters q) of
        None \<Rightarrow> q
      | Some ws \<Rightarrow> q\<lparr>wq_waiters := ws, wq_value := wq_value q - 1\<rparr>)"

definition sem_release :: "'a work_queue \<Rightarrow> 'a work_queue res" where
  "sem_release q =
     (if wq_maxsize q \<le> wq_value q then Inl ValueError
      else Inr (wake_up_next (q\<lparr>wq_value := Suc (wq_value q)\<rparr>)))"

text \<open>The second half of \<open>admit\<close>, with a permit held; None stands for a result of another type.\<close>

definition bind_and_put :: "'a option res \<Rightarrow> 'a work_queue \<Rightarrow> unit res \<times> 'a work_queue" where
  "bind_and_put made q =
     (case (case made of
              Inl e \<Rightarrow> Inl e
            | Inr None \<Rightarrow> Inl TypeError
            | Inr (Some x) \<Rightarrow>
                if wq_maxsize q \<le> length (wq_items q) then Inl QueueFull
                else Inr (q\<lparr>wq_items := wq_items q @ [x], wq_enqueued := Suc (wq_enqueued q),
                            wq_peak := max (wq_peak q) (Suc (length (wq_items q)))\<rparr>)) of
        Inr q' \<Rightarrow> (Inr (), q')
      | Inl e \<Rightarrow> (case sem_release q of Inl e' \<Rightarrow> (Inl e', q) | Inr q' \<Rightarrow> (Inl e, q')))"

text \<open>
  \<open>admit\<close> of task \<open>i\<close>: None while it waits. The factory is called when the permit is there;
  its result may depend on the state of the world at that moment.
\<close>

definition admit :: "nat \<Rightarrow> 'a option res \<Rightarrow> 'a work_queue \<Rightarrow> unit res option \<times> 'a work_queue" where
  "admit i made q =
     (if sem_locked q then
        (None, q\<lparr>wq_put_waits := Suc (wq_put_waits q), wq_put_waiters := Suc (wq_put_waiters q),
                 wq_waiters := wq_waiters q @ [(i, False)]\<rparr>)
      else (case bind_and_put made (q\<lparr>wq_value := wq_value q - 1\<rparr>) of (r, q') \<Rightarrow> (Some r, q')))"

definition admit_resume :: "nat \<Rightarrow> 'a option res \<Rightarrow> 'a work_queue \<Rightarrow> unit res option \<times> 'a work_queue" where
  "admit_resume i made q =
     (if (i, True) \<notin> set (wq_waiters q) then (None, q)
      else let q1 = q\<lparr>wq_waiters := remove1 (i, True) (wq_waiters q)\<rparr>;
               q2 = (if 0 < wq_value q1 then wake_up_next q1 else q1);
               q3 = q2\<lparr>wq_put_waiters := wq_put_waiters q2 - 1\<rparr>
           in (case bind_and_put made q3 of (r, q') \<Rightarrow> (Some r, q')))"

text \<open>A waiter that is cancelled hands a permit it was granted to the next one.\<close>

definition admit_cancel :: "nat \<Rightarrow> 'a work_queue \<Rightarrow> 'a work_queue" where
  "admit_cancel i q =
     (if (i, True) \<in> set (wq_waiters q) then
        let q1 = q\<lparr>wq_waiters := remove1 (i, True) (wq_waiters q), wq_put_waiters := wq_put_waiters q - 1\<rparr>
        in wake_up_next (q1\<lparr>wq_value := Suc (wq_value q1)\<rparr>)
      else if (i, False) \<in> set (wq_waiters q) then
        q\<lparr>wq_waiters := remove1 (i, False) (wq_waiters q), wq_put_waiters := wq_put_waiters q - 1\<rparr>
      else q)"

text \<open>\<open>get\<close>, once there is an item.\<close>

definition wq_get :: "'a work_queue \<Rightarrow> ('a res \<times> 'a work_queue) option" where
  "wq_get q =
     (case wq_items q of
        [] \<Rightarrow> None
      | x # xs \<Rightarrow>
          let q1 = q\<lparr>wq_items := xs, wq_dequeued := Suc (wq_dequeued q)\<rparr>
          in Some (case sem_release q1 of Inl e \<Rightarrow> (Inl e, q1) | Inr q' \<Rightarrow> (Inr x, q')))"

subsection \<open>Egress counters\<close>

record egress_counters =
  eg_batches_started :: nat
  eg_batches_completed :: nat
  eg_batches_failed :: nat
  eg_batches_cancelled :: nat
  eg_active_batches :: nat
  eg_outputs_started :: nat
  eg_outputs_completed :: nat
  eg_outputs_failed :: nat
  eg_outputs_cancelled :: nat
  eg_active_outputs :: nat

definition egress_init :: egress_counters where
  "egress_init = \<lparr>eg_batches_started = 0, eg_batches_completed = 0, eg_batches_failed = 0,
     eg_batches_cancelled = 0, eg_active_batches = 0, eg_outputs_started = 0, eg_outputs_completed = 0,
     eg_outputs_failed = 0, eg_outputs_cancelled = 0, eg_active_outputs = 0\<rparr>"

definition batch_started :: "egress_counters \<Rightarrow> egress_counters" where
  "batch_started c = c\<lparr>eg_batches_started := Suc (eg_batches_started c),
     eg_active_batches := Suc (eg_active_batches c)\<rparr>"

definition batch_completed :: "egress_counters \<Rightarrow> egress_counters" where
  "batch_completed c = c\<lparr>eg_batches_completed := Suc (eg_batches_completed c),
     eg_active_batches := eg_active_batches c - 1\<rparr>"

definition batch_failed :: "egress_counters \<Rightarrow> egress_counters" where
  "batch_failed c = c\<lparr>eg_batches_failed := Suc (eg_batches_failed c),
     eg_active_batches := eg_active_batches c - 1\<rparr>"

definition batch_cancelled :: "egress_counters \<Rightarrow> egress_counters" where
  "batch_cancelled c = c\<lparr>eg_batches_cancelled := Suc (eg_batches_cancelled c),
     eg_active_batches := eg_active_batches c - 1\<rparr>"

definition output_started :: "egress_counters \<Rightarrow> egress_counters" where
  "output_started c = c\<lparr>eg_outputs_started := Suc (eg_outputs_started c),
     eg_active_outputs := Suc (eg_active_outputs c)\<rparr>"

definition output_completed :: "egress_counters \<Rightarrow> egress_counters" where
  "output_completed c = c\<lparr>eg_outputs_completed := Suc (eg_outputs_completed c),
     eg_active_outputs := eg_active_outputs c - 1\<rparr>"

definition output_failed :: "egress_counters \<Rightarrow> egress_counters" where
  "output_failed c = c\<lparr>eg_outputs_failed := Suc (eg_outputs_failed c),
     eg_active_outputs := eg_active_outputs c - 1\<rparr>"

definition output_cancelled :: "egress_counters \<Rightarrow> egress_counters" where
  "output_cancelled c = c\<lparr>eg_outputs_cancelled := Suc (eg_outputs_cancelled c),
     eg_active_outputs := eg_active_outputs c - 1\<rparr>"

definition egress_metrics_snapshot :: "egress_counters \<Rightarrow> egress_metrics res" where
  "egress_metrics_snapshot c =
     egress_snapshot (map (\<lambda>n. PInt (int n))
       [eg_batches_started c, eg_batches_completed c, eg_batches_failed c, eg_batches_cancelled c,
        eg_active_batches c, eg_outputs_started c, eg_outputs_completed c, eg_outputs_failed c,
        eg_outputs_cancelled c, eg_active_outputs c])"

definition egress_wf :: "egress_counters \<Rightarrow> bool" where
  "egress_wf c \<longleftrightarrow>
     eg_batches_started c = eg_batches_completed c + eg_batches_failed c + eg_batches_cancelled c + eg_active_batches c \<and>
     eg_outputs_started c = eg_outputs_completed c + eg_outputs_failed c + eg_outputs_cancelled c + eg_active_outputs c"

interpretation egress: metrics_source egress_wf egress_metrics_snapshot
  by unfold_locales (simp add: egress_wf_def egress_metrics_snapshot_def egress_snapshot_def)

lemma egress_counters_wf:
  "egress_wf egress_init"
  "egress_wf c \<Longrightarrow> egress_wf (batch_started c)"
  "egress_wf c \<Longrightarrow> egress_wf (output_started c)"
  "egress_wf c \<Longrightarrow> 0 < eg_active_batches c \<Longrightarrow> egress_wf (batch_completed c)"
  "egress_wf c \<Longrightarrow> 0 < eg_active_batches c \<Longrightarrow> egress_wf (batch_failed c)"
  "egress_wf c \<Longrightarrow> 0 < eg_active_batches c \<Longrightarrow> egress_wf (batch_cancelled c)"
  "egress_wf c \<Longrightarrow> 0 < eg_active_outputs c \<Longrightarrow> egress_wf (output_completed c)"
  "egress_wf c \<Longrightarrow> 0 < eg_active_outputs c \<Longrightarrow> egress_wf (output_failed c)"
  "egress_wf c \<Longrightarrow> 0 < eg_active_outputs c \<Longrightarrow> egress_wf (output_cancelled c)"
  by (auto simp: egress_wf_def egress_init_def batch_started_def batch_completed_def batch_failed_def
      batch_cancelled_def output_started_def output_completed_def output_failed_def output_cancelled_def)

subsection \<open>Permits add up\<close>

abbreviation granted :: "'a work_queue \<Rightarrow> nat" where
  "granted q \<equiv> length (filter snd (wq_waiters q))"

text \<open>
  The invariant, with the number of permits held by the running task: all permits are
  accounted for, waiters are granted in the order in which they wait, and while a permit is
  free and somebody waits for one, some granted waiter is about to run, which passes it on.
\<close>

definition wq_inv :: "nat \<Rightarrow> 'a work_queue \<Rightarrow> bool" where
  "wq_inv h q \<longleftrightarrow> 0 < wq_maxsize q \<and>
     wq_value q + granted q + length (wq_items q) + h = wq_maxsize q \<and>
     wq_put_waiters q = length (wq_waiters q) \<and> wq_put_waiters q \<le> wq_put_waits q \<and>
     length (wq_items q) \<le> wq_peak q \<and> wq_peak q \<le> wq_maxsize q \<and>
     wq_enqueued q = wq_dequeued q + length (wq_items q) \<and>
     map snd (wq_waiters q) = replicate (granted q) True @ replicate (length (wq_waiters q) - granted q) False"

definition wq_live :: "'a work_queue \<Rightarrow> bool" where
  "wq_live q \<longleftrightarrow> (0 < wq_value q \<longrightarrow> (\<exists>w \<in> set (wq_waiters q). \<not> snd w) \<longrightarrow> 0 < granted q)"

lemma grant_first_cases:
  "case grant_first ws of
     None \<Rightarrow> \<forall>w \<in> set ws. snd w
   | Some ws' \<Rightarrow> length (filter snd ws') = Suc (length (filter snd ws)) \<and> map fst ws' = map fst ws \<and>
       (\<forall>i. (i, False) \<in> set ws' \<longrightarrow> (i, False) \<in> set ws)"
  by (induction ws rule: grant_first.induct) (fastforce split: option.splits)+

lemma prefix_count:
  "map snd ws = replicate a True @ replicate b False \<Longrightarrow> length (filter snd ws) = a \<and> length ws = a + b"
proof -
  assume m: "map snd ws = replicate a True @ replicate b False"
  have "length (filter snd ws) = length (filter id (map snd ws))" by (simp add: filter_map comp_def)
  moreover have "length ws = length (map snd ws)" by simp
  ultimately show ?thesis unfolding m by simp
qed

lemma grant_first_prefix:
  assumes "grant_first ws = Some ws'" and "map snd ws = replicate a True @ replicate b False"
  shows "0 < b \<and> map snd ws' = replicate (Suc a) True @ replicate (b - 1) False"
  using assms
proof (induction ws arbitrary: ws' a rule: grant_first.induct)
  case (2 i g ws)
  show ?case
  proof (cases g)
    case True
    then obtain ws1 where w: "grant_first ws = Some ws1" "ws' = (i, g) # ws1" using 2(2) by auto
    obtain a' where a: "a = Suc a'" using 2(3) True by (cases a; cases b) auto
    then have "map snd ws = replicate a' True @ replicate b False" using 2(3) by simp
    with 2(1) [OF True w(1)] w(2) a True show ?thesis by simp
  next
    case False
    then have "a = 0" "b = Suc (b - 1)" "map snd ws = replicate (b - 1) False" "ws' = (i, True) # ws"
      using 2(2,3) by (cases a; cases b; auto)+
    then show ?thesis by simp
  qed
qed simp

lemma wake_up_next_ok:
  assumes "wq_inv h q" and "0 < wq_value q"
  shows "wq_inv h (wake_up_next q) \<and> wq_live (wake_up_next q) \<and> wq_items (wake_up_next q) = wq_items q \<and>
    wq_maxsize (wake_up_next q) = wq_maxsize q \<and> map fst (wq_waiters (wake_up_next q)) = map fst (wq_waiters q)"
proof (cases "grant_first (wq_waiters q)")
  case None
  then show ?thesis
    using assms grant_first_cases [of "wq_waiters q"] by (auto simp: wake_up_next_def wq_live_def)
next
  case (Some ws)
  note c = grant_first_cases [of "wq_waiters q", unfolded Some option.case]
  from assms(1) have "map snd (wq_waiters q) =
      replicate (granted q) True @ replicate (length (wq_waiters q) - granted q) False"
    by (simp only: wq_inv_def)
  from grant_first_prefix [OF Some this] have p:
    "map snd ws = replicate (Suc (granted q)) True @ replicate (length (wq_waiters q) - granted q - 1) False"
    by blast
  have "length ws = length (wq_waiters q)" using c by (metis length_map)
  with c p assms Some show ?thesis by (auto simp: wake_up_next_def wq_inv_def wq_live_def)
qed

lemma sem_release_ok:
  assumes "wq_inv (Suc h) q"
  shows "\<exists>q'. sem_release q = Inr q' \<and> wq_inv h q' \<and> wq_live q' \<and> wq_items q' = wq_items q \<and>
    wq_maxsize q' = wq_maxsize q \<and> map fst (wq_waiters q') = map fst (wq_waiters q)"
proof -
  let ?q = "q\<lparr>wq_value := Suc (wq_value q)\<rparr>"
  have "wq_inv h ?q" "0 < wq_value ?q" using assms by (auto simp: wq_inv_def)
  from wake_up_next_ok [OF this] show ?thesis
    using assms by (auto simp: sem_release_def wq_inv_def)
qed

text \<open>What the second half of \<open>admit\<close> returns, and what it adds to the items.\<close>

definition put_effect :: "'a option res \<Rightarrow> unit res \<Rightarrow> 'a list \<Rightarrow> 'a list \<Rightarrow> bool" where
  "put_effect made r xs ys \<longleftrightarrow> (case made of
       Inr (Some x) \<Rightarrow> r = Inr () \<and> ys = xs @ [x]
     | Inr None \<Rightarrow> r = Inl TypeError \<and> ys = xs
     | Inl e \<Rightarrow> r = Inl e \<and> ys = xs)"

lemma bind_and_put_ok:
  assumes "wq_inv 1 q" and "wq_live q"
  shows "\<exists>r q'. bind_and_put made q = (r, q') \<and> wq_inv 0 q' \<and> wq_live q' \<and> wq_maxsize q' = wq_maxsize q \<and>
    put_effect made r (wq_items q) (wq_items q') \<and>
    map fst (wq_waiters q') = map fst (wq_waiters q)"
proof -
  obtain q1 where q1: "sem_release q = Inr q1" "wq_inv 0 q1" "wq_live q1" "wq_items q1 = wq_items q"
    "wq_maxsize q1 = wq_maxsize q" "map fst (wq_waiters q1) = map fst (wq_waiters q)"
    using sem_release_ok [of 0 q] assms(1) by auto
  have room: "\<not> wq_maxsize q \<le> length (wq_items q)" using assms(1) by (simp add: wq_inv_def)
  show ?thesis
  proof (cases made)
    case (Inl e)
    then show ?thesis using q1 by (simp add: bind_and_put_def put_effect_def)
  next
    case (Inr y)
    show ?thesis
    proof (cases y)
      case None
      then show ?thesis using q1 Inr by (simp add: bind_and_put_def put_effect_def)
    next
      case (Some x)
      then show ?thesis using assms room Inr
        by (auto simp: bind_and_put_def put_effect_def wq_inv_def wq_live_def)
    qed
  qed
qed

lemma remove_granted:
  assumes "(i, True) \<in> set ws" and "map snd ws = replicate a True @ replicate b False"
  shows "map snd (remove1 (i, True) ws) = replicate (a - 1) True @ replicate b False \<and> 0 < a"
  using assms
proof (induction ws arbitrary: a)
  case (Cons w ws)
  have "True \<in> set (map snd (w # ws))" using Cons.prems(1) by force
  then have "True \<in> set (replicate a True @ replicate b False)" by (simp only: Cons.prems(2))
  then obtain a' where a: "a = Suc a'" by (cases a) auto
  show ?case
  proof (cases "w = (i, True)")
    case True
    then show ?thesis using Cons.prems a by simp
  next
    case False
    then have "(i, True) \<in> set ws" "map snd ws = replicate a' True @ replicate b False" "snd w"
      using Cons.prems a by auto
    with Cons.IH [OF this(1,2)] False a show ?thesis by (cases a') auto
  qed
qed simp

lemma remove_ungranted:
  assumes "(i, False) \<in> set ws" and "map snd ws = replicate a True @ replicate b False"
  shows "map snd (remove1 (i, False) ws) = replicate a True @ replicate (b - 1) False \<and> 0 < b"
  using assms
proof (induction ws arbitrary: a b)
  case (Cons w ws)
  show ?case
  proof (cases a)
    case (Suc a')
    then have "(i, False) \<in> set ws" "map snd ws = replicate a' True @ replicate b False" "snd w" "w \<noteq> (i, False)"
      using Cons.prems by auto
    with Cons.IH [OF this(1,2)] Suc show ?thesis by auto
  next
    case 0
    then obtain b' where b: "b = Suc b'" using Cons.prems by (cases b) auto
    show ?thesis
    proof (cases "w = (i, False)")
      case True
      then show ?thesis using Cons.prems 0 b by simp
    next
      case False
      then have "(i, False) \<in> set ws" "map snd ws = replicate 0 True @ replicate b' False" "\<not> snd w"
        using Cons.prems 0 b by auto
      with Cons.IH [OF this(1,2)] False 0 b show ?thesis by (cases b') auto
    qed
  qed
qed simp

subsection \<open>Steps on the processing queue\<close>

lemma admit_ok:
  assumes "wq_inv 0 q" and "wq_live q" and "admit i made q = (r, q')"
  shows "wq_inv 0 q' \<and> wq_live q' \<and> wq_maxsize q' = wq_maxsize q \<and>
    (case r of
       None \<Rightarrow> wq_items q' = wq_items q \<and> map fst (wq_waiters q') = map fst (wq_waiters q) @ [i]
     | Some r' \<Rightarrow> put_effect made r' (wq_items q) (wq_items q') \<and>
         map fst (wq_waiters q') = map fst (wq_waiters q))"
proof (cases "sem_locked q")
  case True
  have "map snd (wq_waiters q @ [(i, False)]) =
      replicate (granted q) True @ replicate (Suc (length (wq_waiters q)) - granted q) False"
  proof -
    have "map snd (wq_waiters q) =
        replicate (granted q) True @ replicate (length (wq_waiters q) - granted q) False"
      using assms(1) by (simp only: wq_inv_def)
    moreover have "granted q \<le> length (wq_waiters q)" by simp
    ultimately show ?thesis by (simp add: Suc_diff_le replicate_append_same)
  qed
  moreover have "0 < granted q" if "0 < wq_value q"
  proof -
    have "wq_waiters q \<noteq> []" using True that by (auto simp: sem_locked_def)
    then show ?thesis using assms(2) that
      by (cases "\<exists>w \<in> set (wq_waiters q). \<not> snd w") (auto simp: wq_live_def filter_empty_conv)
  qed
  ultimately show ?thesis
    using assms True by (auto simp: admit_def wq_inv_def wq_live_def)
next
  case False
  let ?q = "q\<lparr>wq_value := wq_value q - 1\<rparr>"
  have "wq_inv 1 ?q" "wq_live ?q" using assms(1,2) False by (auto simp: sem_locked_def wq_inv_def wq_live_def)
  from bind_and_put_ok [OF this, of made] assms(3) False show ?thesis
    by (auto simp: admit_def)
qed

lemma admit_resume_ok:
  assumes "wq_inv 0 q" and "wq_live q" and "admit_resume i made q = (r, q')"
  shows "wq_inv 0 q' \<and> wq_live q' \<and> wq_maxsize q' = wq_maxsize q \<and>
    (case r of
       None \<Rightarrow> q' = q \<and> (i, True) \<notin> set (wq_waiters q)
     | Some r' \<Rightarrow> put_effect made r' (wq_items q) (wq_items q') \<and>
         (i, True) \<in> set (wq_waiters q) \<and>
         map fst (wq_waiters q') = map fst (remove1 (i, True) (wq_waiters q)))"
proof (cases "(i, True) \<in> set (wq_waiters q)")
  case False
  then show ?thesis using assms by (auto simp: admit_resume_def)
next
  case True
  define q1 where "q1 = q\<lparr>wq_waiters := remove1 (i, True) (wq_waiters q), wq_put_waiters := wq_put_waiters q - 1\<rparr>"
  define q2 where "q2 = (if 0 < wq_value q1 then wake_up_next q1 else q1)"
  have m: "map snd (wq_waiters q) =
      replicate (granted q) True @ replicate (length (wq_waiters q) - granted q) False"
    using assms(1) by (simp only: wq_inv_def)
  note rm = remove_granted [OF True m]
  have g: "granted q1 = granted q - 1" "length (wq_waiters q1) = length (wq_waiters q) - 1"
    using True prefix_count [OF conjunct1 [OF rm]] rm by (auto simp: q1_def length_remove1)
  have le: "granted q \<le> length (wq_waiters q)" by simp
  obtain g' where g': "granted q = Suc g'" using rm by (cases "granted q") auto
  have i1: "wq_inv 1 q1"
    using assms(1) conjunct1 [OF rm] g le unfolding wq_inv_def g' by (simp add: q1_def le_diff_conv)
  have i2: "wq_inv 1 q2" "wq_live q2" "wq_items q2 = wq_items q" "wq_maxsize q2 = wq_maxsize q"
    "map fst (wq_waiters q2) = map fst (remove1 (i, True) (wq_waiters q))"
  proof -
    show "wq_inv 1 q2" using wake_up_next_ok [OF i1] i1 by (auto simp: q2_def)
    show "wq_live q2" using wake_up_next_ok [OF i1] by (auto simp: q2_def wq_live_def)
    show "wq_items q2 = wq_items q" "wq_maxsize q2 = wq_maxsize q"
      "map fst (wq_waiters q2) = map fst (remove1 (i, True) (wq_waiters q))"
      using wake_up_next_ok [OF i1] by (auto simp: q2_def) (auto simp: q1_def)
  qed
  have commute: "wake_up_next (x\<lparr>wq_put_waiters := n\<rparr>) = (wake_up_next x)\<lparr>wq_put_waiters := n\<rparr>" for x :: "'a work_queue" and n
    by (simp add: wake_up_next_def split: option.splits)
  have keeps: "wq_put_waiters (wake_up_next x) = wq_put_waiters x" for x :: "'a work_queue"
    by (simp add: wake_up_next_def split: option.splits)
  have "admit_resume i made q = (case bind_and_put made q2 of (r, q') \<Rightarrow> (Some r, q'))"
    using True unfolding admit_resume_def q2_def q1_def
    by (simp add: Let_def keeps flip: commute)
  with bind_and_put_ok [OF i2(1,2), of made] assms(3) i2(3-5) True show ?thesis by auto
qed

lemma admit_cancel_ok:
  assumes "wq_inv 0 q" and "wq_live q"
  shows "wq_inv 0 (admit_cancel i q) \<and> wq_live (admit_cancel i q) \<and> wq_items (admit_cancel i q) = wq_items q \<and>
    wq_maxsize (admit_cancel i q) = wq_maxsize q"
proof -
  have m: "map snd (wq_waiters q) =
      replicate (granted q) True @ replicate (length (wq_waiters q) - granted q) False"
    using assms(1) by (simp only: wq_inv_def)
  have le: "granted q \<le> length (wq_waiters q)" by simp
  consider (granted) "(i, True) \<in> set (wq_waiters q)" | (waiting) "(i, True) \<notin> set (wq_waiters q)"
    "(i, False) \<in> set (wq_waiters q)" | (absent) "(i, True) \<notin> set (wq_waiters q)" "(i, False) \<notin> set (wq_waiters q)"
    by blast
  then show ?thesis
  proof cases
    case granted
    define q1 where "q1 = q\<lparr>wq_waiters := remove1 (i, True) (wq_waiters q), wq_put_waiters := wq_put_waiters q - 1,
      wq_value := Suc (wq_value q)\<rparr>"
    note rm = remove_granted [OF granted m]
    have g: "RuntimeQueue.granted q1 = RuntimeQueue.granted q - 1"
      "length (wq_waiters q1) = length (wq_waiters q) - 1"
      using granted prefix_count [OF conjunct1 [OF rm]] rm by (auto simp: q1_def length_remove1)
    obtain g' where g': "RuntimeQueue.granted q = Suc g'" using rm by (cases "RuntimeQueue.granted q") auto
    have "wq_inv 0 q1"
      using assms(1) conjunct1 [OF rm] g le unfolding wq_inv_def g' by (simp add: q1_def le_diff_conv)
    moreover have "0 < wq_value q1" by (simp add: q1_def)
    ultimately have "wq_inv 0 (wake_up_next q1) \<and> wq_live (wake_up_next q1) \<and>
        wq_items (wake_up_next q1) = wq_items q1 \<and> wq_maxsize (wake_up_next q1) = wq_maxsize q1"
      using wake_up_next_ok by blast
    moreover have "admit_cancel i q = wake_up_next q1"
      using granted by (simp add: admit_cancel_def q1_def Let_def)
    ultimately show ?thesis by (simp add: q1_def)
  next
    case waiting
    let ?q = "q\<lparr>wq_waiters := remove1 (i, False) (wq_waiters q), wq_put_waiters := wq_put_waiters q - 1\<rparr>"
    note rm = remove_ungranted [OF waiting(2) m]
    have g: "RuntimeQueue.granted ?q = RuntimeQueue.granted q" "length (wq_waiters ?q) = length (wq_waiters q) - 1"
      using waiting prefix_count [OF conjunct1 [OF rm]] rm by (auto simp: length_remove1)
    have "wq_inv 0 ?q"
      using assms(1) rm g le by (auto simp: wq_inv_def)
    moreover have "wq_live ?q"
      using assms(2) g by (auto simp: wq_live_def dest: notin_set_remove1 [rotated])
    ultimately show ?thesis using waiting by (simp add: admit_cancel_def)
  next
    case absent
    then show ?thesis using assms by (simp add: admit_cancel_def)
  qed
qed

lemma wq_get_ok:
  assumes "wq_inv 0 q" and "wq_live q"
  shows "case wq_get q of
      None \<Rightarrow> wq_items q = []
    | Some (r, q') \<Rightarrow> wq_inv 0 q' \<and> wq_live q' \<and> wq_maxsize q' = wq_maxsize q \<and>
        (\<exists>x. r = Inr x \<and> wq_items q = x # wq_items q') \<and>
        map fst (wq_waiters q') = map fst (wq_waiters q)"
proof (cases "wq_items q")
  case Nil
  then show ?thesis by (simp add: wq_get_def)
next
  case (Cons x xs)
  let ?q = "q\<lparr>wq_items := xs, wq_dequeued := Suc (wq_dequeued q)\<rparr>"
  have "wq_inv (Suc 0) ?q" using assms(1) Cons by (auto simp: wq_inv_def)
  from sem_release_ok [OF this] Cons show ?thesis
    by (auto simp: wq_get_def Let_def)
qed

lemma work_queue_init_ok:
  "work_queue_init v = Inr q \<Longrightarrow> wq_inv 0 q \<and> wq_live q \<and> wq_items q = [] \<and> wq_waiters q = []"
  by (auto simp: work_queue_init_def rbind_Inr_iff wq_inv_def wq_live_def dest: validate_queue_capacity_pos)

definition wq_wf :: "'a work_queue \<Rightarrow> bool" where
  "wq_wf q \<longleftrightarrow> wq_inv 0 q \<and> wq_live q"

interpretation processing: metrics_source wq_wf wq_snapshot
proof
  fix q :: "'a work_queue"
  assume "wq_wf q"
  then show "\<exists>m. wq_snapshot q = Inr m"
    unfolding wq_wf_def wq_inv_def wq_snapshot_def by (intro queue_snapshot_ok) (auto simp: lit_def)
qed

subsection \<open>Properties\<close>

text \<open>Any order of the steps of any tasks.\<close>

inductive wq_reach :: "'a work_queue \<Rightarrow> bool" where
  init: "work_queue_init v = Inr q \<Longrightarrow> wq_reach q"
| admit: "wq_reach q \<Longrightarrow> admit i made q = (r, q') \<Longrightarrow> wq_reach q'"
| resume: "wq_reach q \<Longrightarrow> admit_resume i made q = (r, q') \<Longrightarrow> wq_reach q'"
| cancel: "wq_reach q \<Longrightarrow> wq_reach (admit_cancel i q)"
| get: "wq_reach q \<Longrightarrow> wq_get q = Some (r, q') \<Longrightarrow> wq_reach q'"

lemma wq_reach_wf: "wq_reach q \<Longrightarrow> wq_wf q"
proof (induction rule: wq_reach.induct)
  case (init v q)
  then show ?case by (simp add: wq_wf_def work_queue_init_ok)
next
  case (admit q i made r q')
  then show ?case using admit_ok [of q i made r q'] by (simp add: wq_wf_def)
next
  case (resume q i made r q')
  then show ?case using admit_resume_ok [of q i made r q'] by (simp add: wq_wf_def)
next
  case (cancel q i)
  then show ?case using admit_cancel_ok [of q i] by (simp add: wq_wf_def)
next
  case (get q r q')
  then show ?case using wq_get_ok [of q] by (simp add: wq_wf_def)
qed

text \<open>
  C6. The processing queue is sound and live. After any interleaving of admissions,
  resumptions, cancellations and removals: free permits, granted waiters and queued items add
  up to the capacity, and the metrics can be read; an admission that is let through returns or
  raises what its factory does and is never refused for lack of room; a removal never returns
  a permit too many; and a waiter without a permit, when no other waiter has been granted one,
  waits for a queue that is really full.
\<close>

theorem processing_queue_live:
  assumes "wq_reach q"
  shows "wq_value q + length (filter snd (wq_waiters q)) + length (wq_items q) = wq_maxsize q \<and>
    (\<exists>m. wq_snapshot q = Inr m) \<and>
    (\<forall>i made r q'. admit i made q = (Some r, q') \<or> admit_resume i made q = (Some r, q') \<longrightarrow>
       put_effect made r (wq_items q) (wq_items q')) \<and>
    (\<forall>r q'. wq_get q = Some (r, q') \<longrightarrow> (\<exists>x. r = Inr x \<and> wq_items q = x # wq_items q')) \<and>
    (wq_waiters q \<noteq> [] \<and> (\<forall>w \<in> set (wq_waiters q). \<not> snd w) \<longrightarrow> length (wq_items q) = wq_maxsize q)"
proof -
  have wf: "wq_inv 0 q" "wq_live q" using wq_reach_wf [OF assms] by (simp_all add: wq_wf_def)
  have "wq_value q + granted q + length (wq_items q) = wq_maxsize q" using wf(1) by (simp add: wq_inv_def)
  moreover have "length (wq_items q) = wq_maxsize q"
    if "wq_waiters q \<noteq> []" "\<forall>w \<in> set (wq_waiters q). \<not> snd w"
  proof -
    have "granted q = 0" using that(2) by (simp add: filter_empty_conv)
    moreover have "\<exists>w \<in> set (wq_waiters q). \<not> snd w" using that by (cases "wq_waiters q") auto
    ultimately have "wq_value q = 0" using wf(2) by (auto simp: wq_live_def)
    then show ?thesis using wf(1) \<open>granted q = 0\<close> by (simp add: wq_inv_def)
  qed
  moreover have "put_effect made r (wq_items q) (wq_items q')" if "admit i made q = (Some r, q')" for i made r q'
    using admit_ok [OF wf that] by simp
  moreover have "put_effect made r (wq_items q) (wq_items q')" if "admit_resume i made q = (Some r, q')" for i made r q'
    using admit_resume_ok [OF wf that] by simp
  moreover have "\<exists>x. r = Inr x \<and> wq_items q = x # wq_items q'" if "wq_get q = Some (r, q')" for r q'
    using wq_get_ok [OF wf] that by simp
  ultimately show ?thesis using processing.snapshot_total [OF wq_reach_wf [OF assms]] by blast
qed

lemma admit_resume_runs:
  "(i, True) \<in> set (wq_waiters q) \<Longrightarrow> \<exists>r q'. admit_resume i made q = (Some r, q')"
  by (simp add: admit_resume_def Let_def case_prod_beta)

text \<open>A queue of one item: a second admission has to wait until the first item is taken.\<close>

lemma processing_queue_live_witness:
  "\<exists>q1 q2 q3 :: nat work_queue. \<exists>q r q4. work_queue_init (PInt 1) = Inr q \<and>
     admit 0 (Inr (Some 7)) q = (Some (Inr ()), q1) \<and> admit 1 (Inr (Some 8)) q1 = (None, q2) \<and>
     length (wq_items q2) = wq_maxsize q2 \<and>
     wq_get q2 = Some (Inr 7, q3) \<and> admit_resume 1 (Inr (Some 8)) q3 = (Some r, q4) \<and>
     put_effect (Inr (Some 8)) r [] (wq_items q4)"
proof -
  define q :: "nat work_queue" where "q = \<lparr>wq_maxsize = 1, wq_value = 1, wq_waiters = [], wq_items = [],
    wq_peak = 0, wq_enqueued = 0, wq_dequeued = 0, wq_put_waits = 0, wq_put_waiters = 0\<rparr>"
  define q1 where "q1 = q\<lparr>wq_value := 0, wq_items := [7], wq_peak := 1, wq_enqueued := 1\<rparr>"
  define q2 where "q2 = q1\<lparr>wq_waiters := [(1, False)], wq_put_waits := 1, wq_put_waiters := 1\<rparr>"
  define q3 where "q3 = q2\<lparr>wq_waiters := [(1, True)], wq_items := [], wq_dequeued := 1\<rparr>"
  note defs = q_def q1_def q2_def q3_def
  have q: "work_queue_init (PInt 1) = Inr q" by (simp add: work_queue_init_def q_def)
  have 1: "admit 0 (Inr (Some 7)) q = (Some (Inr ()), q1)"
    by (simp add: admit_def sem_locked_def bind_and_put_def defs)
  have 2: "admit 1 (Inr (Some 8)) q1 = (None, q2)" by (simp add: admit_def sem_locked_def defs)
  have 3: "wq_get q2 = Some (Inr 7, q3)"
    by (simp add: wq_get_def sem_release_def wake_up_next_def defs)
  have "(1, True) \<in> set (wq_waiters q3)" by (simp add: defs)
  from admit_resume_runs [OF this] obtain r q4 where 4: "admit_resume 1 (Inr (Some 8)) q3 = (Some r, q4)"
    by blast
  have reach2: "wq_reach q2" by (rule wq_reach.admit [OF wq_reach.admit [OF wq_reach.init [OF q] 1] 2])
  have reach3: "wq_reach q3" by (rule wq_reach.get [OF reach2 3])
  have "wq_waiters q2 \<noteq> [] \<and> (\<forall>w \<in> set (wq_waiters q2). \<not> snd w)" by (simp add: defs)
  with processing_queue_live [OF reach2] have "length (wq_items q2) = wq_maxsize q2" by blast
  moreover have "wq_items q3 = []" by (simp add: defs)
  moreover from processing_queue_live [OF reach3] 4
  have "put_effect (Inr (Some 8)) r (wq_items q3) (wq_items q4)" by blast
  ultimately have "put_effect (Inr (Some 8)) r [] (wq_items q4)" "length (wq_items q2) = wq_maxsize q2"
    by simp_all
  with q 1 2 3 4 show ?thesis by (intro exI conjI)
qed

end
