(* ===== verification/Runtime.thy ===== *)
theory Runtime
  imports Processor Forwarder RuntimeQueue RoutingControl
begin

section \<open>The runtime pipeline (\<open>aismixer.py\<close>)\<close>

text \<open>
  The tasks of one runtime: a reader per input queue, the processor stage and the egress stage,
  with the routing control service updating the routing table in between. A step is what one
  task does between two suspensions; any order of steps is a run. What is shown: a run computes
  what processing the admitted frames one by one, and sending every output before the next frame
  is touched, computes; each frame is bound to the routing table active when it was admitted;
  the pipeline can always go on while there is work; and a task fails only when the network
  refuses to open an endpoint or to send.
\<close>

subsection \<open>Binding a frame\<close>

record work_item =
  wi_frame :: frame
  wi_snapshot :: snapshot

text \<open>\<open>_bind_processing_work_item\<close>; \<open>None\<close> is a runtime without a routing state.\<close>

definition bind_processing_work_item ::
  "routing_snapshot option \<Rightarrow> int list \<Rightarrow> frame \<Rightarrow> work_item res" where
  "bind_processing_work_item st legacy f =
     rbind (case st of
              None \<Rightarrow> processing_snapshot (PInt 0) (Some GLOBAL) (PList (map PInt legacy))
            | Some s \<Rightarrow>
                (case table s of
                   None \<Rightarrow> processing_snapshot (PInt (generation s)) (Some GLOBAL) (PList (map PInt legacy))
                 | Some t \<Rightarrow> rbind (match_target_ids t (fr_source_id f)) (\<lambda>ts.
                     processing_snapshot (PInt (generation s)) (Some PER_TARGET) (PList (map PInt ts)))))
       (\<lambda>snap. Inr \<lparr>wi_frame = f, wi_snapshot = snap\<rparr>)"

subsection \<open>State\<close>

datatype reader = RIdle | RWaiting frame | RDead
datatype stage = SIdle | SPutting "out_msg list" | SAwaiting | SDead
datatype egress = EIdle | EBatch "out_msg list" | EDead "out_msg list"
datatype task = Reader nat | ProcessorStage | EgressStage

text \<open>
  \<open>rt_completion\<close> is the future of the batch in flight. The last three fields record what
  happened: the failures of tasks, the work items in the order of their admission, and the
  outputs in the order in which they were given to the forwarder.
\<close>

record runtime =
  rt_inputs :: "ingress_item observed_queue list"
  rt_readers :: "reader list"
  rt_queue :: "work_item work_queue"
  rt_stage :: stage
  rt_completion :: "unit res option"
  rt_processor :: processor
  rt_egress_queue :: "out_msg list observed_queue"
  rt_egress :: egress
  rt_metrics :: egress_counters
  rt_forwarder :: forwarder
  rt_control :: control_service
  rt_failures :: "(task \<times> py_error) list"
  rt_admitted :: "work_item list"
  rt_sent :: "out_msg list"

record rt_env =
  processing_env :: environment
  network :: net_env
  legacy_ids :: "int list"

definition fail :: "task \<Rightarrow> py_error \<Rightarrow> runtime \<Rightarrow> runtime" where
  "fail t e s = s\<lparr>rt_failures := rt_failures s @ [(t, e)]\<rparr>"

subsection \<open>The fan-in readers\<close>

definition made_item :: "rt_env \<Rightarrow> frame \<Rightarrow> runtime \<Rightarrow> work_item option res" where
  "made_item r f s =
     rbind (bind_processing_work_item (Some (routing_state (rt_control s))) (legacy_ids r) f)
       (\<lambda>w. Inr (Some w))"

definition after_admit ::
  "rt_env \<Rightarrow> nat \<Rightarrow> frame \<Rightarrow> unit res option \<times> work_item work_queue \<Rightarrow> runtime \<Rightarrow> runtime" where
  "after_admit r i f a s =
     (case a of
        (None, q) \<Rightarrow> s\<lparr>rt_queue := q, rt_readers := (rt_readers s)[i := RWaiting f]\<rparr>
      | (Some (Inl e), q) \<Rightarrow> fail (Reader i) e (s\<lparr>rt_queue := q, rt_readers := (rt_readers s)[i := RDead]\<rparr>)
      | (Some (Inr _), q) \<Rightarrow>
          s\<lparr>rt_queue := q, rt_readers := (rt_readers s)[i := RIdle],
            rt_admitted := rt_admitted s @ (case made_item r f s of Inr (Some w) \<Rightarrow> [w] | _ \<Rightarrow> [])\<rparr>)"

definition reader_get :: "rt_env \<Rightarrow> nat \<Rightarrow> runtime \<Rightarrow> runtime option" where
  "reader_get r i s =
     (case oq_get (rt_inputs s ! i) of
        None \<Rightarrow> None
      | Some (it, q) \<Rightarrow>
          let s1 = s\<lparr>rt_inputs := (rt_inputs s)[i := q]\<rparr>
          in Some (case coerce_ingress_frame it of
               None \<Rightarrow> s1
             | Some f \<Rightarrow> after_admit r i f (admit i (made_item r f s1) (rt_queue s1)) s1))"

definition reader_resume :: "rt_env \<Rightarrow> nat \<Rightarrow> frame \<Rightarrow> runtime \<Rightarrow> runtime option" where
  "reader_resume r i f s =
     (case admit_resume i (made_item r f s) (rt_queue s) of
        (None, _) \<Rightarrow> None
      | a \<Rightarrow> Some (after_admit r i f a s))"

subsection \<open>The processor stage\<close>

definition stage_put :: "out_msg list \<Rightarrow> bool \<times> out_msg list observed_queue \<Rightarrow> runtime \<Rightarrow> runtime" where
  "stage_put outs p s =
     s\<lparr>rt_egress_queue := snd p, rt_stage := (if fst p then SAwaiting else SPutting outs)\<rparr>"

definition stage_get :: "rt_env \<Rightarrow> runtime \<Rightarrow> runtime option" where
  "stage_get r s =
     (case wq_get (rt_queue s) of
        None \<Rightarrow> None
      | Some (Inl e, q) \<Rightarrow> Some (fail ProcessorStage e (s\<lparr>rt_queue := q, rt_stage := SDead\<rparr>))
      | Some (Inr w, q) \<Rightarrow>
          Some (case process (processing_env r) (wi_frame w) (wi_snapshot w) (rt_processor s) of
            (Inl e, p) \<Rightarrow>
              fail ProcessorStage e (s\<lparr>rt_queue := q, rt_processor := p, rt_stage := SDead\<rparr>)
          | (Inr outs, p) \<Rightarrow>
              let s1 = s\<lparr>rt_queue := q, rt_processor := p\<rparr>
              in if outs = [] then s1
                 else stage_put outs (oq_put outs (rt_egress_queue s1)) (s1\<lparr>rt_completion := None\<rparr>)))"

text \<open>A put that had to wait, once there is room.\<close>

definition stage_resume :: "out_msg list \<Rightarrow> runtime \<Rightarrow> runtime option" where
  "stage_resume outs s =
     (case oq_put_resume outs (rt_egress_queue s) of
        (False, _) \<Rightarrow> None
      | (True, q) \<Rightarrow> Some (stage_put outs (True, q) s))"

definition stage_await :: "runtime \<Rightarrow> runtime option" where
  "stage_await s =
     (case rt_completion s of
        None \<Rightarrow> None
      | Some (Inr _) \<Rightarrow> Some (s\<lparr>rt_stage := SIdle\<rparr>)
      | Some (Inl e) \<Rightarrow> Some (fail ProcessorStage e (s\<lparr>rt_stage := SDead\<rparr>)))"

subsection \<open>The egress stage\<close>

definition complete_with :: "unit res \<Rightarrow> runtime \<Rightarrow> runtime" where
  "complete_with x s = (if rt_completion s = None then s\<lparr>rt_completion := Some x\<rparr> else s)"

definition next_output :: "out_msg list \<Rightarrow> runtime \<Rightarrow> runtime" where
  "next_output ms s =
     (if ms = [] then complete_with (Inr ()) (s\<lparr>rt_metrics := batch_completed (rt_metrics s), rt_egress := EIdle\<rparr>)
      else s\<lparr>rt_egress := EBatch ms\<rparr>)"

definition egress_get :: "runtime \<Rightarrow> runtime option" where
  "egress_get s =
     (case oq_get (rt_egress_queue s) of
        None \<Rightarrow> None
      | Some (batch, q) \<Rightarrow>
          Some (next_output batch (s\<lparr>rt_egress_queue := q, rt_metrics := batch_started (rt_metrics s)\<rparr>)))"

definition send_output :: "net_env \<Rightarrow> out_msg \<Rightarrow> forwarder \<Rightarrow> forwarder \<times> unit res" where
  "send_output net m f = send_to_ids net (PList (map PInt (out_targets m))) (PBytes (message m)) f"

definition egress_output :: "rt_env \<Rightarrow> out_msg \<Rightarrow> out_msg list \<Rightarrow> runtime \<Rightarrow> runtime" where
  "egress_output r m ms s =
     (let s1 = s\<lparr>rt_metrics := output_started (rt_metrics s), rt_sent := rt_sent s @ [m]\<rparr>
      in case send_output (network r) m (rt_forwarder s1) of
           (f, Inr _) \<Rightarrow>
             next_output ms (s1\<lparr>rt_forwarder := f, rt_metrics := output_completed (rt_metrics s1)\<rparr>)
         | (f, Inl e) \<Rightarrow>
             fail EgressStage e (complete_with (Inl e) (s1\<lparr>rt_forwarder := f, rt_egress := EDead ms,
               rt_metrics := (if e = CancelledError then batch_cancelled (output_cancelled (rt_metrics s1))
                              else batch_failed (output_failed (rt_metrics s1)))\<rparr>)))"

subsection \<open>Runs\<close>

text \<open>The steps of the tasks.\<close>

inductive task_step :: "rt_env \<Rightarrow> runtime \<Rightarrow> runtime \<Rightarrow> bool" for r where
  read: "i < length (rt_inputs s) \<Longrightarrow> i < length (rt_readers s) \<Longrightarrow> rt_readers s ! i = RIdle \<Longrightarrow> reader_get r i s = Some s' \<Longrightarrow>
    task_step r s s'"
| readmit: "i < length (rt_readers s) \<Longrightarrow> rt_readers s ! i = RWaiting f \<Longrightarrow>
    reader_resume r i f s = Some s' \<Longrightarrow> task_step r s s'"
| take: "rt_stage s = SIdle \<Longrightarrow> stage_get r s = Some s' \<Longrightarrow> task_step r s s'"
| put: "rt_stage s = SPutting outs \<Longrightarrow> stage_resume outs s = Some s' \<Longrightarrow> task_step r s s'"
| await: "rt_stage s = SAwaiting \<Longrightarrow> stage_await s = Some s' \<Longrightarrow> task_step r s s'"
| fetch: "rt_egress s = EIdle \<Longrightarrow> egress_get s = Some s' \<Longrightarrow> task_step r s s'"
| dispatch: "rt_egress s = EBatch (m # ms) \<Longrightarrow> task_step r s (egress_output r m ms s)"

text \<open>
  Steps of the whole: a listener puts an item that satisfies \<open>P\<close>, at once or after a wait; a task
  makes a step; the control service replaces or disables the routing.
\<close>

inductive rt_step :: "rt_env \<Rightarrow> (ingress_item \<Rightarrow> bool) \<Rightarrow> runtime \<Rightarrow> runtime \<Rightarrow> bool" for r P where
  arrive: "i < length (rt_inputs s) \<Longrightarrow> P it \<Longrightarrow> oq_put it (rt_inputs s ! i) = (d, q) \<Longrightarrow>
    rt_step r P s (s\<lparr>rt_inputs := (rt_inputs s)[i := q]\<rparr>)"
| arrive_late: "i < length (rt_inputs s) \<Longrightarrow> P it \<Longrightarrow> 0 < oq_put_waiters (rt_inputs s ! i) \<Longrightarrow>
    oq_put_resume it (rt_inputs s ! i) = (d, q) \<Longrightarrow>
    rt_step r P s (s\<lparr>rt_inputs := (rt_inputs s)[i := q]\<rparr>)"
| step: "task_step r s s' \<Longrightarrow> rt_step r P s s'"
| replace: "replace_from_config cfg expected (rt_control s) = (res, c) \<Longrightarrow>
    rt_step r P s (s\<lparr>rt_control := c\<rparr>)"
| disable: "control_disable expected (rt_control s) = (res, c) \<Longrightarrow> rt_step r P s (s\<lparr>rt_control := c\<rparr>)"

text \<open>The queues, stages and counters \<open>main\<close> starts with.\<close>

definition runtime_init ::
  "ingress_item observed_queue list \<Rightarrow> work_item work_queue \<Rightarrow> out_msg list observed_queue
     \<Rightarrow> processor \<Rightarrow> forwarder \<Rightarrow> control_service \<Rightarrow> runtime" where
  "runtime_init inputs wq eq p f c =
     \<lparr>rt_inputs = inputs, rt_readers = map (\<lambda>_. RIdle) inputs, rt_queue = wq, rt_stage = SIdle,
      rt_completion = None, rt_processor = p, rt_egress_queue = eq, rt_egress = EIdle,
      rt_metrics = egress_init, rt_forwarder = f, rt_control = c, rt_failures = [], rt_admitted = [],
      rt_sent = []\<rparr>"

inductive rt_reach ::
  "rt_env \<Rightarrow> (ingress_item \<Rightarrow> bool) \<Rightarrow> processor \<Rightarrow> forwarder \<Rightarrow> control_service \<Rightarrow> runtime \<Rightarrow> bool"
  for r P p f c where
  init: "list_all (\<lambda>q. \<exists>name cap. observed_queue_init name cap = Inr q) inputs \<Longrightarrow>
    work_queue_init cap = Inr wq \<Longrightarrow> observed_queue_init (PStr (lit ''egress'')) (PInt 1) = Inr eq \<Longrightarrow>
    rt_reach r P p f c (runtime_init inputs wq eq p f c)"
| step: "rt_reach r P p f c s \<Longrightarrow> rt_step r P s s' \<Longrightarrow> rt_reach r P p f c s'"

inductive_cases task_stepE: "task_step r s s'"
inductive_cases rt_stepE: "rt_step r P s s'"

subsection \<open>The sequential program\<close>

text \<open>What the pipeline amounts to: frame by frame, and output by output.\<close>

fun process_all :: "environment \<Rightarrow> processor \<Rightarrow> work_item list \<Rightarrow> out_msg list \<times> processor" where
  "process_all env p [] = ([], p)"
| "process_all env p (w # ws) =
     (case process env (wi_frame w) (wi_snapshot w) p of
        (Inl e, p') \<Rightarrow> ([], p')
      | (Inr outs, p') \<Rightarrow> (case process_all env p' ws of (outs', p'') \<Rightarrow> (outs @ outs', p'')))"

definition send_all :: "net_env \<Rightarrow> out_msg list \<Rightarrow> forwarder \<Rightarrow> forwarder" where
  "send_all net ms f = fold (\<lambda>m f. fst (send_output net m f)) ms f"

definition in_flight :: "runtime \<Rightarrow> out_msg list" where
  "in_flight s =
     (case rt_egress s of EIdle \<Rightarrow> [] | EBatch ms \<Rightarrow> ms | EDead ms \<Rightarrow> ms) @ concat (oq_items (rt_egress_queue s))"

lemma process_all_append:
  assumes "process_all env p ws = (outs, p1)"
    and "\<forall>w \<in> set ws. clean_frame (wi_frame w) \<and> wf_snapshot (wi_snapshot w)"
    and "proc_inv p" and "clean_generator env"
  shows "process_all env p (ws @ ws') = (case process_all env p1 ws' of (outs', p2) \<Rightarrow> (outs @ outs', p2))
    \<and> proc_inv p1"
  using assms
proof (induction ws arbitrary: p outs)
  case (Cons w ws)
  obtain o1 q where o1: "process env (wi_frame w) (wi_snapshot w) p = (Inr o1, q)" "proc_inv q"
    using process_total [of env "wi_snapshot w" p "wi_frame w"] Cons.prems by auto
  obtain o2 where o2: "process_all env q ws = (o2, p1)" "outs = o1 @ o2"
    using Cons.prems(1) o1(1) by (auto split: prod.splits)
  from Cons.IH [OF o2(1) _ o1(2)] Cons.prems(2,4) o1(1) o2 show ?case
    by (auto split: prod.splits)
qed (simp split: prod.splits)

subsection \<open>Sending\<close>

lemma numeric_target_ids_total:
  "\<forall>i \<in> set is. 0 \<le> i \<and> i < int n \<Longrightarrow> \<exists>xs. numeric_target_ids n (map PInt is) acc = Inr xs"
  by (induction "is" arbitrary: acc) auto

definition targets_within :: "nat \<Rightarrow> int list \<Rightarrow> bool" where
  "targets_within n ts \<longleftrightarrow> (\<forall>t \<in> set ts. 0 \<le> t \<and> t < int n)"

lemma send_output_ok:
  assumes "send_output net m f = (f', r)" and "fw_wf f"
    and "targets_within (length (fw_destinations f)) (out_targets m)"
  shows "fw_wf f' \<and> fw_later f f' \<and> (\<forall>e. r = Inl e \<longrightarrow> network_error net e)"
proof -
  obtain xs where xs: "numeric_target_ids (length (fw_destinations f)) (map PInt (out_targets m)) [] = Inr xs"
    using numeric_target_ids_total assms(3) unfolding targets_within_def by blast
  then have v: "validate_numeric_target_ids (PList (map PInt (out_targets m))) (length (fw_destinations f)) = Inr xs"
    by (simp add: validate_numeric_target_ids_def)
  then have b: "\<forall>i \<in> set xs. i < length (fw_destinations f)" using valid_numeric_ids [OF v] by auto
  have d: "dispatch_to_ids net xs (message m) f = (f', r)"
    using assms(1) v by (simp add: send_output_def send_to_ids_def)
  moreover have "\<forall>i \<in> set xs. i < length (fw_traffic f)" using b assms(2) by (simp add: fw_wf_def)
  ultimately have "\<forall>e. r = Inl e \<longrightarrow> network_error net e" using dispatch_to_ids_error by blast
  with dispatch_to_ids_ok [OF d assms(2) b] show ?thesis by blast
qed

subsection \<open>The invariant\<close>

text \<open>One part per group of fields, so that a step has to restore few of them.\<close>

definition inputs_ok :: "(ingress_item \<Rightarrow> bool) \<Rightarrow> runtime \<Rightarrow> bool" where
  "inputs_ok P s \<longleftrightarrow> list_all (\<lambda>q. oq_wf q \<and> list_all P (oq_items q)) (rt_inputs s)"

definition waiting :: "reader list \<Rightarrow> nat set" where
  "waiting rs = {i. i < length rs \<and> (\<exists>f. rs ! i = RWaiting f)}"

definition readers_ok :: "runtime \<Rightarrow> bool" where
  "readers_ok s \<longleftrightarrow> length (rt_readers s) = length (rt_inputs s) \<and>
     (\<forall>x \<in> set (rt_readers s). x \<noteq> RDead \<and> (\<forall>f. x = RWaiting f \<longrightarrow> clean_frame f)) \<and>
     wq_wf (rt_queue s) \<and> distinct (map fst (wq_waiters (rt_queue s))) \<and>
     set (map fst (wq_waiters (rt_queue s))) = waiting (rt_readers s)"

definition item_ok :: "nat \<Rightarrow> work_item \<Rightarrow> bool" where
  "item_ok n w \<longleftrightarrow> clean_frame (wi_frame w) \<and> wf_snapshot (wi_snapshot w) \<and>
     targets_within n (target_ids (wi_snapshot w))"

definition generations :: "work_item list \<Rightarrow> int list" where
  "generations ws = map (\<lambda>w. routing_generation (wi_snapshot w)) ws"

definition admitted_ok :: "nat \<Rightarrow> runtime \<Rightarrow> bool" where
  "admitted_ok n s \<longleftrightarrow> list_all (item_ok n) (rt_admitted s) \<and> sorted (generations (rt_admitted s)) \<and>
     (\<forall>g \<in> set (generations (rt_admitted s)). g \<le> generation (routing_state (rt_control s)))"

text \<open>At most one batch is between the two stages, and its future says how far it is.\<close>

definition shape :: "stage \<Rightarrow> unit res option \<Rightarrow> out_msg list list \<Rightarrow> egress \<Rightarrow> bool" where
  "shape st c batches eg \<longleftrightarrow>
     (case st of
        SIdle \<Rightarrow> batches = [] \<and> eg = EIdle
      | SPutting _ \<Rightarrow> False
      | SAwaiting \<Rightarrow>
          (case c of
             None \<Rightarrow> (\<exists>b. b \<noteq> [] \<and> batches = [b] \<and> eg = EIdle) \<or> batches = [] \<and> (\<exists>m ms. eg = EBatch (m # ms))
           | Some (Inr _) \<Rightarrow> batches = [] \<and> eg = EIdle
           | Some (Inl _) \<Rightarrow> batches = [] \<and> (\<exists>ms. eg = EDead ms))
      | SDead \<Rightarrow> batches = [] \<and> (\<exists>ms. eg = EDead ms))"

definition metrics_ok :: "runtime \<Rightarrow> bool" where
  "metrics_ok s \<longleftrightarrow> oq_wf (rt_egress_queue s) \<and> egress_wf (rt_metrics s) \<and> eg_active_outputs (rt_metrics s) = 0 \<and>
     eg_active_batches (rt_metrics s) = (case rt_egress s of EBatch _ \<Rightarrow> 1 | _ \<Rightarrow> 0)"

definition pipeline_ok :: "environment \<Rightarrow> nat \<Rightarrow> processor \<Rightarrow> runtime \<Rightarrow> bool" where
  "pipeline_ok env n p s \<longleftrightarrow>
     shape (rt_stage s) (rt_completion s) (oq_items (rt_egress_queue s)) (rt_egress s) \<and> metrics_ok s \<and> proc_inv (rt_processor s) \<and>
     (\<exists>ws. rt_admitted s = ws @ wq_items (rt_queue s) \<and>
        process_all env p ws = (rt_sent s @ in_flight s, rt_processor s)) \<and>
     (\<forall>m \<in> set (in_flight s). targets_within n (out_targets m))"

definition sending_ok :: "net_env \<Rightarrow> forwarder \<Rightarrow> runtime \<Rightarrow> bool" where
  "sending_ok net f s \<longleftrightarrow> rt_forwarder s = send_all net (rt_sent s) f \<and> fw_wf (rt_forwarder s) \<and>
     fw_destinations (rt_forwarder s) = fw_destinations f \<and>
     (\<forall>(t, e) \<in> set (rt_failures s). network_error net e \<and> (t = EgressStage \<or> t = ProcessorStage)) \<and>
     (rt_failures s = [] \<longrightarrow> rt_stage s \<noteq> SDead \<and> (\<forall>ms. rt_egress s \<noteq> EDead ms)) \<and>
     (\<forall>e. rt_completion s = Some (Inl e) \<longrightarrow> network_error net e)"

definition control_part :: "forwarder \<Rightarrow> runtime \<Rightarrow> bool" where
  "control_part f s \<longleftrightarrow> control_ok (rt_control s) \<and>
     target_id_by_name (rt_control s) = map (\<lambda>(n, i). (n, int i)) (fw_names f)"

definition rt_inv :: "rt_env \<Rightarrow> (ingress_item \<Rightarrow> bool) \<Rightarrow> processor \<Rightarrow> forwarder \<Rightarrow> runtime \<Rightarrow> bool" where
  "rt_inv r P p f s \<longleftrightarrow> inputs_ok P s \<and> readers_ok s \<and> admitted_ok (length (fw_destinations f)) s \<and>
     pipeline_ok (processing_env r) (length (fw_destinations f)) p s \<and> sending_ok (network r) f s \<and>
     control_part f s"

lemmas inv_parts = rt_inv_def inputs_ok_def readers_ok_def admitted_ok_def pipeline_ok_def shape_def
  metrics_ok_def in_flight_def sending_ok_def control_part_def

text \<open>What \<open>main\<close> puts together: the forwarder's numbers are those the routing knows.\<close>

definition runtime_setup :: "rt_env \<Rightarrow> processor \<Rightarrow> forwarder \<Rightarrow> control_service \<Rightarrow> bool" where
  "runtime_setup r p f c \<longleftrightarrow> proc_reach (processing_env r) accepted_call p \<and> clean_generator (processing_env r) \<and>
     (\<exists>k targets. forwarder_init k targets = Inr f) \<and> control_reach c \<and>
     target_id_by_name c = map (\<lambda>(n, i). (n, int i)) (fw_names f) \<and>
     legacy_ids r = map int (all_target_ids f)"

definition clean_item :: "ingress_item \<Rightarrow> bool" where
  "clean_item it \<longleftrightarrow> (\<forall>f. coerce_ingress_frame it = Some f \<longrightarrow> clean_frame f)"

lemma runtime_setup_facts:
  assumes "runtime_setup r p f c"
  shows "proc_inv p" "fw_wf f" "control_ok c" "clean_generator (processing_env r)" "fw_events f = []"
  using assms reach_inv control_reach_ok forwarder_init_wf
  by (auto simp: runtime_setup_def forwarder_init_def rbind_Inr_iff)

subsection \<open>Every part is kept\<close>

lemma init_inv:
  assumes "runtime_setup r p f c"
    and "list_all (\<lambda>q. \<exists>name cap. observed_queue_init name cap = Inr q) inputs"
    and "work_queue_init cap = Inr wq" and "observed_queue_init (PStr (lit ''egress'')) (PInt 1) = Inr eq"
  shows "rt_inv r clean_item p f (runtime_init inputs wq eq p f c)"
proof -
  have "list_all (\<lambda>q. oq_wf q \<and> list_all clean_item (oq_items q)) inputs"
    using assms(2) by (rule list.pred_mono_strong) (use observed_queue_init_wf in fastforce)
  moreover have "waiting (map (\<lambda>_. RIdle) inputs) = {}" by (auto simp: waiting_def)
  ultimately show ?thesis
    using runtime_setup_facts [OF assms(1)] work_queue_init_ok [OF assms(3)] observed_queue_init_wf [OF assms(4)]
      egress_counters_wf(1) assms(1)
    by (auto simp: inv_parts runtime_init_def wq_wf_def generations_def egress_init_def send_all_def runtime_setup_def)
qed

text \<open>Which fields a part does not look at.\<close>

lemma frame_inputs [simp]:
  "inputs_ok P (s\<lparr>rt_control := c\<rparr>) = inputs_ok P s" "inputs_ok P (s\<lparr>rt_queue := q\<rparr>) = inputs_ok P s"
  "inputs_ok P (s\<lparr>rt_readers := rs\<rparr>) = inputs_ok P s" "inputs_ok P (s\<lparr>rt_admitted := ws\<rparr>) = inputs_ok P s"
  by (simp_all add: inputs_ok_def)

lemma frame_readers [simp]:
  "readers_ok (s\<lparr>rt_control := c\<rparr>) = readers_ok s" "readers_ok (s\<lparr>rt_admitted := ws\<rparr>) = readers_ok s"
  "length qs = length (rt_inputs s) \<Longrightarrow> readers_ok (s\<lparr>rt_inputs := qs\<rparr>) = readers_ok s"
  by (simp_all add: readers_ok_def)

lemma frame_admitted [simp]:
  "admitted_ok n (s\<lparr>rt_inputs := qs\<rparr>) = admitted_ok n s" "admitted_ok n (s\<lparr>rt_queue := q\<rparr>) = admitted_ok n s"
  "admitted_ok n (s\<lparr>rt_readers := rs\<rparr>) = admitted_ok n s"
  by (simp_all add: admitted_ok_def)

lemma frame_pipeline [simp]:
  "pipeline_ok env n p (s\<lparr>rt_inputs := qs\<rparr>) = pipeline_ok env n p s"
  "pipeline_ok env n p (s\<lparr>rt_control := c\<rparr>) = pipeline_ok env n p s"
  "pipeline_ok env n p (s\<lparr>rt_readers := rs\<rparr>) = pipeline_ok env n p s"
  by (simp_all add: pipeline_ok_def metrics_ok_def in_flight_def)

lemma frame_sending [simp]:
  "sending_ok net f (s\<lparr>rt_inputs := qs\<rparr>) = sending_ok net f s"
  "sending_ok net f (s\<lparr>rt_control := c\<rparr>) = sending_ok net f s"
  "sending_ok net f (s\<lparr>rt_readers := rs\<rparr>) = sending_ok net f s"
  "sending_ok net f (s\<lparr>rt_queue := q\<rparr>) = sending_ok net f s"
  "sending_ok net f (s\<lparr>rt_admitted := ws\<rparr>) = sending_ok net f s"
  by (simp_all add: sending_ok_def)

lemma sending_keep:
  assumes "sending_ok net f s" and "rt_forwarder s' = rt_forwarder s" "rt_sent s' = rt_sent s"
    "rt_failures s' = rt_failures s" "rt_egress s' = rt_egress s"
    and "rt_stage s' \<noteq> SDead \<or> rt_stage s' = rt_stage s"
    and "rt_completion s' = None \<or> rt_completion s' = rt_completion s"
  shows "sending_ok net f s'"
  using assms(1) unfolding sending_ok_def assms(2-5) using assms(6,7) by auto

lemma frame_control [simp]:
  "control_part f (s\<lparr>rt_inputs := qs\<rparr>) = control_part f s" "control_part f (s\<lparr>rt_queue := q\<rparr>) = control_part f s"
  "control_part f (s\<lparr>rt_readers := rs\<rparr>) = control_part f s" "control_part f (s\<lparr>rt_admitted := ws\<rparr>) = control_part f s"
  by (simp_all add: control_part_def)

lemma inputs_update_ok:
  assumes "rt_inv r P p f s" and "oq_wf q" and "list_all P (oq_items q)"
  shows "rt_inv r P p f (s\<lparr>rt_inputs := (rt_inputs s)[i := q]\<rparr>)"
proof -
  have "inputs_ok P (s\<lparr>rt_inputs := (rt_inputs s)[i := q]\<rparr>)"
    using assms by (cases "i < length (rt_inputs s)")
      (simp_all add: rt_inv_def inputs_ok_def list_all_length [where xs = "_[_ := _]"]
        list_all_length [where xs = "rt_inputs s"] nth_list_update list_update_beyond)
  with assms(1) show ?thesis by (simp add: rt_inv_def)
qed

lemma arrive_ok:
  assumes "rt_inv r P p f s" and "i < length (rt_inputs s)" and "P it"
    and "oq_put it (rt_inputs s ! i) = (d, q) \<or> oq_put_resume it (rt_inputs s ! i) = (d, q)"
  shows "rt_inv r P p f (s\<lparr>rt_inputs := (rt_inputs s)[i := q]\<rparr>)"
proof -
  have "oq_wf (rt_inputs s ! i)" "list_all P (oq_items (rt_inputs s ! i))"
    using assms(1,2) by (simp_all add: rt_inv_def inputs_ok_def list_all_length)
  with oq_put_wf [of it "rt_inputs s ! i" d q] oq_put_resume_wf [of it "rt_inputs s ! i" d q] assms(3,4)
  have "oq_wf q" "list_all P (oq_items q)" by (auto split: if_splits)
  then show ?thesis by (rule inputs_update_ok [OF assms(1)])
qed

lemma control_replace_ok:
  assumes "control_ok c" and "replace_from_config cfg expected c = (res, c') \<or> control_disable expected c = (res, c')"
  shows "control_ok c' \<and> target_id_by_name c' = target_id_by_name c \<and>
    generation (routing_state c) \<le> generation (routing_state c')"
proof -
  have i: "control_ok (snd (install t e c)) \<and> target_id_by_name (snd (install t e c)) = target_id_by_name c \<and>
      generation (routing_state c) \<le> generation (routing_state (snd (install t e c)))"
    if "\<forall>t'. t = Some t' \<longrightarrow> table_routes (target_id_by_name c) t'" for t e
    using install_ok [OF assms(1) that] rs.replace_version
    by (fastforce simp: install_def split: sum.splits)
  have f: "frozen (target_id_by_name c)" using assms(1) by (simp add: control_ok_def)
  show ?thesis
  proof (cases "compile_routing_section cfg (mapping_of (target_id_by_name c))")
    case (Inl e)
    then show ?thesis using assms i [of None expected]
      by (auto simp: replace_from_config_def control_disable_def)
  next
    case (Inr t)
    from compile_section_routes [OF Inr f] assms i [of "Some t" expected] i [of None expected] Inr show ?thesis
      by (auto simp: replace_from_config_def control_disable_def)
  qed
qed

lemma control_step_ok:
  assumes "rt_inv r P p f s"
    and "replace_from_config cfg expected (rt_control s) = (res, c) \<or> control_disable expected (rt_control s) = (res, c)"
  shows "rt_inv r P p f (s\<lparr>rt_control := c\<rparr>)"
proof -
  have c: "control_ok c" "target_id_by_name c = target_id_by_name (rt_control s)"
    "generation (routing_state (rt_control s)) \<le> generation (routing_state c)"
    using control_replace_ok [OF _ assms(2)] assms(1) by (simp_all add: rt_inv_def control_part_def)
  then have "admitted_ok (length (fw_destinations f)) (s\<lparr>rt_control := c\<rparr>)"
    using assms(1) by (force simp: rt_inv_def admitted_ok_def)
  moreover have "control_part f (s\<lparr>rt_control := c\<rparr>)"
    using assms(1) c by (simp add: rt_inv_def control_part_def)
  ultimately show ?thesis using assms(1) by (simp add: rt_inv_def)
qed

subsection \<open>Readers\<close>

lemma made_item_ok:
  assumes "control_part f s" and "fw_wf f" and "legacy_ids r = map int (all_target_ids f)" and "clean_frame fr"
  shows "\<exists>w. made_item r fr s = Inr (Some w) \<and> item_ok (length (fw_destinations f)) w \<and> wi_frame w = fr \<and>
    routing_generation (wi_snapshot w) = generation (routing_state (rt_control s))"
proof -
  define st where "st = routing_state (rt_control s)"
  have ok: "control_ok (rt_control s)"
    and ids: "target_id_by_name (rt_control s) = map (\<lambda>(n, i). (n, int i)) (fw_names f)"
    using assms(1) by (simp_all add: control_part_def)
  have g: "0 \<le> generation st" using ok by (simp add: control_ok_def st_def)
  have snap: "\<exists>sn. processing_snapshot (PInt (generation st)) (Some md) (PList (map PInt ts)) = Inr sn \<and>
      wf_snapshot sn \<and> target_ids sn = ts \<and> routing_generation sn = generation st"
    if "distinct ts" "targets_within n ts" for md ts n
  proof -
    have "target_ids_of (map PInt ts) = Inr ts" using that(2) by (simp add: target_ids_of_Inr targets_within_def)
    then show ?thesis using g that by (auto simp: processing_snapshot_def wf_snapshot_def targets_within_def)
  qed
  have legacy: "distinct (legacy_ids r)" "targets_within (length (fw_destinations f)) (legacy_ids r)"
    using assms(3) by (auto simp: all_target_ids_def distinct_map targets_within_def)
  show ?thesis
  proof (cases "table st")
    case None
    from snap [OF legacy, of GLOBAL] assms(4) None show ?thesis
      by (auto simp: made_item_def bind_processing_work_item_def item_ok_def legacy st_def)
  next
    case (Some t)
    then have "table_routes (target_id_by_name (rt_control s)) t" using ok by (simp add: control_ok_def st_def)
    then obtain ts where ts: "match_target_ids t (fr_source_id fr) = Inr ts" "distinct ts"
      "set ts \<subseteq> snd ` set (target_id_by_name (rt_control s))"
      unfolding table_routes_def by blast
    have "targets_within (length (fw_destinations f)) ts"
      using ts(3) assms(2) by (fastforce simp: targets_within_def ids fw_wf_def)
    from snap [OF ts(2) this, of PER_TARGET] this ts(1) assms(4) Some show ?thesis
      by (auto simp: made_item_def bind_processing_work_item_def item_ok_def st_def)
  qed
qed

lemma waiting_update:
  "i < length rs \<Longrightarrow> waiting (rs[i := x]) = (if \<exists>f. x = RWaiting f then insert i (waiting rs) else waiting rs - {i})"
  by (auto simp: waiting_def nth_list_update)

text \<open>The tail of both reader steps, for a result of an admission.\<close>

lemma after_admit_ok:
  assumes inv: "rt_inv r P p f s" and i: "i < length (rt_readers s)" and fr: "clean_frame fr"
    and w: "made_item r fr s = Inr (Some w)" "item_ok (length (fw_destinations f)) w"
      "routing_generation (wi_snapshot w) = generation (routing_state (rt_control s))"
    and q: "wq_wf q" "distinct (map fst (wq_waiters q))"
    and a: "a = None \<and> wq_items q = wq_items (rt_queue s) \<and>
        set (map fst (wq_waiters q)) = insert i (waiting (rt_readers s)) \<or>
      a = Some (Inr ()) \<and> wq_items q = wq_items (rt_queue s) @ [w] \<and>
        set (map fst (wq_waiters q)) = waiting (rt_readers s) - {i}"
  shows "rt_inv r P p f (after_admit r i fr (a, q) s)"
  using a
proof (elim disjE conjE)
  assume a: "a = None" "wq_items q = wq_items (rt_queue s)"
    "set (map fst (wq_waiters q)) = insert i (waiting (rt_readers s))"
  let ?s = "s\<lparr>rt_queue := q, rt_readers := (rt_readers s)[i := RWaiting fr]\<rparr>"
  have "readers_ok ?s"
    using inv i fr q a(3) set_update_subset_insert [of "rt_readers s" i "RWaiting fr"]
    by (auto simp: rt_inv_def readers_ok_def waiting_update)
  moreover have "pipeline_ok (processing_env r) (length (fw_destinations f)) p ?s"
    using inv a(2) by (simp add: rt_inv_def) (simp add: pipeline_ok_def metrics_ok_def in_flight_def)
  ultimately show ?thesis using inv a(1) by (simp add: rt_inv_def after_admit_def)
next
  assume a: "a = Some (Inr ())" "wq_items q = wq_items (rt_queue s) @ [w]"
    "set (map fst (wq_waiters q)) = waiting (rt_readers s) - {i}"
  let ?s = "s\<lparr>rt_queue := q, rt_readers := (rt_readers s)[i := RIdle], rt_admitted := rt_admitted s @ [w]\<rparr>"
  have "readers_ok ?s"
    using inv i q a(3) set_update_subset_insert [of "rt_readers s" i RIdle]
    by (auto simp: rt_inv_def readers_ok_def waiting_update)
  moreover have "admitted_ok (length (fw_destinations f)) ?s"
    using inv w(2,3) by (auto simp: rt_inv_def admitted_ok_def generations_def sorted_append)
  moreover have "pipeline_ok (processing_env r) (length (fw_destinations f)) p ?s"
    using inv a(2) by (simp add: rt_inv_def) (simp add: pipeline_ok_def metrics_ok_def in_flight_def)
  ultimately show ?thesis using inv a(1) w(1) by (simp add: rt_inv_def after_admit_def)
qed

lemma reader_get_ok:
  assumes inv: "rt_inv r clean_item p f s" and su: "fw_wf f" "legacy_ids r = map int (all_target_ids f)"
    and i: "i < length (rt_readers s)" "rt_readers s ! i = RIdle" and g: "reader_get r i s = Some s'"
  shows "rt_inv r clean_item p f s'"
proof -
  have il: "i < length (rt_inputs s)" using inv i(1) by (simp add: rt_inv_def readers_ok_def)
  obtain it q where q: "oq_get (rt_inputs s ! i) = Some (it, q)"
    using g by (auto simp: reader_get_def split: option.splits)
  have "oq_wf (rt_inputs s ! i)" "list_all clean_item (oq_items (rt_inputs s ! i))"
    using inv il by (simp_all add: rt_inv_def inputs_ok_def list_all_length)
  with oq_get_wf [OF q] have item: "oq_wf q" "list_all clean_item (oq_items q)" "clean_item it" by auto
  define s1 where "s1 = s\<lparr>rt_inputs := (rt_inputs s)[i := q]\<rparr>"
  have inv1: "rt_inv r clean_item p f s1" unfolding s1_def by (rule inputs_update_ok [OF inv item(1,2)])
  show ?thesis
  proof (cases "coerce_ingress_frame it")
    case None
    then show ?thesis using g q inv1 by (simp add: reader_get_def s1_def Let_def)
  next
    case (Some fr)
    have fr: "clean_frame fr" using item(3) Some by (simp add: clean_item_def)
    obtain w where w: "made_item r fr s1 = Inr (Some w)" "item_ok (length (fw_destinations f)) w"
      "routing_generation (wi_snapshot w) = generation (routing_state (rt_control s1))"
      using made_item_ok [OF _ su fr, of s1] inv1 by (auto simp: rt_inv_def)
    obtain a q' where a: "admit i (made_item r fr s1) (rt_queue s1) = (a, q')" by fastforce
    have wq: "wq_inv 0 (rt_queue s1)" "wq_live (rt_queue s1)" and rd: "distinct (map fst (wq_waiters (rt_queue s1)))"
      "set (map fst (wq_waiters (rt_queue s1))) = waiting (rt_readers s1)"
      using inv1 by (simp_all add: rt_inv_def readers_ok_def wq_wf_def)
    have ni: "i \<notin> waiting (rt_readers s1)" using i by (simp add: waiting_def s1_def)
    note ad = admit_ok [OF wq a]
    have "rt_inv r clean_item p f (after_admit r i fr (a, q') s1)"
    proof (rule after_admit_ok [OF inv1 _ fr w])
      show "i < length (rt_readers s1)" using i by (simp add: s1_def)
      show "wq_wf q'" using ad by (simp add: wq_wf_def)
      show "distinct (map fst (wq_waiters q'))" using ad rd ni by (cases a) auto
      show "a = None \<and> wq_items q' = wq_items (rt_queue s1) \<and>
          set (map fst (wq_waiters q')) = insert i (waiting (rt_readers s1)) \<or>
        a = Some (Inr ()) \<and> wq_items q' = wq_items (rt_queue s1) @ [w] \<and>
          set (map fst (wq_waiters q')) = waiting (rt_readers s1) - {i}"
        using ad rd ni w(1) by (cases a) (auto simp: put_effect_def)
    qed
    then show ?thesis using g q Some a by (simp add: reader_get_def s1_def Let_def)
  qed
qed

lemma reader_resume_ok:
  assumes inv: "rt_inv r clean_item p f s" and su: "fw_wf f" "legacy_ids r = map int (all_target_ids f)"
    and i: "i < length (rt_readers s)" "rt_readers s ! i = RWaiting fr" and g: "reader_resume r i fr s = Some s'"
  shows "rt_inv r clean_item p f s'"
proof -
  have fr: "clean_frame fr" using inv i nth_mem [OF i(1)] by (auto simp: rt_inv_def readers_ok_def)
  obtain w where w: "made_item r fr s = Inr (Some w)" "item_ok (length (fw_destinations f)) w"
    "routing_generation (wi_snapshot w) = generation (routing_state (rt_control s))"
    using made_item_ok [OF _ su fr, of s] inv by (auto simp: rt_inv_def)
  obtain x q where a: "admit_resume i (made_item r fr s) (rt_queue s) = (Some x, q)"
    and s': "s' = after_admit r i fr (Some x, q) s"
    using g by (auto simp: reader_resume_def split: prod.splits option.splits)
  have wq: "wq_inv 0 (rt_queue s)" "wq_live (rt_queue s)" and rd: "distinct (map fst (wq_waiters (rt_queue s)))"
    "set (map fst (wq_waiters (rt_queue s))) = waiting (rt_readers s)"
    using inv by (simp_all add: rt_inv_def readers_ok_def wq_wf_def)
  note ad = admit_resume_ok [OF wq a]
  have rm: "distinct (map fst (remove1 (i, True) ws)) \<and> set (map fst (remove1 (i, True) ws)) = set (map fst ws) - {i}"
    if "(i, True) \<in> set ws" "distinct (map fst ws)" for ws :: "(nat \<times> bool) list"
    using that by (induction ws) (auto simp: image_iff)
  have "rt_inv r clean_item p f (after_admit r i fr (Some x, q) s)"
  proof (rule after_admit_ok [OF inv i(1) fr w])
    show "wq_wf q" using ad by (simp add: wq_wf_def)
    show "distinct (map fst (wq_waiters q))" using ad rd rm by auto
    show "Some x = None \<and> wq_items q = wq_items (rt_queue s) \<and>
        set (map fst (wq_waiters q)) = insert i (waiting (rt_readers s)) \<or>
      Some x = Some (Inr ()) \<and> wq_items q = wq_items (rt_queue s) @ [w] \<and>
        set (map fst (wq_waiters q)) = waiting (rt_readers s) - {i}"
      using ad rd rm w(1) by (auto simp: put_effect_def)
  qed
  then show ?thesis by (simp add: s')
qed

subsection \<open>Stages\<close>

lemma addressed_within:
  "addressed snap m \<Longrightarrow> targets_within n (target_ids snap) \<Longrightarrow> targets_within n (out_targets m)"
  using subseq_subset by (fastforce simp: addressed_def targets_within_def)

lemma oq_put_empty:
  assumes "oq_wf q" and "oq_items q = []"
  obtains q' where "oq_put x q = (True, q')" "oq_wf q'" "oq_items q' = [x]"
proof -
  have "\<not> oq_full q" using assms by (simp add: oq_full_def oq_wf_def)
  then obtain q' where q: "oq_put x q = (True, q')" by (simp add: oq_put_def oq_put_nowait_def)
  from oq_put_wf [OF this assms(1)] assms(2) that q show thesis by auto
qed

lemma stage_get_ok:
  assumes inv: "rt_inv r P p f s" and env: "clean_generator (processing_env r)" and pi: "proc_inv p"
    and st: "rt_stage s = SIdle" and g: "stage_get r s = Some s'"
  shows "rt_inv r P p f s'"
proof -
  define n where "n = length (fw_destinations f)"
  have wq: "wq_inv 0 (rt_queue s)" "wq_live (rt_queue s)" using inv by (simp_all add: rt_inv_def readers_ok_def wq_wf_def)
  obtain x q where x: "wq_get (rt_queue s) = Some (x, q)"
    using g by (auto simp: stage_get_def split: option.splits)
  then obtain w where w: "x = Inr w" "wq_items (rt_queue s) = w # wq_items q" "wq_inv 0 q" "wq_live q"
    "map fst (wq_waiters q) = map fst (wq_waiters (rt_queue s))"
    using wq_get_ok [OF wq] by auto
  obtain ws where ws: "rt_admitted s = ws @ w # wq_items q"
    "process_all (processing_env r) p ws = (rt_sent s @ in_flight s, rt_processor s)"
    using inv w(2) by (auto simp: rt_inv_def pipeline_ok_def)
  have items: "list_all (item_ok n) (rt_admitted s)" using inv by (simp add: rt_inv_def admitted_ok_def n_def)
  have pinv: "proc_inv (rt_processor s)" using inv by (simp add: rt_inv_def pipeline_ok_def)
  have wok: "item_ok n w" using items ws(1) by simp
  obtain outs p' where o: "process (processing_env r) (wi_frame w) (wi_snapshot w) (rt_processor s) = (Inr outs, p')"
    "proc_inv p'" "\<forall>m \<in> set outs. addressed (wi_snapshot w) m"
    using process_total [OF env _ pinv, of "wi_snapshot w" "wi_frame w"] wok by (auto simp: item_ok_def)
  have more: "process_all (processing_env r) p (ws @ [w]) = ((rt_sent s @ in_flight s) @ outs, p')"
    using process_all_append [OF ws(2) _ pi env, of "[w]"] items ws(1) o(1)
    by (auto simp: list_all_iff item_ok_def)
  have idle: "oq_items (rt_egress_queue s) = []" "rt_egress s = EIdle" "in_flight s = []"
    using inv st by (simp_all add: rt_inv_def pipeline_ok_def shape_def in_flight_def)
  have tw: "\<forall>m \<in> set outs. targets_within n (out_targets m)"
    using o(3) wok addressed_within by (auto simp: item_ok_def)
  define s1 where "s1 = s\<lparr>rt_queue := q, rt_processor := p'\<rparr>"
  have rd: "readers_ok s1" using inv w by (simp add: rt_inv_def readers_ok_def s1_def wq_wf_def)
  have adm: "rt_admitted s = (ws @ [w]) @ wq_items q" using ws(1) by simp
  show ?thesis
  proof (cases "outs = []")
    case True
    have "pipeline_ok (processing_env r) n p s1"
      using inv more adm True o(2) idle st unfolding rt_inv_def pipeline_ok_def metrics_ok_def in_flight_def s1_def
      by (simp add: n_def)
    moreover have "s' = s1" using g x w(1) o(1) True by (simp add: stage_get_def s1_def)
    moreover have "sending_ok (network r) f s1"
      by (rule sending_keep [of "network r" f s]) (use inv in \<open>simp_all add: rt_inv_def s1_def\<close>)
    ultimately show ?thesis using inv rd
      by (simp add: rt_inv_def n_def) (simp add: s1_def inputs_ok_def admitted_ok_def control_part_def)
  next
    case False
    have "oq_wf (rt_egress_queue s)" using inv by (simp add: rt_inv_def pipeline_ok_def metrics_ok_def)
    then obtain q' where q': "oq_put outs (rt_egress_queue s) = (True, q')" "oq_wf q'" "oq_items q' = [outs]"
      by (rule oq_put_empty [OF _ idle(1)])
    have s': "s' = s1\<lparr>rt_completion := None, rt_egress_queue := q', rt_stage := SAwaiting\<rparr>"
      using g x w(1) o(1) False q'(1) by (simp add: stage_get_def s1_def stage_put_def Let_def)
    have "\<exists>us. rt_admitted s' = us @ wq_items (rt_queue s') \<and>
        process_all (processing_env r) p us = (rt_sent s' @ in_flight s', rt_processor s')"
      using more adm idle q'(3) by (intro exI [of _ "ws @ [w]"]) (simp add: s' s1_def in_flight_def)
    moreover have "metrics_ok s'" using inv q'(2) idle(2) by (simp add: rt_inv_def pipeline_ok_def metrics_ok_def s' s1_def)
    moreover have "in_flight s' = outs" by (simp add: in_flight_def s' s1_def idle q'(3))
    ultimately have "pipeline_ok (processing_env r) n p s'"
      using o(2) tw q'(3) idle False by (simp add: pipeline_ok_def shape_def) (simp add: s' s1_def)
    moreover have "sending_ok (network r) f s'"
      by (rule sending_keep [of "network r" f s]) (use inv in \<open>simp_all add: rt_inv_def s' s1_def\<close>)
    ultimately show ?thesis using inv rd
      by (simp add: rt_inv_def n_def)
        (simp add: s' s1_def inputs_ok_def readers_ok_def admitted_ok_def control_part_def)
  qed
qed

lemma stage_await_ok:
  assumes inv: "rt_inv r P p f s" and st: "rt_stage s = SAwaiting" and g: "stage_await s = Some s'"
  shows "rt_inv r P p f s'"
proof -
  obtain c where c: "rt_completion s = Some c" using g by (auto simp: stage_await_def split: option.splits)
  have sh: "shape SAwaiting (Some c) (oq_items (rt_egress_queue s)) (rt_egress s)"
    using inv st c by (simp add: rt_inv_def pipeline_ok_def)
  show ?thesis
  proof (cases c)
    case (Inl e)
    then have s': "s' = s\<lparr>rt_stage := SDead, rt_failures := rt_failures s @ [(ProcessorStage, e)]\<rparr>"
      using g c by (simp add: stage_await_def fail_def)
    have "pipeline_ok (processing_env r) (length (fw_destinations f)) p s'"
      using inv sh Inl by (simp add: rt_inv_def pipeline_ok_def shape_def) (simp add: s' metrics_ok_def in_flight_def)
    moreover have "sending_ok (network r) f s'"
      using inv c Inl by (auto simp: rt_inv_def sending_ok_def s')
    ultimately show ?thesis using inv
      by (simp add: rt_inv_def) (simp add: s' inputs_ok_def readers_ok_def admitted_ok_def control_part_def)
  next
    case (Inr u)
    then have s': "s' = s\<lparr>rt_stage := SIdle\<rparr>" using g c by (simp add: stage_await_def)
    have "pipeline_ok (processing_env r) (length (fw_destinations f)) p s'"
      using inv sh Inr by (simp add: rt_inv_def pipeline_ok_def shape_def) (simp add: s' metrics_ok_def in_flight_def)
    moreover have "sending_ok (network r) f s'"
      using inv by (auto simp: rt_inv_def sending_ok_def s')
    ultimately show ?thesis using inv
      by (simp add: rt_inv_def) (simp add: s' inputs_ok_def readers_ok_def admitted_ok_def control_part_def)
  qed
qed

subsection \<open>Egress\<close>

lemma next_output_simps [simp]:
  "rt_inputs (next_output ms s) = rt_inputs s" "rt_readers (next_output ms s) = rt_readers s"
  "rt_queue (next_output ms s) = rt_queue s" "rt_stage (next_output ms s) = rt_stage s"
  "rt_processor (next_output ms s) = rt_processor s" "rt_egress_queue (next_output ms s) = rt_egress_queue s"
  "rt_forwarder (next_output ms s) = rt_forwarder s" "rt_control (next_output ms s) = rt_control s"
  "rt_failures (next_output ms s) = rt_failures s" "rt_admitted (next_output ms s) = rt_admitted s"
  "rt_sent (next_output ms s) = rt_sent s"
  by (simp_all add: next_output_def complete_with_def)

lemma next_output_egress:
  "rt_completion s = None \<Longrightarrow> rt_completion (next_output ms s) = (if ms = [] then Some (Inr ()) else None)"
  "rt_egress (next_output ms s) = (if ms = [] then EIdle else EBatch ms)"
  "rt_metrics (next_output ms s) = (if ms = [] then batch_completed (rt_metrics s) else rt_metrics s)"
  by (simp_all add: next_output_def complete_with_def)

lemma next_output_metrics:
  assumes "egress_wf (rt_metrics s)" and "eg_active_outputs (rt_metrics s) = 0" and "eg_active_batches (rt_metrics s) = 1"
    and "oq_wf (rt_egress_queue s)"
  shows "metrics_ok (next_output ms s)"
  using assms egress_counters_wf(4) [OF assms(1)]
  by (simp add: metrics_ok_def next_output_egress batch_completed_def)

lemma egress_get_ok:
  assumes inv: "rt_inv r P p f s" and st: "rt_egress s = EIdle" and g: "egress_get s = Some s'"
  shows "rt_inv r P p f s'"
proof -
  obtain b q where b: "oq_get (rt_egress_queue s) = Some (b, q)"
    and s': "s' = next_output b (s\<lparr>rt_egress_queue := q, rt_metrics := batch_started (rt_metrics s)\<rparr>)"
    using g by (auto simp: egress_get_def split: option.splits)
  have m: "oq_wf (rt_egress_queue s)" "egress_wf (rt_metrics s)" "eg_active_outputs (rt_metrics s) = 0"
    "eg_active_batches (rt_metrics s) = 0"
    using inv st by (simp_all add: rt_inv_def pipeline_ok_def metrics_ok_def)
  have q: "oq_wf q" "oq_items (rt_egress_queue s) = b # oq_items q" using oq_get_wf [OF b m(1)] by simp_all
  have sh: "rt_stage s = SAwaiting \<and> rt_completion s = None \<and> b \<noteq> [] \<and> oq_items q = []"
    using inv st q(2) by (auto simp: rt_inv_def pipeline_ok_def shape_def split: stage.splits option.splits sum.splits)
  then obtain m1 ms where b1: "b = m1 # ms" by (cases b) auto
  have s1: "s' = s\<lparr>rt_egress_queue := q, rt_metrics := batch_started (rt_metrics s), rt_egress := EBatch b\<rparr>"
    using sh by (simp add: s' next_output_def)
  have f: "in_flight s' = in_flight s" using st sh by (simp add: in_flight_def s1 q(2))
  have "metrics_ok s'"
    using m q(1) egress_counters_wf(2) [OF m(2)] by (simp add: metrics_ok_def s1 batch_started_def)
  then have "pipeline_ok (processing_env r) (length (fw_destinations f)) p s'"
    using inv sh f b1 by (simp add: rt_inv_def pipeline_ok_def shape_def) (simp add: s1)
  moreover have "sending_ok (network r) f s'"
    using inv sh by (auto simp: rt_inv_def sending_ok_def s1)
  ultimately show ?thesis using inv
    by (simp add: rt_inv_def) (simp add: s1 inputs_ok_def readers_ok_def admitted_ok_def control_part_def)
qed

lemma send_all_snoc: "send_all net (ms @ [m]) f = fst (send_output net m (send_all net ms f))"
  by (simp add: send_all_def)

lemma egress_output_ok:
  assumes inv: "rt_inv r P p f s" and st: "rt_egress s = EBatch (m # ms)"
  shows "rt_inv r P p f (egress_output r m ms s)"
proof -
  obtain f' x where send: "send_output (network r) m (rt_forwarder s) = (f', x)" by fastforce
  have fl: "in_flight s = m # ms @ concat (oq_items (rt_egress_queue s))" using st by (simp add: in_flight_def)
  have fw: "fw_wf (rt_forwarder s)" "fw_destinations (rt_forwarder s) = fw_destinations f"
    using inv by (auto simp: rt_inv_def sending_ok_def)
  have "targets_within (length (fw_destinations f)) (out_targets m)"
    using inv fl by (simp add: rt_inv_def pipeline_ok_def)
  with send_output_ok [OF send fw(1)] fw(2) have so: "fw_wf f'" "fw_destinations f' = fw_destinations f"
    "\<forall>e. x = Inl e \<longrightarrow> network_error (network r) e" by (simp_all add: fw_later_def)
  have fwd: "f' = send_all (network r) (rt_sent s @ [m]) f"
    using inv send by (simp add: rt_inv_def sending_ok_def send_all_snoc)
  have sh: "rt_stage s = SAwaiting \<and> rt_completion s = None \<and> oq_items (rt_egress_queue s) = []"
    using inv st by (auto simp: rt_inv_def pipeline_ok_def shape_def split: stage.splits option.splits sum.splits)
  have mt: "oq_wf (rt_egress_queue s)" "egress_wf (rt_metrics s)" "eg_active_outputs (rt_metrics s) = 0"
    "eg_active_batches (rt_metrics s) = 1"
    using inv st by (simp_all add: rt_inv_def pipeline_ok_def metrics_ok_def)
  define c1 where "c1 = output_started (rt_metrics s)"
  have c1: "egress_wf c1" "eg_active_outputs c1 = 1" "eg_active_batches c1 = 1"
    using egress_counters_wf(3) [OF mt(2)] mt by (simp_all add: c1_def output_started_def)
  obtain ws where ws: "rt_admitted s = ws @ wq_items (rt_queue s)"
    "process_all (processing_env r) p ws = (rt_sent s @ m # ms, rt_processor s)"
    using inv fl sh by (auto simp: rt_inv_def pipeline_ok_def)
  have tw: "\<forall>m \<in> set ms. targets_within (length (fw_destinations f)) (out_targets m)" and pin: "proc_inv (rt_processor s)"
    using inv fl by (simp_all add: rt_inv_def pipeline_ok_def)
  show ?thesis
  proof (cases x)
    case (Inr u)
    define s1 where "s1 = s\<lparr>rt_sent := rt_sent s @ [m], rt_forwarder := f', rt_metrics := output_completed c1\<rparr>"
    have s': "egress_output r m ms s = next_output ms s1"
      using send Inr by (simp add: egress_output_def s1_def Let_def c1_def)
    have "metrics_ok (next_output ms s1)"
      using c1 mt(1) egress_counters_wf(7) [OF c1(1)]
      by (intro next_output_metrics) (simp_all add: s1_def output_completed_def)
    moreover have "in_flight (next_output ms s1) = ms"
      using sh by (simp add: in_flight_def next_output_egress s1_def)
    moreover have "shape SAwaiting (rt_completion (next_output ms s1)) [] (rt_egress (next_output ms s1))"
      using sh by (cases ms) (simp_all add: shape_def next_output_egress s1_def)
    ultimately have "pipeline_ok (processing_env r) (length (fw_destinations f)) p (next_output ms s1)"
      using ws tw pin sh by (simp add: pipeline_ok_def) (simp add: s1_def)
    moreover have "sending_ok (network r) f (next_output ms s1)"
      using inv so fwd sh by (auto simp: rt_inv_def sending_ok_def next_output_egress s1_def split: if_splits)
    ultimately show ?thesis using inv unfolding s'
      by (simp add: rt_inv_def) (simp add: s1_def inputs_ok_def readers_ok_def admitted_ok_def control_part_def)
  next
    case (Inl e)
    define c2 where "c2 = (if e = CancelledError then batch_cancelled (output_cancelled c1) else batch_failed (output_failed c1))"
    have s': "egress_output r m ms s = s\<lparr>rt_sent := rt_sent s @ [m], rt_forwarder := f', rt_metrics := c2,
        rt_egress := EDead ms, rt_completion := Some (Inl e), rt_failures := rt_failures s @ [(EgressStage, e)]\<rparr>"
      using send Inl sh by (simp add: egress_output_def Let_def c1_def c2_def complete_with_def fail_def)
    have d: "egress_wf (output_cancelled c1)" "egress_wf (output_failed c1)"
      "eg_active_batches (output_cancelled c1) = 1" "eg_active_batches (output_failed c1) = 1"
      using c1 egress_counters_wf(8,9) [OF c1(1)] by (simp_all add: output_cancelled_def output_failed_def)
    have "egress_wf c2 \<and> eg_active_outputs c2 = 0 \<and> eg_active_batches c2 = 0"
      using egress_counters_wf(5) [OF d(2)] egress_counters_wf(6) [OF d(1)] d(3,4) c1(2)
      by (simp add: c2_def batch_cancelled_def batch_failed_def output_cancelled_def output_failed_def)
    then have "metrics_ok (egress_output r m ms s)" using mt(1) by (simp add: metrics_ok_def s')
    then have "pipeline_ok (processing_env r) (length (fw_destinations f)) p (egress_output r m ms s)"
      using ws tw pin sh by (simp add: pipeline_ok_def shape_def in_flight_def) (simp add: s')
    moreover have "sending_ok (network r) f (egress_output r m ms s)"
      using inv so fwd Inl by (auto simp: rt_inv_def sending_ok_def s')
    ultimately show ?thesis using inv
      by (simp add: rt_inv_def) (simp add: s' inputs_ok_def readers_ok_def admitted_ok_def control_part_def)
  qed
qed

lemma rt_reach_inv:
  assumes "rt_reach r clean_item p f c s" and su: "runtime_setup r p f c"
  shows "rt_inv r clean_item p f s"
  using assms(1)
proof (induction rule: rt_reach.induct)
  case (init inputs cap wq eq)
  then show ?case by (rule init_inv [OF su])
next
  case (step s s')
  have facts: "proc_inv p" "fw_wf f" "clean_generator (processing_env r)" "legacy_ids r = map int (all_target_ids f)"
    using runtime_setup_facts [OF su] su by (simp_all add: runtime_setup_def)
  have task: "rt_inv r clean_item p f s'" if "task_step r s s'"
    using that
  proof cases
    case (read i)
    show ?thesis by (rule reader_get_ok [OF step.IH facts(2,4) read(2-4)])
  next
    case (readmit i fr)
    show ?thesis by (rule reader_resume_ok [OF step.IH facts(2,4) readmit])
  next
    case take
    show ?thesis by (rule stage_get_ok [OF step.IH facts(3,1) take])
  next
    case (put outs)
    with step.IH show ?thesis by (simp add: rt_inv_def pipeline_ok_def shape_def)
  next
    case await
    show ?thesis by (rule stage_await_ok [OF step.IH await])
  next
    case fetch
    show ?thesis by (rule egress_get_ok [OF step.IH fetch])
  next
    case (dispatch m ms)
    show ?thesis unfolding dispatch(1) by (rule egress_output_ok [OF step.IH dispatch(2)])
  qed
  from step.hyps(2) show ?case
  proof cases
    case (arrive i it d q)
    show ?thesis unfolding arrive(1) using arrive_ok [OF step.IH arrive(2,3)] arrive(4) by blast
  next
    case (arrive_late i it d q)
    show ?thesis unfolding arrive_late(1) using arrive_ok [OF step.IH arrive_late(2,3)] arrive_late(5) by blast
  next
    case step
    then show ?thesis by (rule task)
  next
    case (replace cfg expected res c')
    show ?thesis unfolding replace(1) using control_step_ok [OF step.IH] replace(2) by blast
  next
    case (disable expected res c')
    show ?thesis unfolding disable(1) using control_step_ok [OF step.IH] disable(2) by blast
  qed
qed

subsection \<open>Draining\<close>

definition upstream :: "runtime \<Rightarrow> nat" where
  "upstream s = 3 * sum_list (map (\<lambda>q. length (oq_items q)) (rt_inputs s)) +
     2 * sum_list (map (\<lambda>x. case x of RWaiting _ \<Rightarrow> 1 | _ \<Rightarrow> 0) (rt_readers s)) + length (wq_items (rt_queue s))"

definition downstream :: "runtime \<Rightarrow> nat" where
  "downstream s =
     (case rt_stage s of SPutting outs \<Rightarrow> length outs + 5 | SAwaiting \<Rightarrow> 1 | _ \<Rightarrow> 0) +
     sum_list (map (\<lambda>b. length b + 2) (oq_items (rt_egress_queue s))) +
     (case rt_egress s of EBatch ms \<Rightarrow> length ms + 1 | _ \<Rightarrow> 0)"

lemma sum_list_replace:
  "i < length xs \<Longrightarrow> sum_list (map c (xs[i := x])) + c (xs ! i) = sum_list (map c xs) + (c x :: nat)"
  by (induction xs arbitrary: i) (auto split: nat.splits)

lemma wake_up_items [simp]: "wq_items (wake_up_next q) = wq_items q"
  by (simp add: wake_up_next_def split: option.splits)

lemma sem_release_items: "sem_release q = Inr q' \<Longrightarrow> wq_items q' = wq_items q"
  by (auto simp: sem_release_def split: if_splits)

lemma bind_and_put_items: "length (wq_items (snd (bind_and_put made q))) \<le> Suc (length (wq_items q))"
  by (auto simp: bind_and_put_def dest: sem_release_items split: sum.splits option.splits)

lemma bind_case_items:
  "(case bind_and_put made q of (r, q') \<Rightarrow> (Some r, q')) = (a, q') \<Longrightarrow>
     a \<noteq> None \<and> length (wq_items q') \<le> Suc (length (wq_items q))"
  using bind_and_put_items [of made q] by (auto simp: case_prod_beta)

lemma admit_items:
  "admit i made q = (a, q') \<Longrightarrow> length (wq_items q') \<le> length (wq_items q) + (if a = None then 0 else 1)"
  by (auto simp: admit_def split: if_splits dest: bind_case_items)

lemma admit_resume_items:
  assumes "admit_resume i made q = (Some r, q')"
  shows "length (wq_items q') \<le> Suc (length (wq_items q))"
proof -
  have "(i, True) \<in> set (wq_waiters q)" using assms by (auto simp: admit_resume_def split: if_splits)
  then show ?thesis using assms
    by (cases "0 < wq_value q") (auto simp: admit_resume_def Let_def dest!: bind_case_items)
qed

lemma after_admit_measure:
  assumes "i < length (rt_readers s)" and "length (wq_items q) \<le> length (wq_items (rt_queue s)) + (if a = None then 0 else 1)"
  shows "upstream (after_admit r i f (a, q) s) + (case rt_readers s ! i of RWaiting _ \<Rightarrow> 2 | _ \<Rightarrow> 0)
      \<le> upstream s + (if a = None then 2 else 1) \<and> downstream (after_admit r i f (a, q) s) = downstream s"
proof -
  define c :: "reader \<Rightarrow> nat" where "c x = (case x of RWaiting _ \<Rightarrow> 1 | _ \<Rightarrow> 0)" for x
  have u: "upstream s = 3 * sum_list (map (\<lambda>q. length (oq_items q)) (rt_inputs s)) +
      2 * sum_list (map c (rt_readers s)) + length (wq_items (rt_queue s))" for s
    by (simp add: upstream_def c_def [abs_def])
  have two: "(case x of RWaiting _ \<Rightarrow> 2 | _ \<Rightarrow> 0) = 2 * c x" for x by (simp add: c_def split: reader.splits)
  have r: "sum_list (map c ((rt_readers s)[i := x])) + c (rt_readers s ! i) = sum_list (map c (rt_readers s)) + c x" for x
    by (rule sum_list_replace [OF assms(1)])
  show ?thesis
  proof (cases a)
    case None
    then show ?thesis using assms(2) r [of "RWaiting f"]
      by (simp add: after_admit_def u two downstream_def) (simp add: c_def)
  next
    case (Some x)
    then show ?thesis using assms(2) r [of RDead] r [of RIdle]
      by (cases x) (simp_all add: after_admit_def u two downstream_def fail_def, simp_all add: c_def)
  qed
qed

lemma next_output_downstream:
  "downstream (next_output ms s) = (case rt_stage s of SPutting outs \<Rightarrow> length outs + 5 | SAwaiting \<Rightarrow> 1 | _ \<Rightarrow> 0) +
     sum_list (map (\<lambda>b. length b + 2) (oq_items (rt_egress_queue s))) + (if ms = [] then 0 else length ms + 1)"
  "upstream (next_output ms s) = upstream s"
  by (simp_all add: downstream_def upstream_def next_output_egress)

text \<open>Every step of a task takes work further down.\<close>

lemma task_step_measure:
  assumes "task_step r s s'"
  shows "upstream s' < upstream s \<or> upstream s' = upstream s \<and> downstream s' < downstream s"
  using assms
proof cases
  case (read i)
  obtain it q where q: "oq_get (rt_inputs s ! i) = Some (it, q)"
    using read by (auto simp: reader_get_def split: option.splits)
  define s1 where "s1 = s\<lparr>rt_inputs := (rt_inputs s)[i := q]\<rparr>"
  have "length (oq_items (rt_inputs s ! i)) = Suc (length (oq_items q))"
    using q by (auto simp: oq_get_def split: list.splits)
  with sum_list_replace [OF read(1), of "\<lambda>q. length (oq_items q)" q]
  have u: "upstream s1 + 3 = upstream s" by (simp add: upstream_def s1_def)
  show ?thesis
  proof (cases "coerce_ingress_frame it")
    case None
    then show ?thesis using read(4) q u by (simp add: reader_get_def s1_def Let_def)
  next
    case (Some f)
    obtain a q' where a: "admit i (made_item r f s1) (rt_queue s1) = (a, q')" by fastforce
    have "s' = after_admit r i f (a, q') s1" using read(4) q a Some by (simp add: reader_get_def s1_def Let_def)
    moreover have "i < length (rt_readers s1)" using read(2) by (simp add: s1_def)
    ultimately show ?thesis
      using after_admit_measure [of i s1 q' a r f] admit_items [OF a] u by (auto split: if_splits reader.splits)
  qed
next
  case (readmit i f)
  obtain x q where a: "admit_resume i (made_item r f s) (rt_queue s) = (Some x, q)"
    and s': "s' = after_admit r i f (Some x, q) s"
    using readmit(3) by (auto simp: reader_resume_def split: prod.splits option.splits)
  show ?thesis
    using after_admit_measure [OF readmit(1), of q "Some x" r f] admit_resume_items [OF a] readmit(2) s' by simp
next
  case take
  obtain x q where x: "wq_get (rt_queue s) = Some (x, q)"
    using take by (auto simp: stage_get_def split: option.splits)
  then have "length (wq_items (rt_queue s)) = Suc (length (wq_items q))"
    by (auto simp: wq_get_def Let_def dest: sem_release_items split: list.splits sum.splits)
  moreover have "rt_inputs s' = rt_inputs s \<and> rt_readers s' = rt_readers s \<and> rt_queue s' = q"
    using take(2) x by (auto simp: stage_get_def stage_put_def fail_def Let_def split: sum.splits prod.splits if_splits)
  ultimately show ?thesis by (simp add: upstream_def)
next
  case (put outs)
  obtain q where q: "oq_put_resume outs (rt_egress_queue s) = (True, q)"
    "s' = s\<lparr>rt_egress_queue := q, rt_stage := SAwaiting\<rparr>"
    using put(2) by (auto simp: stage_resume_def stage_put_def split: prod.splits bool.splits)
  then have "oq_items q = oq_items (rt_egress_queue s) @ [outs]"
    by (auto simp: oq_put_resume_def oq_put_nowait_def split: if_splits)
  then show ?thesis using put(1) q(2) by (simp add: upstream_def downstream_def)
next
  case await
  then show ?thesis
    by (auto simp: stage_await_def upstream_def downstream_def fail_def split: option.splits sum.splits)
next
  case fetch
  then show ?thesis
    by (auto simp: egress_get_def oq_get_def next_output_downstream split: option.splits list.splits)
      (auto simp: upstream_def downstream_def)
next
  case (dispatch m ms)
  obtain f x where x: "send_output (network r) m (rt_forwarder s) = (f, x)" by fastforce
  show ?thesis
  proof (cases x)
    case (Inl e)
    then show ?thesis using dispatch x
      by (simp add: egress_output_def Let_def complete_with_def fail_def upstream_def downstream_def)
  next
    case (Inr u)
    then show ?thesis using dispatch x
      by (simp add: egress_output_def Let_def next_output_downstream) (simp add: upstream_def downstream_def)
  qed
qed

lemma task_steps_terminate: "wf {(s', s). task_step r s s'}"
proof (rule wf_subset)
  show "wf (measures [upstream, downstream])" by simp
  show "{(s', s). task_step r s s'} \<subseteq> measures [upstream, downstream]"
    using task_step_measure by fastforce
qed

text \<open>A state from which no task can go on has no work left.\<close>

lemma quiescent:
  assumes inv: "rt_inv r P p f s" and stuck: "\<nexists>s'. task_step r s s'" and ok: "rt_failures s = []"
  shows "wq_items (rt_queue s) = [] \<and> in_flight s = [] \<and> rt_stage s = SIdle \<and>
    (\<forall>q \<in> set (rt_inputs s). oq_items q = [])"
proof -
  have sh: "shape (rt_stage s) (rt_completion s) (oq_items (rt_egress_queue s)) (rt_egress s)"
    and dead: "rt_stage s \<noteq> SDead" "\<forall>ms. rt_egress s \<noteq> EDead ms"
    using inv ok by (auto simp: rt_inv_def pipeline_ok_def sending_ok_def)
  have eg: False if "rt_egress s = EBatch (m # ms)" for m ms
    using stuck task_step.dispatch [OF that] by blast
  have ef: False if "rt_egress s = EIdle" "oq_items (rt_egress_queue s) = [b]" for b
    using stuck task_step.fetch [OF that(1)] that(2) by (auto simp: egress_get_def oq_get_def)
  have idle: "rt_stage s = SIdle"
  proof (cases "rt_stage s")
    case SAwaiting
    have False
    proof (cases "rt_completion s")
      case None
      then show False using sh SAwaiting eg ef by (auto simp: shape_def)
    next
      case (Some c)
      then show False using stuck task_step.await [OF SAwaiting, of _ r] by (cases c) (auto simp: stage_await_def)
    qed
    then show ?thesis ..
  qed (use sh dead in \<open>auto simp: shape_def\<close>)
  then have fl: "in_flight s = []" using sh by (simp add: shape_def in_flight_def)
  have wq: "wq_inv 0 (rt_queue s)" "wq_live (rt_queue s)"
    and wt: "set (map fst (wq_waiters (rt_queue s))) = waiting (rt_readers s)"
    and len: "length (rt_readers s) = length (rt_inputs s)" "\<forall>x \<in> set (rt_readers s). x \<noteq> RDead"
    using inv by (simp_all add: rt_inv_def readers_ok_def wq_wf_def)
  have items: "wq_items (rt_queue s) = []"
  proof (rule ccontr)
    assume "wq_items (rt_queue s) \<noteq> []"
    then obtain x q where "wq_get (rt_queue s) = Some (Inr x, q)"
      using wq_get_ok [OF wq] by (auto simp: wq_get_def split: list.splits option.splits)
    then have "\<exists>s'. stage_get r s = Some s'" by (simp add: stage_get_def)
    with stuck task_step.take [OF idle] show False by blast
  qed
  have none: "wq_waiters (rt_queue s) = []"
  proof (rule ccontr)
    assume ne: "wq_waiters (rt_queue s) \<noteq> []"
    have unserved: "\<not> snd w" if w: "w \<in> set (wq_waiters (rt_queue s))" for w
    proof
      assume "snd w"
      then obtain i where i: "(i, True) \<in> set (wq_waiters (rt_queue s))" using w by (cases w) auto
      then have "i \<in> waiting (rt_readers s)" using wt by force
      then obtain fr where fr: "i < length (rt_readers s)" "rt_readers s ! i = RWaiting fr" by (auto simp: waiting_def)
      obtain x q where "admit_resume i (made_item r fr s) (rt_queue s) = (Some x, q)"
        using admit_resume_runs [OF i] by blast
      then have "\<exists>s'. reader_resume r i fr s = Some s'" by (simp add: reader_resume_def)
      with stuck task_step.readmit [OF fr] show False by blast
    qed
    then have g: "granted (rt_queue s) = 0" by (simp add: filter_empty_conv)
    have "hd (wq_waiters (rt_queue s)) \<in> set (wq_waiters (rt_queue s))" using ne by simp
    then have "\<exists>w \<in> set (wq_waiters (rt_queue s)). \<not> snd w" using unserved by blast
    moreover have "0 < wq_value (rt_queue s)" using wq(1) g items by (simp add: wq_inv_def)
    ultimately show False using wq(2) g by (simp add: wq_live_def)
  qed
  have "oq_items q = []" if "q \<in> set (rt_inputs s)" for q
  proof (rule ccontr)
    assume ne: "oq_items q \<noteq> []"
    obtain i where i: "i < length (rt_inputs s)" "rt_inputs s ! i = q" using \<open>q \<in> _\<close> by (auto simp: in_set_conv_nth)
    have "i \<notin> waiting (rt_readers s)" using wt none by auto
    then have "rt_readers s ! i = RIdle"
      using i len nth_mem [of i "rt_readers s"] by (cases "rt_readers s ! i") (auto simp: waiting_def)
    moreover have "\<exists>s'. reader_get r i s = Some s'"
      using ne i by (cases "oq_items q") (auto simp: reader_get_def oq_get_def Let_def)
    ultimately show False using stuck task_step.read i len by (metis (no_types))
  qed
  with items fl idle show ?thesis by blast
qed

subsection \<open>Properties\<close>

text \<open>
  C3. The concurrent pipeline computes what a sequential program computes. In every state a
  runtime reaches, by any interleaving of its tasks with arriving items and routing updates, the
  admitted work items are those already processed followed by those queued; processing the
  former one after the other gives exactly the outputs that were sent, followed by those of the
  one batch in flight, and the present processor; and the forwarder is in the state that sending
  those outputs one by one leads to.
\<close>

theorem runtime_sequential:
  assumes "runtime_setup r p f c" and "rt_reach r clean_item p f c s"
  shows "\<exists>ws. rt_admitted s = ws @ wq_items (rt_queue s) \<and>
      process_all (processing_env r) p ws = (rt_sent s @ in_flight s, rt_processor s) \<and>
      rt_forwarder s = send_all (network r) (rt_sent s) f \<and>
      length (oq_items (rt_egress_queue s)) \<le> 1"
proof -
  have inv: "rt_inv r clean_item p f s" by (rule rt_reach_inv [OF assms(2,1)])
  then have "length (oq_items (rt_egress_queue s)) \<le> 1"
    by (auto simp: rt_inv_def pipeline_ok_def shape_def split: stage.splits option.splits sum.splits)
  with inv show ?thesis by (auto simp: rt_inv_def pipeline_ok_def sending_ok_def)
qed

text \<open>
  Frames are routed by the table in force when they are admitted. The generations bound to
  the admitted work items never decrease and never exceed the current one, and every target a
  work item or an output in flight names is a configured target of the forwarder.
\<close>

theorem admitted_generations_monotone:
  assumes "runtime_setup r p f c" and "rt_reach r clean_item p f c s"
  shows "sorted (generations (rt_admitted s)) \<and>
    (\<forall>g \<in> set (generations (rt_admitted s)). g \<le> generation (routing_state (rt_control s))) \<and>
    (\<forall>w \<in> set (rt_admitted s). targets_within (length (fw_destinations f)) (target_ids (wi_snapshot w))) \<and>
    (\<forall>m \<in> set (in_flight s). targets_within (length (fw_destinations f)) (out_targets m))"
  using rt_reach_inv [OF assms(2,1)]
  by (auto simp: rt_inv_def admitted_ok_def pipeline_ok_def item_ok_def list_all_iff)

text \<open>
  C5. Only the network can stop the pipeline. Whatever clean items arrive and whatever routing
  updates are requested, a task of the runtime fails only with what opening an endpoint or
  sending a datagram answered: no admission, no processing step and no check of the forwarder
  ever raises.
\<close>

theorem runtime_fails_by_network_only:
  assumes "runtime_setup r p f c" and "rt_reach r clean_item p f c s"
  shows "list_all (\<lambda>(t, e). network_error (network r) e \<and> (t = EgressStage \<or> t = ProcessorStage)) (rt_failures s)"
  using rt_reach_inv [OF assms(2,1)] by (auto simp: rt_inv_def sending_ok_def list_all_iff)

text \<open>
  C4. Without new arrivals the pipeline drains. From every reachable state, the steps of the
  tasks alone cannot go on for ever; and when none is possible and no task has failed, every
  input queue is empty, every admitted frame has been processed and every output has been sent.
\<close>

theorem runtime_drains:
  assumes "runtime_setup r p f c" and "rt_reach r clean_item p f c s"
  shows "wf {(s', s). task_step r s s'} \<and>
    ((\<nexists>s'. task_step r s s') \<and> rt_failures s = [] \<longrightarrow>
       (\<forall>q \<in> set (rt_inputs s). oq_items q = []) \<and>
       process_all (processing_env r) p (rt_admitted s) = (rt_sent s, rt_processor s) \<and>
       rt_forwarder s = send_all (network r) (rt_sent s) f)"
proof -
  have inv: "rt_inv r clean_item p f s" by (rule rt_reach_inv [OF assms(2,1)])
  then obtain ws where ws: "rt_admitted s = ws @ wq_items (rt_queue s)"
    "process_all (processing_env r) p ws = (rt_sent s @ in_flight s, rt_processor s)"
    "rt_forwarder s = send_all (network r) (rt_sent s) f"
    by (auto simp: rt_inv_def pipeline_ok_def sending_ok_def)
  show ?thesis using task_steps_terminate quiescent [OF inv] ws by auto
qed

subsection \<open>Statistics\<close>

interpretation dataplane: metrics_source counters_ok metrics_snapshot
proof
  fix p :: processor
  assume "counters_ok p"
  then show "\<exists>m. metrics_snapshot p = Inr m"
    unfolding metrics_snapshot_def counters_ok_def by (intro processor_snapshot_ok) auto
qed

interpretation traffic: metrics_source fw_wf traffic_snapshots
  by unfold_locales (blast intro: traffic_snapshots_value)

lemma process_all_counters: "counters_ok p \<Longrightarrow> counters_ok (snd (process_all env p ws))"
proof (induction ws arbitrary: p)
  case (Cons w ws)
  obtain r q where r: "process env (wi_frame w) (wi_snapshot w) p = (r, q)" by fastforce
  have "counters_ok q" using process_counters [OF Cons.prems, of env "wi_frame w" "wi_snapshot w"] r by simp
  from Cons.IH [OF this] r \<open>counters_ok q\<close> show ?case
    by (cases r) (auto simp: case_prod_beta)
qed simp

lemma rmap_suspended: "rmap (\<lambda>s. s ()) (map (\<lambda>q _. g q) qs) = rmap g qs"
  by (induction qs) simp_all


subsection \<open>An example\<close>

text \<open>One input, the forwarder of two targets, no routing: an item arrives and is read.\<close>

definition example_rt_env :: rt_env where
  "example_rt_env = \<lparr>processing_env = example_env, network = example_net, legacy_ids = [0, 1]\<rparr>"

definition example_control :: control_service where
  "example_control = \<lparr>routing_state = \<lparr>generation = 0, table = None\<rparr>, target_id_by_name = [(lit ''udp:x'', 0)]\<rparr>"

definition example_queue :: "pystr \<Rightarrow> nat \<Rightarrow> 'a observed_queue" where
  "example_queue n cap = \<lparr>oq_name = n, oq_capacity = cap, oq_items = [], oq_peak = 0, oq_enqueued = 0,
     oq_dequeued = 0, oq_put_waits = 0, oq_put_waiters = 0\<rparr>"

definition example_work_queue :: "work_item work_queue" where
  "example_work_queue = \<lparr>wq_maxsize = 4, wq_value = 4, wq_waiters = [], wq_items = [], wq_peak = 0,
     wq_enqueued = 0, wq_dequeued = 0, wq_put_waits = 0, wq_put_waiters = 0\<rparr>"

definition example_runtime :: runtime where
  "example_runtime = runtime_init [example_queue [117] 2] example_work_queue (example_queue (lit ''egress'') 1)
     example_processor example_forwarder example_control"

lemma example_setup: "runtime_setup example_rt_env example_processor example_forwarder example_control"
proof -
  have "control_reach example_control"
  proof (rule control_reach.init [of "PDict [(PStr (lit ''udp:x''), PInt 0)]" "[]" None "\<lparr>generation = 0, table = None\<rparr>"])
    show "control_service_init \<lparr>generation = 0, table = None\<rparr> (PDict [(PStr (lit ''udp:x''), PInt 0)]) = Inr example_control"
      by (simp add: control_service_init_def freeze_target_id_by_name_def example_control_def lit_def)
    show "load_optional_routing_table [] (PDict [(PStr (lit ''udp:x''), PInt 0)]) = Inr None"
      by (simp add: load_optional_routing_table_def freeze_target_id_by_name_def lit_def)
  qed (simp_all add: routing_state_init_def)
  then show ?thesis
    using example_processor_reach example_env_clean example_forwarder_init
    by (auto simp: runtime_setup_def example_rt_env_def example_control_def example_forwarder_def all_target_ids_def)
qed

lemma example_start: "rt_reach example_rt_env clean_item example_processor example_forwarder example_control example_runtime"
  unfolding example_runtime_def
proof (rule rt_reach.init)
  have "observed_queue_init (PStr [117]) (PInt 2) = Inr (example_queue [117] 2)"
    by (simp add: observed_queue_init_def queue_snapshot_def example_queue_def)
  then show "list_all (\<lambda>q. \<exists>name cap. observed_queue_init name cap = Inr q) [example_queue [117] 2]" by auto
  show "work_queue_init (PInt 4) = Inr example_work_queue"
    by (simp add: work_queue_init_def example_work_queue_def)
  show "observed_queue_init (PStr (lit ''egress'')) (PInt 1) = Inr (example_queue (lit ''egress'') 1)"
    by (simp add: observed_queue_init_def queue_snapshot_def example_queue_def lit_def)
qed

definition example_frame :: frame where
  "example_frame = \<lparr>fr_kind = lit ''udp'', fr_source_id = lit ''udp:a'', alias_for_s = None, remote_ip = None,
     assembler_key = [1], payload = [], text_mode = UTF8_IGNORE\<rparr>"

definition example_item :: work_item where
  "example_item = \<lparr>wi_frame = example_frame,
     wi_snapshot = \<lparr>routing_generation = 0, mode = GLOBAL, target_ids = [0, 1]\<rparr>\<rparr>"

text \<open>The state after the frame has arrived and its reader has admitted it.\<close>

definition example_admitted :: runtime where
  "example_admitted = example_runtime
     \<lparr>rt_inputs := [(example_queue [117] 2)\<lparr>oq_peak := 1, oq_enqueued := 1, oq_dequeued := 1\<rparr>],
      rt_queue := example_work_queue\<lparr>wq_value := 3, wq_items := [example_item], wq_peak := 1, wq_enqueued := 1\<rparr>,
      rt_admitted := [example_item]\<rparr>"

lemma example_admitted_reach:
  "rt_reach example_rt_env clean_item example_processor example_forwarder example_control example_admitted"
proof -
  define q1 :: "ingress_item observed_queue"
    where "q1 = (example_queue [117] 2)\<lparr>oq_items := [FrameItem example_frame], oq_peak := 1, oq_enqueued := 1\<rparr>"
  define s1 where "s1 = example_runtime\<lparr>rt_inputs := [q1]\<rparr>"
  have "oq_put (FrameItem example_frame) (rt_inputs example_runtime ! 0) = (True, q1)"
    by (simp add: oq_put_def oq_put_nowait_def oq_full_def example_runtime_def runtime_init_def example_queue_def q1_def)
  moreover have "clean_item (FrameItem example_frame)"
    by (simp add: clean_item_def clean_frame_def example_frame_def)
  ultimately have "rt_step example_rt_env clean_item example_runtime
      (example_runtime\<lparr>rt_inputs := (rt_inputs example_runtime)[0 := q1]\<rparr>)"
    by (intro rt_step.arrive) (simp_all add: example_runtime_def runtime_init_def)
  moreover have "example_runtime\<lparr>rt_inputs := (rt_inputs example_runtime)[0 := q1]\<rparr> = s1"
    by (simp add: s1_def example_runtime_def runtime_init_def)
  ultimately have 1: "rt_reach example_rt_env clean_item example_processor example_forwarder example_control s1"
    using rt_reach.step [OF example_start] by simp
  have made: "made_item example_rt_env example_frame s = Inr (Some example_item)"
    if "rt_control s = example_control" for s
    using that by (simp add: made_item_def bind_processing_work_item_def example_control_def example_rt_env_def
        processing_snapshot_def example_item_def)
  have "reader_get example_rt_env 0 s1 = Some example_admitted"
    by (simp add: reader_get_def s1_def q1_def example_queue_def oq_get_def Let_def made after_admit_def admit_def
        sem_locked_def bind_and_put_def example_runtime_def runtime_init_def example_admitted_def example_work_queue_def)
  then have "task_step example_rt_env s1 example_admitted"
    by (intro task_step.read [of 0]) (simp_all add: s1_def example_runtime_def runtime_init_def)
  then show ?thesis by (intro rt_reach.step [OF 1] rt_step.step)
qed

lemma runtime_sequential_witness:
  "\<exists>ws. rt_admitted example_admitted = ws @ wq_items (rt_queue example_admitted) \<and>
     process_all example_env example_processor ws =
       (rt_sent example_admitted @ in_flight example_admitted, rt_processor example_admitted)"
  using runtime_sequential [OF example_setup example_admitted_reach] by (auto simp: example_rt_env_def)

lemma admitted_generations_monotone_witness:
  "sorted (generations (rt_admitted example_admitted)) \<and> rt_admitted example_admitted = [example_item]"
  using admitted_generations_monotone [OF example_setup example_admitted_reach]
  by (simp add: example_admitted_def)

lemma runtime_drains_witness: "wf {(s', s). task_step example_rt_env s s'}"
  using runtime_drains [OF example_setup example_admitted_reach] by blast


lemma runtime_fails_by_network_only_witness:
  "rt_admitted example_admitted \<noteq> [] \<and>
   list_all (\<lambda>(t, e). network_error example_net e \<and> (t = EgressStage \<or> t = ProcessorStage))
     (rt_failures example_admitted)"
  using runtime_fails_by_network_only [OF example_setup example_admitted_reach]
  by (simp add: example_rt_env_def example_admitted_def)

end
