(* ===== verification/RuntimeControl.thy ===== *)
theory RuntimeControl
  imports PyText
begin

section \<open>Settings of the control socket (\<open>core/runtime_control.py\<close>)\<close>

text \<open>
  The strict optional \<open>control.unix\<close> section of the configuration. What is shown: the server is
  off unless \<open>enabled\<close> is true, every malformed section is refused with the documented error and
  no other, and settings that are accepted have a path, a positive limit and permission bits.
\<close>

record unix_settings =
  us_socket_path :: pystr
  us_max_request_bytes :: int
  us_socket_mode :: int

definition default_max_request_bytes :: int where
  "default_max_request_bytes = 1048576"

definition default_socket_mode :: int where
  "default_socket_mode = 432"

definition conf_get :: "(pyval \<times> pyval) list \<Rightarrow> string \<Rightarrow> pyval option" where
  "conf_get d k = map_of d (PStr (lit k))"

definition reject_unknown_fields :: "(pyval \<times> pyval) list \<Rightarrow> string list \<Rightarrow> unit res" where
  "reject_unknown_fields d allowed =
     (if list_all (\<lambda>k. k \<in> set (map (\<lambda>f. PStr (lit f)) allowed)) (keys d) then Inr ()
      else Inl RuntimeControlConfigError)"

definition load_socket_path :: "(pyval \<times> pyval) list \<Rightarrow> pystr res" where
  "load_socket_path d =
     (case conf_get d ''socket_path'' of
        Some (PStr s) \<Rightarrow> if s = [] then Inl RuntimeControlConfigError else Inr s
      | _ \<Rightarrow> Inl RuntimeControlConfigError)"

definition load_max_request_bytes :: "(pyval \<times> pyval) list \<Rightarrow> int res" where
  "load_max_request_bytes d =
     (case conf_get d ''max_request_bytes'' of
        None \<Rightarrow> Inr default_max_request_bytes
      | Some (PInt i) \<Rightarrow> if i \<le> 0 then Inl RuntimeControlConfigError else Inr i
      | _ \<Rightarrow> Inl RuntimeControlConfigError)"

text \<open>\<open>_OCTAL_MODE_RE.fullmatch\<close> and \<open>int(s, 8)\<close>\<close>

definition octal_mode :: "pystr \<Rightarrow> int option" where
  "octal_mode s =
     (if (length s = 3 \<or> length s = 4) \<and> list_all (\<lambda>c. 48 \<le> c \<and> c \<le> 55) s
      then Some (foldl (\<lambda>n c. n * 8 + (int c - 48)) 0 s) else None)"

definition load_socket_mode :: "(pyval \<times> pyval) list \<Rightarrow> int res" where
  "load_socket_mode d =
     (case conf_get d ''socket_mode'' of
        None \<Rightarrow> Inr default_socket_mode
      | Some v \<Rightarrow>
          (case (case v of PInt i \<Rightarrow> Some i | PStr s \<Rightarrow> octal_mode s | _ \<Rightarrow> None) of
             None \<Rightarrow> Inl RuntimeControlConfigError
           | Some m \<Rightarrow> if m < 0 \<or> 511 < m then Inl RuntimeControlConfigError else Inr m))"

definition load_unix_section :: "(pyval \<times> pyval) list \<Rightarrow> unix_settings option res" where
  "load_unix_section unix =
     rbind (reject_unknown_fields unix [''enabled'', ''socket_path'', ''socket_mode'', ''max_request_bytes'']) (\<lambda>_.
     case conf_get unix ''enabled'' of
       Some (PBool False) \<Rightarrow> Inr None
     | Some (PBool True) \<Rightarrow>
         rbind (load_socket_path unix) (\<lambda>path.
         rbind (load_max_request_bytes unix) (\<lambda>limit.
         rbind (load_socket_mode unix) (\<lambda>md.
           Inr (Some \<lparr>us_socket_path = path, us_max_request_bytes = limit, us_socket_mode = md\<rparr>))))
     | _ \<Rightarrow> Inl RuntimeControlConfigError)"

definition load_optional_unix_settings :: "pyval \<Rightarrow> unix_settings option res" where
  "load_optional_unix_settings config =
     (case config of
        PDict d \<Rightarrow>
          (case conf_get d ''control'' of
             None \<Rightarrow> Inr None
           | Some PNone \<Rightarrow> Inr None
           | Some (PDict control) \<Rightarrow>
               rbind (reject_unknown_fields control [''unix'']) (\<lambda>_.
               case conf_get control ''unix'' of
                 None \<Rightarrow> Inr None
               | Some PNone \<Rightarrow> Inr None
               | Some (PDict unix) \<Rightarrow> load_unix_section unix
               | _ \<Rightarrow> Inl RuntimeControlConfigError)
           | _ \<Rightarrow> Inl RuntimeControlConfigError)
      | _ \<Rightarrow> Inl RuntimeControlConfigError)"

text \<open>
  \<open>build_optional_routing_control_server\<close>: the server is described by its settings; the
  factories of service, protocol and server, which may raise, are arguments.
\<close>

definition build_optional_server ::
  "pyval \<Rightarrow> 'p option \<Rightarrow> 'service res \<Rightarrow> ('service \<Rightarrow> 'p \<Rightarrow> 'protocol res)
     \<Rightarrow> ('protocol \<Rightarrow> unix_settings \<Rightarrow> 'server res) \<Rightarrow> 'server option res" where
  "build_optional_server config provider make_service make_protocol make_server =
     rbind (load_optional_unix_settings config) (\<lambda>st.
     case st of
       None \<Rightarrow> Inr None
     | Some settings \<Rightarrow>
         (case provider of
            None \<Rightarrow> Inl TypeError
          | Some p \<Rightarrow>
              rbind make_service (\<lambda>service.
              rbind (make_protocol service p) (\<lambda>protocol.
              rbind (make_server protocol settings) (\<lambda>server. Inr (Some server))))))"

subsection \<open>Properties\<close>

text \<open>
  C38. The control socket is strictly opt-in. Loading returns settings only when the section
  \<open>control.unix\<close> is there and its \<open>enabled\<close> is the boolean true, and then with a non-empty path, a
  positive limit and a mode of at most nine bits; it never raises anything but
  \<open>RuntimeControlConfigError\<close>.
\<close>

theorem control_settings_strict:
  "case load_optional_unix_settings config of
     Inl e \<Rightarrow> e = RuntimeControlConfigError
   | Inr None \<Rightarrow> True
   | Inr (Some st) \<Rightarrow> us_socket_path st \<noteq> [] \<and> 0 < us_max_request_bytes st \<and>
       0 \<le> us_socket_mode st \<and> us_socket_mode st \<le> 511 \<and>
       (\<exists>d control unix. config = PDict d \<and> conf_get d ''control'' = Some (PDict control) \<and>
          conf_get control ''unix'' = Some (PDict unix) \<and> conf_get unix ''enabled'' = Some (PBool True))"
proof -
  have path: "case load_socket_path d of Inl e \<Rightarrow> e = RuntimeControlConfigError | Inr s \<Rightarrow> s \<noteq> []" for d
    by (simp add: load_socket_path_def split: option.splits pyval.splits)
  have limit: "case load_max_request_bytes d of Inl e \<Rightarrow> e = RuntimeControlConfigError | Inr i \<Rightarrow> 0 < i" for d
    by (simp add: load_max_request_bytes_def default_max_request_bytes_def split: option.splits pyval.splits)
  have bits: "case load_socket_mode d of Inl e \<Rightarrow> e = RuntimeControlConfigError | Inr i \<Rightarrow> 0 \<le> i \<and> i \<le> 511" for d
    by (simp add: load_socket_mode_def default_socket_mode_def split: option.splits)
  have unix: "case load_unix_section d of
      Inl e \<Rightarrow> e = RuntimeControlConfigError
    | Inr None \<Rightarrow> True
    | Inr (Some st) \<Rightarrow> us_socket_path st \<noteq> [] \<and> 0 < us_max_request_bytes st \<and>
        0 \<le> us_socket_mode st \<and> us_socket_mode st \<le> 511 \<and> conf_get d ''enabled'' = Some (PBool True)" for d
    using path [of d] limit [of d] bits [of d]
    by (auto simp: load_unix_section_def reject_unknown_fields_def rbind_Inl_iff
        split: option.splits pyval.splits bool.splits sum.splits)
  show ?thesis
  proof (cases "\<exists>d control unix. config = PDict d \<and> conf_get d ''control'' = Some (PDict control) \<and>
      conf_get control ''unix'' = Some (PDict unix)")
    case True
    then obtain d control u where c: "config = PDict d" "conf_get d ''control'' = Some (PDict control)"
      "conf_get control ''unix'' = Some (PDict u)" by blast
    then show ?thesis using unix [of u]
      by (auto simp: load_optional_unix_settings_def reject_unknown_fields_def split: sum.splits option.splits)
  next
    case False
    then show ?thesis
      by (auto simp: load_optional_unix_settings_def reject_unknown_fields_def split: pyval.splits option.splits)
  qed
qed

end
