(* ===== verification/SproxyInput.thy ===== *)
theory SproxyInput
  imports NetworkPolicy SecureState
begin

section \<open>Local inputs of the proxy (\<open>nmea_sproxy/input_adapters.py\<close>)\<close>

text \<open>
  The configuration of the local input, the framing of a serial line, and the two adapters.
  The serial adapter runs a reader thread beside the thread that forwards; every operation of
  \<open>queue.Queue\<close> is atomic, so a run is an interleaving of such operations. What is shown: the
  framer computes, however the bytes are cut into chunks, the lines of the stream that fit the
  limit, and its buffer never exceeds the limit; every line the reader produced is read once,
  or dropped, or still queued, and in order; a line is dropped only after the queue was full.
\<close>

subsection \<open>Configuration values\<close>

definition field_of :: "(pyval \<times> pyval) list \<Rightarrow> string \<Rightarrow> pyval option" where
  "field_of d k = map_of d (PStr (lit k))"

definition explicit_value :: "(pyval \<times> pyval) list \<Rightarrow> string \<Rightarrow> pyval option \<Rightarrow> pyval res" where
  "explicit_value d k fallback =
     (case field_of d k of
        None \<Rightarrow> (case fallback of None \<Rightarrow> Inl InputConfigError | Some v \<Rightarrow> Inr v)
      | Some v \<Rightarrow> if v = PNone then Inl InputConfigError else Inr v)"

fun positive_int :: "pyval \<Rightarrow> int res" where
  "positive_int (PInt i) = (if i \<le> 0 then Inl InputConfigError else Inr i)"
| "positive_int _ = Inl InputConfigError"

text \<open>\<open>float(v)\<close> of an int or a float, in ticks; an int beyond the largest float overflows.\<close>

fun number_of :: "pyval \<Rightarrow> time res option" where
  "number_of (PInt i) =
     Some (if 2 ^ 1024 - 2 ^ 970 \<le> \<bar>i\<bar> then Inl OverflowError else Inr (i * ticks_per_second))"
| "number_of (PFloat f) = Some (Inr f)"
| "number_of _ = None"

definition positive_float :: "pyval \<Rightarrow> time res" where
  "positive_float v =
     (case number_of v of
        None \<Rightarrow> Inl InputConfigError
      | Some r \<Rightarrow> rbind r (\<lambda>f. if f \<le> 0 then Inl InputConfigError else Inr f))"

definition byte_size :: "pyval \<Rightarrow> int res" where
  "byte_size v = rbind (positive_int v) (\<lambda>i. if i \<notin> {5, 6, 7, 8} then Inl InputConfigError else Inr i)"

text \<open>
  \<open>s.upper()\<close> where it can be one of the supported letters: case mapping never shortens a text,
  and the one letter beyond ASCII whose capital is an ASCII one of these is the long s.
\<close>

definition upper_letter :: "nat \<Rightarrow> nat" where
  "upper_letter c = (if 97 \<le> c \<and> c \<le> 122 then c - 32 else if c = 0x17F then 83 else c)"

definition parity :: "pyval \<Rightarrow> pystr res" where
  "parity v =
     (case v of
        PStr s \<Rightarrow>
          (let n = map upper_letter (strip s)
           in if n \<in> set (map lit [''N'', ''E'', ''O'', ''M'', ''S'']) then Inr n else Inl InputConfigError)
      | _ \<Rightarrow> Inl InputConfigError)"

definition stop_bits :: "pyval \<Rightarrow> pyval res" where
  "stop_bits v =
     (case number_of v of
        None \<Rightarrow> Inl InputConfigError
      | Some r \<Rightarrow> rbind r (\<lambda>f.
          if f = ticks_per_second then Inr (PInt 1)
          else if f = 2 * ticks_per_second then Inr (PInt 2)
          else if 2 * f = 3 * ticks_per_second then Inr (PFloat f)
          else Inl InputConfigError))"

text \<open>\<open>sorted\<close> of a set of keys: keys of types that do not compare raise TypeError.\<close>

fun comparison_class :: "pyval \<Rightarrow> nat option" where
  "comparison_class (PBool _) = Some 0"
| "comparison_class (PInt _) = Some 0"
| "comparison_class (PFloat _) = Some 0"
| "comparison_class (PStr _) = Some 1"
| "comparison_class (PBytes _) = Some 2"
| "comparison_class _ = None"

definition sortable :: "pyval list \<Rightarrow> bool" where
  "sortable ks \<longleftrightarrow> length ks \<le> 1 \<or>
     (\<exists>c \<in> {0, 1, 2}. list_all (\<lambda>k. comparison_class k = Some c) ks)"

definition refuse_unknown :: "py_error \<Rightarrow> (pyval \<times> pyval) list \<Rightarrow> string list \<Rightarrow> unit res" where
  "refuse_unknown e d allowed =
     (let unknown = filter (\<lambda>k. k \<notin> set (map (\<lambda>f. PStr (lit f)) allowed)) (keys d)
      in if \<not> sortable unknown then Inl TypeError
         else if unknown \<noteq> [] then Inl e else Inr ())"

record serial_settings =
  ss_port :: pystr
  ss_baudrate :: int
  ss_bytesize :: int
  ss_parity :: pystr
  ss_stopbits :: pyval
  ss_read_timeout :: time
  ss_reconnect_delay :: time
  ss_max_line_bytes :: int

fun port_text :: "pyval \<Rightarrow> pystr res" where
  "port_text (PStr s) = (if strip s = [] then Inl InputConfigError else Inr s)"
| "port_text _ = Inl InputConfigError"

definition validate_serial_input_config :: "pyval \<Rightarrow> serial_settings res" where
  "validate_serial_input_config raw =
     (case raw of
        PDict d \<Rightarrow>
          rbind (refuse_unknown InputConfigError d [''baudrate'', ''bytesize'', ''parity'', ''stopbits'',
                   ''read_timeout'', ''reconnect_delay'', ''max_line_bytes'', ''type'', ''port'']) (\<lambda>_.
          rbind (rbind (explicit_value d ''port'' None) port_text) (\<lambda>p.
          rbind (rbind (explicit_value d ''baudrate'' (Some (PInt 38400))) positive_int) (\<lambda>baud.
          rbind (rbind (explicit_value d ''max_line_bytes'' (Some (PInt 4096))) positive_int) (\<lambda>limit.
          rbind (rbind (explicit_value d ''bytesize'' (Some (PInt 8))) byte_size) (\<lambda>size.
          rbind (rbind (explicit_value d ''parity'' (Some (PStr (lit ''N'')))) parity) (\<lambda>par.
          rbind (rbind (explicit_value d ''stopbits'' (Some (PInt 1))) stop_bits) (\<lambda>stop.
          rbind (rbind (explicit_value d ''read_timeout'' (Some (PFloat ticks_per_second))) positive_float) (\<lambda>timeout.
          rbind (rbind (explicit_value d ''reconnect_delay'' (Some (PInt 5))) positive_float) (\<lambda>delay.
            Inr \<lparr>ss_port = p, ss_baudrate = baud, ss_bytesize = size, ss_parity = par, ss_stopbits = stop,
                 ss_read_timeout = timeout, ss_reconnect_delay = delay, ss_max_line_bytes = limit\<rparr>)))))))))
      | _ \<Rightarrow> Inl InputConfigError)"

text \<open>
  \<open>s.lower() == "serial"\<close>: no letter beyond ASCII has one of these letters as its lower case.
\<close>

definition lower_letter :: "nat \<Rightarrow> nat" where
  "lower_letter c = (if 65 \<le> c \<and> c \<le> 90 then c + 32 else c)"

datatype input_config = UdpInput | SerialInput serial_settings

definition normalize_local_input_config :: "(pyval \<times> pyval) list \<Rightarrow> input_config res" where
  "normalize_local_input_config config =
     (case field_of config ''input'' of
        None \<Rightarrow> Inr UdpInput
      | Some (PDict d) \<Rightarrow>
          rbind (explicit_value d ''type'' None) (\<lambda>t.
            (case t of
               PStr s \<Rightarrow>
                 if map lower_letter (strip s) \<noteq> lit ''serial'' then Inl InputConfigError
                 else if field_of config ''allow_from'' \<noteq> None then Inl InputConfigError
                 else rbind (validate_serial_input_config (PDict d)) (\<lambda>s. Inr (SerialInput s))
             | _ \<Rightarrow> Inl InputConfigError))
      | _ \<Rightarrow> Inl InputConfigError)"

subsection \<open>The line framer\<close>

record framer =
  fr_max :: nat
  fr_buffer :: bytes
  fr_discarding :: bool
  fr_cr :: bool

abbreviation CR :: char where "CR \<equiv> CHR 0x0D"
abbreviation LF :: char where "LF \<equiv> CHR 0x0A"

definition framer_init :: "pyval \<Rightarrow> framer res" where
  "framer_init limit =
     rbind (positive_int limit) (\<lambda>n.
       Inr \<lparr>fr_max = nat n, fr_buffer = [], fr_discarding = False, fr_cr = False\<rparr>)"

definition framer_reset :: "framer \<Rightarrow> framer" where
  "framer_reset f = f\<lparr>fr_buffer := [], fr_discarding := False, fr_cr := False\<rparr>"

definition finish_line :: "framer \<Rightarrow> bytes option \<times> framer" where
  "finish_line f =
     (if fr_discarding f then (None, f\<lparr>fr_buffer := [], fr_discarding := False\<rparr>)
      else (Some (fr_buffer f), f\<lparr>fr_buffer := []\<rparr>))"

text \<open>One byte: the line it ends, how many lines turn out overlong, and the next state.\<close>

definition frame_byte :: "char \<Rightarrow> framer \<Rightarrow> bytes list \<times> nat \<times> framer" where
  "frame_byte b f =
     (let f1 = f\<lparr>fr_cr := False\<rparr>
      in if fr_cr f \<and> b = LF then ([], 0, f1)
         else if b = CR then
           (case finish_line f1 of (l, f2) \<Rightarrow>
              ((case l of None \<Rightarrow> [] | Some l \<Rightarrow> [l]), 0, f2\<lparr>fr_cr := True\<rparr>))
         else if b = LF then
           (case finish_line f1 of (l, f2) \<Rightarrow> ((case l of None \<Rightarrow> [] | Some l \<Rightarrow> [l]), 0, f2))
         else if fr_discarding f1 then ([], 0, f1)
         else if fr_max f1 \<le> length (fr_buffer f1) then
           ([], 1, f1\<lparr>fr_buffer := [], fr_discarding := True\<rparr>)
         else ([], 0, f1\<lparr>fr_buffer := fr_buffer f1 @ [b]\<rparr>))"

fun framer_feed :: "bytes \<Rightarrow> framer \<Rightarrow> bytes list \<times> nat \<times> framer" where
  "framer_feed [] f = ([], 0, f)"
| "framer_feed (b # bs) f =
     (case frame_byte b f of (ls, n, f1) \<Rightarrow>
        (case framer_feed bs f1 of (ls', n', f2) \<Rightarrow> (ls @ ls', n + n', f2)))"

text \<open>
  The reference: a line ends with CR LF, CR or LF; the unterminated rest is not a line; lines
  over the limit are left out, and counted as soon as they are over it.
\<close>

fun unix_newlines :: "bytes \<Rightarrow> bytes" where
  "unix_newlines [] = []"
| "unix_newlines [b] = [if b = CR then LF else b]"
| "unix_newlines (b # c # cs) =
     (if b = CR then LF # (if c = LF then unix_newlines cs else unix_newlines (c # cs))
      else b # unix_newlines (c # cs))"

definition pieces :: "bytes \<Rightarrow> bytes list" where
  "pieces stream = split_on LF (unix_newlines stream)"

definition lines_within :: "nat \<Rightarrow> bytes \<Rightarrow> bytes list" where
  "lines_within limit stream = filter (\<lambda>l. length l \<le> limit) (butlast (pieces stream))"

definition overlong :: "nat \<Rightarrow> bytes \<Rightarrow> nat" where
  "overlong limit stream = length (filter (\<lambda>l. limit < length l) (pieces stream))"

definition framer_after :: "nat \<Rightarrow> bytes \<Rightarrow> framer" where
  "framer_after limit stream =
     (let p = last (pieces stream)
      in \<lparr>fr_max = limit, fr_buffer = (if length p \<le> limit then p else []),
          fr_discarding = (limit < length p), fr_cr = (stream \<noteq> [] \<and> last stream = CR)\<rparr>)"

lemma unix_newlines_snoc:
  "unix_newlines (s @ [b]) =
     (if b = LF \<and> s \<noteq> [] \<and> last s = CR then unix_newlines s
      else unix_newlines s @ [if b = CR then LF else b])"
proof (induction s rule: unix_newlines.induct)
  case (3 c d cs)
  then show ?case by (cases "c = CR"; cases "d = LF"; cases cs) simp_all
qed simp_all

lemma split_on_snoc:
  "split_on c (s @ [x]) =
     (if x = c then split_on c s @ [[]] else butlast (split_on c s) @ [last (split_on c s) @ [x]])"
proof (induction s)
  case (Cons y s)
  have "split_on c s \<noteq> []" by simp
  then obtain w ws where w: "split_on c s = w # ws" by (cases "split_on c s") auto
  with Cons show ?case by (cases ws) (auto split: list.splits)
qed simp

lemma pieces_nonempty [simp]: "pieces s \<noteq> []"
  by (simp add: pieces_def)

lemma pieces_snoc:
  "pieces (s @ [b]) =
     (if b = LF \<and> s \<noteq> [] \<and> last s = CR then pieces s
      else if b = CR \<or> b = LF then pieces s @ [[]]
      else butlast (pieces s) @ [last (pieces s) @ [b]])"
  by (auto simp: pieces_def unix_newlines_snoc split_on_snoc)

lemma pieces_after_cr: "s \<noteq> [] \<Longrightarrow> last s = CR \<Longrightarrow> last (pieces s) = []"
  by (cases s rule: rev_cases) (auto simp: pieces_snoc)

lemma pieces_split: "pieces s = butlast (pieces s) @ [last (pieces s)]"
  by simp

lemma overlong_split:
  "overlong n s = length (filter (\<lambda>l. n < length l) (butlast (pieces s))) + (if n < length (last (pieces s)) then 1 else 0)"
  unfolding overlong_def by (subst pieces_split) (simp del: append_butlast_last_id)

lemma frame_byte_after:
  "\<exists>ls k. frame_byte b (framer_after n s) = (ls, k, framer_after n (s @ [b])) \<and>
     lines_within n (s @ [b]) = lines_within n s @ ls \<and> overlong n (s @ [b]) = overlong n s + k"
proof -
  let ?p = "last (pieces s)"
  have split: "pieces s = butlast (pieces s) @ [?p]" by simp
  consider "b = LF" "s \<noteq> []" "last s = CR" | "b = CR \<or> b = LF" "\<not> (b = LF \<and> s \<noteq> [] \<and> last s = CR)"
    | "b \<noteq> CR" "b \<noteq> LF" by blast
  then show ?thesis
  proof cases
    case 1
    then show ?thesis using pieces_after_cr [of s]
      by (auto simp: frame_byte_def framer_after_def pieces_snoc lines_within_def overlong_def Let_def)
  next
    case 2
    have "lines_within n (s @ [b]) = filter (\<lambda>l. length l \<le> n) (pieces s)"
      using 2 by (auto simp: lines_within_def pieces_snoc)
    also have "\<dots> = lines_within n s @ (if length ?p \<le> n then [?p] else [])"
      by (subst split) (simp add: lines_within_def del: append_butlast_last_id)
    finally show ?thesis using 2
      by (auto simp: frame_byte_def framer_after_def pieces_snoc finish_line_def overlong_def Let_def)
  next
    case 3
    have "overlong n (s @ [b]) = overlong n s + (if length ?p = n then 1 else 0)"
      using 3 by (simp add: overlong_split pieces_snoc)
    moreover have "lines_within n (s @ [b]) = lines_within n s"
      using 3 by (simp add: lines_within_def pieces_snoc)
    ultimately show ?thesis using 3
      by (auto simp: frame_byte_def framer_after_def pieces_snoc Let_def)
  qed
qed

lemma framer_feed_after:
  "\<exists>ls k. framer_feed chunk (framer_after n s) = (ls, k, framer_after n (s @ chunk)) \<and>
     lines_within n (s @ chunk) = lines_within n s @ ls \<and> overlong n (s @ chunk) = overlong n s + k"
proof (induction chunk arbitrary: s)
  case (Cons b chunk)
  from frame_byte_after obtain ls k where 1: "frame_byte b (framer_after n s) = (ls, k, framer_after n (s @ [b]))"
    "lines_within n (s @ [b]) = lines_within n s @ ls" "overlong n (s @ [b]) = overlong n s + k" by blast
  from Cons.IH [of "s @ [b]"] obtain ls' k' where
    2: "framer_feed chunk (framer_after n (s @ [b])) = (ls', k', framer_after n (s @ b # chunk))"
    "lines_within n (s @ b # chunk) = lines_within n (s @ [b]) @ ls'"
    "overlong n (s @ b # chunk) = overlong n (s @ [b]) + k'" by auto
  with 1 show ?case by simp
qed simp

lemma framer_after_nil: "framer_after n [] = \<lparr>fr_max = n, fr_buffer = [], fr_discarding = False, fr_cr = False\<rparr>"
  by (simp add: framer_after_def pieces_def)

lemma framer_reset_after: "framer_reset (framer_after n s) = framer_after n []"
  unfolding framer_after_nil by (simp add: framer_reset_def framer_after_def Let_def)

lemma no_lines [simp]: "lines_within n [] = []" "overlong n [] = 0"
  by (simp_all add: lines_within_def overlong_def pieces_def)

fun feed_all :: "bytes list \<Rightarrow> framer \<Rightarrow> bytes list \<times> nat \<times> framer" where
  "feed_all [] f = ([], 0, f)"
| "feed_all (c # cs) f =
     (case framer_feed c f of (ls, n, f1) \<Rightarrow> (case feed_all cs f1 of (ls', n', f2) \<Rightarrow> (ls @ ls', n + n', f2)))"

lemma feed_all_after:
  "\<exists>ls k. feed_all chunks (framer_after n s) = (ls, k, framer_after n (s @ concat chunks)) \<and>
     lines_within n (s @ concat chunks) = lines_within n s @ ls \<and>
     overlong n (s @ concat chunks) = overlong n s + k"
proof (induction chunks arbitrary: s)
  case (Cons c cs)
  from framer_feed_after obtain ls k where 1: "framer_feed c (framer_after n s) = (ls, k, framer_after n (s @ c))"
    "lines_within n (s @ c) = lines_within n s @ ls" "overlong n (s @ c) = overlong n s + k" by blast
  from Cons.IH [of "s @ c"] obtain ls' k' where
    2: "feed_all cs (framer_after n (s @ c)) = (ls', k', framer_after n (s @ c @ concat cs))"
    "lines_within n (s @ c @ concat cs) = lines_within n (s @ c) @ ls'"
    "overlong n (s @ c @ concat cs) = overlong n (s @ c) + k'" by auto
  with 1 show ?case by simp
qed simp

subsection \<open>The UDP adapter\<close>

text \<open>\<open>read_ready\<close> and \<open>read_pending\<close>; a receive answers with data and a sender, or raises.\<close>

definition udp_read_ready :: "network_policy \<Rightarrow> (bytes \<times> pystr) res \<Rightarrow> bytes list res" where
  "udp_read_ready policy received =
     rbind received (\<lambda>(data, host). Inr (if \<not> allows policy host then [] else [data]))"

subsection \<open>The serial adapter\<close>

text \<open>
  Where the reader thread is: not running; about to open the device; at the head of its read
  loop or with lines still to be queued (\<open>Putting\<close>); after a put that found the queue full; and
  after the oldest line was removed to make room. The last three fields record what happened:
  the bytes of the connections that ended and of the present one, and the lines taken from the
  queue, with True for those the forwarding thread read.
\<close>

datatype reader_thread = NoThread | Connecting | Putting "bytes list" | FullQueue bytes "bytes list" | Retry bytes "bytes list"

record serial_adapter =
  sa_settings :: serial_settings
  sa_maxsize :: nat
  sa_poll_interval :: time
  sa_queue :: "bytes list"
  sa_framer :: framer
  sa_stop :: bool
  sa_thread :: reader_thread
  sa_dropped_queue :: nat
  sa_dropped_overlong :: nat
  sa_streams :: "bytes list"
  sa_stream :: bytes
  sa_taken :: "(bytes \<times> bool) list"

definition serial_adapter_init :: "pyval \<Rightarrow> pyval \<Rightarrow> pyval \<Rightarrow> serial_adapter res" where
  "serial_adapter_init settings queue_max_lines poll_interval =
     rbind (validate_serial_input_config settings) (\<lambda>s.
     rbind (positive_int queue_max_lines) (\<lambda>n.
     rbind (positive_float poll_interval) (\<lambda>t.
     rbind (framer_init (PInt (ss_max_line_bytes s))) (\<lambda>f.
       Inr \<lparr>sa_settings = s, sa_maxsize = nat n, sa_poll_interval = t, sa_queue = [], sa_framer = f,
            sa_stop = False, sa_thread = NoThread, sa_dropped_queue = 0, sa_dropped_overlong = 0,
            sa_streams = [], sa_stream = [], sa_taken = []\<rparr>))))"

definition sa_start :: "serial_adapter \<Rightarrow> serial_adapter" where
  "sa_start a = (if sa_thread a \<noteq> NoThread then a else a\<lparr>sa_stop := False, sa_thread := Connecting\<rparr>)"

text \<open>\<open>close\<close>: the reader thread sees the event at its next turn, or fails in a read.\<close>

definition sa_close :: "serial_adapter \<Rightarrow> serial_adapter" where
  "sa_close a = a\<lparr>sa_stop := True\<rparr>"

definition take_line :: "bool \<Rightarrow> serial_adapter \<Rightarrow> (bytes \<times> serial_adapter) option" where
  "take_line by_reader a =
     (case sa_queue a of
        [] \<Rightarrow> None
      | l # ls \<Rightarrow> Some (l, a\<lparr>sa_queue := ls, sa_taken := sa_taken a @ [(l, by_reader)]\<rparr>))"

text \<open>\<open>read_pending\<close>, when the reader thread does not run in between.\<close>

definition serial_read_pending :: "serial_adapter \<Rightarrow> bytes list \<times> serial_adapter" where
  "serial_read_pending a =
     (sa_queue a, a\<lparr>sa_queue := [], sa_taken := sa_taken a @ map (\<lambda>l. (l, True)) (sa_queue a)\<rparr>)"

definition put_line :: "bytes \<Rightarrow> serial_adapter \<Rightarrow> serial_adapter option" where
  "put_line l a =
     (if sa_maxsize a \<le> length (sa_queue a) then None else Some (a\<lparr>sa_queue := sa_queue a @ [l]\<rparr>))"

definition drop_oldest_queued_line :: "serial_adapter \<Rightarrow> serial_adapter" where
  "drop_oldest_queued_line a =
     (let a1 = (case take_line False a of None \<Rightarrow> a | Some (_, a1) \<Rightarrow> a1)
      in a1\<lparr>sa_dropped_queue := Suc (sa_dropped_queue a1)\<rparr>)"

text \<open>\<open>_enqueue_line\<close>: the first put, the removal, the second put.\<close>

definition enqueue_first :: "bytes \<Rightarrow> bytes list \<Rightarrow> serial_adapter \<Rightarrow> serial_adapter" where
  "enqueue_first l ls a =
     (case put_line l a of
        Some a1 \<Rightarrow> a1\<lparr>sa_thread := Putting ls\<rparr>
      | None \<Rightarrow> a\<lparr>sa_thread := FullQueue l ls\<rparr>)"

definition enqueue_drop :: "bytes \<Rightarrow> bytes list \<Rightarrow> serial_adapter \<Rightarrow> serial_adapter" where
  "enqueue_drop l ls a = (drop_oldest_queued_line a)\<lparr>sa_thread := Retry l ls\<rparr>"

definition enqueue_retry :: "bytes \<Rightarrow> bytes list \<Rightarrow> serial_adapter \<Rightarrow> serial_adapter" where
  "enqueue_retry l ls a =
     (case put_line l a of
        Some a1 \<Rightarrow> a1\<lparr>sa_thread := Putting ls\<rparr>
      | None \<Rightarrow> (drop_oldest_queued_line a)\<lparr>sa_thread := Putting ls\<rparr>)"

text \<open>The turns of \<open>_run\<close>: opening the device, a read, and the end of a connection.\<close>

definition reader_connect :: "bool \<Rightarrow> serial_adapter \<Rightarrow> serial_adapter" where
  "reader_connect opened a =
     (if sa_stop a then a\<lparr>sa_thread := NoThread\<rparr>
      else if opened then a\<lparr>sa_thread := Putting []\<rparr>
      else a\<lparr>sa_framer := framer_reset (sa_framer a)\<rparr>)"

definition reader_chunk :: "bytes \<Rightarrow> serial_adapter \<Rightarrow> serial_adapter" where
  "reader_chunk chunk a =
     (case framer_feed chunk (sa_framer a) of (ls, n, f) \<Rightarrow>
        a\<lparr>sa_framer := f, sa_dropped_overlong := sa_dropped_overlong a + n, sa_thread := Putting ls,
          sa_stream := sa_stream a @ chunk\<rparr>)"

definition reader_disconnect :: "serial_adapter \<Rightarrow> serial_adapter" where
  "reader_disconnect a =
     a\<lparr>sa_framer := framer_reset (sa_framer a), sa_thread := Connecting,
       sa_streams := sa_streams a @ [sa_stream a], sa_stream := []\<rparr>"

inductive sa_step :: "serial_adapter \<Rightarrow> serial_adapter \<Rightarrow> bool" where
  start: "sa_step a (sa_start a)"
| close: "sa_step a (sa_close a)"
| get: "take_line True a = Some (l, a') \<Longrightarrow> sa_step a a'"
| connect: "sa_thread a = Connecting \<Longrightarrow> sa_step a (reader_connect opened a)"
| chunk: "sa_thread a = Putting [] \<Longrightarrow> \<not> sa_stop a \<Longrightarrow> sa_step a (reader_chunk chunk a)"
| disconnect: "sa_thread a = Putting [] \<Longrightarrow> sa_step a (reader_disconnect a)"
| put: "sa_thread a = Putting (l # ls) \<Longrightarrow> sa_step a (enqueue_first l ls a)"
| drop: "sa_thread a = FullQueue l ls \<Longrightarrow> sa_step a (enqueue_drop l ls a)"
| retry: "sa_thread a = Retry l ls \<Longrightarrow> sa_step a (enqueue_retry l ls a)"

inductive sa_reach :: "serial_adapter \<Rightarrow> bool" where
  init: "serial_adapter_init settings n t = Inr a \<Longrightarrow> sa_reach a"
| step: "sa_reach a \<Longrightarrow> sa_step a a' \<Longrightarrow> sa_reach a'"

subsection \<open>The invariant of the serial adapter\<close>

fun unqueued :: "reader_thread \<Rightarrow> bytes list" where
  "unqueued (Putting ls) = ls"
| "unqueued (FullQueue l ls) = l # ls"
| "unqueued (Retry l ls) = l # ls"
| "unqueued _ = []"

abbreviation sa_limit :: "serial_adapter \<Rightarrow> nat" where
  "sa_limit a \<equiv> nat (ss_max_line_bytes (sa_settings a))"

definition received_lines :: "serial_adapter \<Rightarrow> bytes list" where
  "received_lines a = concat (map (lines_within (sa_limit a)) (sa_streams a @ [sa_stream a]))"

definition sa_inv :: "serial_adapter \<Rightarrow> bool" where
  "sa_inv a \<longleftrightarrow>
     0 < sa_maxsize a \<and> length (sa_queue a) \<le> sa_maxsize a \<and> 0 < ss_max_line_bytes (sa_settings a) \<and>
     sa_framer a = framer_after (sa_limit a) (sa_stream a) \<and>
     ((sa_thread a = NoThread \<or> sa_thread a = Connecting) \<longrightarrow> sa_stream a = []) \<and>
     ((\<exists>l ls. sa_thread a = Retry l ls) \<longrightarrow> length (sa_queue a) < sa_maxsize a) \<and>
     received_lines a = map fst (sa_taken a) @ sa_queue a @ unqueued (sa_thread a) \<and>
     length (filter (\<lambda>p. \<not> snd p) (sa_taken a)) \<le> sa_dropped_queue a \<and>
     sa_dropped_overlong a = sum_list (map (overlong (sa_limit a)) (sa_streams a @ [sa_stream a]))"

lemma positive_int_iff: "positive_int v = Inr i \<longleftrightarrow> v = PInt i \<and> 0 < i"
  by (cases v) auto

lemma port_text_iff: "port_text v = Inr s \<longleftrightarrow> v = PStr s \<and> strip s \<noteq> []"
  by (cases v) auto

lemma validate_serial_limit:
  "validate_serial_input_config v = Inr s \<Longrightarrow> 0 < ss_max_line_bytes s"
  by (auto simp: validate_serial_input_config_def rbind_Inr_iff positive_int_iff split: pyval.splits)

lemma framer_bounded: "length (fr_buffer (framer_after n s)) \<le> n"
  by (simp add: framer_after_def Let_def)

lemma sa_init_inv: "serial_adapter_init s n t = Inr a \<Longrightarrow> sa_inv a"
proof -
  assume i: "serial_adapter_init s n t = Inr a"
  then obtain v k u f where v: "validate_serial_input_config s = Inr v" "positive_int n = Inr k" "positive_float t = Inr u"
    "framer_init (PInt (ss_max_line_bytes v)) = Inr f"
    and a: "a = \<lparr>sa_settings = v, sa_maxsize = nat k, sa_poll_interval = u, sa_queue = [], sa_framer = f,
            sa_stop = False, sa_thread = NoThread, sa_dropped_queue = 0, sa_dropped_overlong = 0,
            sa_streams = [], sa_stream = [], sa_taken = []\<rparr>"
    by (auto simp: serial_adapter_init_def rbind_Inr_iff)
  have "0 < k" using v(2) by (cases n) (auto split: if_splits)
  moreover have "0 < ss_max_line_bytes v" by (rule validate_serial_limit [OF v(1)])
  ultimately show ?thesis using v(4)
    by (auto simp: a sa_inv_def received_lines_def framer_init_def framer_after_nil)
qed

lemma sa_step_inv: "sa_step a a' \<Longrightarrow> sa_inv a \<Longrightarrow> sa_inv a'"
proof (induction rule: sa_step.induct)
  case (chunk a c)
  from framer_feed_after [of c "sa_limit a" "sa_stream a"] obtain ls k where
    f: "framer_feed c (sa_framer a) = (ls, k, framer_after (sa_limit a) (sa_stream a @ c))"
    "lines_within (sa_limit a) (sa_stream a @ c) = lines_within (sa_limit a) (sa_stream a) @ ls"
    "overlong (sa_limit a) (sa_stream a @ c) = overlong (sa_limit a) (sa_stream a) + k"
    using chunk.prems by (auto simp: sa_inv_def)
  with chunk show ?case by (auto simp: sa_inv_def received_lines_def reader_chunk_def)
next
  case (disconnect a)
  then show ?case by (auto simp: sa_inv_def received_lines_def reader_disconnect_def framer_reset_after)
next
  case (connect a opened)
  then show ?case
    by (auto simp: sa_inv_def received_lines_def reader_connect_def framer_reset_after)
qed (auto simp: sa_inv_def received_lines_def sa_start_def sa_close_def take_line_def enqueue_first_def
      enqueue_drop_def enqueue_retry_def put_line_def drop_oldest_queued_line_def Let_def split: list.splits)

lemma sa_reach_inv: "sa_reach a \<Longrightarrow> sa_inv a"
  by (induction rule: sa_reach.induct) (auto intro: sa_init_inv sa_step_inv)

subsection \<open>Properties\<close>

text \<open>The dictionary \<open>validate_serial_input_config\<close> returns.\<close>

definition settings_value :: "serial_settings \<Rightarrow> pyval" where
  "settings_value s =
     PDict [(PStr (lit ''type''), PStr (lit ''serial'')), (PStr (lit ''port''), PStr (ss_port s)),
            (PStr (lit ''baudrate''), PInt (ss_baudrate s)), (PStr (lit ''bytesize''), PInt (ss_bytesize s)),
            (PStr (lit ''parity''), PStr (ss_parity s)), (PStr (lit ''stopbits''), ss_stopbits s),
            (PStr (lit ''read_timeout''), PFloat (ss_read_timeout s)),
            (PStr (lit ''reconnect_delay''), PFloat (ss_reconnect_delay s)),
            (PStr (lit ''max_line_bytes''), PInt (ss_max_line_bytes s))]"

definition serial_ok :: "serial_settings \<Rightarrow> bool" where
  "serial_ok s \<longleftrightarrow> strip (ss_port s) \<noteq> [] \<and> 0 < ss_baudrate s \<and> ss_bytesize s \<in> {5, 6, 7, 8} \<and>
     ss_parity s \<in> set (map lit [''N'', ''E'', ''O'', ''M'', ''S'']) \<and>
     (ss_stopbits s = PInt 1 \<or> ss_stopbits s = PInt 2 \<or> (\<exists>f. ss_stopbits s = PFloat f \<and> 2 * f = 3 * ticks_per_second)) \<and>
     0 < ss_read_timeout s \<and> 0 < ss_reconnect_delay s \<and> 0 < ss_max_line_bytes s"

definition config_errors :: "py_error set" where
  "config_errors = {InputConfigError, TypeError, OverflowError}"

lemma config_errors_simp [simp]: "InputConfigError \<in> config_errors"
  by (simp add: config_errors_def)

lemma value_checks:
  "positive_int v = Inl e \<Longrightarrow> e \<in> config_errors"
  "number_of v = Some (Inl e) \<Longrightarrow> e \<in> config_errors"
  "port_text v = Inl e \<Longrightarrow> e \<in> config_errors"
  "explicit_value d k fb = Inl e \<Longrightarrow> e \<in> config_errors"
  "parity v = Inl e \<Longrightarrow> e \<in> config_errors"
  by (cases v; force simp: config_errors_def explicit_value_def parity_def Let_def split: option.splits if_splits)+

lemma derived_checks:
  "positive_float v = Inl e \<Longrightarrow> e \<in> config_errors"
  "byte_size v = Inl e \<Longrightarrow> e \<in> config_errors"
  "stop_bits v = Inl e \<Longrightarrow> e \<in> config_errors"
proof -
  show "positive_float v = Inl e \<Longrightarrow> e \<in> config_errors"
    by (auto simp: positive_float_def rbind_Inl_iff value_checks split: option.splits if_splits)
  show "byte_size v = Inl e \<Longrightarrow> e \<in> config_errors"
    by (auto simp: byte_size_def rbind_Inl_iff value_checks split: if_splits)
  show "stop_bits v = Inl e \<Longrightarrow> e \<in> config_errors"
    by (auto simp: stop_bits_def rbind_Inl_iff value_checks split: option.splits if_splits)
qed

lemma check_results:
  "byte_size v = Inr i \<Longrightarrow> i \<in> {5, 6, 7, 8}"
  "parity v = Inr p \<Longrightarrow> p \<in> set (map lit [''N'', ''E'', ''O'', ''M'', ''S''])"
  "stop_bits v = Inr w \<Longrightarrow> w = PInt 1 \<or> w = PInt 2 \<or> (\<exists>f. w = PFloat f \<and> 2 * f = 3 * ticks_per_second)"
  "positive_float v = Inr f \<Longrightarrow> 0 < f"
  by (auto simp: byte_size_def parity_def stop_bits_def positive_float_def rbind_Inr_iff Let_def
      split: if_splits pyval.splits option.splits)

lemma validate_serial_ok: "validate_serial_input_config v = Inr s \<Longrightarrow> serial_ok s"
  by (cases v) (auto simp: validate_serial_input_config_def rbind_Inr_iff positive_int_iff port_text_iff serial_ok_def
      dest: check_results)

lemma refuse_unknown_cases: "refuse_unknown InputConfigError d ks = Inl e \<Longrightarrow> e \<in> config_errors"
  by (auto simp: refuse_unknown_def config_errors_def Let_def split: if_splits)

lemma validate_serial_errors: "validate_serial_input_config v = Inl e \<Longrightarrow> e \<in> config_errors"
  by (cases v) (auto simp: validate_serial_input_config_def rbind_Inl_iff
      intro: refuse_unknown_cases value_checks derived_checks)

lemma parity_stable: "p \<in> set (map lit [''N'', ''E'', ''O'', ''M'', ''S'']) \<Longrightarrow> parity (PStr p) = Inr p"
  by (auto simp: parity_def lit_def strip_def is_space_def upper_letter_def)

lemma stop_bits_stable:
  "w = PInt 1 \<or> w = PInt 2 \<or> (\<exists>f. w = PFloat f \<and> 2 * f = 3 * ticks_per_second) \<Longrightarrow> stop_bits w = Inr w"
  by (auto simp: stop_bits_def ticks_per_second_def)

lemma serial_ok_stable: "serial_ok s \<Longrightarrow> validate_serial_input_config (settings_value s) = Inr s"
proof -
  assume ok: "serial_ok s"
  have keys: "refuse_unknown InputConfigError
      [(PStr (lit ''type''), PStr (lit ''serial'')), (PStr (lit ''port''), PStr (ss_port s)),
            (PStr (lit ''baudrate''), PInt (ss_baudrate s)), (PStr (lit ''bytesize''), PInt (ss_bytesize s)),
            (PStr (lit ''parity''), PStr (ss_parity s)), (PStr (lit ''stopbits''), ss_stopbits s),
            (PStr (lit ''read_timeout''), PFloat (ss_read_timeout s)),
            (PStr (lit ''reconnect_delay''), PFloat (ss_reconnect_delay s)),
            (PStr (lit ''max_line_bytes''), PInt (ss_max_line_bytes s))]
      [''baudrate'', ''bytesize'', ''parity'', ''stopbits'', ''read_timeout'', ''reconnect_delay'',
       ''max_line_bytes'', ''type'', ''port''] = Inr ()"
    by (simp add: refuse_unknown_def sortable_def)
  have "parity (PStr (ss_parity s)) = Inr (ss_parity s)" "stop_bits (ss_stopbits s) = Inr (ss_stopbits s)"
    "byte_size (PInt (ss_bytesize s)) = Inr (ss_bytesize s)"
    using ok by (auto simp: serial_ok_def parity_stable stop_bits_stable byte_size_def)
  moreover have "ss_stopbits s \<noteq> PNone" using ok by (auto simp: serial_ok_def)
  ultimately show ?thesis using ok keys
    by (simp add: validate_serial_input_config_def settings_value_def explicit_value_def field_of_def lit_def
        serial_ok_def positive_float_def)
qed

text \<open>
  Validating a serial input configuration either returns settings that are complete and in range,
  and that validate to themselves when they are read again, as the proxy does; or raises
  \<open>InputConfigError\<close>, or, for an unordered set of unknown keys or a number beyond the floats, one of
  two errors the caller does not expect.
\<close>

theorem serial_config_checked:
  "case validate_serial_input_config v of
     Inr s \<Rightarrow> serial_ok s \<and> validate_serial_input_config (settings_value s) = Inr s
   | Inl e \<Rightarrow> e = InputConfigError \<or> e = TypeError \<or> e = OverflowError"
  using validate_serial_ok [of v] validate_serial_errors [of v] serial_ok_stable
  by (auto simp: config_errors_def split: sum.splits)

text \<open>
  C15. The framer does not depend on how a stream is cut into chunks: fed with any chunks, it
  returns the lines of their concatenation that fit the limit, counts the others once each, and
  keeps at most the limit of bytes.
\<close>

theorem framer_chunk_independent:
  assumes "framer_init (PInt n) = Inr f" and "feed_all chunks f = (ls, k, f')"
  shows "ls = lines_within (nat n) (concat chunks) \<and> k = overlong (nat n) (concat chunks) \<and>
    int (length (fr_buffer f')) \<le> n"
proof -
  have n: "0 < n" "f = framer_after (nat n) []"
    using assms(1) by (auto simp: framer_init_def framer_after_nil split: if_splits)
  from feed_all_after [of chunks "nat n" "[]"] assms(2) n(2)
  have "ls = lines_within (nat n) (concat chunks)" "k = overlong (nat n) (concat chunks)"
    "f' = framer_after (nat n) (concat chunks)" by auto
  with framer_bounded [of "nat n" "concat chunks"] n(1) show ?thesis by (simp add: le_nat_iff)
qed

lemma framer_chunk_independent_witness:
  "\<exists>f ls k f'. framer_init (PInt 3) = Inr f \<and> feed_all [''ab'' @ [CR], [LF] @ ''wxyz'', [LF] @ ''c'' @ [LF] @ ''d''] f = (ls, k, f') \<and>
     ls = [''ab'', ''c''] \<and> k = 1 \<and> length (fr_buffer f') \<le> 3"
proof -
  let ?chunks = "[''ab'' @ [CR], [LF] @ ''wxyz'', [LF] @ ''c'' @ [LF] @ ''d'']"
  obtain f where f: "framer_init (PInt 3) = Inr f" by (simp add: framer_init_def)
  obtain ls k f' where r: "feed_all ?chunks f = (ls, k, f')" by (metis prod_cases3)
  have "lines_within (nat 3) (concat ?chunks) = [''ab'', ''c'']" "overlong (nat 3) (concat ?chunks) = 1"
    by (simp_all add: lines_within_def overlong_def pieces_def)
  with framer_chunk_independent [OF f r] f r show ?thesis by auto
qed

text \<open>
  C16. No line of the serial input is lost silently. In every interleaving of the reader thread
  with the forwarding thread, the lines received in all connections are, in order, those taken
  from the queue, those in it and those the reader still holds; the queue stays within its size;
  each line taken by the reader thread is counted as dropped; and each overlong line is counted.
\<close>

theorem serial_lines_accounted:
  assumes "sa_reach a"
  shows "received_lines a = map fst (sa_taken a) @ sa_queue a @ unqueued (sa_thread a) \<and>
    length (sa_queue a) \<le> sa_maxsize a \<and> length (fr_buffer (sa_framer a)) \<le> sa_limit a \<and>
    length (filter (\<lambda>p. \<not> snd p) (sa_taken a)) \<le> sa_dropped_queue a \<and>
    sa_dropped_overlong a = sum_list (map (overlong (sa_limit a)) (sa_streams a @ [sa_stream a]))"
  using sa_reach_inv [OF assms] framer_bounded [of "sa_limit a" "sa_stream a"] by (auto simp: sa_inv_def)

text \<open>A queue of one line and a stream of two: the first line is dropped, and the second kept.\<close>

definition example_settings :: serial_settings where
  "example_settings = \<lparr>ss_port = lit ''com'', ss_baudrate = 38400, ss_bytesize = 8, ss_parity = lit ''N'',
     ss_stopbits = PInt 1, ss_read_timeout = ticks_per_second, ss_reconnect_delay = 5 * ticks_per_second,
     ss_max_line_bytes = 3\<rparr>"

definition example_adapter :: serial_adapter where
  "example_adapter = \<lparr>sa_settings = example_settings, sa_maxsize = 1, sa_poll_interval = 1, sa_queue = [],
     sa_framer = \<lparr>fr_max = 3, fr_buffer = [], fr_discarding = False, fr_cr = False\<rparr>,
     sa_stop = False, sa_thread = NoThread, sa_dropped_queue = 0, sa_dropped_overlong = 0,
     sa_streams = [], sa_stream = [], sa_taken = []\<rparr>"

lemma example_adapter_init:
  "serial_adapter_init (settings_value example_settings) (PInt 1) (PFloat 1) = Inr example_adapter"
proof -
  have "serial_ok example_settings"
    by (auto simp: serial_ok_def example_settings_def ticks_per_second_def lit_def strip_def is_space_def)
  then have "validate_serial_input_config (settings_value example_settings) = Inr example_settings"
    by (rule serial_ok_stable)
  then show ?thesis
    by (simp add: serial_adapter_init_def positive_float_def framer_init_def example_adapter_def example_settings_def)
qed

text \<open>The second put has found the queue full.\<close>

definition example_full :: serial_adapter where
  "example_full = example_adapter\<lparr>sa_thread := FullQueue ''b'' [], sa_queue := [''a''],
     sa_stream := [CHR ''a'', LF, CHR ''b'', LF]\<rparr>"

lemmas adapter_eval = sa_start_def reader_connect_def reader_chunk_def frame_byte_def finish_line_def Let_def
  enqueue_first_def put_line_def enqueue_drop_def enqueue_retry_def drop_oldest_queued_line_def take_line_def
  example_adapter_def

lemma example_full_reach: "sa_reach example_full"
proof -
  let ?s = "[CHR ''a'', LF, CHR ''b'', LF]" and ?a = "sa_start example_adapter"
  have 1: "sa_reach ?a" by (rule sa_reach.step [OF sa_reach.init [OF example_adapter_init] sa_step.start])
  let ?b = "reader_chunk ?s (reader_connect True ?a)"
  have 2: "sa_reach ?b"
    by (rule sa_reach.step [OF sa_reach.step [OF 1 sa_step.connect] sa_step.chunk]) (simp_all add: adapter_eval)
  let ?c = "enqueue_first ''b'' [] (enqueue_first ''a'' [''b''] ?b)"
  have "sa_reach ?c"
    by (rule sa_reach.step [OF sa_reach.step [OF 2 sa_step.put] sa_step.put]) (simp_all add: adapter_eval)
  moreover have "?c = example_full" by (simp add: adapter_eval example_full_def)
  ultimately show ?thesis by simp
qed

lemma serial_lines_accounted_witness:
  "\<exists>a. sa_reach a \<and> received_lines a = [''a'', ''b''] \<and> sa_queue a = [''b''] \<and> sa_taken a = [(''a'', False)]"
proof -
  let ?a = "enqueue_retry ''b'' [] (enqueue_drop ''b'' [] example_full)"
  have r: "sa_reach ?a"
    by (rule sa_reach.step [OF sa_reach.step [OF example_full_reach sa_step.drop] sa_step.retry])
      (simp_all add: adapter_eval example_full_def)
  have q: "sa_queue ?a = [''b'']" "sa_taken ?a = [(''a'', False)]" "sa_thread ?a = Putting []"
    by (simp_all add: adapter_eval example_full_def)
  with serial_lines_accounted [OF r] have "received_lines ?a = [''a'', ''b'']" by simp
  with r q show ?thesis by blast
qed

text \<open>
  A line counted as dropped need not be: when the forwarding thread empties the full queue
  before the reader removes the oldest line, the counter goes up and nothing is lost.
\<close>

lemma drop_counted_without_drop:
  "\<exists>a. sa_reach a \<and> sa_dropped_queue a = 1 \<and> sa_taken a = [(''a'', True)]"
proof -
  let ?d = "example_full\<lparr>sa_queue := [], sa_taken := [(''a'', True)]\<rparr>"
  have "sa_reach ?d"
    by (rule sa_reach.step [OF example_full_reach sa_step.get]) (simp add: adapter_eval example_full_def)
  then have "sa_reach (enqueue_drop ''b'' [] ?d)"
    by (rule sa_reach.step [OF _ sa_step.drop]) (simp add: adapter_eval example_full_def)
  moreover have "sa_dropped_queue (enqueue_drop ''b'' [] ?d) = 1" "sa_taken (enqueue_drop ''b'' [] ?d) = [(''a'', True)]"
    by (simp_all add: adapter_eval example_full_def)
  ultimately show ?thesis by blast
qed

end
