(* ===== verification/SproxyOutput.thy ===== *)
theory SproxyOutput
  imports SproxyInput Forwarder
begin

section \<open>Outputs of the proxy (\<open>nmea_sproxy/output_adapters.py\<close>)\<close>

text \<open>
  The output configuration, the choice of the remote endpoint and its address family, and the
  plain UDP output with its socket. The resolver and the socket calls are an environment that
  answers from the history of the socket calls. What is shown: an endpoint that is accepted has
  a port in range and one address family for its source and a literal host; the plain output
  never has two sockets open, leaves none behind when it fails or is closed, and sends to the
  address that was resolved at start-up only.
\<close>

subsection \<open>Configuration\<close>

datatype output_type = OutUdpsec | OutUdp

record output_config =
  oc_type :: output_type
  oc_host :: pystr
  oc_port :: int
  oc_source_ip :: "pyval option"
  oc_legacy :: bool

definition family_for_ip_address :: "ip_address \<Rightarrow> family" where
  "family_for_ip_address a = (if version a = 6 then AF_INET6 else AF_INET)"

definition default_remote_family :: "pystr \<Rightarrow> family" where
  "default_remote_family host = (if 58 \<in> set host then AF_INET6 else AF_INET)"

text \<open>\<open>_explicit_value\<close>; a key that is not required gives \<open>None\<close>.\<close>

definition explicit_output :: "(pyval \<times> pyval) list \<Rightarrow> string \<Rightarrow> bool \<Rightarrow> pyval option res" where
  "explicit_output d k required =
     (case field_of d k of
        None \<Rightarrow> if required then Inl OutputConfigError else Inr None
      | Some v \<Rightarrow> if v = PNone then Inl OutputConfigError else Inr (Some v))"

fun validate_host :: "pyval \<Rightarrow> pystr res" where
  "validate_host (PStr s) = (if strip s = [] then Inl OutputConfigError else Inr s)"
| "validate_host _ = Inl OutputConfigError"

fun validate_port :: "pyval \<Rightarrow> int res" where
  "validate_port (PInt i) = (if i < 1 \<or> 65535 < i then Inl OutputConfigError else Inr i)"
| "validate_port _ = Inl OutputConfigError"

text \<open>\<open>parse_source_ip\<close>: the text of the address and the address.\<close>

definition parse_source_ip :: "pyval option \<Rightarrow> (pystr \<times> ip_address) option res" where
  "parse_source_ip source =
     (case source of
        None \<Rightarrow> Inr None
      | Some (PStr s) \<Rightarrow>
          if strip s = [] then Inl OutputConfigError
          else (case ip_address (strip s) of
                  None \<Rightarrow> Inl OutputConfigError
                | Some a \<Rightarrow> Inr (Some (strip s, a)))
      | Some _ \<Rightarrow> Inl OutputConfigError)"

text \<open>\<open>d[k]\<close>\<close>

definition config_item :: "(pyval \<times> pyval) list \<Rightarrow> string \<Rightarrow> pyval res" where
  "config_item d k = (case field_of d k of None \<Rightarrow> Inl KeyError | Some v \<Rightarrow> Inr v)"

text \<open>\<open>_validate_host(_explicit_value(..., required=True), ...)\<close> and its like.\<close>

definition required_output :: "(pyval \<times> pyval) list \<Rightarrow> string \<Rightarrow> (pyval \<Rightarrow> 'a res) \<Rightarrow> 'a res" where
  "required_output d k check =
     rbind (explicit_output d k True) (\<lambda>v. case v of None \<Rightarrow> Inl OutputConfigError | Some v \<Rightarrow> check v)"

fun output_kind :: "pyval \<Rightarrow> output_type res" where
  "output_kind (PStr s) =
     (if s = lit ''udpsec'' then Inr OutUdpsec else if s = lit ''udp'' then Inr OutUdp
      else Inl OutputConfigError)"
| "output_kind _ = Inl OutputConfigError"

definition normalize_output_config :: "(pyval \<times> pyval) list \<Rightarrow> output_config res" where
  "normalize_output_config config =
     (case field_of config ''output'' of
        None \<Rightarrow>
          rbind (parse_source_ip (field_of config ''source_ip'')) (\<lambda>_.
          rbind (rbind (config_item config ''remote_host'') validate_host) (\<lambda>host.
          rbind (rbind (config_item config ''remote_port'') validate_port) (\<lambda>port.
            Inr \<lparr>oc_type = OutUdpsec, oc_host = host, oc_port = port,
                 oc_source_ip = field_of config ''source_ip'', oc_legacy = True\<rparr>)))
      | Some (PDict d) \<Rightarrow>
          rbind (refuse_unknown OutputConfigError d [''type'', ''host'', ''port'', ''source_ip'']) (\<lambda>_.
          rbind (required_output d ''type'' output_kind) (\<lambda>kind.
          rbind (required_output d ''host'' validate_host) (\<lambda>host.
          rbind (required_output d ''port'' validate_port) (\<lambda>port.
          rbind (explicit_output d ''source_ip'' False) (\<lambda>source.
          rbind (parse_source_ip source) (\<lambda>_.
            Inr \<lparr>oc_type = kind, oc_host = host, oc_port = port, oc_source_ip = source,
                 oc_legacy = False\<rparr>))))))
      | Some _ \<Rightarrow> Inl OutputConfigError)"

subsection \<open>The resolver and the sockets\<close>

type_synonym endpoint = "pystr \<times> int \<times> int list"
type_synonym sock = nat

datatype resolution = Resolved "endpoint list" | NoAddress | ResolveRaised py_error

datatype sock_event =
    SockOpened sock | SockBound sock pystr | SockClosed sock | Datagram sock endpoint bytes

record sock_env =
  getaddrinfo :: "pystr \<Rightarrow> int \<Rightarrow> family \<Rightarrow> resolution"
  new_socket :: "sock_event list \<Rightarrow> family \<Rightarrow> sock res"
  bind_error :: "sock_event list \<Rightarrow> sock \<Rightarrow> pystr \<Rightarrow> py_error option"
  sendto_error :: "sock_event list \<Rightarrow> sock \<Rightarrow> endpoint \<Rightarrow> bytes \<Rightarrow> py_error option"

text \<open>The sockets that are open after some events.\<close>

fun open_socks :: "sock set \<Rightarrow> sock_event list \<Rightarrow> sock set" where
  "open_socks S [] = S"
| "open_socks S (SockOpened s # es) = open_socks (insert s S) es"
| "open_socks S (SockClosed s # es) = open_socks (S - {s}) es"
| "open_socks S (_ # es) = open_socks S es"

definition resolve_remote_addr :: "sock_env \<Rightarrow> pystr \<Rightarrow> int \<Rightarrow> family \<Rightarrow> endpoint res" where
  "resolve_remote_addr env host port family =
     (case getaddrinfo env host port family of
        NoAddress \<Rightarrow> Inl OutputConfigError
      | ResolveRaised e \<Rightarrow> Inl e
      | Resolved [] \<Rightarrow> Inl OutputConfigError
      | Resolved (a # _) \<Rightarrow> Inr a)"

definition resolve_output_endpoint :: "sock_env \<Rightarrow> output_config \<Rightarrow> (endpoint \<times> family) res" where
  "resolve_output_endpoint env oc =
     rbind (parse_source_ip (oc_source_ip oc)) (\<lambda>source.
     rbind (case source of
              None \<Rightarrow> Inr (default_remote_family (oc_host oc))
            | Some (_, a) \<Rightarrow>
                (case ip_address (oc_host oc) of
                   None \<Rightarrow> Inr (family_for_ip_address a)
                 | Some r \<Rightarrow> if version r \<noteq> version a then Inl OutputConfigError
                             else Inr (family_for_ip_address a))) (\<lambda>family.
     rbind (resolve_remote_addr env (oc_host oc) (oc_port oc) family) (\<lambda>addr. Inr (addr, family))))"

definition create_outbound_socket ::
  "sock_env \<Rightarrow> family \<Rightarrow> pystr option \<Rightarrow> sock_event list \<Rightarrow> sock res \<times> sock_event list" where
  "create_outbound_socket env family source es =
     (case new_socket env es family of
        Inl e \<Rightarrow> (Inl e, es)
      | Inr s \<Rightarrow>
          let es1 = es @ [SockOpened s]
          in (case source of
                None \<Rightarrow> (Inr s, es1)
              | Some ip \<Rightarrow>
                  (case bind_error env es1 s ip of
                     None \<Rightarrow> (Inr s, es1 @ [SockBound s ip])
                   | Some e \<Rightarrow> if is_os_error e then (Inl OutputConfigError, es1 @ [SockClosed s])
                               else (Inl e, es1))))"

definition create_output_socket ::
  "sock_env \<Rightarrow> output_config \<Rightarrow> family \<Rightarrow> sock_event list \<Rightarrow> sock res \<times> sock_event list" where
  "create_output_socket env oc family es =
     (case parse_source_ip (oc_source_ip oc) of
        Inl e \<Rightarrow> (Inl e, es)
      | Inr source \<Rightarrow>
          create_outbound_socket env family (case source of None \<Rightarrow> None | Some (t, _) \<Rightarrow> normalized_ip t) es)"

subsection \<open>The plain UDP output\<close>

record plain_output =
  po_sock :: sock
  po_remote :: endpoint
  po_pinned :: "(output_config \<times> family) option"
  po_events :: "sock_event list"

definition plain_from_config ::
  "sock_env \<Rightarrow> output_config \<Rightarrow> sock_event list \<Rightarrow> plain_output res \<times> sock_event list" where
  "plain_from_config env oc es =
     (case resolve_output_endpoint env oc of
        Inl e \<Rightarrow> (Inl e, es)
      | Inr (remote, family) \<Rightarrow>
          (case create_output_socket env oc family es of
             (Inl e, es1) \<Rightarrow> (Inl e, es1)
           | (Inr s, es1) \<Rightarrow>
               (Inr \<lparr>po_sock = s, po_remote = remote, po_pinned = Some (oc, family), po_events = es1\<rparr>, es1)))"

definition plain_close :: "plain_output \<Rightarrow> plain_output" where
  "plain_close p = p\<lparr>po_events := po_events p @ [SockClosed (po_sock p)]\<rparr>"

definition recreate_socket :: "sock_env \<Rightarrow> plain_output \<Rightarrow> unit res \<times> plain_output" where
  "recreate_socket env p =
     (case po_pinned p of
        None \<Rightarrow> (Inl OutputConfigError, p)
      | Some (oc, family) \<Rightarrow>
          let p1 = plain_close p
          in (case create_output_socket env oc family (po_events p1) of
                (Inl e, es) \<Rightarrow> (Inl e, p1\<lparr>po_events := es\<rparr>)
              | (Inr s, es) \<Rightarrow> (Inr (), p1\<lparr>po_events := es, po_sock := s\<rparr>)))"

definition send_sentence :: "sock_env \<Rightarrow> pystr \<Rightarrow> plain_output \<Rightarrow> unit res \<times> plain_output" where
  "send_sentence env sentence p =
     (case encode_strict sentence of
        Inl e \<Rightarrow> (Inl e, p)
      | Inr b \<Rightarrow>
          (case sendto_error env (po_events p) (po_sock p) (po_remote p) b of
             Some e \<Rightarrow> (Inl e, p)
           | None \<Rightarrow> (Inr (), p\<lparr>po_events := po_events p @ [Datagram (po_sock p) (po_remote p) b]\<rparr>)))"

datatype plain_op = SendSentence pystr | Recreate | ClosePlain

fun plain_call :: "sock_env \<Rightarrow> plain_op \<Rightarrow> plain_output \<Rightarrow> plain_output" where
  "plain_call env (SendSentence s) p = snd (send_sentence env s p)"
| "plain_call env Recreate p = snd (recreate_socket env p)"
| "plain_call env ClosePlain p = plain_close p"

subsection \<open>Lemmas\<close>

text \<open>What the operating system promises: a new descriptor is not open; binding fails with OSError.\<close>

definition sock_laws :: "sock_env \<Rightarrow> bool" where
  "sock_laws env \<longleftrightarrow>
     (\<forall>es f s. new_socket env es f = Inr s \<longrightarrow> s \<notin> open_socks {} es) \<and>
     (\<forall>es s ip e. bind_error env es s ip = Some e \<longrightarrow> is_os_error e)"

lemma open_socks_append [simp]: "open_socks S (es @ es') = open_socks (open_socks S es) es'"
  by (induction S es rule: open_socks.induct) auto

fun addressed_to :: "endpoint \<Rightarrow> sock_event \<Rightarrow> bool" where
  "addressed_to a (Datagram s b c) = (b = a)"
| "addressed_to a _ = True"

lemma create_output_socket_effect:
  assumes "create_output_socket env oc family es = (r, es')" and "sock_laws env"
  shows "list_all (addressed_to a) es \<Longrightarrow> list_all (addressed_to a) es'"
    and "case r of Inl _ \<Rightarrow> open_socks {} es' = open_socks {} es
       | Inr s \<Rightarrow> s \<notin> open_socks {} es \<and> open_socks {} es' = insert s (open_socks {} es)"
  using assms
  by (auto simp: create_output_socket_def create_outbound_socket_def Let_def sock_laws_def
      split: sum.splits option.splits if_splits)

definition po_inv :: "endpoint \<Rightarrow> plain_output \<Rightarrow> bool" where
  "po_inv a p \<longleftrightarrow> open_socks {} (po_events p) \<subseteq> {po_sock p} \<and> po_remote p = a \<and> list_all (addressed_to a) (po_events p)"

lemma plain_call_inv:
  assumes "sock_laws env" and "po_inv a p"
  shows "po_inv a (plain_call env c p)"
proof (cases c)
  case (SendSentence s)
  then show ?thesis using assms(2)
    by (auto simp: send_sentence_def po_inv_def split: sum.splits option.splits)
next
  case ClosePlain
  then show ?thesis using assms(2) by (auto simp: plain_close_def po_inv_def)
next
  case Recreate
  show ?thesis
  proof (cases "po_pinned p")
    case None
    then show ?thesis using assms(2) Recreate by (simp add: recreate_socket_def)
  next
    case (Some q)
    obtain oc f where q: "q = (oc, f)" by force
    let ?p = "plain_close p"
    obtain r es where c: "create_output_socket env oc f (po_events ?p) = (r, es)" by force
    have closed: "open_socks {} (po_events ?p) = {}" "list_all (addressed_to a) (po_events ?p)"
      using assms(2) by (auto simp: plain_close_def po_inv_def)
    from create_output_socket_effect [OF c assms(1)] closed assms(2) show ?thesis
      using Recreate Some q c
      by (auto simp: recreate_socket_def Let_def po_inv_def plain_close_def split: sum.splits)
  qed
qed

lemma plain_calls_inv: "sock_laws env \<Longrightarrow> po_inv a p \<Longrightarrow> po_inv a (fold (plain_call env) cs p)"
  by (induction cs arbitrary: p) (auto intro: plain_call_inv)

lemma parse_source_ip_SomeD:
  "parse_source_ip v = Inr (Some (t, a)) \<Longrightarrow> \<exists>s. v = Some (PStr s) \<and> t = strip s \<and> ip_address t = Some a"
  by (auto simp: parse_source_ip_def split: option.splits pyval.splits if_splits)

lemma resolve_remote_addr_Inr:
  "resolve_remote_addr env h p f = Inr a \<Longrightarrow> \<exists>as. getaddrinfo env h p f = Resolved (a # as)"
  by (auto simp: resolve_remote_addr_def split: resolution.splits list.splits)

subsection \<open>Properties\<close>

text \<open>
  An endpoint that is accepted is consistent. The port of an accepted output is a UDP port and
  its host is not blank; resolving it yields an address the resolver gave for that host, port
  and family; and with a source address the family is that of the source, and a literal host is
  of the same version.
\<close>

theorem output_endpoint_consistent:
  assumes "normalize_output_config config = Inr oc" and "resolve_output_endpoint env oc = Inr (remote, family)"
  shows "1 \<le> oc_port oc \<and> oc_port oc \<le> 65535 \<and> strip (oc_host oc) \<noteq> [] \<and>
    (\<exists>as. getaddrinfo env (oc_host oc) (oc_port oc) family = Resolved (remote # as)) \<and>
    (case oc_source_ip oc of
       None \<Rightarrow> family = default_remote_family (oc_host oc)
     | Some v \<Rightarrow> \<exists>s a. v = PStr s \<and> ip_address (strip s) = Some a \<and>
         family = (if version a = 6 then AF_INET6 else AF_INET) \<and>
         (\<forall>r. ip_address (oc_host oc) = Some r \<longrightarrow> version r = version a))"
proof -
  have host: "validate_host v = Inr s \<longleftrightarrow> v = PStr s \<and> strip s \<noteq> []" for v s
    by (cases v) auto
  have port: "validate_port v = Inr i \<longleftrightarrow> v = PInt i \<and> 1 \<le> i \<and> i \<le> 65535" for v i
    by (cases v) auto
  have config: "1 \<le> oc_port oc \<and> oc_port oc \<le> 65535 \<and> strip (oc_host oc) \<noteq> []"
    using assms(1)
    by (auto simp: normalize_output_config_def required_output_def rbind_Inr_iff host port
        split: option.splits pyval.splits)
  obtain source where source: "parse_source_ip (oc_source_ip oc) = Inr source"
    using assms(2) by (auto simp: resolve_output_endpoint_def rbind_Inr_iff)
  have addr: "\<exists>as. getaddrinfo env (oc_host oc) (oc_port oc) family = Resolved (remote # as)"
    using assms(2)
    by (auto simp: resolve_output_endpoint_def rbind_Inr_iff dest: resolve_remote_addr_Inr)
  show ?thesis
  proof (cases source)
    case None
    then have "oc_source_ip oc = None"
      using source by (auto simp: parse_source_ip_def split: option.splits pyval.splits if_splits)
    with None source config addr assms(2) show ?thesis
      by (auto simp: resolve_output_endpoint_def rbind_Inr_iff)
  next
    case (Some p)
    obtain t a where p: "p = (t, a)" by force
    with Some source have "parse_source_ip (oc_source_ip oc) = Inr (Some (t, a))" by simp
    from parse_source_ip_SomeD [OF this] obtain s where
      s: "oc_source_ip oc = Some (PStr s)" "t = strip s" "ip_address t = Some a" by blast
    with Some p source config addr assms(2) show ?thesis
      by (auto simp: resolve_output_endpoint_def rbind_Inr_iff family_for_ip_address_def
          split: option.splits if_splits)
  qed
qed

text \<open>A descriptor above all that were ever opened.\<close>

definition next_sock :: "sock_event list \<Rightarrow> sock" where
  "next_sock es = Suc (sum_list (map (\<lambda>e. case e of SockOpened s \<Rightarrow> s | _ \<Rightarrow> 0) es))"

definition example_sock_env :: sock_env where
  "example_sock_env = \<lparr>getaddrinfo = \<lambda>h p f. Resolved [(h, p, [])], new_socket = \<lambda>es f. Inr (next_sock es),
     bind_error = \<lambda>es s ip. None, sendto_error = \<lambda>es s a b. None\<rparr>"

definition example_output :: output_config where
  "example_output = \<lparr>oc_type = OutUdp, oc_host = lit ''h'', oc_port = 5, oc_source_ip = None, oc_legacy = False\<rparr>"

lemma example_output_normal:
  "normalize_output_config [(PStr (lit ''output''), PDict [(PStr (lit ''type''), PStr (lit ''udp'')),
     (PStr (lit ''host''), PStr (lit ''h'')), (PStr (lit ''port''), PInt 5)])] = Inr example_output"
  by (simp add: normalize_output_config_def field_of_def lit_def refuse_unknown_def sortable_def required_output_def
      explicit_output_def strip_def is_space_def parse_source_ip_def example_output_def Let_def)

lemma example_endpoint:
  "resolve_output_endpoint example_sock_env example_output = Inr ((lit ''h'', 5, []), AF_INET)"
  by (simp add: resolve_output_endpoint_def parse_source_ip_def example_output_def default_remote_family_def lit_def
      resolve_remote_addr_def example_sock_env_def)

lemma output_endpoint_consistent_witness:
  "1 \<le> oc_port example_output \<and> strip (oc_host example_output) \<noteq> [] \<and>
   AF_INET = default_remote_family (oc_host example_output)"
  using output_endpoint_consistent [OF example_output_normal example_endpoint]
  by (simp add: example_output_def)

text \<open>
  C17. The plain output owns exactly its socket. When it cannot be built, no socket stays open;
  once built, after any sends, recreations and closings, whether they succeed or not, no socket
  but its own is open, none after a close, and every datagram went to the address resolved at
  start-up.
\<close>

theorem plain_output_owns_socket:
  assumes "sock_laws env" and "plain_from_config env oc [] = (r, es)"
  shows "case r of
      Inl e \<Rightarrow> open_socks {} es = {}
    | Inr p \<Rightarrow> (\<forall>cs. let q = fold (plain_call env) cs p
        in open_socks {} (po_events q) \<subseteq> {po_sock q} \<and>
           open_socks {} (po_events (plain_close q)) = {} \<and>
           list_all (addressed_to (po_remote p)) (po_events q))"
proof (cases "resolve_output_endpoint env oc")
  case (Inl e)
  then show ?thesis using assms(2) by (auto simp: plain_from_config_def)
next
  case (Inr x)
  obtain remote f where x: "x = (remote, f)" by (rule prod.exhaust)
  obtain r1 es1 where c: "create_output_socket env oc f [] = (r1, es1)" by force
  note effect = create_output_socket_effect [OF c assms(1)]
  show ?thesis
  proof (cases r1)
    case (Inl e)
    then show ?thesis using assms(2) Inr x c effect(2) by (auto simp: plain_from_config_def)
  next
    case (Inr s)
    then have r: "r = Inr \<lparr>po_sock = s, po_remote = remote, po_pinned = Some (oc, f), po_events = es1\<rparr>"
      using assms(2) \<open>resolve_output_endpoint env oc = Inr x\<close> x c by (auto simp: plain_from_config_def)
    have "po_inv remote \<lparr>po_sock = s, po_remote = remote, po_pinned = Some (oc, f), po_events = es1\<rparr>"
      using effect Inr by (auto simp: po_inv_def)
    from plain_calls_inv [OF assms(1) this] show ?thesis
      unfolding r by (auto simp: Let_def po_inv_def plain_close_def)
  qed
qed

lemma open_socks_opened: "s \<in> open_socks S es \<Longrightarrow> s \<in> S \<or> SockOpened s \<in> set es"
  by (induction S es rule: open_socks.induct) auto

lemma fresh_sock: "SockOpened s \<in> set es \<Longrightarrow> s < next_sock es"
  by (induction es) (auto simp: next_sock_def)

lemma example_sock_laws: "sock_laws example_sock_env"
  using open_socks_opened [of _ "{}"] fresh_sock by (fastforce simp: sock_laws_def example_sock_env_def)

lemma plain_output_owns_socket_witness:
  "\<exists>p. plain_from_config example_sock_env example_output [] = (Inr p, [SockOpened 1]) \<and>
     open_socks {} (po_events (plain_close (fold (plain_call example_sock_env) [Recreate, SendSentence (lit ''x'')] p))) = {}"
proof -
  obtain p where p: "plain_from_config example_sock_env example_output [] = (Inr p, [SockOpened 1])"
    using example_endpoint
    by (auto simp: plain_from_config_def create_output_socket_def create_outbound_socket_def parse_source_ip_def
        example_output_def example_sock_env_def next_sock_def Let_def)
  have "open_socks {} (po_events (plain_close (fold (plain_call example_sock_env) cs p))) = {}" for cs
    using plain_output_owns_socket [OF example_sock_laws p] by (simp add: Let_def)
  with p show ?thesis by blast
qed

end
