(* ===== verification/Sproxy.thy ===== *)
theory Sproxy
  imports SproxyOutput SecureListener ControlJson "HOL-Library.Sublist"
begin

section \<open>The proxy (\<open>nmea_sproxy/nmea_sproxy.py\<close>)\<close>

text \<open>
  The client of the encrypted input: it reads local AIS data, extracts the sentences, and sends
  each as an encrypted message, after a handshake with the server and under a session it keeps
  alive with pings. A receive, a reading of a clock, random bytes and the outcome of a send come
  from an environment. The numbers of the configuration are readings already (the source
  converts them with \<open>float\<close>); the messages printed on the console are left out. What is shown:
  the handshake yields keys only when the server signed the transcript and proved that it has
  the keys; the client and the listener derive the same keys; a session outlives no silence of
  the peer; and what the proxy sends is what the listener queues.
\<close>

subsection \<open>Sentences of the input\<close>

text \<open>\<open>bytes.decode(errors="replace")\<close>\<close>

function utf8_replace :: "nat list \<Rightarrow> pystr" where
  "utf8_replace [] = []"
| "utf8_replace (b # bs) =
     (case utf8_item (b # bs) of
        Unit c n \<Rightarrow> c # utf8_replace (drop (n - 1) bs)
      | Bad n \<Rightarrow> 0xFFFD # utf8_replace (drop (n - 1) bs))"
  by pat_completeness auto
termination by (relation "measure length") auto

text \<open>\<open>!AIVD[MO],[^\r\n]*?\*[0-9A-F]{2}\<close> and \<open>re.findall\<close>\<close>

definition upper_hex :: "nat \<Rightarrow> bool" where
  "upper_hex c \<longleftrightarrow> (48 \<le> c \<and> c \<le> 57) \<or> (65 \<le> c \<and> c \<le> 70)"

fun checksum_tail :: "nat list \<Rightarrow> nat option" where
  "checksum_tail (c # a # b # r) =
     (if c = 42 \<and> upper_hex a \<and> upper_hex b then Some 3
      else if c = 13 \<or> c = 10 then None
      else map_option Suc (checksum_tail (a # b # r)))"
| "checksum_tail _ = None"

definition aivd_match :: "nat list \<Rightarrow> nat option" where
  "aivd_match xs =
     (if take 7 xs \<in> {lit ''!AIVDM,'', lit ''!AIVDO,''} then map_option (\<lambda>n. n + 7) (checksum_tail (drop 7 xs))
      else None)"

function extract_aivd :: "nat list \<Rightarrow> pystr list" where
  "extract_aivd [] = []"
| "extract_aivd (x # xs) =
     (case aivd_match (x # xs) of
        None \<Rightarrow> extract_aivd xs
      | Some n \<Rightarrow> take n (x # xs) # extract_aivd (drop (n - 1) xs))"
  by pat_completeness auto
termination by (relation "measure length") auto

definition iter_forwardable_nmea_sentences :: "bytes \<Rightarrow> pystr list" where
  "iter_forwardable_nmea_sentences data = extract_aivd (strip (utf8_replace (map of_char data)))"

subsection \<open>Encrypted messages\<close>

definition encrypt_message_aes_gcm :: "('sk, 'pk) listener_crypto \<Rightarrow> bytes \<Rightarrow> bytes \<Rightarrow> bytes \<Rightarrow> bytes" where
  "encrypt_message_aes_gcm C iv plaintext key = iv @ aes_encrypt C key iv plaintext data_aad"

definition encrypt_json :: "('sk, 'pk) listener_crypto \<Rightarrow> bytes \<Rightarrow> pyval \<Rightarrow> bytes \<Rightarrow> bytes res" where
  "encrypt_json C iv msg key =
     rbind (json_dumps True False msg) (\<lambda>t.
     rbind (encode_strict t) (\<lambda>plaintext.
       Inr (data_prefix @ encrypt_message_aes_gcm C iv plaintext key)))"

definition decrypt_json :: "('sk, 'pk) listener_crypto \<Rightarrow> nat \<Rightarrow> bytes \<Rightarrow> bytes \<Rightarrow> pyval res" where
  "decrypt_json C lim data key =
     (if \<not> starts_with data_prefix data \<or> length data < length data_prefix + 12 + 16 then Inl ValueError
      else (case aes_decrypt C key (PyText.slice data (length data_prefix) (length data_prefix + 12))
                   (drop (length data_prefix + 12) data) data_aad of
              None \<Rightarrow> Inl InvalidTag
            | Some plaintext \<Rightarrow> load_message lim plaintext))"

definition nmea_message :: "pyval \<Rightarrow> time \<Rightarrow> pystr \<Rightarrow> pyval" where
  "nmea_message station wall line =
     PDict [(PStr (lit ''type''), PStr (lit ''nmea'')), (PStr (lit ''payload''), PStr line),
            (PStr (lit ''timestamp''), PInt (whole_seconds wall)), (PStr (lit ''source_id''), station)]"

definition ping_message :: "pyval \<Rightarrow> time \<Rightarrow> int \<Rightarrow> pyval" where
  "ping_message station wall seq =
     PDict [(PStr (lit ''type''), PStr (lit ''ping'')), (PStr (lit ''seq''), PInt seq),
            (PStr (lit ''timestamp''), PInt (whole_seconds wall)), (PStr (lit ''source_id''), station)]"

subsection \<open>Packets of the server\<close>

definition remote_addresses_match :: "endpoint \<Rightarrow> endpoint \<Rightarrow> bool" where
  "remote_addresses_match a r \<longleftrightarrow> fst a = fst r \<and> fst (snd a) = fst (snd r)"

definition is_no_session_hint :: "bytes \<Rightarrow> bool" where
  "is_no_session_hint data \<longleftrightarrow> data = ''NOSESSION'' \<or> starts_with (''NOSESSION'' @ ''|'') data"

datatype server_packet = PacketIgnored | PacketAuthenticated | PacketNoSession

definition handle_server_packet ::
  "('sk, 'pk) listener_crypto \<Rightarrow> nat \<Rightarrow> bytes \<Rightarrow> endpoint \<Rightarrow> endpoint \<Rightarrow> bytes \<Rightarrow> pyval \<Rightarrow> int option \<Rightarrow> server_packet" where
  "handle_server_packet C lim data addr remote s2c station expected =
     (if \<not> remote_addresses_match addr remote then PacketIgnored
      else if is_no_session_hint data then PacketNoSession
      else (case decrypt_json C lim data s2c of
              Inr (PDict d) \<Rightarrow>
                (case message_field d ''seq'' of
                   PInt n \<Rightarrow>
                     if message_field d ''type'' = PStr (lit ''pong'') \<and> message_field d ''source_id'' = station \<and>
                        Some n = expected
                     then PacketAuthenticated else PacketIgnored
                 | _ \<Rightarrow> PacketIgnored)
            | _ \<Rightarrow> PacketIgnored))"

subsection \<open>The handshake\<close>

datatype receipt = Packet bytes endpoint | ReceiveRaised py_error

text \<open>A turn of a receive loop: the clock at its head, what is received, the clock afterwards.\<close>

type_synonym receive_turn = "time \<times> receipt \<times> time"

record ('sk, 'pk) client_config =
  cc_crypto :: "('sk, 'pk) listener_crypto"
  cc_station :: pyval
  cc_station_key :: 'sk
  cc_server_key :: 'pk
  cc_remote :: endpoint
  cc_nesting :: nat

record 'sk handshake_env =
  he_wall :: time
  he_ping_wall :: time
  he_urandom :: "nat \<Rightarrow> bytes"
  he_ephemeral :: 'sk
  he_start :: time
  he_timeout :: "time option"
  he_hello_error :: "py_error option"
  he_ping_error :: "py_error option"

text \<open>
  How the handshake ends: no keys (\<open>None\<close>), an exception, or the keys; \<open>Waiting\<close> when the turns
  given are used up. The packets sent are returned beside it.
\<close>

datatype handshake_end = Waiting | NoKeys | Escaped py_error | Keys session_key_material

definition handshake_timeout :: "'sk handshake_env \<Rightarrow> time" where
  "handshake_timeout env =
     (case he_timeout env of None \<Rightarrow> 5 * ticks_per_second | Some t \<Rightarrow> max t (ticks_per_second div 10))"

definition make_hello ::
  "('sk, 'pk) client_config \<Rightarrow> 'sk handshake_env \<Rightarrow> (client_hello \<times> bytes) res" where
  "make_hello cfg env =
     (let C = cc_crypto cfg; t = PInt (whole_seconds (he_wall env)); random = he_urandom env 32
      in rbind (serialize_ephemeral_public_key C (public_key C (he_ephemeral env))) (\<lambda>public.
         rbind (build_client_auth_digest C (cc_station cfg) t (Bytes random) (Bytes public)) (\<lambda>digest.
         rbind (sign_transcript_digest C (cc_station_key cfg) (Bytes digest)) (\<lambda>signature.
         rbind (make_client_hello (cc_station cfg) t (PBytes random) (PBytes public) (PBytes signature)) (\<lambda>h.
         rbind (build_client_hello_packet h) (\<lambda>packet. Inr (h, packet)))))))"

text \<open>
  What a response of the server comes to: it is passed over (\<open>None\<close>), or it authenticates and
  gives the keys, or an exception escapes.
\<close>

definition accept_response ::
  "('sk, 'pk) client_config \<Rightarrow> 'sk \<Rightarrow> client_hello \<Rightarrow> bytes \<Rightarrow> session_key_material option res" where
  "accept_response cfg sk h response =
     (let C = cc_crypto cfg
      in case rbind (parse_server_hello_packet (PBytes response)) (\<lambda>s.
                rbind (parse_ephemeral_public_key C (Bytes (sh_public_key s))) (\<lambda>pk. Inr (s, pk))) of
           Inl e \<Rightarrow> if e = TypeError \<or> is_value_error e then Inr None else Inl e
         | Inr (s, pk) \<Rightarrow>
             rbind (build_server_auth_digest C (PStr (ch_station_id h)) (PInt (ch_timestamp h)) (Bytes (ch_random h))
                      (Bytes (ch_public_key h)) (Bytes (ch_signature h)) (Bytes (sh_random s))
                      (Bytes (sh_public_key s))) (\<lambda>digest.
             rbind (verify_transcript_signature C (cc_server_key cfg) (Bytes (sh_signature s)) (Bytes digest)) (\<lambda>ok.
             if \<not> ok then Inr None
             else rbind (derive_ephemeral_shared_secret C sk pk) (\<lambda>secret.
                  rbind (build_session_transcript_hash C (PStr (ch_station_id h)) (PInt (ch_timestamp h))
                           (Bytes (ch_random h)) (Bytes (ch_public_key h)) (Bytes (ch_signature h))
                           (Bytes (sh_random s)) (Bytes (sh_public_key s)) (Bytes (sh_signature s))) (\<lambda>hash.
                  rbind (derive_session_key_material C (Bytes secret) (Bytes hash)) (\<lambda>km.
                    Inr (Some km)))))))"

text \<open>The inner loop, which waits for the answer to the confirmation ping.\<close>

fun await_confirmation ::
  "('sk, 'pk) client_config \<Rightarrow> session_key_material \<Rightarrow> time \<Rightarrow> receive_turn list \<Rightarrow> handshake_end" where
  "await_confirmation cfg km deadline [] = Waiting"
| "await_confirmation cfg km deadline ((now, r, _) # turns) =
     (if deadline - now \<le> 0 then NoKeys
      else (case r of
              ReceiveRaised e \<Rightarrow> if is_os_error e then NoKeys else Escaped e
            | Packet data addr \<Rightarrow>
                if \<not> remote_addresses_match addr (cc_remote cfg) then await_confirmation cfg km deadline turns
                else (case handle_server_packet (cc_crypto cfg) (cc_nesting cfg) data addr (cc_remote cfg)
                             (server_to_client_key km) (cc_station cfg) (Some confirmation_sequence) of
                        PacketNoSession \<Rightarrow> NoKeys
                      | PacketIgnored \<Rightarrow> await_confirmation cfg km deadline turns
                      | PacketAuthenticated \<Rightarrow> Keys km)))"

fun await_hello ::
  "('sk, 'pk) client_config \<Rightarrow> 'sk handshake_env \<Rightarrow> client_hello \<Rightarrow> time \<Rightarrow> receive_turn list \<Rightarrow> bytes list \<times> handshake_end" where
  "await_hello cfg env h deadline [] = ([], Waiting)"
| "await_hello cfg env h deadline ((now, r, later) # turns) =
     (if deadline - now \<le> 0 then ([], NoKeys)
      else (case r of
              ReceiveRaised e \<Rightarrow> ([], if is_os_error e then NoKeys else Escaped e)
            | Packet data addr \<Rightarrow>
                if \<not> remote_addresses_match addr (cc_remote cfg) then await_hello cfg env h deadline turns
                else (case accept_response cfg (he_ephemeral env) h data of
                        Inl e \<Rightarrow> ([], Escaped e)
                      | Inr None \<Rightarrow> await_hello cfg env h deadline turns
                      | Inr (Some km) \<Rightarrow>
                          (case encrypt_json (cc_crypto cfg) (he_urandom env 12)
                                  (ping_message (cc_station cfg) (he_ping_wall env) confirmation_sequence)
                                  (client_to_server_key km) of
                             Inl e \<Rightarrow> ([], Escaped e)
                           | Inr ping \<Rightarrow>
                               (case he_ping_error env of
                                  Some e \<Rightarrow> ([], if is_os_error e then NoKeys else Escaped e)
                                | None \<Rightarrow>
                                    ([ping], await_confirmation cfg km (later + handshake_timeout env) turns))))))"

definition perform_handshake ::
  "('sk, 'pk) client_config \<Rightarrow> 'sk handshake_env \<Rightarrow> receive_turn list \<Rightarrow> bytes list \<times> handshake_end" where
  "perform_handshake cfg env turns =
     (case make_hello cfg env of
        Inl e \<Rightarrow> ([], Escaped e)
      | Inr (h, packet) \<Rightarrow>
          (case he_hello_error env of
             Some e \<Rightarrow> ([], if is_os_error e then NoKeys else Escaped e)
           | None \<Rightarrow>
               (case await_hello cfg env h (he_start env + handshake_timeout env) turns of
                  (sent, r) \<Rightarrow> (packet # sent, r))))"

subsection \<open>What a handshake rests on\<close>

text \<open>The packet carries a signature of the server over the transcript of the hello, and gives the keys.\<close>

definition server_vouches ::
  "('sk, 'pk) client_config \<Rightarrow> 'sk \<Rightarrow> client_hello \<Rightarrow> bytes \<Rightarrow> session_key_material \<Rightarrow> bool" where
  "server_vouches cfg sk h response km \<longleftrightarrow>
     (let C = cc_crypto cfg
      in \<exists>s digest pk secret hash. parse_server_hello_packet (PBytes response) = Inr s \<and>
        build_server_auth_digest C (PStr (ch_station_id h)) (PInt (ch_timestamp h)) (Bytes (ch_random h))
          (Bytes (ch_public_key h)) (Bytes (ch_signature h)) (Bytes (sh_random s)) (Bytes (sh_public_key s)) = Inr digest \<and>
        verify_transcript_signature C (cc_server_key cfg) (Bytes (sh_signature s)) (Bytes digest) = Inr True \<and>
        parse_ephemeral_public_key C (Bytes (sh_public_key s)) = Inr pk \<and>
        derive_ephemeral_shared_secret C sk pk = Inr secret \<and>
        build_session_transcript_hash C (PStr (ch_station_id h)) (PInt (ch_timestamp h)) (Bytes (ch_random h))
          (Bytes (ch_public_key h)) (Bytes (ch_signature h)) (Bytes (sh_random s)) (Bytes (sh_public_key s))
          (Bytes (sh_signature s)) = Inr hash \<and>
        derive_session_key_material C (Bytes secret) (Bytes hash) = Inr km)"

text \<open>The packet opens under the server's key to the answer to a ping.\<close>

definition authentic_pong ::
  "('sk, 'pk) listener_crypto \<Rightarrow> nat \<Rightarrow> bytes \<Rightarrow> bytes \<Rightarrow> pyval \<Rightarrow> int \<Rightarrow> bool" where
  "authentic_pong C lim data s2c station seq \<longleftrightarrow>
     (\<exists>d. decrypt_json C lim data s2c = Inr (PDict d) \<and> message_field d ''type'' = PStr (lit ''pong'') \<and>
        message_field d ''seq'' = PInt seq \<and> message_field d ''source_id'' = station)"

lemma accept_response_keys:
  "accept_response cfg sk h response = Inr (Some km) \<Longrightarrow> server_vouches cfg sk h response km"
  unfolding accept_response_def server_vouches_def Let_def
  by (auto simp: rbind_Inr_iff rbind_Inl_iff split: sum.splits if_splits)

lemma handle_server_packet_authentic:
  "handle_server_packet C lim data addr remote s2c station expected = PacketAuthenticated \<Longrightarrow>
   remote_addresses_match addr remote \<and> (\<exists>n. expected = Some n \<and> authentic_pong C lim data s2c station n)"
  by (auto simp: handle_server_packet_def authentic_pong_def split: if_splits sum.splits pyval.splits)

text \<open>What the server's address sent.\<close>

fun remote_packets :: "endpoint \<Rightarrow> receive_turn list \<Rightarrow> bytes list" where
  "remote_packets remote [] = []"
| "remote_packets remote ((now, r, later) # turns) =
     (case r of
        Packet data addr \<Rightarrow> (if remote_addresses_match addr remote then [data] else [])
      | ReceiveRaised e \<Rightarrow> []) @ remote_packets remote turns"

lemma await_confirmation_keys:
  "await_confirmation cfg km deadline turns = Keys k \<Longrightarrow>
   k = km \<and> (\<exists>pong \<in> set (remote_packets (cc_remote cfg) turns).
     authentic_pong (cc_crypto cfg) (cc_nesting cfg) pong (server_to_client_key km) (cc_station cfg) confirmation_sequence)"
proof (induction cfg km deadline turns rule: await_confirmation.induct)
  case (2 cfg km deadline now r later turns)
  show ?case
  proof (cases r)
    case (Packet data addr)
    let ?h = "handle_server_packet (cc_crypto cfg) (cc_nesting cfg) data addr (cc_remote cfg)
          (server_to_client_key km) (cc_station cfg) (Some confirmation_sequence)"
    consider "\<not> remote_addresses_match addr (cc_remote cfg) \<or> ?h = PacketIgnored"
      | "remote_addresses_match addr (cc_remote cfg)" "?h = PacketNoSession"
      | "remote_addresses_match addr (cc_remote cfg)" "?h = PacketAuthenticated"
      by (cases ?h) auto
    then show ?thesis
    proof cases
      case 1
      then have "await_confirmation cfg km deadline turns = Keys k" using 2(3) Packet by (auto split: if_splits)
      with 1 2(1,2,3) Packet show ?thesis by (auto split: if_splits)
    next
      case 2
      then show ?thesis using \<open>await_confirmation cfg km deadline ((now, r, later) # turns) = Keys k\<close> Packet
        by (auto split: if_splits)
    next
      case 3
      from handle_server_packet_authentic [OF 3(2)] have
        "authentic_pong (cc_crypto cfg) (cc_nesting cfg) data (server_to_client_key km) (cc_station cfg) confirmation_sequence"
        by simp
      with 3 2(3) Packet show ?thesis by (auto split: if_splits)
    qed
  qed (use 2(3) in \<open>auto split: if_splits\<close>)
qed simp

lemma await_hello_keys:
  "await_hello cfg env h deadline turns = (sent, Keys km) \<Longrightarrow>
   (\<exists>response \<in> set (remote_packets (cc_remote cfg) turns). server_vouches cfg (he_ephemeral env) h response km) \<and>
   (\<exists>pong \<in> set (remote_packets (cc_remote cfg) turns).
     authentic_pong (cc_crypto cfg) (cc_nesting cfg) pong (server_to_client_key km) (cc_station cfg) confirmation_sequence)"
proof (induction cfg env h deadline turns arbitrary: sent rule: await_hello.induct)
  case (2 cfg env h deadline now r later turns)
  show ?case
  proof (cases r)
    case (Packet data addr)
    let ?a = "accept_response cfg (he_ephemeral env) h data"
    consider "\<not> remote_addresses_match addr (cc_remote cfg) \<or> ?a = Inr None"
      | e where "remote_addresses_match addr (cc_remote cfg)" "?a = Inl e"
      | k where "remote_addresses_match addr (cc_remote cfg)" "?a = Inr (Some k)"
      by (cases ?a) (auto, metis option.exhaust)
    then show ?thesis
    proof cases
      case 1
      then have "await_hello cfg env h deadline turns = (sent, Keys km)"
        using 2(3) Packet by (auto split: if_splits)
      with 1 2(1,2,3) Packet show ?thesis by (auto split: if_splits)
    next
      case (2 e)
      then show ?thesis using \<open>await_hello cfg env h deadline ((now, r, later) # turns) = (sent, Keys km)\<close> Packet
        by (auto split: if_splits)
    next
      case (3 k)
      then have "await_confirmation cfg k (later + handshake_timeout env) turns = Keys km"
        using 2(3) Packet by (auto split: if_splits sum.splits option.splits)
      from await_confirmation_keys [OF this] accept_response_keys [OF 3(2)] 3 Packet show ?thesis by auto
    qed
  qed (use 2(3) in \<open>auto split: if_splits\<close>)
qed simp

lemma await_confirmation_waits:
  "await_confirmation cfg km deadline turns = Waiting \<Longrightarrow> \<forall>(now, r, later) \<in> set turns. now < deadline"
  by (induction cfg km deadline turns rule: await_confirmation.induct)
    (auto split: if_splits receipt.splits server_packet.splits)

lemma await_hello_waits:
  "await_hello cfg env h deadline turns = (sent, Waiting) \<Longrightarrow> (now, r, later) \<in> set turns \<Longrightarrow>
   now < deadline \<or> (\<exists>n r' l. (n, r', l) \<in> set turns \<and> n < deadline \<and> now < l + handshake_timeout env)"
proof (induction cfg env h deadline turns arbitrary: sent rule: await_hello.induct)
  case (2 cfg env h deadline head q after turns)
  have head: "head < deadline" using 2(3) by (auto split: if_splits)
  show ?case
  proof (cases q)
    case (Packet data addr)
    let ?a = "accept_response cfg (he_ephemeral env) h data"
    consider "\<not> remote_addresses_match addr (cc_remote cfg) \<or> ?a = Inr None"
      | e where "remote_addresses_match addr (cc_remote cfg)" "?a = Inl e"
      | k where "remote_addresses_match addr (cc_remote cfg)" "?a = Inr (Some k)"
      by (cases ?a) (auto, metis option.exhaust)
    then show ?thesis
    proof cases
      case 1
      then have w: "await_hello cfg env h deadline turns = (sent, Waiting)"
        using 2(3) Packet by (auto split: if_splits)
      from 1 2(1,2) head Packet w have "(now, r, later) \<in> set turns \<Longrightarrow> ?thesis"
        by (metis diff_gt_0_iff_gt list.set_intros(2) not_le)
      with head 2(4) show ?thesis by auto
    next
      case (2 e)
      then show ?thesis using \<open>await_hello cfg env h deadline ((head, q, after) # turns) = (sent, Waiting)\<close> Packet
        by (auto split: if_splits)
    next
      case (3 k)
      then have "await_confirmation cfg k (after + handshake_timeout env) turns = Waiting"
        using 2(3) Packet by (auto split: if_splits sum.splits option.splits)
      from await_confirmation_waits [OF this] head 2(4) show ?thesis by fastforce
    qed
  qed (use 2(3) in \<open>auto split: if_splits\<close>)
qed simp

subsection \<open>Both sides of a handshake\<close>

text \<open>
  What the package promises of the keys in play: the ephemeral keys are on the curve and their
  points can be decoded again, the exchange is symmetric, and the server's identity key
  verifies what the server signs.
\<close>

definition key_laws :: "('sk, 'pk) listener_crypto \<Rightarrow> 'sk \<Rightarrow> 'sk \<Rightarrow> bool" where
  "key_laws C a b \<longleftrightarrow>
     (\<forall>k \<in> {a, b}. is_p256_private C k \<and> from_encoded_point C (compressed_point C (public_key C k)) = Some (public_key C k)) \<and>
     ecdh_exchange C a (public_key C b) = ecdh_exchange C b (public_key C a)"

definition identity_laws :: "('sk, 'pk) listener_crypto \<Rightarrow> 'sk \<Rightarrow> 'pk \<Rightarrow> bool" where
  "identity_laws C sk pk \<longleftrightarrow>
     (\<forall>d s. sign_transcript_digest C sk (Bytes d) = Inr s \<longrightarrow> verify_transcript_signature C pk (Bytes s) (Bytes d) = Inr True)"

lemma serialize_parse:
  assumes "serialize_ephemeral_public_key C (public_key C k) = Inr b"
    and "from_encoded_point C (compressed_point C (public_key C k)) = Some (public_key C k)"
  shows "parse_ephemeral_public_key C (Bytes b) = Inr (public_key C k)"
  using assms
  by (auto simp: serialize_ephemeral_public_key_def parse_ephemeral_public_key_def required_bytes_def Let_def split: if_splits)

lemma make_hello_valid:
  assumes "make_hello cfg env = Inr (h, packet)" and "cc_station cfg = PStr s" and "wf_text s"
  shows "parse_client_hello_packet (PBytes packet) = Inr h"
    and "serialize_ephemeral_public_key (cc_crypto cfg) (public_key (cc_crypto cfg) (he_ephemeral env)) = Inr (ch_public_key h)"
    and "ch_station_id h = s"
proof -
  obtain public signature where m: "serialize_ephemeral_public_key (cc_crypto cfg) (public_key (cc_crypto cfg) (he_ephemeral env)) = Inr public"
    "make_client_hello (PStr s) (PInt (whole_seconds (he_wall env))) (PBytes (he_urandom env 32)) (PBytes public) (PBytes signature) = Inr h"
    "build_client_hello_packet h = Inr packet"
    using assms(1) unfolding make_hello_def Let_def rbind_Inr_iff assms(2) by blast
  then have h: "h = \<lparr>ch_station_id = s, ch_timestamp = whole_seconds (he_wall env), ch_random = he_urandom env 32,
      ch_public_key = public, ch_signature = signature\<rparr>"
    by (simp add: make_client_hello_iff)
  then have "valid_client_hello h" using m(2) assms(3) by (simp add: valid_client_hello_def)
  then show "parse_client_hello_packet (PBytes packet) = Inr h" using m(3) client_hello_codec by blast
  show "serialize_ephemeral_public_key (cc_crypto cfg) (public_key (cc_crypto cfg) (he_ephemeral env)) = Inr (ch_public_key h)"
    "ch_station_id h = s" using m(1) h by simp_all
qed

lemma server_handshake_parts:
  assumes "build_server_handshake cfg env h client_key = Inr (packet, c2s, s2c)"
  obtains public digest signature secret hash ks where
    "serialize_ephemeral_public_key (lc_crypto cfg) (public_key (lc_crypto cfg) (de_ephemeral env)) = Inr public"
    "build_server_auth_digest (lc_crypto cfg) (PStr (ch_station_id h)) (PInt (ch_timestamp h)) (Bytes (ch_random h))
       (Bytes (ch_public_key h)) (Bytes (ch_signature h)) (Bytes (de_urandom env 32)) (Bytes public) = Inr digest"
    "sign_transcript_digest (lc_crypto cfg) (lc_server_key cfg) (Bytes digest) = Inr signature"
    "derive_ephemeral_shared_secret (lc_crypto cfg) (de_ephemeral env) client_key = Inr secret"
    "build_session_transcript_hash (lc_crypto cfg) (PStr (ch_station_id h)) (PInt (ch_timestamp h)) (Bytes (ch_random h))
       (Bytes (ch_public_key h)) (Bytes (ch_signature h)) (Bytes (de_urandom env 32)) (Bytes public) (Bytes signature) = Inr hash"
    "derive_session_key_material (lc_crypto cfg) (Bytes secret) (Bytes hash) = Inr ks"
    "parse_server_hello_packet (PBytes packet) =
       Inr \<lparr>sh_random = de_urandom env 32, sh_public_key = public, sh_signature = signature\<rparr>"
    "c2s = client_to_server_key ks" "s2c = server_to_client_key ks"
proof -
  obtain public digest signature secret hash ks hello where p:
    "serialize_ephemeral_public_key (lc_crypto cfg) (public_key (lc_crypto cfg) (de_ephemeral env)) = Inr public"
    "build_server_auth_digest (lc_crypto cfg) (PStr (ch_station_id h)) (PInt (ch_timestamp h)) (Bytes (ch_random h))
       (Bytes (ch_public_key h)) (Bytes (ch_signature h)) (Bytes (de_urandom env 32)) (Bytes public) = Inr digest"
    "sign_transcript_digest (lc_crypto cfg) (lc_server_key cfg) (Bytes digest) = Inr signature"
    "derive_ephemeral_shared_secret (lc_crypto cfg) (de_ephemeral env) client_key = Inr secret"
    "build_session_transcript_hash (lc_crypto cfg) (PStr (ch_station_id h)) (PInt (ch_timestamp h)) (Bytes (ch_random h))
       (Bytes (ch_public_key h)) (Bytes (ch_signature h)) (Bytes (de_urandom env 32)) (Bytes public) (Bytes signature) = Inr hash"
    "derive_session_key_material (lc_crypto cfg) (Bytes secret) (Bytes hash) = Inr ks"
    "make_server_hello (PBytes (de_urandom env 32)) (PBytes public) (PBytes signature) = Inr hello"
    "packet = build_server_hello_packet hello" "c2s = client_to_server_key ks" "s2c = server_to_client_key ks"
    using assms unfolding build_server_handshake_def Let_def rbind_Inr_iff by blast
  have hello: "hello = \<lparr>sh_random = de_urandom env 32, sh_public_key = public, sh_signature = signature\<rparr>"
    using p(7) by (simp add: make_server_hello_iff)
  then have "valid_server_hello hello" using p(7) by (simp add: valid_server_hello_def)
  then have "parse_server_hello_packet (PBytes packet) = Inr hello" using p(8) server_hello_codec by blast
  with p hello that show thesis by blast
qed

lemma handshake_agreement:
  assumes "make_hello cfg env = Inr (h, packet)" and "cc_station cfg = PStr s" and "wf_text s"
    and "lc_crypto lc = cc_crypto cfg" and "authenticate_hello lc de packet = Inr (h', client_key, replay)"
    and "build_server_handshake lc de h' client_key = Inr (response, c2s, s2c)"
    and "key_laws (cc_crypto cfg) (he_ephemeral env) (de_ephemeral de)"
    and "identity_laws (cc_crypto cfg) (lc_server_key lc) (cc_server_key cfg)"
  shows "h' = h \<and> accept_response cfg (he_ephemeral env) h response =
    Inr (Some \<lparr>client_to_server_key = c2s, server_to_client_key = s2c\<rparr>)"
proof -
  let ?C = "cc_crypto cfg" and ?a = "he_ephemeral env" and ?b = "de_ephemeral de"
  note hello = make_hello_valid [OF assms(1-3)]
  have laws: "from_encoded_point ?C (compressed_point ?C (public_key ?C ?a)) = Some (public_key ?C ?a)"
    "from_encoded_point ?C (compressed_point ?C (public_key ?C ?b)) = Some (public_key ?C ?b)"
    "is_p256_private ?C ?a" "is_p256_private ?C ?b"
    "ecdh_exchange ?C ?a (public_key ?C ?b) = ecdh_exchange ?C ?b (public_key ?C ?a)"
    using assms(7) by (auto simp: key_laws_def)
  have h': "h' = h" "client_key = public_key ?C ?a"
    using assms(4,5) hello(1) serialize_parse [OF hello(2) laws(1)]
    by (auto simp: authenticate_hello_def Let_def rbind_Inr_iff split: if_splits option.splits)
  from assms(6) show ?thesis
  proof (rule server_handshake_parts)
    fix public digest signature secret hash ks
    assume p: "serialize_ephemeral_public_key (lc_crypto lc) (public_key (lc_crypto lc) ?b) = Inr public"
      "build_server_auth_digest (lc_crypto lc) (PStr (ch_station_id h')) (PInt (ch_timestamp h')) (Bytes (ch_random h'))
         (Bytes (ch_public_key h')) (Bytes (ch_signature h')) (Bytes (de_urandom de 32)) (Bytes public) = Inr digest"
      "sign_transcript_digest (lc_crypto lc) (lc_server_key lc) (Bytes digest) = Inr signature"
      "derive_ephemeral_shared_secret (lc_crypto lc) ?b client_key = Inr secret"
      "build_session_transcript_hash (lc_crypto lc) (PStr (ch_station_id h')) (PInt (ch_timestamp h')) (Bytes (ch_random h'))
         (Bytes (ch_public_key h')) (Bytes (ch_signature h')) (Bytes (de_urandom de 32)) (Bytes public) (Bytes signature) = Inr hash"
      "derive_session_key_material (lc_crypto lc) (Bytes secret) (Bytes hash) = Inr ks"
      "parse_server_hello_packet (PBytes response) =
         Inr \<lparr>sh_random = de_urandom de 32, sh_public_key = public, sh_signature = signature\<rparr>"
      "c2s = client_to_server_key ks" "s2c = server_to_client_key ks"
    note p = p [unfolded assms(4) h']
    have "is_p256_public ?C (public_key ?C ?b)"
      using p(1) by (simp add: serialize_ephemeral_public_key_def split: if_splits)
    then have "derive_ephemeral_shared_secret ?C ?a (public_key ?C ?b) = Inr secret"
      using p(4) laws by (auto simp: derive_ephemeral_shared_secret_def Let_def split: if_splits)
    moreover have "parse_ephemeral_public_key ?C (Bytes public) = Inr (public_key ?C ?b)"
      by (rule serialize_parse [OF p(1) laws(2)])
    moreover have "verify_transcript_signature ?C (cc_server_key cfg) (Bytes signature) (Bytes digest) = Inr True"
      using assms(8) p(3) by (simp add: identity_laws_def)
    ultimately show ?thesis using p h' by (simp add: accept_response_def Let_def)
  qed
qed

subsection \<open>A session\<close>

datatype session_end = PlannedRefresh | PeerTimeout | NoSessionEnd | SocketError | HandshakeFailure

record session_timing =
  keepalive_interval :: time
  peer_timeout :: time
  session_refresh_interval :: time
  reconnect_delay :: time

definition session_expiration_reason :: "time \<Rightarrow> time \<Rightarrow> time \<Rightarrow> session_timing \<Rightarrow> session_end option" where
  "session_expiration_reason now started peer t =
     (if peer_timeout t \<le> now - peer then Some PeerTimeout
      else if 0 < session_refresh_interval t \<and> session_refresh_interval t \<le> now - started then Some PlannedRefresh
      else None)"

definition session_poll_timeout :: "time \<Rightarrow> time \<Rightarrow> time \<Rightarrow> time \<Rightarrow> session_timing \<Rightarrow> time" where
  "session_poll_timeout now started peer ping t =
     max 0 (min_list ([ping + keepalive_interval t, peer + peer_timeout t] @
       (if 0 < session_refresh_interval t then [started + session_refresh_interval t] else [])) - now)"

definition retry_delay_for_reason :: "session_end \<Rightarrow> session_timing \<Rightarrow> time option" where
  "retry_delay_for_reason reason t = (if reason = PlannedRefresh then None else Some (reconnect_delay t))"

text \<open>
  The variables of \<open>forward_loop\<close>, with the packets sent so far. The last two fields record the
  numbers of the pings sent and of those the server was seen to answer.
\<close>

record session_loop =
  fl_started :: time
  fl_peer :: time
  fl_ping :: time
  fl_expected :: "int option"
  fl_next :: int
  fl_sent :: "bytes list"
  fl_pings :: "int list"
  fl_answered :: "int list"

text \<open>Sends: the wall clock, the nonce and the outcome depend on how many packets were sent.\<close>

record send_env =
  se_wall :: "nat \<Rightarrow> time"
  se_nonce :: "nat \<Rightarrow> bytes"
  se_error :: "nat \<Rightarrow> py_error option"

definition send_packet ::
  "('sk, 'pk) client_config \<Rightarrow> send_env \<Rightarrow> bytes \<Rightarrow> (time \<Rightarrow> pyval) \<Rightarrow> session_loop \<Rightarrow> py_error option \<times> session_loop" where
  "send_packet cfg se c2s msg st =
     (let n = length (fl_sent st)
      in case encrypt_json (cc_crypto cfg) (se_nonce se n) (msg (se_wall se n)) c2s of
           Inl e \<Rightarrow> (Some e, st)
         | Inr packet \<Rightarrow>
             (case se_error se n of
                Some e \<Rightarrow> (Some e, st)
              | None \<Rightarrow> (None, st\<lparr>fl_sent := fl_sent st @ [packet]\<rparr>)))"

definition send_udpsec_nmea_sentence ::
  "('sk, 'pk) client_config \<Rightarrow> send_env \<Rightarrow> bytes \<Rightarrow> pystr \<Rightarrow> session_loop \<Rightarrow> py_error option \<times> session_loop" where
  "send_udpsec_nmea_sentence cfg se c2s line st =
     send_packet cfg se c2s (\<lambda>wall. nmea_message (cc_station cfg) wall line) st"

text \<open>\<open>forward_input_payload\<close> over any way to send a sentence, and over the data of one reading.\<close>

fun forward_sentences :: "(pystr \<Rightarrow> 's \<Rightarrow> py_error option \<times> 's) \<Rightarrow> pystr list \<Rightarrow> 's \<Rightarrow> py_error option \<times> 's" where
  "forward_sentences emit [] st = (None, st)"
| "forward_sentences emit (line # ls) st =
     (if line = [] then forward_sentences emit ls st
      else (case emit line st of
              (Some e, st1) \<Rightarrow> (Some e, st1)
            | (None, st1) \<Rightarrow> forward_sentences emit ls st1))"

definition forward_input_payload ::
  "(pystr \<Rightarrow> 's \<Rightarrow> py_error option \<times> 's) \<Rightarrow> bytes \<Rightarrow> 's \<Rightarrow> py_error option \<times> 's" where
  "forward_input_payload emit data st = forward_sentences emit (iter_forwardable_nmea_sentences data) st"

fun forward_payloads ::
  "(pystr \<Rightarrow> 's \<Rightarrow> py_error option \<times> 's) \<Rightarrow> bytes list \<Rightarrow> 's \<Rightarrow> py_error option \<times> 's" where
  "forward_payloads emit [] st = (None, st)"
| "forward_payloads emit (d # ds) st =
     (case forward_input_payload emit d st of
        (Some e, st1) \<Rightarrow> (Some e, st1)
      | (None, st1) \<Rightarrow> forward_payloads emit ds st1)"

definition send_ping ::
  "('sk, 'pk) client_config \<Rightarrow> send_env \<Rightarrow> bytes \<Rightarrow> int \<Rightarrow> session_loop \<Rightarrow> py_error option \<times> session_loop" where
  "send_ping cfg se c2s seq st =
     send_packet cfg se c2s (\<lambda>wall. ping_message (cc_station cfg) wall seq) st"

text \<open>
  A turn of the loop: the clock at its head, the lines pending, whether \<open>select\<close> raised, what
  the server's socket returned if it was readable and the clock then, what each readable input
  socket returned, and the clock at the end.
\<close>

record turn =
  tu_head :: time
  tu_pending :: "bytes list"
  tu_select_error :: "py_error option"
  tu_peer :: "receipt option"
  tu_peer_time :: time
  tu_inputs :: "bytes list res list"
  tu_last :: time
  tu_send :: send_env

datatype loop_end = Continue | Ended session_end | Raised py_error

text \<open>\<open>except Exception\<close>\<close>

definition socket_failure :: "py_error \<Rightarrow> loop_end" where
  "socket_failure e = (if is_exception e then Ended SocketError else Raised e)"

fun forward_inputs ::
  "(pystr \<Rightarrow> 's \<Rightarrow> py_error option \<times> 's) \<Rightarrow> bytes list res list \<Rightarrow> 's \<Rightarrow> py_error option \<times> 's" where
  "forward_inputs emit [] st = (None, st)"
| "forward_inputs emit (Inl e # rs) st = (Some e, st)"
| "forward_inputs emit (Inr ds # rs) st =
     (case forward_payloads emit ds st of
        (Some e, st1) \<Rightarrow> (Some e, st1)
      | (None, st1) \<Rightarrow> forward_inputs emit rs st1)"

definition receive_peer ::
  "('sk, 'pk) client_config \<Rightarrow> session_key_material \<Rightarrow> turn \<Rightarrow> session_loop \<Rightarrow> loop_end \<times> session_loop" where
  "receive_peer cfg km tu st =
     (case tu_peer tu of
        None \<Rightarrow> (Continue, st)
      | Some (ReceiveRaised e) \<Rightarrow> (socket_failure e, st)
      | Some (Packet data addr) \<Rightarrow>
          (case handle_server_packet (cc_crypto cfg) (cc_nesting cfg) data addr (cc_remote cfg)
                  (server_to_client_key km) (cc_station cfg) (fl_expected st) of
             PacketNoSession \<Rightarrow> (Ended NoSessionEnd, st)
           | PacketIgnored \<Rightarrow> (Continue, st)
           | PacketAuthenticated \<Rightarrow>
               (Continue, st\<lparr>fl_peer := tu_peer_time tu, fl_expected := None,
                             fl_answered := fl_answered st @ [the (fl_expected st)]\<rparr>)))"

definition ping_if_due ::
  "('sk, 'pk) client_config \<Rightarrow> session_timing \<Rightarrow> session_key_material \<Rightarrow> turn \<Rightarrow> session_loop \<Rightarrow> loop_end \<times> session_loop" where
  "ping_if_due cfg t km tu st =
     (if keepalive_interval t \<le> tu_last tu - fl_ping st then
        (case send_ping cfg (tu_send tu) (client_to_server_key km) (fl_next st) st of
           (Some e, st1) \<Rightarrow> (socket_failure e, st1)
         | (None, st1) \<Rightarrow>
             (Continue, st1\<lparr>fl_expected := Some (fl_next st), fl_next := fl_next st + 1, fl_ping := tu_last tu,
                            fl_pings := fl_pings st @ [fl_next st]\<rparr>))
      else (Continue, st))"

definition forward_turn ::
  "('sk, 'pk) client_config \<Rightarrow> session_timing \<Rightarrow> session_key_material \<Rightarrow> turn \<Rightarrow> session_loop \<Rightarrow> loop_end \<times> session_loop" where
  "forward_turn cfg t km tu st =
     (let emit = send_udpsec_nmea_sentence cfg (tu_send tu) (client_to_server_key km)
      in case session_expiration_reason (tu_head tu) (fl_started st) (fl_peer st) t of
           Some reason \<Rightarrow> (Ended reason, st)
         | None \<Rightarrow>
             (case forward_payloads emit (tu_pending tu) st of
                (Some e, st1) \<Rightarrow> (socket_failure e, st1)
              | (None, st1) \<Rightarrow>
                  (case tu_select_error tu of
                     Some e \<Rightarrow> (socket_failure e, st1)
                   | None \<Rightarrow>
                       (case receive_peer cfg km tu st1 of
                          (Continue, st2) \<Rightarrow>
                            (case forward_inputs emit (tu_inputs tu) st2 of
                               (Some e, st3) \<Rightarrow> (socket_failure e, st3)
                             | (None, st3) \<Rightarrow> ping_if_due cfg t km tu st3)
                        | r \<Rightarrow> r))))"

definition session_loop_init :: "time \<Rightarrow> session_loop" where
  "session_loop_init now =
     \<lparr>fl_started = now, fl_peer = now, fl_ping = now, fl_expected = None, fl_next = 1, fl_sent = [],
      fl_pings = [], fl_answered = []\<rparr>"

text \<open>The loop over the turns given; \<open>Continue\<close> when they are used up.\<close>

fun forward_loop ::
  "('sk, 'pk) client_config \<Rightarrow> session_timing \<Rightarrow> session_key_material \<Rightarrow> turn list \<Rightarrow> session_loop \<Rightarrow> loop_end \<times> session_loop" where
  "forward_loop cfg t km [] st = (Continue, st)"
| "forward_loop cfg t km (tu # tus) st =
     (case forward_turn cfg t km tu st of
        (Continue, st1) \<Rightarrow> forward_loop cfg t km tus st1
      | r \<Rightarrow> r)"

subsection \<open>The invariant of a session\<close>

text \<open>What a turn got from the server's address.\<close>

definition turn_packets :: "endpoint \<Rightarrow> turn list \<Rightarrow> bytes list" where
  "turn_packets remote tus =
     concat (map (\<lambda>tu. case tu_peer tu of
       Some (Packet data addr) \<Rightarrow> if remote_addresses_match addr remote then [data] else [] | _ \<Rightarrow> []) tus)"

lemma turn_packets_simps [simp]:
  "turn_packets remote [] = []"
  "turn_packets remote (tus @ tus') = turn_packets remote tus @ turn_packets remote tus'"
  by (simp_all add: turn_packets_def)

definition pinging :: "('sk, 'pk) client_config \<Rightarrow> session_key_material \<Rightarrow> turn list \<Rightarrow> session_loop \<Rightarrow> bool" where
  "pinging cfg km tus st \<longleftrightarrow>
     1 \<le> fl_next st \<and> fl_pings st = [1..fl_next st - 1] \<and>
     (\<forall>k. fl_expected st = Some k \<longrightarrow> k = fl_next st - 1 \<and> 1 \<le> k \<and> k \<notin> set (fl_answered st)) \<and>
     sorted_wrt (<) (fl_answered st) \<and> set (fl_answered st) \<subseteq> {1..fl_next st - 1} \<and>
     (\<forall>n \<in> set (fl_answered st). \<exists>data \<in> set (turn_packets (cc_remote cfg) tus).
        authentic_pong (cc_crypto cfg) (cc_nesting cfg) data (server_to_client_key km) (cc_station cfg) n)"

text \<open>The sentences of the data read, and the data of the sockets that could be read.\<close>

definition sentences_of :: "bytes list \<Rightarrow> pystr list" where
  "sentences_of ds = filter (\<lambda>l. l \<noteq> []) (concat (map iter_forwardable_nmea_sentences ds))"

fun readings :: "bytes list res list \<Rightarrow> bytes list" where
  "readings [] = []"
| "readings (Inl e # rs) = readings rs"
| "readings (Inr ds # rs) = ds @ readings rs"

text \<open>
  What the forwarding functions rely on: a way to send a sentence and a relation that says which
  sentences were sent between two states. A sentence that is sent is in it, one that fails is not.
\<close>

locale sentence_output =
  fixes emit :: "pystr \<Rightarrow> 's \<Rightarrow> py_error option \<times> 's"
    and delivers :: "pystr list \<Rightarrow> 's \<Rightarrow> 's \<Rightarrow> bool"
  assumes delivers_none: "delivers [] s s"
    and delivers_append: "delivers ls s t \<Longrightarrow> delivers ls' t u \<Longrightarrow> delivers (ls @ ls') s u"
    and emit_ok: "emit l s = (None, s') \<Longrightarrow> delivers [l] s s'"
    and emit_fail: "emit l s = (Some e, s') \<Longrightarrow> delivers [] s s'"
begin

lemma sentences_delivered:
  "forward_sentences emit ls s = (r, s') \<Longrightarrow>
   \<exists>done. prefix done (filter (\<lambda>l. l \<noteq> []) ls) \<and> delivers done s s' \<and> (r = None \<longrightarrow> done = filter (\<lambda>l. l \<noteq> []) ls)"
proof (induction ls arbitrary: s)
  case (Cons l ls)
  show ?case
  proof (cases "l = []")
    case False
    obtain r1 s1 where e: "emit l s = (r1, s1)" by force
    show ?thesis
    proof (cases r1)
      case None
      then have "forward_sentences emit ls s1 = (r, s')" using Cons.prems False e by simp
      from Cons.IH [OF this] obtain d where d: "prefix d (filter (\<lambda>l. l \<noteq> []) ls)" "delivers d s1 s'"
        "r = None \<longrightarrow> d = filter (\<lambda>l. l \<noteq> []) ls" by blast
      have "delivers ([l] @ d) s s'" using delivers_append [OF emit_ok d(2)] e None by simp
      with d False show ?thesis by (intro exI [of _ "l # d"]) simp
    next
      case (Some x)
      then show ?thesis using Cons.prems False e emit_fail by (intro exI [of _ "[]"]) auto
    qed
  qed (use Cons in simp)
qed (auto intro: delivers_none)

lemma payloads_delivered:
  "forward_payloads emit ds s = (r, s') \<Longrightarrow>
   \<exists>done. prefix done (sentences_of ds) \<and> delivers done s s' \<and> (r = None \<longrightarrow> done = sentences_of ds)"
proof (induction ds arbitrary: s)
  case (Cons d ds)
  obtain r1 s1 where e: "forward_input_payload emit d s = (r1, s1)" by force
  from sentences_delivered [OF e [unfolded forward_input_payload_def]] obtain d1 where
    d1: "prefix d1 (sentences_of [d])" "delivers d1 s s1" "r1 = None \<longrightarrow> d1 = sentences_of [d]"
    by (auto simp: sentences_of_def)
  show ?case
  proof (cases r1)
    case None
    then have "forward_payloads emit ds s1 = (r, s')" using Cons.prems e by simp
    from Cons.IH [OF this] obtain d2 where d2: "prefix d2 (sentences_of ds)" "delivers d2 s1 s'"
      "r = None \<longrightarrow> d2 = sentences_of ds" by blast
    have split: "sentences_of (d # ds) = sentences_of [d] @ sentences_of ds" by (simp add: sentences_of_def)
    show ?thesis using None d1 d2 delivers_append [OF d1(2) d2(2)] unfolding split
      by (intro exI [of _ "d1 @ d2"]) auto
  next
    case (Some x)
    have "prefix d1 (sentences_of (d # ds))" using d1(1) by (auto simp: sentences_of_def intro: prefix_prefix)
    moreover have "r = Some x" "s' = s1" using Some Cons.prems e by simp_all
    ultimately show ?thesis using d1(2) by blast
  qed
qed (auto simp: sentences_of_def intro: delivers_none)

lemma inputs_delivered:
  "forward_inputs emit rs s = (r, s') \<Longrightarrow> \<exists>done. prefix done (sentences_of (readings rs)) \<and> delivers done s s' \<and>
     (r = None \<longrightarrow> done = sentences_of (readings rs))"
proof (induction rs arbitrary: s)
  case (Cons x rs)
  show ?case
  proof (cases x)
    case (Inl e)
    then show ?thesis using Cons.prems delivers_none by (auto intro: exI [of _ "[]"])
  next
    case (Inr ds)
    obtain r1 s1 where e: "forward_payloads emit ds s = (r1, s1)" by force
    from payloads_delivered [OF e] obtain d1 where d1: "prefix d1 (sentences_of ds)" "delivers d1 s s1"
      "r1 = None \<longrightarrow> d1 = sentences_of ds" by blast
    have split: "sentences_of (readings (x # rs)) = sentences_of ds @ sentences_of (readings rs)"
      using Inr by (simp add: sentences_of_def)
    show ?thesis
    proof (cases r1)
      case None
      then have "forward_inputs emit rs s1 = (r, s')" using Cons.prems e Inr by simp
      from Cons.IH [OF this] obtain d2 where "prefix d2 (sentences_of (readings rs))" "delivers d2 s1 s'"
        "r = None \<longrightarrow> d2 = sentences_of (readings rs)" by blast
      with None d1 delivers_append show ?thesis unfolding split by (intro exI [of _ "d1 @ d2"]) auto
    next
      case (Some y)
      have "prefix d1 (sentences_of (readings (x # rs)))" unfolding split using d1(1) by (rule prefix_prefix)
      moreover have "r = Some y" "s' = s1" using Some Cons.prems e Inr by simp_all
      ultimately show ?thesis using d1(2) by blast
    qed
  qed
qed (auto simp: sentences_of_def intro: delivers_none exI [of _ "[]"])

end

text \<open>The encrypted output: one packet per sentence, and nothing else of the session changes.\<close>

definition carries :: "('sk, 'pk) client_config \<Rightarrow> bytes \<Rightarrow> pystr \<Rightarrow> bytes \<Rightarrow> bool" where
  "carries cfg c2s line packet \<longleftrightarrow>
     (\<exists>iv wall. encrypt_json (cc_crypto cfg) iv (nmea_message (cc_station cfg) wall line) c2s = Inr packet)"

definition packets_sent :: "('sk, 'pk) client_config \<Rightarrow> bytes \<Rightarrow> pystr list \<Rightarrow> session_loop \<Rightarrow> session_loop \<Rightarrow> bool" where
  "packets_sent cfg c2s ls st st' \<longleftrightarrow>
     (\<exists>ps. st' = st\<lparr>fl_sent := fl_sent st @ ps\<rparr> \<and> list_all2 (carries cfg c2s) ls ps)"

lemma send_packet_sent:
  assumes "send_packet cfg se c2s f st = (r, st')"
  shows "\<exists>ps. st' = st\<lparr>fl_sent := fl_sent st @ ps\<rparr> \<and>
       (case r of Some _ \<Rightarrow> ps = []
        | None \<Rightarrow> \<exists>iv wall p. ps = [p] \<and> encrypt_json (cc_crypto cfg) iv (f wall) c2s = Inr p)"
proof -
  let ?n = "length (fl_sent st)"
  show ?thesis
  proof (cases "encrypt_json (cc_crypto cfg) (se_nonce se ?n) (f (se_wall se ?n)) c2s")
    case (Inl e)
    then have "r = Some e" "st' = st" using assms by (simp_all add: send_packet_def Let_def)
    then show ?thesis by (intro exI [of _ "[]"]) simp
  next
    case (Inr p)
    show ?thesis
    proof (cases "se_error se ?n")
      case None
      then have "r = None" "st' = st\<lparr>fl_sent := fl_sent st @ [p]\<rparr>"
        using assms Inr by (simp_all add: send_packet_def Let_def)
      with Inr show ?thesis by (intro exI [of _ "[p]"]) auto
    next
      case (Some e)
      then have "r = Some e" "st' = st" using assms Inr by (simp_all add: send_packet_def Let_def)
      then show ?thesis by (intro exI [of _ "[]"]) simp
    qed
  qed
qed

interpretation udpsec: sentence_output "send_udpsec_nmea_sentence cfg se c2s" "packets_sent cfg c2s" for cfg se c2s
proof unfold_locales
  fix ls ls' s t u
  assume "packets_sent cfg c2s ls s t" "packets_sent cfg c2s ls' t u"
  then show "packets_sent cfg c2s (ls @ ls') s u" by (fastforce simp: packets_sent_def intro: list_all2_appendI)
next
  fix l s s' assume "send_udpsec_nmea_sentence cfg se c2s l s = (None, s')"
  from send_packet_sent [OF this [unfolded send_udpsec_nmea_sentence_def]]
  obtain p iv wall where "s' = s\<lparr>fl_sent := fl_sent s @ [p]\<rparr>"
    "encrypt_json (cc_crypto cfg) iv (nmea_message (cc_station cfg) wall l) c2s = Inr p" by auto
  then show "packets_sent cfg c2s [l] s s'" unfolding packets_sent_def carries_def
    by (intro exI [of _ "[p]"]) auto
next
  fix l s e s' assume "send_udpsec_nmea_sentence cfg se c2s l s = (Some e, s')"
  from send_packet_sent [OF this [unfolded send_udpsec_nmea_sentence_def]]
  show "packets_sent cfg c2s [] s s'" by (auto simp: packets_sent_def)
qed (auto simp: packets_sent_def)

text \<open>The plain output: one datagram per sentence, to the pinned address.\<close>

definition plain_emit :: "sock_env \<Rightarrow> pystr \<Rightarrow> plain_output \<Rightarrow> py_error option \<times> plain_output" where
  "plain_emit env line p =
     (case send_sentence env line p of (Inl e, p1) \<Rightarrow> (Some e, p1) | (Inr _, p1) \<Rightarrow> (None, p1))"

definition datagrams_sent :: "pystr list \<Rightarrow> plain_output \<Rightarrow> plain_output \<Rightarrow> bool" where
  "datagrams_sent ls p p' \<longleftrightarrow>
     (\<exists>bs. list_all2 (\<lambda>l b. encode_strict l = Inr b) ls bs \<and>
        p' = p\<lparr>po_events := po_events p @ map (Datagram (po_sock p) (po_remote p)) bs\<rparr>)"

interpretation plain: sentence_output "plain_emit env" datagrams_sent for env
proof unfold_locales
  fix ls ls' s t u
  assume "datagrams_sent ls s t" "datagrams_sent ls' t u"
  then obtain bs cs where b: "list_all2 (\<lambda>l b. encode_strict l = Inr b) ls bs"
      "t = s\<lparr>po_events := po_events s @ map (Datagram (po_sock s) (po_remote s)) bs\<rparr>"
    and c: "list_all2 (\<lambda>l b. encode_strict l = Inr b) ls' cs"
      "u = t\<lparr>po_events := po_events t @ map (Datagram (po_sock t) (po_remote t)) cs\<rparr>"
    by (auto simp: datagrams_sent_def)
  then have "u = s\<lparr>po_events := po_events s @ map (Datagram (po_sock s) (po_remote s)) (bs @ cs)\<rparr>" by simp
  with list_all2_appendI [OF b(1) c(1)] show "datagrams_sent (ls @ ls') s u"
    unfolding datagrams_sent_def by blast
next
  fix l s s' assume "plain_emit env l s = (None, s')"
  then obtain b where "encode_strict l = Inr b" "s' = s\<lparr>po_events := po_events s @ [Datagram (po_sock s) (po_remote s) b]\<rparr>"
    by (auto simp: plain_emit_def send_sentence_def split: sum.splits option.splits prod.splits)
  then show "datagrams_sent [l] s s'" unfolding datagrams_sent_def by (intro exI [of _ "[b]"]) simp
qed (auto simp: datagrams_sent_def plain_emit_def send_sentence_def split: sum.splits option.splits prod.splits)

subsection \<open>Properties of the session loop\<close>

lemma pinging_sent: "packets_sent cfg c2s ls st st' \<Longrightarrow> pinging cfg km tus st \<Longrightarrow> pinging cfg km tus st'"
  by (auto simp: packets_sent_def pinging_def)

lemma pinging_more: "pinging cfg km tus st \<Longrightarrow> pinging cfg km (tus @ tus') st"
  unfolding pinging_def by auto

lemma receive_peer_pinging:
  assumes "receive_peer cfg km tu st = (r, st')" and "pinging cfg km tus st"
  shows "pinging cfg km (tus @ [tu]) st'"
proof (cases "st' = st")
  case True
  then show ?thesis using assms(2) pinging_more by blast
next
  case False
  then obtain data addr where p: "tu_peer tu = Some (Packet data addr)"
    and h: "handle_server_packet (cc_crypto cfg) (cc_nesting cfg) data addr (cc_remote cfg)
                  (server_to_client_key km) (cc_station cfg) (fl_expected st) = PacketAuthenticated"
    and st': "st' = st\<lparr>fl_peer := tu_peer_time tu, fl_expected := None, fl_answered := fl_answered st @ [the (fl_expected st)]\<rparr>"
    using assms(1) by (auto simp: receive_peer_def split: option.splits receipt.splits server_packet.splits)
  from handle_server_packet_authentic [OF h] obtain n where n: "remote_addresses_match addr (cc_remote cfg)"
    "fl_expected st = Some n"
    "authentic_pong (cc_crypto cfg) (cc_nesting cfg) data (server_to_client_key km) (cc_station cfg) n" by blast
  have data: "data \<in> set (turn_packets (cc_remote cfg) [tu])" using p n(1) by (simp add: turn_packets_def)
  have k: "n = fl_next st - 1" "1 \<le> n" "n \<notin> set (fl_answered st)" "set (fl_answered st) \<subseteq> {1..fl_next st - 1}"
    using assms(2) n(2) unfolding pinging_def by blast+
  have "\<forall>a \<in> set (fl_answered st). a < n"
  proof
    fix a assume a: "a \<in> set (fl_answered st)"
    then have "a \<le> n" using k(1,4) by auto
    moreover have "a \<noteq> n" using a k(3) by blast
    ultimately show "a < n" by simp
  qed
  then have "sorted_wrt (<) (fl_answered st @ [n])"
    using assms(2) by (simp add: pinging_def sorted_wrt_append)
  moreover have "set (fl_answered st @ [n]) \<subseteq> {1..fl_next st - 1}" using k by auto
  moreover have "\<forall>m \<in> set (fl_answered st @ [n]). \<exists>data \<in> set (turn_packets (cc_remote cfg) (tus @ [tu])).
      authentic_pong (cc_crypto cfg) (cc_nesting cfg) data (server_to_client_key km) (cc_station cfg) m"
    using assms(2) n(3) data by (auto simp: pinging_def)
  ultimately show ?thesis using assms(2) n(2) unfolding st' pinging_def by simp
qed

lemma ping_if_due_pinging:
  assumes "ping_if_due cfg t km tu st = (r, st')" and "pinging cfg km tus st"
  shows "pinging cfg km tus st'"
proof (cases "keepalive_interval t \<le> tu_last tu - fl_ping st")
  case True
  obtain e st1 where s: "send_ping cfg (tu_send tu) (client_to_server_key km) (fl_next st) st = (e, st1)" by force
  from send_packet_sent [OF s [unfolded send_ping_def]] obtain ps where st1: "st1 = st\<lparr>fl_sent := fl_sent st @ ps\<rparr>" by blast
  have "[1..fl_next st] = [1..fl_next st - 1] @ [fl_next st]"
    using assms(2) upto_rec2 [of 1 "fl_next st"] by (simp add: pinging_def)
  then show ?thesis using assms True s st1
    by (cases e) (auto simp: ping_if_due_def pinging_def)
qed (use assms in \<open>simp add: ping_if_due_def\<close>)

lemma forward_turn_pinging:
  assumes "forward_turn cfg t km tu st = (r, st')" and "pinging cfg km tus st"
  shows "pinging cfg km (tus @ [tu]) st'"
proof (cases "session_expiration_reason (tu_head tu) (fl_started st) (fl_peer st) t")
  case None
  let ?emit = "send_udpsec_nmea_sentence cfg (tu_send tu) (client_to_server_key km)"
  obtain e1 st1 where 1: "forward_payloads ?emit (tu_pending tu) st = (e1, st1)" by force
  from udpsec.payloads_delivered [OF 1] assms(2) have i1: "pinging cfg km tus st1" using pinging_sent by blast
  obtain r2 st2 where 2: "receive_peer cfg km tu st1 = (r2, st2)" by force
  have i2: "pinging cfg km (tus @ [tu]) st2" by (rule receive_peer_pinging [OF 2 i1])
  obtain e3 st3 where 3: "forward_inputs ?emit (tu_inputs tu) st2 = (e3, st3)" by force
  from udpsec.inputs_delivered [OF 3] i2 have i3: "pinging cfg km (tus @ [tu]) st3" using pinging_sent by blast
  have "st' \<in> {st1, st2, st3} \<or> ping_if_due cfg t km tu st3 = (r, st')"
    using assms(1) None 1 2 3
    by (auto simp: forward_turn_def Let_def split: option.splits loop_end.splits)
  then show ?thesis using pinging_more [OF i1] i2 i3 ping_if_due_pinging [OF _ i3] by auto
qed (use assms pinging_more in \<open>auto simp: forward_turn_def Let_def\<close>)

lemma forward_loop_pinging:
  "forward_loop cfg t km tus st = (r, st') \<Longrightarrow> pinging cfg km before st \<Longrightarrow> pinging cfg km (before @ tus) st'"
proof (induction tus arbitrary: st before)
  case (Cons tu tus)
  obtain r1 st1 where 1: "forward_turn cfg t km tu st = (r1, st1)" by force
  have i: "pinging cfg km (before @ [tu]) st1" by (rule forward_turn_pinging [OF 1 Cons.prems(2)])
  have more: "pinging cfg km (before @ tu # tus) st1" using pinging_more [OF i, of tus] by simp
  show ?case
    using Cons.prems(1) 1 Cons.IH [OF _ i] more by (cases r1) auto
qed simp

text \<open>Clock readings never go back, within a turn and from one turn to the next.\<close>

fun clocks_ok :: "time \<Rightarrow> turn list \<Rightarrow> bool" where
  "clocks_ok now [] = True"
| "clocks_ok now (tu # tus) =
     (now \<le> tu_head tu \<and> tu_head tu \<le> tu_peer_time tu \<and> tu_peer_time tu \<le> tu_last tu \<and> clocks_ok (tu_last tu) tus)"

lemma forward_turn_clock:
  assumes "forward_turn cfg t km tu st = (Continue, st')"
  shows "tu_head tu - fl_peer st < peer_timeout t \<and> (fl_peer st' = fl_peer st \<or> fl_peer st' = tu_peer_time tu)"
proof -
  let ?emit = "send_udpsec_nmea_sentence cfg (tu_send tu) (client_to_server_key km)"
  have n: "session_expiration_reason (tu_head tu) (fl_started st) (fl_peer st) t = None"
    using assms by (auto simp: forward_turn_def Let_def split: option.splits)
  obtain e1 st1 where 1: "forward_payloads ?emit (tu_pending tu) st = (e1, st1)" by force
  obtain r2 st2 where 2: "receive_peer cfg km tu st1 = (r2, st2)" by force
  obtain e3 st3 where 3: "forward_inputs ?emit (tu_inputs tu) st2 = (e3, st3)" by force
  have 4: "ping_if_due cfg t km tu st3 = (Continue, st')"
    using assms n 1 2 3 by (auto simp: forward_turn_def Let_def socket_failure_def split: option.splits loop_end.splits if_splits)
  have "fl_peer st1 = fl_peer st" "fl_peer st3 = fl_peer st2"
    using udpsec.payloads_delivered [OF 1] udpsec.inputs_delivered [OF 3] by (auto simp: packets_sent_def)
  moreover have "fl_peer st2 = fl_peer st1 \<or> fl_peer st2 = tu_peer_time tu"
    using 2 by (auto simp: receive_peer_def split: option.splits receipt.splits server_packet.splits)
  moreover obtain e5 st5 where 5: "send_ping cfg (tu_send tu) (client_to_server_key km) (fl_next st3) st3 = (e5, st5)" by force
  have "fl_peer st' = fl_peer st3"
    using 4 5 send_packet_sent [OF 5 [unfolded send_ping_def]]
    by (cases e5) (auto simp: ping_if_due_def socket_failure_def split: if_splits)
  ultimately show ?thesis using n by (auto simp: session_expiration_reason_def split: if_splits)
qed

lemma forward_loop_silence:
  "forward_loop cfg t km tus st = (Continue, st') \<Longrightarrow> clocks_ok now tus \<Longrightarrow> fl_peer st \<le> now \<Longrightarrow>
   fl_peer st \<le> fl_peer st' \<and> (\<forall>tu \<in> set tus. tu_head tu < fl_peer st' + peer_timeout t)"
proof (induction tus arbitrary: st now)
  case (Cons tu tus)
  obtain st1 where 1: "forward_turn cfg t km tu st = (Continue, st1)" "forward_loop cfg t km tus st1 = (Continue, st')"
    using Cons.prems(1) by (auto split: prod.splits loop_end.splits)
  from forward_turn_clock [OF 1(1)] Cons.prems(2,3) have
    p: "fl_peer st \<le> fl_peer st1" "fl_peer st1 \<le> tu_last tu" "tu_head tu < fl_peer st + peer_timeout t" by auto
  with Cons.IH [OF 1(2) _ p(2)] Cons.prems(2) show ?case by auto
qed simp

subsection \<open>The proxy and the listener\<close>

text \<open>What the package promises of AES-GCM: decryption inverts encryption, and a tag is 16 bytes.\<close>

definition aes_laws :: "('sk, 'pk) listener_crypto \<Rightarrow> bool" where
  "aes_laws C \<longleftrightarrow>
     (\<forall>key iv p a. aes_decrypt C key iv (aes_encrypt C key iv p a) a = Some p \<and> 16 \<le> length (aes_encrypt C key iv p a))"

text \<open>With \<open>ensure_ascii\<close> the text of a message is ASCII.\<close>

definition ascii_text :: "pystr \<Rightarrow> bool" where
  "ascii_text s \<longleftrightarrow> list_all (\<lambda>c. c < 128) s"

lemma ascii_text_simps [simp]:
  "ascii_text []" "ascii_text (c # s) \<longleftrightarrow> c < 128 \<and> ascii_text s"
  "ascii_text (s @ t) \<longleftrightarrow> ascii_text s \<and> ascii_text t"
  by (simp_all add: ascii_text_def)

lemma ascii_hex_escape: "u < 65536 \<Longrightarrow> ascii_text (hex_escape u)"
  using hex_escape_plain(2) [of u] by (auto simp: ascii_text_def list_all_iff)

lemma ascii_dump_char: "c < 0x110000 \<Longrightarrow> ascii_text (dump_char True c)"
proof -
  assume c: "c < 0x110000"
  then have "0xD800 + (c - 0x10000) div 1024 < 65536" "0xDC00 + (c - 0x10000) mod 1024 < 65536" by auto
  then show ?thesis using c
    by (auto simp: dump_char_def short_escapes_def intro!: ascii_hex_escape split: option.splits if_splits)
qed

lemma ascii_dump_string: "wf_text s \<Longrightarrow> ascii_text (dump_string True s)"
proof -
  assume "wf_text s"
  then have "ascii_text (concat (map (dump_char True) s))" by (induction s) (auto simp: ascii_dump_char)
  then show ?thesis by (simp add: dump_string_def)
qed

lemma ascii_int_str: "ascii_text (int_str i)"
  using nat_str_digits by (force simp: int_str_def ascii_text_def list_all_iff)

lemma ascii_dump:
  "dump_value a v = Inr t \<Longrightarrow> a = True \<Longrightarrow> json_ok n v \<Longrightarrow> ascii_text t"
  "dump_elements a vs = Inr t \<Longrightarrow> a = True \<Longrightarrow> \<forall>v \<in> set vs. json_ok n v \<Longrightarrow> ascii_text t"
  "dump_items a d = Inr t \<Longrightarrow> a = True \<Longrightarrow>
     \<forall>(k, v) \<in> set d. (\<exists>s. k = PStr s \<and> wf_text s \<and> clean s) \<and> json_ok n v \<Longrightarrow> ascii_text t"
proof (induction a v and a vs and a d arbitrary: n t and n t and n t
    rule: dump_value_dump_elements_dump_items.induct)
  case (5 a vs)
  then obtain u where u: "dump_elements a vs = Inr u" "t = [91] @ u @ [93]" by (auto simp: rbind_Inr_iff)
  with 5(1) [of u "n - 1"] 5(3,4) show ?case by simp
next
  case (6 a d)
  then obtain u where u: "dump_items a d = Inr u" "t = [123] @ u @ [125]" by (auto simp: rbind_Inr_iff)
  with 6(1) [of u "n - 1"] 6(3,4) show ?case by simp
next
  case (10 a v w vs)
  then obtain u u' where u: "dump_value a v = Inr u" "dump_elements a (w # vs) = Inr u'" "t = u @ [44] @ u'"
    by (auto simp: rbind_Inr_iff)
  with 10(1) [of u n] 10(2) [of u u' n] 10(4,5) show ?case by simp
next
  case (12 a k v d)
  obtain s where s: "k = PStr s" "wf_text s" "clean s" using 12(5) by auto
  with 12(3) obtain u u' where u: "dump_value a v = Inr u" "dump_items a d = Inr u'"
      "t = dump_string a s @ [58] @ u @ (if d = [] then [] else 44 # u')"
    by (auto simp: rbind_Inr_iff)
  with 12(1) [OF s(1), of u n] 12(2) [OF s(1), of u u' n] 12(4,5) s(2,3) ascii_dump_string [of s]
  show ?case by simp
qed (auto simp: lit_def ascii_dump_string ascii_int_str split: if_splits)

lemma encrypted_message_opens:
  assumes "aes_laws C" and "length iv = 12" and "json_ok lim msg"
  shows "\<exists>packet ct p. encrypt_json C iv msg key = Inr packet \<and> packet = data_prefix @ iv @ ct \<and>
    16 \<le> length ct \<and> aes_decrypt C key iv ct data_aad = Some p \<and> load_message lim p = Inr msg"
proof -
  obtain t where t: "json_dumps True False msg = Inr t" "json_loads lim t = Inr msg"
    using loads_dumps [OF assms(3), of True False] by auto
  have "ascii_text t" using ascii_dump(1) [OF _ refl assms(3)] t(1) by (simp add: json_dumps_def)
  then have a: "clean t" "wf_text t"
    by (force simp: ascii_text_def list_all_iff wf_text_def intro: clean_ascii)+
  note e = encode_strict_clean [OF a(1)]
  have "utf8_decode Strict (encode_surrogatepass t) = Inr t" by (rule decode_encode_strict [OF a(2) e])
  then have "load_message lim (encode_surrogatepass t) = Inr msg" using t(2) by (simp add: load_message_def)
  moreover have "encrypt_json C iv msg key =
      Inr (data_prefix @ iv @ aes_encrypt C key iv (encode_surrogatepass t) data_aad)"
    using t(1) e by (simp add: encrypt_json_def encrypt_message_aes_gcm_def)
  ultimately show ?thesis using assms(1) unfolding aes_laws_def by blast
qed

lemma packet_parts:
  assumes "length iv = 12" and "16 \<le> length ct"
  shows "parse_secure_data_packet (data_prefix @ iv @ ct) = Inr (iv, ct)"
    and "starts_with data_prefix (data_prefix @ iv @ ct)"
    and "\<not> starts_with hello_prefix (data_prefix @ iv @ ct)"
    and "\<not> is_no_session_hint (data_prefix @ iv @ ct)"
    and "decrypt_json C lim (data_prefix @ iv @ ct) key =
      (case aes_decrypt C key iv ct data_aad of None \<Rightarrow> Inl InvalidTag | Some p \<Rightarrow> load_message lim p)"
  using assms
  by (simp_all add: parse_secure_data_packet_def starts_with_def data_prefix_def hello_prefix_def is_no_session_hint_def
      decrypt_json_def PyText.slice_def Let_def)

text \<open>Whole seconds that can be written: far beyond any clock.\<close>

definition writable :: "int \<Rightarrow> bool" where
  "writable i \<longleftrightarrow> length (nat_str (nat \<bar>i\<bar>)) \<le> max_str_digits"

lemma message_ok:
  assumes "wf_text s" and "clean s" and "writable (whole_seconds wall)" and "1 \<le> lim"
  shows "wf_text line \<Longrightarrow> clean line \<Longrightarrow> json_ok lim (nmea_message (PStr s) wall line)"
    and "writable seq \<Longrightarrow> json_ok lim (ping_message (PStr s) wall seq)"
    and "writable seq \<Longrightarrow> json_ok lim (pong (PInt seq) wall s)"
  using assms
  by (auto simp: nmea_message_def ping_message_def pong_def writable_def lit_def clean_def is_surrogate_def)

text \<open>Sentences are cut from a text without surrogates.\<close>

lemma utf8_replace_clean: "wf_text (utf8_replace bs) \<and> clean (utf8_replace bs)"
proof (induction bs rule: utf8_replace.induct)
  case (2 b bs)
  show ?case
  proof (cases "utf8_item (b # bs)")
    case (Unit c n)
    with 2(1) utf8_item_inverse [OF Unit, THEN conjunct2] utf8_item_ordinary [OF Unit] show ?thesis by simp
  next
    case (Bad n)
    with 2(2) show ?thesis by (simp add: is_surrogate_def)
  qed
qed simp

lemma set_extract_aivd: "l \<in> set (extract_aivd s) \<Longrightarrow> set l \<subseteq> set s"
proof (induction s rule: extract_aivd.induct)
  case (2 x xs)
  show ?case
  proof (cases "aivd_match (x # xs)")
    case None
    with 2 show ?thesis by auto
  next
    case (Some n)
    with 2(3) consider "l = take n (x # xs)" | "l \<in> set (extract_aivd (drop (n - 1) xs))" by auto
    then show ?thesis
    proof cases
      case 1
      then show ?thesis using set_take_subset [of n "x # xs"] by simp
    next
      case 2
      then have "set l \<subseteq> set (drop (n - 1) xs)" using "2.IH"(2) [OF Some] by blast
      then show ?thesis using set_drop_subset [of "n - 1" xs] by auto
    qed
  qed
qed simp

lemma forwardable_clean: "l \<in> set (iter_forwardable_nmea_sentences data) \<Longrightarrow> wf_text l \<and> clean l"
proof -
  let ?t = "utf8_replace (map of_char data)"
  assume "l \<in> set (iter_forwardable_nmea_sentences data)"
  then have "set l \<subseteq> set ?t"
    using set_extract_aivd set_strip unfolding iter_forwardable_nmea_sentences_def by blast
  then show ?thesis using utf8_replace_clean [of "map of_char data"]
    by (auto simp: wf_text_def clean_def list_all_iff)
qed

lemma pong_packet:
  "encrypt_secure_json_message C key nonce m = encrypt_json C nonce m key"
  by (simp add: encrypt_secure_json_message_def encrypt_json_def encrypt_message_aes_gcm_def)

subsection \<open>Example keys, for the witnesses\<close>

definition example_client :: "(unit, bytes) client_config" where
  "example_client = \<lparr>cc_crypto = example_crypto, cc_station = PStr (lit ''st''), cc_station_key = (),
     cc_server_key = ''srv'', cc_remote = (lit ''s'', 1, []), cc_nesting = 900\<rparr>"

definition example_he :: "unit handshake_env" where
  "example_he = \<lparr>he_wall = 0, he_ping_wall = 0, he_urandom = (\<lambda>n. replicate n CHR ''q''), he_ephemeral = (),
     he_start = 0, he_timeout = None, he_hello_error = None, he_ping_error = None\<rparr>"

definition example_hello :: client_hello where
  "example_hello = \<lparr>ch_station_id = lit ''st'', ch_timestamp = 0, ch_random = replicate 32 CHR ''q'',
     ch_public_key = char_of (2 :: nat) # replicate 32 CHR ''p'', ch_signature = ''s''\<rparr>"

lemma example_aes: "aes_laws example_crypto"
  by (simp add: aes_laws_def example_crypto_def)

lemma example_key_laws: "key_laws example_crypto () ()"
  by (simp add: key_laws_def example_crypto_def)

lemma example_identity_laws: "identity_laws example_crypto () pk"
  by (auto simp: identity_laws_def sign_transcript_digest_def verify_transcript_signature_def example_crypto_def
      transcript_digest_bytes_def signature_bytes_def valid_p256_scalar_def p256_order_def p256_half_order_def
      rbind_Inr_iff Let_def split: if_splits)

lemmas example_eval = example_client_def example_he_def example_hello_def whole_seconds_def ticks_per_second_def
  serialize_ephemeral_public_key_def build_client_auth_digest_def client_hello_fields_def station_bytes_def
  timestamp_bytes_def required_bytes_def digest_fields_def framed_field_def max_framed_length_def lit_def
  encode_strict_def is_surrogate_def encode_surrogatepass_def utf8_enc_def utf8_enc1.simps
  domain_context_def client_auth_label_def sign_transcript_digest_def transcript_digest_bytes_def
  valid_p256_scalar_def p256_order_def p256_half_order_def

lemma example_make_hello: "\<exists>packet. make_hello example_client example_he = Inr (example_hello, packet)"
proof -
  have "make_client_hello (PStr (lit ''st'')) (PInt 0) (PBytes (replicate 32 CHR ''q''))
      (PBytes (char_of (2 :: nat) # replicate 32 CHR ''p'')) (PBytes ''s'') = Inr example_hello"
    by (simp add: make_client_hello_iff station_id_bytes_iff example_hello_def)
      (simp add: example_eval max_timestamp_def)
  moreover have "\<exists>packet. build_client_hello_packet example_hello = Inr packet"
    by (simp add: build_client_hello_packet_def station_id_bytes_def example_eval)
  ultimately show ?thesis
    by (auto simp: make_hello_def Let_def) (simp add: example_eval example_crypto_def)
qed

lemmas example_handshake_eval = example_eval example_crypto_def example_listener_def example_env_def Let_def
  build_server_auth_digest_def build_session_transcript_hash_def server_hello_fields_def server_auth_label_def
  session_transcript_label_def build_handshake_replay_key_def verify_transcript_signature_def signature_bytes_def
  parse_ephemeral_public_key_def derive_ephemeral_shared_secret_def

lemma example_authenticated:
  assumes "make_hello example_client example_he = Inr (example_hello, packet)"
  shows "\<exists>key. authenticate_hello example_listener (example_env 0) packet =
    Inr (example_hello, char_of (2 :: nat) # replicate 32 CHR ''p'', key)"
proof -
  have "parse_client_hello_packet (PBytes packet) = Inr example_hello"
    by (rule make_hello_valid(1) [OF assms, of "lit ''st''"]) (simp_all add: example_client_def wf_text_def lit_def)
  then show ?thesis by (simp add: authenticate_hello_def example_handshake_eval)
qed

lemma example_session_keys:
  "\<exists>keys. derive_session_key_material example_crypto (Bytes (replicate 32 CHR ''z'')) (Bytes (replicate 32 CHR ''h'')) = Inr keys"
  by (simp add: example_handshake_eval derive_session_key_material_def derive_directional_session_key_def
      session_key_info_def session_key_input_bytes_def client_to_server_label_def server_to_client_label_def
      make_session_key_material_def session_key_schedule_label_def aes_256_gcm_key_label_def)

lemma example_answered:
  "\<exists>response c2s s2c. build_server_handshake example_listener (example_env 0) example_hello
     (char_of (2 :: nat) # replicate 32 CHR ''p'') = Inr (response, c2s, s2c)"
proof -
  have "make_server_hello (PBytes (replicate 32 CHR ''r'')) (PBytes (char_of (2 :: nat) # replicate 32 CHR ''p'')) (PBytes ''s'') =
    Inr \<lparr>sh_random = replicate 32 CHR ''r'', sh_public_key = char_of (2 :: nat) # replicate 32 CHR ''p'', sh_signature = ''s''\<rparr>"
    by (simp add: make_server_hello_iff)
  with example_session_keys show ?thesis
    unfolding build_server_handshake_def by (auto simp: example_handshake_eval)
qed

lemma example_handshake:
  obtains packet key response c2s s2c where "make_hello example_client example_he = Inr (example_hello, packet)"
    "authenticate_hello example_listener (example_env 0) packet =
       Inr (example_hello, char_of (2 :: nat) # replicate 32 CHR ''p'', key)"
    "build_server_handshake example_listener (example_env 0) example_hello
       (char_of (2 :: nat) # replicate 32 CHR ''p'') = Inr (response, c2s, s2c)"
    "accept_response example_client () example_hello response =
       Inr (Some \<lparr>client_to_server_key = c2s, server_to_client_key = s2c\<rparr>)"
proof -
  obtain packet where p: "make_hello example_client example_he = Inr (example_hello, packet)"
    using example_make_hello by blast
  obtain key where a: "authenticate_hello example_listener (example_env 0) packet =
       Inr (example_hello, char_of (2 :: nat) # replicate 32 CHR ''p'', key)"
    using example_authenticated [OF p] by blast
  obtain response c2s s2c where b: "build_server_handshake example_listener (example_env 0) example_hello
       (char_of (2 :: nat) # replicate 32 CHR ''p'') = Inr (response, c2s, s2c)"
    using example_answered by blast
  have "accept_response example_client (he_ephemeral example_he) example_hello response =
       Inr (Some \<lparr>client_to_server_key = c2s, server_to_client_key = s2c\<rparr>)"
    using handshake_agreement [OF p _ _ _ a b, of "lit ''st''"] example_key_laws example_identity_laws
    by (simp add: example_client_def example_he_def example_listener_def example_env_def wf_text_def lit_def)
  with p a b that show thesis by (simp add: example_he_def)
qed

lemma example_pong:
  "\<exists>p. decrypt_json example_crypto 900 p key = Inr (pong (PInt confirmation_sequence) 0 (lit ''st'')) \<and> \<not> is_no_session_hint p"
proof -
  have "json_ok 900 (pong (PInt confirmation_sequence) 0 (lit ''st''))"
    by (rule message_ok(3)) (simp_all add: wf_text_def clean_def lit_def writable_def whole_seconds_def confirmation_sequence_def
        is_surrogate_def nat_str.simps max_str_digits_def ticks_per_second_def)
  from encrypted_message_opens [OF example_aes _ this, of "replicate 12 CHR ''n''" key]
  obtain ct p where "16 \<le> length ct" "aes_decrypt example_crypto key (replicate 12 CHR ''n'') ct data_aad = Some p"
    "load_message 900 p = Inr (pong (PInt confirmation_sequence) 0 (lit ''st''))" by auto
  with packet_parts(4) [of "replicate 12 CHR ''n''" ct]
    packet_parts(5) [of "replicate 12 CHR ''n''" ct example_crypto 900 key] show ?thesis
    by (intro exI [of _ "data_prefix @ replicate 12 CHR ''n'' @ ct"]) simp
qed

definition example_line_data :: bytes where "example_line_data = ''!AIVDM,x*00''"

lemma example_line: "iter_forwardable_nmea_sentences example_line_data = [lit ''!AIVDM,x*00'']"
  by (simp add: iter_forwardable_nmea_sentences_def example_line_data_def utf8_item.simps lit_def strip_def is_space_def
     aivd_match_def upper_hex_def)

definition example_live :: "(address, bytes) secure_session \<times> (address, bytes) secure_state" where
  "example_live = (case secure_init default_config of Inr st \<Rightarrow>
     (case install_session (lit ''s'', 1, []) (lit ''st'') ''k'' ''k'' 0 st of Inr p \<Rightarrow> p))"

lemma example_live_accepts:
  "\<exists>st1 st2 st3. data_nonce_seen (fst example_live) iv 0 (snd example_live) = Inr (False, st1) \<and>
    accept_data_nonce (fst example_live) iv 0 st1 = Inr (True, st2) \<and>
    touch_session (lit ''s'', 1, []) (fst example_live) 0 st2 = Inr (True, st3)"
  by (simp add: example_live_def secure_run data_nonce_seen_def x_contains_def touch_session_def touch_active_session_def)

definition example_timing :: session_timing where
  "example_timing = \<lparr>keepalive_interval = 5, peer_timeout = 20, session_refresh_interval = 0, reconnect_delay = 5\<rparr>"

definition example_turn :: turn where
  "example_turn = \<lparr>tu_head = 10, tu_pending = [], tu_select_error = None, tu_peer = None, tu_peer_time = 10,
     tu_inputs = [Inr [example_line_data]], tu_last = 12,
     tu_send = \<lparr>se_wall = (\<lambda>n. 0), se_nonce = (\<lambda>n. replicate 12 CHR ''n''), se_error = (\<lambda>n. None)\<rparr>\<rparr>"

definition example_keys :: session_key_material where
  "example_keys = \<lparr>client_to_server_key = ''c'', server_to_client_key = ''s''\<rparr>"

lemma example_packets:
  "\<exists>p. encrypt_json example_crypto (replicate 12 CHR ''n'') (nmea_message (PStr (lit ''st'')) 0 (lit ''!AIVDM,x*00'')) ''c'' = Inr p"
  "\<exists>p. encrypt_json example_crypto (replicate 12 CHR ''n'') (ping_message (PStr (lit ''st'')) 0 1) ''c'' = Inr p"
proof -
  have "json_ok 900 (nmea_message (PStr (lit ''st'')) 0 (lit ''!AIVDM,x*00''))" "json_ok 900 (ping_message (PStr (lit ''st'')) 0 1)"
    by (rule message_ok(1,2); simp add: wf_text_def clean_def lit_def writable_def whole_seconds_def
        is_surrogate_def nat_str.simps max_str_digits_def ticks_per_second_def)+
  note opens = this [THEN encrypted_message_opens [OF example_aes, of "replicate 12 CHR ''n''" 900, simplified], of "''c''"]
  from opens show
    "\<exists>p. encrypt_json example_crypto (replicate 12 CHR ''n'') (nmea_message (PStr (lit ''st'')) 0 (lit ''!AIVDM,x*00'')) ''c'' = Inr p"
    "\<exists>p. encrypt_json example_crypto (replicate 12 CHR ''n'') (ping_message (PStr (lit ''st'')) 0 1) ''c'' = Inr p"
    by auto
qed

definition example_plain :: plain_output where
  "example_plain = \<lparr>po_sock = 1, po_remote = (lit ''h'', 5, []), po_pinned = None, po_events = [SockOpened 1]\<rparr>"

subsection \<open>Properties\<close>

text \<open>
  C12. The handshake authenticates the server. It yields keys only if some packet from the server's
  address carries a signature of the server's identity key over this very ClientHello and the
  keys are those of its transcript, and some packet from that address opens under the server's
  key to the answer to the confirmation ping, so the server has derived the keys too.
\<close>

theorem handshake_mutual:
  assumes "perform_handshake cfg env turns = (sent, Keys km)"
  shows "\<exists>h packet. make_hello cfg env = Inr (h, packet) \<and> hd sent = packet \<and>
    (\<exists>response \<in> set (remote_packets (cc_remote cfg) turns). server_vouches cfg (he_ephemeral env) h response km) \<and>
    (\<exists>answer \<in> set (remote_packets (cc_remote cfg) turns).
       authentic_pong (cc_crypto cfg) (cc_nesting cfg) answer (server_to_client_key km) (cc_station cfg) confirmation_sequence)"
proof -
  obtain h packet where h: "make_hello cfg env = Inr (h, packet)"
    using assms by (auto simp: perform_handshake_def split: sum.splits)
  obtain sent' where a: "await_hello cfg env h (he_start env + handshake_timeout env) turns = (sent', Keys km)"
    "sent = packet # sent'"
    using assms h by (auto simp: perform_handshake_def split: option.splits prod.splits if_splits)
  from await_hello_keys [OF a(1)] h a(2) show ?thesis by simp
qed

lemma handshake_mutual_witness:
  "\<exists>sent km packet response. perform_handshake example_client example_he
      [(0, Packet response (lit ''s'', 1, []), 0), (0, Packet packet (lit ''s'', 1, []), 0)] = (sent, Keys km) \<and>
    (\<exists>answer \<in> {response, packet}.
       authentic_pong example_crypto 900 answer (server_to_client_key km) (PStr (lit ''st'')) confirmation_sequence)"
proof (rule example_handshake)
  fix hello key response c2s s2c
  assume h: "make_hello example_client example_he = Inr (example_hello, hello)"
    "accept_response example_client () example_hello response =
       Inr (Some \<lparr>client_to_server_key = c2s, server_to_client_key = s2c\<rparr>)"
  let ?remote = "(lit ''s'', 1, []) :: endpoint" and ?km = "\<lparr>client_to_server_key = c2s, server_to_client_key = s2c\<rparr>"
  obtain packet where p: "decrypt_json example_crypto 900 packet s2c = Inr (pong (PInt confirmation_sequence) 0 (lit ''st''))"
    "\<not> is_no_session_hint packet" using example_pong by blast
  have a: "handle_server_packet example_crypto 900 packet ?remote ?remote s2c (PStr (lit ''st'')) (Some confirmation_sequence) =
      PacketAuthenticated"
    using p by (simp add: handle_server_packet_def remote_addresses_match_def pong_def message_field_def lit_def)
  have "json_ok 900 (ping_message (PStr (lit ''st'')) 0 confirmation_sequence)"
    by (rule message_ok(2)) (simp_all add: wf_text_def clean_def lit_def writable_def whole_seconds_def confirmation_sequence_def
        is_surrogate_def nat_str.simps max_str_digits_def ticks_per_second_def)
  from encrypted_message_opens [OF example_aes _ this, of "replicate 12 CHR ''q''" c2s]
  obtain ping where "encrypt_json example_crypto (replicate 12 CHR ''q'')
      (ping_message (PStr (lit ''st'')) 0 confirmation_sequence) c2s = Inr ping" by auto
  then have "perform_handshake example_client example_he [(0, Packet response ?remote, 0), (0, Packet packet ?remote, 0)] =
      ([hello, ping], Keys ?km)"
    using h a
    by (simp add: perform_handshake_def example_client_def example_he_def remote_addresses_match_def
        handshake_timeout_def ticks_per_second_def)
  with handshake_mutual [OF this] show ?thesis
    by (intro exI conjI) (assumption, auto simp: example_client_def remote_addresses_match_def)
qed

text \<open>
  The client waits for the server for a bounded time: a handshake that is not over has
  read the clock before its first deadline only, or within the timeout of a packet it accepted.
\<close>

lemma handshake_bounded:
  assumes "perform_handshake cfg env turns = (sent, Waiting)" and "(now, r, later) \<in> set turns"
  shows "now < he_start env + handshake_timeout env \<or>
    (\<exists>n r' l. (n, r', l) \<in> set turns \<and> n < he_start env + handshake_timeout env \<and> now < l + handshake_timeout env)"
  using assms await_hello_waits
  by (auto simp: perform_handshake_def split: sum.splits option.splits prod.splits if_splits) blast+

text \<open>
  C13. Client and server derive the same keys. When the listener accepts the ClientHello of the
  proxy and answers it, the proxy accepts the answer, and the keys of both sides are equal,
  each in its direction; for keys that obey the laws of the curve and an identity key of the
  proxy's configuration that verifies what the listener signs.
\<close>

theorem handshake_keys_agree:
  assumes "make_hello cfg env = Inr (h, packet)" and "cc_station cfg = PStr s" and "wf_text s"
    and "lc_crypto lc = cc_crypto cfg" and "authenticate_hello lc de packet = Inr (h', client_key, replay)"
    and "build_server_handshake lc de h' client_key = Inr (response, c2s, s2c)"
    and "key_laws (cc_crypto cfg) (he_ephemeral env) (de_ephemeral de)"
    and "identity_laws (cc_crypto cfg) (lc_server_key lc) (cc_server_key cfg)"
  shows "h' = h \<and> (\<exists>km. accept_response cfg (he_ephemeral env) h response = Inr (Some km) \<and>
    client_to_server_key km = c2s \<and> server_to_client_key km = s2c)"
  using handshake_agreement [OF assms] by simp

lemma handshake_keys_agree_witness:
  "\<exists>packet key response c2s s2c km. make_hello example_client example_he = Inr (example_hello, packet) \<and>
    build_server_handshake example_listener (example_env 0) example_hello key = Inr (response, c2s, s2c) \<and>
    accept_response example_client () example_hello response = Inr (Some km) \<and> client_to_server_key km = c2s"
proof (rule example_handshake)
  fix packet key response c2s s2c
  assume h: "make_hello example_client example_he = Inr (example_hello, packet)"
    "authenticate_hello example_listener (example_env 0) packet =
       Inr (example_hello, char_of (2 :: nat) # replicate 32 CHR ''p'', key)"
    "build_server_handshake example_listener (example_env 0) example_hello
       (char_of (2 :: nat) # replicate 32 CHR ''p'') = Inr (response, c2s, s2c)"
  from handshake_keys_agree [OF h(1) _ _ _ h(2,3), of "lit ''st''"] example_key_laws example_identity_laws h(1,3)
  show ?thesis
    by (fastforce simp: example_client_def example_he_def example_listener_def example_env_def wf_text_def lit_def)
qed

text \<open>
  C11. What the proxy reads is what the listener queues. A sentence the proxy extracts from its
  input encrypts to a packet that the listener takes apart and, on the session with the same key
  and station and with a nonce it has not seen, turns into exactly one frame with the sentence
  as its payload, under the identity of the station.
\<close>

theorem proxied_sentence_queued:
  assumes "aes_laws (lc_crypto lc)" and "cc_crypto cfg = lc_crypto lc" and "cc_station cfg = PStr (s_station x)"
    and "wf_text (s_station x)" and "clean (s_station x)" and "s_station x \<noteq> []" and "1 \<le> lc_nesting lc"
    and "line \<in> set (iter_forwardable_nmea_sentences data)" and "length iv = 12" and "writable (whole_seconds wall)"
    and "data_nonce_seen x iv (de_now env) (li_state l) = Inr (False, st1)"
    and "accept_data_nonce x iv (de_now env) st1 = Inr (True, st2)"
    and "touch_session addr x (de_now env) st2 = Inr (touched, st3)"
  shows "\<exists>packet ct. encrypt_json (cc_crypto cfg) iv (nmea_message (cc_station cfg) wall line) (s_c2s x) = Inr packet \<and>
    starts_with data_prefix packet \<and> parse_secure_data_packet packet = Inr (iv, ct) \<and>
    li_queue (handle_session_data lc env addr x iv ct l) = li_queue l @ [frame_of_text lc addr (s_station x) line]"
proof -
  note line = forwardable_clean [OF assms(8)]
  have ok: "json_ok (lc_nesting lc) (nmea_message (cc_station cfg) wall line)"
    unfolding assms(3) using line assms by (intro message_ok(1)) auto
  from encrypted_message_opens [OF assms(1,9) ok, of "s_c2s x"] obtain ct p where
    c: "encrypt_json (lc_crypto lc) iv (nmea_message (cc_station cfg) wall line) (s_c2s x) = Inr (data_prefix @ iv @ ct)"
    "16 \<le> length ct" "aes_decrypt (lc_crypto lc) (s_c2s x) iv ct data_aad = Some p"
    "load_message (lc_nesting lc) p = Inr (nmea_message (cc_station cfg) wall line)" by blast
  have m: "classify_message d (s_station x) = Nmea (PStr line)"
    if "nmea_message (cc_station cfg) wall line = PDict d" for d
    using that assms(3) by (auto simp: nmea_message_def classify_message_def message_field_def lit_def)
  obtain d where d: "nmea_message (cc_station cfg) wall line = PDict d" by (simp add: nmea_message_def)
  have "li_queue (handle_session_data lc env addr x iv ct l) = li_queue l @ [frame_of_text lc addr (s_station x) line]"
    using assms(6,11-13) c(3,4) m [OF d] d
    by (simp add: handle_session_data_def Let_def queue_payload_def build_udpsec_source_id_def
        frame_from_text_payload_def frame_of_text_def)
  with c packet_parts [OF assms(9) c(2)] assms(2) show ?thesis by auto
qed

lemma proxied_sentence_queued_witness:
  "\<exists>packet iv ct l. encrypt_json example_crypto iv (nmea_message (PStr (lit ''st'')) 0 (lit ''!AIVDM,x*00'')) ''k'' = Inr packet \<and>
    li_queue (handle_session_data example_listener (example_env 0) (lit ''s'', 1, []) (fst example_live) iv ct l) =
      [frame_of_text example_listener (lit ''s'', 1, []) (lit ''st'') (lit ''!AIVDM,x*00'')]"
proof -
  let ?l = "listener_init (snd example_live) example_traffic" and ?iv = "replicate 12 CHR ''n''"
  have x: "s_station (fst example_live) = lit ''st''" "s_c2s (fst example_live) = ''k''"
    by (simp_all add: example_live_def secure_run)
  have l: "li_state ?l = snd example_live" "li_queue ?l = []" by (simp_all add: listener_init_def)
  obtain st1 st2 st3 where a: "data_nonce_seen (fst example_live) ?iv 0 (snd example_live) = Inr (False, st1)"
    "accept_data_nonce (fst example_live) ?iv 0 st1 = Inr (True, st2)"
    "touch_session (lit ''s'', 1, []) (fst example_live) 0 st2 = Inr (True, st3)"
    using example_live_accepts by blast
  have "\<exists>packet ct. encrypt_json (cc_crypto example_client) ?iv
      (nmea_message (cc_station example_client) 0 (lit ''!AIVDM,x*00'')) (s_c2s (fst example_live)) = Inr packet \<and>
    starts_with data_prefix packet \<and> parse_secure_data_packet packet = Inr (?iv, ct) \<and>
    li_queue (handle_session_data example_listener (example_env 0) (lit ''s'', 1, []) (fst example_live) ?iv ct ?l) =
      li_queue ?l @ [frame_of_text example_listener (lit ''s'', 1, []) (s_station (fst example_live)) (lit ''!AIVDM,x*00'')]"
    by (rule proxied_sentence_queued [where data = example_line_data and ?st1.0 = st1 and ?st2.0 = st2 and ?st3.0 = st3 and touched = True])
      (use a x l in \<open>simp_all add: example_line example_aes example_listener_def example_client_def example_env_def wf_text_def
        clean_def is_surrogate_def lit_def writable_def whole_seconds_def ticks_per_second_def nat_str.simps max_str_digits_def\<close>)
  then show ?thesis unfolding x l by (auto simp: example_client_def)
qed

text \<open>
  C14. A session is kept only while the server answers. In every run of the session loop, the
  pings sent are numbered from 1; the pongs that were accepted answer different pings, in order,
  each by a packet from the server's address that opens under the server's key; and as long as
  the loop goes on, the clock at the head of every turn was within the peer timeout of the last
  accepted pong, or of the start.
\<close>

theorem session_needs_answers:
  assumes "forward_loop cfg t km turns (session_loop_init start) = (r, st)" and "clocks_ok start turns"
  shows "fl_pings st = [1..fl_next st - 1] \<and> sorted_wrt (<) (fl_answered st) \<and>
    set (fl_answered st) \<subseteq> set (fl_pings st) \<and>
    (\<forall>n \<in> set (fl_answered st). \<exists>data \<in> set (turn_packets (cc_remote cfg) turns).
       authentic_pong (cc_crypto cfg) (cc_nesting cfg) data (server_to_client_key km) (cc_station cfg) n) \<and>
    (r = Continue \<longrightarrow> (\<forall>tu \<in> set turns. tu_head tu < fl_peer st + peer_timeout t))"
proof -
  have "pinging cfg km [] (session_loop_init start)" by (simp add: pinging_def session_loop_init_def)
  from forward_loop_pinging [OF assms(1) this] have "pinging cfg km turns st" by simp
  moreover have "\<forall>tu \<in> set turns. tu_head tu < fl_peer st + peer_timeout t" if "r = Continue"
    using forward_loop_silence [OF assms(1) [unfolded that] assms(2)] by (simp add: session_loop_init_def)
  ultimately show ?thesis by (auto simp: pinging_def)
qed

lemma session_needs_answers_witness:
  "\<exists>st. forward_loop example_client example_timing example_keys [example_turn] (session_loop_init 0) = (Continue, st) \<and>
     fl_pings st = [1] \<and> (10 :: int) < fl_peer st + peer_timeout example_timing"
proof -
  obtain p q where "encrypt_json example_crypto (replicate 12 CHR ''n'') (nmea_message (PStr (lit ''st'')) 0 (lit ''!AIVDM,x*00'')) ''c'' = Inr p"
    "encrypt_json example_crypto (replicate 12 CHR ''n'') (ping_message (PStr (lit ''st'')) 0 1) ''c'' = Inr q"
    using example_packets by blast
  then have r: "forward_loop example_client example_timing example_keys [example_turn] (session_loop_init 0) =
      (Continue, (session_loop_init 0)\<lparr>fl_sent := [p, q], fl_expected := Some 1, fl_next := 2, fl_ping := 12, fl_pings := [1]\<rparr>)"
    by (simp add: forward_turn_def example_turn_def session_loop_init_def session_expiration_reason_def example_timing_def
        example_client_def example_keys_def receive_peer_def forward_input_payload_def example_line
        send_udpsec_nmea_sentence_def send_packet_def ping_if_due_def send_ping_def Let_def lit_def)
  from session_needs_answers [OF this] show ?thesis using r
    by (simp add: example_turn_def)
qed

text \<open>
  The proxy forwards every sentence once and in order, on either output: after reading data
  it has sent exactly the sentences in it; after an error, the sentences before the one that
  failed, and nothing else of the state changes.
\<close>

theorem sentences_forwarded_in_order:
  assumes "forward_payloads (send_udpsec_nmea_sentence cfg se c2s) ds st = (r, st')"
    and "forward_payloads (plain_emit env) ds p = (r', p')"
  shows "(\<exists>done. prefix done (sentences_of ds) \<and> (r = None \<longrightarrow> done = sentences_of ds) \<and> packets_sent cfg c2s done st st') \<and>
    (\<exists>done. prefix done (sentences_of ds) \<and> (r' = None \<longrightarrow> done = sentences_of ds) \<and> datagrams_sent done p p')"
  using udpsec.payloads_delivered [OF assms(1)] plain.payloads_delivered [OF assms(2)] by blast

lemma sentences_forwarded_in_order_witness:
  "\<exists>p p'. plain_emit example_sock_env (lit ''!AIVDM,x*00'') example_plain = (None, p') \<and>
    sentences_of [example_line_data] = [lit ''!AIVDM,x*00''] \<and>
    datagrams_sent [lit ''!AIVDM,x*00''] example_plain p' \<and>
    packets_sent example_client ''c'' [lit ''!AIVDM,x*00''] (session_loop_init 0) ((session_loop_init 0)\<lparr>fl_sent := [p]\<rparr>)"
proof -
  obtain p where p: "encrypt_json example_crypto (replicate 12 CHR ''n'') (nmea_message (PStr (lit ''st'')) 0 (lit ''!AIVDM,x*00'')) ''c'' = Inr p"
    using example_packets by blast
  then have u: "forward_payloads (send_udpsec_nmea_sentence example_client (tu_send example_turn) ''c'') [example_line_data]
      (session_loop_init 0) = (None, (session_loop_init 0)\<lparr>fl_sent := [p]\<rparr>)"
    by (simp add: forward_input_payload_def example_line send_udpsec_nmea_sentence_def send_packet_def Let_def
        example_turn_def example_client_def session_loop_init_def lit_def)
  obtain p' where e: "plain_emit example_sock_env (lit ''!AIVDM,x*00'') example_plain = (None, p')"
    by (simp add: plain_emit_def send_sentence_def example_sock_env_def example_plain_def lit_def encode_strict_def
        is_surrogate_def encode_surrogatepass_def utf8_enc_def utf8_enc1.simps)
  then have "forward_payloads (plain_emit example_sock_env) [example_line_data] example_plain = (None, p')"
    by (simp add: forward_input_payload_def example_line lit_def)
  from sentences_forwarded_in_order [OF u this] e show ?thesis
    by (auto simp: sentences_of_def example_line lit_def)
qed

end
