(* ===== verification/ControlTables.thy ===== *)
theory ControlTables
  imports ControlProtocol Json
begin

section \<open>Statistics as tables (\<open>aismixerctl.py\<close>)\<close>

text \<open>
  What the interactive shell makes of a statistics result: the checks of the result object, the
  cells, and the aligned text. A response comes from JSON, so its keys are strings. What is
  shown: a cell of a printed row can be read back from its column, and every result the server
  builds from valid snapshots is printed, number by number.
\<close>

subsection \<open>Checks\<close>

definition got :: "(pyval \<times> pyval) list \<Rightarrow> string \<Rightarrow> pyval" where
  "got d k = (case map_of d (PStr (lit k)) of None \<Rightarrow> PNone | Some v \<Rightarrow> v)"

definition exact_mapping :: "pyval \<Rightarrow> string list \<Rightarrow> (pyval \<times> pyval) list res" where
  "exact_mapping v names =
     (case v of
        PDict d \<Rightarrow>
          if set (keys d) = set (map (\<lambda>f. PStr (lit f)) names) then Inr d else Inl RoutingControlResponseError
      | _ \<Rightarrow> Inl RoutingControlResponseError)"

fun require_counter :: "pyval \<Rightarrow> int res" where
  "require_counter (PInt i) = (if i < 0 then Inl RoutingControlResponseError else Inr i)"
| "require_counter _ = Inl RoutingControlResponseError"

definition counter_cells :: "(pyval \<times> pyval) list \<Rightarrow> string list \<Rightarrow> int list res" where
  "counter_cells d names = rmap (\<lambda>f. require_counter (got d f)) names"

definition counter_mapping :: "pyval \<Rightarrow> string list \<Rightarrow> int list res" where
  "counter_mapping v names = rbind (exact_mapping v names) (\<lambda>d. counter_cells d names)"

definition statistics_sequence :: "pyval \<Rightarrow> pyval list res" where
  "statistics_sequence v = (case v of PList vs \<Rightarrow> Inr vs | _ \<Rightarrow> Inl RoutingControlResponseError)"

definition result_name :: "pyval \<Rightarrow> pystr res" where
  "result_name v =
     (case v of PStr s \<Rightarrow> if s = [] then Inl RoutingControlResponseError else Inr s | _ \<Rightarrow> Inl RoutingControlResponseError)"

text \<open>\<open>str(i)\<close>, which refuses an integer of too many digits\<close>

definition int_text :: "int \<Rightarrow> pystr res" where
  "int_text i = (if length (nat_str (nat \<bar>i\<bar>)) > max_str_digits then Inl ValueError else Inr (int_str i))"

subsection \<open>Rows\<close>

definition queue_fields :: "string list" where
  "queue_fields = [''name'', ''capacity'', ''depth'', ''peak_depth'', ''enqueued'', ''dequeued'', ''put_waits'', ''current_put_waiters'']"

definition queue_headers :: "pystr list" where
  "queue_headers = map lit [''NAME'', ''CAPACITY'', ''DEPTH'', ''PEAK'', ''ENQUEUED'', ''DEQUEUED'', ''PUT WAITS'', ''WAITERS'']"

definition processor_fields :: "string list" where
  "processor_fields = [''process_calls'', ''process_completed'', ''process_failed'', ''process_in_flight'',
     ''outputless_calls'', ''output_batches'', ''output_messages'', ''reset_calls'', ''reset_completed'',
     ''reset_failed'', ''reset_in_flight'']"

definition egress_fields :: "string list" where
  "egress_fields = [''batches_started'', ''batches_completed'', ''batches_failed'', ''batches_cancelled'', ''active_batches'',
     ''outputs_started'', ''outputs_completed'', ''outputs_failed'', ''outputs_cancelled'', ''active_outputs'']"

definition statistics_fields :: "string list" where
  "statistics_fields = [''ingress_queues'', ''processing_queue'', ''processor'', ''egress_queue'', ''egress_operations'']"

definition input_fields :: "string list" where
  "input_fields = [''name'', ''kind'', ''transport_packets'', ''transport_bytes'', ''accepted_frames'', ''payload_bytes'']"

definition input_headers :: "pystr list" where
  "input_headers = map lit [''INPUT'', ''KIND'', ''TRANSPORT PACKETS'', ''TRANSPORT BYTES'', ''ACCEPTED FRAMES'', ''PAYLOAD BYTES'']"

definition output_fields :: "string list" where
  "output_fields = [''target_id'', ''name'', ''dispatch_attempts'', ''dispatch_completed'', ''dispatch_failed'', ''messages'', ''bytes'']"

definition output_headers :: "pystr list" where
  "output_headers = map lit [''TARGET ID'', ''NAME'', ''ATTEMPTS'', ''COMPLETED'', ''FAILED'', ''MESSAGES'', ''BYTES'']"

definition queue_table_row :: "pyval \<Rightarrow> pystr list res" where
  "queue_table_row v =
     rbind (exact_mapping v queue_fields) (\<lambda>d.
     rbind (result_name (got d ''name'')) (\<lambda>name.
     rbind (counter_cells d (tl queue_fields)) (\<lambda>is.
     rbind (rmap int_text is) (\<lambda>cells. Inr (name # cells)))))"

definition input_traffic_table_row :: "pyval \<Rightarrow> pystr list res" where
  "input_traffic_table_row v =
     rbind (exact_mapping v input_fields) (\<lambda>d.
     rbind (result_name (got d ''name'')) (\<lambda>name.
     rbind (case got d ''kind'' of
         PStr k \<Rightarrow> if k \<in> {lit ''udp'', lit ''udpsec''} then Inr k else Inl RoutingControlResponseError
       | _ \<Rightarrow> Inl RoutingControlResponseError) (\<lambda>kind.
     rbind (counter_cells d (drop 2 input_fields)) (\<lambda>is.
     rbind (rmap int_text is) (\<lambda>cells. Inr (name # kind # cells))))))"

definition output_traffic_table_row :: "pyval \<Rightarrow> pystr list res" where
  "output_traffic_table_row v =
     rbind (exact_mapping v output_fields) (\<lambda>d.
     rbind (require_counter (got d ''target_id'')) (\<lambda>target.
     rbind (case got d ''name'' of PNone \<Rightarrow> Inr (lit ''-'') | n \<Rightarrow> result_name n) (\<lambda>name.
     rbind (counter_cells d (drop 2 output_fields)) (\<lambda>is.
     rbind (rmap int_text (target # is)) (\<lambda>cells. Inr (hd cells # name # tl cells))))))"

subsection \<open>The text of a table\<close>

definition ljust :: "nat \<Rightarrow> pystr \<Rightarrow> pystr" where
  "ljust w s = s @ replicate (w - length s) 32"

definition rjust :: "nat \<Rightarrow> pystr \<Rightarrow> pystr" where
  "rjust w s = replicate (w - length s) 32 @ s"

definition rstrip :: "pystr \<Rightarrow> pystr" where
  "rstrip s = rev (dropWhile is_space (rev s))"

text \<open>\<open>"  ".join(fields)\<close>\<close>

fun two_spaces :: "pystr list \<Rightarrow> pystr" where
  "two_spaces [] = []"
| "two_spaces [f] = f"
| "two_spaces (f # fs) = f @ [32, 32] @ two_spaces fs"

definition widen :: "pystr list \<Rightarrow> nat list \<Rightarrow> nat list" where
  "widen row widths = map2 (\<lambda>s w. max w (length s)) row widths"

definition column_widths :: "pystr list \<Rightarrow> pystr list list \<Rightarrow> nat list" where
  "column_widths headers rows = fold widen rows (map length headers)"

definition header_line :: "nat list \<Rightarrow> pystr list \<Rightarrow> pystr" where
  "header_line widths headers = rstrip (two_spaces (map2 ljust widths headers))"

fun row_fields :: "nat list \<Rightarrow> pystr list \<Rightarrow> pystr list" where
  "row_fields (w # ws) (s # ss) = ljust w s # map2 rjust ws ss"
| "row_fields _ _ = []"

definition row_line :: "nat list \<Rightarrow> pystr list \<Rightarrow> pystr" where
  "row_line widths row = rstrip (two_spaces (row_fields widths row))"

definition table_lines :: "pystr list \<Rightarrow> pystr list list \<Rightarrow> pystr list" where
  "table_lines headers rows =
     (let ws = column_widths headers rows
      in [header_line ws headers, two_spaces (map (\<lambda>w. replicate w 45) ws)] @ map (row_line ws) rows)"

definition format_ascii_table :: "pystr list \<Rightarrow> pystr list list \<Rightarrow> pystr res" where
  "format_ascii_table headers rows =
     (if list_ex (\<lambda>row. length row \<noteq> length headers) rows then Inl AssertionError
      else Inr (join 10 (table_lines headers rows)))"

subsection \<open>The three results\<close>

text \<open>A titled table of the statistics.\<close>

definition titled :: "string \<Rightarrow> pystr list \<Rightarrow> pystr list list \<Rightarrow> pystr res" where
  "titled t headers rows = rbind (format_ascii_table headers rows) (\<lambda>text. Inr (lit t @ [10] @ text))"

definition egress_rows :: "int list \<Rightarrow> pystr list list res" where
  "egress_rows is =
     rbind (rmap int_text is) (\<lambda>cells. Inr [lit ''BATCHES'' # take 5 cells, lit ''OUTPUTS'' # drop 5 cells])"

definition format_runtime_statistics :: "pyval \<Rightarrow> pystr res" where
  "format_runtime_statistics result =
     rbind (exact_mapping result statistics_fields) (\<lambda>d.
     rbind (statistics_sequence (got d ''ingress_queues'')) (\<lambda>queues.
     rbind (rmap queue_table_row queues) (\<lambda>ingress.
     rbind (queue_table_row (got d ''processing_queue'')) (\<lambda>processing.
     rbind (queue_table_row (got d ''egress_queue'')) (\<lambda>egress.
     rbind (counter_mapping (got d ''processor'') processor_fields) (\<lambda>ps.
     rbind (rmap int_text ps) (\<lambda>pcells.
     rbind (counter_mapping (got d ''egress_operations'') egress_fields) (\<lambda>es.
     rbind (egress_rows es) (\<lambda>erows.
     rbind (titled ''Ingress queues'' queue_headers ingress) (\<lambda>a.
     rbind (titled ''Processing queue'' queue_headers [processing]) (\<lambda>b.
     rbind (titled ''Processor'' [lit ''METRIC'', lit ''VALUE'']
              (map2 (\<lambda>f c. [lit f, c]) processor_fields pcells)) (\<lambda>c.
     rbind (titled ''Egress queue'' queue_headers [egress]) (\<lambda>e.
     rbind (titled ''Local egress operations''
              (map lit [''TYPE'', ''STARTED'', ''COMPLETED'', ''FAILED'', ''CANCELLED'', ''ACTIVE'']) erows) (\<lambda>f.
       Inr (a @ [10, 10] @ b @ [10, 10] @ c @ [10, 10] @ e @ [10, 10] @ f @ [10])))))))))))))))"

definition format_runtime_statistics_inputs :: "pyval \<Rightarrow> pystr res" where
  "format_runtime_statistics_inputs result =
     rbind (exact_mapping result [''inputs'']) (\<lambda>d.
     rbind (statistics_sequence (got d ''inputs'')) (\<lambda>vs.
     rbind (rmap input_traffic_table_row vs) (\<lambda>rows.
     rbind (format_ascii_table input_headers rows) (\<lambda>t. Inr (t @ [10])))))"

definition format_runtime_statistics_outputs :: "pyval \<Rightarrow> pystr res" where
  "format_runtime_statistics_outputs result =
     rbind (exact_mapping result [''outputs'']) (\<lambda>d.
     rbind (statistics_sequence (got d ''outputs'')) (\<lambda>vs.
     rbind (rmap output_traffic_table_row vs) (\<lambda>rows.
     rbind (format_ascii_table output_headers rows) (\<lambda>t. Inr (t @ [10])))))"

subsection \<open>Reading a table back\<close>

text \<open>A cell without white space at its ends, and the text of a column in a line.\<close>

definition tight :: "pystr \<Rightarrow> bool" where
  "tight s \<longleftrightarrow> s \<noteq> [] \<and> \<not> is_space (hd s) \<and> \<not> is_space (last s)"

definition cell_at :: "nat list \<Rightarrow> nat \<Rightarrow> pystr \<Rightarrow> pystr" where
  "cell_at ws j line = strip (take (ws ! j) (drop (sum_list (take j ws) + 2 * j) line))"

lemma space_32 [simp]: "is_space 32"
  by (simp add: is_space_def)

lemma dropWhile_spaces: "dropWhile is_space (replicate n 32 @ s) = dropWhile is_space s"
  by (induction n) auto

lemma rstrip_tight: "s \<noteq> [] \<Longrightarrow> \<not> is_space (last s) \<Longrightarrow> rstrip s = s"
  by (cases s rule: rev_cases) (auto simp: rstrip_def)

lemma strip_tight: "tight s \<Longrightarrow> strip (replicate m 32 @ s @ replicate n 32) = s"
proof -
  assume t: "tight s"
  then have "dropWhile is_space (s @ replicate n 32) = s @ replicate n 32"
    by (cases s) (auto simp: tight_def)
  moreover have "dropWhile is_space (rev s) = rev s"
    using t by (cases s rule: rev_cases) (auto simp: tight_def)
  ultimately show ?thesis
    by (simp add: strip_def dropWhile_spaces)
qed

lemma strip_justified: "tight s \<Longrightarrow> strip (ljust w s) = s" "tight s \<Longrightarrow> strip (rjust w s) = s"
  using strip_tight [of s 0 "w - length s"] strip_tight [of s "w - length s" 0] by (simp_all add: ljust_def rjust_def)

lemma length_justified: "length s \<le> w \<Longrightarrow> length (ljust w s) = w" "length s \<le> w \<Longrightarrow> length (rjust w s) = w"
  by (simp_all add: ljust_def rjust_def)

lemma field_at:
  "j < length fs \<Longrightarrow> take (length (fs ! j)) (drop (sum_list (take j (map length fs)) + 2 * j) (two_spaces fs)) = fs ! j"
proof (induction fs arbitrary: j rule: two_spaces.induct)
  case (3 f g fs)
  show ?case
  proof (cases j)
    case (Suc i)
    with 3 show ?thesis by (simp add: add.commute add.left_commute)
  qed simp
qed simp_all

lemma length_row_fields: "length ws = length row \<Longrightarrow> length (row_fields ws row) = length row"
  by (cases ws; cases row) auto

lemma row_field:
  "length ws = length row \<Longrightarrow> j < length row \<Longrightarrow>
   row_fields ws row ! j = (if j = 0 then ljust (ws ! j) (row ! j) else rjust (ws ! j) (row ! j))"
  by (cases ws; cases row; cases j) auto

lemma last_two_spaces: "fs \<noteq> [] \<Longrightarrow> last fs \<noteq> [] \<Longrightarrow> two_spaces fs \<noteq> [] \<and> last (two_spaces fs) = last (last fs)"
  by (induction fs rule: two_spaces.induct) auto

lemma widen_widths: "length row = length ws \<Longrightarrow> list_all2 (\<le>) ws (widen row ws)"
  by (auto simp: widen_def list_all2_conv_all_nth)

lemma widths_grow:
  "\<forall>r \<in> set rows. length r = length ws \<Longrightarrow> list_all2 (\<le>) ws (fold widen rows ws) \<and>
   (\<forall>r \<in> set rows. list_all2 (\<lambda>s w. length s \<le> w) r (fold widen rows ws))"
proof (induction rows arbitrary: ws)
  case (Cons r rows)
  let ?ws = "widen r ws"
  have l: "length ?ws = length ws" using Cons.prems by (simp add: widen_def)
  then have i: "list_all2 (\<le>) ?ws (fold widen rows ?ws)"
    "\<forall>r \<in> set rows. list_all2 (\<lambda>s w. length s \<le> w) r (fold widen rows ?ws)" using Cons by auto
  have "list_all2 (\<lambda>s w. length s \<le> w) r ?ws"
    using Cons.prems by (auto simp: widen_def list_all2_conv_all_nth)
  then have "list_all2 (\<lambda>s w. length s \<le> w) r (fold widen rows ?ws)"
    using i(1) by (auto simp: list_all2_conv_all_nth) (meson le_trans)
  moreover have "list_all2 (\<le>) ws (fold widen rows ?ws)"
    using widen_widths [of r ws] Cons.prems i(1) by (auto simp: list_all2_conv_all_nth) (meson le_trans)
  ultimately show ?case using i(2) by simp
qed (simp add: list_all2_same)

lemma row_line_cells:
  assumes "list_all2 (\<lambda>s w. length s \<le> w) row ws" and "2 \<le> length row" and "\<forall>s \<in> set row. tight s" and "j < length row"
  shows "cell_at ws j (row_line ws row) = row ! j"
proof -
  let ?fs = "row_fields ws row"
  have len: "length ws = length row" using assms(1) by (simp add: list_all2_lengthD)
  have fits: "length (?fs ! i) = ws ! i" if "i < length row" for i
    using assms(1) that len by (auto simp: row_field length_justified list_all2_conv_all_nth)
  then have widths: "map length ?fs = ws"
    using len by (intro nth_equalityI) (auto simp: length_row_fields)
  have ne: "?fs \<noteq> []" using assms(2) len by (cases ws; cases row) auto
  let ?k = "length row - 1"
  have last: "last ?fs = rjust (ws ! ?k) (row ! ?k)"
    using assms(2) len ne by (subst last_conv_nth) (auto simp: length_row_fields row_field)
  have "tight (row ! ?k)" using assms(2,3) by simp
  then have "last ?fs \<noteq> [] \<and> \<not> is_space (last (last ?fs))"
    unfolding last by (simp add: tight_def rjust_def)
  then have "row_line ws row = two_spaces ?fs"
    using ne last_two_spaces [of ?fs] rstrip_tight by (simp add: row_line_def)
  moreover have "take (ws ! j) (drop (sum_list (take j ws) + 2 * j) (two_spaces ?fs)) = ?fs ! j"
    using field_at [of j ?fs] fits assms(4) len unfolding widths by (simp add: length_row_fields)
  ultimately show ?thesis
    using assms(3,4) len by (auto simp: cell_at_def row_field strip_justified)
qed

subsection \<open>What the server sends is printed\<close>

text \<open>An object after its keys were sorted.\<close>

lemma sorted_mapping:
  assumes "distinct (keys d)"
  shows "\<exists>d'. sort_keys (PDict d) = PDict d' \<and> set (keys d') = set (keys d) \<and> distinct (keys d') \<and>
    (\<forall>k. map_of d' k = map_option sort_keys (map_of d k))"
proof -
  let ?m = "map (\<lambda>(k, v). (k, sort_keys v)) d"
  let ?d = "sort_key item_key ?m"
  have k: "map fst ?m = map fst d" by (induction d) auto
  have "mset (map fst ?d) = mset (map fst ?m)" by (simp only: mset_map mset_sort)
  then have d: "distinct (map fst ?d)" using assms k by (metis mset_eq_imp_distinct_iff)
  have "set ?d = set ?m" by (rule set_sort)
  moreover have "distinct (map fst ?m)" using k assms by (simp only:)
  ultimately have "map_of ?d = map_of ?m" using map_of_inject_set [OF d] by blast
  moreover have "map_of ?m k = map_option sort_keys (map_of d k)" for k by (induction d) auto
  ultimately have 1: "\<forall>k. map_of ?d k = map_option sort_keys (map_of d k)" by metis
  have 2: "set (map fst ?d) = set (map fst d)" using k by (metis list.set_map set_sort)
  have 3: "sort_keys (PDict d) = PDict ?d" by simp
  from 1 2 3 d show ?thesis by blast
qed

lemma sorted_obj:
  assumes "distinct (map fst kvs)"
  shows "\<exists>d. sort_keys (obj kvs) = PDict d \<and> exact_mapping (PDict d) (map fst kvs) = Inr d \<and> distinct (keys d) \<and>
    set (keys d) = (\<lambda>f. PStr (lit f)) ` set (map fst kvs) \<and>
    (\<forall>k. got d k = (case map_of kvs k of None \<Rightarrow> PNone | Some v \<Rightarrow> sort_keys v))"
proof -
  let ?o = "map (\<lambda>(k, v). (PStr (lit k), v)) kvs"
  have k: "map fst ?o = map (\<lambda>f. PStr (lit f)) (map fst kvs)" by (induction kvs) auto
  have "distinct (map fst ?o)" unfolding k using assms by (simp add: distinct_map inj_on_def)
  from sorted_mapping [OF this] obtain d where d: "sort_keys (PDict ?o) = PDict d" "set (keys d) = set (map fst ?o)"
    "distinct (keys d)" "\<And>k. map_of d k = map_option sort_keys (map_of ?o k)" by blast
  have "map_of ?o (PStr (lit k)) = map_of kvs k" for k by (induction kvs) auto
  then have "\<forall>k. got d k = (case map_of kvs k of None \<Rightarrow> PNone | Some v \<Rightarrow> sort_keys v)"
    by (auto simp: got_def d(4) split: option.splits)
  moreover have "exact_mapping (PDict d) (map fst kvs) = Inr d"
    using d(2) unfolding k by (simp add: exact_mapping_def)
  ultimately show ?thesis using d(1-3) unfolding k by (auto simp: obj_def)
qed

text \<open>Counters that can be printed, and the cells of a row.\<close>

definition printable_int :: "int \<Rightarrow> bool" where
  "printable_int i \<longleftrightarrow> 0 \<le> i \<and> length (nat_str (nat i)) \<le> max_str_digits"

declare require_counter.simps(1) [simp del]

lemma require_printable [simp]: "printable_int i \<Longrightarrow> require_counter (PInt i) = Inr i"
  by (simp add: printable_int_def require_counter.simps)

lemma int_text_printable [simp]: "printable_int i \<Longrightarrow> int_text i = Inr (int_str i)"
  by (simp add: printable_int_def int_text_def)

lemma int_texts [simp]: "list_all printable_int is \<Longrightarrow> rmap int_text is = Inr (map int_str is)"
  by (intro rmap_total) (auto simp: list_all_iff)

definition queue_counters :: "queue_metrics \<Rightarrow> int list" where
  "queue_counters q = [qm_capacity q, qm_depth q, qm_peak_depth q, qm_enqueued q, qm_dequeued q, qm_put_waits q,
     qm_current_put_waiters q]"

definition queue_printable :: "queue_metrics \<Rightarrow> bool" where
  "queue_printable q \<longleftrightarrow> qm_name q \<noteq> [] \<and> list_all printable_int (queue_counters q)"

definition processor_counters :: "processor_metrics \<Rightarrow> int list" where
  "processor_counters m = [pm_process_calls m, pm_process_completed m, pm_process_failed m, pm_process_in_flight m,
     pm_outputless_calls m, pm_output_batches m, pm_output_messages m, pm_reset_calls m, pm_reset_completed m,
     pm_reset_failed m, pm_reset_in_flight m]"

definition egress_counters_of :: "egress_metrics \<Rightarrow> int list" where
  "egress_counters_of m = [em_batches_started m, em_batches_completed m, em_batches_failed m, em_batches_cancelled m,
     em_active_batches m, em_outputs_started m, em_outputs_completed m, em_outputs_failed m, em_outputs_cancelled m,
     em_active_outputs m]"

definition queue_cells :: "queue_metrics \<Rightarrow> pystr list" where
  "queue_cells q = qm_name q # map int_str (queue_counters q)"

definition input_counters :: "input_traffic_metrics \<Rightarrow> int list" where
  "input_counters m = [it_transport_packets m, it_transport_bytes m, it_accepted_frames m, it_payload_bytes m]"

definition input_cells :: "input_traffic_metrics \<Rightarrow> pystr list" where
  "input_cells m = it_name m # it_kind m # map int_str (input_counters m)"

definition output_counters :: "output_traffic_metrics \<Rightarrow> int list" where
  "output_counters m = [ot_dispatch_attempts m, ot_dispatch_completed m, ot_dispatch_failed m, ot_messages m, ot_bytes m]"

definition output_cells :: "output_traffic_metrics \<Rightarrow> pystr list" where
  "output_cells m = int_str (ot_target_id m) # (case ot_name m of None \<Rightarrow> lit ''-'' | Some n \<Rightarrow> n) # map int_str (output_counters m)"

lemmas table_fields = queue_fields_def processor_fields_def egress_fields_def statistics_fields_def input_fields_def
  output_fields_def counter_cells_def

lemma queue_row_printed:
  "queue_printable q \<Longrightarrow> queue_table_row (sort_keys (queue_metrics_result q)) = Inr (queue_cells q)"
  using sorted_obj [of "[(''name'', PStr (qm_name q)), (''capacity'', PInt (qm_capacity q)), (''depth'', PInt (qm_depth q)),
          (''peak_depth'', PInt (qm_peak_depth q)), (''enqueued'', PInt (qm_enqueued q)),
          (''dequeued'', PInt (qm_dequeued q)), (''put_waits'', PInt (qm_put_waits q)),
          (''current_put_waiters'', PInt (qm_current_put_waiters q))]"]
  by (auto simp: queue_table_row_def table_fields queue_metrics_result_def queue_cells_def
      queue_printable_def queue_counters_def result_name_def)

lemma input_row_printed:
  "it_name m \<noteq> [] \<Longrightarrow> it_kind m \<in> {lit ''udp'', lit ''udpsec''} \<Longrightarrow> list_all printable_int (input_counters m) \<Longrightarrow>
   input_traffic_table_row (sort_keys (input_traffic_result m)) = Inr (input_cells m)"
  using sorted_obj [of "[(''name'', PStr (it_name m)), (''kind'', PStr (it_kind m)),
          (''transport_packets'', PInt (it_transport_packets m)), (''transport_bytes'', PInt (it_transport_bytes m)),
          (''accepted_frames'', PInt (it_accepted_frames m)), (''payload_bytes'', PInt (it_payload_bytes m))]"]
  by (auto simp: input_traffic_table_row_def table_fields input_traffic_result_def input_cells_def
      input_counters_def result_name_def)

lemma output_row_printed:
  "ot_name m \<noteq> Some [] \<Longrightarrow> list_all printable_int (ot_target_id m # output_counters m) \<Longrightarrow>
   output_traffic_table_row (sort_keys (output_traffic_result m)) = Inr (output_cells m)"
  using sorted_obj [of "[(''target_id'', PInt (ot_target_id m)),
          (''name'', case ot_name m of None \<Rightarrow> PNone | Some n \<Rightarrow> PStr n),
          (''dispatch_attempts'', PInt (ot_dispatch_attempts m)),
          (''dispatch_completed'', PInt (ot_dispatch_completed m)),
          (''dispatch_failed'', PInt (ot_dispatch_failed m)), (''messages'', PInt (ot_messages m)),
          (''bytes'', PInt (ot_bytes m))]"]
  by (cases "ot_name m") (auto simp: output_traffic_table_row_def table_fields output_traffic_result_def output_cells_def
      output_counters_def result_name_def)

lemma format_printed:
  "\<forall>r \<in> set rows. length r = length headers \<Longrightarrow> format_ascii_table headers rows = Inr (join 10 (table_lines headers rows))"
  by (auto simp: format_ascii_table_def list_ex_iff)

lemmas table_headers = queue_headers_def input_headers_def output_headers_def

lemma cells_lengths [simp]:
  "length (queue_cells q) = length queue_headers"
  "length (input_cells m) = length input_headers"
  "length (output_cells t) = length output_headers"
  by (simp_all add: queue_cells_def queue_counters_def input_cells_def input_counters_def output_cells_def
      output_counters_def table_headers)

lemma counters_printed:
  assumes "distinct (map fst kvs)" and "map snd kvs = map PInt is" and "list_all printable_int is"
  shows "counter_mapping (sort_keys (obj kvs)) (map fst kvs) = Inr is"
proof -
  from sorted_obj [OF assms(1)] obtain d where d: "sort_keys (obj kvs) = PDict d"
    "exact_mapping (PDict d) (map fst kvs) = Inr d" "\<And>k. got d k = (case map_of kvs k of None \<Rightarrow> PNone | Some v \<Rightarrow> sort_keys v)"
    by blast
  have len: "length is = length kvs" using assms(2) by (metis length_map)
  have "counter_cells d (map fst kvs) = Inr is"
    unfolding counter_cells_def rmap_Inr_iff list_all2_conv_all_nth
  proof (intro conjI allI impI)
    fix i assume i: "i < length (map fst kvs)"
    then have "map_of kvs (fst (kvs ! i)) = Some (snd (kvs ! i))"
      using assms(1) by (simp add: map_of_eq_Some_iff)
    moreover have "snd (kvs ! i) = PInt (is ! i)" using assms(2) i len by (metis length_map nth_map)
    moreover have "printable_int (is ! i)" using assms(3) i len by (simp add: list_all_length)
    ultimately show "require_counter (got d (map fst kvs ! i)) = Inr (is ! i)" using i d(3) by simp
  qed (simp add: len)
  with d show ?thesis by (simp add: counter_mapping_def)
qed

lemma processor_printed:
  "list_all printable_int (processor_counters m) \<Longrightarrow>
   counter_mapping (sort_keys (processor_metrics_result m)) processor_fields = Inr (processor_counters m)"
  using counters_printed [of "zip processor_fields (map PInt (processor_counters m))" "processor_counters m"]
  by (simp add: processor_metrics_result_def processor_fields_def processor_counters_def)

lemma egress_printed:
  "list_all printable_int (egress_counters_of m) \<Longrightarrow>
   counter_mapping (sort_keys (egress_metrics_result m)) egress_fields = Inr (egress_counters_of m)"
  using counters_printed [of "zip egress_fields (map PInt (egress_counters_of m))" "egress_counters_of m"]
  by (simp add: egress_metrics_result_def egress_fields_def egress_counters_of_def)

definition statistics_printable :: "runtime_statistics \<Rightarrow> bool" where
  "statistics_printable s \<longleftrightarrow>
     list_all queue_printable (rs_ingress_queues s) \<and> queue_printable (rs_processing_queue s) \<and>
     queue_printable (rs_egress_queue s) \<and> list_all printable_int (processor_counters (rs_processor s)) \<and>
     list_all printable_int (egress_counters_of (rs_egress_operations s))"

lemma rows_printed:
  "(\<And>x. x \<in> set xs \<Longrightarrow> row (sort_keys (result x)) = Inr (cells x)) \<Longrightarrow>
   rmap row (map sort_keys (map result xs)) = Inr (map cells xs)"
  by (induction xs) auto

text \<open>The text of the shell, from the snapshots themselves.\<close>

definition titled_text :: "string \<Rightarrow> pystr list \<Rightarrow> pystr list list \<Rightarrow> pystr" where
  "titled_text t headers rows = lit t @ [10] @ join 10 (table_lines headers rows)"

definition processor_table :: "processor_metrics \<Rightarrow> pystr list list" where
  "processor_table m = map2 (\<lambda>f c. [lit f, c]) processor_fields (map int_str (processor_counters m))"

definition egress_table :: "egress_metrics \<Rightarrow> pystr list list" where
  "egress_table m =
     (let cells = map int_str (egress_counters_of m)
      in [lit ''BATCHES'' # take 5 cells, lit ''OUTPUTS'' # drop 5 cells])"

definition statistics_text :: "runtime_statistics \<Rightarrow> pystr" where
  "statistics_text s =
     titled_text ''Ingress queues'' queue_headers (map queue_cells (rs_ingress_queues s)) @ [10, 10] @
     titled_text ''Processing queue'' queue_headers [queue_cells (rs_processing_queue s)] @ [10, 10] @
     titled_text ''Processor'' [lit ''METRIC'', lit ''VALUE''] (processor_table (rs_processor s)) @ [10, 10] @
     titled_text ''Egress queue'' queue_headers [queue_cells (rs_egress_queue s)] @ [10, 10] @
     titled_text ''Local egress operations''
       (map lit [''TYPE'', ''STARTED'', ''COMPLETED'', ''FAILED'', ''CANCELLED'', ''ACTIVE''])
       (egress_table (rs_egress_operations s)) @ [10]"

lemma statistics_printed:
  assumes "statistics_printable s"
  shows "format_runtime_statistics (sort_keys (runtime_statistics_result s)) = Inr (statistics_text s)"
proof -
  let ?kvs = "[(''ingress_queues'', PList (map queue_metrics_result (rs_ingress_queues s))),
          (''processing_queue'', queue_metrics_result (rs_processing_queue s)),
          (''processor'', processor_metrics_result (rs_processor s)),
          (''egress_queue'', queue_metrics_result (rs_egress_queue s)),
          (''egress_operations'', egress_metrics_result (rs_egress_operations s))]"
  from sorted_obj [of ?kvs] obtain d where d: "sort_keys (obj ?kvs) = PDict d"
    "exact_mapping (PDict d) statistics_fields = Inr d"
    "\<And>k. got d k = (case map_of ?kvs k of None \<Rightarrow> PNone | Some v \<Rightarrow> sort_keys v)"
    by (auto simp: statistics_fields_def)
  have q: "rmap queue_table_row (map sort_keys (map queue_metrics_result (rs_ingress_queues s))) =
      Inr (map queue_cells (rs_ingress_queues s))"
    by (rule rows_printed) (use assms in \<open>auto simp: statistics_printable_def list_all_iff queue_row_printed\<close>)
  have p: "format_ascii_table [lit ''METRIC'', lit ''VALUE''] (processor_table m) =
      Inr (join 10 (table_lines [lit ''METRIC'', lit ''VALUE''] (processor_table m)))" for m
    by (rule format_printed) (auto simp: processor_table_def)
  have e: "format_ascii_table (map lit [''TYPE'', ''STARTED'', ''COMPLETED'', ''FAILED'', ''CANCELLED'', ''ACTIVE'']) (egress_table m) =
      Inr (join 10 (table_lines (map lit [''TYPE'', ''STARTED'', ''COMPLETED'', ''FAILED'', ''CANCELLED'', ''ACTIVE'']) (egress_table m)))" for m
    by (rule format_printed) (auto simp: egress_table_def egress_counters_of_def Let_def)
  show ?thesis
    using assms q p [of "rs_processor s"] e [of "rs_egress_operations s"]
    by (simp add: format_runtime_statistics_def runtime_statistics_result_def d statistics_sequence_def
        statistics_printable_def queue_row_printed processor_printed egress_printed egress_rows_def titled_def
        format_printed statistics_text_def titled_text_def processor_table_def [symmetric] egress_table_def Let_def)
qed

subsection \<open>Properties\<close>

text \<open>
  A printed number can be read back. In a table of at least two columns whose cells have no
  white space at their ends, the text of a row between the ends of a column, stripped, is the
  cell: columns never run into each other, however long the cells are.
\<close>

theorem table_reads_back:
  assumes "\<forall>r \<in> set rows. length r = length headers" and "2 \<le> length headers" and "i < length rows"
    and "\<forall>s \<in> set (rows ! i). tight s" and "j < length headers"
  shows "cell_at (column_widths headers rows) j (table_lines headers rows ! (i + 2)) = rows ! i ! j"
proof -
  have r: "rows ! i \<in> set rows" "length (rows ! i) = length headers" using assms(1,3) by auto
  have "\<forall>r \<in> set rows. length r = length (map length headers)" using assms(1) by simp
  from widths_grow [OF this] r(1) have "list_all2 (\<lambda>s w. length s \<le> w) (rows ! i) (column_widths headers rows)"
    by (simp add: column_widths_def)
  from row_line_cells [OF this] assms r show ?thesis by (simp add: table_lines_def Let_def)
qed

lemma table_reads_back_witness:
  "cell_at (column_widths [lit ''A'', lit ''B''] [[lit ''x'', lit ''10''], [lit ''yyy'', lit ''7'']]) 1
     (table_lines [lit ''A'', lit ''B''] [[lit ''x'', lit ''10''], [lit ''yyy'', lit ''7'']] ! (1 + 2)) = lit ''7''"
  using table_reads_back [of "[[lit ''x'', lit ''10''], [lit ''yyy'', lit ''7'']]" "[lit ''A'', lit ''B'']" 1 1]
  by (simp add: tight_def lit_def is_space_def)

text \<open>
  C35. What the server answers, the shell prints. For snapshots with named queues, inputs and
  outputs and counters that are not negative (and of at most 4300 digits), the result objects,
  with their keys sorted as the client receives them, pass the checks of the shell, and the
  text is the tables of exactly these names and numbers.
\<close>

theorem served_statistics_printed:
  assumes "statistics_printable s"
    and "\<forall>m \<in> set ins. it_name m \<noteq> [] \<and> it_kind m \<in> {lit ''udp'', lit ''udpsec''} \<and> list_all printable_int (input_counters m)"
    and "\<forall>m \<in> set outs. ot_name m \<noteq> Some [] \<and> list_all printable_int (ot_target_id m # output_counters m)"
  shows "format_runtime_statistics (sort_keys (runtime_statistics_result s)) = Inr (statistics_text s) \<and>
    format_runtime_statistics_inputs (sort_keys (inputs_result ins None)) =
      Inr (join 10 (table_lines input_headers (map input_cells ins)) @ [10]) \<and>
    format_runtime_statistics_outputs (sort_keys (outputs_result outs None None)) =
      Inr (join 10 (table_lines output_headers (map output_cells outs)) @ [10])"
proof -
  have i: "rmap input_traffic_table_row (map sort_keys (map input_traffic_result ins)) = Inr (map input_cells ins)"
    by (rule rows_printed) (use assms(2) in \<open>auto simp: input_row_printed\<close>)
  have o: "rmap output_traffic_table_row (map sort_keys (map output_traffic_result outs)) = Inr (map output_cells outs)"
    by (rule rows_printed) (use assms(3) in \<open>auto simp: output_row_printed\<close>)
  from sorted_obj [of "[(''inputs'', PList (map input_traffic_result ins))]"]
    sorted_obj [of "[(''outputs'', PList (map output_traffic_result outs))]"] i o statistics_printed [OF assms(1)]
  show ?thesis
    by (auto simp: format_runtime_statistics_inputs_def format_runtime_statistics_outputs_def inputs_result_def
        outputs_result_def statistics_sequence_def format_printed)
qed

definition example_queue :: queue_metrics where
  "example_queue = \<lparr>qm_name = lit ''q'', qm_capacity = 1, qm_depth = 0, qm_peak_depth = 1, qm_enqueued = 2,
     qm_dequeued = 2, qm_put_waits = 0, qm_current_put_waiters = 0\<rparr>"

definition example_statistics :: runtime_statistics where
  "example_statistics = \<lparr>rs_ingress_queues = [example_queue], rs_processing_queue = example_queue,
     rs_processor = \<lparr>pm_process_calls = 1, pm_process_completed = 1, pm_process_failed = 0, pm_process_in_flight = 0,
       pm_outputless_calls = 1, pm_output_batches = 0, pm_output_messages = 0, pm_reset_calls = 0,
       pm_reset_completed = 0, pm_reset_failed = 0, pm_reset_in_flight = 0\<rparr>,
     rs_egress_queue = example_queue,
     rs_egress_operations = \<lparr>em_batches_started = 0, em_batches_completed = 0, em_batches_failed = 0,
       em_batches_cancelled = 0, em_active_batches = 0, em_outputs_started = 0, em_outputs_completed = 0,
       em_outputs_failed = 0, em_outputs_cancelled = 0, em_active_outputs = 0\<rparr>\<rparr>"

definition example_output_metrics :: output_traffic_metrics where
  "example_output_metrics = \<lparr>ot_target_id = 0, ot_name = None, ot_dispatch_attempts = 1, ot_dispatch_completed = 1,
     ot_dispatch_failed = 0, ot_messages = 1, ot_bytes = 9\<rparr>"

lemma served_statistics_printed_witness:
  "format_runtime_statistics (sort_keys (runtime_statistics_result example_statistics)) = Inr (statistics_text example_statistics) \<and>
   format_runtime_statistics_outputs (sort_keys (outputs_result [example_output_metrics] None None)) =
     Inr (join 10 (table_lines output_headers [[lit ''0'', lit ''-'', lit ''1'', lit ''1'', lit ''0'', lit ''1'', lit ''9'']]) @ [10])"
  using served_statistics_printed [of example_statistics "[]" "[example_output_metrics]"]
  by (simp add: statistics_printable_def queue_printable_def example_statistics_def example_queue_def printable_int_def
      queue_counters_def processor_counters_def egress_counters_of_def output_counters_def example_output_metrics_def
      output_cells_def int_str_def nat_str.simps max_str_digits_def lit_def)

end
