(* ===== verification/ControlClient.thy ===== *)
theory ControlClient
  imports ControlSocket ControlTables
begin

section \<open>The control client (\<open>core/routing_control_unix_client.py\<close>, \<open>aismixerctl.py\<close>)\<close>

text \<open>
  The client of the control socket: the requests the command line builds, one request per
  connection, the checks of the response, and the exit code. \<open>peer\<close> is the other side: what the
  stream holds after a payload was written to it, or the error of connecting and writing. A
  mapping that is sent is a dictionary with string keys; parsing the command line
  (\<open>argparse\<close>, \<open>shlex\<close>), the texts of the error messages and the indented output are left out.
  What is shown: a response that is returned is an object of the protocol with the id of the
  request, whatever the peer does; the requests of the command line are well-formed; and client
  and server together do what \<open>handle_request\<close> does, however the bytes arrive.
\<close>

subsection \<open>The Unix client\<close>

record client =
  cl_path :: pystr
  cl_max :: nat

text \<open>\<open>os.fspath\<close>: a bytes path is returned as it is and refused by the next check.\<close>

definition client_init :: "pyval \<Rightarrow> pyval \<Rightarrow> client res" where
  "client_init path mx =
     (case path of
        PStr p \<Rightarrow>
          if p = [] then Inl ValueError
          else (case as_int mx of
                  None \<Rightarrow> Inl TypeError
                | Some n \<Rightarrow> if n \<le> 0 then Inl ValueError else Inr \<lparr>cl_path = p, cl_max = nat n\<rparr>)
      | _ \<Rightarrow> Inl TypeError)"

definition encode_json_request :: "pyval \<Rightarrow> bytes res" where
  "encode_json_request request = rbind (json_dumps False True request) encode_strict"

function read_response_frame :: "nat \<Rightarrow> bytes \<Rightarrow> reader \<Rightarrow> bytes res" where
  "read_response_frame mx buffer r =
     (case partition_at newline buffer of
        Some (frame, rest) \<Rightarrow>
          if frame = [] then Inl RoutingControlResponseError
          else if length frame > mx then Inl RoutingControlResponseTooLargeError
          else Inr frame
      | None \<Rightarrow>
          if length buffer > mx then Inl RoutingControlResponseTooLargeError
          else (case reader_read (max 1 (min read_chunk_size (mx + 1 - length buffer))) r of
                  (Chunk chunk, r') \<Rightarrow> read_response_frame mx (buffer @ chunk) r'
                | (ConnectionLost, r') \<Rightarrow> Inl RoutingControlConnectionError
                | (EndOfStream, r') \<Rightarrow> if buffer = [] then Inl RoutingControlResponseError else Inr buffer))"
  by pat_completeness auto
termination
proof (relation "measure (\<lambda>(mx, buffer, r). length (r_data r))", goal_cases)
  case (2 mx buffer r x xa y)
  then show ?case
    using reader_read_Chunk(1,2) [of "max 1 (min read_chunk_size (mx + 1 - length buffer))" r]
    by (metis case_prod_conv in_measure length_append length_greater_0_conv less_add_same_cancel2 max.strict_coboundedI1 zero_less_one)
qed simp

declare read_response_frame.simps [simp del]

definition decode_response :: "nat \<Rightarrow> bytes \<Rightarrow> (pyval \<times> pyval) list res" where
  "decode_response lim frame =
     (case utf8_decode Strict frame of
        Inl _ \<Rightarrow> Inl RoutingControlResponseError
      | Inr t \<Rightarrow>
          (case json_loads lim t of
             Inl JSONDecodeError \<Rightarrow> Inl RoutingControlResponseError
           | Inl e \<Rightarrow> Inl (json_exception e)
           | Inr (PDict d) \<Rightarrow> Inr d
           | Inr _ \<Rightarrow> Inl RoutingControlResponseError))"

definition envelope_fields :: "bool \<Rightarrow> pyval set" where
  "envelope_fields ok =
     (\<lambda>f. PStr (lit f)) ` {''version'', ''request_id'', ''ok'', if ok then ''result'' else ''error''}"

definition validate_error_object :: "pyval \<Rightarrow> unit res" where
  "validate_error_object error =
     (case error of
        PDict e \<Rightarrow>
          (case got e ''code'' of
             PStr (_ # _) \<Rightarrow>
               (case got e ''message'' of PStr _ \<Rightarrow> Inr () | _ \<Rightarrow> Inl RoutingControlResponseError)
           | _ \<Rightarrow> Inl RoutingControlResponseError)
      | _ \<Rightarrow> Inl RoutingControlResponseError)"

definition validate_response_envelope :: "(pyval \<times> pyval) list \<Rightarrow> unit res" where
  "validate_response_envelope d =
     (if as_int (got d ''version'') \<noteq> Some 1 then Inl RoutingControlResponseError
      else if got d ''request_id'' \<noteq> PNone \<and> as_str (got d ''request_id'') = None then Inl RoutingControlResponseError
      else (case got d ''ok'' of
              PBool ok \<Rightarrow>
                if \<not> set (keys d) \<subseteq> envelope_fields ok then Inl RoutingControlResponseError
                else if \<not> envelope_fields ok \<subseteq> set (keys d) then Inl RoutingControlResponseError
                else if ok then
                  (case got d ''result'' of PDict _ \<Rightarrow> Inr () | _ \<Rightarrow> Inl RoutingControlResponseError)
                else validate_error_object (got d ''error'')
            | _ \<Rightarrow> Inl RoutingControlResponseError))"

definition trusted_request_id :: "(pyval \<times> pyval) list \<Rightarrow> pyval" where
  "trusted_request_id request =
     (case got request ''request_id'' of PStr (c # cs) \<Rightarrow> PStr (c # cs) | _ \<Rightarrow> PNone)"

definition validate_response_correlation :: "(pyval \<times> pyval) list \<Rightarrow> (pyval \<times> pyval) list \<Rightarrow> unit res" where
  "validate_response_correlation request response =
     (if got response ''request_id'' \<noteq> trusted_request_id request then Inl RoutingControlResponseError else Inr ())"

definition client_request ::
  "nat \<Rightarrow> (bytes \<Rightarrow> reader res) \<Rightarrow> client \<Rightarrow> (pyval \<times> pyval) list \<Rightarrow> (pyval \<times> pyval) list res" where
  "client_request lim peer cl request =
     (case encode_json_request (PDict request) of
        Inl e \<Rightarrow> Inl (if e = TypeError \<or> is_value_error e then RoutingControlClientError else e)
      | Inr payload \<Rightarrow>
          (case rbind (peer (payload @ [newline])) (\<lambda>r.
                rbind (read_response_frame (cl_max cl) [] r) (\<lambda>frame.
                rbind (decode_response lim frame) (\<lambda>response.
                rbind (validate_response_envelope response) (\<lambda>_.
                rbind (validate_response_correlation request response) (\<lambda>_. Inr response))))) of
             Inl e \<Rightarrow> Inl (if is_os_error e then RoutingControlConnectionError else e)
           | Inr response \<Rightarrow> Inr response))"

subsection \<open>The requests of the command line\<close>

text \<open>\<open>_validate_request_id\<close> and the check of an explicit or generated id\<close>

definition nonempty_text :: "pyval \<Rightarrow> pystr res" where
  "nonempty_text v = (case v of PStr (c # cs) \<Rightarrow> Inr (c # cs) | _ \<Rightarrow> Inl AismixerCtlInputError)"

definition build_request_id :: "pyval \<Rightarrow> pyval res \<Rightarrow> pystr res" where
  "build_request_id explicit generated =
     (if explicit \<noteq> PNone then nonempty_text explicit else rbind generated nonempty_text)"

definition base_request :: "pystr \<Rightarrow> control_method \<Rightarrow> (pyval \<times> pyval) list" where
  "base_request rid m =
     [(PStr (lit ''version''), PInt 1), (PStr (lit ''request_id''), PStr rid),
      (PStr (lit ''method''), PStr (method_name m))]"

definition with_params :: "(string \<times> pyval) list \<Rightarrow> (pyval \<times> pyval) list \<Rightarrow> (pyval \<times> pyval) list" where
  "with_params params request = request @ [(PStr (lit ''params''), obj params)]"

definition build_status_request :: "pyval \<Rightarrow> (pyval \<times> pyval) list res" where
  "build_status_request request_id = rbind (nonempty_text request_id) (\<lambda>rid. Inr (base_request rid Status))"

definition build_runtime_statistics_request :: "pyval \<Rightarrow> (pyval \<times> pyval) list res" where
  "build_runtime_statistics_request request_id =
     rbind (nonempty_text request_id) (\<lambda>rid. Inr (base_request rid Statistics))"

definition build_runtime_statistics_inputs_request :: "pyval \<Rightarrow> pyval \<Rightarrow> (pyval \<times> pyval) list res" where
  "build_runtime_statistics_inputs_request request_id input_name =
     rbind (nonempty_text request_id) (\<lambda>rid.
       if input_name = PNone then Inr (base_request rid StatisticsInputs)
       else rbind (nonempty_text input_name) (\<lambda>n.
         Inr (with_params [(''input'', PStr n)] (base_request rid StatisticsInputs))))"

text \<open>\<open>s.isdecimal()\<close>\<close>

definition is_decimal :: "pystr \<Rightarrow> bool" where
  "is_decimal s \<longleftrightarrow> s \<noteq> [] \<and> list_all (\<lambda>c. decimal_value c \<noteq> None) s"

definition build_runtime_statistics_outputs_request :: "pyval \<Rightarrow> pyval \<Rightarrow> (pyval \<times> pyval) list res" where
  "build_runtime_statistics_outputs_request request_id output_name =
     rbind (nonempty_text request_id) (\<lambda>rid.
       if output_name = PNone then Inr (base_request rid StatisticsOutputs)
       else rbind (nonempty_text output_name) (\<lambda>s.
         if is_decimal s then
           (case py_int s of
              None \<Rightarrow> Inl ValueError
            | Some i \<Rightarrow> Inr (with_params [(''target_id'', PInt i)] (base_request rid StatisticsOutputs)))
         else Inr (with_params [(''name'', PStr s)] (base_request rid StatisticsOutputs))))"

fun checked_generation :: "pyval \<Rightarrow> int res" where
  "checked_generation (PInt i) = (if i < 0 then Inl AismixerCtlInputError else Inr i)"
| "checked_generation _ = Inl AismixerCtlInputError"

text \<open>The parameter when it is given, as \<open>_validate_expected_generation\<close> lets it through.\<close>

definition generation_params :: "pyval \<Rightarrow> (string \<times> pyval) list res" where
  "generation_params expected =
     (if expected = PNone then Inr []
      else rbind (checked_generation expected) (\<lambda>g. Inr [(''expected_generation'', PInt g)]))"

definition build_disable_request :: "pyval \<Rightarrow> pyval \<Rightarrow> (pyval \<times> pyval) list res" where
  "build_disable_request request_id expected =
     rbind (nonempty_text request_id) (\<lambda>rid.
     rbind (generation_params expected) (\<lambda>ps.
       Inr (if ps = [] then base_request rid Disable else with_params ps (base_request rid Disable))))"

definition build_replace_request :: "pyval \<Rightarrow> pyval \<Rightarrow> pyval \<Rightarrow> (pyval \<times> pyval) list res" where
  "build_replace_request request_id routing expected =
     rbind (nonempty_text request_id) (\<lambda>rid.
       case routing of
         PDict _ \<Rightarrow>
           rbind (generation_params expected) (\<lambda>ps.
             Inr (with_params ((''routing'', routing) # ps) (base_request rid Replace)))
       | _ \<Rightarrow> Inl AismixerCtlInputError)"

definition extract_routing_section :: "pyval \<Rightarrow> pyval res" where
  "extract_routing_section loaded =
     (case loaded of
        PDict d \<Rightarrow>
          (case map_of d (PStr (lit ''routing'')) of
             Some (PDict r) \<Rightarrow> Inr (PDict r)
           | Some _ \<Rightarrow> Inl AismixerCtlInputError
           | None \<Rightarrow>
               if set (keys d) = {PStr (lit ''zones''), PStr (lit ''routes'')} then Inr loaded
               else Inl AismixerCtlInputError)
      | _ \<Rightarrow> Inl AismixerCtlInputError)"

text \<open>\<open>loaded\<close> is what opening the file and \<open>yaml.safe_load\<close> come to.\<close>

definition load_routing_section_file :: "pyval res \<Rightarrow> pyval res" where
  "load_routing_section_file loaded =
     (case loaded of
        Inl e \<Rightarrow> Inl (if is_os_error e \<or> e = YAMLError then AismixerCtlInputError else e)
      | Inr v \<Rightarrow> extract_routing_section v)"

definition parse_expected_generation :: "pystr \<Rightarrow> int res" where
  "parse_expected_generation value =
     (case py_int value of
        None \<Rightarrow> Inl ArgumentTypeError
      | Some i \<Rightarrow> if i < 0 then Inl ArgumentTypeError else Inr i)"

text \<open>A parsed command; a file stands for what loading it comes to.\<close>

datatype command =
    StatusCommand
  | StatisticsCommand
  | InputsCommand pyval
  | OutputsCommand pyval
  | DisableCommand pyval
  | ReplaceCommand "pyval res" pyval

fun build_request_from_args :: "command \<Rightarrow> pyval \<Rightarrow> (pyval \<times> pyval) list res" where
  "build_request_from_args StatusCommand rid = build_status_request rid"
| "build_request_from_args StatisticsCommand rid = build_runtime_statistics_request rid"
| "build_request_from_args (InputsCommand f) rid = build_runtime_statistics_inputs_request rid f"
| "build_request_from_args (OutputsCommand f) rid = build_runtime_statistics_outputs_request rid f"
| "build_request_from_args (DisableCommand g) rid = build_disable_request rid g"
| "build_request_from_args (ReplaceCommand file g) rid =
     rbind (load_routing_section_file file) (\<lambda>routing. build_replace_request rid routing g)"

subsection \<open>Dispatching a command\<close>

definition format_response :: "(pyval \<times> pyval) list \<Rightarrow> pystr res" where
  "format_response response = rbind (json_dumps False True (PDict response)) (\<lambda>t. Inr (t @ [10]))"

text \<open>The table of a statistics command, the text of any other.\<close>

definition format_result :: "bool \<Rightarrow> command \<Rightarrow> (pyval \<times> pyval) list \<Rightarrow> pystr res" where
  "format_result interactive cmd response =
     (if interactive then
        (case cmd of
           StatisticsCommand \<Rightarrow> format_runtime_statistics (got response ''result'')
         | InputsCommand _ \<Rightarrow> format_runtime_statistics_inputs (got response ''result'')
         | OutputsCommand _ \<Rightarrow> format_runtime_statistics_outputs (got response ''result'')
         | _ \<Rightarrow> format_response response)
      else format_response response)"

text \<open>How a command ends: text on the output, a response on the error stream, or neither.\<close>

datatype command_end = Printed pystr | Reported pystr | Failed int | EscapedCommand py_error

definition failure_of :: "py_error \<Rightarrow> command_end" where
  "failure_of e =
     (if e = KeyboardInterrupt then Failed 130
      else if e = AismixerCtlInputError then Failed 2
      else if e = RoutingControlConnectionError then Failed 4
      else if e \<in> {RoutingControlResponseError, RoutingControlResponseTooLargeError, RoutingControlClientError} then Failed 5
      else if is_exception e then Failed 6
      else EscapedCommand e)"

definition dispatch_command ::
  "nat \<Rightarrow> (bytes \<Rightarrow> reader res) \<Rightarrow> pyval \<Rightarrow> pyval \<Rightarrow> pyval res \<Rightarrow> bool \<Rightarrow> command \<Rightarrow> command_end" where
  "dispatch_command lim peer path explicit generated interactive cmd =
     (case rbind (build_request_id explicit generated) (\<lambda>rid.
           rbind (build_request_from_args cmd (PStr rid)) (\<lambda>request.
           rbind (client_init path (PInt 1048576)) (\<lambda>cl.
           rbind (client_request lim peer cl request) (\<lambda>response.
             if got response ''ok'' = PBool True then
               rbind (format_result interactive cmd response) (\<lambda>t. Inr (True, t))
             else rbind (format_response response) (\<lambda>t. Inr (False, t)))))) of
        Inl e \<Rightarrow> failure_of e
      | Inr (True, t) \<Rightarrow> Printed t
      | Inr (False, t) \<Rightarrow> Reported t)"

fun exit_code :: "command_end \<Rightarrow> int option" where
  "exit_code (Printed _) = Some 0"
| "exit_code (Reported _) = Some 3"
| "exit_code (Failed n) = Some n"
| "exit_code (EscapedCommand _) = None"

subsection \<open>A response that is returned\<close>

definition trusted_response :: "(pyval \<times> pyval) list \<Rightarrow> (pyval \<times> pyval) list \<Rightarrow> bool" where
  "trusted_response request d \<longleftrightarrow>
     got d ''version'' = PInt 1 \<and> got d ''request_id'' = trusted_request_id request \<and>
     (\<exists>ok. got d ''ok'' = PBool ok \<and> set (keys d) = envelope_fields ok \<and>
        (if ok then \<exists>r. got d ''result'' = PDict r
         else \<exists>e c cs m. got d ''error'' = PDict e \<and> got e ''code'' = PStr (c # cs) \<and> got e ''message'' = PStr m))"

lemma as_int_iff: "as_int v = Some i \<longleftrightarrow> v = PInt i"
  by (cases v) auto

lemma error_object_ok:
  "validate_error_object v = Inr () \<longleftrightarrow>
     (\<exists>e c cs m. v = PDict e \<and> got e ''code'' = PStr (c # cs) \<and> got e ''message'' = PStr m)"
  by (auto simp: validate_error_object_def split: pyval.splits list.splits)

lemma trusted_id_form: "trusted_request_id request = PNone \<or> (\<exists>s. trusted_request_id request = PStr s)"
  by (auto simp: trusted_request_id_def split: pyval.splits list.splits)

lemma envelope_ok:
  "validate_response_envelope d = Inr () \<longleftrightarrow>
     got d ''version'' = PInt 1 \<and> (got d ''request_id'' = PNone \<or> (\<exists>s. got d ''request_id'' = PStr s)) \<and>
     (\<exists>ok. got d ''ok'' = PBool ok \<and> set (keys d) = envelope_fields ok \<and>
        (if ok then \<exists>r. got d ''result'' = PDict r else validate_error_object (got d ''error'') = Inr ()))"
proof -
  have rid: "(v \<noteq> PNone \<and> as_str v = None) \<longleftrightarrow> \<not> (v = PNone \<or> (\<exists>s. v = PStr s))" for v
    by (cases v) auto
  have fields: "set (keys d) = F \<longleftrightarrow> set (keys d) \<subseteq> F \<and> F \<subseteq> set (keys d)" for F by blast
  show ?thesis
    unfolding validate_response_envelope_def rid fields as_int_iff
    by (cases "got d ''ok''"; cases "got d ''result''") simp_all
qed

lemma response_checks:
  "validate_response_envelope d = Inr () \<and> validate_response_correlation request d = Inr () \<longleftrightarrow>
   trusted_response request d"
  unfolding envelope_ok trusted_response_def validate_response_correlation_def error_object_ok
  using trusted_id_form [of request] by auto

definition response_errors :: "py_error set" where
  "response_errors = {RoutingControlResponseError, RoutingControlResponseTooLargeError}"

lemma check_errors:
  "validate_response_envelope d = Inl e \<Longrightarrow> e \<in> response_errors"
  "validate_response_correlation request d = Inl e \<Longrightarrow> e \<in> response_errors"
  by (auto simp: validate_response_envelope_def validate_response_correlation_def validate_error_object_def
      response_errors_def split: if_splits pyval.splits list.splits)

lemma read_errors:
  "read_response_frame mx buffer r = Inl e \<Longrightarrow> e \<in> response_errors \<union> {RoutingControlConnectionError}"
proof (induction mx buffer r rule: read_response_frame.induct)
  case (1 mx buffer r)
  show ?case
  proof (cases "partition_at newline buffer = None \<and> \<not> mx < length buffer")
    case True
    let ?n = "max 1 (min read_chunk_size (mx + 1 - length buffer))"
    obtain res r' where r: "reader_read ?n r = (res, r')" by force
    show ?thesis
    proof (cases res)
      case (Chunk chunk)
      with 1(2) r True have "read_response_frame mx (buffer @ chunk) r' = Inl e"
        by (simp add: read_response_frame.simps [of mx buffer r])
      with 1(1) True r Chunk show ?thesis by auto
    qed (use 1(2) r True in \<open>auto simp: read_response_frame.simps [of mx buffer r] response_errors_def split: if_splits\<close>)
  next
    case False
    then show ?thesis using 1(2)
      by (auto simp: read_response_frame.simps [of mx buffer r] response_errors_def split: option.splits if_splits)
  qed
qed

lemma decode_errors:
  "decode_response lim frame = Inl e \<Longrightarrow> e \<in> response_errors \<union> {json_exception IntegerTooLong, json_exception NestingTooDeep}"
  by (auto simp: decode_response_def response_errors_def split: sum.splits json_error.splits pyval.splits)

definition exchange_errors :: "py_error set" where
  "exchange_errors = {RoutingControlConnectionError, RoutingControlResponseError, RoutingControlResponseTooLargeError,
     json_exception IntegerTooLong, json_exception NestingTooDeep}"

lemma response_error:
  assumes "rbind (read_response_frame mx [] r) (\<lambda>frame. rbind (decode_response lim frame) (\<lambda>response.
      rbind (validate_response_envelope response) (\<lambda>_. rbind (validate_response_correlation request response) (\<lambda>_. Inr response)))) = Inl e"
  shows "e \<in> exchange_errors"
proof -
  have sub: "response_errors \<subseteq> exchange_errors" by (auto simp: response_errors_def exchange_errors_def)
  show ?thesis
  proof (cases "read_response_frame mx [] r")
    case (Inl x)
    then have "x = e" using assms by simp
    then show ?thesis using read_errors [OF Inl] sub by (auto simp: exchange_errors_def)
  next
    case (Inr frame)
    show ?thesis
    proof (cases "decode_response lim frame")
      case (Inl x)
      then have "x = e" using assms Inr by simp
      then show ?thesis using decode_errors [OF Inl] sub by (auto simp: exchange_errors_def)
    next
      case (Inr response)
      then have "validate_response_envelope response = Inl e \<or> validate_response_correlation request response = Inl e"
        using assms \<open>read_response_frame mx [] r = Inr frame\<close>
        by (cases "validate_response_envelope response"; cases "validate_response_correlation request response") auto
      then show ?thesis using check_errors sub by blast
    qed
  qed
qed

lemma request_trusted:
  "client_request lim peer cl request = Inr out \<Longrightarrow> trusted_response request out"
  using response_checks [of out request] by (auto simp: client_request_def rbind_Inr_iff split: sum.splits)

subsection \<open>Reading what the server wrote\<close>

lemma partition_at_unique:
  assumes "x \<notin> set f" and "partition_at x a = Some (g, r)" and "a @ b = f @ x # c"
  shows "g = f"
proof -
  have "x \<notin> set g" "a = g @ x # r" using partition_at_Some [OF assms(2)] by blast+
  then have "before_sep x (a @ b) = g" by simp
  moreover have "before_sep x (a @ b) = f" using assms(1,3) by simp
  ultimately show ?thesis by simp
qed

lemma before_newline:
  assumes "buffer @ r = frame @ x # rest" and "x \<notin> set buffer"
  shows "length buffer \<le> length frame"
proof (rule ccontr)
  assume "\<not> length buffer \<le> length frame"
  then have "buffer ! length frame = (buffer @ r) ! length frame" by (simp add: nth_append)
  also have "\<dots> = x" unfolding assms(1) by simp
  finally show False using \<open>\<not> length buffer \<le> length frame\<close> assms(2) by (auto simp: in_set_conv_nth)
qed

lemma read_frame:
  "buffer @ r_data r = frame @ newline # rest \<Longrightarrow> newline \<notin> set frame \<Longrightarrow> frame \<noteq> [] \<Longrightarrow> length frame \<le> mx \<Longrightarrow>
   read_response_frame mx buffer r = Inr frame"
proof (induction mx buffer r rule: read_response_frame.induct)
  case (1 mx buffer r)
  show ?case
  proof (cases "partition_at newline buffer")
    case (Some p)
    obtain g rest' where p: "p = (g, rest')" by force
    have "g = frame" using partition_at_unique [OF 1(3) _ 1(2)] Some p by blast
    then show ?thesis using Some p 1(4,5) by (simp add: read_response_frame.simps [of mx buffer r])
  next
    case None
    then have "newline \<notin> set buffer" by (simp add: partition_at_None)
    from before_newline [OF 1(2) this] have len: "length buffer \<le> length frame" .
    then have ne: "r_data r \<noteq> []" using 1(2) by auto
    let ?n = "max 1 (min read_chunk_size (mx + 1 - length buffer))"
    obtain res r' where r: "reader_read ?n r = (res, r')" by force
    then obtain chunk where c: "res = Chunk chunk"
      using ne reader_read_end [of ?n r r'] by (cases res) auto
    then have "r_data r = chunk @ r_data r'" using reader_read_Chunk(2) [of ?n r chunk r'] r by simp
    with 1(2) have e: "(buffer @ chunk) @ r_data r' = frame @ newline # rest" by simp
    have le: "\<not> mx < length buffer" using len 1(5) by simp
    from 1(1) [OF None le r [symmetric] c e 1(3-5)]
    show ?thesis using None le r c by (simp add: read_response_frame.simps [of mx buffer r])
  qed
qed

subsection \<open>The responses of the server\<close>

text \<open>The code of a request error is never empty.\<close>

definition coded :: "request_error option \<Rightarrow> bool" where
  "coded r \<longleftrightarrow> (\<forall>e. r = Some e \<longrightarrow> code e \<noteq> [])"

lemma coded_simps [simp]:
  "coded None" "coded (invalid m)" "coded (if b then r else r') \<longleftrightarrow> (if b then coded r else coded r')"
  "coded (Some e) \<longleftrightarrow> code e \<noteq> []"
  by (simp_all add: coded_def invalid_def lit_def)

lemma coded_first: "coded r \<Longrightarrow> coded r' \<Longrightarrow> coded (case r of None \<Rightarrow> r' | Some e \<Rightarrow> Some e)"
  by (cases r) simp_all

lemma generation_coded [simp]: "coded (validate_expected_generation v)"
  by (simp add: validate_expected_generation_def split: option.split)

lemma fields_coded [simp]: "coded (validate_params_fields ps allowed m)"
  by (simp add: validate_params_fields_def Let_def split: option.split)

lemma target_coded [simp]: "coded (validate_target_id v)"
  by (simp add: validate_target_id_def split: option.split)

lemma name_coded [simp]: "coded (validate_name v)"
  by (simp add: validate_name_def split: option.split pyval.split)

lemma params_coded [simp]: "coded (validate_params m req)"
proof -
  have "coded (case v of None \<Rightarrow> None
      | Some (PStr s) \<Rightarrow> if s = [] then invalid t else None | Some _ \<Rightarrow> invalid t)" for v t
    by (auto split: option.split pyval.split)
  then have "coded (validate_inputs_params req)"
    by (cases "map_of req (lit ''params'')")
      (auto simp: validate_inputs_params_def split: pyval.split intro!: coded_first)
  moreover have "coded (validate_outputs_params req)"
    by (cases "map_of req (lit ''params'')")
      (auto simp: validate_outputs_params_def Let_def split: pyval.split intro!: coded_first)
  moreover have "coded (validate_disable_params req)"
    by (cases "map_of req (lit ''params'')") (auto simp: validate_disable_params_def split: pyval.split)
  moreover have "coded (validate_replace_params v)" for v
    by (cases v) (auto simp: validate_replace_params_def intro!: coded_first)
  ultimately show ?thesis
    by (cases m; cases "map_of req (lit ''params'')") (simp_all add: validate_params_def)
qed

lemma schema_coded: "coded (validate_request_schema req)"
proof -
  have lits: "lit ''unsupported_version'' \<noteq> []" "lit ''unknown_method'' \<noteq> []" by (simp_all add: lit_def)
  show ?thesis
    unfolding validate_request_schema_def Let_def
    by (auto simp: lits split: option.split pyval.split list.split)
qed

definition response_shape :: "pystr option \<Rightarrow> pyval \<Rightarrow> bool" where
  "response_shape rid resp \<longleftrightarrow>
     (\<exists>i kvs. rid = Some i \<and> resp = success_response i (obj kvs)) \<or>
     (\<exists>c m details. resp = error_response rid c m details \<and> c \<noteq> [] \<and>
        distinct (map fst ([(''code'', PStr c), (''message'', PStr m)] @ details)))"

lemma success_shape: "response_shape (Some i) (success_response i (obj kvs))"
  unfolding response_shape_def by blast

lemma error_shape:
  "c \<noteq> [] \<Longrightarrow> distinct (map fst ([(''code'', PStr c), (''message'', PStr m)] @ details)) \<Longrightarrow>
   response_shape rid (error_response rid c m details)"
  unfolding response_shape_def by blast

lemma update_shape:
  assumes "update_response describe candidate rid r = Inr resp"
  shows "response_shape (Some rid) resp"
proof (cases r)
  case (Inl e)
  have "resp = stale_generation_response rid a b" if "e = StaleRoutingGenerationError a b" for a b
    using assms Inl that by (simp add: update_response_def)
  moreover have "resp = invalid_routing_config_response rid (describe e)" if "e = RoutingCandidateConfigError"
    using assms Inl that by (simp add: update_response_def split: if_splits)
  moreover have "(\<exists>a b. e = StaleRoutingGenerationError a b) \<or> e = RoutingCandidateConfigError"
    using assms Inl by (cases e) (simp_all add: update_response_def)
  ultimately show ?thesis
    by (auto simp: stale_generation_response_def invalid_routing_config_response_def lit_def intro!: error_shape)
next
  case (Inr st)
  then show ?thesis using assms by (auto simp: update_response_def status_result_def success_shape)
qed

lemma dispatch_shape:
  "dispatch describe sp rid m req c = (Inr resp, c') \<Longrightarrow> response_shape (Some rid) resp"
  by (cases m)
    (auto simp: dispatch_def rbind_Inr_iff runtime_statistics_result_def inputs_result_def outputs_result_def
      status_result_def Let_def success_shape split: option.splits prod.splits dest!: update_shape)

lemma request_shape:
  assumes "handle_request describe sp req c = (Inr resp, c')"
  shows "response_shape (valid_request_id req) resp"
proof (cases "validate_request_schema req")
  case (Some e)
  with assms have "resp = error_response (valid_request_id req) (code e) (error_message e) []"
    by (simp add: handle_request_def)
  with error_shape [of "code e" _ "[]"] schema_coded [of req] Some show ?thesis by simp
next
  case None
  then have "\<exists>i. map_of req (lit ''request_id'') = Some (PStr i) \<and> i \<noteq> []"
    by (auto simp: schema_ok well_formed_request_def)
  then obtain i where i: "map_of req (lit ''request_id'') = Some (PStr i)" "i \<noteq> []" by blast
  with assms None obtain m where "dispatch describe sp i m req c = (Inr resp, c')"
    by (auto simp: handle_request_def entry_def split: pyval.splits option.splits)
  from dispatch_shape [OF this] i show ?thesis by (simp add: valid_request_id_def)
qed

lemma shape_trusted:
  assumes "response_shape rid resp" and "trusted_request_id request = (case rid of None \<Rightarrow> PNone | Some i \<Rightarrow> PStr i)"
  shows "\<exists>d. sort_keys resp = PDict d \<and> trusted_response request d"
  using assms(1) unfolding response_shape_def
proof (elim disjE exE conjE)
  fix i kvs assume r: "rid = Some i" "resp = success_response i (obj kvs)"
  obtain k where k: "sort_keys (obj kvs) = PDict k" by (simp add: obj_def)
  from sorted_obj [of "[(''version'', PInt 1), (''request_id'', PStr i), (''ok'', PBool True), (''result'', obj kvs)]"]
  show ?thesis using r assms(2) k
    by (auto simp: success_response_def trusted_response_def envelope_fields_def)
next
  fix c m details
  assume r: "resp = error_response rid c m details" "c \<noteq> []"
    "distinct (map fst ([(''code'', PStr c), (''message'', PStr m)] @ details))"
  let ?id = "case rid of None \<Rightarrow> PNone | Some s \<Rightarrow> PStr s"
  let ?e = "obj ([(''code'', PStr c), (''message'', PStr m)] @ details)"
  from sorted_obj [OF r(3)] obtain e where e: "sort_keys ?e = PDict e"
    "got e ''code'' = PStr c" "got e ''message'' = PStr m" by auto
  from r(2) obtain x xs where "c = x # xs" by (cases c) auto
  with sorted_obj [of "[(''version'', PInt 1), (''request_id'', ?id), (''ok'', PBool False), (''error'', ?e)]"]
  show ?thesis using r(1) assms(2) e
    by (auto simp: error_response_def trusted_response_def envelope_fields_def split: option.splits)
qed

subsection \<open>Client and server\<close>

text \<open>The keys of an object that was decoded or built are strings.\<close>

lemma text_keys_map_of:
  "\<forall>k \<in> set (keys d). \<exists>s. k = PStr s \<Longrightarrow> map_of (text_keys d) t = map_of d (PStr t)"
  by (induction d) (auto simp: text_keys_def item_key_def)

lemma sorted_request_id:
  assumes "\<forall>k \<in> set (keys request). \<exists>s. k = PStr s" and "distinct (keys request)" and "sort_keys (PDict request) = PDict d"
  shows "trusted_request_id request = (case valid_request_id (text_keys d) of None \<Rightarrow> PNone | Some i \<Rightarrow> PStr i)"
proof -
  have d: "set (keys d) = set (keys request)" "\<And>k. map_of d k = map_option sort_keys (map_of request k)"
  proof -
    obtain d' where "sort_keys (PDict request) = PDict d'" "set (keys d') = set (keys request)"
      "\<forall>k. map_of d' k = map_option sort_keys (map_of request k)"
      using sorted_mapping [OF assms(2)] by blast
    moreover from this(1) have "d' = d" unfolding assms(3) by simp
    ultimately show "set (keys d) = set (keys request)" "map_of d k = map_option sort_keys (map_of request k)" for k
      by blast+
  qed
  have "\<forall>k \<in> set (keys d). \<exists>s. k = PStr s" using assms(1) d(1) by simp
  from text_keys_map_of [OF this, of "lit ''request_id''"] d(2) [of "PStr (lit ''request_id'')"]
  have m: "map_of (text_keys d) (lit ''request_id'') = map_option sort_keys (map_of request (PStr (lit ''request_id'')))" by simp
  show ?thesis
  proof (cases "map_of request (PStr (lit ''request_id''))")
    case (Some v)
    then show ?thesis using m
      by (cases v) (auto simp: trusted_request_id_def valid_request_id_def got_def split: list.split)
  qed (simp add: m trusted_request_id_def valid_request_id_def got_def)
qed

definition socket_run ::
  "nat \<Rightarrow> (py_error \<Rightarrow> pystr) \<Rightarrow> statistics_provider \<Rightarrow> nat \<Rightarrow> nat list \<Rightarrow> control_service \<Rightarrow> bytes \<Rightarrow>
   connection \<times> control_service" where
  "socket_run lim describe sp mx sizes c stream =
     serve_connection (handle_json lim describe sp) mx (accepted stream sizes Eof None) c"

text \<open>The server as the peer of a client: what it wrote arrives in pieces of any sizes.\<close>

definition socket_peer ::
  "nat \<Rightarrow> (py_error \<Rightarrow> pystr) \<Rightarrow> statistics_provider \<Rightarrow> nat \<Rightarrow> nat list \<Rightarrow> nat list \<Rightarrow> control_service \<Rightarrow> bytes \<Rightarrow>
   reader res" where
  "socket_peer lim describe sp mx sizes sizes' c stream =
     Inr \<lparr>r_data = concat (w_sent (c_writer (fst (socket_run lim describe sp mx sizes c stream)))),
          r_sizes = sizes', r_end = Eof\<rparr>"

lemma one_line_answered:
  assumes "newline \<notin> set b" and "length b \<le> mx" and "handle (PBytes b) s = (Inr rb, s')"
  shows "answer_lines handle mx Eof (b @ [newline]) \<lparr>w_sent = [], w_accepts = None\<rparr> s =
    (\<lparr>w_sent = [rb @ [newline]], w_accepts = None\<rparr>, s')"
proof -
  have "partition_at newline (b @ [newline]) = Some (b, [])"
    using assms(1) by (simp add: partition_at_def before_sep_def dropWhile_append)
  moreover have "partition_at newline [] = None" by (simp add: partition_at_def)
  ultimately show ?thesis using assms(2,3)
    by (subst answer_lines.simps) (simp add: process_frame_def write_response_def answer_lines.simps [of _ _ _ "[]"])
qed

lemma socket_run_line:
  assumes "newline \<notin> set b" and "length b \<le> mx" and "handle_json lim describe sp (PBytes b) c = (Inr rb, c')"
  shows "w_sent (c_writer (fst (socket_run lim describe sp mx sizes c (b @ [newline])))) = [rb @ [newline]]"
    and "snd (socket_run lim describe sp mx sizes c (b @ [newline])) = c'"
proof -
  obtain k s' where k: "socket_run lim describe sp mx sizes c (b @ [newline]) = (k, s')" by force
  then have "serve_connection (handle_json lim describe sp) mx (accepted (b @ [newline]) sizes Eof None) c = (k, s')"
    by (simp add: socket_run_def)
  from serve_connection_answers [OF _ this] one_line_answered [where handle = "handle_json lim describe sp", OF assms]
  have "(c_writer k, s') = (\<lparr>w_sent = [rb @ [newline]], w_accepts = None\<rparr>, c')" by (simp add: accepted_def)
  with k show "w_sent (c_writer (fst (socket_run lim describe sp mx sizes c (b @ [newline])))) = [rb @ [newline]]"
    "snd (socket_run lim describe sp mx sizes c (b @ [newline])) = c'" by simp_all
qed

lemma decoded_request:
  assumes "client_decodes lim b (PDict d)"
  shows "decode_json_request lim (PBytes b) = Inr (Request (text_keys d))" and "decode_response lim b = Inr d"
  using assms by (auto simp: client_decodes_def decode_json_request_def decode_response_def)

lemma json_loads_nothing: "json_loads lim [] \<noteq> Inr v"
  by (simp add: json_loads_def)

lemma digits_value_nonneg: "0 \<le> digits_value ds"
proof -
  have "0 \<le> a \<Longrightarrow> 0 \<le> foldl (\<lambda>a c. 10 * a + int (the (decimal_value c))) a ds" for a
    by (induction ds arbitrary: a) auto
  then show ?thesis by (simp add: digits_value_def)
qed

lemma decimal_int: "is_decimal s \<Longrightarrow> py_int s = Some i \<Longrightarrow> 0 \<le> i"
proof -
  assume s: "is_decimal s" and i: "py_int s = Some i"
  then obtain c t where c: "dropWhile int_space s = c # t" by (auto simp: py_int_def split: list.splits)
  then have "c \<in> set s" by (metis list.set_intros(1) set_dropWhileD)
  then have "decimal_value c \<noteq> None" using s by (auto simp: is_decimal_def list_all_iff)
  then have "\<not> c < 48" using decimal_value_low [of c] by auto
  then have "parse_digits (c # t) = Some i" using i c by (simp add: py_int_def)
  then show ?thesis using digits_value_nonneg by (auto simp: parse_digits_def Let_def split: if_splits)
qed

lemma nonempty_text_iff: "nonempty_text v = Inr s \<longleftrightarrow> v = PStr s \<and> s \<noteq> []"
  by (auto simp: nonempty_text_def split: pyval.splits list.splits)

lemma request_parts:
  "text_keys (base_request i m) = [(lit ''version'', PInt 1), (lit ''request_id'', PStr i), (lit ''method'', PStr (method_name m))]"
  "text_keys (with_params ps (base_request i m)) = text_keys (base_request i m) @ [(lit ''params'', obj ps)]"
  by (simp_all add: text_keys_def base_request_def with_params_def item_key_def)

lemma base_well_formed:
  "i \<noteq> [] \<Longrightarrow> params_ok m None \<Longrightarrow> well_formed_request (text_keys (base_request i m))"
  "i \<noteq> [] \<Longrightarrow> params_ok m (Some (obj ps)) \<Longrightarrow> well_formed_request (text_keys (with_params ps (base_request i m)))"
  unfolding request_parts by (auto simp: well_formed_request_def)

lemma checked_generation_iff: "checked_generation v = Inr g \<longleftrightarrow> v = PInt g \<and> 0 \<le> g"
  by (cases v) auto

lemma generation_params_ok:
  "generation_params v = Inr ps \<Longrightarrow> ps = [] \<or> (\<exists>g. ps = [(''expected_generation'', PInt g)] \<and> 0 \<le> g)"
  by (auto simp: generation_params_def rbind_Inr_iff checked_generation_iff split: if_splits)

definition built :: "pyval \<Rightarrow> (pyval \<times> pyval) list \<Rightarrow> bool" where
  "built rid request \<longleftrightarrow> (\<exists>i m. rid = PStr i \<and> i \<noteq> [] \<and>
    (request = base_request i m \<and> params_ok m None \<or>
     (\<exists>ps. request = with_params ps (base_request i m) \<and> params_ok m (Some (obj ps)))))"

lemma built_base: "i \<noteq> [] \<Longrightarrow> params_ok m None \<Longrightarrow> built (PStr i) (base_request i m)"
  unfolding built_def by blast

lemma built_params: "i \<noteq> [] \<Longrightarrow> params_ok m (Some (obj ps)) \<Longrightarrow> built (PStr i) (with_params ps (base_request i m))"
  unfolding built_def by blast

lemmas params_simps = obj_def only_keys_def param_def string_param_def generation_param_def

lemma built_request:
  assumes "build_request_from_args cmd rid = Inr request"
  shows "built rid request"
proof (cases cmd)
  case StatusCommand
  then show ?thesis using assms
    by (auto simp: build_status_request_def rbind_Inr_iff nonempty_text_iff intro!: built_base)
next
  case StatisticsCommand
  then show ?thesis using assms
    by (auto simp: build_runtime_statistics_request_def rbind_Inr_iff nonempty_text_iff intro!: built_base)
next
  case (InputsCommand f)
  then show ?thesis using assms
    by (auto simp: build_runtime_statistics_inputs_request_def rbind_Inr_iff nonempty_text_iff params_simps
        split: if_splits intro!: built_base built_params)
next
  case (OutputsCommand f)
  then show ?thesis using assms decimal_int
    by (auto simp: build_runtime_statistics_outputs_request_def rbind_Inr_iff nonempty_text_iff params_simps
        split: if_splits option.splits intro!: built_base built_params)
next
  case (DisableCommand g)
  then obtain i ps where i: "rid = PStr i" "i \<noteq> []" and ps: "generation_params g = Inr ps"
    and r: "request = (if ps = [] then base_request i Disable else with_params ps (base_request i Disable))"
    using assms by (auto simp: build_disable_request_def rbind_Inr_iff nonempty_text_iff)
  from generation_params_ok [OF ps] show ?thesis using i r
    by (auto simp: params_simps intro!: built_base built_params)
next
  case (ReplaceCommand loaded g)
  then obtain v where "build_replace_request rid v g = Inr request" using assms by (auto simp: rbind_Inr_iff)
  then obtain i routing ps where i: "rid = PStr i" "i \<noteq> []" and ps: "generation_params g = Inr ps"
    and r: "request = with_params ((''routing'', routing) # ps) (base_request i Replace)"
    by (cases v) (auto simp: build_replace_request_def rbind_Inr_iff nonempty_text_iff)
  from generation_params_ok [OF ps] show ?thesis using i r
    by (auto simp: params_simps intro!: built_params)
qed

subsection \<open>An example\<close>

definition example_service :: control_service where
  "example_service = \<lparr>routing_state = \<lparr>generation = 0, table = None\<rparr>, target_id_by_name = []\<rparr>"

definition example_request :: "(pyval \<times> pyval) list" where
  "example_request = base_request (lit ''id'') Status"

lemma lit_Cons: "lit (c # cs) = of_char c # lit cs"
  by (simp add: lit_def)

lemma lit_text: "wf_text (lit s)" "clean (lit s)"
proof -
  have "(of_char c :: nat) < 256" for c :: char by simp
  then have "c \<in> set (lit s) \<Longrightarrow> c < 256" for c by (auto simp: lit_def)
  then show "wf_text (lit s)" "clean (lit s)"
    by (force simp: wf_text_def clean_def is_surrogate_def list_all_iff)+
qed

lemma example_request_sorted:
  "sort_keys (PDict example_request) = PDict [(PStr (lit ''method''), PStr (method_name Status)),
     (PStr (lit ''request_id''), PStr (lit ''id'')), (PStr (lit ''version''), PInt 1)]"
proof -
  have "lit ''method'' < lit ''request_id''" "lit ''request_id'' < lit ''version''" "lit ''method'' < lit ''version''"
    by (simp_all add: lit_Cons)
  then have l: "\<not> lit ''version'' \<le> lit ''request_id''" "\<not> lit ''version'' \<le> lit ''method''" "\<not> lit ''request_id'' \<le> lit ''method''"
    by (simp_all add: not_le)
  show ?thesis
    unfolding example_request_def base_request_def
    by (simp add: item_key_def l del: method_name.simps)
qed

lemma example_handled:
  "handle_request describe sp (text_keys [(PStr (lit ''method''), PStr (method_name Status)),
     (PStr (lit ''request_id''), PStr (lit ''id'')), (PStr (lit ''version''), PInt 1)]) example_service =
   (Inr (success_response (lit ''id'') (status_result (service_status example_service))), example_service)"
proof -
  let ?req = "text_keys [(PStr (lit ''method''), PStr (method_name Status)),
     (PStr (lit ''request_id''), PStr (lit ''id'')), (PStr (lit ''version''), PInt 1)]"
  have r: "?req = [(lit ''method'', PStr (method_name Status)), (lit ''request_id'', PStr (lit ''id'')), (lit ''version'', PInt 1)]"
    by (simp add: text_keys_def item_key_def del: method_name.simps)
  have "params_ok Status None" by simp
  then have "validate_request_schema ?req = None"
    unfolding schema_ok r by (auto simp: well_formed_request_def lit_Cons simp del: method_name.simps)
  moreover have "method_of (method_name Status) = Some Status" by (simp add: method_of_iff)
  ultimately show ?thesis unfolding r by (simp add: handle_request_def entry_def dispatch_def del: method_name.simps)
qed

lemma example_values_ok:
  "json_ok 900 (PDict example_request)" 
  "json_ok 900 (success_response (lit ''id'') (status_result (service_status example_service)))"
proof -
  have n: "length (nat_str 1) \<le> max_str_digits" "length (nat_str 0) \<le> max_str_digits" by (simp_all add: nat_str.simps max_str_digits_def)
  show "json_ok 900 (PDict example_request)" using n
    by (auto simp: example_request_def base_request_def lit_text)
  show "json_ok 900 (success_response (lit ''id'') (status_result (service_status example_service)))" using n
    by (auto simp: success_response_def status_result_def service_status_def status_from_snapshot_def example_service_def obj_def lit_text)
qed

subsection \<open>Properties\<close>

text \<open>
  C34. The client trusts no peer. If connecting and writing fail with operating system errors
  only, a request ends with a response object of version 1, with exactly the documented fields
  and the id of the request, or with one of the client's own errors, or with the ValueError or
  RecursionError of the JSON reader on numbers of too many digits or too deep nesting.
\<close>

theorem client_trusts_no_peer:
  assumes "\<And>b e. peer b = Inl e \<Longrightarrow> is_os_error e" and "json_ok n (PDict request)"
  shows "case client_request lim peer cl request of
      Inr out \<Rightarrow> trusted_response request out
    | Inl e \<Rightarrow> e \<in> exchange_errors"
proof -
  obtain payload where payload: "encode_json_request (PDict request) = Inr payload"
    using encode_response [OF assms(2)] by (auto simp: encode_json_request_def encode_json_response_def)
  let ?r = "rbind (peer (payload @ [newline])) (\<lambda>r.
                rbind (read_response_frame (cl_max cl) [] r) (\<lambda>frame.
                rbind (decode_response lim frame) (\<lambda>response.
                rbind (validate_response_envelope response) (\<lambda>_.
                rbind (validate_response_correlation request response) (\<lambda>_. Inr response)))))"
  show ?thesis
  proof (cases ?r)
    case (Inl e)
    have "is_os_error e \<or> e \<in> exchange_errors"
    proof (cases "peer (payload @ [newline])")
      case (Inr r)
      then show ?thesis using Inl response_error [of "cl_max cl" r lim request e] by simp
    qed (use Inl assms(1) in simp)
    then show ?thesis using payload Inl by (auto simp: client_request_def exchange_errors_def)
  next
    case (Inr out)
    then have "client_request lim peer cl request = Inr out" using payload by (simp add: client_request_def)
    then show ?thesis using request_trusted by simp
  qed
qed

lemma client_trusts_no_peer_witness:
  "case client_request 900 (\<lambda>b. Inr \<lparr>r_data = ''junk'', r_sizes = [1], r_end = Reset\<rparr>) \<lparr>cl_path = lit ''s'', cl_max = 9\<rparr> [] of
     Inr out \<Rightarrow> trusted_response [] out | Inl e \<Rightarrow> e \<in> exchange_errors"
  by (rule client_trusts_no_peer [of _ 1]) simp_all

text \<open>
  Every request of the command line is a valid request of the protocol, whatever the
  arguments were: what is not is refused before a connection is made.
\<close>

theorem command_requests_valid:
  assumes "build_request_from_args cmd rid = Inr request"
  shows "validate_request_schema (text_keys request) = None \<and> trusted_request_id request = rid"
proof -
  have id: "trusted_request_id (base_request i m) = PStr i" "trusted_request_id (with_params ps (base_request i m)) = PStr i"
    if "i \<noteq> []" for i m ps
    using that by (auto simp: trusted_request_id_def got_def base_request_def with_params_def split: list.split)
  from built_request [OF assms] obtain i m where i: "rid = PStr i" "i \<noteq> []" and
    "request = base_request i m \<and> params_ok m None \<or>
     (\<exists>ps. request = with_params ps (base_request i m) \<and> params_ok m (Some (obj ps)))"
    unfolding built_def by metis
  then show ?thesis unfolding schema_ok by (elim disjE exE conjE) (simp_all add: base_well_formed id)
qed

lemma command_requests_valid_witness:
  "\<exists>request. build_request_from_args (OutputsCommand (PStr (lit ''ab''))) (PStr (lit ''id'')) = Inr request \<and>
     validate_request_schema (text_keys request) = None \<and> trusted_request_id request = PStr (lit ''id'')"
proof -
  have "\<exists>request. build_request_from_args (OutputsCommand (PStr (lit ''ab''))) (PStr (lit ''id'')) = Inr request"
    by (simp add: build_runtime_statistics_outputs_request_def nonempty_text_def lit_def is_decimal_def
        decimal_value_mid)
  then show ?thesis using command_requests_valid by blast
qed

text \<open>
  C33. Client and server together do what the service does. A request of printable values whose
  line fits the server's limit, and whose answer fits the client's, returns to the client as
  the response object of \<open>handle_request\<close> for that very request, and the service is left as
  \<open>handle_request\<close> leaves it; in whatever pieces the bytes arrive on either side.
\<close>

theorem client_served:
  assumes "json_ok lim (PDict request)" and "sort_keys (PDict request) = PDict d"
    and "handle_request describe sp (text_keys d) c = (Inr resp, c')" and "json_ok lim resp"
    and "encode_json_request (PDict request) = Inr payload" and "length payload \<le> mx"
    and "encode_json_response resp = Inr answer" and "length answer \<le> cl_max cl"
  shows "\<exists>out. client_request lim (socket_peer lim describe sp mx sizes sizes' c) cl request = Inr out \<and>
    sort_keys resp = PDict out \<and> snd (socket_run lim describe sp mx sizes c (payload @ [newline])) = c'"
proof -
  have keys: "\<forall>k \<in> set (keys request). \<exists>s. k = PStr s" "distinct (keys request)" using assms(1) by auto
  have p: "newline \<notin> set payload" "client_decodes lim payload (PDict d)"
    using encode_response [OF assms(1)] assms(2,5)
    by (auto simp: encode_json_request_def encode_json_response_def newline_def)
  have a: "newline \<notin> set answer" "client_decodes lim answer (sort_keys resp)"
    using encode_response [OF assms(4)] assms(7) by (auto simp: newline_def)
  from shape_trusted [OF request_shape [OF assms(3)] sorted_request_id [OF keys assms(2)]]
  obtain out where out: "sort_keys resp = PDict out" "trusted_response request out" by blast
  have "handle_json lim describe sp (PBytes payload) c = (Inr answer, c')"
    using decoded_request(1) [OF p(2)] assms(3,7) by (simp add: handle_json_def)
  note run = socket_run_line [OF p(1) assms(6) this, of sizes]
  have "answer \<noteq> []"
    using a(2) json_loads_nothing by (auto simp: client_decodes_def utf8_decode_def)
  from read_frame [of "[]" "\<lparr>r_data = answer @ [newline], r_sizes = sizes', r_end = Eof\<rparr>" answer "[]" "cl_max cl"]
    a(1) this assms(8)
  have "read_response_frame (cl_max cl) [] \<lparr>r_data = answer @ [newline], r_sizes = sizes', r_end = Eof\<rparr> = Inr answer"
    by simp
  moreover have "decode_response lim answer = Inr out" using a(2) out(1) decoded_request(2) by simp
  ultimately have "client_request lim (socket_peer lim describe sp mx sizes sizes' c) cl request = Inr out"
    using out(2) run(1) assms(5) response_checks [of out request]
    by (simp add: client_request_def socket_peer_def)
  with out(1) run(2) show ?thesis by blast
qed

lemma client_served_witness:
  "\<forall>describe sp. \<exists>mx big out. build_request_from_args StatusCommand (PStr (lit ''id'')) = Inr example_request \<and>
     client_request 900 (socket_peer 900 describe sp mx [1, 2] [3] example_service)
        \<lparr>cl_path = lit ''s'', cl_max = big\<rparr> example_request = Inr out \<and> got out ''ok'' = PBool True"
proof (intro allI)
  fix describe sp
  let ?resp = "success_response (lit ''id'') (status_result (service_status example_service))"
  obtain payload where p: "encode_json_request (PDict example_request) = Inr payload"
    using encode_response [OF example_values_ok(1)] by (auto simp: encode_json_request_def encode_json_response_def)
  obtain answer where a: "encode_json_response ?resp = Inr answer"
    using encode_response [OF example_values_ok(2)] by auto
  obtain out where o: "client_request 900 (socket_peer 900 describe sp (length payload) [1, 2] [3] example_service)
      \<lparr>cl_path = lit ''s'', cl_max = length answer\<rparr> example_request = Inr out" "sort_keys ?resp = PDict out"
    using client_served [OF example_values_ok(1) example_request_sorted example_handled example_values_ok(2) p order_refl a,
        of "\<lparr>cl_path = lit ''s'', cl_max = length answer\<rparr>" describe sp "[1, 2]" "[3]"] by auto
  from sorted_obj [of "[(''version'', PInt 1), (''request_id'', PStr (lit ''id'')), (''ok'', PBool True),
      (''result'', status_result (service_status example_service))]"] o(2)
  have "got out ''ok'' = PBool True" by (auto simp: success_response_def)
  moreover have "build_request_from_args StatusCommand (PStr (lit ''id'')) = Inr example_request"
    by (simp add: build_status_request_def nonempty_text_def example_request_def lit_Cons)
  ultimately show "\<exists>mx big out. build_request_from_args StatusCommand (PStr (lit ''id'')) = Inr example_request \<and>
     client_request 900 (socket_peer 900 describe sp mx [1, 2] [3] example_service)
        \<lparr>cl_path = lit ''s'', cl_max = big\<rparr> example_request = Inr out \<and> got out ''ok'' = PBool True"
    using o(1) by blast
qed

text \<open>
  The exit code tells what happened. Text on the output (exit code 0) means that a trusted
  success response to the request of the command was received, a response on the error stream
  (exit code 3) a trusted failure response; every other ending has one of the documented codes,
  and only what is not an Exception, such as the cancellation of the task, escapes.
\<close>

theorem command_exit:
  "case dispatch_command lim peer path explicit generated interactive cmd of
     Printed t \<Rightarrow> \<exists>rid request cl out. build_request_from_args cmd (PStr rid) = Inr request \<and>
       client_request lim peer cl request = Inr out \<and> trusted_response request out \<and> got out ''ok'' = PBool True
   | Reported t \<Rightarrow> \<exists>rid request cl out. build_request_from_args cmd (PStr rid) = Inr request \<and>
       client_request lim peer cl request = Inr out \<and> trusted_response request out \<and> got out ''ok'' = PBool False
   | Failed n \<Rightarrow> n \<in> {2, 4, 5, 6, 130}
   | EscapedCommand e \<Rightarrow> \<not> is_exception e"
proof (cases "rbind (build_request_id explicit generated) (\<lambda>rid.
           rbind (build_request_from_args cmd (PStr rid)) (\<lambda>request.
           rbind (client_init path (PInt 1048576)) (\<lambda>cl.
           rbind (client_request lim peer cl request) (\<lambda>response.
             if got response ''ok'' = PBool True then
               rbind (format_result interactive cmd response) (\<lambda>t. Inr (True, t))
             else rbind (format_response response) (\<lambda>t. Inr (False, t))))))")
  case (Inl e)
  then show ?thesis by (simp add: dispatch_command_def failure_of_def)
next
  case (Inr p)
  then obtain rid request cl out where r: "build_request_from_args cmd (PStr rid) = Inr request"
    "client_request lim peer cl request = Inr out" "fst p \<longleftrightarrow> got out ''ok'' = PBool True"
    by (auto simp: rbind_Inr_iff split: if_splits)
  from request_trusted [OF r(2)] have "trusted_response request out" "\<exists>ok. got out ''ok'' = PBool ok"
    by (auto simp: trusted_response_def)
  then have o: "trusted_response request out" "got out ''ok'' = PBool (fst p)" using r(3) by auto
  obtain b t where p: "p = (b, t)" by force
  show ?thesis
    using r(1,2) o unfolding dispatch_command_def Inr p by (cases b) (simp_all, blast+)
qed

end
