(* ===== verification/ControlListener.thy ===== *)
theory ControlListener
  imports Prelude
begin

section \<open>The listening control socket (\<open>core/routing_control_unix.py\<close>)\<close>

text \<open>
  The life of the socket file: constructor checks, \<open>start\<close>, \<open>close\<close> and what they do at the path.
  The file system is a map from paths to inodes; which system calls fail comes from an
  environment, one answer per \<open>lstat\<close> of a call. Between two calls other processes may do
  anything to the file system; within a call they do not interfere. The listening server of
  asyncio puts a socket at the path and, depending on the Python version, removes its own
  socket when it is closed. What is shown: no file but a socket is ever removed, a start either
  runs with its own socket at the path or leaves nothing of its own behind, and a close removes
  the very socket the start created or nothing.
\<close>

datatype file_kind = SocketFile | SymbolicLink | DirectoryFile | RegularFile | FifoFile | DeviceFile | OtherFile

record inode =
  i_kind :: file_kind
  i_identity :: "int \<times> int"
  i_mode :: int

type_synonym file_system = "pystr \<rightharpoonup> inode"

record path_env =
  pe_unix_supported :: bool
  pe_parent_isdir :: bool
  pe_lstat_error :: "nat \<Rightarrow> py_error option"
  pe_unlink_error :: "nat \<Rightarrow> py_error option"
  pe_listen :: "file_system \<Rightarrow> inode res"
  pe_chmod_error :: "py_error option"
  pe_cleanup :: bool

definition lstat :: "path_env \<Rightarrow> nat \<Rightarrow> pystr \<Rightarrow> file_system \<Rightarrow> inode res" where
  "lstat env n path fs =
     (case pe_lstat_error env n of
        Some e \<Rightarrow> Inl e
      | None \<Rightarrow> (case fs path of None \<Rightarrow> Inl FileNotFoundError | Some i \<Rightarrow> Inr i))"

text \<open>The server: its settings, whether it runs, the identity of its socket, and the inodes it removed.\<close>

record unix_server =
  us_path :: pystr
  us_max_request :: int
  us_mode :: int
  us_running :: bool
  us_identity :: "(int \<times> int) option"
  us_removed :: "inode list"

text \<open>A path object other than a string (\<open>os.fspath\<close> of it) is refused like any other value.\<close>

definition unix_server_init :: "pyval \<Rightarrow> pyval \<Rightarrow> pyval \<Rightarrow> unix_server res" where
  "unix_server_init path max_request mode =
     (case path of
        PStr p \<Rightarrow>
          if p = [] then Inl ValueError
          else (case as_int max_request of
                  None \<Rightarrow> Inl TypeError
                | Some n \<Rightarrow>
                    if n \<le> 0 then Inl ValueError
                    else (case as_int mode of
                            None \<Rightarrow> Inl TypeError
                          | Some m \<Rightarrow>
                              if m < 0 \<or> m > 511 then Inl ValueError
                              else Inr \<lparr>us_path = p, us_max_request = n, us_mode = m, us_running = False,
                                        us_identity = None, us_removed = []\<rparr>))
      | _ \<Rightarrow> Inl TypeError)"

text \<open>\<open>os.unlink\<close>, which records what it removed.\<close>

definition unlink :: "path_env \<Rightarrow> nat \<Rightarrow> unix_server \<Rightarrow> file_system \<Rightarrow> unit res \<times> unix_server \<times> file_system" where
  "unlink env n s fs =
     (case pe_unlink_error env n of
        Some e \<Rightarrow> (Inl e, s, fs)
      | None \<Rightarrow>
          (case fs (us_path s) of
             None \<Rightarrow> (Inl FileNotFoundError, s, fs)
           | Some i \<Rightarrow> (Inr (), s\<lparr>us_removed := us_removed s @ [i]\<rparr>, fs(us_path s := None))))"

definition prepare_socket_path :: "path_env \<Rightarrow> unix_server \<Rightarrow> file_system \<Rightarrow> unit res \<times> unix_server \<times> file_system" where
  "prepare_socket_path env s fs =
     (if \<not> pe_parent_isdir env then (Inl ControlSocketPathError, s, fs)
      else (case lstat env 0 (us_path s) fs of
              Inl e \<Rightarrow>
                (if e = FileNotFoundError then Inr ()
                 else Inl (if is_os_error e then ControlSocketPathError else e), s, fs)
            | Inr i \<Rightarrow>
                if i_kind i = SocketFile then
                  (case unlink env 0 s fs of
                     (Inl e, s1, fs1) \<Rightarrow> (Inl (if is_os_error e then ControlSocketPathError else e), s1, fs1)
                   | r \<Rightarrow> r)
                else (Inl ControlSocketPathError, s, fs)))"

definition socket_identity :: "path_env \<Rightarrow> nat \<Rightarrow> pystr \<Rightarrow> file_system \<Rightarrow> (int \<times> int) option res" where
  "socket_identity env n path fs =
     (case lstat env n path fs of
        Inl e \<Rightarrow> if e = FileNotFoundError then Inr None else Inl e
      | Inr i \<Rightarrow> Inr (if i_kind i = SocketFile then Some (i_identity i) else None))"

definition remove_matching_socket ::
  "path_env \<Rightarrow> nat \<Rightarrow> (int \<times> int) \<Rightarrow> unix_server \<Rightarrow> file_system \<Rightarrow> unit res \<times> unix_server \<times> file_system" where
  "remove_matching_socket env n identity s fs =
     (case lstat env n (us_path s) fs of
        Inl e \<Rightarrow> (if e = FileNotFoundError then Inr () else Inl e, s, fs)
      | Inr i \<Rightarrow>
          if i_kind i \<noteq> SocketFile \<or> i_identity i \<noteq> identity then (Inr (), s, fs)
          else (case unlink env 1 s fs of
                  (Inl e, s1, fs1) \<Rightarrow> (if is_os_error e then Inr () else Inl e, s1, fs1)
                | r \<Rightarrow> r))"

text \<open>\<open>server.close()\<close> of asyncio: newer versions remove the socket that was created.\<close>

definition server_close :: "path_env \<Rightarrow> (int \<times> int) \<Rightarrow> unix_server \<Rightarrow> file_system \<Rightarrow> unix_server \<times> file_system" where
  "server_close env identity s fs =
     (case fs (us_path s) of
        Some i \<Rightarrow>
          if pe_cleanup env \<and> i_kind i = SocketFile \<and> i_identity i = identity
          then (s\<lparr>us_removed := us_removed s @ [i]\<rparr>, fs(us_path s := None)) else (s, fs)
      | None \<Rightarrow> (s, fs))"

text \<open>The handler of \<open>start\<close>: close the server, remove its socket, raise again.\<close>

definition abandon_start ::
  "path_env \<Rightarrow> py_error \<Rightarrow> inode \<Rightarrow> (int \<times> int) option \<Rightarrow> unix_server \<Rightarrow> file_system \<Rightarrow> unit res \<times> unix_server \<times> file_system" where
  "abandon_start env e created identity s fs =
     (case server_close env (i_identity created) s fs of
        (s1, fs1) \<Rightarrow>
          (case identity of
             None \<Rightarrow> (Inl e, s1, fs1)
           | Some k \<Rightarrow>
               (case remove_matching_socket env 2 k s1 fs1 of
                  (Inl e', s2, fs2) \<Rightarrow> (Inl e', s2, fs2)
                | (Inr _, s2, fs2) \<Rightarrow> (Inl e, s2, fs2))))"

definition server_start :: "path_env \<Rightarrow> unix_server \<Rightarrow> file_system \<Rightarrow> unit res \<times> unix_server \<times> file_system" where
  "server_start env s fs =
     (if us_running s \<or> \<not> pe_unix_supported env then (Inl RuntimeError, s, fs)
      else (case prepare_socket_path env s fs of
              (Inl e, s1, fs1) \<Rightarrow> (Inl e, s1, fs1)
            | (Inr _, s1, fs1) \<Rightarrow>
                (case pe_listen env fs1 of
                   Inl e \<Rightarrow> (Inl e, s1, fs1)
                 | Inr created \<Rightarrow>
                     let fs2 = fs1(us_path s \<mapsto> created)
                     in (case socket_identity env 1 (us_path s) fs2 of
                           Inl e \<Rightarrow> abandon_start env e created None s1 fs2
                         | Inr None \<Rightarrow> abandon_start env ControlSocketPathError created None s1 fs2
                         | Inr (Some k) \<Rightarrow>
                             (case pe_chmod_error env of
                                Some e \<Rightarrow> abandon_start env e created (Some k) s1 fs2
                              | None \<Rightarrow>
                                  (Inr (), s1\<lparr>us_running := True, us_identity := Some k\<rparr>,
                                   fs2(us_path s \<mapsto> created\<lparr>i_mode := us_mode s\<rparr>)))))))"

definition server_stop :: "path_env \<Rightarrow> unix_server \<Rightarrow> file_system \<Rightarrow> unit res \<times> unix_server \<times> file_system" where
  "server_stop env s fs =
     (let s1 = s\<lparr>us_running := False, us_identity := None\<rparr>
      in case us_identity s of
           None \<Rightarrow> (Inr (), s1, fs)
         | Some k \<Rightarrow>
             (case (if us_running s then server_close env k s1 fs else (s1, fs)) of
                (s2, fs2) \<Rightarrow> remove_matching_socket env 2 k s2 fs2))"

text \<open>\<open>serve_forever\<close> is refused unless the listener was started.\<close>

definition serve_forever_check :: "unix_server \<Rightarrow> unit res" where
  "serve_forever_check s = (if us_running s then Inr () else Inl RuntimeError)"

subsection \<open>Runs\<close>

text \<open>
  What the operating system promises: the new file of a listener is a socket, and a file is
  reported missing only when there is none.
\<close>

definition path_laws :: "path_env \<Rightarrow> bool" where
  "path_laws env \<longleftrightarrow>
     (\<forall>fs i. pe_listen env fs = Inr i \<longrightarrow> i_kind i = SocketFile) \<and> (\<forall>n. pe_lstat_error env n \<noteq> Some FileNotFoundError)"

text \<open>The calls of the owner, with anything done to the file system in between.\<close>

inductive life_step :: "unix_server \<times> file_system \<Rightarrow> unix_server \<times> file_system \<Rightarrow> bool" where
  start: "path_laws env \<Longrightarrow> server_start env s fs = (r, s', fs') \<Longrightarrow> life_step (s, fs) (s', fs')"
| stop: "server_stop env s fs = (r, s', fs') \<Longrightarrow> life_step (s, fs) (s', fs')"
| others: "life_step (s, fs) (s, fs')"

inductive life_reach :: "unix_server \<times> file_system \<Rightarrow> bool" where
  created: "unix_server_init path max_request mode = Inr s \<Longrightarrow> life_reach (s, fs)"
| step: "life_reach x \<Longrightarrow> life_step x y \<Longrightarrow> life_reach y"

subsection \<open>Effects\<close>

text \<open>Removed inodes are sockets, and they came from the path.\<close>

definition only_sockets :: "unix_server \<Rightarrow> bool" where
  "only_sockets s \<longleftrightarrow> list_all (\<lambda>i. i_kind i = SocketFile) (us_removed s)"

definition same_server :: "unix_server \<Rightarrow> unix_server \<Rightarrow> bool" where
  "same_server s s' \<longleftrightarrow> us_path s' = us_path s \<and> us_mode s' = us_mode s \<and> us_running s' = us_running s \<and>
     us_identity s' = us_identity s"

lemma same_server_refl [simp]: "same_server s s"
  by (simp add: same_server_def)

lemma lstat_Inr [simp]: "lstat env n path fs = Inr i \<longleftrightarrow> pe_lstat_error env n = None \<and> fs path = Some i"
  by (auto simp: lstat_def split: option.splits)

lemma unlink_effect:
  assumes "unlink env n s fs = (r, s', fs')"
  shows "same_server s s' \<and>
    (case r of Inl e \<Rightarrow> s' = s \<and> fs' = fs
     | Inr _ \<Rightarrow> \<exists>i. fs (us_path s) = Some i \<and> us_removed s' = us_removed s @ [i] \<and> fs' = fs(us_path s := None))"
  using assms by (auto simp: unlink_def same_server_def split: option.splits)

lemma prepare_effect:
  assumes "prepare_socket_path env s fs = (r, s', fs')"
  shows "same_server s s' \<and>
    (s' = s \<and> fs' = fs \<or>
     (\<exists>i. fs (us_path s) = Some i \<and> i_kind i = SocketFile \<and> us_removed s' = us_removed s @ [i] \<and> fs' = fs(us_path s := None)))"
    and "r = Inr () \<Longrightarrow> pe_lstat_error env 0 = None \<Longrightarrow> fs' (us_path s) = None"
    and "pe_lstat_error env 0 = None \<Longrightarrow> fs (us_path s) = Some i \<Longrightarrow> i_kind i \<noteq> SocketFile \<Longrightarrow>
      r = Inl ControlSocketPathError \<and> s' = s \<and> fs' = fs"
proof -
  obtain r1 s1 fs1 where u: "unlink env 0 s fs = (r1, s1, fs1)" by (rule prod_cases3)
  from unlink_effect [OF u] assms u
  show "same_server s s' \<and>
    (s' = s \<and> fs' = fs \<or>
     (\<exists>i. fs (us_path s) = Some i \<and> i_kind i = SocketFile \<and> us_removed s' = us_removed s @ [i] \<and> fs' = fs(us_path s := None)))"
    by (cases r1) (auto simp: prepare_socket_path_def split: if_splits sum.splits)
  from unlink_effect [OF u] assms u
  show "r = Inr () \<Longrightarrow> pe_lstat_error env 0 = None \<Longrightarrow> fs' (us_path s) = None"
    by (cases r1) (auto simp: prepare_socket_path_def lstat_def split: if_splits sum.splits option.splits)
  show "pe_lstat_error env 0 = None \<Longrightarrow> fs (us_path s) = Some i \<Longrightarrow> i_kind i \<noteq> SocketFile \<Longrightarrow>
      r = Inl ControlSocketPathError \<and> s' = s \<and> fs' = fs"
    using assms by (auto simp: prepare_socket_path_def lstat_def split: if_splits)
qed

text \<open>At most the socket of one identity is gone from the path.\<close>

definition removes :: "(int \<times> int) \<Rightarrow> unix_server \<Rightarrow> file_system \<Rightarrow> unix_server \<Rightarrow> file_system \<Rightarrow> bool" where
  "removes k s fs s' fs' \<longleftrightarrow> same_server s s' \<and>
     (us_removed s' = us_removed s \<and> fs' = fs \<or>
      (\<exists>i. fs (us_path s) = Some i \<and> i_kind i = SocketFile \<and> i_identity i = k \<and>
         us_removed s' = us_removed s @ [i] \<and> fs' = fs(us_path s := None)))"

lemma remove_effect:
  assumes "remove_matching_socket env n k s fs = (r, s', fs')"
  shows "removes k s fs s' fs'"
proof -
  obtain r1 s1 fs1 where u: "unlink env 1 s fs = (r1, s1, fs1)" by (rule prod_cases3)
  from unlink_effect [OF u] assms u show ?thesis
    by (cases r1) (auto simp: remove_matching_socket_def removes_def split: if_splits sum.splits)
qed

lemma close_effect: "server_close env k s fs = (s', fs') \<Longrightarrow> removes k s fs s' fs'"
  by (auto simp: server_close_def removes_def same_server_def split: option.splits if_splits)

lemma removes_trans:
  "removes k s fs s1 fs1 \<Longrightarrow> removes k s1 fs1 s2 fs2 \<Longrightarrow> removes k s fs s2 fs2"
  by (auto simp: removes_def same_server_def)

lemma remove_done:
  assumes "remove_matching_socket env n k s fs = (r, s', fs')" and "path_laws env"
    and "pe_lstat_error env n = None" and "pe_unlink_error env 1 = None"
  shows "r = Inr () \<and> (\<forall>i. fs' (us_path s) = Some i \<longrightarrow> i_kind i \<noteq> SocketFile \<or> i_identity i \<noteq> k)"
  using assms by (auto simp: remove_matching_socket_def unlink_def lstat_def split: if_splits option.splits)

lemma close_done:
  "server_close env k s fs = (s', fs') \<Longrightarrow> pe_cleanup env \<Longrightarrow> fs' (us_path s) = Some i \<Longrightarrow>
   i_kind i \<noteq> SocketFile \<or> i_identity i \<noteq> k"
  by (auto simp: server_close_def split: option.splits if_splits)

text \<open>A start that is given up: the path is free again, if the removal did not fail.\<close>

definition removal_works :: "path_env \<Rightarrow> bool" where
  "removal_works env \<longleftrightarrow>
     pe_cleanup env \<or> (pe_unlink_error env 1 = None \<and> pe_lstat_error env 1 = None \<and> pe_lstat_error env 2 = None)"

lemma abandon_effect:
  assumes "abandon_start env e created identity s fs = (r, s', fs')" and "path_laws env"
    and "fs (us_path s) = Some created" and "i_kind created = SocketFile"
    and "identity = None \<or> identity = Some (i_identity created)"
  shows "(\<exists>e'. r = Inl e') \<and> removes (i_identity created) s fs s' fs' \<and>
    (removal_works env \<and> (pe_cleanup env \<or> identity \<noteq> None) \<longrightarrow> fs' (us_path s) = None)"
proof -
  obtain s1 fs1 where c: "server_close env (i_identity created) s fs = (s1, fs1)" by force
  note e1 = close_effect [OF c]
  have p: "us_path s1 = us_path s" using e1 by (auto simp: removes_def same_server_def)
  have gone: "fs1 (us_path s) = None" if "pe_cleanup env"
    using c that assms(3,4) by (auto simp: server_close_def)
  show ?thesis
  proof (cases identity)
    case None
    with assms(1) c e1 gone show ?thesis by (auto simp: abandon_start_def)
  next
    case (Some k)
    then have k: "k = i_identity created" using assms(5) by simp
    obtain r2 s2 fs2 where m: "remove_matching_socket env 2 k s1 fs1 = (r2, s2, fs2)" by (rule prod_cases3)
    note e2 = remove_effect [OF m]
    have r: "s' = s2" "fs' = fs2" "\<exists>e'. r = Inl e'"
      using assms(1) c m Some by (auto simp: abandon_start_def split: sum.splits)
    have "fs2 (us_path s) = None" if "removal_works env"
    proof (cases "fs1 (us_path s)")
      case None
      then show ?thesis using e2 p by (auto simp: removes_def)
    next
      case (Some i)
      then have "\<not> pe_cleanup env" "i = created" using gone e1 assms(3) by (auto simp: removes_def)
      moreover from this that have "pe_unlink_error env 1 = None" "pe_lstat_error env 2 = None" by (auto simp: removal_works_def)
      from remove_done [OF m assms(2) this(2,1)] e2 p Some calculation assms(4) k show ?thesis
        by (auto simp: removes_def)
    qed
    then show ?thesis using r removes_trans [OF e1 e2 [unfolded k]] by auto
  qed
qed

lemma identity_after_listen:
  "fs path = Some i \<Longrightarrow> i_kind i = SocketFile \<Longrightarrow>
   socket_identity env n path fs =
     (case pe_lstat_error env n of None \<Rightarrow> Inr (Some (i_identity i))
      | Some e \<Rightarrow> if e = FileNotFoundError then Inr None else Inl e)"
  by (auto simp: socket_identity_def lstat_def split: option.splits)

lemma start_effect:
  assumes "server_start env s fs = (r, s', fs')" and "path_laws env"
  shows "us_path s' = us_path s \<and> us_mode s' = us_mode s \<and>
    (\<exists>is. us_removed s' = us_removed s @ is \<and> list_all (\<lambda>i. i_kind i = SocketFile) is) \<and>
    (\<forall>p. p \<noteq> us_path s \<longrightarrow> fs' p = fs p) \<and>
    (\<forall>j. fs (us_path s) = Some j \<longrightarrow> i_kind j \<noteq> SocketFile \<longrightarrow> (\<exists>e. r = Inl e) \<and> fs' = fs) \<and>
    (case r of
       Inr _ \<Rightarrow> us_running s' \<and> (\<exists>i. fs' (us_path s) = Some i \<and> i_kind i = SocketFile \<and> i_mode i = us_mode s \<and>
         us_identity s' = Some (i_identity i))
     | Inl _ \<Rightarrow> us_running s' = us_running s \<and> us_identity s' = us_identity s \<and>
         (removal_works env \<longrightarrow> fs' = fs \<or> fs' (us_path s) = None))"
proof (cases "us_running s \<or> \<not> pe_unix_supported env")
  case True
  then show ?thesis using assms(1) by (auto simp: server_start_def)
next
  case False
  obtain r1 s1 fs1 where p: "prepare_socket_path env s fs = (r1, s1, fs1)" by (rule prod_cases3)
  note e1 = prepare_effect(1) [OF p]
  have path1: "us_path s1 = us_path s" "us_mode s1 = us_mode s" "us_running s1 = us_running s" "us_identity s1 = us_identity s"
    using e1 by (auto simp: same_server_def)
  have removed1: "\<exists>is. us_removed s1 = us_removed s @ is \<and> list_all (\<lambda>i. i_kind i = SocketFile) is" using e1 by auto
  have other1: "\<forall>p. p \<noteq> us_path s \<longrightarrow> fs1 p = fs p" using e1 by auto
  show ?thesis
  proof (cases r1)
    case (Inl e)
    then have "r = Inl e" "s' = s1" "fs' = fs1" using assms(1) p False by (simp_all add: server_start_def)
    then show ?thesis using e1 path1 removed1 other1 by auto
  next
    case (Inr u)
    have sock: "i_kind j = SocketFile" if "fs (us_path s) = Some j" for j
      using p that Inr assms(2) by (auto simp: prepare_socket_path_def lstat_def path_laws_def split: option.splits if_splits)
    show ?thesis
    proof (cases "pe_listen env fs1")
      case (Inl e)
      then have "r = Inl e" "s' = s1" "fs' = fs1" using assms(1) p False Inr by (simp_all add: server_start_def)
      then show ?thesis using e1 path1 removed1 other1 sock by auto
    next
      case (Inr created)
      let ?fs = "fs1(us_path s \<mapsto> created)"
      have kind: "i_kind created = SocketFile" using Inr assms(2) by (auto simp: path_laws_def)
      have ident: "socket_identity env 1 (us_path s) ?fs =
          (case pe_lstat_error env 1 of None \<Rightarrow> Inr (Some (i_identity created)) | Some e \<Rightarrow> Inl e)"
        using identity_after_listen [of ?fs "us_path s" created env 1] kind assms(2)
        by (auto simp: path_laws_def split: option.splits)
      show ?thesis
      proof (cases "pe_lstat_error env 1 = None \<and> pe_chmod_error env = None")
        case True
        then have "r = Inr ()" "s' = s1\<lparr>us_running := True, us_identity := Some (i_identity created)\<rparr>"
          "fs' = ?fs(us_path s \<mapsto> created\<lparr>i_mode := us_mode s1\<rparr>)"
          using assms(1) p False \<open>r1 = Inr u\<close> Inr ident by (simp_all add: server_start_def Let_def path1)
        then show ?thesis using path1 removed1 other1 sock kind by auto
      next
        case failed: False
        define identity where "identity = (case pe_lstat_error env 1 of None \<Rightarrow> Some (i_identity created) | Some _ \<Rightarrow> None)"
        obtain e where a: "abandon_start env e created identity s1 ?fs = (r, s', fs')"
          using assms(1) p False \<open>r1 = Inr u\<close> Inr ident failed
          by (auto simp: server_start_def Let_def identity_def split: option.splits)
        have "identity = None \<or> identity = Some (i_identity created)" by (auto simp: identity_def split: option.splits)
        from abandon_effect [OF a assms(2) _ kind this] path1
        have e2: "\<exists>e'. r = Inl e'" "removes (i_identity created) s1 ?fs s' fs'"
          "removal_works env \<and> (pe_cleanup env \<or> identity \<noteq> None) \<longrightarrow> fs' (us_path s) = None" by simp_all
        have "removal_works env \<Longrightarrow> pe_cleanup env \<or> identity \<noteq> None"
          by (auto simp: removal_works_def identity_def)
        then have "removal_works env \<longrightarrow> fs' (us_path s) = None" using e2(3) by blast
        moreover have "\<exists>is. us_removed s' = us_removed s @ is \<and> list_all (\<lambda>i. i_kind i = SocketFile) is"
          using e2(2) removed1 kind path1 by (auto simp: removes_def)
        moreover have "same_server s1 s'" using e2(2) by (simp add: removes_def)
        moreover have "\<forall>p. p \<noteq> us_path s \<longrightarrow> fs' p = fs p" using e2(2) other1 path1 by (auto simp: removes_def)
        ultimately show ?thesis using e2(1) path1 sock by (auto simp: same_server_def)
      qed
    qed
  qed
qed

lemma stop_effect:
  assumes "server_stop env s fs = (r, s', fs')"
  shows "us_path s' = us_path s \<and> \<not> us_running s' \<and> us_identity s' = None \<and>
    (us_removed s' = us_removed s \<and> fs' = fs \<or>
     (\<exists>i. fs (us_path s) = Some i \<and> i_kind i = SocketFile \<and> us_identity s = Some (i_identity i) \<and>
        us_removed s' = us_removed s @ [i] \<and> fs' = fs(us_path s := None)))"
proof (cases "us_identity s")
  case None
  then show ?thesis using assms by (auto simp: server_stop_def Let_def)
next
  case (Some k)
  let ?s1 = "s\<lparr>us_running := False, us_identity := None\<rparr>"
  obtain s2 fs2 where c: "(if us_running s then server_close env k ?s1 fs else (?s1, fs)) = (s2, fs2)" by force
  have e1: "removes k ?s1 fs s2 fs2"
    using c close_effect [of env k ?s1 fs s2 fs2] by (auto simp: removes_def split: if_splits)
  have "remove_matching_socket env 2 k s2 fs2 = (r, s', fs')"
    using assms Some c by (simp add: server_stop_def Let_def)
  from removes_trans [OF e1 remove_effect [OF this]] show ?thesis
    using Some by (auto simp: removes_def same_server_def)
qed

lemma reach_sockets: "life_reach x \<Longrightarrow> only_sockets (fst x) \<and> (us_running (fst x) \<longleftrightarrow> us_identity (fst x) \<noteq> None)"
proof (induction rule: life_reach.induct)
  case (created path max_request mode s fs)
  then show ?case
    by (auto simp: unix_server_init_def only_sockets_def split: pyval.splits option.splits if_splits)
next
  case (step x y)
  from step(2,3) show ?case
  proof cases
    case (start env s fs r s' fs')
    with start_effect [OF start(4,3)] step(3) show ?thesis
      by (cases r) (auto simp: only_sockets_def)
  next
    case (stop env s fs r s' fs')
    with stop_effect [OF stop(3)] step(3) show ?thesis by (auto simp: only_sockets_def)
  qed simp
qed

subsection \<open>Properties\<close>

text \<open>
  C36. Starting the listener is safe for the file system. Only the configured path changes, only
  sockets are removed, and a file that is not a socket makes the start fail with everything
  left as it was. A start that returns leaves its own socket at the path, with the configured
  mode and its identity remembered; one that raises does not run, and unless removing fails
  too, the path is as it was or free.
\<close>

theorem control_start_safe:
  assumes "path_laws env" and "server_start env s fs = (r, s', fs')"
  shows "(\<forall>p. p \<noteq> us_path s \<longrightarrow> fs' p = fs p) \<and>
    (\<exists>is. us_removed s' = us_removed s @ is \<and> list_all (\<lambda>i. i_kind i = SocketFile) is) \<and>
    (\<forall>j. fs (us_path s) = Some j \<longrightarrow> i_kind j \<noteq> SocketFile \<longrightarrow> (\<exists>e. r = Inl e) \<and> fs' = fs) \<and>
    (case r of
       Inr _ \<Rightarrow> us_running s' \<and> (\<exists>i. fs' (us_path s) = Some i \<and> i_kind i = SocketFile \<and> i_mode i = us_mode s \<and>
         us_identity s' = Some (i_identity i))
     | Inl _ \<Rightarrow> us_running s' = us_running s \<and> us_identity s' = us_identity s \<and>
         (removal_works env \<longrightarrow> fs' = fs \<or> fs' (us_path s) = None))"
  using start_effect [OF assms(2,1)] by blast

definition example_path_env :: path_env where
  "example_path_env = \<lparr>pe_unix_supported = True, pe_parent_isdir = True, pe_lstat_error = (\<lambda>n. None),
     pe_unlink_error = (\<lambda>n. None), pe_listen = (\<lambda>fs. Inr \<lparr>i_kind = SocketFile, i_identity = (1, 2), i_mode = 511\<rparr>),
     pe_chmod_error = None, pe_cleanup = False\<rparr>"

definition example_server :: unix_server where
  "example_server = \<lparr>us_path = lit ''s'', us_max_request = 10, us_mode = 432, us_running = False, us_identity = None,
     us_removed = []\<rparr>"

definition example_stale :: file_system where
  "example_stale = [lit ''s'' \<mapsto> \<lparr>i_kind = SocketFile, i_identity = (1, 1), i_mode = 0\<rparr>]"

lemma example_laws: "path_laws example_path_env"
  by (simp add: path_laws_def example_path_env_def)

lemma example_started:
  "\<exists>s. server_start example_path_env example_server example_stale =
     (Inr (), s, [lit ''s'' \<mapsto> \<lparr>i_kind = SocketFile, i_identity = (1, 2), i_mode = 432\<rparr>]) \<and> us_identity s = Some (1, 2)"
  by (simp add: server_start_def prepare_socket_path_def lstat_def unlink_def socket_identity_def example_path_env_def
      example_server_def example_stale_def Let_def)

lemma control_start_safe_witness:
  "\<exists>s fs i. server_start example_path_env example_server example_stale = (Inr (), s, fs) \<and>
     fs (lit ''s'') = Some i \<and> i_mode i = 432 \<and> us_identity s = Some (i_identity i)"
proof -
  obtain s fs where r: "server_start example_path_env example_server example_stale = (Inr (), s, fs)"
    using example_started by blast
  from control_start_safe [OF example_laws r] r show ?thesis by (auto simp: example_server_def)
qed

text \<open>
  C37. No file but a socket is ever removed, and stopping removes the very socket the start made,
  or nothing: in every life of a server, with anything done to the file system by others between
  its calls, a stop ends the listener and leaves the file system as it is, or without the socket
  at the path whose identity the start remembered.
\<close>

theorem control_stop_removes_own:
  assumes "life_reach (s, fs)" and "server_stop env s fs = (r, s', fs')"
  shows "only_sockets s' \<and> \<not> us_running s' \<and> us_identity s' = None \<and>
    (us_removed s' = us_removed s \<and> fs' = fs \<or>
     (\<exists>i. fs (us_path s) = Some i \<and> i_kind i = SocketFile \<and> us_identity s = Some (i_identity i) \<and>
        us_removed s' = us_removed s @ [i] \<and> fs' = fs(us_path s := None)))"
proof -
  have "life_reach (s', fs')" using life_reach.step [OF assms(1) life_step.stop [OF assms(2)]] .
  from reach_sockets [OF this] stop_effect [OF assms(2)] show ?thesis by simp
qed

text \<open>Another process has put its own socket at the path: it stays.\<close>

lemma control_stop_removes_own_witness:
  "\<exists>s r s'. life_reach (s, [lit ''s'' \<mapsto> \<lparr>i_kind = SocketFile, i_identity = (7, 7), i_mode = 0\<rparr>]) \<and>
     us_identity s = Some (1, 2) \<and>
     server_stop example_path_env s [lit ''s'' \<mapsto> \<lparr>i_kind = SocketFile, i_identity = (7, 7), i_mode = 0\<rparr>] =
       (r, s', [lit ''s'' \<mapsto> \<lparr>i_kind = SocketFile, i_identity = (7, 7), i_mode = 0\<rparr>]) \<and> \<not> us_running s'"
proof -
  let ?foreign = "[lit ''s'' \<mapsto> \<lparr>i_kind = SocketFile, i_identity = (7, 7), i_mode = 0\<rparr>]"
  have "unix_server_init (PStr (lit ''s'')) (PInt 10) (PInt 432) = Inr example_server"
    by (simp add: unix_server_init_def example_server_def lit_def)
  from life_reach.created [OF this] have "life_reach (example_server, example_stale)" .
  moreover obtain s fs where s: "server_start example_path_env example_server example_stale = (Inr (), s, fs)"
    "us_identity s = Some (1, 2)" using example_started by blast
  ultimately have "life_reach (s, fs)" using life_reach.step life_step.start [OF example_laws s(1)] by blast
  then have l: "life_reach (s, ?foreign)" using life_reach.step life_step.others by blast
  obtain r s' fs' where t: "server_stop example_path_env s ?foreign = (r, s', fs')" by (rule prod_cases3)
  from control_stop_removes_own [OF l t] s(2) have "fs' = ?foreign" "\<not> us_running s'" by (auto split: if_splits)
  with l t s(2) show ?thesis by blast
qed

end
