(* ===== verification/Spec2Isabelle.thy ===== *)
theory Spec2Isabelle
  imports PyText Dedup TtlMap Processor ControlSocket SecureListener Forwarder RuntimeQueue Runtime RuntimeControl SproxyInput SproxyOutput Sproxy ControlClient ControlListener
begin

text \<open>
AISMixer collects AIS sentences from several inputs, joins the parts of multipart messages,
drops duplicates, and forwards each message with a metadata (TAG) header to the UDP targets
that the active routing selects. This library models its Python code under src/ and proves
what makes each part correct.

The parts and how they interact.
  A datagram of a plain UDP input, or of the encrypted input (aismixer_secure.py), becomes an
  ingress frame (core/ingress_frame.py) and waits in a queue. One consumer takes the items in
  order and calls the data-plane processor (core/python_data_plane.py): it scans the frame for
  sentences (core/nmea_scanner.py), parses them with their TAG blocks (core/parsed_sentence.py),
  feeds the fragments to the assembler (assembler.py), asks the deduplicator (dedup.py), keeps
  track of active sources (core/utils/ttlmap.py, core/state/s_cache.py), chooses a source value
  (core/s_policy.py), and writes the output bytes (meta_writer.py, core/output_builder.py).
  Each frame is bound to the routing snapshot that is active when it is admitted to processing
  (core/routing*.py), which names its target numbers, and the forwarder sends it. Operators
  replace the routing or read counters by JSON requests on a Unix socket
  (core/routing_control_protocol.py, core/routing_control_unix.py), most often with the command
  line of aismixerctl.py through core/routing_control_unix_client.py. The proxy nmea_sproxy
  runs next to a receiver: it reads lines from UDP or a serial port, extracts the sentences, and
  forwards them, plainly or encrypted to the secure input.

The theories, in the order of their imports.
  Prelude: Python values, bytes, text, clocks, the exception classes with their hierarchy,
    results as py_error + 'a, and the lemmas all theories share. PyText: the methods of str
    and bytes the source uses, and UTF-8 (strict, ignoring and surrogate preserving).
  ExpiringFifo: the contract of Dedup and ExpiringSet as a locale: an insertion-ordered store
    in which a key is accepted at most once per time to live. Dedup: Deduplicator of dedup.py.
    ExpiringSet: _BoundedExpiringSet of aismixer_secure.py. Both interpret the locale.
  TtlMap: TTLMap of core/utils/ttlmap.py and SourceState of core/state/s_cache.py.
  IngressFrame, NmeaScanner, ParsedSentence: the path from payload bytes to fragments.
  Assembler: AIVDMAssembler of assembler.py. SPolicy, MetaWriter: the output header.
  Metrics, DataPlane: the validating snapshot constructors of core/metrics.py,
    core/runtime_statistics.py and core/data_plane.py.
  Processor: PythonDataPlaneProcessor, with process and reset composed of the parts above.
  Identity: core/source_identity.py and core/target_identity.py. Routing: core/routing.py.
  RoutingControl: core/routing_state.py, core/runtime_routing.py and core/routing_control.py;
    a locale of versioned stores, interpreted on the routing state.
  Json: loads and dumps of the standard library. ControlProtocol, ControlJson: the request and
    response objects and their text. ControlSocket: the connection loop of
    core/routing_control_unix.py, and several connections interleaved on one service.
  NetworkPolicy: core/network_policy.py with the parts of ipaddress it uses, on words of
    32 and 128 bits.
  SecureState: the sessions of aismixer_secure.py. SecureInvariant: its invariant and what
    follows over any sequence of calls. UdpsecProtocol: the hello packets of
    core/udpsec_protocol.py. UdpsecCrypto: the transcripts, signatures and session keys of
    core/udpsec_crypto.py. SecureListener: one datagram of the encrypted input as one step.
  Forwarder: forwarder.py with its transports and traffic counters.
  RuntimeQueue: the queues of aismixer.py, as observed queues and as the bounded processing
    queue with its waiting producers. Runtime: the ingress, processing and egress stages of
    aismixer.py over these queues, a step between two suspensions, with the processor, the routing and the
    forwarder as they are used there. RuntimeControl: core/runtime_control.py.
  SproxyInput: nmea_sproxy/input_adapters.py, with the serial framer, and the reader thread
    against its consumer on the bounded line queue. SproxyOutput:
    nmea_sproxy/output_adapters.py. Sproxy: sentence extraction, handshake and session loop of
    nmea_sproxy/nmea_sproxy.py.
  ControlTables: the checks and tables of aismixerctl.py for the statistics. ControlClient:
    core/routing_control_unix_client.py and the commands of aismixerctl.py up to the exit code.
    ControlListener: the socket file of core/routing_control_unix.py from start to close.

What the lemmas show.
  Invariants: every operation of a stateful part (deduplicator, TTL map, assembler, processor,
    secure state) keeps the well-formedness of its state, which is established by its
    constructor; bounds, accounting identities and the validity of every snapshot follow.
  Functional behaviour: what each call returns and changes on every branch, errors included:
    which exceptions can leave a call, and that the others cannot.
  Reference definitions: zones denote sets of sources, compiled routing plans decide as the
    descriptive ones, the connection loop answers as if it received whole lines, and
    concurrent connections act as some order of whole requests. The queues and stages of the
    runtime send what the processor gives for the frames in their order, and drain when no more
    arrive and no task has failed. Client and server of the control socket together do what the service does.
  Round trips: hello packets, JSON texts, output datagrams, signatures.
  Security: a frame leaves the encrypted input only for a packet that decrypts under a session
    whose handshake was signed by the named station, and at most once per session and nonce. The
    proxy starts a session only with a server that signed the handshake, and a session that
    gets no answers ends. A control client returns only the response to its own request, and
    the control listener removes no file but its own or a stale socket.

Time, randomness and the outside.
  A clock reading, an id from the generator, random bytes and the result of an input or output
  call are arguments or come from an environment, one per call and in the order of the code.
  The package cryptography is a record of functions; what the code relies on (decryption
  inverts encryption, a signature verifies under its key) is a hypothesis of the theorems that
  need it. Clock readings are integers: the code compares and subtracts readings only, so the
  unit is immaterial; the rounding of floating point subtraction is not modelled.

Termination. Every definition is total. Loops that consume a queue, a text or a buffer are
  structural or carry a measure, so no definition has fuel; the depth argument of the JSON
  parser is the recursion limit of the interpreter, which the code meets as RecursionError.

Not modelled. The loading of configuration and key files and main of aismixer.py and of
  nmea_sproxy.py, the receive loop of core/udp_listener.py, the key tools, argparse, the
  interactive shell of aismixerctl.py (history, completion), log messages and the texts of
  errors: input and output, and glue between the parts above.
\<close>

end
